(* ===== verification/Py_Prelude.thy ===== *)
theory Py_Prelude
  imports Main "HOL-Library.Sublist" "HOL-Library.Multiset"
begin

text \<open>
  What the components share: the Python exceptions the adapters raise or catch, the string
  operations they use on environment variables and tensor names, the JSON values they
  read, index arithmetic (alignment, slices, chunked loops), and the contract of a contiguous
  partition of rows over the ranks of a tensor-parallel group, which three components provide.
  A character stands for a code point below 256; every name, flag and key the adapters
  compare is ASCII.
\<close>

section \<open>Collections and results\<close>

named_theorems res_simps \<open>evaluation of result-valued computations\<close>
named_theorems slice_simps \<open>slices of lists\<close>

datatype py_error =
    ValueError
  | RuntimeError
  | AssertionError
  | KeyError
  | IndexError
  | TypeError
  | AttributeError
  | ZeroDivisionError
  | IOError
  | SystemExit

type_synonym 'a res = "py_error + 'a"

type_synonym environ = "string \<rightharpoonup> string"

definition bind_res :: "'a res \<Rightarrow> ('a \<Rightarrow> 'b res) \<Rightarrow> 'b res" where
  "bind_res m f = (case m of Inl e \<Rightarrow> Inl e | Inr x \<Rightarrow> f x)"

lemma bind_res_simps [simp, res_simps]:
  "bind_res (Inl e) f = Inl e"
  "bind_res (Inr x) f = f x"
  by (simp_all add: bind_res_def)

lemma bind_res_assoc: "bind_res (bind_res m f) g = bind_res m (\<lambda>x. bind_res (f x) g)"
  by (cases m) simp_all

lemma bind_res_Inr_iff [res_simps]:
  "bind_res m f = Inr y \<longleftrightarrow> (\<exists>x. m = Inr x \<and> f x = Inr y)"
  by (cases m) simp_all

text \<open>\<open>os.environ.get(name, default)\<close>.\<close>

definition env_get :: "environ \<Rightarrow> string \<Rightarrow> string \<Rightarrow> string" where
  "env_get env name dflt = (case env name of None \<Rightarrow> dflt | Some v \<Rightarrow> v)"

section \<open>Strings\<close>

definition py_isspace :: "char \<Rightarrow> bool" where
  "py_isspace c = (let n = (of_char c :: nat) in
     (9 \<le> n \<and> n \<le> 13) \<or> (28 \<le> n \<and> n \<le> 32) \<or> n = 133 \<or> n = 160)"

definition py_strip :: "string \<Rightarrow> string" where
  "py_strip s = rev (dropWhile py_isspace (rev (dropWhile py_isspace s)))"

definition lower_char :: "char \<Rightarrow> char" where
  "lower_char c = (let n = (of_char c :: nat) in
     if 65 \<le> n \<and> n \<le> 90 then char_of (n + 32) else c)"

definition py_lower :: "string \<Rightarrow> string" where
  "py_lower s = map lower_char s"

definition startswith :: "string \<Rightarrow> string \<Rightarrow> bool" where
  "startswith s p = (take (length p) s = p)"

definition endswith :: "string \<Rightarrow> string \<Rightarrow> bool" where
  "endswith s p = (length p \<le> length s \<and> drop (length s - length p) s = p)"

text \<open>\<open>s.split(sep, 1)\<close>: the text before the first occurrence and the text after it, if any.\<close>

fun split_once :: "string \<Rightarrow> string \<Rightarrow> (string \<times> string) option" where
  "split_once sep [] = (if sep = [] then Some ([], []) else None)"
| "split_once sep (c # s) =
     (if startswith (c # s) sep then Some ([], drop (length sep) (c # s))
      else map_option (\<lambda>(a, b). (c # a, b)) (split_once sep s))"

definition contains_str :: "string \<Rightarrow> string \<Rightarrow> bool" where
  "contains_str sep s = (split_once sep s \<noteq> None)"

text \<open>\<open>s.split(c)\<close> for a one-character separator.\<close>

fun split_char :: "char \<Rightarrow> string \<Rightarrow> string list" where
  "split_char sep [] = [[]]"
| "split_char sep (c # s) =
     (if c = sep then [] # split_char sep s
      else (case split_char sep s of [] \<Rightarrow> [[c]] | w # ws \<Rightarrow> (c # w) # ws))"

lemma split_char_nonempty [simp]: "split_char sep s \<noteq> []"
  by (induction s) (auto split: list.splits)

lemma startswith_iff_prefix: "startswith s p \<longleftrightarrow> prefix p s"
  by (auto simp: startswith_def prefix_def) (metis append_take_drop_id)

lemma split_once_Some:
  "split_once sep s = Some (a, b) \<Longrightarrow> s = a @ sep @ b"
proof (induction s arbitrary: a)
  case Nil
  then show ?case by (auto split: if_splits)
next
  case (Cons c s)
  show ?case
  proof (cases "startswith (c # s) sep")
    case True
    with Cons.prems show ?thesis
      by (auto simp: startswith_def) (metis append_take_drop_id)
  next
    case False
    with Cons.prems Cons.IH show ?thesis by auto
  qed
qed

text \<open>\<open>int(s)\<close>: surrounding white space, one sign, decimal digits with single underscores
  between them; \<open>None\<close> is \<open>ValueError\<close>.\<close>

definition digit_of :: "char \<Rightarrow> int option" where
  "digit_of c = (let n = (of_char c :: nat) in
     if 48 \<le> n \<and> n \<le> 57 then Some (int n - 48) else None)"

fun py_digits :: "bool \<Rightarrow> int \<Rightarrow> string \<Rightarrow> int option" where
  "py_digits ok acc [] = (if ok then Some acc else None)"
| "py_digits ok acc (c # s) =
     (case digit_of c of
        Some d \<Rightarrow> py_digits True (10 * acc + d) s
      | None \<Rightarrow> if c = CHR ''_'' \<and> ok then py_digits False acc s else None)"

definition py_int :: "string \<Rightarrow> int option" where
  "py_int s = (case py_strip s of
      [] \<Rightarrow> None
    | c # t \<Rightarrow>
        if c = CHR ''-'' then map_option uminus (py_digits False 0 t)
        else if c = CHR ''+'' then py_digits False 0 t
        else py_digits False 0 (c # t))"

text \<open>\<open>str(n)\<close> of a non-negative integer.\<close>

function show_nat :: "nat \<Rightarrow> string" where
  "show_nat n = (if n < 10 then [char_of (48 + n)] else show_nat (n div 10) @ [char_of (48 + n mod 10)])"
  by pat_completeness auto
termination
  by (relation "measure id") auto

declare show_nat.simps [simp del]

section \<open>JSON values\<close>

text \<open>A parsed JSON document. A dictionary keeps its insertion order.\<close>

datatype json =
    JNull
  | JBool bool
  | JInt int
  | JStr string
  | JList "json list"
  | JDict "(string \<times> json) list"

section \<open>Index arithmetic\<close>

definition slice :: "nat \<Rightarrow> nat \<Rightarrow> 'a list \<Rightarrow> 'a list" where
  "slice lo hi xs = take (hi - lo) (drop lo xs)"

lemma length_slice [simp, slice_simps]:
  "length (slice lo hi xs) = min (hi - lo) (length xs - lo)"
  by (simp add: slice_def)

lemma slice_Nil [simp, slice_simps]: "slice lo hi [] = []"
  by (simp add: slice_def)

lemma slice_self [simp, slice_simps]: "slice lo lo xs = []"
  by (simp add: slice_def)

lemma slice_all [slice_simps]: "length xs \<le> hi \<Longrightarrow> slice 0 hi xs = xs"
  by (simp add: slice_def)

lemma nth_slice [slice_simps]:
  "i < hi - lo \<Longrightarrow> lo + i < length xs \<Longrightarrow> slice lo hi xs ! i = xs ! (lo + i)"
  by (simp add: slice_def)

lemma slice_append_slice [slice_simps]:
  assumes "a \<le> b" and "b \<le> c"
  shows "slice a b xs @ slice b c xs = slice a c xs"
proof -
  obtain k where b: "b = a + k" using assms(1) le_Suc_ex by blast
  obtain l where c: "c = b + l" using assms(2) le_Suc_ex by blast
  show ?thesis
    by (simp add: slice_def b c take_add add.commute)
qed

lemma drop_slice: "a \<le> b \<Longrightarrow> drop a xs = slice a b xs @ drop b xs"
  by (metis append_take_drop_id drop_drop le_add_diff_inverse2 slice_def)

lemma slice_slice:
  assumes "c \<le> b - a"
  shows "slice d c (slice a b xs) = slice (a + d) (a + c) xs"
  using assms by (simp add: slice_def drop_take min_def add.commute)

lemma concat_even_slices:
  "concat (map (\<lambda>r. slice (a + r * c) (a + Suc r * c) xs) [0..<k]) = slice a (a + k * c) xs"
proof (induction k)
  case 0
  show ?case by simp
next
  case (Suc k)
  have "slice a (a + k * c) xs @ slice (a + k * c) (a + Suc k * c) xs = slice a (a + Suc k * c) xs"
    by (rule slice_append_slice) simp_all
  with Suc show ?case by simp
qed

lemma slice_concat_uniform:
  assumes "\<And>i. i < k \<Longrightarrow> length (f i) = c" and "j < k"
  shows "slice (j * c) (Suc j * c) (concat (map f [0..<k])) = f j"
proof -
  have len: "length (concat (map f [0..<m])) = m * c" if "m \<le> k" for m
    using that assms(1) by (induction m) auto
  have "[0..<k] = [0..<j] @ j # [Suc j..<k]"
    using assms(2) by (metis less_imp_add_positive upt_add_eq_append upt_conv_Cons zero_le_numeral
        add.commute add_cancel_right_left le0 less_add_same_cancel1)
  then have "concat (map f [0..<k]) = concat (map f [0..<j]) @ f j @ concat (map f [Suc j..<k])"
    by simp
  then show ?thesis using assms len [of j] by (simp add: slice_def)
qed

lemma map_upt_shift: "map f [a..<a + k] = map (\<lambda>i. f (a + i)) [0..<k]"
  by (rule nth_equalityI) auto

definition ceil_to :: "nat \<Rightarrow> nat \<Rightarrow> nat" where
  "ceil_to n d = ((n + d - 1) div d) * d"

lemma ceil_to_dvd [simp]: "d dvd ceil_to n d"
  by (simp add: ceil_to_def)

lemma ceil_to_ge: "0 < d \<Longrightarrow> n \<le> ceil_to n d"
proof -
  assume d: "0 < d"
  have "n + d - 1 = (n + d - 1) div d * d + (n + d - 1) mod d" by simp
  moreover have "(n + d - 1) mod d \<le> d - 1" using d by (simp add: less_Suc_eq_le [symmetric])
  ultimately show ?thesis unfolding ceil_to_def using d by linarith
qed

lemma ceil_to_least: "0 < d \<Longrightarrow> d dvd m \<Longrightarrow> n \<le> m \<Longrightarrow> ceil_to n d \<le> m"
proof -
  assume d: "0 < d" and "d dvd m" and n: "n \<le> m"
  then obtain k where m: "m = d * k" by (auto elim: dvdE)
  have "(n + d - 1) div d \<le> (d * k + d - 1) div d"
    using n m by (intro div_le_mono) simp
  also have "(d * k + d - 1) div d = k"
    using d by (simp add: div_nat_eqI)
  finally show ?thesis by (simp add: ceil_to_def m mult.commute)
qed

lemma ceil_to_lt: "0 < d \<Longrightarrow> ceil_to n d < n + d"
  by (simp add: ceil_to_def) (metis One_nat_def Suc_pred add_gr_0 div_times_less_eq_dividend
      le_imp_less_Suc trans_less_add2)

end
