(* ===== verification/Fast_Plan.thy ===== *)
theory Fast_Plan
  imports Py_Prelude Complex_Main "HOL-Library.List_Lexorder" "HOL-Library.Char_ord"
begin

text \<open>
  The planning half of \<open>adapter/fast_load.py\<close>: which tensors of a safetensors shard this rank
  reads eagerly, which slice of a routed expert it keeps, how many bytes that reads and keeps,
  which byte ranges of the file it touches, and how the kept bytes are packed into pinned
  slabs. A shard header is the association list of its entries in file order; all counts are
  Python integers (\<open>int\<close>).
\<close>

section \<open>Data\<close>

record tinfo =
  ti_dtype :: string
  ti_shape :: "int list"
  ti_a :: int
  ti_b :: int

type_synonym header = "(string \<times> tinfo) list"

datatype phase = Target | Draft

type_synonym layout = "(int \<times> int) option"  \<comment> \<open>(rank, size) or unknown\<close>

type_synonym spec = "int \<times> int \<times> int"  \<comment> \<open>(dim, start, length)\<close>

type_synonym plan = "(string \<times> spec option) list"

type_synonym member = "string \<times> int \<times> int"  \<comment> \<open>(name, offset, kept bytes)\<close>

type_synonym slab = "int \<times> member list"

section \<open>Switches\<close>

definition enabled :: "environ \<Rightarrow> bool" where
  "enabled env = (py_strip (env_get env ''DSV41_FAST_LOAD'' ''0'') \<in> {''1'', ''on'', ''true''})"

definition observing :: "environ \<Rightarrow> bool" where
  "observing env = (enabled env \<or>
     py_strip (env_get env ''DSV41_FAST_LOAD'' ''0'') = ''observe'')"

datatype slice_mode = SliceOff | SliceOn | SliceAuto

definition tp_slice_mode :: "environ \<Rightarrow> slice_mode" where
  "tp_slice_mode env = (let v = py_lower (py_strip (env_get env ''DSV41_FAST_LOAD_TP_SLICE'' ''auto'')) in
     if v \<in> {''0'', ''off'', ''false''} then SliceOff
     else if v \<in> {''1'', ''on'', ''true'', ''force''} then SliceOn
     else SliceAuto)"

text \<open>\<open>_ep_info\<close> and \<open>_moe_tp_info\<close>: the engine's answers are arguments (\<open>None\<close> where
  the import or the call raised); \<open>tp\<close> is (TP rank, TP size).\<close>

definition ep_info :: "layout \<Rightarrow> layout \<Rightarrow> environ \<Rightarrow> layout \<Rightarrow> layout" where
  "ep_info gp ps env tp =
     (case gp of Some x \<Rightarrow> Some x
      | None \<Rightarrow> (case ps of Some x \<Rightarrow> Some x
        | None \<Rightarrow> (case Option.bind (env ''DSV41_FAST_LOAD_EP_SIZE'') py_int of
            None \<Rightarrow> None
          | Some ep_size \<Rightarrow> (case tp of
              None \<Rightarrow> None
            | Some (tp_rank, tp_size) \<Rightarrow>
                if ep_size = 0 \<or> tp_size div ep_size = 0 then None
                else Some (tp_rank div (tp_size div ep_size), ep_size)))))"

definition moe_tp_info :: "layout \<Rightarrow> layout \<Rightarrow> environ \<Rightarrow> layout \<Rightarrow> layout" where
  "moe_tp_info gp ps env tp =
     (case gp of Some x \<Rightarrow> Some x
      | None \<Rightarrow> (case ps of Some x \<Rightarrow> Some x
        | None \<Rightarrow> (case Option.bind (env ''DSV41_FAST_LOAD_EP_SIZE'') py_int of
            None \<Rightarrow> None
          | Some ep_size \<Rightarrow> (case tp of
              None \<Rightarrow> None
            | Some (tp_rank, tp_size) \<Rightarrow>
                if ep_size = 0 \<or> tp_size div ep_size = 0 then None
                else Some (tp_rank mod (tp_size div ep_size), tp_size div ep_size)))))"

definition tp_slicing :: "layout \<Rightarrow> layout \<Rightarrow> slice_mode \<Rightarrow> layout" where
  "tp_slicing ep tp mode =
     (case tp of
        None \<Rightarrow> None
      | Some (r, n) \<Rightarrow>
          if mode = SliceOff \<or> n \<le> 1 then None
          else if mode = SliceAuto \<and> (ep = None \<or> snd (the ep) \<noteq> 1) then None
          else Some (r, n))"

section \<open>Routed experts\<close>

text \<open>\<open>_find_key\<close>: depth-first search of a parsed JSON document; \<open>JNull\<close> is Python's None.\<close>

fun find_key :: "json \<Rightarrow> string \<Rightarrow> json"
  and find_key_values :: "(string \<times> json) list \<Rightarrow> string \<Rightarrow> json" where
  "find_key (JDict kvs) key =
     (case map_of kvs key of Some v \<Rightarrow> v | None \<Rightarrow> find_key_values kvs key)"
| "find_key _ key = JNull"
| "find_key_values [] key = JNull"
| "find_key_values ((k, v) # kvs) key =
     (let hit = find_key v key in if hit \<noteq> JNull then hit else find_key_values kvs key)"

text \<open>\<open>int(hit)\<close> of a JSON value: an integer, a boolean or a numeric string.\<close>

definition json_int :: "json \<Rightarrow> int option" where
  "json_int v = (case v of JInt i \<Rightarrow> Some i | JBool b \<Rightarrow> Some (if b then 1 else 0)
     | JStr s \<Rightarrow> py_int s | _ \<Rightarrow> None)"

text \<open>\<open>cfg\<close> is the parsed \<open>config.json\<close> beside the shard, \<open>None\<close> where opening or parsing it
  raised. The environment fallback raises on text that is no integer.\<close>

definition n_routed_experts :: "json option \<Rightarrow> environ \<Rightarrow> int option res" where
  "n_routed_experts cfg env =
     (case Option.bind cfg (\<lambda>c. json_int (find_key c ''n_routed_experts'')) of
        Some n \<Rightarrow> Inr (Some n)
      | None \<Rightarrow> (case env ''DSV41_FAST_LOAD_N_EXPERTS'' of
          None \<Rightarrow> Inr None
        | Some s \<Rightarrow> if s = '''' then Inr None
            else (case py_int s of None \<Rightarrow> Inl ValueError | Some n \<Rightarrow> Inr (Some n))))"

definition expert_id :: "string \<Rightarrow> int option" where
  "expert_id name =
     (case split_once ''.experts.'' name of
        None \<Rightarrow> None
      | Some (_, rest) \<Rightarrow>
          py_int (case split_once ''.'' rest of None \<Rightarrow> rest | Some (w, _) \<Rightarrow> w))"

section \<open>Names, slices and the read plan\<close>

definition draft_prefix :: string where "draft_prefix = ''mtp.''"

definition engram_table :: string where "engram_table = ''.engram.embed.''"

definition needed_names :: "header \<Rightarrow> phase \<Rightarrow> layout \<Rightarrow> int option \<Rightarrow> string list" where
  "needed_names header ph ep n_routed =
     (let ks = map fst header in
      if ph = Draft then filter (\<lambda>k. startswith k draft_prefix) ks
      else (case (ep, n_routed) of
          (Some (rank, sz), Some n) \<Rightarrow>
            if n mod sz \<noteq> 0
            then filter (\<lambda>k. \<not> startswith k draft_prefix \<and> \<not> contains_str engram_table k
                   \<and> expert_id k = None) ks
            else (let per_rank = n div sz; lo = rank * per_rank; hi = (rank + 1) * per_rank in
              filter (\<lambda>k. \<not> startswith k draft_prefix \<and> \<not> contains_str engram_table k
                \<and> (case expert_id k of None \<Rightarrow> True | Some e \<Rightarrow> lo \<le> e \<and> e < hi)) ks)
        | _ \<Rightarrow> filter (\<lambda>k. \<not> startswith k draft_prefix \<and> \<not> contains_str engram_table k
                   \<and> expert_id k = None) ks))"

definition tp_slice_dim :: "string \<Rightarrow> nat option" where
  "tp_slice_dim w = (if w = ''w1'' \<or> w = ''w3'' then Some 0 else if w = ''w2'' then Some 1 else None)"

definition slice_spec :: "string \<Rightarrow> tinfo \<Rightarrow> layout \<Rightarrow> spec option" where
  "slice_spec name info tp =
     (case tp of
        None \<Rightarrow> None
      | Some (rank, sz) \<Rightarrow>
          if expert_id name = None then None
          else (let parts = split_char CHR ''.'' name; k = length parts in
            if k < 3 \<or> parts ! (k - 1) \<notin> {''weight'', ''scale''} then None
            else (case tp_slice_dim (parts ! (k - 2)) of
                None \<Rightarrow> None
              | Some dm \<Rightarrow>
                  if length (ti_shape info) \<le> dm \<or> ti_shape info ! dm mod sz \<noteq> 0 then None
                  else (let len = ti_shape info ! dm div sz in
                    Some (int dm, rank * len, len)))))"

definition read_plan :: "header \<Rightarrow> phase \<Rightarrow> layout \<Rightarrow> int option \<Rightarrow> layout \<Rightarrow> bool \<Rightarrow> plan" where
  "read_plan header ph ep n_routed tp experts =
     (let names = needed_names header ph ep n_routed;
          names = (if experts then names else filter (\<lambda>k. expert_id k = None) names)
      in map (\<lambda>k. (k, slice_spec k (the (map_of header k)) tp)) names)"

definition itemsize :: "string \<Rightarrow> int" where
  "itemsize d =
     (if d \<in> {''F64'', ''I64''} then 8
      else if d \<in> {''F32'', ''I32''} then 4
      else if d \<in> {''BF16'', ''F16'', ''I16''} then 2 else 1)"

text \<open>\<open>_slice_geometry\<close>: the tensor as \<open>[outer, shape[dim], inner]\<close> with rows of bytes.\<close>

definition slice_geometry :: "tinfo \<Rightarrow> spec \<Rightarrow> int \<times> int \<times> int" where
  "slice_geometry info spec =
     (let dm = nat (fst spec); shape = ti_shape info;
          outer = fold (\<lambda>s acc. acc * s) (take dm shape) 1;
          inner = fold (\<lambda>s acc. acc * s) (drop (Suc dm) shape) (itemsize (ti_dtype info))
      in (outer, shape ! dm * inner, inner))"

definition spec_bytes :: "tinfo \<Rightarrow> spec option \<Rightarrow> int \<times> int" where
  "spec_bytes info sp =
     (case sp of
        None \<Rightarrow> (ti_b info - ti_a info, ti_b info - ti_a info)
      | Some (dm, start, len) \<Rightarrow>
          (let (outer, row, inner) = slice_geometry info (dm, start, len);
               kept = outer * len * inner
           in (if outer = 1 then kept else outer * row, kept)))"

section \<open>Byte ranges\<close>

text \<open>The merge loop shared by \<open>needed_ranges\<close> and \<open>plan_ranges\<close>; the accumulator is the list
  built so far, last range first.\<close>

fun merge_ranges :: "(int \<times> int) list \<Rightarrow> (int \<times> int) list \<Rightarrow> (int \<times> int) list" where
  "merge_ranges acc [] = rev acc"
| "merge_ranges acc ((a, b) # rs) =
     (case acc of
        (p, q) # acc' \<Rightarrow>
          if a \<le> q then merge_ranges ((p, max q b) # acc') rs
          else merge_ranges ((a, b) # acc) rs
      | [] \<Rightarrow> merge_ranges [(a, b)] rs)"

definition sort_ranges :: "(int \<times> int) list \<Rightarrow> (int \<times> int) list" where
  "sort_ranges rs = sort_key fst (sort_key snd rs)"  \<comment> \<open>Python's order of pairs\<close>

definition needed_ranges :: "int \<Rightarrow> header \<Rightarrow> phase \<Rightarrow> layout \<Rightarrow> int option \<Rightarrow> (int \<times> int) list" where
  "needed_ranges base header ph ep n_routed =
     merge_ranges [] (sort_ranges
       [(base + ti_a i, base + ti_b i).
          i \<leftarrow> map (\<lambda>k. the (map_of header k)) (needed_names header ph ep n_routed), ti_b i > ti_a i])"

definition entry_range :: "tinfo \<Rightarrow> spec option \<Rightarrow> int \<times> int" where
  "entry_range info sp =
     (case sp of
        None \<Rightarrow> (ti_a info, ti_b info)
      | Some (dm, start, len) \<Rightarrow>
          (let (outer, row, inner) = slice_geometry info (dm, start, len) in
           if outer = 1 then (ti_a info + start * inner, ti_a info + (start + len) * inner)
           else (ti_a info, ti_b info)))"

definition plan_ranges :: "int \<Rightarrow> header \<Rightarrow> plan \<Rightarrow> (int \<times> int) list" where
  "plan_ranges base header plan =
     merge_ranges [] (sort_ranges
       [(base + fst (entry_range i sp), base + snd (entry_range i sp)).
          (i, sp) \<leftarrow> map (\<lambda>(k, sp). (the (map_of header k), sp)) plan, ti_b i > ti_a i])"

section \<open>Slabs\<close>

text \<open>\<open>n.bit_length()\<close> of a non-negative integer.\<close>

function bit_length :: "int \<Rightarrow> nat" where
  "bit_length n = (if n \<le> 0 then 0 else Suc (bit_length (n div 2)))"
  by pat_completeness auto
termination
  by (relation "measure nat") auto

declare bit_length.simps [simp del]

text \<open>\<open>slab_bytes\<close>: \<open>mb\<close> is the value of the environment variable as a number, \<open>None\<close> where
  \<open>float\<close> raised \<open>ValueError\<close>. The product with \<open>2**20\<close> is exact in binary floating point.\<close>

definition slab_bytes :: "rat option \<Rightarrow> int" where
  "slab_bytes mb =
     (let m = (case mb of None \<Rightarrow> 256 | Some m \<Rightarrow> m) in
      if m \<le> 0 then 0
      else (let n = max (2 ^ 20) \<lfloor>m * 2 ^ 20\<rfloor> in 2 ^ (bit_length n - 1)))"

definition slab_align :: int where "slab_align = 4096"

definition align :: "int \<Rightarrow> int" where
  "align n = (n + slab_align - 1) div slab_align * slab_align"

text \<open>The loop of \<open>slab_layout\<close> over (name, kept bytes) in sorted name order, with the open slab
  \<open>cur\<close> and its fill \<open>used\<close>.\<close>

fun pack_slabs :: "int \<Rightarrow> member list \<Rightarrow> int \<Rightarrow> (string \<times> int) list \<Rightarrow> slab list" where
  "pack_slabs slab cur used [] = (if cur \<noteq> [] then [(min used slab, cur)] else [])"
| "pack_slabs slab cur used ((name, kept) # xs) =
     (if kept \<le> 0 then pack_slabs slab cur used xs
      else if kept > slab then (kept, [(name, 0, kept)]) # pack_slabs slab cur used xs
      else if cur \<noteq> [] \<and> used + kept > slab
        then (used, cur) # pack_slabs slab [(name, 0, kept)] (align (0 + kept)) xs
        else pack_slabs slab (cur @ [(name, used, kept)]) (align (used + kept)) xs)"

fun plan_items :: "header \<Rightarrow> plan \<Rightarrow> (string \<times> int) list res" where
  "plan_items header [] = Inr []"
| "plan_items header ((name, sp) # ps) =
     (case map_of header name of
        None \<Rightarrow> Inl KeyError
      | Some info \<Rightarrow> bind_res (plan_items header ps)
          (\<lambda>r. Inr ((name, snd (spec_bytes info sp)) # r)))"

definition slab_layout :: "header \<Rightarrow> plan \<Rightarrow> int \<Rightarrow> slab list res" where
  "slab_layout header plan slab =
     bind_res (plan_items header (sort_key fst plan)) (\<lambda>items. Inr (pack_slabs slab [] 0 items))"

section \<open>Alignment and slab size\<close>

lemma align_bounds: "n \<le> align n" "align n < n + slab_align"
  by (simp_all add: align_def slab_align_def)

lemma align_dvd [simp]: "slab_align dvd align n"
  by (simp add: align_def)

lemma align_le: "slab_align dvd s \<Longrightarrow> n \<le> s \<Longrightarrow> align n \<le> s"
  by (auto simp: align_def slab_align_def elim!: dvdE)

lemma bit_length_bounds: "0 < n \<Longrightarrow> 2 ^ (bit_length n - 1) \<le> n \<and> n < 2 ^ bit_length n"
proof (induction n rule: bit_length.induct)
  case (1 n)
  show ?case
  proof (cases "n div 2 = 0")
    case True
    with "1.prems" have "n = 1" by linarith
    then show ?thesis by (simp add: bit_length.simps [of 1] bit_length.simps [of 0])
  next
    case False
    then have "0 < n div 2" using "1.prems" by linarith
    then have IH: "2 ^ (bit_length (n div 2) - 1) \<le> n div 2 \<and> n div 2 < 2 ^ bit_length (n div 2)"
      using "1.IH" "1.prems" by simp
    have pos: "0 < bit_length (n div 2)"
      using \<open>0 < n div 2\<close> by (subst bit_length.simps) simp
    have "2 ^ bit_length (n div 2) = 2 * (2::int) ^ (bit_length (n div 2) - 1)"
      using pos by (metis Suc_diff_1 power_Suc)
    with IH have "2 ^ bit_length (n div 2) \<le> n" by linarith
    moreover have "n < 2 ^ Suc (bit_length (n div 2))"
      using IH unfolding power_Suc by linarith
    ultimately show ?thesis using "1.prems" by (simp add: bit_length.simps [of n])
  qed
qed

lemma bit_length_mono_pow: "2 ^ k \<le> n \<Longrightarrow> k \<le> bit_length n - 1"
proof -
  assume n: "2 ^ k \<le> n"
  then have "0 < n" by (meson less_le_trans zero_less_numeral zero_less_power)
  with n have "(2::int) ^ k < 2 ^ bit_length n" using bit_length_bounds by (meson le_less_trans)
  then have "k < bit_length n" by simp
  then show ?thesis by simp
qed

lemma slab_bytes_cases:
  "slab_bytes mb = 0 \<or> (\<exists>k\<ge>20. slab_bytes mb = 2 ^ k)"
proof (cases "(case mb of None \<Rightarrow> 256 | Some m \<Rightarrow> m) \<le> 0")
  case True
  then show ?thesis by (simp add: slab_bytes_def)
next
  case False
  define n where "n = max (2 ^ 20) \<lfloor>(case mb of None \<Rightarrow> 256 | Some m \<Rightarrow> m) * 2 ^ 20\<rfloor>"
  have "slab_bytes mb = 2 ^ (bit_length n - 1)"
    using False by (simp add: slab_bytes_def n_def)
  moreover have "20 \<le> bit_length n - 1"
    by (rule bit_length_mono_pow) (simp add: n_def)
  ultimately show ?thesis by blast
qed

lemma slab_bytes_aligned: "slab_align dvd slab_bytes mb"
proof -
  have "(2::int) ^ 12 dvd 2 ^ k" if "20 \<le> k" for k :: nat
    using that by (intro le_imp_power_dvd) simp
  then show ?thesis using slab_bytes_cases [of mb] by (auto simp: slab_align_def)
qed

section \<open>The slab layout\<close>

text \<open>The members of one slab of \<open>n\<close> bytes: each on a page boundary and inside the slab, in
  increasing offset order, no two overlapping.\<close>

definition members_ok :: "int \<Rightarrow> member list \<Rightarrow> bool" where
  "members_ok n ms \<longleftrightarrow>
     (\<forall>(nm, off, k) \<in> set ms. 0 \<le> off \<and> slab_align dvd off \<and> 0 < k \<and> off + k \<le> n)
     \<and> sorted_wrt (\<lambda>(_, o1, k1) (_, o2, _). o1 + k1 \<le> o2) ms"

definition slab_ok :: "int \<Rightarrow> slab \<Rightarrow> bool" where
  "slab_ok slab s \<longleftrightarrow> members_ok (fst s) (snd s) \<and> snd s \<noteq> []
     \<and> (fst s \<le> slab \<or> (\<exists>nm. snd s = [(nm, 0, fst s)]))"

lemma members_ok_mono: "members_ok n ms \<Longrightarrow> n \<le> m \<Longrightarrow> members_ok m ms"
  by (fastforce simp: members_ok_def)

lemma members_ok_single: "0 < k \<Longrightarrow> members_ok k [(nm, 0, k)]"
  by (simp add: members_ok_def)

lemma members_ok_snoc:
  assumes "members_ok used cur" and "0 \<le> used" and "slab_align dvd used" and "0 < k"
  shows "members_ok (used + k) (cur @ [(nm, used, k)])"
  using assms by (fastforce simp: members_ok_def sorted_wrt_append)

lemma pack_slabs_ok:
  assumes "slab_align dvd slab" and "members_ok used cur" and "slab_align dvd used"
    and "0 \<le> used" and "used \<le> slab" and "cur = [] \<Longrightarrow> used = 0"
    and "s \<in> set (pack_slabs slab cur used xs)"
  shows "slab_ok slab s"
  using assms
proof (induction slab cur used xs rule: pack_slabs.induct)
  case (1 slab cur used)
  then show ?case by (auto simp: slab_ok_def min_def split: if_splits)
next
  case (2 slab cur used name kept xs)
  consider (skip) "kept \<le> 0" | (big) "0 < kept" "kept > slab"
    | (flush) "0 < kept" "kept \<le> slab" "cur \<noteq> []" "used + kept > slab"
    | (add) "0 < kept" "kept \<le> slab" "used + kept \<le> slab"
    using "2.prems"(6) by fastforce
  then show ?case
  proof cases
    case skip
    with "2.IH"(1) "2.prems" show ?thesis by auto
  next
    case big
    then have "slab_ok slab (kept, [(name, 0, kept)])"
      by (simp add: slab_ok_def members_ok_single)
    with big "2.IH"(2) "2.prems" show ?thesis by auto
  next
    case flush
    then have "slab_ok slab (used, cur)" using "2.prems" by (simp add: slab_ok_def)
    moreover have "members_ok (align kept) [(name, 0, kept)]" "0 \<le> align kept" "align kept \<le> slab"
      using flush "2.prems"(1) align_bounds(1) [of kept] members_ok_mono [OF members_ok_single]
      by (auto intro: align_le)
    ultimately show ?thesis using flush "2.IH"(3) "2.prems" by auto
  next
    case add
    have "members_ok (used + kept) (cur @ [(name, used, kept)])"
      using add "2.prems" by (intro members_ok_snoc) auto
    then have "members_ok (align (used + kept)) (cur @ [(name, used, kept)])"
      using align_bounds(1) by (rule members_ok_mono)
    moreover have "0 \<le> align (used + kept)" "align (used + kept) \<le> slab"
      using add "2.prems" align_bounds(1) [of "used + kept"] by (auto intro: align_le)
    ultimately show ?thesis using add "2.IH"(4) "2.prems" by auto
  qed
qed

definition kept_of :: "member \<Rightarrow> string \<times> int" where
  "kept_of m = (fst m, snd (snd m))"

lemma pack_slabs_complete:
  "mset (map kept_of (concat (map snd (pack_slabs slab cur used xs))))
     = mset (map kept_of cur) + mset (filter (\<lambda>x. 0 < snd x) xs)"
  by (induction slab cur used xs rule: pack_slabs.induct) (auto simp: kept_of_def)

lemma plan_items_names:
  "plan_items header ps = Inr items \<Longrightarrow> map fst items = map fst ps"
  by (induction ps arbitrary: items) (auto simp: res_simps split: option.splits)

lemma plan_items_kept:
  "plan_items header ps = Inr items \<Longrightarrow>
     items = map (\<lambda>(k, sp). (k, snd (spec_bytes (the (map_of header k)) sp))) ps"
  by (induction ps arbitrary: items) (auto simp: res_simps split: option.splits)

lemma plan_items_total:
  "fst ` set ps \<subseteq> fst ` set header \<Longrightarrow> \<exists>items. plan_items header ps = Inr items"
proof (induction ps)
  case Nil
  show ?case by simp
next
  case (Cons p ps)
  obtain name sp where p: "p = (name, sp)" by (cases p)
  from Cons.prems p have "name \<in> fst ` set header" by auto
  then obtain info where "map_of header name = Some info"
    by (metis map_of_eq_None_iff option.exhaust)
  with Cons p show ?case by auto
qed

lemma slab_layout_mset:
  assumes "fst ` set plan \<subseteq> fst ` set header"
  shows "\<exists>slabs. slab_layout header plan slab = Inr slabs
    \<and> mset (map (\<lambda>(nm, off, k). (nm, k)) (concat (map snd slabs)))
      = mset (filter (\<lambda>x. 0 < snd x)
          (map (\<lambda>(k, sp). (k, snd (spec_bytes (the (map_of header k)) sp))) plan))"
proof -
  let ?f = "\<lambda>(k, sp). (k, snd (spec_bytes (the (map_of header k)) sp))"
  obtain items where items: "plan_items header (sort_key fst plan) = Inr items"
    using plan_items_total [of "sort_key fst plan" header] assms by auto
  have "mset items = mset (map ?f plan)"
    using plan_items_kept [OF items] by simp
  then have "mset (filter (\<lambda>x. 0 < snd x) items) = mset (filter (\<lambda>x. 0 < snd x) (map ?f plan))"
    by simp
  moreover have "kept_of = (\<lambda>(nm, off, k). (nm, k))" by (auto simp: kept_of_def)
  ultimately show ?thesis
    using items pack_slabs_complete [of slab "[]" 0 items] by (auto simp: slab_layout_def)
qed

section \<open>Merged byte ranges\<close>

definition covered :: "(int \<times> int) list \<Rightarrow> int set" where
  "covered rs = (\<Union>(a, b) \<in> set rs. {a..<b})"

definition gapped :: "(int \<times> int) list \<Rightarrow> bool" where
  "gapped rs \<longleftrightarrow> sorted_wrt (\<lambda>p q. snd p < fst q) rs \<and> (\<forall>(a, b) \<in> set rs. a < b)"

lemma covered_simps [simp]:
  "covered [] = {}" "covered ((a, b) # rs) = {a..<b} \<union> covered rs"
  "covered (rs @ ss) = covered rs \<union> covered ss" "covered (rev rs) = covered rs"
  by (auto simp: covered_def)

lemma merge_ranges_covered:
  assumes "sorted_wrt (\<lambda>p q. fst p \<le> fst q) (rev acc @ rs)"
  shows "covered (merge_ranges acc rs) = covered acc \<union> covered rs"
  using assms
proof (induction acc rs rule: merge_ranges.induct)
  case (1 acc)
  then show ?case by simp
next
  case (2 acc a b rs)
  show ?case
  proof (cases acc)
    case Nil
    with 2 show ?thesis by simp
  next
    case (Cons pq acc')
    obtain p q where pq: "pq = (p, q)" by (cases pq)
    have pa: "p \<le> a" using "2.prems" Cons pq by (simp add: sorted_wrt_append)
    show ?thesis
    proof (cases "a \<le> q")
      case True
      have "covered (merge_ranges ((p, max q b) # acc') rs) = covered ((p, max q b) # acc') \<union> covered rs"
        using "2.IH" "2.prems" Cons pq True by (simp add: sorted_wrt_append)
      moreover have "{p..<max q b} = {p..<q} \<union> {a..<b}" using pa True by (auto simp: max_def)
      ultimately show ?thesis using Cons pq True by (simp add: Un_ac)
    next
      case False
      then have "covered (merge_ranges ((a, b) # acc) rs) = covered ((a, b) # acc) \<union> covered rs"
        using "2.IH" "2.prems" Cons pq by (simp add: sorted_wrt_append)
      with Cons pq False show ?thesis by (simp add: Un_ac)
    qed
  qed
qed

lemma merge_ranges_gapped:
  assumes "sorted_wrt (\<lambda>p q. fst p \<le> fst q) rs" and "\<forall>(a, b) \<in> set rs. a < b"
    and "gapped (rev acc)"
    and "acc = [] \<or> rs = [] \<or> fst (hd acc) \<le> fst (hd rs)"
  shows "gapped (merge_ranges acc rs)"
  using assms
proof (induction acc rs rule: merge_ranges.induct)
  case (1 acc)
  then show ?case by simp
next
  case (2 acc a b rs)
  have hd_le: "rs = [] \<or> a \<le> fst (hd rs)" using "2.prems"(1) by (cases rs) auto
  have ab: "a < b" using "2.prems"(2) by simp
  show ?case
  proof (cases acc)
    case Nil
    then have "gapped (rev [(a, b)])" using ab by (simp add: gapped_def)
    with 2 Nil hd_le show ?thesis by auto
  next
    case (Cons pq acc')
    obtain p q where pq: "pq = (p, q)" by (cases pq)
    have g: "gapped (rev acc' @ [(p, q)])" and pa: "p \<le> a" using "2.prems"(3,4) Cons pq by auto
    show ?thesis
    proof (cases "a \<le> q")
      case True
      have "gapped (rev ((p, max q b) # acc'))"
        using g by (auto simp: gapped_def sorted_wrt_append)
      moreover have "rs = [] \<or> p \<le> fst (hd rs)" using hd_le pa by auto
      ultimately show ?thesis using "2.IH" "2.prems" Cons pq True by simp
    next
      case False
      then have "gapped (rev ((a, b) # acc))"
        using g ab Cons pq by (force simp: gapped_def sorted_wrt_append)
      then show ?thesis using "2.IH" "2.prems" Cons pq False hd_le by simp
    qed
  qed
qed

lemma sort_ranges_sorted: "sorted_wrt (\<lambda>p q. fst p \<le> fst q) (sort_ranges rs)"
  using sorted_sort_key [of fst "sort_key snd rs"]
  by (simp add: sort_ranges_def sorted_map)

lemma set_sort_ranges [simp]: "set (sort_ranges rs) = set rs"
  by (simp add: sort_ranges_def)

lemma merge_sorted:
  assumes "\<forall>(a, b) \<in> set rs. a < b"
  shows "covered (merge_ranges [] (sort_ranges rs)) = covered rs"
    and "gapped (merge_ranges [] (sort_ranges rs))"
  using merge_ranges_covered [of "[]" "sort_ranges rs"]
    merge_ranges_gapped [of "sort_ranges rs" "[]"] sort_ranges_sorted assms
  by (simp_all add: covered_def gapped_def)

section \<open>Ownership and slices\<close>

lemma quotient_owner:
  fixes e n sz :: int
  assumes "0 < sz" and "n mod sz = 0" and "0 \<le> e" and "e < n"
  shows "\<exists>!r. 0 \<le> r \<and> r < sz \<and> r * (n div sz) \<le> e \<and> e < (r + 1) * (n div sz)"
proof -
  define q where "q = n div sz"
  have n: "n = sz * q" using assms(2) by (auto simp: q_def)
  have q: "0 < q" using assms n by (metis linorder_not_less mult_nonneg_nonpos order.strict_trans1 order_less_imp_le)
  have unique: "r = e div q" if "r * q \<le> e" "e < (r + 1) * q" for r
    using that q by (metis div_pos_pos_trivial int_div_pos_eq add.commute le_add_diff_inverse
        less_diff_eq mult.commute diff_ge_0_iff_ge distrib_right mult_1 add_diff_cancel_left' diff_less_eq)
  have "e div q * q + e mod q = e" and "0 \<le> e mod q" and "e mod q < q" using q by simp_all
  then have own: "e div q * q \<le> e" "e < (e div q + 1) * q"
    unfolding distrib_right by linarith+
  have "0 \<le> e div q" using assms(3) q by (simp add: pos_imp_zdiv_nonneg_iff)
  moreover have "e div q < sz" using own(1) assms(4) n q
    by (metis mult_less_cancel_right_pos order.strict_trans1)
  ultimately show ?thesis using own unique unfolding q_def [symmetric] by blast
qed

lemma slice_spec_shape:
  assumes "slice_spec name info (Some (r, sz)) = Some (dm, st, len)" and "0 < sz"
  shows "0 \<le> dm" and "nat dm < length (ti_shape info)"
    and "st = r * len" and "ti_shape info ! nat dm = sz * len"
    and "slice_spec name info (Some (r', sz)) = Some (dm, r' * len, len)"
  using assms by (auto simp: slice_spec_def Let_def split: if_splits option.splits)

section \<open>Properties\<close>

text \<open>C27: with the slab size of \<open>slab_bytes\<close>, every slab of the layout holds its tensors on 4 KiB
  boundaries, inside the slab, in increasing order and without overlap, and a slab larger than the
  slab size holds one oversized tensor only.\<close>

theorem slab_layout_sound:
  assumes "slab_layout header plan (slab_bytes mb) = Inr slabs" and "(n, ms) \<in> set slabs"
  shows "list_all (\<lambda>(nm, off, k). 0 \<le> off \<and> 4096 dvd off \<and> 0 < k \<and> off + k \<le> n) ms
    \<and> sorted_wrt (\<lambda>(_, o1, k1) (_, o2, _). o1 + k1 \<le> o2) ms
    \<and> (n \<le> slab_bytes mb \<or> (\<exists>nm. ms = [(nm, 0, n)]))"
proof -
  have "0 \<le> slab_bytes mb" using slab_bytes_cases [of mb] by auto
  moreover obtain items where "(n, ms) \<in> set (pack_slabs (slab_bytes mb) [] 0 items)"
    using assms by (auto simp: slab_layout_def res_simps)
  ultimately have "slab_ok (slab_bytes mb) (n, ms)"
    using pack_slabs_ok [OF slab_bytes_aligned, of 0 "[]" mb] by (simp add: members_ok_def)
  then show ?thesis by (auto simp: slab_ok_def members_ok_def slab_align_def list_all_iff)
qed

definition demo_info :: tinfo where
  "demo_info = \<lparr>ti_dtype = ''U8'', ti_shape = [4, 25], ti_a = 0, ti_b = 100\<rparr>"

definition demo_header :: header where
  "demo_header = [(''a'', demo_info), (''m.experts.1.w1.weight'', demo_info)]"

definition demo_members :: "member list" where
  "demo_members = [(''a'', 0, 100), (''m.experts.1.w1.weight'', 4096, 25)]"

lemma demo_layout:
  "slab_layout demo_header [(''m.experts.1.w1.weight'', Some (0, 1, 1)), (''a'', None)]
     (slab_bytes (Some 1)) = Inr [(8192, demo_members)]"
  by code_simp

theorem slab_layout_sound_witness:
  "list_all (\<lambda>(nm, off, k). 0 \<le> off \<and> 4096 dvd off \<and> 0 < k \<and> off + k \<le> 8192) demo_members
    \<and> sorted_wrt (\<lambda>(_, o1, k1) (_, o2, _). o1 + k1 \<le> o2) demo_members
    \<and> (8192 \<le> slab_bytes (Some 1) \<or> (\<exists>nm. demo_members = [(nm, 0, 8192)]))"
  by (rule slab_layout_sound [OF demo_layout]) simp

text \<open>a plan over the shard's own names always has a layout, and the layout places every tensor
  with bytes to keep exactly once, with exactly the bytes its slice keeps.\<close>

theorem slab_layout_complete:
  assumes "fst ` set plan \<subseteq> fst ` set header"
  shows "\<exists>slabs. slab_layout header plan slab = Inr slabs
    \<and> mset (map (\<lambda>(nm, off, k). (nm, k)) (concat (map snd slabs)))
      = mset (filter (\<lambda>x. 0 < snd x)
          (map (\<lambda>(k, sp). (k, snd (spec_bytes (the (map_of header k)) sp))) plan))"
  using assms by (rule slab_layout_mset)

theorem slab_layout_complete_witness:
  "\<exists>slabs. slab_layout demo_header [(''a'', None)] 8192 = Inr slabs
    \<and> mset (map (\<lambda>(nm, off, k). (nm, k)) (concat (map snd slabs)))
      = mset (filter (\<lambda>x. 0 < snd x)
          (map (\<lambda>(k, sp). (k, snd (spec_bytes (the (map_of demo_header k)) sp))) [(''a'', None)]))"
  by (rule slab_layout_complete) (simp add: demo_header_def)

text \<open>The byte ranges reported for a read plan cover exactly the bytes of its entries (a row block
  of a sliced \<open>w1\<close>/\<open>w3\<close>, the whole entry otherwise), and those of the needed names are disjoint,
  non-empty, sorted and separated by gaps.\<close>

theorem ranges_exact:
  "covered (plan_ranges base header plan) =
      (\<Union>(k, sp) \<in> set plan. let i = the (map_of header k) in
         if ti_a i < ti_b i then {base + fst (entry_range i sp)..<base + snd (entry_range i sp)} else {})
    \<and> sorted_wrt (\<lambda>p q. snd p < fst q) (needed_ranges base header ph ep n_routed)
    \<and> covered (needed_ranges base header ph ep n_routed) =
      (\<Union>k \<in> set (needed_names header ph ep n_routed). let i = the (map_of header k) in
         {base + ti_a i..<base + ti_b i})"
proof (intro conjI)
  show "covered (plan_ranges base header plan) =
      (\<Union>(k, sp) \<in> set plan. let i = the (map_of header k) in
         if ti_a i < ti_b i then {base + fst (entry_range i sp)..<base + snd (entry_range i sp)} else {})"
    unfolding plan_ranges_def
    by (subst merge_ranges_covered) (auto simp: sort_ranges_sorted covered_def Let_def split: if_splits)
  show "sorted_wrt (\<lambda>p q. snd p < fst q) (needed_ranges base header ph ep n_routed)"
    unfolding needed_ranges_def
    by (rule merge_sorted(2) [unfolded gapped_def, THEN conjunct1]) auto
  show "covered (needed_ranges base header ph ep n_routed) =
      (\<Union>k \<in> set (needed_names header ph ep n_routed). let i = the (map_of header k) in
         {base + ti_a i..<base + ti_b i})"
    unfolding needed_ranges_def
    by (subst merge_sorted(1)) (auto simp: covered_def Let_def split: if_splits)
qed

text \<open>In the target phase, every routed-expert tensor of the checkpoint is read by exactly one
  expert-parallel rank, when the expert count divides by the group size.\<close>

theorem expert_has_one_owner:
  assumes "(k, i) \<in> set header" and "\<not> startswith k ''mtp.''"
    and "\<not> contains_str ''.engram.embed.'' k" and "expert_id k = Some e"
    and "0 \<le> e" and "e < n" and "0 < sz" and "n mod sz = 0"
  shows "\<exists>!r. 0 \<le> r \<and> r < sz \<and> k \<in> set (needed_names header Target (Some (r, sz)) (Some n))"
proof -
  have "k \<in> set (needed_names header Target (Some (r, sz)) (Some n)) \<longleftrightarrow>
      r * (n div sz) \<le> e \<and> e < (r + 1) * (n div sz)" for r
    using assms imageI [OF assms(1), of fst]
    by (auto simp: needed_names_def draft_prefix_def engram_table_def Let_def)
  then show ?thesis using quotient_owner [OF assms(7,8,5,6)] by simp
qed

theorem expert_has_one_owner_witness:
  "\<exists>!r. 0 \<le> r \<and> r < 2 \<and>
     ''m.experts.1.w1.weight'' \<in> set (needed_names demo_header Target (Some (r, 2)) (Some 4))"
  by (rule expert_has_one_owner [of _ demo_info _ 1]) (simp add: demo_header_def | code_simp)+

text \<open>The slices of a routed-expert tensor tile its sliced dimension over the tensor-parallel
  ranks: every index of the dimension lies in exactly one rank's slice.\<close>

theorem slices_tile:
  assumes "slice_spec name info (Some (r, sz)) = Some (dm, st, len)" and "0 < sz"
    and "0 \<le> x" and "x < ti_shape info ! nat dm"
  shows "\<exists>!r'. 0 \<le> r' \<and> r' < sz \<and>
    (\<exists>st'. slice_spec name info (Some (r', sz)) = Some (dm, st', len) \<and> st' \<le> x \<and> x < st' + len)"
proof -
  note sh = slice_spec_shape [OF assms(1,2)]
  have "(sz * len) div sz = len" using assms(2) by simp
  then have "\<exists>!r'. 0 \<le> r' \<and> r' < sz \<and> r' * len \<le> x \<and> x < (r' + 1) * len"
    using quotient_owner [of sz "sz * len" x] assms sh(4) by simp
  moreover have "(\<exists>st'. slice_spec name info (Some (r', sz)) = Some (dm, st', len)
      \<and> st' \<le> x \<and> x < st' + len) \<longleftrightarrow> r' * len \<le> x \<and> x < (r' + 1) * len" for r'
    using sh(5) [of r'] by (auto simp: distrib_right)
  ultimately show ?thesis by simp
qed

theorem slices_tile_witness:
  "\<exists>!r'. 0 \<le> r' \<and> r' < 2 \<and>
    (\<exists>st'. slice_spec ''m.experts.1.w1.weight'' demo_info (Some (r', 2)) = Some (0, st', 2)
       \<and> st' \<le> 3 \<and> 3 < st' + 2)"
  by (rule slices_tile [of _ _ 1 2 0 2 2]) (simp add: demo_info_def | code_simp)+

end
