(* ===== verification/Fast_Read.thy ===== *)
theory Fast_Read
  imports Fast_Plan
begin

text \<open>
  The reading half of \<open>adapter/fast_load.py\<close>: \<open>_read_into\<close> loops over short \<open>preadv\<close> results,
  \<open>_read_tensor\<close> reads an entry in 8 MiB chunks, and \<open>_read_slice\<close> reads a rank's slice, either
  as one contiguous row block or as whole rows through a bounce buffer of which it keeps the
  rank's columns. A file is its list of bytes; the kernel's \<open>preadv\<close> is a parameter that says how
  many bytes a call delivers, under the contract of the locales below.
\<close>

section \<open>The kernel's contract\<close>

text \<open>\<open>rd off n\<close> is what \<open>os.preadv\<close> returns for \<open>n\<close> bytes at offset \<open>off\<close> (\<open>None\<close>: it raised):
  never more than was asked for, never past the end of the file.\<close>

locale pread_file =
  fixes rd :: "nat \<Rightarrow> nat \<Rightarrow> nat option"
    and len :: nat
  assumes rd_bound: "rd off n = Some r \<Longrightarrow> r \<le> n \<and> r \<le> len - off"

text \<open>A readable file: a call for at least one byte before the end delivers at least one.\<close>

locale pread_live = pread_file +
  assumes rd_progress: "0 < n \<Longrightarrow> off < len \<Longrightarrow> \<exists>r. rd off n = Some r \<and> 0 < r"

section \<open>Definitions\<close>

function read_into_loop ::
    "(nat \<Rightarrow> nat \<Rightarrow> nat option) \<Rightarrow> 'b list \<Rightarrow> nat \<Rightarrow> nat \<Rightarrow> nat \<Rightarrow> 'b list \<Rightarrow> 'b list res" where
  "read_into_loop rd data n off got buf =
     (if got < n then
        (case rd (off + got) (n - got) of
           None \<Rightarrow> Inl IOError
         | Some r \<Rightarrow>
             if r = 0 then Inl IOError
             else read_into_loop rd data n off (got + r)
                    (buf @ slice (off + got) (off + got + r) data))
      else Inr buf)"
  by pat_completeness auto
termination
  by (relation "measure (\<lambda>(rd, data, n, off, got, buf). n - got)") auto

declare read_into_loop.simps [simp del]

definition read_into :: "(nat \<Rightarrow> nat \<Rightarrow> nat option) \<Rightarrow> 'b list \<Rightarrow> nat \<Rightarrow> nat \<Rightarrow> 'b list res" where
  "read_into rd data n off = read_into_loop rd data n off 0 []"

definition chunk_bytes :: nat where "chunk_bytes = 8 * 2 ^ 20"

text \<open>\<open>for c in range(0, n, step): _read_into(fd, mv[c:c + step], off + c)\<close>\<close>

function read_chunks ::
    "(nat \<Rightarrow> nat \<Rightarrow> nat option) \<Rightarrow> 'b list \<Rightarrow> nat \<Rightarrow> nat \<Rightarrow> nat \<Rightarrow> nat \<Rightarrow> 'b list res" where
  "read_chunks rd data step n off c =
     (if c < n \<and> 0 < step then
        bind_res (read_into rd data (min step (n - c)) (off + c)) (\<lambda>x.
        bind_res (read_chunks rd data step n off (c + step)) (\<lambda>y. Inr (x @ y)))
      else Inr [])"
  by pat_completeness auto
termination
  by (relation "measure (\<lambda>(rd, data, step, n, off, c). n - c)") auto

declare read_chunks.simps [simp del]

text \<open>\<open>dst\<close> is the size of the tensor's region of a slab, \<open>None\<close> for a buffer of its own.\<close>

definition dst_bad :: "nat option \<Rightarrow> nat \<Rightarrow> bool" where
  "dst_bad dst n = (case dst of None \<Rightarrow> False | Some m \<Rightarrow> m \<noteq> n)"

text \<open>\<open>_DTYPES\<close>: the element types the loader knows.\<close>

definition dtypes :: "string list" where
  "dtypes = [''F8_E4M3'', ''F8_E5M2'', ''F8_E8M0'', ''BF16'', ''F16'', ''F32'', ''F64'', ''I8'', ''U8'',
     ''I16'', ''I32'', ''I64'', ''BOOL'']"

definition read_tensor ::
    "(nat \<Rightarrow> nat \<Rightarrow> nat option) \<Rightarrow> 'b list \<Rightarrow> nat \<Rightarrow> tinfo \<Rightarrow> nat option \<Rightarrow> 'b list res" where
  "read_tensor rd data base info dst =
     (let n = nat (ti_b info - ti_a info) in
      if ti_dtype info \<notin> set dtypes then Inl KeyError
      else if n = 0 then Inr []
      else if dst_bad dst n then Inl AssertionError
      else read_chunks rd data chunk_bytes n (base + nat (ti_a info)) 0)"

text \<open>The columns \<open>[lo, hi)\<close> (in bytes) of each of the first \<open>k\<close> rows of \<open>row\<close> bytes.\<close>

definition keep_cols :: "nat \<Rightarrow> nat \<Rightarrow> nat \<Rightarrow> nat \<Rightarrow> 'b list \<Rightarrow> 'b list" where
  "keep_cols row lo hi k buf = concat (map (\<lambda>i. slice (i * row + lo) (i * row + hi) buf) [0..<k])"

function read_rows ::
    "(nat \<Rightarrow> nat \<Rightarrow> nat option) \<Rightarrow> 'b list \<Rightarrow> nat \<Rightarrow> nat \<Rightarrow> nat \<Rightarrow> nat \<Rightarrow> nat \<Rightarrow> nat \<Rightarrow> nat \<Rightarrow> 'b list res" where
  "read_rows rd data row lo hi rows outer off r0 =
     (if r0 < outer \<and> 0 < rows then
        (let k = min rows (outer - r0) in
         bind_res (read_into rd data (k * row) (off + r0 * row)) (\<lambda>buf.
         bind_res (read_rows rd data row lo hi rows outer off (r0 + rows)) (\<lambda>rest.
           Inr (keep_cols row lo hi k buf @ rest))))
      else Inr [])"
  by pat_completeness auto
termination
  by (relation "measure (\<lambda>(rd, data, row, lo, hi, rows, outer, off, r0). outer - r0)") auto

declare read_rows.simps [simp del]

definition read_slice ::
    "(nat \<Rightarrow> nat \<Rightarrow> nat option) \<Rightarrow> 'b list \<Rightarrow> nat \<Rightarrow> tinfo \<Rightarrow> spec \<Rightarrow> nat option \<Rightarrow> 'b list res" where
  "read_slice rd data base info sp dst =
     (let (dm, start, length) = sp;
          (outer, row, inner) = slice_geometry info sp;
          n = nat (outer * length * inner);
          off = base + nat (ti_a info)
      in if ti_dtype info \<notin> set dtypes then Inl KeyError
         else if n = 0 then Inr []
         else if dst_bad dst n then Inl AssertionError
         else if outer = 1 then read_chunks rd data chunk_bytes n (off + nat (start * inner)) 0
         else read_rows rd data (nat row) (nat (start * inner)) (nat ((start + length) * inner))
                (max 1 (chunk_bytes div nat row)) (nat outer) off 0)"

section \<open>Reading is copying\<close>

context pread_file
begin

lemma read_into_loop_bytes:
  assumes "len = length data" and "got \<le> n"
    and "read_into_loop rd data n off got (slice off (off + got) data) = Inr out"
  shows "out = slice off (off + n) data"
  using assms(2,3)
proof (induction "n - got" arbitrary: got rule: less_induct)
  case less
  show ?case
  proof (cases "got < n")
    case False
    with less.prems show ?thesis by (simp add: read_into_loop.simps)
  next
    case True
    with less.prems obtain r where r: "rd (off + got) (n - got) = Some r" "0 < r"
      and rec: "read_into_loop rd data n off (got + r)
        (slice off (off + got) data @ slice (off + got) (off + got + r) data) = Inr out"
      by (subst (asm) read_into_loop.simps) (auto split: option.splits if_splits)
    have "slice off (off + got) data @ slice (off + got) (off + got + r) data
        = slice off (off + (got + r)) data"
      by (simp add: slice_append_slice add.assoc)
    moreover have "got + r \<le> n" using rd_bound [OF r(1)] True by linarith
    ultimately show ?thesis using less.hyps [of "got + r"] rec r True by simp
  qed
qed

lemma read_into_bytes:
  "len = length data \<Longrightarrow> read_into rd data n off = Inr out \<Longrightarrow> out = slice off (off + n) data"
  using read_into_loop_bytes [where got = 0 and data = data] by (simp add: read_into_def)

end

context pread_live
begin

lemma read_into_loop_total:
  assumes "len = length data" and "got \<le> n" and "off + n \<le> len"
  shows "\<exists>out. read_into_loop rd data n off got buf = Inr out"
  using assms(2)
proof (induction "n - got" arbitrary: got buf rule: less_induct)
  case less
  show ?case
  proof (cases "got < n")
    case False
    then show ?thesis by (simp add: read_into_loop.simps)
  next
    case True
    then obtain r where r: "rd (off + got) (n - got) = Some r" "0 < r"
      using rd_progress [of "n - got" "off + got"] assms(3) by auto
    moreover have "got + r \<le> n" using rd_bound [OF r(1)] True by linarith
    ultimately have "\<exists>out. read_into_loop rd data n off (got + r)
        (buf @ slice (off + got) (off + got + r) data) = Inr out"
      using less.hyps True by simp
    with r True show ?thesis by (simp add: read_into_loop.simps [of rd data n off got])
  qed
qed

lemma read_into_exact:
  assumes "len = length data" and "off + n \<le> len"
  shows "read_into rd data n off = Inr (slice off (off + n) data)"
  using read_into_loop_total [where got = 0 and buf = "[]"] read_into_bytes assms
  by (fastforce simp: read_into_def)

lemma read_chunks_exact:
  assumes "len = length data" and "off + n \<le> len" and "0 < step"
  shows "read_chunks rd data step n off c = Inr (slice (off + c) (off + n) data)"
proof (induction "n - c" arbitrary: c rule: less_induct)
  case less
  show ?case
  proof (cases "c < n")
    case False
    then show ?thesis by (simp add: read_chunks.simps slice_def)
  next
    case True
    let ?m = "min step (n - c)"
    have rd: "read_into rd data ?m (off + c) = Inr (slice (off + c) (off + c + ?m) data)"
      using assms True by (intro read_into_exact) auto
    have rest: "read_chunks rd data step n off (c + step) = Inr (slice (off + (c + step)) (off + n) data)"
      using less.hyps [of "c + step"] True assms(3) by simp
    have "slice (off + c) (off + c + ?m) data @ slice (off + (c + step)) (off + n) data
        = slice (off + c) (off + n) data"
    proof (cases "step \<le> n - c")
      case True
      then show ?thesis
        using \<open>c < n\<close> slice_append_slice [of "off + c" "off + (c + step)" "off + n" data]
        by (simp add: add.assoc)
    next
      case False
      with \<open>c < n\<close> show ?thesis by (simp add: slice_def)
    qed
    with rd rest True assms(3) show ?thesis
      by (subst read_chunks.simps) (simp add: add.assoc)
  qed
qed

lemma read_rows_exact:
  assumes "len = length data" and "off + outer * row \<le> len" and "0 < rows"
    and "lo \<le> hi" and "hi \<le> row"
  shows "read_rows rd data row lo hi rows outer off r0 =
    Inr (concat (map (\<lambda>i. slice (off + i * row + lo) (off + i * row + hi) data) [r0..<outer]))"
proof (induction "outer - r0" arbitrary: r0 rule: less_induct)
  case less
  let ?f = "\<lambda>i. slice (off + i * row + lo) (off + i * row + hi) data"
  show ?case
  proof (cases "r0 < outer")
    case False
    then show ?thesis by (simp add: read_rows.simps)
  next
    case True
    define k where "k = min rows (outer - r0)"
    have k: "r0 + k \<le> outer" "0 < k" using True assms(3) by (auto simp: k_def)
    have fit: "off + r0 * row + k * row \<le> len"
      using k(1) assms(2) mult_le_mono1 [of "r0 + k" outer row] by (simp add: distrib_right)
    have rd: "read_into rd data (k * row) (off + r0 * row)
        = Inr (slice (off + r0 * row) (off + r0 * row + k * row) data)"
      using assms(1) fit by (rule read_into_exact)
    have keep: "keep_cols row lo hi k (slice (off + r0 * row) (off + r0 * row + k * row) data)
        = concat (map ?f [r0..<r0 + k])"
    proof -
      have "slice (i * row + lo) (i * row + hi) (slice (off + r0 * row) (off + r0 * row + k * row) data)
          = ?f (r0 + i)" if "i < k" for i
      proof -
        have "i * row + hi \<le> k * row"
          using that assms(5) mult_le_mono1 [of "Suc i" k row] by simp
        then show ?thesis
          by (subst slice_slice) (simp_all add: distrib_right add.assoc)
      qed
      then have "map (\<lambda>i. slice (i * row + lo) (i * row + hi)
            (slice (off + r0 * row) (off + r0 * row + k * row) data)) [0..<k]
          = map (\<lambda>i. ?f (r0 + i)) [0..<k]" by simp
      also have "\<dots> = map ?f [r0..<r0 + k]" by (rule map_upt_shift [symmetric])
      finally show ?thesis by (simp add: keep_cols_def)
    qed
    have rest: "read_rows rd data row lo hi rows outer off (r0 + rows)
        = Inr (concat (map ?f [r0 + rows..<outer]))"
      using less.hyps [of "r0 + rows"] True assms(3) by simp
    have "[r0..<outer] = [r0..<r0 + k] @ [r0 + rows..<outer]"
    proof (cases "rows \<le> outer - r0")
      case True
      then show ?thesis using \<open>r0 < outer\<close> upt_add_eq_append [of r0 "r0 + k" "outer - r0 - k"]
        by (simp add: k_def)
    next
      case False
      then show ?thesis using \<open>r0 < outer\<close> by (simp add: k_def)
    qed
    with rd keep rest True assms(3) show ?thesis
      by (subst read_rows.simps) (simp add: Let_def k_def)
  qed
qed

end

context pread_file
begin

text \<open>A completed read never ran past the end: a truncated file raises.\<close>

lemma read_into_loop_inside:
  assumes "got \<le> n" and "got = 0 \<or> off + got \<le> len"
    and "read_into_loop rd data n off got buf = Inr out"
  shows "n = 0 \<or> off + n \<le> len"
  using assms
proof (induction "n - got" arbitrary: got buf rule: less_induct)
  case less
  show ?case
  proof (cases "got < n")
    case False
    with less.prems show ?thesis by auto
  next
    case True
    with less.prems obtain r where r: "rd (off + got) (n - got) = Some r" "0 < r"
      and rec: "read_into_loop rd data n off (got + r)
        (buf @ slice (off + got) (off + got + r) data) = Inr out"
      by (subst (asm) read_into_loop.simps) (auto split: option.splits if_splits)
    moreover have "got + r \<le> n" "off + (got + r) \<le> len"
      using rd_bound [OF r(1)] True r(2) by linarith+
    ultimately show ?thesis using less.hyps [of "got + r"] True by simp
  qed
qed

lemma read_into_inside:
  "read_into rd data n off = Inr out \<Longrightarrow> n = 0 \<or> off + n \<le> len"
  by (auto simp: read_into_def dest: read_into_loop_inside [rotated 2])

end

section \<open>Geometry of an entry\<close>

text \<open>A well-formed entry: a known element type, non-negative shape, and as many bytes as the shape
  has elements.\<close>

definition wf_info :: "tinfo \<Rightarrow> bool" where
  "wf_info info \<longleftrightarrow> ti_dtype info \<in> set dtypes
     \<and> (\<forall>s \<in> set (ti_shape info). 0 \<le> s) \<and> 0 \<le> ti_a info
     \<and> ti_b info - ti_a info = itemsize (ti_dtype info) * prod_list (ti_shape info)"

lemma wf_dtype: "wf_info info \<Longrightarrow> ti_dtype info \<in> set dtypes"
  by (simp add: wf_info_def)

lemma fold_mult: "fold (\<lambda>s acc. acc * s) xs (z :: int) = z * prod_list xs"
  by (induction xs arbitrary: z) (simp_all add: mult.assoc)

lemma itemsize_pos: "0 < itemsize d"
  by (simp add: itemsize_def)

lemma prod_list_nonneg: "\<forall>s \<in> set xs. 0 \<le> s \<Longrightarrow> 0 \<le> prod_list (xs :: int list)"
  by (induction xs) auto

lemma geometry:
  assumes "wf_info info" and "nat dm < length (ti_shape info)"
    and "slice_geometry info (dm, st, len) = (outer, row, inner)"
  shows "0 \<le> outer" and "0 \<le> inner" and "row = ti_shape info ! nat dm * inner"
    and "outer * row = ti_b info - ti_a info"
proof -
  let ?sh = "ti_shape info"
  have nn: "\<forall>s \<in> set ?sh. 0 \<le> s" using assms(1) by (simp add: wf_info_def)
  have o: "outer = prod_list (take (nat dm) ?sh)"
    and i: "inner = itemsize (ti_dtype info) * prod_list (drop (Suc (nat dm)) ?sh)"
    and r: "row = ?sh ! nat dm * inner"
    using assms(3) by (auto simp: slice_geometry_def fold_mult Let_def)
  show "0 \<le> outer" using nn o by (auto intro!: prod_list_nonneg dest: in_set_takeD)
  show "0 \<le> inner"
    using nn i itemsize_pos [of "ti_dtype info"]
    by (auto intro!: mult_nonneg_nonneg prod_list_nonneg dest: in_set_dropD)
  show "row = ?sh ! nat dm * inner" by (rule r)
  have "prod_list ?sh = prod_list (take (nat dm) ?sh @ ?sh ! nat dm # drop (Suc (nat dm)) ?sh)"
    using id_take_nth_drop [OF assms(2)] by simp
  then have "prod_list ?sh = outer * (?sh ! nat dm * prod_list (drop (Suc (nat dm)) ?sh))"
    by (simp add: o)
  then show "outer * row = ti_b info - ti_a info"
    using assms(1) by (simp add: wf_info_def r i)
qed

text \<open>The bytes of \<open>tensor.narrow(dim, start, length)\<close>, made contiguous, for the entry's bytes.\<close>

definition tensor_narrow :: "tinfo \<Rightarrow> spec \<Rightarrow> 'b list \<Rightarrow> 'b list" where
  "tensor_narrow info sp whole =
     (let (dm, start, len) = sp; (outer, row, inner) = slice_geometry info sp in
      keep_cols (nat row) (nat (start * inner)) (nat ((start + len) * inner)) (nat outer) whole)"

definition entry_bytes :: "nat \<Rightarrow> tinfo \<Rightarrow> 'b list \<Rightarrow> 'b list" where
  "entry_bytes base info data = slice (base + nat (ti_a info)) (base + nat (ti_b info)) data"

lemma entry_end: "wf_info info \<Longrightarrow> nat (ti_a info) + nat (ti_b info - ti_a info) = nat (ti_b info)"
proof -
  assume wf: "wf_info info"
  then have "0 \<le> ti_b info - ti_a info" "0 \<le> ti_a info"
    using itemsize_pos [of "ti_dtype info"]
    by (auto simp: wf_info_def intro!: mult_nonneg_nonneg prod_list_nonneg)
  then show ?thesis by simp
qed

lemma entry_slice:
  "wf_info info \<Longrightarrow> entry_bytes base info data
    = slice (base + nat (ti_a info)) (base + nat (ti_a info) + nat (ti_b info - ti_a info)) data"
  using entry_end [of info] by (simp add: entry_bytes_def add.assoc)

lemma entry_length:
  assumes "wf_info info" and "base + nat (ti_b info) \<le> length data"
  shows "length (entry_bytes base info data) = nat (ti_b info - ti_a info)"
  using entry_end [OF assms(1)] assms by (simp add: entry_slice)

context pread_live
begin

lemma read_tensor_entry:
  assumes "len = length data" and "wf_info info" and "base + nat (ti_b info) \<le> len"
    and "\<not> dst_bad dst (nat (ti_b info - ti_a info))"
  shows "read_tensor rd data base info dst = Inr (entry_bytes base info data)"
proof -
  have "read_chunks rd data chunk_bytes (nat (ti_b info - ti_a info)) (base + nat (ti_a info)) 0
      = Inr (entry_bytes base info data)"
    using read_chunks_exact [of data "base + nat (ti_a info)" "nat (ti_b info - ti_a info)" chunk_bytes 0]
      entry_end [OF assms(2)] assms by (simp add: chunk_bytes_def entry_slice)
  with assms show ?thesis
    by (auto simp: read_tensor_def Let_def entry_slice wf_dtype)
qed

lemma read_slice_narrow:
  assumes len: "len = length data" and wf: "wf_info info" and fit: "base + nat (ti_b info) \<le> len"
    and dm: "nat dm < length (ti_shape info)"
    and rng: "0 \<le> start" "0 \<le> k" "start + k \<le> ti_shape info ! nat dm"
    and dst: "\<not> dst_bad dst (nat (snd (spec_bytes info (Some (dm, start, k)))))"
  shows "read_slice rd data base info (dm, start, k) dst
    = Inr (tensor_narrow info (dm, start, k) (entry_bytes base info data))"
proof -
  obtain outer row inner where g: "slice_geometry info (dm, start, k) = (outer, row, inner)"
    by (metis prod_cases3)
  note geo = geometry [OF wf dm g]
  define R lo hi n where "R = nat row" and "lo = nat (start * inner)"
    and "hi = nat ((start + k) * inner)" and "n = nat (outer * k * inner)"
  define off where "off = base + nat (ti_a info)"
  have "(start + k) * inner \<le> row"
    using geo(2,3) rng(3) by (simp add: mult_right_mono)
  then have hi: "lo \<le> hi" "hi \<le> R"
    using geo(2) rng by (auto simp: lo_def hi_def R_def intro!: nat_mono mult_right_mono)
  have row_nn: "0 \<le> row" using geo(2,3) rng by simp
  have size: "nat outer * R = nat (ti_b info - ti_a info)"
    using geo(1,4) by (simp add: R_def flip: nat_mult_distrib)
  have fits: "off + nat outer * R \<le> len"
    using size entry_end [OF wf] fit by (simp add: off_def)
  have width: "hi - lo = nat (k * inner)"
    using geo(2) rng by (simp add: lo_def hi_def distrib_right nat_diff_distrib [symmetric])
  have n: "n = nat outer * (hi - lo)"
    using geo(1) by (simp add: n_def width mult.assoc nat_mult_distrib)
  have ent: "entry_bytes base info data = slice off (off + nat outer * R) data"
    using size by (simp add: entry_slice [OF wf] off_def)
  have row_slice: "slice (i * R + lo) (i * R + hi) (entry_bytes base info data)
      = slice (off + i * R + lo) (off + i * R + hi) data" if "i < nat outer" for i
  proof -
    have "i * R + hi \<le> nat outer * R"
      using that hi(2) mult_le_mono1 [of "Suc i" "nat outer" R] by simp
    then show ?thesis unfolding ent by (subst slice_slice) (simp_all add: add.assoc)
  qed
  have target: "tensor_narrow info (dm, start, k) (entry_bytes base info data)
      = concat (map (\<lambda>i. slice (off + i * R + lo) (off + i * R + hi) data) [0..<nat outer])"
    using row_slice
    by (auto simp: tensor_narrow_def g keep_cols_def simp flip: R_def lo_def hi_def
        intro!: arg_cong [where f = concat] map_cong)
  have dst': "\<not> dst_bad dst n" using dst by (simp add: spec_bytes_def g n_def Let_def)
  have unf: "read_slice rd data base info (dm, start, k) dst =
      (if n = 0 then Inr [] else if dst_bad dst n then Inl AssertionError
       else if outer = 1 then read_chunks rd data chunk_bytes n (off + lo) 0
       else read_rows rd data R lo hi (max 1 (chunk_bytes div R)) (nat outer) off 0)"
    using wf_dtype [OF wf] by (simp add: read_slice_def g Let_def n_def lo_def hi_def R_def off_def)
  consider (none) "n = 0" | (rows) "n \<noteq> 0" "outer = 1" | (cols) "n \<noteq> 0" "outer \<noteq> 1" by blast
  then show ?thesis
  proof cases
    case none
    then have "nat outer = 0 \<or> hi - lo = 0" using n by simp
    then have "concat (map (\<lambda>i. slice (off + i * R + lo) (off + i * R + hi) data) [0..<nat outer]) = []"
      by (auto simp: slice_def)
    with none target show ?thesis by (simp add: unf)
  next
    case rows
    have "off + lo + n = off + hi" using rows n hi(1) by simp
    moreover have "off + hi \<le> len" using fits hi(2) rows by simp
    ultimately have "read_chunks rd data chunk_bytes n (off + lo) 0 = Inr (slice (off + lo) (off + hi) data)"
      using read_chunks_exact [of data "off + lo" n chunk_bytes 0] len
      by (simp add: chunk_bytes_def add.assoc)
    with rows target dst' show ?thesis by (simp add: unf)
  next
    case cols
    have "read_rows rd data R lo hi (max 1 (chunk_bytes div R)) (nat outer) off 0
        = Inr (concat (map (\<lambda>i. slice (off + i * R + lo) (off + i * R + hi) data) [0..<nat outer]))"
      using len fits hi by (intro read_rows_exact) auto
    with cols target dst' show ?thesis by (simp add: unf)
  qed
qed

end

section \<open>The Linux read call\<close>

text \<open>\<open>preadv(2)\<close> transfers at most \<open>0x7ffff000\<close> bytes in one call; reading at the end returns 0.\<close>

definition kernel_pread :: "nat \<Rightarrow> nat \<Rightarrow> nat \<Rightarrow> nat option" where
  "kernel_pread len off n = Some (min (min n 2147479552) (len - off))"

interpretation kernel: pread_live "kernel_pread len" len
  by unfold_locales (auto simp: kernel_pread_def)

text \<open>A read that returns, on any file that keeps the bounds, returns what the kernel's read returns:
  a read call that fails can only make a read raise.\<close>

context pread_file
begin

lemma read_into_kernel:
  assumes "len = length data" and "read_into rd data n off = Inr x"
  shows "read_into (kernel_pread len) data n off = Inr x"
proof (cases "n = 0")
  case True
  with assms(2) show ?thesis by (simp add: read_into_def read_into_loop.simps)
next
  case False
  with assms read_into_inside read_into_bytes show ?thesis
    by (metis kernel.read_into_exact)
qed

lemma read_chunks_kernel:
  assumes "len = length data"
  shows "read_chunks rd data step n off c = Inr x \<Longrightarrow> read_chunks (kernel_pread len) data step n off c = Inr x"
proof (induction "n - c" arbitrary: c x rule: less_induct)
  case less
  show ?case
  proof (cases "c < n \<and> 0 < step")
    case False
    with less.prems show ?thesis by (auto simp: read_chunks.simps [of _ data step n off c])
  next
    case True
    with less.prems obtain y z where "read_into rd data (min step (n - c)) (off + c) = Inr y"
      "read_chunks rd data step n off (c + step) = Inr z" "x = y @ z"
      by (subst (asm) read_chunks.simps) (auto simp: bind_res_Inr_iff)
    moreover have "n - (c + step) < n - c" using True by linarith
    ultimately show ?thesis
      using True less.hyps [of "c + step" z] read_into_kernel [OF assms]
      by (subst read_chunks.simps) simp
  qed
qed

lemma read_rows_kernel:
  assumes "len = length data"
  shows "read_rows rd data row lo hi rows outer off r0 = Inr x
    \<Longrightarrow> read_rows (kernel_pread len) data row lo hi rows outer off r0 = Inr x"
proof (induction "outer - r0" arbitrary: r0 x rule: less_induct)
  case less
  show ?case
  proof (cases "r0 < outer \<and> 0 < rows")
    case False
    with less.prems show ?thesis
      by (auto simp: read_rows.simps [of _ data row lo hi rows outer off r0])
  next
    case True
    define k where "k = min rows (outer - r0)"
    from True less.prems obtain y z where "read_into rd data (k * row) (off + r0 * row) = Inr y"
      "read_rows rd data row lo hi rows outer off (r0 + rows) = Inr z" "x = keep_cols row lo hi k y @ z"
      by (subst (asm) read_rows.simps) (auto simp: bind_res_Inr_iff Let_def k_def)
    moreover have "outer - (r0 + rows) < outer - r0" using True by linarith
    ultimately show ?thesis
      using True less.hyps [of "r0 + rows" z] read_into_kernel [OF assms]
      by (subst read_rows.simps) (simp add: Let_def k_def)
  qed
qed

lemma read_tensor_kernel:
  assumes "len = length data"
  shows "read_tensor rd data base info dst = Inr x
    \<Longrightarrow> read_tensor (kernel_pread len) data base info dst = Inr x"
  by (auto simp: read_tensor_def Let_def read_chunks_kernel [OF assms] split: if_splits)

lemma read_slice_kernel:
  assumes "len = length data"
  shows "read_slice rd data base info sp dst = Inr x
    \<Longrightarrow> read_slice (kernel_pread len) data base info sp dst = Inr x"
  by (auto simp: read_slice_def Let_def read_chunks_kernel [OF assms] read_rows_kernel [OF assms]
      split: if_splits prod.splits)

end

section \<open>Properties\<close>

lemma keep_cols_row:
  assumes "length whole = outer * row" and "lo \<le> hi" and "hi \<le> row" and "i < outer"
  shows "slice (i * (hi - lo)) (Suc i * (hi - lo)) (keep_cols row lo hi outer whole)
    = slice (i * row + lo) (i * row + hi) whole"
  unfolding keep_cols_def
proof (rule slice_concat_uniform [OF _ assms(4)])
  fix j assume "j < outer"
  then have "j * row + hi \<le> outer * row"
    using assms(3) mult_le_mono1 [of "Suc j" outer row] by simp
  then show "length (slice (j * row + lo) (j * row + hi) whole) = hi - lo"
    using assms(1,2) by simp
qed

text \<open>C12: on a readable file, reading this rank's slice of a well-formed entry returns exactly the bytes
  of \<open>narrow(dim, start, length)\<close> of the stored tensor, on the contiguous path as on the bounce-buffer
  path, whatever sizes the kernel delivers its reads in.\<close>

theorem read_slice_exact:
  assumes "pread_live rd (length data)" and "wf_info info"
    and "base + nat (ti_b info) \<le> length data" and "nat dm < length (ti_shape info)"
    and "0 \<le> start" and "0 \<le> k" and "start + k \<le> ti_shape info ! nat dm"
    and "dst = None \<or> dst = Some (nat (snd (spec_bytes info (Some (dm, start, k)))))"
  shows "read_slice rd data base info (dm, start, k) dst
    = Inr (tensor_narrow info (dm, start, k) (entry_bytes base info data))"
  using assms by (intro pread_live.read_slice_narrow [OF assms(1)]) (auto simp: dst_bad_def)

theorem read_slice_exact_witness:
  "read_slice (kernel_pread 100) [0..<100] 0 demo_info (1, 5, 10) (Some 40)
    = Inr (tensor_narrow demo_info (1, 5, 10) (entry_bytes 0 demo_info [0..<100]))"
proof (rule read_slice_exact)
  show "pread_live (kernel_pread 100) (length [0..<100])"
    using kernel.pread_live_axioms [of 100] by simp
qed (simp_all add: demo_info_def wf_info_def dtypes_def itemsize_def spec_bytes_def slice_geometry_def)

text \<open>On a readable file, the eager read of a whole entry is the entry's bytes.\<close>

theorem read_tensor_exact:
  assumes "pread_live rd (length data)" and "wf_info info"
    and "base + nat (ti_b info) \<le> length data"
    and "dst = None \<or> dst = Some (nat (snd (spec_bytes info None)))"
  shows "read_tensor rd data base info dst = Inr (entry_bytes base info data)"
  using assms
  by (intro pread_live.read_tensor_entry [OF assms(1)]) (auto simp: dst_bad_def spec_bytes_def)

theorem read_tensor_exact_witness:
  "read_tensor (kernel_pread 100) [0..<100] 0 demo_info None = Inr (entry_bytes 0 demo_info [0..<100])"
proof (rule read_tensor_exact)
  show "pread_live (kernel_pread 100) (length [0..<100])"
    using kernel.pread_live_axioms [of 100] by simp
qed (simp_all add: demo_info_def wf_info_def dtypes_def itemsize_def)

text \<open>a read that reaches past the end of the file raises \<open>IOError\<close>; a read that returns gives exactly
  the bytes asked for, never fewer.\<close>

theorem read_into_never_short:
  assumes "pread_file rd (length data)" and "0 < n"
  shows "(\<forall>out. read_into rd data n off = Inr out \<longrightarrow>
      off + n \<le> length data \<and> out = slice off (off + n) data \<and> length out = n)
    \<and> (length data < off + n \<longrightarrow> (\<exists>e. read_into rd data n off = Inl e))"
proof (intro conjI allI impI)
  fix out assume out: "read_into rd data n off = Inr out"
  have "off + n \<le> length data"
    using pread_file.read_into_inside [OF assms(1) out] assms(2) by simp
  moreover have "out = slice off (off + n) data"
    using pread_file.read_into_bytes [OF assms(1) refl out] .
  ultimately show "off + n \<le> length data" "out = slice off (off + n) data" "length out = n"
    by auto
next
  assume "length data < off + n"
  then show "\<exists>e. read_into rd data n off = Inl e"
    using pread_file.read_into_inside [OF assms(1)] assms(2)
    by (cases "read_into rd data n off") fastforce+
qed

theorem read_into_never_short_witness:
  "\<exists>e. read_into (kernel_pread 3) ''abc'' 4 0 = Inl e"
  using read_into_never_short [of "kernel_pread 3" "''abc''" 4 0] kernel.pread_file_axioms [of 3]
  by (simp add: numeral_3_eq_3)

lemma narrows_reassemble:
  assumes "slice_spec name info (Some (r, sz)) = Some (dm, st, len)" and "0 < sz"
    and "wf_info info" and "length whole = nat (ti_b info - ti_a info)"
    and "slice_geometry info (dm, st, len) = (outer, row, inner)"
  shows "concat (map (\<lambda>i. concat (map (\<lambda>q.
      slice (i * nat (len * inner)) (Suc i * nat (len * inner)) (tensor_narrow info (dm, int q * len, len) whole))
      [0..<nat sz])) [0..<nat outer]) = whole"
proof -
  note sh = slice_spec_shape [OF assms(1,2)]
  note geo = geometry [OF assms(3) sh(2) assms(5)]
  have geo': "slice_geometry info (dm, s, l) = (outer, row, inner)" for s l
    using assms(5) by (simp add: slice_geometry_def)
  have len: "0 \<le> len"
    using sh(2,4) assms(2,3) by (auto simp: wf_info_def) (metis nth_mem zero_le_mult_iff not_less)
  define c where "c = nat (len * inner)"
  have c: "nat row = nat sz * c"
    using geo(2,3) sh(4) assms(2) len by (simp add: c_def mult.assoc nat_mult_distrib)
  have whole: "length whole = nat outer * nat row"
    using geo(1,4) assms(4) by (simp flip: nat_mult_distrib)
  have lo: "nat (int q * len * inner) = q * c" "nat ((int q * len + len) * inner) = Suc q * c" for q
  proof -
    show "nat (int q * len * inner) = q * c"
      using len geo(2) by (simp add: c_def mult.assoc nat_mult_distrib)
    have "(int q * len + len) * inner = int (Suc q) * (len * inner)" by (simp add: algebra_simps)
    then have "nat ((int q * len + len) * inner) = nat (int (Suc q) * (len * inner))"
      by (rule arg_cong)
    also have "\<dots> = Suc q * c" by (subst nat_mult_distrib) (simp_all add: c_def del: of_nat_Suc)
    finally show "nat ((int q * len + len) * inner) = Suc q * c" .
  qed
  have part: "slice (i * c) (Suc i * c) (tensor_narrow info (dm, int q * len, len) whole)
      = slice (i * nat row + q * c) (i * nat row + Suc q * c) whole"
    if "i < nat outer" "q < nat sz" for i q
  proof -
    have "Suc q * c \<le> nat row" using that(2) mult_le_mono1 [of "Suc q" "nat sz" c] c by simp
    then show ?thesis
      using keep_cols_row [OF whole, of "q * c" "Suc q * c" i] that(1)
      by (simp add: tensor_narrow_def geo' lo)
  qed
  have "concat (map (\<lambda>q. slice (i * c) (Suc i * c) (tensor_narrow info (dm, int q * len, len) whole)) [0..<nat sz])
      = slice (0 + i * nat row) (0 + Suc i * nat row) whole" if "i < nat outer" for i
  proof -
    have "map (\<lambda>q. slice (i * c) (Suc i * c) (tensor_narrow info (dm, int q * len, len) whole)) [0..<nat sz]
        = map (\<lambda>q. slice (i * nat row + q * c) (i * nat row + Suc q * c) whole) [0..<nat sz]"
      using part that by (intro map_cong) auto
    then have "concat (map (\<lambda>q. slice (i * c) (Suc i * c)
          (tensor_narrow info (dm, int q * len, len) whole)) [0..<nat sz])
        = slice (i * nat row) (i * nat row + nat sz * c) whole"
      by (simp only: concat_even_slices)
    also have "i * nat row + nat sz * c = 0 + Suc i * nat row" by (simp add: c)
    finally show ?thesis by simp
  qed
  then have "map (\<lambda>i. concat (map (\<lambda>q. slice (i * c) (Suc i * c)
        (tensor_narrow info (dm, int q * len, len) whole)) [0..<nat sz])) [0..<nat outer]
      = map (\<lambda>i. slice (0 + i * nat row) (0 + Suc i * nat row) whole) [0..<nat outer]"
    by (intro map_cong) auto
  then have "concat (map (\<lambda>i. concat (map (\<lambda>q. slice (i * c) (Suc i * c)
        (tensor_narrow info (dm, int q * len, len) whole)) [0..<nat sz])) [0..<nat outer])
      = slice 0 (0 + nat outer * nat row) whole"
    by (simp only: concat_even_slices)
  also have "\<dots> = whole" using whole by (simp add: slice_all)
  finally show ?thesis by (simp only: c_def)
qed

text \<open>What rank \<open>q\<close> of \<open>sz\<close> keeps of row \<open>i\<close> of a tensor \<open>[outer, shape[dim], inner]\<close>: the row of the narrow to the part that \<open>slice_spec\<close> gives to
  that rank; nothing when it gives none.\<close>

definition kept_row :: "string \<Rightarrow> tinfo \<Rightarrow> int \<Rightarrow> 'b list \<Rightarrow> nat \<Rightarrow> nat \<Rightarrow> 'b list" where
  "kept_row name info sz whole i q =
     (case slice_spec name info (Some (int q, sz)) of
        None \<Rightarrow> []
      | Some (dm, st, len) \<Rightarrow>
          let k = nat (len * snd (snd (slice_geometry info (dm, st, len))))
          in slice (i * k) (Suc i * k) (tensor_narrow info (dm, st, len) whole))"

text \<open>C13: the slices that the tensor-parallel ranks keep of a routed-expert tensor, each rank the part \<open>slice_spec\<close> gives to it, put back
  together row by row in rank order are the stored tensor: no byte is lost or read twice.\<close>

theorem ranks_reassemble:
  assumes "slice_spec name info (Some (r, sz)) = Some sp" and "0 < sz"
    and "wf_info info" and "length whole = nat (ti_b info - ti_a info)"
    and "slice_geometry info sp = (outer, row, inner)"
  shows "concat (map (\<lambda>i. concat (map (kept_row name info sz whole i) [0..<nat sz])) [0..<nat outer]) = whole"
proof -
  obtain dm st len where sp: "sp = (dm, st, len)" by (cases sp)
  note spec = assms(1) [unfolded sp] and geo = assms(5) [unfolded sp]
  have inner: "snd (snd (slice_geometry info (dm, s, l))) = inner" for s l
    using geo by (simp add: slice_geometry_def)
  have "kept_row name info sz whole i = (\<lambda>q. slice (i * nat (len * inner)) (Suc i * nat (len * inner)) (tensor_narrow info (dm, int q * len, len) whole))" for i
    using slice_spec_shape(5) [OF spec assms(2)] by (auto simp: kept_row_def inner Let_def)
  then show ?thesis using narrows_reassemble [OF spec assms(2-4) geo] by simp
qed

theorem ranks_reassemble_witness:
  "concat (map (\<lambda>i. concat (map (kept_row ''m.experts.1.w1.weight'' demo_info 2 [0..<100] i) [0..<nat 2])) [0..<nat 1]) = [0..<100]"
  by (rule ranks_reassemble [of _ _ 0 _ "(0, 0, 2)" _ _ 100 25])
    (code_simp | simp add: demo_info_def wf_info_def itemsize_def slice_geometry_def)+

end
