(* ===== verification/Fast_Shard.thy ===== *)
theory Fast_Shard
  imports Fast_Read
begin

text \<open>
  The shard objects of \<open>adapter/fast_load.py\<close>: the header cache, the full-shape stand-in of which
  only this rank's slice is resident (\<open>TpSliceTensor\<close>), the eager shard whose futures are read by the
  thread pool (\<open>_EagerShard\<close>), the decision what a \<open>safe_open\<close> call returns (\<open>_wrap_open\<close>), and the
  phase bookkeeping around \<open>load_weights\<close>. A tensor is its bytes, a stand-in is its entry with the
  bytes of the resident slice; the module-level \<open>_state\<close> is a record.
\<close>

section \<open>Module state\<close>

text \<open>A registered slab (\<open>_slab_refs\<close>): an identity, whether a storage weak reference could be made,
  its bytes, shard path, members and base address. Whether the storage behind a weak reference is
  still alive is the runtime's answer, the argument \<open>live\<close> of the operations that ask.\<close>

record slab_ref =
  sr_id :: nat
  sr_weak :: bool
  sr_bytes :: int
  sr_path :: string
  sr_members :: "member list"
  sr_ptr :: int

record load_state =
  ls_phase :: phase
  ls_bytes :: int
  ls_resident :: int
  ls_sliced :: int
  ls_files :: int
  ls_skipped :: int
  ls_open_failures :: int
  ls_read_failures :: int
  ls_host_allocs :: int
  ls_host_bytes :: int
  ls_slabs :: int
  ls_peak_live :: int
  ls_peak_bytes :: int
  ls_slab_refs :: "slab_ref list"
  ls_slab_size :: "int \<rightharpoonup> int \<times> slab_ref"

definition init_load_state :: load_state where
  "init_load_state = \<lparr>ls_phase = Target, ls_bytes = 0, ls_resident = 0, ls_sliced = 0, ls_files = 0,
     ls_skipped = 0, ls_open_failures = 0, ls_read_failures = 0, ls_host_allocs = 0, ls_host_bytes = 0,
     ls_slabs = 0, ls_peak_live = 0, ls_peak_bytes = 0, ls_slab_refs = [], ls_slab_size = Map.empty\<rparr>"

definition slab_alive :: "(nat \<Rightarrow> bool) \<Rightarrow> slab_ref \<Rightarrow> bool" where
  "slab_alive live r = (sr_weak r \<and> live (sr_id r))"

text \<open>\<open>_alloc_host\<close>, as far as the module state goes.\<close>

definition alloc_host :: "int \<Rightarrow> load_state \<Rightarrow> load_state" where
  "alloc_host n st = st\<lparr>ls_host_allocs := ls_host_allocs st + 1, ls_host_bytes := ls_host_bytes st + n\<rparr>"

definition new_slab :: "(nat \<Rightarrow> bool) \<Rightarrow> slab_ref \<Rightarrow> load_state \<Rightarrow> load_state" where
  "new_slab live r st =
     (let st = alloc_host (sr_bytes r) st;
          refs = ls_slab_refs st @ [r];
          alive = filter (slab_alive live) refs
      in st\<lparr>ls_slab_refs := refs, ls_slab_size := (ls_slab_size st)(sr_ptr r \<mapsto> (sr_bytes r, r)),
            ls_slabs := ls_slabs st + 1,
            ls_peak_live := max (ls_peak_live st) (int (length alive)),
            ls_peak_bytes := max (ls_peak_bytes st) (sum_list (map sr_bytes alive))\<rparr>)"

section \<open>Header cache\<close>

text \<open>\<open>struct.unpack("<Q", ...)\<close>: eight bytes, least significant first.\<close>

definition le_u64 :: "nat list \<Rightarrow> nat res" where
  "le_u64 bs = (if length bs \<noteq> 8 then Inl ValueError
     else Inr (foldr (\<lambda>b acc. b + 256 * acc) bs 0))"

type_synonym cache = "string \<rightharpoonup> nat \<times> header"

text \<open>\<open>decode\<close> is \<open>json.loads\<close> with the \<open>__metadata__\<close> entry dropped; it may raise.\<close>

definition parse_header ::
    "(nat list \<Rightarrow> header res) \<Rightarrow> cache \<Rightarrow> string \<Rightarrow> nat list \<Rightarrow> cache \<times> (nat \<times> header) res" where
  "parse_header decode cache path data =
     (case cache path of
        Some hit \<Rightarrow> (cache, Inr hit)
      | None \<Rightarrow>
          (case le_u64 (take 8 data) of
             Inl e \<Rightarrow> (cache, Inl e)
           | Inr n \<Rightarrow>
               (case decode (take n (drop 8 data)) of
                  Inl e \<Rightarrow> (cache, Inl e)
                | Inr header \<Rightarrow> (cache(path \<mapsto> (8 + n, header)), Inr (8 + n, header)))))"

section \<open>The stand-in of a sliced tensor\<close>

text \<open>Along the sliced dimension a tensor is the list of its planes; \<open>tp_part\<close> holds the planes
  \<open>[tp_start, tp_start + len(tp_part))\<close> of the full tensor.\<close>

record 'p tp_slice =
  tp_part :: "'p list"
  tp_dim :: int
  tp_start :: int
  tp_ndim :: int

definition standin_narrow :: "'p tp_slice \<Rightarrow> int \<Rightarrow> int \<Rightarrow> int \<Rightarrow> 'p list res" where
  "standin_narrow t d start len =
     (let d = (if d < 0 then d + tp_ndim t else d);
          lo = tp_start t;
          hi = lo + int (length (tp_part t))
      in if d \<noteq> tp_dim t \<or> start < lo \<or> start + len > hi \<or> len < 0 then Inl RuntimeError
         else if start = lo \<and> len = int (length (tp_part t)) then Inr (tp_part t)
         else Inr (slice (nat (start - lo)) (nat (start - lo + len)) (tp_part t)))"

datatype tensor_op = OpNarrow int int int | OpMeta | OpOther

text \<open>\<open>__torch_function__\<close>: narrow goes to the slice, shape and type queries to the full-shape
  wrapper, every other operation raises.\<close>

definition standin_call :: "'p tp_slice \<Rightarrow> tensor_op \<Rightarrow> 'p list option res" where
  "standin_call t op =
     (case op of
        OpNarrow d start len \<Rightarrow> bind_res (standin_narrow t d start len) (\<lambda>p. Inr (Some p))
      | OpMeta \<Rightarrow> Inr None
      | OpOther \<Rightarrow> Inl RuntimeError)"

section \<open>Eager shards\<close>

datatype 'b tens = Whole "'b list" | StandIn tinfo spec "'b list"

record 'b shard =
  sh_inner :: "string \<rightharpoonup> 'b list"
  sh_header :: header
  sh_futures :: "string \<rightharpoonup> 'b list res"
  sh_specs :: "string \<rightharpoonup> spec"

definition plan_bytes :: "header \<Rightarrow> plan \<Rightarrow> int \<times> int" where
  "plan_bytes header plan =
     fold (\<lambda>(k, s) (total, kept). let (r, h) = spec_bytes (the (map_of header k)) s in (total + r, kept + h))
       plan (0, 0)"

text \<open>\<open>_EagerShard.__init__\<close>. Each slab of the layout is allocated and registered (\<open>new_ref\<close> is the
  allocator's answer for it), each planned name gets one read job into its slab region (\<open>slab = 0\<close>: a
  buffer of its own). A job's outcome is determined by the file, so a future is its result.\<close>

definition slab_region :: "slab list \<Rightarrow> string \<Rightarrow> nat option" where
  "slab_region slabs name =
     map_option (\<lambda>(off, kept). nat kept) (map_of (concat (map snd slabs)) name)"

definition read_job ::
    "(nat \<Rightarrow> nat \<Rightarrow> nat option) \<Rightarrow> 'b list \<Rightarrow> nat \<Rightarrow> header \<Rightarrow> slab list \<Rightarrow> string \<Rightarrow> spec option
     \<Rightarrow> 'b list res" where
  "read_job rd data base header slabs k s =
     (let info = the (map_of header k); dst = slab_region slabs k in
      case s of None \<Rightarrow> read_tensor rd data base info dst
      | Some sp \<Rightarrow> read_slice rd data base info sp dst)"

text \<open>The buffers the jobs allocate themselves: those of non-empty tensors outside every slab.\<close>

definition job_allocs :: "header \<Rightarrow> slab list \<Rightarrow> plan \<Rightarrow> load_state \<Rightarrow> load_state" where
  "job_allocs header slabs plan st =
     fold (\<lambda>(k, s) st. let info = the (map_of header k); n = snd (spec_bytes info s) in
            if n \<le> 0 \<or> slab_region slabs k \<noteq> None \<or> ti_dtype info \<notin> set dtypes then st
            else alloc_host n st)
       plan st"

definition eager_init ::
    "(nat \<Rightarrow> nat \<Rightarrow> nat option) \<Rightarrow> 'b list \<Rightarrow> nat \<Rightarrow> header \<Rightarrow> (string \<rightharpoonup> 'b list) \<Rightarrow> plan \<Rightarrow> int
     \<Rightarrow> (nat \<Rightarrow> bool) \<Rightarrow> (slab \<Rightarrow> slab_ref) \<Rightarrow> load_state \<Rightarrow> (load_state \<times> 'b shard) res" where
  "eager_init rd data base header inner plan slab live new_ref st =
     bind_res (if slab = 0 then Inr [] else slab_layout header plan slab) (\<lambda>slabs.
       let st = fold (new_slab live) (map new_ref slabs) st;
           st = job_allocs header slabs plan st;
           (total, kept) = plan_bytes header plan
       in Inr (st\<lparr>ls_bytes := ls_bytes st + total, ls_resident := ls_resident st + kept,
                  ls_sliced := ls_sliced st + int (length (filter (\<lambda>(k, s). s \<noteq> None) plan)),
                  ls_files := ls_files st + 1\<rparr>,
               \<lparr>sh_inner = inner, sh_header = header,
                sh_futures = (\<lambda>k. map_option (read_job rd data base header slabs k) (map_of plan k)),
                sh_specs = (\<lambda>k. Option.bind (map_of plan k) id)\<rparr>))"

definition inner_get :: "'b shard \<Rightarrow> string \<Rightarrow> 'b tens res" where
  "inner_get sh name = (case sh_inner sh name of None \<Rightarrow> Inl KeyError | Some t \<Rightarrow> Inr (Whole t))"

text \<open>\<open>get_tensor\<close>: pops the future; a failed read falls back to the stock tensor.\<close>

definition get_tensor ::
    "load_state \<Rightarrow> 'b shard \<Rightarrow> string \<Rightarrow> load_state \<times> 'b shard \<times> 'b tens res" where
  "get_tensor st sh name =
     (case sh_futures sh name of
        None \<Rightarrow> (st, sh, inner_get sh name)
      | Some fut \<Rightarrow>
          (let sh' = sh\<lparr>sh_futures := (sh_futures sh)(name := None)\<rparr> in
           case fut of
             Inr t \<Rightarrow>
               (case sh_specs sh name of
                  None \<Rightarrow> (st, sh', Inr (Whole t))
                | Some sp \<Rightarrow> (st, sh', Inr (StandIn (the (map_of (sh_header sh) name)) sp t)))
           | Inl e \<Rightarrow>
               (st\<lparr>ls_read_failures := ls_read_failures st + 1\<rparr>, sh', inner_get sh' name)))"

definition shard_exit :: "'b shard \<Rightarrow> 'b shard" where
  "shard_exit sh = sh\<lparr>sh_futures := Map.empty\<rparr>"

section \<open>What \<open>safe_open\<close> returns\<close>

datatype opened = StockShard | EmptyShard | EagerPlan plan

text \<open>\<open>_wrap_open\<close>. \<open>safet\<close>: the argument is a path ending in \<open>.safetensors\<close>; \<open>ep\<close>, \<open>moe\<close> are the answers
  of \<open>_ep_info\<close> and \<open>_moe_tp_info\<close>; \<open>cpu\<close>: the requested device is the CPU. The draft phase asks for no
  expert ownership, so its \<open>ep\<close> is unknown there.\<close>

definition wrap_open ::
    "load_state \<Rightarrow> bool \<Rightarrow> layout \<Rightarrow> int option \<Rightarrow> slice_mode \<Rightarrow> layout \<Rightarrow> header \<Rightarrow> bool
     \<Rightarrow> load_state \<times> opened" where
  "wrap_open st safet ep n_experts mode moe header cpu =
     (if \<not> safet then (st, StockShard)
      else
        (let ph = ls_phase st;
             own = (if ph = Target then ep else None);
             n_routed = (if own = None then None else n_experts);
             lay_ep = (if ph = Target then own else if mode \<noteq> SliceOff then ep else None);
             moe_tp = (if lay_ep \<noteq> None \<or> mode = SliceOn then moe else None);
             tp = tp_slicing lay_ep moe_tp mode;
             experts = (\<not> (tp = None \<and> lay_ep \<noteq> None \<and> snd (the lay_ep) = 1
                          \<and> (moe_tp = None \<or> snd (the moe_tp) > 1)));
             names = needed_names header ph own n_routed
         in if ph = Draft \<and> names = []
            then (st\<lparr>ls_skipped := ls_skipped st + 1\<rparr>, EmptyShard)
            else
              (let plan = (if tp \<noteq> None \<or> \<not> experts
                           then read_plan header ph own n_routed tp experts
                           else map (\<lambda>k. (k, None)) names)
               in if plan = [] \<or> \<not> cpu then (st, StockShard) else (st, EagerPlan plan))))"

text \<open>The \<open>safe_open\<close> wrapper: any exception of the fast path is counted and the stock loader opens the
  shard.\<close>

definition safe_open :: "load_state \<Rightarrow> (load_state \<times> opened) res \<Rightarrow> load_state \<times> opened" where
  "safe_open st r = (case r of Inr x \<Rightarrow> x
     | Inl e \<Rightarrow> (st\<lparr>ls_open_failures := ls_open_failures st + 1\<rparr>, StockShard))"

section \<open>Escaped slabs\<close>

text \<open>\<open>bisect.bisect_right\<close> on a sorted list: the number of leading elements at most \<open>x\<close>.\<close>

fun bisect_right :: "int list \<Rightarrow> int \<Rightarrow> nat" where
  "bisect_right [] x = 0"
| "bisect_right (y # ys) x = (if y \<le> x then Suc (bisect_right ys x) else 0)"

text \<open>The slab a data pointer lies in, and the name it is reported under there.\<close>

definition span_of :: "slab_ref list \<Rightarrow> int \<Rightarrow> slab_ref option" where
  "span_of spans ptr =
     (let i = bisect_right (map sr_ptr spans) ptr in
      if i = 0 \<or> ptr \<ge> sr_ptr (spans ! (i - 1)) + sr_bytes (spans ! (i - 1)) then None
      else Some (spans ! (i - 1)))"

definition view_name :: "slab_ref \<Rightarrow> int \<Rightarrow> string" where
  "view_name r ptr =
     (let j = bisect_right (map (\<lambda>(nm, off, k). off) (sr_members r)) (ptr - sr_ptr r) in
      if j = 0 then ''+'' @ show_nat (nat (ptr - sr_ptr r)) else fst (sr_members r ! (j - 1)))"

text \<open>\<open>_escaped_slabs\<close>: every slab still alive, with the names its live views point at; \<open>ptrs\<close> are the
  data pointers of the live tensors. The registry is emptied.\<close>

definition escaped_slabs ::
    "(nat \<Rightarrow> bool) \<Rightarrow> int list \<Rightarrow> load_state \<Rightarrow> (int \<times> string \<times> string list) list \<times> load_state" where
  "escaped_slabs live ptrs st =
     (let alive = filter (slab_alive live) (ls_slab_refs st);
          spans = sort_key sr_ptr alive;
          found = (\<lambda>r. sort (remdups (map (view_name r)
                     (filter (\<lambda>p. map_option sr_id (span_of spans p) = Some (sr_id r)) ptrs))))
      in (map (\<lambda>r. (sr_bytes r, sr_path r,
             if found r = [] then [''no live tensor object found (C++-held view)''] else found r)) alive,
          st\<lparr>ls_slab_refs := [], ls_slab_size := Map.empty\<rparr>))"

section \<open>Phases\<close>

text \<open>\<open>_log_phase\<close>; \<open>on\<close> is \<open>enabled()\<close>.\<close>

definition log_phase ::
    "bool \<Rightarrow> (nat \<Rightarrow> bool) \<Rightarrow> int list \<Rightarrow> load_state \<Rightarrow> (int \<times> string \<times> string list) list \<times> load_state" where
  "log_phase on live ptrs st =
     (let st = st\<lparr>ls_bytes := 0, ls_resident := 0, ls_sliced := 0, ls_files := 0, ls_skipped := 0,
            ls_open_failures := 0, ls_read_failures := 0, ls_host_allocs := 0, ls_host_bytes := 0,
            ls_slabs := 0, ls_peak_live := 0, ls_peak_bytes := 0\<rparr>
      in if on then escaped_slabs live ptrs st else ([], st))"

text \<open>The target's \<open>load_weights\<close> wrapper: an escaped slab after a load that succeeded is an error.
  \<open>body\<close> is the load itself.\<close>

definition target_load ::
    "bool \<Rightarrow> (load_state \<Rightarrow> load_state \<times> 'a res) \<Rightarrow> (nat \<Rightarrow> bool) \<Rightarrow> int list \<Rightarrow> load_state
     \<Rightarrow> load_state \<times> 'a res" where
  "target_load on body live ptrs st =
     (let (st', out) = body st in
      if ls_phase st = Target
      then (let (escaped, st'') = log_phase on live ptrs st' in
        (st'', case out of Inl e \<Rightarrow> Inl e
           | Inr x \<Rightarrow> if escaped \<noteq> [] then Inl RuntimeError else Inr x))
      else (st', out))"

text \<open>The draft's \<open>load_weights\<close> wrapper.\<close>

definition draft_load ::
    "bool \<Rightarrow> (load_state \<Rightarrow> load_state \<times> 'a res) \<Rightarrow> (nat \<Rightarrow> bool) \<Rightarrow> int list \<Rightarrow> load_state
     \<Rightarrow> load_state \<times> 'a res" where
  "draft_load on body live ptrs st =
     (let (st', out) = body (st\<lparr>ls_phase := Draft\<rparr>);
          (escaped, st'') = log_phase on live ptrs st'
      in (st''\<lparr>ls_phase := Target\<rparr>, out))"

section \<open>Plans stay inside their tensors\<close>

definition plan_ok :: "header \<Rightarrow> plan \<Rightarrow> bool" where
  "plan_ok header plan \<longleftrightarrow> (\<forall>(k, s) \<in> set plan. \<exists>info. map_of header k = Some info \<and>
     (case s of None \<Rightarrow> True
      | Some (d, st, len) \<Rightarrow> nat d < length (ti_shape info) \<and> 0 \<le> st \<and> 0 \<le> len
          \<and> st + len \<le> ti_shape info ! nat d))"

lemma needed_names_subset: "set (needed_names header ph ep n) \<subseteq> fst ` set header"
  by (auto simp: needed_names_def Let_def split: option.splits if_splits)

lemma slice_spec_inside:
  assumes "slice_spec name info (Some (r, sz)) = Some (d, st, len)" and "wf_info info"
    and "0 \<le> r" and "r < sz"
  shows "nat d < length (ti_shape info) \<and> 0 \<le> st \<and> 0 \<le> len \<and> st + len \<le> ti_shape info ! nat d"
proof -
  note s = slice_spec_shape [OF assms(1)]
  have sz: "0 < sz" using assms by linarith
  have "0 \<le> sz * len"
    using s(2,4) sz assms(2) by (metis wf_info_def nth_mem)
  then have len: "0 \<le> len" using sz by (simp add: zero_le_mult_iff)
  have "r * len + len = (r + 1) * len" by (simp add: distrib_right)
  also have "\<dots> \<le> sz * len" using len assms(4) by (intro mult_right_mono) auto
  finally show ?thesis using s sz len assms(3) by simp
qed

lemma map_plan_ok:
  assumes "\<And>k info. map_of header k = Some info \<Longrightarrow> wf_info info"
    and "set names \<subseteq> fst ` set header" and "\<And>r n. tp = Some (r, n) \<Longrightarrow> 0 \<le> r \<and> r < n"
  shows "plan_ok header (map (\<lambda>k. (k, slice_spec k (the (map_of header k)) tp)) names)"
  unfolding plan_ok_def
proof (clarsimp)
  fix k assume "k \<in> set names"
  then obtain info where info: "map_of header k = Some info"
    using assms(2) by (metis map_of_eq_None_iff option.exhaust subsetD)
  have "nat d < length (ti_shape info) \<and> 0 \<le> st \<and> 0 \<le> len \<and> st + len \<le> ti_shape info ! nat d"
    if "slice_spec k info tp = Some (d, st, len)" for d st len
  proof (cases tp)
    case None
    with that show ?thesis by (simp add: slice_spec_def)
  next
    case (Some q)
    then obtain r n where "tp = Some (r, n)" by (cases q) auto
    with that assms(1) [OF info] assms(3) show ?thesis by (intro slice_spec_inside) auto
  qed
  with info show "\<exists>info. map_of header k = Some info \<and>
      (case slice_spec k (the (map_of header k)) tp of None \<Rightarrow> True
       | Some (d, st, len) \<Rightarrow> nat d < length (ti_shape info) \<and> 0 \<le> st \<and> 0 \<le> len
          \<and> st + len \<le> ti_shape info ! nat d)"
    by (auto split: option.splits)
qed

lemma wrap_open_plan_ok:
  assumes "\<And>k info. map_of header k = Some info \<Longrightarrow> wf_info info"
    and "\<And>r n. moe = Some (r, n) \<Longrightarrow> 0 \<le> r \<and> r < n"
    and "wrap_open st safet ep n_experts mode moe header cpu = (st', EagerPlan plan)"
  shows "plan_ok header plan"
proof -
  have tp: "tp_slicing e m md = Some q \<Longrightarrow> m = Some q" for e m md q
    by (auto simp: tp_slicing_def split: option.splits if_splits)
  have none: "plan_ok header (map (\<lambda>k. (k, None)) (needed_names header ph e n))" for ph e n
    using map_plan_ok [OF assms(1) needed_names_subset, where tp = None]
    by (simp add: slice_spec_def)
  have sliced: "plan_ok header (read_plan header ph e n tp ex)"
    if "\<And>r k. tp = Some (r, k) \<Longrightarrow> 0 \<le> r \<and> r < k" for ph e n tp ex
    unfolding read_plan_def Let_def
  proof (rule map_plan_ok)
    show "\<And>k info. map_of header k = Some info \<Longrightarrow> wf_info info" by (rule assms(1))
    show "set (if ex then needed_names header ph e n
        else filter (\<lambda>k. expert_id k = None) (needed_names header ph e n)) \<subseteq> fst ` set header"
      using needed_names_subset [of header ph e n] by auto
  qed (use that in auto)
  show ?thesis
    using assms(3)
    by (auto simp: wrap_open_def Let_def none split: if_splits intro!: sliced dest: tp assms(2))
qed

lemma wrap_open_empty:
  "snd (wrap_open st True ep n_experts mode moe header cpu) = EmptyShard
    \<longleftrightarrow> ls_phase st = Draft \<and> needed_names header Draft None None = []"
proof (cases "ls_phase st")
  case Target
  then show ?thesis by (simp add: wrap_open_def Let_def del: split_paired_Ex)
next
  case Draft
  then show ?thesis
    by (cases "needed_names header Draft None None = []") (simp_all add: wrap_open_def Let_def)
qed

section \<open>Eager reads against the stock handle\<close>

text \<open>What a returned tensor stands for: the stored tensor, or a stand-in whose resident slice is the
  narrow of the stored tensor.\<close>

definition denotes :: "tinfo \<Rightarrow> 'b list \<Rightarrow> 'b tens \<Rightarrow> bool" where
  "denotes info stock t =
     (case t of Whole x \<Rightarrow> x = stock
      | StandIn i sp part \<Rightarrow> i = info \<and> part = tensor_narrow info sp stock)"

text \<open>This rank's part of a routed-expert matrix: \<open>w2\<close> is split by columns, \<open>w1\<close> and \<open>w3\<close> by rows, into \<open>n\<close> equal parts, of which
  rank \<open>r\<close> holds number \<open>r\<close>.\<close>

definition split_dim :: "string \<Rightarrow> int" where
  "split_dim name = (let parts = split_char CHR ''.'' name in if parts ! (length parts - 2) = ''w2'' then 1 else 0)"

definition own_part :: "layout \<Rightarrow> string \<Rightarrow> tinfo \<Rightarrow> spec \<Rightarrow> bool" where
  "own_part moe name info sp =
     (case (moe, sp) of
        (Some (r, n), (d, st, len)) \<Rightarrow> expert_id name \<noteq> None \<and> d = split_dim name \<and> ti_shape info ! nat d = n * len \<and> st = r * len
      | _ \<Rightarrow> False)"

definition part_of_rank :: "layout \<Rightarrow> string \<Rightarrow> tinfo \<Rightarrow> 'b tens \<Rightarrow> bool" where
  "part_of_rank moe name info t = (case t of Whole _ \<Rightarrow> True | StandIn _ sp _ \<Rightarrow> own_part moe name info sp)"

lemma slice_spec_own:
  assumes "slice_spec name info tp = Some sp" and "\<And>r n. tp = Some (r, n) \<Longrightarrow> 0 < n"
  shows "own_part tp name info sp"
  using assms by (auto simp: slice_spec_def own_part_def split_dim_def tp_slice_dim_def Let_def split: if_splits option.splits)

lemma wrap_open_specs:
  assumes "wrap_open st safet ep n_experts mode moe header cpu = (st', EagerPlan plan)" and "map_of plan name = Some (Some sp)"
  shows "slice_spec name (the (map_of header name)) moe = Some sp"
proof -
  have tp: "tp_slicing e m md = None \<or> tp_slicing e m md = m" for e m md
    by (auto simp: tp_slicing_def split: option.splits)
  have named: "map_of (map (\<lambda>k. (k, f k)) names) name = Some (Some sp) \<Longrightarrow> f name = Some sp" for f and names :: "string list"
    by (induction names) (auto split: if_splits)
  have plain: "slice_spec name info None = None" for info by (simp add: slice_spec_def)
  have read: "map_of (read_plan header ph e n tp' ex) name = Some (Some sp) \<Longrightarrow> slice_spec name (the (map_of header name)) tp' = Some sp" for ph e n tp' ex
    unfolding read_plan_def Let_def by (rule named)
  have no_spec: "map_of (map (\<lambda>k. (k, None)) names) name \<noteq> Some (Some sp)" for names :: "string list"
    using named [of "\<lambda>_. None"] by blast
  define own where "own = (if ls_phase st = Target then ep else None)"
  define lay where "lay = (if ls_phase st = Target then own else if mode \<noteq> SliceOff then ep else None)"
  define moe_tp where "moe_tp = (if lay \<noteq> None \<or> mode = SliceOn then moe else None)"
  have "slice_spec name (the (map_of header name)) (tp_slicing lay moe_tp mode) = Some sp"
    using assms unfolding wrap_open_def Let_def own_def [symmetric] lay_def [symmetric] moe_tp_def [symmetric]
    by (simp split: if_splits add: no_spec) (use read no_spec in blast)+
  then show ?thesis using tp [of lay moe_tp mode] plain by (auto simp: moe_tp_def split: if_splits)
qed

lemma read_tensor_dst:
  "read_tensor rd data base info dst = Inr x \<Longrightarrow> read_tensor rd data base info None = Inr x"
  by (auto simp: read_tensor_def dst_bad_def Let_def split: if_splits)

lemma read_slice_dst:
  "read_slice rd data base info sp dst = Inr x \<Longrightarrow> read_slice rd data base info sp None = Inr x"
  by (auto simp: read_slice_def dst_bad_def Let_def split: if_splits prod.splits)

context pread_file
begin

lemma read_job_denotes:
  assumes "len = length data" and "plan_ok header plan" and "map_of plan k = Some s"
    and "map_of header k = Some info" and "wf_info info" and "base + nat (ti_b info) \<le> len"
    and "read_job rd data base header slabs k s = Inr t"
  shows "denotes info (entry_bytes base info data)
    (case s of None \<Rightarrow> Whole t | Some sp \<Rightarrow> StandIn info sp t)"
proof (cases s)
  case None
  with assms have "read_tensor rd data base info (slab_region slabs k) = Inr t"
    by (simp add: read_job_def)
  then have "read_tensor (kernel_pread len) data base info None = Inr t"
    using read_tensor_kernel read_tensor_dst assms(1) by blast
  with None assms show ?thesis
    by (simp add: kernel.read_tensor_entry denotes_def dst_bad_def)
next
  case (Some sp)
  obtain d st k' where sp: "sp = (d, st, k')" by (cases sp)
  have "nat d < length (ti_shape info) \<and> 0 \<le> st \<and> 0 \<le> k' \<and> st + k' \<le> ti_shape info ! nat d"
    using assms(2,3,4) Some sp by (fastforce simp: plan_ok_def dest: map_of_SomeD)
  moreover have "read_slice rd data base info sp (slab_region slabs k) = Inr t"
    using assms Some by (simp add: read_job_def)
  then have "read_slice (kernel_pread len) data base info sp None = Inr t"
    using read_slice_kernel read_slice_dst assms(1) by blast
  ultimately show ?thesis
    using Some sp assms by (simp add: kernel.read_slice_narrow denotes_def dst_bad_def)
qed

end

lemma eager_init_shard:
  assumes "eager_init rd data base header inner plan slab live new_ref st = Inr (st', sh)"
  obtains slabs where "if slab = 0 then slabs = [] else slab_layout header plan slab = Inr slabs"
    and "sh = \<lparr>sh_inner = inner, sh_header = header,
      sh_futures = (\<lambda>k. map_option (read_job rd data base header slabs k) (map_of plan k)),
      sh_specs = (\<lambda>k. Option.bind (map_of plan k) id)\<rparr>"
proof (cases "slab = 0")
  case True
  with assms that [of "[]"] show thesis by (auto simp: eager_init_def Let_def case_prod_beta)
next
  case False
  with assms obtain slabs where "slab_layout header plan slab = Inr slabs"
    by (cases "slab_layout header plan slab") (auto simp: eager_init_def)
  with False assms that [of slabs] show thesis by (auto simp: eager_init_def Let_def case_prod_beta)
qed

text \<open>On a readable file no job fails: every region has exactly the size its job asks for.\<close>

lemma slab_region_size:
  assumes "slab_layout header plan slab = Inr slabs" and "distinct (map fst plan)"
    and "(k, s) \<in> set plan" and "fst ` set plan \<subseteq> fst ` set header"
    and "slab_region slabs k = Some m"
  shows "m = nat (snd (spec_bytes (the (map_of header k)) s))"
proof -
  let ?f = "\<lambda>(k, sp). (k, snd (spec_bytes (the (map_of header k)) sp))"
  obtain off kept where hit: "map_of (concat (map snd slabs)) k = Some (off, kept)" and m: "m = nat kept"
    using assms(5) by (auto simp: slab_region_def)
  have "(k, kept) \<in> set (map (\<lambda>(nm, off, k). (nm, k)) (concat (map snd slabs)))"
    using map_of_SomeD [OF hit] by force
  moreover have "mset (map (\<lambda>(nm, off, k). (nm, k)) (concat (map snd slabs)))
      = mset (filter (\<lambda>x. 0 < snd x) (map ?f plan))"
    using slab_layout_mset [OF assms(4), of slab] assms(1) by auto
  ultimately have "(k, kept) \<in> set (filter (\<lambda>x. 0 < snd x) (map ?f plan))"
    using mset_eq_setD by blast
  then obtain s' where s': "(k, s') \<in> set plan" "kept = snd (spec_bytes (the (map_of header k)) s')" by auto
  with eq_key_imp_eq_value [OF assms(2,3), of s'] m show ?thesis by simp
qed

section \<open>Finding the owner of a pointer\<close>

lemma bisect_right_hit:
  assumes "sorted xs" and "i < length xs" and "xs ! i \<le> x" and "Suc i < length xs \<Longrightarrow> x < xs ! Suc i"
  shows "bisect_right xs x = Suc i"
  using assms
proof (induction xs arbitrary: i)
  case Nil
  then show ?case by simp
next
  case (Cons y ys)
  show ?case
  proof (cases i)
    case 0
    with Cons.prems show ?thesis by (cases ys) auto
  next
    case (Suc j)
    have "y \<le> ys ! j" using Cons.prems Suc by (auto intro: nth_mem)
    then have "y \<le> x" using Cons.prems Suc by (auto intro: order_trans)
    with Cons Suc show ?thesis by auto
  qed
qed

text \<open>In a list of intervals \<open>[lo, hi)\<close> in increasing order, a point of the \<open>i\<close>-th interval is found
  by bisection on the lower ends.\<close>

lemma bisect_interval:
  assumes "sorted_wrt (\<lambda>p q. hi p \<le> lo q) xs" and "\<And>p. p \<in> set xs \<Longrightarrow> lo p \<le> hi p"
    and "i < length xs" and "lo (xs ! i) \<le> (x :: int)" and "x < hi (xs ! i)"
  shows "bisect_right (map lo xs) x = Suc i"
proof (rule bisect_right_hit)
  have "sorted_wrt (\<lambda>p q. lo p \<le> lo q) xs"
    using assms(2) by (intro sorted_wrt_mono_rel [OF _ assms(1)]) (meson order_trans)
  then show "sorted (map lo xs)" by (simp add: sorted_map)
  show "x < map lo xs ! Suc i" if "Suc i < length (map lo xs)"
    using that assms(5) sorted_wrt_nth_less [OF assms(1), of i "Suc i"] by simp
qed (use assms in simp_all)

lemma view_name_member:
  assumes "members_ok n (sr_members r)" and "(nm, off, k) \<in> set (sr_members r)"
    and "off \<le> ptr - sr_ptr r" and "ptr - sr_ptr r < off + k"
  shows "view_name r ptr = nm"
proof -
  obtain i where i: "i < length (sr_members r)" "sr_members r ! i = (nm, off, k)"
    using assms(2) by (metis in_set_conv_nth)
  have "bisect_right (map (\<lambda>(nm, off, k). off) (sr_members r)) (ptr - sr_ptr r) = Suc i"
  proof (rule bisect_interval [where hi = "\<lambda>(nm, off, k). off + k"])
    show "sorted_wrt (\<lambda>p q. (case p of (nm, off, k) \<Rightarrow> off + k) \<le> (case q of (nm, off, k) \<Rightarrow> off))
        (sr_members r)"
      using assms(1) by (auto simp: members_ok_def elim!: sorted_wrt_mono_rel [rotated])
    show "\<And>p. p \<in> set (sr_members r) \<Longrightarrow> (case p of (nm, off, k) \<Rightarrow> off) \<le> (case p of (nm, off, k) \<Rightarrow> off + k)"
      using assms(1) by (fastforce simp: members_ok_def)
  qed (use i assms in auto)
  with i show ?thesis by (simp add: view_name_def Let_def)
qed

definition ranges_disjoint :: "slab_ref list \<Rightarrow> bool" where
  "ranges_disjoint refs \<longleftrightarrow> (\<forall>r \<in> set refs. 0 < sr_bytes r) \<and>
     pairwise (\<lambda>r q. sr_ptr r + sr_bytes r \<le> sr_ptr q \<or> sr_ptr q + sr_bytes q \<le> sr_ptr r) (set refs)
     \<and> distinct refs"

lemma ranges_disjoint_filter: "ranges_disjoint refs \<Longrightarrow> ranges_disjoint (filter P refs)"
  by (auto simp: ranges_disjoint_def elim: pairwise_subset)

lemma span_of_sorted:
  assumes "ranges_disjoint refs" and "r \<in> set refs" and "sr_ptr r \<le> ptr" and "ptr < sr_ptr r + sr_bytes r"
  shows "span_of (sort_key sr_ptr refs) ptr = Some r"
proof -
  let ?xs = "sort_key sr_ptr refs"
  have dist: "distinct ?xs" using assms(1) by (simp add: ranges_disjoint_def)
  have "sorted_wrt (\<lambda>p q. sr_ptr p + sr_bytes p \<le> sr_ptr q) ?xs"
    unfolding sorted_wrt_iff_nth_less
  proof (intro allI impI)
    fix i j assume ij: "i < j" "j < length ?xs"
    have mem: "?xs ! i \<in> set refs" "?xs ! j \<in> set refs" using ij nth_mem [of _ ?xs] by auto
    have "?xs ! i \<noteq> ?xs ! j" using ij dist by (simp add: nth_eq_iff_index_eq)
    moreover have "sr_ptr (?xs ! i) \<le> sr_ptr (?xs ! j)"
      using ij sorted_nth_mono [OF sorted_sort_key [of sr_ptr refs], of i j] by simp
    moreover have "0 < sr_bytes (?xs ! j)" using assms(1) mem by (auto simp: ranges_disjoint_def)
    ultimately show "sr_ptr (?xs ! i) + sr_bytes (?xs ! i) \<le> sr_ptr (?xs ! j)"
      using pairwiseD [of _ "set refs" "?xs ! i" "?xs ! j"] assms(1) mem
      unfolding ranges_disjoint_def by (smt (verit))
  qed
  moreover obtain i where i: "i < length ?xs" "?xs ! i = r" using assms(2) by (metis in_set_conv_nth set_sort)
  ultimately have "bisect_right (map sr_ptr ?xs) ptr = Suc i"
    using assms by (intro bisect_interval [where hi = "\<lambda>r. sr_ptr r + sr_bytes r"])
      (auto simp: ranges_disjoint_def less_imp_le)
  with i assms show ?thesis by (simp add: span_of_def Let_def)
qed

section \<open>Properties\<close>

text \<open>C14: the handle \<open>safe_open\<close> returns is indistinguishable from the stock handle for every tensor of
  the shard: for any kernel that keeps the bounds of \<open>preadv\<close>, failing or short reads included,
  \<open>get_tensor\<close> returns the stored bytes, or, for a routed-expert matrix, the stand-in whose resident slice is the narrow of the
  stored tensor to this rank's part: the columns of \<open>w2\<close> or the rows of the others that the rank owns, one of equal parts.\<close>

theorem eager_tensor_is_stock:
  assumes "pread_file rd (length data)"
    and "\<forall>(k, i) \<in> set header. wf_info i \<and> base + nat (ti_b i) \<le> length data"
    and "\<forall>r n. moe = Some (r, n) \<longrightarrow> 0 \<le> r \<and> r < n"
    and "wrap_open st safet ep n_experts mode moe header cpu = (st1, EagerPlan plan)"
    and "inner = (\<lambda>k. map_option (\<lambda>i. entry_bytes base i data) (map_of header k))"
    and "eager_init rd data base header inner plan slab live new_ref st1 = Inr (st2, sh)"
    and "map_of header name = Some info"
  shows "\<exists>st3 sh' t. get_tensor st2 sh name = (st3, sh', Inr t)
    \<and> denotes info (entry_bytes base info data) t \<and> part_of_rank moe name info t"
proof -
  have wf: "wf_info i \<and> base + nat (ti_b i) \<le> length data" if "map_of header k = Some i" for k i
    using assms(2) map_of_SomeD [OF that] by blast
  have ok: "plan_ok header plan"
    using wf assms(3,4) by (intro wrap_open_plan_ok) auto
  obtain slabs where sh: "sh = \<lparr>sh_inner = inner, sh_header = header,
      sh_futures = (\<lambda>k. map_option (read_job rd data base header slabs k) (map_of plan k)),
      sh_specs = (\<lambda>k. Option.bind (map_of plan k) id)\<rparr>"
    using assms(6) by (rule eager_init_shard)
  show ?thesis
  proof (cases "map_of plan name")
    case None
    then show ?thesis using sh assms(5,7) by (simp add: get_tensor_def inner_get_def denotes_def part_of_rank_def)
  next
    case (Some s)
    show ?thesis
    proof (cases "read_job rd data base header slabs name s")
      case (Inl e)
      then show ?thesis using Some sh assms(5,7)
        by (simp add: get_tensor_def inner_get_def denotes_def part_of_rank_def Let_def)
    next
      case (Inr t)
      have "denotes info (entry_bytes base info data)
          (case s of None \<Rightarrow> Whole t | Some sp \<Rightarrow> StandIn info sp t)"
        using pread_file.read_job_denotes [OF assms(1) refl ok Some assms(7) _ _ Inr] wf assms(7) by blast
      moreover have "part_of_rank moe name info (case s of None \<Rightarrow> Whole t | Some sp \<Rightarrow> StandIn info sp t)"
      proof (cases s)
        case (Some sp)
        with \<open>map_of plan name = Some s\<close> wrap_open_specs [OF assms(4), of name sp] assms(7)
        have "slice_spec name info moe = Some sp" by simp
        then have "own_part moe name info sp" by (rule slice_spec_own) (use assms(3) in force)
        with Some show ?thesis by (simp add: part_of_rank_def)
      qed (simp add: part_of_rank_def)
      ultimately show ?thesis using Inr Some sh assms(7)
        by (auto simp: get_tensor_def Let_def split: option.splits)
    qed
  qed
qed

definition demo_ref :: "slab \<Rightarrow> slab_ref" where
  "demo_ref s = \<lparr>sr_id = 0, sr_weak = True, sr_bytes = fst s, sr_path = ''p'', sr_members = snd s,
     sr_ptr = 65536\<rparr>"

definition demo_inner :: "string \<rightharpoonup> nat list" where
  "demo_inner = (\<lambda>k. map_option (\<lambda>i. entry_bytes 0 i [0..<100]) (map_of demo_header k))"

definition demo_plan :: plan where
  "demo_plan = [(''a'', None), (''m.experts.1.w1.weight'', Some (0, 2, 2))]"

definition dead_disk :: "nat \<Rightarrow> nat \<Rightarrow> nat option" where
  "dead_disk off n = None"

lemma demo_open:
  "wrap_open init_load_state True (Some (0, 1)) (Some 2) SliceAuto (Some (1, 2)) demo_header True
    = (init_load_state, EagerPlan demo_plan)"
proof (rule prod_eqI)
  show "fst (wrap_open init_load_state True (Some (0, 1)) (Some 2) SliceAuto (Some (1, 2)) demo_header True)
      = fst (init_load_state, EagerPlan demo_plan)"
    by (simp add: wrap_open_def init_load_state_def Let_def)
  show "snd (wrap_open init_load_state True (Some (0, 1)) (Some 2) SliceAuto (Some (1, 2)) demo_header True)
      = snd (init_load_state, EagerPlan demo_plan)"
    by code_simp
qed

theorem eager_tensor_is_stock_witness:
  "\<exists>st2 sh st3 sh' t.
     eager_init dead_disk [0..<100] 0 demo_header demo_inner demo_plan 0 (\<lambda>_. True) demo_ref
       init_load_state = Inr (st2, sh)
     \<and> get_tensor st2 sh ''m.experts.1.w1.weight'' = (st3, sh', Inr t)
     \<and> denotes demo_info (entry_bytes 0 demo_info [0..<100]) t \<and> part_of_rank (Some (1, 2)) ''m.experts.1.w1.weight'' demo_info t"
proof -
  obtain st2 sh where init: "eager_init dead_disk [0..<100] 0 demo_header demo_inner demo_plan 0
      (\<lambda>_. True) demo_ref init_load_state = Inr (st2, sh)"
    by (simp add: eager_init_def Let_def case_prod_beta)
  have "\<exists>st3 sh' t. get_tensor st2 sh ''m.experts.1.w1.weight'' = (st3, sh', Inr t)
      \<and> denotes demo_info (entry_bytes 0 demo_info [0..<100]) t \<and> part_of_rank (Some (1, 2)) ''m.experts.1.w1.weight'' demo_info t"
  proof (rule eager_tensor_is_stock [OF _ _ _ demo_open demo_inner_def init])
    show "pread_file dead_disk (length [0..<100])" by unfold_locales (simp add: dead_disk_def)
  qed (simp_all add: demo_header_def demo_info_def wf_info_def dtypes_def itemsize_def)
  with init show ?thesis by blast
qed

text \<open>On a readable file every eager read succeeds: each planned tensor is read into a region of
  exactly its size, no future holds an error, so nothing falls back to the stock loader.\<close>

theorem eager_reads_succeed:
  assumes "pread_live rd (length data)"
    and "\<forall>(k, i) \<in> set header. wf_info i \<and> base + nat (ti_b i) \<le> length data"
    and "plan_ok header plan" and "distinct (map fst plan)"
    and "eager_init rd data base header inner plan slab live new_ref st = Inr (st', sh)"
    and "name \<in> fst ` set plan"
  shows "(\<exists>bytes. sh_futures sh name = Some (Inr bytes))
    \<and> ls_read_failures (fst (get_tensor st' sh name)) = ls_read_failures st'"
proof -
  obtain slabs where slabs: "if slab = 0 then slabs = [] else slab_layout header plan slab = Inr slabs"
    and sh: "sh = \<lparr>sh_inner = inner, sh_header = header,
      sh_futures = (\<lambda>k. map_option (read_job rd data base header slabs k) (map_of plan k)),
      sh_specs = (\<lambda>k. Option.bind (map_of plan k) id)\<rparr>"
    using assms(5) by (rule eager_init_shard)
  obtain s where s: "(name, s) \<in> set plan" "map_of plan name = Some s"
    using assms(4,6) by auto
  then obtain info where info: "map_of header name = Some info"
    and rng: "\<And>d a k. s = Some (d, a, k) \<Longrightarrow> nat d < length (ti_shape info) \<and> 0 \<le> a \<and> 0 \<le> k
      \<and> a + k \<le> ti_shape info ! nat d"
    using assms(3) by (fastforce simp: plan_ok_def)
  have wf: "wf_info info" "base + nat (ti_b info) \<le> length data"
    using assms(2) map_of_SomeD [OF info] by blast+
  have sub: "fst ` set plan \<subseteq> fst ` set header"
    using assms(3) by (force simp: plan_ok_def dest: map_of_SomeD)
  have dst: "\<not> dst_bad (slab_region slabs name) (nat (snd (spec_bytes info s)))"
    using slab_region_size [OF _ assms(4) s(1) sub] slabs info
    by (cases "slab = 0") (auto simp: dst_bad_def slab_region_def split: option.splits)
  have "\<exists>bytes. read_job rd data base header slabs name s = Inr bytes"
  proof (cases s)
    case None
    with dst wf info show ?thesis
      using pread_live.read_tensor_entry [OF assms(1) refl]
      by (auto simp: read_job_def spec_bytes_def)
  next
    case (Some sp)
    obtain d a k where sp: "sp = (d, a, k)" by (cases sp)
    with Some rng dst wf info show ?thesis
      using pread_live.read_slice_narrow [OF assms(1) refl wf, of d a k]
      by (simp add: read_job_def)
  qed
  with s sh show ?thesis by (auto simp: get_tensor_def Let_def split: option.splits)
qed

theorem eager_reads_succeed_witness:
  "\<exists>st' sh bytes. eager_init (kernel_pread 100) [0..<100] 0 demo_header demo_inner demo_plan 0
       (\<lambda>_. True) demo_ref init_load_state = Inr (st', sh)
     \<and> sh_futures sh ''a'' = Some (Inr bytes)
     \<and> ls_read_failures (fst (get_tensor st' sh ''a'')) = ls_read_failures st'"
proof -
  obtain st' sh where init: "eager_init (kernel_pread 100) [0..<100] 0 demo_header demo_inner demo_plan 0
      (\<lambda>_. True) demo_ref init_load_state = Inr (st', sh)"
    by (simp add: eager_init_def Let_def case_prod_beta)
  have "(\<exists>bytes. sh_futures sh ''a'' = Some (Inr bytes))
      \<and> ls_read_failures (fst (get_tensor st' sh ''a'')) = ls_read_failures st'"
  proof (rule eager_reads_succeed [OF _ _ _ _ init])
    show "pread_live (kernel_pread 100) (length [0..<100])"
      using kernel.pread_live_axioms [of 100] by simp
  qed (auto simp: demo_plan_def plan_ok_def demo_header_def demo_info_def wf_info_def dtypes_def
      itemsize_def)
  with init show ?thesis by blast
qed

text \<open>the stand-in of a sliced tensor answers a narrow with exactly the planes the whole tensor
  would give when they are all resident, and raises otherwise, along any other dimension, and for
  every operation that is neither a narrow nor a shape query; it never returns bytes that were not
  read.\<close>

theorem standin_exact:
  assumes "tp_part t = slice (nat (tp_start t)) (nat (tp_start t) + k) full"
    and "0 \<le> tp_start t" and "nat (tp_start t) + k \<le> length full"
  shows "standin_call t (OpNarrow d start len) =
      (if (if d < 0 then d + tp_ndim t else d) = tp_dim t \<and> tp_start t \<le> start
          \<and> start + len \<le> tp_start t + int k \<and> 0 \<le> len
       then Inr (Some (slice (nat start) (nat (start + len)) full)) else Inl RuntimeError)
    \<and> standin_call t OpOther = Inl RuntimeError"
proof -
  have len: "length (tp_part t) = k" using assms by simp
  have "slice (nat (start - tp_start t)) (nat (start - tp_start t + len)) (tp_part t)
      = slice (nat start) (nat (start + len)) full"
    if "tp_start t \<le> start" "start + len \<le> tp_start t + int k" "0 \<le> len"
  proof -
    have "nat (start - tp_start t + len) \<le> nat (tp_start t) + k - nat (tp_start t)" using that by simp
    moreover have "nat (tp_start t) + nat (start - tp_start t) = nat start"
      "nat (tp_start t) + nat (start - tp_start t + len) = nat (start + len)"
      using that assms(2) by (simp_all flip: nat_add_distrib)
    ultimately show ?thesis unfolding assms(1) by (subst slice_slice) simp_all
  qed
  moreover have "slice (nat (tp_start t)) (nat (tp_start t + int k)) full = tp_part t"
    using assms by (simp add: nat_add_distrib)
  ultimately show ?thesis
    by (simp add: standin_call_def standin_narrow_def len Let_def not_less)
qed

theorem standin_exact_witness:
  "standin_call \<lparr>tp_part = [12, 13, 14, 15], tp_dim = 0, tp_start = 2, tp_ndim = 2\<rparr> (OpNarrow (-2) 3 2)
     = Inr (Some (slice 3 5 [10, 11, 12, 13, 14, 15, 16, 17 :: nat]))
   \<and> standin_call \<lparr>tp_part = [12, 13, 14, 15 :: nat], tp_dim = 0, tp_start = 2, tp_ndim = 2\<rparr> OpOther
     = Inl RuntimeError"
  using standin_exact [of "\<lparr>tp_part = [12, 13, 14, 15], tp_dim = 0, tp_start = 2, tp_ndim = 2\<rparr>" 4
      "[10, 11, 12, 13, 14, 15, 16, 17 :: nat]" "-2" 3 2]
  by (simp add: slice_def)

text \<open>A slab that a view keeps alive after the load is reported under the name of the tensor the
  view points into, for any set of slabs that do not overlap in memory.\<close>

theorem escaped_view_named:
  assumes "r \<in> set (ls_slab_refs st)" and "slab_alive live r" and "ranges_disjoint (ls_slab_refs st)"
    and "members_ok (sr_bytes r) (sr_members r)" and "(nm, off, k) \<in> set (sr_members r)"
    and "ptr \<in> set ptrs" and "sr_ptr r + off \<le> ptr" and "ptr < sr_ptr r + off + k"
  shows "\<exists>names. (sr_bytes r, sr_path r, names) \<in> set (fst (escaped_slabs live ptrs st)) \<and> nm \<in> set names"
proof -
  let ?alive = "filter (slab_alive live) (ls_slab_refs st)"
  have "0 \<le> off \<and> off + k \<le> sr_bytes r" using assms(4,5) by (auto simp: members_ok_def)
  with assms have "span_of (sort_key sr_ptr ?alive) ptr = Some r"
    by (intro span_of_sorted ranges_disjoint_filter) auto
  moreover have "view_name r ptr = nm" using assms by (intro view_name_member [OF assms(4,5)]) auto
  ultimately have hit: "nm \<in> set (map (view_name r) (filter (\<lambda>p. map_option sr_id
      (span_of (sort_key sr_ptr ?alive) p) = Some (sr_id r)) ptrs))"
    using assms(6) by (auto intro!: rev_image_eqI [of ptr])
  define found where "found = sort (remdups (map (view_name r) (filter (\<lambda>p. map_option sr_id
      (span_of (sort_key sr_ptr ?alive) p) = Some (sr_id r)) ptrs)))"
  have found: "nm \<in> set found" using hit by (simp add: found_def)
  then have "found \<noteq> []" by auto
  then have "(sr_bytes r, sr_path r, found) \<in> set (fst (escaped_slabs live ptrs st))"
    using assms(1,2) unfolding escaped_slabs_def Let_def fst_conv found_def set_map
    by (intro image_eqI [of _ _ r]) simp_all
  with found show ?thesis by blast
qed

theorem escaped_view_named_witness:
  "\<exists>names. (8192, ''p'', names) \<in> set (fst (escaped_slabs (\<lambda>_. True) [69640]
       (new_slab (\<lambda>_. True) (demo_ref (8192, demo_members)) init_load_state)))
     \<and> ''m.experts.1.w1.weight'' \<in> set names"
  using escaped_view_named [of "demo_ref (8192, demo_members)"
      "new_slab (\<lambda>_. True) (demo_ref (8192, demo_members)) init_load_state" "\<lambda>_. True"
      "''m.experts.1.w1.weight''" 4096 25 69640 "[69640]"]
  by (simp add: demo_ref_def demo_members_def new_slab_def alloc_host_def init_load_state_def Let_def
      slab_alive_def ranges_disjoint_def members_ok_def slab_align_def)

text \<open>the draft load opens a shard empty exactly when it has no \<open>mtp.\<close> tensor, and the target load
  never opens one empty; both load wrappers leave the module in the target phase with its counters
  cleared and no slab registered, and the target load succeeds only when no slab escaped.\<close>

theorem phases_and_skips:
  "(snd (wrap_open st True ep n_experts mode moe header cpu) = EmptyShard
     \<longleftrightarrow> ls_phase st = Draft \<and> (\<forall>k \<in> fst ` set header. \<not> startswith k ''mtp.''))
   \<and> (let (st', out) = draft_load True body live ptrs st in
        ls_phase st' = Target \<and> ls_slab_refs st' = [] \<and> ls_bytes st' = 0 \<and> ls_read_failures st' = 0
        \<and> out = snd (body (st\<lparr>ls_phase := Draft\<rparr>)))
   \<and> (ls_phase st = Target \<longrightarrow>
        (let (st', out) = target_load True body live ptrs st in
          ls_slab_refs st' = [] \<and> ls_bytes st' = 0
          \<and> ((\<exists>x. out = Inr x) \<longleftrightarrow> (\<exists>x. snd (body st) = Inr x)
               \<and> filter (slab_alive live) (ls_slab_refs (fst (body st))) = [])))"
proof (intro conjI)
  show "snd (wrap_open st True ep n_experts mode moe header cpu) = EmptyShard
     \<longleftrightarrow> ls_phase st = Draft \<and> (\<forall>k \<in> fst ` set header. \<not> startswith k ''mtp.'')"
    by (simp add: wrap_open_empty needed_names_def draft_prefix_def filter_empty_conv)
  show "let (st', out) = draft_load True body live ptrs st in
        ls_phase st' = Target \<and> ls_slab_refs st' = [] \<and> ls_bytes st' = 0 \<and> ls_read_failures st' = 0
        \<and> out = snd (body (st\<lparr>ls_phase := Draft\<rparr>))"
    by (simp add: draft_load_def log_phase_def escaped_slabs_def Let_def case_prod_beta)
  show "ls_phase st = Target \<longrightarrow>
        (let (st', out) = target_load True body live ptrs st in
          ls_slab_refs st' = [] \<and> ls_bytes st' = 0
          \<and> ((\<exists>x. out = Inr x) \<longleftrightarrow> (\<exists>x. snd (body st) = Inr x)
               \<and> filter (slab_alive live) (ls_slab_refs (fst (body st))) = []))"
    by (auto simp: target_load_def log_phase_def escaped_slabs_def Let_def case_prod_beta
        split: sum.splits)
qed

theorem phases_and_skips_witness:
  "snd (wrap_open (init_load_state\<lparr>ls_phase := Draft\<rparr>) True None None SliceOff None demo_header True) = EmptyShard
   \<and> (\<exists>x. snd (target_load True (\<lambda>st. (st, Inr ())) (\<lambda>_. True) [] init_load_state) = Inr x)"
  using phases_and_skips [of "init_load_state\<lparr>ls_phase := Draft\<rparr>" None None SliceOff None demo_header True
      "\<lambda>st. (st, Inr ())" "\<lambda>_. True" "[]"]
    phases_and_skips [of init_load_state None None SliceOff None demo_header True
      "\<lambda>st. (st, Inr ())" "\<lambda>_. True" "[]"]
  by (simp add: init_load_state_def demo_header_def startswith_def case_prod_beta)

end
