(* ===== verification/Fast_Pace.thy ===== *)
theory Fast_Pace
  imports Fast_Shard "HOL-Library.AList"
begin

text \<open>
  The pacing of \<open>adapter/fast_load.py\<close>: \<open>_charge\<close> decides what a weight copy costs, and the
  \<open>paced_submit\<close> closure of \<open>install_deepseek_v4\<close> admits a copy only while the bytes in flight stay
  within the budget. The closure's variables are a record; a submit that has to wait on the condition
  variable is \<open>None\<close>; the done callback of a queued copy is a token that is released later, in any
  order, by a step of its own.
\<close>

section \<open>Charges\<close>

text \<open>An argument of the copy function: a tensor that is no parameter, with its storage address
  (\<open>None\<close> where asking for it raises) and its resident bytes, or anything else.\<close>

datatype func_arg = SourceTensor "int option" int | OtherArg

fun tensor_bytes :: "func_arg list \<Rightarrow> int" where
  "tensor_bytes [] = 0"
| "tensor_bytes (SourceTensor p n # args) = n"
| "tensor_bytes (OtherArg # args) = tensor_bytes args"

fun source_ptr :: "func_arg list \<Rightarrow> int option" where
  "source_ptr [] = None"
| "source_ptr (SourceTensor p n # args) = p"
| "source_ptr (OtherArg # args) = source_ptr args"

definition charge :: "(nat \<Rightarrow> bool) \<Rightarrow> load_state \<Rightarrow> func_arg list \<Rightarrow> int option \<times> int" where
  "charge live st args =
     (case Option.bind (source_ptr args) (ls_slab_size st) of
        Some (n, r) \<Rightarrow>
          if \<not> sr_weak r \<or> live (sr_id r) then (source_ptr args, n) else (None, tensor_bytes args)
      | None \<Rightarrow> (None, tensor_bytes args))"

section \<open>The paced submit\<close>

record pace =
  p_inflight :: int
  p_held :: "(int \<times> int \<times> int) list"  \<comment> \<open>slab key, copies in flight, bytes charged\<close>

type_synonym token = "int option \<times> int"  \<comment> \<open>what the release callback closes over\<close>

definition init_pace :: pace where
  "init_pace = \<lparr>p_inflight = 0, p_held = []\<rparr>"

text \<open>The admission block under the condition variable.\<close>

definition acquire :: "int \<Rightarrow> int option \<Rightarrow> int \<Rightarrow> pace \<Rightarrow> pace option" where
  "acquire budget key sz p =
     (let hit = Option.bind key (map_of (p_held p)) in
      if hit = None \<and> p_inflight p > 0 \<and> p_inflight p + sz > budget then None
      else Some (case hit of
          Some (c, b) \<Rightarrow> p\<lparr>p_held := AList.update (the key) (c + 1, b) (p_held p)\<rparr>
        | None \<Rightarrow>
            (let p = p\<lparr>p_inflight := p_inflight p + sz\<rparr> in
             case key of None \<Rightarrow> p | Some k \<Rightarrow> p\<lparr>p_held := AList.update k (1, sz) (p_held p)\<rparr>)))"

definition release :: "token \<Rightarrow> pace \<Rightarrow> pace res" where
  "release t p =
     (case t of
        (None, sz) \<Rightarrow> Inr (p\<lparr>p_inflight := p_inflight p - sz\<rparr>)
      | (Some k, sz) \<Rightarrow>
          (case map_of (p_held p) k of
             None \<Rightarrow> Inl KeyError
           | Some (c, b) \<Rightarrow>
               if c - 1 = 0
               then Inr (p\<lparr>p_inflight := p_inflight p - b, p_held := AList.delete k (p_held p)\<rparr>)
               else Inr (p\<lparr>p_held := AList.update k (c - 1, b) (p_held p)\<rparr>)))"

text \<open>What the wrapped \<open>maybe_executor_submit\<close> did: queued a future, ran the copy, or raised.\<close>

datatype submitted = Queued | Ran | Raised py_error

definition paced_submit ::
    "int \<Rightarrow> bool \<Rightarrow> int option \<times> int \<Rightarrow> submitted \<Rightarrow> pace \<Rightarrow> (pace \<times> token option \<times> unit res) res option" where
  "paced_submit budget use_async chg outcome p =
     (let result = (case outcome of Raised e \<Rightarrow> Inl e | _ \<Rightarrow> Inr ()) in
      if \<not> use_async then Some (Inr (p, None, result))
      else (let (key, nbytes) = chg; sz = max 1 nbytes in
        case acquire budget key sz p of
          None \<Rightarrow> None
        | Some p' \<Rightarrow>
            Some (if outcome = Queued then Inr (p', Some (key, sz), result)
                  else bind_res (release (key, sz) p') (\<lambda>p''. Inr (p'', None, result)))))"

text \<open>The loader thread submits, the copy threads release the queued copies in any order.\<close>

type_synonym pace_state = "pace \<times> token list"

inductive pace_step :: "int \<Rightarrow> pace_state \<Rightarrow> pace_state \<Rightarrow> bool" for budget where
  submit: "paced_submit budget use_async chg outcome p = Some (Inr (p', tok, r)) \<Longrightarrow>
     pace_step budget (p, toks) (p', (case tok of None \<Rightarrow> toks | Some t \<Rightarrow> t # toks))"
| finish: "t \<in> set toks \<Longrightarrow> release t p = Inr p' \<Longrightarrow> pace_step budget (p, toks) (p', remove1 t toks)"

definition pace_reachable :: "int \<Rightarrow> pace_state \<Rightarrow> bool" where
  "pace_reachable budget s = (pace_step budget)\<^sup>*\<^sup>* (init_pace, []) s"

inductive_cases pace_stepE: "pace_step budget (p, toks) s"

section \<open>The invariant\<close>

definition charged :: "pace_state \<Rightarrow> int" where
  "charged s = sum_list (map (snd \<circ> snd) (p_held (fst s)))
     + sum_list (map snd (filter (\<lambda>t. fst t = None) (snd s)))"

definition charges :: "pace_state \<Rightarrow> nat" where
  "charges s = length (p_held (fst s)) + length (filter (\<lambda>t. fst t = None) (snd s))"

definition queued_of :: "int \<Rightarrow> token list \<Rightarrow> nat" where
  "queued_of k toks = length (filter (\<lambda>t. fst t = Some k) toks)"

definition pace_inv :: "pace_state \<Rightarrow> bool" where
  "pace_inv s \<longleftrightarrow> p_inflight (fst s) = charged s \<and> distinct (map fst (p_held (fst s)))
     \<and> (\<forall>(k, c, b) \<in> set (p_held (fst s)). 0 < c \<and> c = int (queued_of k (snd s)) \<and> 0 < b)
     \<and> (\<forall>t \<in> set (snd s). 0 < snd t \<and> (\<forall>k. fst t = Some k \<longrightarrow> k \<in> fst ` set (p_held (fst s))))"

lemma pace_invI:
  assumes "p_inflight p = charged (p, toks)" and "distinct (map fst (p_held p))"
    and "\<And>k c b. (k, c, b) \<in> set (p_held p) \<Longrightarrow> 0 < c \<and> c = int (queued_of k toks) \<and> 0 < b"
    and "\<And>k n. (k, n) \<in> set toks \<Longrightarrow> 0 < n"
    and "\<And>k n. (Some k, n) \<in> set toks \<Longrightarrow> k \<in> fst ` set (p_held p)"
  shows "pace_inv (p, toks)"
  using assms by (auto simp: pace_inv_def)

lemma pace_invD:
  assumes "pace_inv (p, toks)"
  shows "p_inflight p = charged (p, toks)" and "distinct (map fst (p_held p))"
    and "(k, c, b) \<in> set (p_held p) \<Longrightarrow> 0 < c \<and> c = int (queued_of k toks) \<and> 0 < b"
    and "(ko, n) \<in> set toks \<Longrightarrow> 0 < n"
    and "(Some k, n) \<in> set toks \<Longrightarrow> k \<in> fst ` set (p_held p)"
  using assms by (auto simp: pace_inv_def)

lemma update_known_bytes:
  "map_of xs k = Some (c, b) \<Longrightarrow> map (snd \<circ> snd) (AList.update k (c', b) xs) = map (snd \<circ> snd) xs"
  by (induction xs) auto

lemma update_new: "k \<notin> fst ` set xs \<Longrightarrow> AList.update k v xs = xs @ [(k, v)]"
  by (induction xs) auto

lemma in_update:
  "distinct (map fst xs) \<Longrightarrow>
    (k', v') \<in> set (AList.update k v xs) \<longleftrightarrow> (if k' = k then v' = v else (k', v') \<in> set xs)"
proof (induction xs)
  case (Cons x xs)
  obtain a v0 where x: "x = (a, v0)" by (cases x)
  have "(a, w) \<notin> set xs" for w using Cons.prems x by (force simp: image_iff)
  with Cons x show ?case by (cases "a = k") auto
qed auto

lemma update_keys: "fst ` set (AList.update k v xs) = insert k (fst ` set xs)"
  by (induction xs) auto

lemma delete_bytes:
  "distinct (map fst xs) \<Longrightarrow> map_of xs k = Some (c, b) \<Longrightarrow>
    sum_list (map (snd \<circ> snd) (AList.delete k xs)) = sum_list (map (snd \<circ> snd) xs) - (b :: int)
    \<and> Suc (length (AList.delete k xs)) = length xs"
proof (induction xs)
  case (Cons x xs)
  have "AList.delete k xs = xs" if "k \<notin> fst ` set xs"
    using that by (simp add: AList.delete_eq) (metis (mono_tags, lifting) case_prod_beta filter_True image_eqI)
  with Cons show ?case by (cases "fst x = k") (auto split: if_splits)
qed simp

lemma in_delete: "(k', v) \<in> set (AList.delete k xs) \<longleftrightarrow> k' \<noteq> k \<and> (k', v) \<in> set xs"
  by (auto simp: AList.delete_eq)

lemma queued_of_remove1:
  "t \<in> set toks \<Longrightarrow> int (queued_of k (remove1 t toks))
     = int (queued_of k toks) - (if fst t = Some k then 1 else 0)"
  by (induction toks) (auto simp: queued_of_def)

lemma queued_of_Cons: "queued_of k (t # toks) = queued_of k toks + (if fst t = Some k then 1 else 0)"
  by (simp add: queued_of_def)

lemma queued_of_pos: "0 < queued_of k toks \<Longrightarrow> \<exists>t \<in> set toks. fst t = Some k"
  by (auto simp: queued_of_def filter_empty_conv)

lemma unkeyed_remove1:
  "t \<in> set toks \<Longrightarrow> sum_list (map snd (filter (\<lambda>t. fst t = None) (remove1 t toks)))
     = sum_list (map snd (filter (\<lambda>t. fst t = None) toks)) - (if fst t = None then snd t else (0 :: int))"
  by (induction toks) (auto split: if_splits)

lemma unkeyed_length_remove1:
  "t \<in> set toks \<Longrightarrow> length (filter (\<lambda>t. fst t = None) (remove1 t toks))
     + (if fst t = None then 1 else 0) = length (filter (\<lambda>t. fst t = None) toks)"
  by (induction toks) (auto split: if_splits)

lemma acquire_hit:
  assumes "map_of (p_held p) k = Some (c, b)"
  shows "acquire budget (Some k) sz p = Some (p\<lparr>p_held := AList.update k (c + 1, b) (p_held p)\<rparr>)"
  using assms by (simp add: acquire_def Let_def)

lemma acquire_inv:
  assumes inv: "pace_inv (p, toks)" and "0 < sz" and acq: "acquire budget key sz p = Some p'"
  shows "pace_inv (p', (key, sz) # toks)"
proof (cases "Option.bind key (map_of (p_held p))")
  case None
  show ?thesis
  proof (cases key)
    case None
    with acq have "p' = p\<lparr>p_inflight := p_inflight p + sz\<rparr>"
      by (auto simp: acquire_def Let_def split: if_splits)
    with None inv \<open>0 < sz\<close> show ?thesis by (simp add: pace_inv_def charged_def queued_of_Cons)
  next
    case (Some k)
    then have new: "k \<notin> fst ` set (p_held p)" using None by (simp add: map_of_eq_None_iff)
    then have p': "p' = p\<lparr>p_inflight := p_inflight p + sz, p_held := p_held p @ [(k, 1, sz)]\<rparr>"
      using acq Some None by (auto simp: acquire_def Let_def update_new split: if_splits)
    have "queued_of k toks = 0"
      using new inv queued_of_pos [of k toks] by (fastforce simp: pace_inv_def)
    then show ?thesis using inv Some new p' \<open>0 < sz\<close>
      by (fastforce simp: pace_inv_def charged_def queued_of_Cons image_iff)
  qed
next
  case (Some cb)
  then obtain k c b where k: "key = Some k" and hit: "map_of (p_held p) k = Some (c, b)"
    by (cases key; cases cb) auto
  have p': "p' = p\<lparr>p_held := AList.update k (c + 1, b) (p_held p)\<rparr>"
    using acq acquire_hit [OF hit] k by simp
  have mem: "(k, c, b) \<in> set (p_held p)" using hit by (rule map_of_SomeD)
  show ?thesis
  proof (rule pace_invI)
    show "p_inflight p' = charged (p', (key, sz) # toks)"
      using pace_invD(1) [OF inv] by (simp add: charged_def p' k update_known_bytes [OF hit])
    show "distinct (map fst (p_held p'))" using pace_invD(2) [OF inv] by (simp add: p' distinct_update)
    show "0 < c' \<and> c' = int (queued_of k' ((key, sz) # toks)) \<and> 0 < b'"
      if "(k', c', b') \<in> set (p_held p')" for k' c' b'
      using that pace_invD(3) [OF inv mem] pace_invD(3) [OF inv, of k' c' b'] k
      by (auto simp: p' in_update [OF pace_invD(2) [OF inv]] queued_of_Cons split: if_splits)
  qed (use pace_invD(4,5) [OF inv] \<open>0 < sz\<close> k in \<open>auto simp: p' update_keys\<close>)
qed

lemma release_inv:
  assumes inv: "pace_inv (p, toks)" and "t \<in> set toks"
  shows "\<exists>p'. release t p = Inr p' \<and> pace_inv (p', remove1 t toks)"
proof (cases "fst t")
  case None
  then obtain sz where t: "t = (None, sz)" by (cases t) auto
  have "pace_inv (p\<lparr>p_inflight := p_inflight p - sz\<rparr>, remove1 t toks)"
    using inv assms(2) t
    by (auto simp: pace_inv_def charged_def unkeyed_remove1 queued_of_remove1 dest!: set_remove1_subset [THEN subsetD])
  with t show ?thesis by (simp add: release_def)
next
  case (Some k)
  then obtain sz where t: "t = (Some k, sz)" by (cases t) auto
  have "k \<in> fst ` set (p_held p)" using inv assms(2) t by (auto simp: pace_inv_def)
  then obtain c b where hit: "map_of (p_held p) k = Some (c, b)"
    by (metis map_of_eq_None_iff option.exhaust surj_pair)
  have mem: "(k, c, b) \<in> set (p_held p)" using hit by (rule map_of_SomeD)
  have dist: "distinct (map fst (p_held p))" using inv by (simp add: pace_inv_def)
  have c: "c = int (queued_of k toks)" "0 < c" using inv mem by (auto simp: pace_inv_def)
  note q = queued_of_remove1 [OF assms(2)]
  show ?thesis
  proof (cases "c - 1 = 0")
    case True
    let ?p = "p\<lparr>p_inflight := p_inflight p - b, p_held := AList.delete k (p_held p)\<rparr>"
    have none: "fst t' \<noteq> Some k" if "t' \<in> set (remove1 t toks)" for t'
    proof
      assume "fst t' = Some k"
      then have "0 < queued_of k (remove1 t toks)"
        using that by (auto simp: queued_of_def filter_empty_conv)
      with q [of k] c True t show False by simp
    qed
    have "pace_inv (?p, remove1 t toks)"
    proof (rule pace_invI)
      show "p_inflight ?p = charged (?p, remove1 t toks)"
        using pace_invD(1) [OF inv] delete_bytes [OF dist hit] t unkeyed_remove1 [OF assms(2)]
        by (simp add: charged_def)
      show "distinct (map fst (p_held ?p))" using dist by (simp add: distinct_delete)
      show "0 < c' \<and> c' = int (queued_of k' (remove1 t toks)) \<and> 0 < b'"
        if "(k', c', b') \<in> set (p_held ?p)" for k' c' b'
        using that pace_invD(3) [OF inv, of k' c' b'] t q [of k'] by (simp add: in_delete)
      show "0 < n" if "(ko, n) \<in> set (remove1 t toks)" for ko n
        using that pace_invD(4) [OF inv] set_remove1_subset by fastforce
      show "k' \<in> fst ` set (p_held ?p)" if "(Some k', n) \<in> set (remove1 t toks)" for k' n
      proof -
        have "k' \<in> fst ` set (p_held p)"
          using that pace_invD(5) [OF inv, of k' n] set_remove1_subset [of t toks] by blast
        moreover have "k' \<noteq> k" using none [OF that] by auto
        ultimately show ?thesis using in_delete [of k' _ k "p_held p"] by (auto simp: image_iff)
      qed
    qed
    with True t hit show ?thesis by (simp add: release_def)
  next
    case False
    let ?p = "p\<lparr>p_held := AList.update k (c - 1, b) (p_held p)\<rparr>"
    have "pace_inv (?p, remove1 t toks)"
    proof (rule pace_invI)
      show "p_inflight ?p = charged (?p, remove1 t toks)"
        using pace_invD(1) [OF inv] t unkeyed_remove1 [OF assms(2)]
        by (simp add: charged_def update_known_bytes [OF hit])
      show "distinct (map fst (p_held ?p))" using dist by (simp add: distinct_update)
      show "0 < c' \<and> c' = int (queued_of k' (remove1 t toks)) \<and> 0 < b'"
        if "(k', c', b') \<in> set (p_held ?p)" for k' c' b'
        using that pace_invD(3) [OF inv mem] pace_invD(3) [OF inv, of k' c' b'] False t q [of k'] q [of k]
        by (auto simp: in_update [OF dist] split: if_splits)
      show "0 < n" if "(ko, n) \<in> set (remove1 t toks)" for ko n
        using that pace_invD(4) [OF inv] set_remove1_subset by fastforce
      show "k' \<in> fst ` set (p_held ?p)" if "(Some k', n) \<in> set (remove1 t toks)" for k' n
        using that pace_invD(5) [OF inv, of k' n] set_remove1_subset [of t toks] by (auto simp: update_keys)
    qed
    with False t hit show ?thesis by (simp add: release_def)
  qed
qed

section \<open>The budget\<close>

definition in_budget :: "int \<Rightarrow> pace_state \<Rightarrow> bool" where
  "in_budget budget s \<longleftrightarrow> p_inflight (fst s) \<le> budget \<or> charges s \<le> 1"

lemma sum_ge_length: "(\<And>x. x \<in> set xs \<Longrightarrow> 1 \<le> f x) \<Longrightarrow> int (length xs) \<le> sum_list (map f xs)"
  by (induction xs) force+

lemma charges_le_inflight:
  assumes "pace_inv (p, toks)"
  shows "int (charges (p, toks)) \<le> p_inflight p"
proof -
  have "int (length (p_held p)) \<le> sum_list (map (snd \<circ> snd) (p_held p))"
    using pace_invD(3) [OF assms] by (intro sum_ge_length) force
  moreover have "int (length (filter (\<lambda>t. fst t = None) toks))
      \<le> sum_list (map snd (filter (\<lambda>t. fst t = None) toks))"
    using pace_invD(4) [OF assms] by (intro sum_ge_length) force
  ultimately show ?thesis using pace_invD(1) [OF assms] by (simp add: charges_def charged_def)
qed

lemma update_known_length: "map_of xs k = Some v \<Longrightarrow> length (AList.update k v' xs) = length xs"
  by (induction xs) auto

lemma acquire_in_budget:
  assumes inv: "pace_inv (p, toks)" and "in_budget budget (p, toks)"
    and acq: "acquire budget key sz p = Some p'"
  shows "in_budget budget (p', (key, sz) # toks)"
proof (cases "Option.bind key (map_of (p_held p))")
  case None
  then have new: "\<And>k. key = Some k \<Longrightarrow> k \<notin> fst ` set (p_held p)" by (auto simp: map_of_eq_None_iff)
  with None acq have p': "p_inflight p' = p_inflight p + sz"
    "charges (p', (key, sz) # toks) = Suc (charges (p, toks))"
    by (auto simp: acquire_def charges_def Let_def update_new split: if_splits option.splits)
  have "p_inflight p + sz \<le> budget \<or> p_inflight p \<le> 0"
    using None acq by (auto simp: acquire_def Let_def split: if_splits)
  with charges_le_inflight [OF inv] p' show ?thesis by (auto simp: in_budget_def)
next
  case (Some cb)
  then obtain k c b where "key = Some k" and hit: "map_of (p_held p) k = Some (c, b)"
    by (cases key; cases cb) auto
  with acq have p': "p' = p\<lparr>p_held := AList.update k (c + 1, b) (p_held p)\<rparr>"
    using acquire_hit by simp
  with assms(2) \<open>key = Some k\<close> show ?thesis
    by (simp add: in_budget_def charges_def update_known_length [OF hit])
qed

lemma release_in_budget:
  assumes inv: "pace_inv (p, toks)" and "in_budget budget (p, toks)" and "t \<in> set toks"
    and rel: "release t p = Inr p'"
  shows "in_budget budget (p', remove1 t toks)"
proof -
  note u = unkeyed_length_remove1 [OF assms(3)]
  have "p_inflight p' \<le> p_inflight p \<and> charges (p', remove1 t toks) \<le> charges (p, toks)"
  proof (cases t)
    case (Pair ko n)
    show ?thesis
    proof (cases ko)
      case None
      with Pair rel u pace_invD(4) [OF inv] assms(3) show ?thesis
        by (auto simp: release_def charges_def less_imp_le)
    next
      case (Some k)
      with Pair rel obtain c b where hit: "map_of (p_held p) k = Some (c, b)"
        by (auto simp: release_def split: option.splits)
      then have "0 < b" using pace_invD(3) [OF inv map_of_SomeD] by blast
      with Pair Some rel hit u delete_bytes [OF pace_invD(2) [OF inv] hit] show ?thesis
        by (auto simp: release_def charges_def update_known_length split: if_splits)
    qed
  qed
  with assms(2) show ?thesis by (auto simp: in_budget_def)
qed

lemma submit_keeps:
  assumes inv: "pace_inv (p, toks)" "in_budget budget (p, toks)"
    and sub: "paced_submit budget use_async chg outcome p = Some r"
  shows "\<exists>p' tok out. r = Inr (p', tok, out) \<and> pace_inv (p', (case tok of None \<Rightarrow> toks | Some t \<Rightarrow> t # toks))
    \<and> in_budget budget (p', (case tok of None \<Rightarrow> toks | Some t \<Rightarrow> t # toks))"
proof (cases use_async)
  case False
  with sub inv show ?thesis by (auto simp: paced_submit_def)
next
  case True
  obtain key n where chg: "chg = (key, n)" by (cases chg)
  define sz where "sz = max 1 n"
  obtain p1 where acq: "acquire budget key sz p = Some p1"
    using sub True chg by (auto simp: paced_submit_def Let_def sz_def split: option.splits)
  have inv1: "pace_inv (p1, (key, sz) # toks)" "in_budget budget (p1, (key, sz) # toks)"
    using acquire_inv [OF inv(1) _ acq] acquire_in_budget [OF inv acq] by (simp_all add: sz_def)
  obtain p2 where rel: "release (key, sz) p1 = Inr p2" and inv2: "pace_inv (p2, toks)"
    using release_inv [OF inv1(1), of "(key, sz)"] by auto
  have bud2: "in_budget budget (p2, toks)"
    using release_in_budget [OF inv1 _ rel] by simp
  show ?thesis using sub True chg acq rel inv1 inv2 bud2
    by (auto simp: paced_submit_def Let_def sz_def [symmetric] split: if_splits)
qed

lemma step_keeps:
  assumes "pace_step budget s s'" and "pace_inv s" and "in_budget budget s"
  shows "pace_inv s' \<and> in_budget budget s'"
  using assms
proof (cases rule: pace_step.cases)
  case (submit use_async chg outcome p p' tok r toks)
  with submit_keeps [of p toks budget use_async chg outcome] assms show ?thesis by auto
next
  case (finish t toks p p')
  with release_inv [of p toks t] release_in_budget [of p toks budget t p'] assms show ?thesis by auto
qed

lemma reachable_keeps: "pace_reachable budget s \<Longrightarrow> pace_inv s \<and> in_budget budget s"
  unfolding pace_reachable_def
proof (induction rule: rtranclp_induct)
  case base
  show ?case by (simp add: pace_inv_def in_budget_def charged_def charges_def init_pace_def)
next
  case (step s s')
  then show ?case using step_keeps by blast
qed

text \<open>The done callbacks of all queued copies, in any order.\<close>

fun release_all :: "token list \<Rightarrow> pace \<Rightarrow> pace res" where
  "release_all [] p = Inr p"
| "release_all (t # ts) p = bind_res (release t p) (release_all ts)"

lemma release_all_empty:
  assumes "pace_inv (p, toks)" and "mset order = mset toks"
  shows "\<exists>p'. release_all order p = Inr p' \<and> p_inflight p' = 0 \<and> p_held p' = []"
  using assms
proof (induction order arbitrary: p toks)
  case Nil
  then have toks: "toks = []" by simp
  have "p_held p = []" using pace_invD(3) [OF Nil.prems(1)] toks
    by (cases "p_held p") (auto simp: queued_of_def)
  with toks pace_invD(1) [OF Nil.prems(1)] show ?case by (simp add: charged_def)
next
  case (Cons t order)
  have "t \<in> set toks" using Cons.prems(2) by (metis list.set_intros(1) mset_eq_setD)
  with release_inv [OF Cons.prems(1)] obtain p1
    where p1: "release t p = Inr p1" "pace_inv (p1, remove1 t toks)" by blast
  have "mset order = mset (remove1 t toks)"
    using Cons.prems(2) by (metis add_mset_remove_trivial mset.simps(2) mset_remove1)
  with Cons.IH [OF p1(2)] p1(1) show ?case by simp
qed

section \<open>Properties\<close>

text \<open>C15: in every reachable state the bytes in flight are the bytes charged for the held slabs, once
  each, and for the other queued copies, every queued copy can be released without an error, and the
  bytes in flight are within the budget unless a single charge larger than it is in flight alone.\<close>

theorem pacing_bounded:
  assumes "pace_reachable budget (p, toks)"
  shows "p_inflight p = charged (p, toks) \<and> 0 \<le> p_inflight p
    \<and> (p_inflight p \<le> budget \<or> charges (p, toks) \<le> 1)
    \<and> list_all (\<lambda>t. \<exists>p'. release t p = Inr p') toks"
proof -
  have inv: "pace_inv (p, toks)" "in_budget budget (p, toks)" using reachable_keeps [OF assms] by auto
  have nn: "0 \<le> p_inflight p" using charges_le_inflight [OF inv(1)] by linarith
  with nn inv release_inv [OF inv(1)] pace_invD(1) [OF inv(1)] show ?thesis
    by (auto simp: list_all_iff in_budget_def)
qed

definition demo_pace :: pace_state where
  "demo_pace = (\<lparr>p_inflight = 256, p_held = [(7, 1, 256)]\<rparr>, [(Some 7, 256)])"

lemma demo_pace_reachable: "pace_reachable 100 demo_pace"
proof -
  have "paced_submit 100 True (Some 7, 256) Queued init_pace
      = Some (Inr (fst demo_pace, Some (Some 7, 256), Inr ()))" by code_simp
  from pace_step.submit [OF this, of "[]"] show ?thesis
    by (simp add: pace_reachable_def demo_pace_def)
qed

theorem pacing_bounded_witness:
  "p_inflight (fst demo_pace) = charged demo_pace \<and> 0 \<le> p_inflight (fst demo_pace)
    \<and> (p_inflight (fst demo_pace) \<le> 100 \<or> charges demo_pace \<le> 1)
    \<and> list_all (\<lambda>t. \<exists>p'. release t (fst demo_pace) = Inr p') (snd demo_pace)"
  using pacing_bounded [of 100 "fst demo_pace" "snd demo_pace"] demo_pace_reachable by auto

text \<open>C28: the loader cannot deadlock: from every reachable state, once the queued copies have finished,
  in whatever order, nothing is in flight and every submit is admitted at once.\<close>

theorem pacing_live:
  assumes "pace_reachable budget (p, toks)" and "mset order = mset toks"
  shows "\<exists>p'. release_all order p = Inr p' \<and> p_held p' = []
    \<and> (\<exists>r. paced_submit budget use_async chg outcome p' = Some (Inr r))"
proof -
  obtain p' where p': "release_all order p = Inr p'" "p_inflight p' = 0" "p_held p' = []"
    using release_all_empty [OF _ assms(2)] reachable_keeps [OF assms(1)] by blast
  have inv: "pace_inv (p', [])" "in_budget budget (p', [])"
    using p' by (simp_all add: pace_inv_def in_budget_def charged_def charges_def)
  have "acquire budget key sz p' = None \<Longrightarrow> False" for key sz
    using p' by (simp add: acquire_def Let_def)
  then have "paced_submit budget use_async chg outcome p' \<noteq> None"
    by (auto simp: paced_submit_def Let_def split: prod.splits option.splits)
  then obtain r where "paced_submit budget use_async chg outcome p' = Some r" by blast
  with submit_keeps [OF inv] p' show ?thesis by blast
qed

theorem pacing_live_witness:
  "\<exists>p'. release_all [(Some 7, 256)] (fst demo_pace) = Inr p' \<and> p_held p' = []
    \<and> (\<exists>r. paced_submit 100 True (None, 5000) Ran p' = Some (Inr r))"
  using pacing_live [of 100 "fst demo_pace" "snd demo_pace" "[(Some 7, 256)]" True "(None, 5000)" Ran]
    demo_pace_reachable by (simp add: demo_pace_def)

end
