(* ===== verification/Rank_Split.thy ===== *)
theory Rank_Split
  imports Py_Prelude
begin

text \<open>
  The contract of a contiguous partition of \<open>n\<close> rows over \<open>w\<close> ranks: \<open>bound n w r\<close> is the
  first row of rank \<open>r\<close>, and \<open>bound n w w\<close> is the end. Three components provide it: the Engram
  row ownership (\<open>adapter/engram_backend.py\<close>, \<open>scripts/pack_engram.py\<close>), the column split of
  a replicated linear layer (\<open>adapter/replicated_split.py\<close>) and the row shards of the
  sequence-parallel prefill (\<open>adapter/prefill_sp.py\<close>). The clients need two facts of it: the
  ranks' parts put side by side are the whole, and every row has one owner.
\<close>

locale rank_split =
  fixes ok :: "nat \<Rightarrow> nat \<Rightarrow> bool"
    and bound :: "nat \<Rightarrow> nat \<Rightarrow> nat \<Rightarrow> nat"
  assumes bound_first: "ok n w \<Longrightarrow> bound n w 0 = 0"
    and bound_last: "ok n w \<Longrightarrow> bound n w w = n"
    and bound_step: "ok n w \<Longrightarrow> r < w \<Longrightarrow> bound n w r \<le> bound n w (Suc r)"
begin

lemma bound_mono:
  assumes "ok n w" and "r \<le> s" and "s \<le> w"
  shows "bound n w r \<le> bound n w s"
  using assms(2,3)
proof (induction s rule: dec_induct)
  case base
  show ?case by simp
next
  case (step s)
  then have "bound n w r \<le> bound n w s" by simp
  also have "\<dots> \<le> bound n w (Suc s)" using step.prems by (simp add: bound_step assms(1))
  finally show ?case .
qed

lemma bound_le: "ok n w \<Longrightarrow> r \<le> w \<Longrightarrow> bound n w r \<le> n"
  using bound_mono [of n w r w] bound_last by simp

lemma parts_upto:
  assumes "ok n w" and "k \<le> w"
  shows "concat (map (\<lambda>r. slice (bound n w r) (bound n w (Suc r)) xs) [0..<k])
    = slice 0 (bound n w k) xs"
  using assms(2)
proof (induction k)
  case 0
  show ?case by (simp add: bound_first assms(1))
next
  case (Suc k)
  then have "concat (map (\<lambda>r. slice (bound n w r) (bound n w (Suc r)) xs) [0..<Suc k])
      = slice 0 (bound n w k) xs @ slice (bound n w k) (bound n w (Suc k)) xs"
    by simp
  also have "\<dots> = slice 0 (bound n w (Suc k)) xs"
    using Suc.prems by (intro slice_append_slice) (auto simp: bound_step assms(1))
  finally show ?case .
qed

lemma gather_parts:
  assumes "ok n w" and "length xs = n"
  shows "concat (map (\<lambda>r. slice (bound n w r) (bound n w (Suc r)) xs) [0..<w]) = xs"
  using parts_upto [OF assms(1) order_refl, of xs] assms by (simp add: bound_last slice_all)

lemma owner_exists:
  assumes "ok n w" and "i < n"
  shows "\<exists>r<w. bound n w r \<le> i \<and> i < bound n w (Suc r)"
proof -
  define r where "r = (LEAST s. i < bound n w s)"
  have w: "i < bound n w w" using assms by (simp add: bound_last)
  then have lt: "i < bound n w r" unfolding r_def by (rule LeastI)
  have le: "r \<le> w" unfolding r_def using w by (rule Least_le)
  have "r \<noteq> 0" using lt bound_first [OF assms(1)] by (metis not_less_zero)
  then obtain s where s: "r = Suc s" by (cases r) auto
  have "\<not> i < bound n w s" using s not_less_Least [of s "\<lambda>s. i < bound n w s"] r_def by simp
  with lt le s show ?thesis by (intro exI [of _ s]) auto
qed

lemma owner_unique:
  assumes "ok n w" and "r < w" and "s < w"
    and "bound n w r \<le> i" and "i < bound n w (Suc r)"
    and "bound n w s \<le> i" and "i < bound n w (Suc s)"
  shows "r = s"
proof (rule ccontr)
  assume "r \<noteq> s"
  then consider "Suc r \<le> s" | "Suc s \<le> r" by linarith
  then show False
  proof cases
    case 1
    then have "bound n w (Suc r) \<le> bound n w s" using assms by (intro bound_mono) auto
    with assms show ?thesis by simp
  next
    case 2
    then have "bound n w (Suc s) \<le> bound n w r" using assms by (intro bound_mono) auto
    with assms show ?thesis by simp
  qed
qed

lemma one_owner:
  assumes "ok n w" and "i < n"
  shows "\<exists>!r. r < w \<and> bound n w r \<le> i \<and> i < bound n w (Suc r)"
  using owner_exists [OF assms] owner_unique [OF assms(1)] by blast

end

text \<open>A partition whose parts all have the same width, so the gathered parts need no trimming.\<close>

locale even_rank_split = rank_split +
  assumes even_parts: "ok n w \<Longrightarrow> r < w \<Longrightarrow> bound n w (Suc r) - bound n w r = n div w"
begin

lemma part_length:
  assumes "ok n w" and "r < w" and "length xs = n"
  shows "length (slice (bound n w r) (bound n w (Suc r)) xs) = n div w"
proof -
  have "bound n w (Suc r) \<le> n" using assms by (intro bound_le) auto
  then show ?thesis using even_parts [OF assms(1,2)] assms(3) by (simp add: min_def)
qed

end

end
