(* ===== verification/Engram_Pack.thy ===== *)
theory Engram_Pack
  imports Rank_Split Fast_Shard
begin

text \<open>
  The Engram tables: \<open>scripts/pack_engram.py\<close>, which repacks a rank's rows of a table (256 bytes of
  weight and 8 bytes of scale, far apart in the checkpoint) into one local file of 264-byte records, and
  the row ownership it shares with \<open>adapter/engram_backend.py\<close>. A file is its list of bytes;
  both files are opened with \<open>buffering=0\<close>, so a \<open>read\<close> or a \<open>write\<close> may be short: \<open>rd\<close> and \<open>wr\<close>
  are the kernel's answers for an offset and a length (see the read contract of the loader). The code
  checks the length of what it read and ignores the count of what it wrote.
\<close>

section \<open>Definitions\<close>

definition magic :: nat where "magic = 0x31344E4531565344"
definition header_bytes :: nat where "header_bytes = 4096"
definition row_bytes :: nat where "row_bytes = 264"
definition weight_bytes :: nat where "weight_bytes = 256"
definition scale_bytes :: nat where "scale_bytes = 8"

lemmas engram_sizes = header_bytes_def row_bytes_def weight_bytes_def scale_bytes_def

text \<open>Row ownership: rank \<open>r\<close> of \<open>tp\<close> owns rows \<open>[rows * r // tp, rows * (r + 1) // tp)\<close>.\<close>

definition engram_bound :: "nat \<Rightarrow> nat \<Rightarrow> nat \<Rightarrow> nat" where
  "engram_bound rows tp r = rows * r div tp"

interpretation engram: rank_split "\<lambda>n w. 0 < w" engram_bound
  by unfold_locales (auto simp: engram_bound_def intro!: div_le_mono)

definition engram_prefix :: "nat \<Rightarrow> string" where
  "engram_prefix layer = ''layers.'' @ show_nat layer @ ''.engram.embed.''"

text \<open>\<open>tensor_span\<close>: \<open>index\<close> is the weight map of the index file, \<open>shards\<close> gives the header length and
  the parsed header of a shard file.\<close>

definition tensor_span ::
    "(string \<rightharpoonup> string) \<Rightarrow> (string \<rightharpoonup> nat \<times> header) \<Rightarrow> nat \<Rightarrow> (string \<times> int \<times> int \<times> int) res" where
  "tensor_span index shards layer =
     (let p = engram_prefix layer in
      case index (p @ ''weight'') of
        None \<Rightarrow> Inl KeyError
      | Some name \<Rightarrow>
         (case index (p @ ''scale'') of
            None \<Rightarrow> Inl KeyError
          | Some name' \<Rightarrow>
             if name' \<noteq> name then Inl AssertionError
             else (case shards name of
                None \<Rightarrow> Inl IOError
              | Some (len, header) \<Rightarrow>
                 (case (map_of header (p @ ''weight''), map_of header (p @ ''scale'')) of
                    (Some w, Some s) \<Rightarrow>
                      if ti_dtype w \<noteq> ''F8_E4M3'' \<or> ti_dtype s \<noteq> ''F8_E8M0'' then Inl AssertionError
                      else if length (ti_shape w) < 2 then Inl IndexError
                      else if ti_shape w ! 1 \<noteq> int weight_bytes then Inl AssertionError
                      else if length (ti_shape s) < 2 then Inl IndexError
                      else if ti_shape s ! 1 \<noteq> int scale_bytes then Inl AssertionError
                      else Inr (name, ti_shape w ! 0, 8 + int len + ti_a w, 8 + int len + ti_a s)
                  | _ \<Rightarrow> Inl KeyError))))"

definition le64 :: "nat \<Rightarrow> nat list" where
  "le64 n = map (\<lambda>i. n div 256 ^ i mod 256) [0..<8]"

text \<open>\<open>struct.pack_into('<6Q', header, 0, ...)\<close> on a zeroed page; a value outside 64 bits raises.\<close>

definition pack_header :: "nat \<Rightarrow> nat \<Rightarrow> nat \<Rightarrow> nat \<Rightarrow> nat list res" where
  "pack_header layer lo hi rows =
     (let vs = [magic, layer, lo, hi, rows, row_bytes] in
      if list_all (\<lambda>v. v < 2 ^ 64) vs
      then Inr (concat (map le64 vs) @ replicate (header_bytes - 48) 0)
      else Inl ValueError)"

definition raw_read :: "(nat \<Rightarrow> nat \<Rightarrow> nat option) \<Rightarrow> nat list \<Rightarrow> nat \<Rightarrow> nat \<Rightarrow> nat list res" where
  "raw_read rd src off n = (case rd off n of None \<Rightarrow> Inl IOError | Some r \<Rightarrow> Inr (slice off (off + r) src))"

text \<open>\<open>dst.write(data)\<close> on the unbuffered output: the kernel takes the first \<open>wr pos n\<close> of the \<open>n\<close> bytes
  and the file position moves by as many; the returned count is not looked at. \<open>file\<close> is the content so far.\<close>

definition raw_write :: "(nat \<Rightarrow> nat \<Rightarrow> nat option) \<Rightarrow> nat list \<Rightarrow> nat list \<Rightarrow> nat list res" where
  "raw_write wr file bytes =
     (case wr (length file) (length bytes) of None \<Rightarrow> Inl IOError | Some k \<Rightarrow> Inr (file @ take k bytes))"

text \<open>The records of one chunk: weights in the first 256 columns, scales in the last 8.\<close>

definition pack_block :: "nat list \<Rightarrow> nat list \<Rightarrow> nat \<Rightarrow> nat list" where
  "pack_block weights scales n =
     concat (map (\<lambda>i. slice (i * weight_bytes) (Suc i * weight_bytes) weights
                    @ slice (i * scale_bytes) (Suc i * scale_bytes) scales) [0..<n])"

text \<open>The chunk loop of \<open>pack_layer\<close>: the result is the content of the partial file at the end.\<close>

function pack_chunks ::
    "(nat \<Rightarrow> nat \<Rightarrow> nat option) \<Rightarrow> (nat \<Rightarrow> nat \<Rightarrow> nat option) \<Rightarrow> nat list \<Rightarrow> nat \<Rightarrow> nat \<Rightarrow> nat \<Rightarrow> nat \<Rightarrow> nat
     \<Rightarrow> nat list \<Rightarrow> nat list res" where
  "pack_chunks rd wr src woff soff step hi start file =
     (if start < hi \<and> 0 < step then
        (let stop = min (start + step) hi; n = stop - start in
         bind_res (raw_read rd src (woff + start * weight_bytes) (n * weight_bytes)) (\<lambda>weights.
         bind_res (raw_read rd src (soff + start * scale_bytes) (n * scale_bytes)) (\<lambda>scales.
           if length weights \<noteq> n * weight_bytes \<or> length scales \<noteq> n * scale_bytes then Inl SystemExit
           else bind_res (raw_write wr file (pack_block weights scales n))
             (pack_chunks rd wr src woff soff step hi (start + step)))))
      else Inr file)"
  by pat_completeness auto
termination
  by (relation "measure (\<lambda>(rd, wr, src, woff, soff, step, hi, start, file). hi - start)") auto

declare pack_chunks.simps [simp del]

text \<open>\<open>pack_layer\<close>: \<open>present\<close> is the size of the target file if it exists. The result is the new
  content of the target (the partial file, renamed once the loop ends), \<open>None\<close> where a complete file is left as it is. A step below zero makes
  \<open>range\<close> empty, a step of zero raises.\<close>

definition pack_layer ::
    "(nat \<Rightarrow> nat \<Rightarrow> nat option) \<Rightarrow> (nat \<Rightarrow> nat \<Rightarrow> nat option) \<Rightarrow> nat list \<Rightarrow> nat \<Rightarrow> nat \<Rightarrow> nat \<Rightarrow> nat option
     \<Rightarrow> nat \<Rightarrow> nat \<Rightarrow> nat \<Rightarrow> int \<Rightarrow> nat list option res" where
  "pack_layer rd wr src rows woff soff present layer rank tp chunk_rows =
     (if tp = 0 then Inl ValueError
      else (let lo = engram_bound rows tp rank; hi = engram_bound rows tp (rank + 1);
                expected = header_bytes + (hi - lo) * row_bytes
        in if present = Some expected then Inr None
           else bind_res (pack_header layer lo hi rows) (\<lambda>header.
             bind_res (raw_write wr [] header) (\<lambda>partial.
             if chunk_rows = 0 then Inl ValueError
             else if chunk_rows < 0 then Inr (Some partial)
             else bind_res (pack_chunks rd wr src woff soff (nat chunk_rows) hi lo partial) (\<lambda>out. Inr (Some out))))))"

definition layer_need :: "nat \<Rightarrow> nat \<Rightarrow> nat \<Rightarrow> nat" where
  "layer_need rows rank tp =
     header_bytes + (engram_bound rows tp (rank + 1) - engram_bound rows tp rank) * row_bytes"

text \<open>\<open>main\<close>: sizes all layers first, refuses when the output has no room, then packs them in order.
  \<open>table\<close> gives a layer's source bytes, row count and offsets, \<open>present\<close> its existing output size.\<close>

fun pack_all ::
    "(nat \<Rightarrow> nat list option res) \<Rightarrow> nat list \<Rightarrow> (nat \<times> nat list option) list res" where
  "pack_all pack [] = Inr []"
| "pack_all pack (l # ls) =
     bind_res (pack l) (\<lambda>out. bind_res (pack_all pack ls) (\<lambda>rest. Inr ((l, out) # rest)))"

definition pack_main ::
    "(nat \<Rightarrow> nat \<Rightarrow> nat option) \<Rightarrow> (nat \<Rightarrow> nat \<Rightarrow> nat option) \<Rightarrow> (nat \<Rightarrow> nat list \<times> nat \<times> nat \<times> nat) \<Rightarrow> (nat \<Rightarrow> nat option)
     \<Rightarrow> nat list \<Rightarrow> nat \<Rightarrow> nat \<Rightarrow> int \<Rightarrow> nat \<Rightarrow> (nat \<times> nat list option) list res" where
  "pack_main rd wr table present layers rank tp chunk_rows free =
     (let rows_of = (\<lambda>l. fst (snd (table l)));
          need = sum_list (map (\<lambda>l. layer_need (rows_of l) rank tp) layers)
      in if tp = 0 \<and> layers \<noteq> [] then Inl ValueError
         else if free < need then Inl SystemExit
         else pack_all (\<lambda>l. let (src, rows, woff, soff) = table l in
                pack_layer rd wr src rows woff soff (present l) l rank tp chunk_rows) layers)"

section \<open>Records\<close>

text \<open>The record of a table row: its weight bytes and its scale bytes.\<close>

definition table_row :: "nat list \<Rightarrow> nat \<Rightarrow> nat \<Rightarrow> nat \<Rightarrow> nat list" where
  "table_row src woff soff r =
     slice (woff + r * weight_bytes) (woff + Suc r * weight_bytes) src
     @ slice (soff + r * scale_bytes) (soff + Suc r * scale_bytes) src"

definition table_fits :: "nat list \<Rightarrow> nat \<Rightarrow> nat \<Rightarrow> nat \<Rightarrow> bool" where
  "table_fits src rows woff soff \<longleftrightarrow>
     woff + rows * weight_bytes \<le> length src \<and> soff + rows * scale_bytes \<le> length src"

lemma length_table_row:
  assumes "table_fits src rows woff soff" and "r < rows"
  shows "length (table_row src woff soff r) = row_bytes"
proof -
  have "woff + Suc r * weight_bytes \<le> length src" "soff + Suc r * scale_bytes \<le> length src"
    using assms mult_le_mono1 [of "Suc r" rows weight_bytes] mult_le_mono1 [of "Suc r" rows scale_bytes]
    by (auto simp: table_fits_def)
  then show ?thesis by (simp add: table_row_def engram_sizes)
qed

lemma raw_read_full:
  assumes "raw_read rd src off n = Inr x" and "length x = n"
  shows "x = slice off (off + n) src"
proof -
  obtain r where "x = slice off (off + r) src" using assms(1) by (auto simp: raw_read_def split: option.splits)
  moreover have "take (min (length src - off) r) (drop off src) = take r (drop off src)"
    by (simp add: min_def)
  ultimately show ?thesis using assms(2) by (auto simp: slice_def)
qed

lemma pack_block_rows:
  "pack_block (slice (woff + start * weight_bytes) (woff + start * weight_bytes + n * weight_bytes) src)
     (slice (soff + start * scale_bytes) (soff + start * scale_bytes + n * scale_bytes) src) n
   = concat (map (table_row src woff soff) [start..<start + n])"
proof -
  have part: "slice (i * c) (Suc i * c) (slice (off + start * c) (off + start * c + n * c) src)
      = slice (off + (start + i) * c) (off + Suc (start + i) * c) src" if "i < n" for i c off
  proof -
    have "Suc i * c \<le> n * c" using that by (intro mult_le_mono1) simp
    then show ?thesis by (subst slice_slice) (simp_all add: algebra_simps)
  qed
  show ?thesis
    unfolding pack_block_def map_upt_shift
    by (rule arg_cong [where f = concat], rule map_cong) (simp_all only: part table_row_def set_upt atLeastLessThan_iff)
qed

text \<open>A write appends at most its bytes, and exactly them when it is as long.\<close>

lemma raw_write_append:
  assumes "raw_write wr file bytes = Inr out"
  shows "length out \<le> length file + length bytes" and "length out = length file + length bytes \<Longrightarrow> out = file @ bytes"
  using assms by (auto simp: raw_write_def split: option.splits)

text \<open>The loop cannot write more than the rows, and the file holds exactly the rows when it is as long.\<close>

lemma pack_chunks_rows:
  assumes "pack_chunks rd wr src woff soff step hi start acc = Inr out" and "0 < step"
  defines "body \<equiv> \<lambda>i. concat (map (table_row src woff soff) [i..<hi])"
  shows "length out \<le> length acc + length (body start)
    \<and> (length out = length acc + length (body start) \<longrightarrow> out = acc @ body start)"
  using assms(1)
proof (induction "hi - start" arbitrary: start acc rule: less_induct)
  case less
  show ?case
  proof (cases "start < hi")
    case False
    with less.prems show ?thesis by (auto simp: pack_chunks.simps body_def)
  next
    case True
    define n where "n = min (start + step) hi - start"
    from less.prems True assms(2) obtain w s mid where
      w: "raw_read rd src (woff + start * weight_bytes) (n * weight_bytes) = Inr w" "length w = n * weight_bytes"
      and s: "raw_read rd src (soff + start * scale_bytes) (n * scale_bytes) = Inr s" "length s = n * scale_bytes"
      and mid: "raw_write wr acc (pack_block w s n) = Inr mid"
      and out: "pack_chunks rd wr src woff soff step hi (start + step) mid = Inr out"
      by (subst (asm) pack_chunks.simps)
        (auto simp: Let_def bind_res_Inr_iff n_def [symmetric] split: if_splits)
    have "[start..<hi] = [start..<start + n] @ [start + step..<hi]"
    proof (cases "start + step \<le> hi")
      case True
      then show ?thesis using upt_add_eq_append [of start "start + step" "hi - (start + step)"]
        by (simp add: n_def)
    qed (use True in \<open>simp add: n_def\<close>)
    then have body: "body start = pack_block w s n @ body (start + step)"
      using raw_read_full [OF w] raw_read_full [OF s] pack_block_rows [of woff start n src soff] by (simp add: body_def)
    have "length out \<le> length mid + length (body (start + step))"
      "length out = length mid + length (body (start + step)) \<longrightarrow> out = mid @ body (start + step)"
      using less.hyps [OF _ out] True assms(2) by simp_all
    with raw_write_append [OF mid] body show ?thesis by auto
  qed
qed

text \<open>Where the kernel reads and writes whole chunks, the loop writes all rows of a table that is in the file.\<close>

lemma pack_chunks_total:
  assumes "\<And>off n. n \<le> step * weight_bytes \<Longrightarrow> off + n \<le> length src \<Longrightarrow> rd off n = Some n"
    and "\<And>off n. n \<le> step * row_bytes \<Longrightarrow> wr off n = Some n"
    and "0 < step" and "table_fits src rows woff soff" and "hi \<le> rows"
  shows "\<exists>out. pack_chunks rd wr src woff soff step hi start acc = Inr out
    \<and> length out = length acc + (hi - start) * row_bytes"
proof (induction "hi - start" arbitrary: start acc rule: less_induct)
  case less
  show ?case
  proof (cases "start < hi")
    case False
    then show ?thesis by (auto simp: pack_chunks.simps)
  next
    case True
    define n where "n = min (start + step) hi - start"
    have n: "start + n \<le> rows" "n \<le> step" "start + n \<le> hi" using assms(5) True by (auto simp: n_def)
    have read: "raw_read rd src (off + start * c) (n * c)
        = Inr (slice (off + start * c) (off + start * c + n * c) src)"
      and len: "length (slice (off + start * c) (off + start * c + n * c) src) = n * c"
      if "off + rows * c \<le> length src" "c \<le> weight_bytes" for off c
    proof -
      have "off + start * c + n * c \<le> length src"
        using that(1) n(1) mult_le_mono1 [of "start + n" rows c] by (simp add: distrib_right)
      moreover have "n * c \<le> step * weight_bytes" using n(2) that(2) by (rule mult_le_mono)
      ultimately show "raw_read rd src (off + start * c) (n * c)
        = Inr (slice (off + start * c) (off + start * c + n * c) src)"
        "length (slice (off + start * c) (off + start * c + n * c) src) = n * c"
        using assms(1) by (simp_all add: raw_read_def)
    qed
    have fits: "woff + rows * weight_bytes \<le> length src" "soff + rows * scale_bytes \<le> length src"
      "scale_bytes \<le> weight_bytes" using assms(4) by (auto simp: table_fits_def engram_sizes)
    define block where "block = pack_block (slice (woff + start * weight_bytes) (woff + start * weight_bytes + n * weight_bytes) src)
        (slice (soff + start * scale_bytes) (soff + start * scale_bytes + n * scale_bytes) src) n"
    have "length (concat (map (table_row src woff soff) [start..<start + k])) = k * row_bytes" if "k \<le> n" for k
      using that length_table_row [OF assms(4)] n(1) by (induction k) auto
    then have blen: "length block = n * row_bytes" by (simp add: block_def pack_block_rows)
    have wrote: "raw_write wr acc block = Inr (acc @ block)"
      using assms(2) n(2) by (simp add: raw_write_def blen)
    obtain out where "pack_chunks rd wr src woff soff step hi (start + step) (acc @ block) = Inr out"
      "length out = length (acc @ block) + (hi - (start + step)) * row_bytes"
      using less.hyps [of "start + step" "acc @ block"] diff_less_mono2 [of start "start + step" hi] True assms(3) by auto
    moreover have "n * row_bytes + (hi - (start + step)) * row_bytes = (hi - start) * row_bytes"
      using True by (simp add: n_def add_mult_distrib [symmetric] min_def)
    ultimately show ?thesis
      using True assms(3) read [OF fits(1)] read [OF fits(2,3)] len [OF fits(1)] len [OF fits(2,3)] wrote blen
      by (subst pack_chunks.simps) (simp add: Let_def n_def [symmetric] block_def [symmetric])
  qed
qed

lemma length_le64 [simp]: "length (le64 n) = 8"
  by (simp add: le64_def)

lemma pack_header_length: "pack_header layer lo hi rows = Inr h \<Longrightarrow> length h = header_bytes"
  by (auto simp: pack_header_def Let_def header_bytes_def split: if_splits)

lemma slice_records:
  assumes "\<And>i. i < k \<Longrightarrow> length (f i) = row_bytes" and "length h = header_bytes" and "j < k"
  shows "slice (header_bytes + j * row_bytes) (header_bytes + Suc j * row_bytes)
    (h @ concat (map f [0..<k])) = f j"
proof -
  have "slice (header_bytes + j * row_bytes) (header_bytes + Suc j * row_bytes) (h @ concat (map f [0..<k]))
      = slice (j * row_bytes) (Suc j * row_bytes) (concat (map f [0..<k]))"
    using assms(2) by (simp add: slice_def)
  also have "\<dots> = f j" using assms(1,3) by (rule slice_concat_uniform)
  finally show ?thesis .
qed

lemma le_u64_le64: "n < 2 ^ 64 \<Longrightarrow> le_u64 (le64 n) = Inr n"
proof -
  assume "n < 2 ^ 64"
  then have "n div 256 ^ 8 = 0" by simp
  moreover have "foldr (\<lambda>b acc. b + 256 * acc) (map (\<lambda>i. n div 256 ^ i mod 256) [k..<8]) 0
      = n div 256 ^ k mod 256 ^ (8 - k)" if "k \<le> 8" for k
    using that
  proof (induction "8 - k" arbitrary: k)
    case (Suc m)
    then have "k < 8" by simp
    then have "[k..<8] = k # [Suc k..<8]" by (simp add: upt_conv_Cons)
    moreover have "n div 256 ^ k mod 256 ^ (8 - k)
        = n div 256 ^ k mod 256 + 256 * (n div 256 ^ k div 256 mod 256 ^ (8 - Suc k))"
    proof -
      have "8 - k = Suc (8 - Suc k)" using \<open>k < 8\<close> by simp
      then show ?thesis by (simp add: mod_mult2_eq)
    qed
    moreover have "n div 256 ^ Suc k = n div 256 ^ k div 256"
      by (simp only: power_Suc2 div_mult2_eq)
    moreover have "m = 8 - Suc k" "Suc k \<le> 8" using Suc.hyps(2) by simp_all
    ultimately show ?case using Suc.hyps(1) [of "Suc k"] by (simp del: power_Suc)
  qed simp
  from this [of 0] show ?thesis using \<open>n < 2 ^ 64\<close> by (simp add: le_u64_def le64_def)
qed

end
