(* ===== verification/Row_Store.thy ===== *)
theory Row_Store
  imports Engram_Pack
begin

text \<open>
  The native row store of \<open>adapter/row_store.cpp\<close> and its use by \<open>adapter/engram_backend.py\<close>: a
  set-associative cache of 264-byte rows in front of the checkpoint shard or of the packed shard of
  \<open>scripts/pack_engram.py\<close>. The checkpoint shard is the list of bytes \<open>data\<close>, \<open>rdc\<close> and \<open>rdp\<close> are
  the answers of \<open>pread\<close> on the checkpoint and on the packed file, and \<open>None\<close> is \<open>fail\<close>, which aborts
  the process. Offsets and row numbers are natural numbers: a 64-bit offset into a file cannot wrap.
  Lookups run on a thread pool, each under the set's lock for the probe and for the insertion but not
  for the read between them: the steps of a lookup are interleaved with those of others.
\<close>

section \<open>Definitions\<close>

record row_store =
  rs_rows :: nat
  rs_woff :: nat
  rs_soff :: nat
  rs_lo :: nat
  rs_hi :: nat
  rs_sets :: nat
  rs_ways :: nat
  rs_cache :: "nat list list"
  rs_keys :: "nat list"
  rs_victim :: "nat list"
  rs_resident :: bool
  rs_scales :: "nat list option"
  rs_packed :: "nat list option"
  rs_hits :: nat
  rs_misses :: nat

type_synonym pread_fn = "nat \<Rightarrow> nat \<Rightarrow> nat option"

definition page_bytes :: nat where "page_bytes = 4096"

text \<open>\<open>read_from\<close>: one direct read of the pages around the record. The page buffer has 8192 bytes.\<close>

definition direct_span :: "nat \<Rightarrow> nat \<Rightarrow> nat \<times> nat \<times> nat" where
  "direct_span off len =
     (let base = off - off mod page_bytes; delta = off - base in (base, delta, ceil_to (delta + len) page_bytes))"

definition read_from :: "pread_fn \<Rightarrow> nat list \<Rightarrow> bool \<Rightarrow> nat \<Rightarrow> nat \<Rightarrow> nat list option" where
  "read_from rd bytes mapped off len =
     (if mapped then Some (slice off (off + len) bytes)
      else (let (base, delta, requested) = direct_span off len in
        case rd base requested of
          None \<Rightarrow> None
        | Some got \<Rightarrow>
            if got < delta + len then None
            else Some (slice delta (delta + len) (slice base (base + got) bytes))))"

definition probe :: "row_store \<Rightarrow> nat \<Rightarrow> nat list option" where
  "probe s i =
     (if rs_sets s = 0 then None
      else (let base = (i mod rs_sets s) * rs_ways s in
        map_option (\<lambda>w. rs_cache s ! (base + w))
          (find (\<lambda>w. rs_keys s ! (base + w) = i + 1) [0..<rs_ways s])))"

definition miss_row :: "pread_fn \<Rightarrow> pread_fn \<Rightarrow> nat list \<Rightarrow> row_store \<Rightarrow> nat \<Rightarrow> nat list option" where
  "miss_row rdc rdp data s i =
     (case rs_packed s of
        Some file \<Rightarrow> read_from rdp file False (header_bytes + (i - rs_lo s) * row_bytes) row_bytes
      | None \<Rightarrow>
          Option.bind (read_from rdc data (rs_resident s) (rs_woff s + i * weight_bytes) weight_bytes) (\<lambda>w.
          Option.bind
            (case rs_scales s of
               Some sc \<Rightarrow> Some (slice ((i - rs_lo s) * scale_bytes) (Suc (i - rs_lo s) * scale_bytes) sc)
             | None \<Rightarrow> read_from rdc data (rs_resident s) (rs_soff s + i * scale_bytes) scale_bytes)
            (\<lambda>sc. Some (w @ sc))))"

definition insert_row :: "row_store \<Rightarrow> nat \<Rightarrow> nat list \<Rightarrow> row_store" where
  "insert_row s i row =
     (let s = s\<lparr>rs_misses := rs_misses s + 1\<rparr> in
      if rs_sets s = 0 then s
      else (let set = i mod rs_sets s; base = set * rs_ways s; w = rs_victim s ! set mod rs_ways s in
        s\<lparr>rs_victim := (rs_victim s)[set := (rs_victim s ! set + 1) mod rs_ways s],
          rs_cache := (rs_cache s)[base + w := row], rs_keys := (rs_keys s)[base + w := i + 1]\<rparr>))"

definition fetch_row ::
    "pread_fn \<Rightarrow> pread_fn \<Rightarrow> nat list \<Rightarrow> row_store \<Rightarrow> nat \<Rightarrow> (row_store \<times> nat list) option" where
  "fetch_row rdc rdp data s i =
     (case probe s i of
        Some row \<Rightarrow> Some (s\<lparr>rs_hits := rs_hits s + 1\<rparr>, row)
      | None \<Rightarrow> map_option (\<lambda>row. (insert_row s i row, row)) (miss_row rdc rdp data s i))"

text \<open>\<open>serve\<close>: a row outside the table aborts, a row another rank owns is zero.\<close>

fun serve ::
    "pread_fn \<Rightarrow> pread_fn \<Rightarrow> nat list \<Rightarrow> row_store \<Rightarrow> int list \<Rightarrow> (row_store \<times> nat list list) option" where
  "serve rdc rdp data s [] = Some (s, [])"
| "serve rdc rdp data s (i # ids) =
     (if i < 0 \<or> nat i \<ge> rs_rows s then None
      else if nat i < rs_lo s \<or> nat i \<ge> rs_hi s
      then map_option (\<lambda>(s', rows). (s', replicate row_bytes 0 # rows)) (serve rdc rdp data s ids)
      else Option.bind (fetch_row rdc rdp data s (nat i)) (\<lambda>(s', row).
        map_option (\<lambda>(s'', rows). (s'', row # rows)) (serve rdc rdp data s' ids)))"

definition row_store_open :: "nat list \<Rightarrow> nat \<Rightarrow> nat \<Rightarrow> nat \<Rightarrow> nat \<Rightarrow> bool \<Rightarrow> nat \<Rightarrow> row_store option" where
  "row_store_open data rows woff soff budget ram cache_ways =
     (if woff > length data \<or> soff > length data \<or> rows > (length data - woff) div 256
         \<or> rows > (length data - soff) div 8 then None
      else (let budget = (if ram then 0 else budget);
                ways = max 1 (min 16 cache_ways);
                sets = budget div ((row_bytes + 8) * ways + 1)
        in Some \<lparr>rs_rows = rows, rs_woff = woff, rs_soff = soff, rs_lo = 0, rs_hi = rows,
             rs_sets = sets, rs_ways = ways, rs_cache = replicate (sets * ways) (replicate row_bytes 0),
             rs_keys = replicate (sets * ways) 0, rs_victim = replicate sets 0, rs_resident = ram,
             rs_scales = None, rs_packed = None, rs_hits = 0, rs_misses = 0\<rparr>))"

text \<open>\<open>pin_scales\<close>: the owned scale rows read in spans of whole pages.\<close>

function pin_loop :: "pread_fn \<Rightarrow> nat list \<Rightarrow> nat \<Rightarrow> nat \<Rightarrow> nat \<Rightarrow> nat list \<Rightarrow> nat list option" where
  "pin_loop rd data start fin off acc =
     (if off < fin then
        (let want = min (8 * 2 ^ 20) (ceil_to (fin - off) page_bytes) in
         case rd off want of
           None \<Rightarrow> None
         | Some got \<Rightarrow>
             if got = 0 then None
             else (let lo = max off start; hi = min (off + got) fin in
               pin_loop rd data start fin (off + got) (if lo < hi then acc @ slice lo hi data else acc)))
      else Some acc)"
  by pat_completeness auto
termination
  by (relation "measure (\<lambda>(rd, data, start, fin, off, acc). fin - off)") auto

declare pin_loop.simps [simp del]

definition pin_scales :: "pread_fn \<Rightarrow> nat list \<Rightarrow> row_store \<Rightarrow> nat list option" where
  "pin_scales rd data s =
     (if rs_hi s = rs_lo s then None
      else (let start = rs_soff s + rs_lo s * scale_bytes;
                fin = start + (rs_hi s - rs_lo s) * scale_bytes
        in if rs_resident s then Some (slice start fin data)
           else pin_loop rd data start fin (start - start mod page_bytes) []))"

definition row_store_range :: "pread_fn \<Rightarrow> nat list \<Rightarrow> bool \<Rightarrow> row_store \<Rightarrow> nat \<Rightarrow> nat \<Rightarrow> row_store option" where
  "row_store_range rd data resident_scales s lo hi =
     (if lo > hi \<or> hi > rs_rows s then None
      else if rs_scales s \<noteq> None \<and> (lo \<noteq> rs_lo s \<or> hi \<noteq> rs_hi s) then None
      else (let s = s\<lparr>rs_lo := lo, rs_hi := hi\<rparr> in
        Some (if rs_scales s = None \<and> hi > lo \<and> resident_scales
              then s\<lparr>rs_scales := pin_scales rd data s\<rparr> else s)))"

text \<open>\<open>row_store_attach_packed\<close>: the header fields are read at their offsets and compared with the
  store's range; \<open>file\<close> is the packed file, \<open>None\<close> where it cannot be opened.\<close>

definition header_field :: "nat list \<Rightarrow> nat \<Rightarrow> nat" where
  "header_field bytes k = (case le_u64 (slice (8 * k) (8 * Suc k) bytes) of Inl _ \<Rightarrow> 0 | Inr n \<Rightarrow> n)"

definition row_store_attach_packed :: "row_store \<Rightarrow> nat list option \<Rightarrow> nat \<Rightarrow> row_store option" where
  "row_store_attach_packed s packed layer =
     (case packed of
        None \<Rightarrow> Some s
      | Some bytes \<Rightarrow>
          if length bytes < page_bytes then None
          else if map (header_field bytes) [0..<6]
                  \<noteq> [magic, layer, rs_lo s, rs_hi s, rs_rows s, row_bytes] then None
          else if length bytes < header_bytes + (rs_hi s - rs_lo s) * row_bytes then None
          else Some (s\<lparr>rs_packed := Some bytes\<rparr>))"

text \<open>The per-host cache budget of \<open>engram_backend.py\<close>: \<open>cache_bytes\<close> is
  \<open>int(float(DSV41_CACHE_GIB) * 2**30)\<close>, split over two layers and the ranks that share the host.
  \<open>drm\<close> is the size of the display reservation used for this layer, if any.\<close>

definition cache_budget :: "int \<Rightarrow> int \<Rightarrow> int \<Rightarrow> int option \<Rightarrow> int" where
  "cache_budget cache_bytes tp_size nnodes drm =
     (let ranks_per_host = max 1 (tp_size div max 1 nnodes);
          budget = cache_bytes div (2 * ranks_per_host)
      in case drm of None \<Rightarrow> budget | Some pool \<Rightarrow> min budget (pool * 272 div 264))"

text \<open>The staging capacity of a gather of \<open>n\<close> rows.\<close>

definition staging_capacity :: "int \<Rightarrow> int" where
  "staging_capacity n = 2 ^ bit_length (n - 1)"

text \<open>\<open>_owned_rows\<close>: an empty gather needs no staging; the buffers of a (device, capacity) key are
  made once, and never while a graph is captured.\<close>

definition owned_staging ::
    "(int \<times> int) list \<Rightarrow> bool \<Rightarrow> int \<Rightarrow> int \<Rightarrow> ((int \<times> int) list \<times> int option) res" where
  "owned_staging staging capturing dev n =
     (if n = 0 then Inr (staging, None)
      else (let cap = staging_capacity n in
        if (dev, cap) \<in> set staging then Inr (staging, Some cap)
        else if capturing then Inl RuntimeError
        else Inr ((dev, cap) # staging, Some cap)))"

text \<open>The checks of \<open>EngramEmbedding.__init__\<close> on the checkpoint: both tensors in one shard, with the
  table's shape and element types; the result is the shard and the two offsets.\<close>

definition engram_config ::
    "(string \<rightharpoonup> string) \<Rightarrow> (string \<rightharpoonup> nat \<times> header) \<Rightarrow> int \<Rightarrow> int \<Rightarrow> nat \<Rightarrow> (string \<times> int \<times> int) res" where
  "engram_config index shards num_embeddings dm layer =
     (let p = engram_prefix layer in
      if dm \<noteq> 256 then Inl AssertionError
      else (case (index (p @ ''weight''), index (p @ ''scale'')) of
          (Some name, Some name') \<Rightarrow>
            if name \<noteq> name' then Inl AssertionError
            else (case shards name of
               None \<Rightarrow> Inl IOError
             | Some (len, header) \<Rightarrow>
                (case (map_of header (p @ ''weight''), map_of header (p @ ''scale'')) of
                   (Some w, Some s) \<Rightarrow>
                     if ti_shape w \<noteq> [num_embeddings, 256] \<or> ti_dtype w \<noteq> ''F8_E4M3''
                        \<or> ti_shape s \<noteq> [num_embeddings, 8] \<or> ti_dtype s \<noteq> ''F8_E8M0''
                     then Inl AssertionError
                     else Inr (name, 8 + int len + ti_a w, 8 + int len + ti_a s)
                 | _ \<Rightarrow> Inl KeyError))
        | _ \<Rightarrow> Inl KeyError))"

text \<open>\<open>EngramEmbedding.__init__\<close>: open, take this rank's range, attach the packed shard.\<close>

definition engram_init ::
    "pread_fn \<Rightarrow> nat list \<Rightarrow> nat \<Rightarrow> nat \<Rightarrow> nat \<Rightarrow> nat \<Rightarrow> bool \<Rightarrow> nat \<Rightarrow> bool \<Rightarrow> nat list option \<Rightarrow> nat
     \<Rightarrow> nat \<Rightarrow> nat \<Rightarrow> row_store option" where
  "engram_init rd data rows woff soff budget ram cache_ways resident_scales packed layer rank tp =
     Option.bind (row_store_open data rows woff soff budget ram cache_ways) (\<lambda>s.
     Option.bind (row_store_range rd data resident_scales s (engram_bound rows tp rank) (engram_bound rows tp (rank + 1)))
       (\<lambda>s. row_store_attach_packed s packed layer))"

section \<open>Interleaved lookups\<close>

text \<open>A lookup probes its set, or reads the row and later inserts it; a step that completes a lookup
  is labelled with the row it returned.\<close>

type_synonym rs_state = "row_store \<times> (nat \<times> nat list) list"

inductive rs_step ::
    "pread_fn \<Rightarrow> pread_fn \<Rightarrow> nat list \<Rightarrow> rs_state \<Rightarrow> (nat \<times> nat list) option \<Rightarrow> rs_state \<Rightarrow> bool"
  for rdc rdp data where
  hit: "rs_lo s \<le> i \<Longrightarrow> i < rs_hi s \<Longrightarrow> probe s i = Some row \<Longrightarrow>
     rs_step rdc rdp data (s, pend) (Some (i, row)) (s\<lparr>rs_hits := rs_hits s + 1\<rparr>, pend)"
| read: "rs_lo s \<le> i \<Longrightarrow> i < rs_hi s \<Longrightarrow> probe s i = None \<Longrightarrow> miss_row rdc rdp data s i = Some row \<Longrightarrow>
     rs_step rdc rdp data (s, pend) None (s, (i, row) # pend)"
| insert: "(i, row) \<in> set pend \<Longrightarrow>
     rs_step rdc rdp data (s, pend) (Some (i, row)) (insert_row s i row, remove1 (i, row) pend)"

inductive rs_run ::
    "pread_fn \<Rightarrow> pread_fn \<Rightarrow> nat list \<Rightarrow> rs_state \<Rightarrow> (nat \<times> nat list) list \<Rightarrow> rs_state \<Rightarrow> bool"
  for rdc rdp data where
  stop: "rs_run rdc rdp data s [] s"
| step: "rs_step rdc rdp data s l s' \<Longrightarrow> rs_run rdc rdp data s' out s'' \<Longrightarrow>
     rs_run rdc rdp data s (case l of None \<Rightarrow> out | Some r \<Rightarrow> r # out) s''"

section \<open>Direct reads\<close>

lemma direct_span_props:
  assumes "direct_span off len = (base, delta, requested)"
  shows "base + delta = off" and "delta < page_bytes" and "delta + len \<le> requested"
    and "len \<le> page_bytes \<Longrightarrow> requested \<le> 2 * page_bytes"
proof -
  have b: "base = off - off mod page_bytes" "delta = off - base" "requested = ceil_to (delta + len) page_bytes"
    using assms by (auto simp: direct_span_def Let_def)
  show 1: "base + delta = off" using b by simp
  show 2: "delta < page_bytes" using b by (simp add: page_bytes_def)
  show "delta + len \<le> requested" using b by (simp add: ceil_to_ge page_bytes_def)
  show "requested \<le> 2 * page_bytes" if "len \<le> page_bytes"
    unfolding b(3) using 2 that by (intro ceil_to_least) (auto simp: page_bytes_def)
qed

lemma read_from_bytes:
  assumes "read_from rd bytes mapped off len = Some x"
  shows "x = slice off (off + len) bytes"
proof (cases mapped)
  case True
  with assms show ?thesis by (simp add: read_from_def)
next
  case False
  obtain base delta requested where d: "direct_span off len = (base, delta, requested)"
    by (metis prod_cases3)
  with assms False obtain got where "delta + len \<le> got"
    "x = slice delta (delta + len) (slice base (base + got) bytes)"
    by (auto simp: read_from_def not_less split: option.splits if_splits)
  then have "x = slice (base + delta) (base + (delta + len)) bytes" by (subst (asm) slice_slice) auto
  then show ?thesis using direct_span_props(1) [OF d] by (simp add: add.assoc [symmetric])
qed

text \<open>The kernel delivers the pages it has, so a record inside the file is always read.\<close>

lemma read_from_total:
  assumes "\<And>off n. rd off n = Some (min n (length bytes - off))" and "off + len \<le> length bytes"
  shows "read_from rd bytes mapped off len = Some (slice off (off + len) bytes)"
proof -
  obtain base delta requested where d: "direct_span off len = (base, delta, requested)"
    by (metis prod_cases3)
  note p = direct_span_props [OF d]
  have "\<not> min requested (length bytes - base) < delta + len" using p assms(2) by auto
  then have "read_from rd bytes mapped off len \<noteq> None"
    using assms(1) by (simp add: read_from_def d)
  then show ?thesis using read_from_bytes by (metis not_None_eq)
qed

section \<open>The store invariant\<close>

definition store_ok :: "nat list \<Rightarrow> row_store \<Rightarrow> bool" where
  "store_ok data s \<longleftrightarrow>
     table_fits data (rs_rows s) (rs_woff s) (rs_soff s) \<and> rs_lo s \<le> rs_hi s \<and> rs_hi s \<le> rs_rows s
     \<and> 0 < rs_ways s \<and> length (rs_keys s) = rs_sets s * rs_ways s
     \<and> length (rs_cache s) = rs_sets s * rs_ways s \<and> length (rs_victim s) = rs_sets s
     \<and> (\<forall>j < rs_sets s * rs_ways s. rs_keys s ! j \<noteq> 0 \<longrightarrow>
          rs_cache s ! j = table_row data (rs_woff s) (rs_soff s) (rs_keys s ! j - 1))
     \<and> (\<forall>sc. rs_scales s = Some sc \<longrightarrow>
          sc = slice (rs_soff s + rs_lo s * scale_bytes) (rs_soff s + rs_hi s * scale_bytes) data)
     \<and> (\<forall>f. rs_packed s = Some f \<longrightarrow> (\<forall>r. rs_lo s \<le> r \<longrightarrow> r < rs_hi s \<longrightarrow>
          slice (header_bytes + (r - rs_lo s) * row_bytes) (header_bytes + Suc (r - rs_lo s) * row_bytes) f
            = table_row data (rs_woff s) (rs_soff s) r))"

lemma slot_bound:
  fixes i sets ways w :: nat
  assumes "0 < sets" and "w < ways"
  shows "i mod sets * ways + w < sets * ways"
proof -
  have "i mod sets * ways + w < Suc (i mod sets) * ways" using assms by simp
  also have "\<dots> \<le> sets * ways" using assms(1) by (intro mult_le_mono1) (simp add: Suc_leI)
  finally show ?thesis .
qed

lemma probe_row:
  assumes "store_ok data s" and "probe s i = Some row"
  shows "row = table_row data (rs_woff s) (rs_soff s) i"
proof -
  let ?base = "i mod rs_sets s * rs_ways s"
  have sets: "0 < rs_sets s" using assms(2) by (auto simp: probe_def split: if_splits)
  obtain w where w: "w < rs_ways s" "rs_keys s ! (?base + w) = i + 1" "row = rs_cache s ! (?base + w)"
    using assms(2) sets by (auto simp: probe_def Let_def find_Some_iff)
  with slot_bound [OF sets w(1), of i] assms(1) show ?thesis by (auto simp: store_ok_def)
qed

lemma miss_row_exact:
  assumes ok: "store_ok data s" and "miss_row rdc rdp data s i = Some row" and i: "rs_lo s \<le> i" "i < rs_hi s"
  shows "row = table_row data (rs_woff s) (rs_soff s) i"
proof (cases "rs_packed s")
  case (Some f)
  then have "read_from rdp f False (header_bytes + (i - rs_lo s) * row_bytes) row_bytes = Some row"
    using assms(2) by (simp add: miss_row_def)
  then have "row = slice (header_bytes + (i - rs_lo s) * row_bytes)
      (header_bytes + (i - rs_lo s) * row_bytes + row_bytes) f" by (rule read_from_bytes)
  with Some ok i show ?thesis by (simp add: store_ok_def add.commute add.left_commute)
next
  case None
  obtain w sc where row: "row = w @ sc"
    and w: "read_from rdc data (rs_resident s) (rs_woff s + i * weight_bytes) weight_bytes = Some w"
    and sc: "(case rs_scales s of
        Some sc \<Rightarrow> Some (slice ((i - rs_lo s) * scale_bytes) (Suc (i - rs_lo s) * scale_bytes) sc)
      | None \<Rightarrow> read_from rdc data (rs_resident s) (rs_soff s + i * scale_bytes) scale_bytes) = Some sc"
    using None assms(2) by (auto simp: miss_row_def bind_eq_Some_conv)
  have "sc = slice (rs_soff s + i * scale_bytes) (rs_soff s + Suc i * scale_bytes) data"
  proof (cases "rs_scales s")
    case None
    with sc have "sc = slice (rs_soff s + i * scale_bytes) (rs_soff s + i * scale_bytes + scale_bytes) data"
      by (auto dest: read_from_bytes)
    then show ?thesis by (simp add: algebra_simps)
  next
    case (Some shard)
    have "Suc (i - rs_lo s) * scale_bytes \<le> rs_hi s * scale_bytes - rs_lo s * scale_bytes"
      using i mult_le_mono1 [of "Suc (i - rs_lo s)" "rs_hi s - rs_lo s" scale_bytes]
      by (simp add: diff_mult_distrib)
    moreover have "rs_lo s * scale_bytes + (i - rs_lo s) * scale_bytes = i * scale_bytes"
      using i by (simp add: diff_mult_distrib)
    ultimately show ?thesis using sc Some ok
      by (simp add: store_ok_def slice_slice add.assoc add.left_commute)
  qed
  moreover have "w = slice (rs_woff s + i * weight_bytes) (rs_woff s + Suc i * weight_bytes) data"
    using read_from_bytes [OF w] by (simp add: algebra_simps)
  ultimately show ?thesis by (simp add: row table_row_def)
qed

lemma insert_row_ok:
  assumes "store_ok data s" and "row = table_row data (rs_woff s) (rs_soff s) i"
  shows "store_ok data (insert_row s i row)"
  using assms slot_bound [of "rs_sets s" "rs_victim s ! (i mod rs_sets s) mod rs_ways s" "rs_ways s" i]
  by (auto simp: insert_row_def store_ok_def Let_def nth_list_update)

lemma insert_row_fields [simp]:
  "rs_lo (insert_row s i row) = rs_lo s" "rs_hi (insert_row s i row) = rs_hi s"
  "rs_rows (insert_row s i row) = rs_rows s" "rs_woff (insert_row s i row) = rs_woff s"
  "rs_soff (insert_row s i row) = rs_soff s" "rs_packed (insert_row s i row) = rs_packed s"
  "rs_scales (insert_row s i row) = rs_scales s"
  by (simp_all add: insert_row_def Let_def)

lemma hit_ok: "store_ok data s \<Longrightarrow> store_ok data (s\<lparr>rs_hits := n\<rparr>)"
  by (simp add: store_ok_def)

lemma fetch_row_exact:
  assumes "store_ok data s" and "fetch_row rdc rdp data s i = Some (s', row)" and "rs_lo s \<le> i" "i < rs_hi s"
  shows "row = table_row data (rs_woff s) (rs_soff s) i \<and> store_ok data s'"
proof (cases "probe s i")
  case (Some r)
  with assms(2) have "s' = s\<lparr>rs_hits := rs_hits s + 1\<rparr>" "row = r" by (auto simp: fetch_row_def)
  with Some probe_row [OF assms(1)] hit_ok [OF assms(1)] show ?thesis by simp
next
  case None
  with assms(2) obtain "miss_row rdc rdp data s i = Some row" "s' = insert_row s i row"
    by (auto simp: fetch_row_def)
  with miss_row_exact [OF assms(1)] insert_row_ok [OF assms(1)] assms(3,4) show ?thesis by blast
qed

section \<open>Opening\<close>

lemma pin_loop_bytes:
  assumes "pin_loop rd data start fin off acc = Some x" and "start \<le> fin"
    and "acc = slice start (max start (min off fin)) data"
  shows "x = slice start fin data"
  using assms(1,3)
proof (induction "fin - off" arbitrary: off acc rule: less_induct)
  case less
  show ?case
  proof (cases "off < fin")
    case False
    with less.prems assms(2) show ?thesis by (auto simp: pin_loop.simps [of rd data start fin off] max_def)
  next
    case True
    define lo where "lo = max off start"
    from less.prems(1) True obtain got where got: "0 < got"
      and rec: "pin_loop rd data start fin (off + got)
        (if lo < min (off + got) fin then acc @ slice lo (min (off + got) fin) data else acc) = Some x"
      by (subst (asm) pin_loop.simps) (auto simp: Let_def lo_def split: option.splits if_splits)
    have "(if lo < min (off + got) fin then acc @ slice lo (min (off + got) fin) data else acc)
        = slice start (max start (min (off + got) fin)) data"
    proof (cases "lo < min (off + got) fin")
      case True
      have "max start (min off fin) = lo" using \<open>off < fin\<close> by (simp add: lo_def)
      moreover have "start \<le> lo" by (simp add: lo_def)
      ultimately show ?thesis using True slice_append_slice [of start lo "min (off + got) fin" data] less.prems(2)
        by (simp add: max_def)
    next
      case False
      then have "min (off + got) fin \<le> start" "min off fin \<le> start" using got \<open>off < fin\<close> by (auto simp: lo_def)
      then have "max start (min (off + got) fin) = start" "max start (min off fin) = start" by simp_all
      then show ?thesis using False less.prems(2) by (simp only: if_False)
    qed
    with less.hyps [OF _ rec] got True show ?thesis by simp
  qed
qed

lemma pin_scales_bytes:
  assumes "pin_scales rd data s = Some sc" and "rs_lo s \<le> rs_hi s"
  shows "sc = slice (rs_soff s + rs_lo s * scale_bytes) (rs_soff s + rs_hi s * scale_bytes) data"
proof -
  define start where "start = rs_soff s + rs_lo s * scale_bytes"
  define fin where "fin = start + (rs_hi s - rs_lo s) * scale_bytes"
  have fin: "fin = rs_soff s + rs_hi s * scale_bytes"
    using assms(2) mult_le_mono1 [of "rs_lo s" "rs_hi s" scale_bytes]
    by (simp add: fin_def start_def diff_mult_distrib)
  have "sc = slice start fin data"
  proof (cases "rs_resident s")
    case True
    with assms(1) show ?thesis by (simp add: pin_scales_def Let_def start_def fin_def split: if_splits)
  next
    case False
    then have "pin_loop rd data start fin (start - start mod page_bytes) [] = Some sc"
      using assms(1) by (simp add: pin_scales_def Let_def start_def fin_def split: if_splits)
    moreover have "start \<le> fin" by (simp add: fin_def)
    moreover have "min (start - start mod page_bytes) fin \<le> start" by (rule min.coboundedI1) (rule diff_le_self)
    then have "slice start (max start (min (start - start mod page_bytes) fin)) data = []"
      by (simp only: max_absorb1 slice_self)
    ultimately show ?thesis using pin_loop_bytes [of rd data start fin] by metis
  qed
  then show ?thesis by (simp add: fin start_def)
qed

lemma open_ok:
  assumes "row_store_open data rows woff soff budget ram cache_ways = Some s"
  shows "store_ok data s" and "rs_rows s = rows" and "rs_woff s = woff" and "rs_soff s = soff"
    and "rs_scales s = None" and "rs_packed s = None" and "table_fits data rows woff soff"
proof -
  have c: "\<not> (woff > length data \<or> soff > length data \<or> rows > (length data - woff) div 256
      \<or> rows > (length data - soff) div 8)"
    using assms unfolding row_store_open_def by (rule contrapos_pn) simp
  then have "rows * 256 \<le> length data - woff" "rows * 8 \<le> length data - soff"
    by (simp_all add: not_less less_eq_div_iff_mult_less_eq)
  moreover have "woff \<le> length data" "soff \<le> length data" using c by auto
  ultimately show fits: "table_fits data rows woff soff"
    unfolding table_fits_def engram_sizes by linarith
  define sets where "sets = (if ram then 0 else budget) div ((row_bytes + 8) * max 1 (min 16 cache_ways) + 1)"
  have s: "s = \<lparr>rs_rows = rows, rs_woff = woff, rs_soff = soff, rs_lo = 0, rs_hi = rows,
      rs_sets = sets, rs_ways = max 1 (min 16 cache_ways),
      rs_cache = replicate (sets * max 1 (min 16 cache_ways)) (replicate row_bytes 0),
      rs_keys = replicate (sets * max 1 (min 16 cache_ways)) 0, rs_victim = replicate sets 0,
      rs_resident = ram, rs_scales = None, rs_packed = None, rs_hits = 0, rs_misses = 0\<rparr>"
    using assms unfolding row_store_open_def Let_def sets_def if_not_P [OF c] by (rule option.inject [THEN iffD1, symmetric])
  show "store_ok data s" using fits by (simp add: s store_ok_def)
  show "rs_rows s = rows" "rs_woff s = woff" "rs_soff s = soff" "rs_scales s = None" "rs_packed s = None"
    by (simp_all add: s)
qed

lemma range_ok:
  assumes "store_ok data s" and "rs_packed s = None" and "rs_scales s = None"
    and "row_store_range rd data flag s lo hi = Some s'"
  shows "store_ok data s' \<and> rs_lo s' = lo \<and> rs_hi s' = hi \<and> rs_rows s' = rs_rows s \<and> rs_woff s' = rs_woff s
    \<and> rs_soff s' = rs_soff s \<and> rs_packed s' = None"
proof -
  have "lo \<le> hi" "hi \<le> rs_rows s" using assms(4) by (auto simp: row_store_range_def split: if_splits)
  then show ?thesis
    using assms pin_scales_bytes [of rd data "s\<lparr>rs_lo := lo, rs_hi := hi\<rparr>"]
    by (auto simp: row_store_range_def store_ok_def Let_def split: if_splits)
qed

lemma attach_ok:
  assumes "store_ok data s" and "rs_packed s = None" and "row_store_attach_packed s packed layer = Some s'"
    and "\<And>f r. packed = Some f \<Longrightarrow> rs_lo s \<le> r \<Longrightarrow> r < rs_hi s \<Longrightarrow>
      slice (header_bytes + (r - rs_lo s) * row_bytes) (header_bytes + Suc (r - rs_lo s) * row_bytes) f
        = table_row data (rs_woff s) (rs_soff s) r"
  shows "store_ok data s' \<and> rs_lo s' = rs_lo s \<and> rs_hi s' = rs_hi s \<and> rs_rows s' = rs_rows s
    \<and> rs_woff s' = rs_woff s \<and> rs_soff s' = rs_soff s"
  using assms by (auto simp: row_store_attach_packed_def store_ok_def split: option.splits if_splits)

section \<open>The packed file\<close>

text \<open>A file of the pack step is at most the header and the owned rows, and exactly those when it is as long.\<close>

lemma pack_layer_written:
  assumes "pack_layer rd wr data rows woff soff present layer rank tp chunk = Inr (Some f)" and "rank < tp"
  defines "lo \<equiv> engram_bound rows tp rank" and "hi \<equiv> engram_bound rows tp (Suc rank)"
  shows "\<exists>h. pack_header layer lo hi rows = Inr h
    \<and> length f \<le> length h + length (concat (map (table_row data woff soff) [lo..<hi]))
    \<and> (length f = length h + length (concat (map (table_row data woff soff) [lo..<hi]))
        \<longrightarrow> f = h @ concat (map (table_row data woff soff) [lo..<hi]))"
proof -
  obtain h part where h: "pack_header layer lo hi rows = Inr h" and part: "raw_write wr [] h = Inr part"
    and rest: "chunk < 0 \<and> f = part \<or> 0 < chunk \<and> pack_chunks rd wr data woff soff (nat chunk) hi lo part = Inr f"
    using assms(1,2) by (auto simp: pack_layer_def Let_def bind_res_Inr_iff lo_def hi_def split: if_splits)
  note p = raw_write_append [OF part]
  from rest show ?thesis
  proof
    assume "chunk < 0 \<and> f = part"
    with h p show ?thesis by auto
  next
    assume "0 < chunk \<and> pack_chunks rd wr data woff soff (nat chunk) hi lo part = Inr f"
    with pack_chunks_rows [of rd wr data woff soff "nat chunk" hi lo part f] h p show ?thesis by auto
  qed
qed

lemma pack_layer_file:
  assumes "pack_layer rd wr data rows woff soff present layer rank tp chunk = Inr (Some f)"
    and "table_fits data rows woff soff" and "rank < tp"
  defines "lo \<equiv> engram_bound rows tp rank" and "hi \<equiv> engram_bound rows tp (Suc rank)"
  defines "expected \<equiv> header_bytes + (hi - lo) * row_bytes"
  shows "length f \<le> expected"
    and "expected \<le> length f \<Longrightarrow> lo \<le> r \<Longrightarrow> r < hi \<Longrightarrow>
      slice (header_bytes + (r - lo) * row_bytes) (header_bytes + Suc (r - lo) * row_bytes) f = table_row data woff soff r"
    and "expected \<le> length f \<Longrightarrow> map (header_field f) [0..<6] = [magic, layer, lo, hi, rows, row_bytes]"
proof -
  have lohi: "lo \<le> hi" "hi \<le> rows"
    using engram.bound_step [of tp rank rows] engram.bound_le [of tp "Suc rank" rows] assms(3)
    by (simp_all add: lo_def hi_def)
  obtain h where h: "pack_header layer lo hi rows = Inr h"
    and len: "length f \<le> length h + length (concat (map (table_row data woff soff) [lo..<hi]))"
    and f: "length f = length h + length (concat (map (table_row data woff soff) [lo..<hi])) \<Longrightarrow>
      f = h @ concat (map (table_row data woff soff) [lo..<hi])"
    using pack_layer_written [OF assms(1,3)] unfolding lo_def hi_def by blast
  have shift: "concat (map (table_row data woff soff) [lo..<hi]) = concat (map (\<lambda>i. table_row data woff soff (lo + i)) [0..<hi - lo])"
    using lohi map_upt_shift [of "table_row data woff soff" lo "hi - lo"] by simp
  note hlen = pack_header_length [OF h]
  have rec: "length (table_row data woff soff (lo + i)) = row_bytes" if "i < hi - lo" for i
    using length_table_row [OF assms(2)] that lohi by simp
  have "length (concat (map (\<lambda>i. table_row data woff soff (lo + i)) [0..<k])) = k * row_bytes" if "k \<le> hi - lo" for k
    using that rec by (induction k) auto
  then have blen: "length (concat (map (table_row data woff soff) [lo..<hi])) = (hi - lo) * row_bytes" by (simp add: shift)
  show "length f \<le> expected" using len hlen blen by (simp add: expected_def)
  have f': "f = h @ concat (map (\<lambda>i. table_row data woff soff (lo + i)) [0..<hi - lo])" if "expected \<le> length f"
    using f len hlen blen that shift by (simp add: expected_def)
  show "slice (header_bytes + (r - lo) * row_bytes) (header_bytes + Suc (r - lo) * row_bytes) f
      = table_row data woff soff r" if "expected \<le> length f" "lo \<le> r" "r < hi"
    using slice_records [of "hi - lo" "\<lambda>i. table_row data woff soff (lo + i)" h "r - lo"] rec hlen that(2,3)
    by (simp add: f' [OF that(1)])
  have vals: "layer < 2 ^ 64" "lo < 2 ^ 64" "hi < 2 ^ 64" "rows < 2 ^ 64"
    and hh: "h = concat (map le64 [magic, layer, lo, hi, rows, row_bytes]) @ replicate (header_bytes - 48) 0"
    using h by (auto simp: pack_header_def Let_def split: if_splits)
  have "magic < 2 ^ 64" "row_bytes < 2 ^ 64" by (simp_all add: magic_def row_bytes_def)
  with vals show "map (header_field f) [0..<6] = [magic, layer, lo, hi, rows, row_bytes]" if "expected \<le> length f"
    by (simp add: f' [OF that] hh header_field_def slice_def upt_rec le_u64_le64)
qed

section \<open>A rank's store\<close>

text \<open>The packed shard a rank attaches, if any, is what the pack step left for this rank, after whatever
  the kernel read and wrote, short writes included.\<close>

definition packed_by :: "nat list \<Rightarrow> nat \<Rightarrow> nat \<Rightarrow> nat \<Rightarrow> nat \<Rightarrow> nat \<Rightarrow> nat \<Rightarrow> nat list option \<Rightarrow> bool" where
  "packed_by data rows woff soff layer rank tp packed \<longleftrightarrow>
     (\<forall>f. packed = Some f \<longrightarrow> (\<exists>rd wr present chunk.
        pack_layer rd wr data rows woff soff present layer rank tp chunk = Inr (Some f)))"

lemma engram_init_ok:
  assumes init: "engram_init rd data rows woff soff budget ram cache_ways flag packed layer rank tp = Some s"
    and "packed_by data rows woff soff layer rank tp packed" and "rank < tp"
  shows "store_ok data s \<and> rs_lo s = engram_bound rows tp rank \<and> rs_hi s = engram_bound rows tp (Suc rank)
    \<and> rs_rows s = rows \<and> rs_woff s = woff \<and> rs_soff s = soff \<and> (\<forall>f. rs_packed s = Some f \<longrightarrow> packed = Some f)"
proof -
  obtain s0 s1 where s0: "row_store_open data rows woff soff budget ram cache_ways = Some s0"
    and s1: "row_store_range rd data flag s0 (engram_bound rows tp rank) (engram_bound rows tp (Suc rank)) = Some s1"
    and s: "row_store_attach_packed s1 packed layer = Some s"
    using init by (auto simp: engram_init_def bind_eq_Some_conv)
  note o = open_ok [OF s0]
  note r = range_ok [OF o(1,6,5) s1]
  have "slice (header_bytes + (q - rs_lo s1) * row_bytes) (header_bytes + Suc (q - rs_lo s1) * row_bytes) f
      = table_row data (rs_woff s1) (rs_soff s1) q"
    if "packed = Some f" "rs_lo s1 \<le> q" "q < rs_hi s1" for f q
  proof -
    have "header_bytes + (rs_hi s1 - rs_lo s1) * row_bytes \<le> length f"
      using s that(1) by (auto simp: row_store_attach_packed_def split: if_splits)
    then show ?thesis
      using that assms(2,3) pack_layer_file(2) [OF _ o(7)] r o by (fastforce simp: packed_by_def)
  qed
  with attach_ok [OF _ _ s] r o s show ?thesis
    by (auto simp: row_store_attach_packed_def split: option.splits if_splits)
qed

lemma packed_room:
  assumes "engram_init rd data rows woff soff budget ram cache_ways flag packed layer rank tp = Some s"
    and "rs_packed s = Some f"
  shows "header_bytes + (rs_hi s - rs_lo s) * row_bytes \<le> length f"
proof -
  obtain s1 where s: "row_store_attach_packed s1 packed layer = Some s" and "rs_packed s1 = None"
    using assms(1) open_ok(1,5,6) range_ok by (fastforce simp: engram_init_def bind_eq_Some_conv)
  with assms(2) show ?thesis
    by (auto simp: row_store_attach_packed_def split: option.splits if_splits)
qed

definition file_pread :: "nat list \<Rightarrow> pread_fn" where
  "file_pread bytes off n = Some (min n (length bytes - off))"

lemma miss_row_total:
  assumes "store_ok data s" and "rs_lo s \<le> i" and "i < rs_hi s"
    and "\<And>f. rs_packed s = Some f \<Longrightarrow> header_bytes + (rs_hi s - rs_lo s) * row_bytes \<le> length f \<and> rdp = file_pread f"
  shows "\<exists>row. miss_row (file_pread data) rdp data s i = Some row"
proof (cases "rs_packed s")
  case (Some f)
  have "Suc (i - rs_lo s) \<le> rs_hi s - rs_lo s" using assms(2,3) by simp
  then have "header_bytes + (i - rs_lo s) * row_bytes + row_bytes \<le> length f"
    using assms(4) [OF Some] mult_le_mono1 [of "Suc (i - rs_lo s)" "rs_hi s - rs_lo s" row_bytes] by simp
  with Some assms(4) [OF Some] show ?thesis
    by (simp add: miss_row_def read_from_total file_pread_def)
next
  case None
  have "rs_woff s + i * weight_bytes + weight_bytes \<le> length data"
    "rs_soff s + i * scale_bytes + scale_bytes \<le> length data"
    using assms(1,3) mult_le_mono1 [of "Suc i" "rs_rows s" weight_bytes]
      mult_le_mono1 [of "Suc i" "rs_rows s" scale_bytes] by (auto simp: store_ok_def table_fits_def)
  with None show ?thesis
    by (cases "rs_scales s") (simp_all add: miss_row_def read_from_total file_pread_def)
qed

definition served_row :: "nat list \<Rightarrow> row_store \<Rightarrow> nat \<Rightarrow> nat list" where
  "served_row data s i =
     (if rs_lo s \<le> i \<and> i < rs_hi s then table_row data (rs_woff s) (rs_soff s) i else replicate row_bytes 0)"

lemma fetch_row_fields:
  "fetch_row rdc rdp data s i = Some (s', row) \<Longrightarrow> rs_lo s' = rs_lo s \<and> rs_hi s' = rs_hi s
    \<and> rs_rows s' = rs_rows s \<and> rs_woff s' = rs_woff s \<and> rs_soff s' = rs_soff s \<and> rs_packed s' = rs_packed s"
  by (auto simp: fetch_row_def split: option.splits)

lemma serve_rows:
  assumes "store_ok data s"
    and "\<And>f. rs_packed s = Some f \<Longrightarrow> header_bytes + (rs_hi s - rs_lo s) * row_bytes \<le> length f \<and> rdp = file_pread f"
    and "\<forall>i \<in> set ids. 0 \<le> i \<and> nat i < rs_rows s"
  shows "\<exists>s'. serve (file_pread data) rdp data s ids = Some (s', map (served_row data s \<circ> nat) ids) \<and> store_ok data s'"
  using assms
proof (induction ids arbitrary: s)
  case Nil
  then show ?case by simp
next
  case (Cons i ids)
  show ?case
  proof (cases "rs_lo s \<le> nat i \<and> nat i < rs_hi s")
    case False
    with Cons.IH [of s] Cons.prems show ?thesis by (auto simp: served_row_def)
  next
    case True
    have "\<exists>s' row. fetch_row (file_pread data) rdp data s (nat i) = Some (s', row)"
      using miss_row_total [OF Cons.prems(1) _ _ Cons.prems(2)] True
      by (cases "probe s (nat i)") (auto simp: fetch_row_def)
    then obtain s' row where f: "fetch_row (file_pread data) rdp data s (nat i) = Some (s', row)" by blast
    have row: "row = table_row data (rs_woff s) (rs_soff s) (nat i)" "store_ok data s'"
      using fetch_row_exact [OF Cons.prems(1) f] True by auto
    note same = fetch_row_fields [OF f]
    obtain s'' where "serve (file_pread data) rdp data s' ids = Some (s'', map (served_row data s' \<circ> nat) ids)"
      "store_ok data s''"
      using Cons.IH [OF row(2)] Cons.prems(2,3) same by auto
    moreover have "served_row data s' = served_row data s" using same by (auto simp: served_row_def)
    ultimately show ?thesis using f row True Cons.prems(3) same by (auto simp: served_row_def)
  qed
qed

lemma run_exact:
  assumes "rs_run rdc rdp data st out st'" and "store_ok data (fst st)"
    and "\<forall>(i, row) \<in> set (snd st). row = table_row data (rs_woff (fst st)) (rs_soff (fst st)) i"
  shows "\<forall>(i, row) \<in> set out. row = table_row data (rs_woff (fst st)) (rs_soff (fst st)) i"
  using assms
proof (induction rule: rs_run.induct)
  case (stop s)
  then show ?case by simp
next
  case (step s l s' out s'')
  have keep: "store_ok data (fst s') \<and> rs_woff (fst s') = rs_woff (fst s) \<and> rs_soff (fst s') = rs_soff (fst s)
      \<and> (\<forall>(i, row) \<in> set (snd s'). row = table_row data (rs_woff (fst s)) (rs_soff (fst s)) i)
      \<and> (\<forall>i row. l = Some (i, row) \<longrightarrow> row = table_row data (rs_woff (fst s)) (rs_soff (fst s)) i)"
    using step.hyps(1)
  proof cases
    case (hit s i row pend)
    with step.prems probe_row hit_ok show ?thesis by auto
  next
    case (read s i row pend)
    with step.prems miss_row_exact show ?thesis by auto
  next
    case (insert i row pend s)
    with step.prems insert_row_ok [of data s row i] set_remove1_subset show ?thesis by fastforce
  qed
  with step.IH show ?case by (cases l) auto
qed

section \<open>Properties\<close>

text \<open>The pack step and the server agree on the table: where the server accepts the checkpoint, the pack
  step reads the same shard, row count and offsets.\<close>

lemma config_agrees_with_pack:
  "engram_config index shards n dm layer = Inr (name, woff, soff)
    \<Longrightarrow> tensor_span index shards layer = Inr (name, n, woff, soff)"
  by (auto simp: engram_config_def tensor_span_def Let_def weight_bytes_def scale_bytes_def
      split: if_splits option.splits)

text \<open>The staging buffer holds the gather and is less than twice its size.\<close>

lemma staging_capacity_bounds: "1 \<le> n \<Longrightarrow> n \<le> staging_capacity n \<and> (n = 1 \<or> staging_capacity n \<le> 2 * (n - 1))"
proof (cases "n = 1")
  case True
  then show ?thesis by (simp add: staging_capacity_def bit_length.simps)
next
  case False
  assume "1 \<le> n"
  with False have b: "2 ^ (bit_length (n - 1) - 1) \<le> n - 1 \<and> n - 1 < 2 ^ bit_length (n - 1)"
    by (intro bit_length_bounds) simp
  have "bit_length (n - 1) = Suc (bit_length (n - 1) - 1)"
    using False \<open>1 \<le> n\<close> by (subst bit_length.simps) (simp add: bit_length.simps [of "n - 1"])
  then have "(2 :: int) ^ bit_length (n - 1) = 2 * 2 ^ (bit_length (n - 1) - 1)" by (metis power_Suc)
  with b show ?thesis by (simp add: staging_capacity_def)
qed

text \<open>C29: whatever the kernel reads and however few bytes its writes take (their counts are ignored), a
  file the pack step leaves for a rank is either complete, with exactly one 264-byte record per owned row
  made of that row's weight and scale bytes, and the row store of the rank accepts it; or it is shorter
  than the expected size and the store refuses it. With whole reads and writes, packing a table that is
  in the checkpoint succeeds with the complete file.\<close>

theorem packed_file_accepted:
  assumes "rank < tp" and "table_fits data rows woff soff"
    and "rs_lo s = engram_bound rows tp rank" and "rs_hi s = engram_bound rows tp (Suc rank)"
    and "rs_rows s = rows"
  defines "expected \<equiv> 4096 + (engram_bound rows tp (Suc rank) - engram_bound rows tp rank) * 264"
  shows "(\<forall>rd wr present chunk f. pack_layer rd wr data rows woff soff present layer rank tp chunk = Inr (Some f) \<longrightarrow>
      (if length f = expected
       then (\<forall>r. rs_lo s \<le> r \<and> r < rs_hi s \<longrightarrow>
            slice (4096 + (r - rs_lo s) * 264) (4096 + Suc (r - rs_lo s) * 264) f = table_row data woff soff r)
         \<and> row_store_attach_packed s (Some f) layer = Some (s\<lparr>rs_packed := Some f\<rparr>)
       else length f < expected \<and> row_store_attach_packed s (Some f) layer = None))
    \<and> (\<forall>rd wr present chunk. 0 < chunk \<and> layer < 2 ^ 64 \<and> rows < 2 ^ 64 \<and> present \<noteq> Some expected
        \<and> (\<forall>off n. n \<le> nat chunk * 256 \<and> off + n \<le> length data \<longrightarrow> rd off n = Some n)
        \<and> (\<forall>off n. n \<le> max 4096 (nat chunk * 264) \<longrightarrow> wr off n = Some n) \<longrightarrow>
      (\<exists>f. pack_layer rd wr data rows woff soff present layer rank tp chunk = Inr (Some f) \<and> length f = expected))"
proof (intro conjI allI impI)
  fix rd wr present chunk f
  assume "pack_layer rd wr data rows woff soff present layer rank tp chunk = Inr (Some f)"
  note f = pack_layer_file [OF this assms(2,1), folded assms(3,4)]
  show "if length f = expected
      then (\<forall>r. rs_lo s \<le> r \<and> r < rs_hi s \<longrightarrow>
          slice (4096 + (r - rs_lo s) * 264) (4096 + Suc (r - rs_lo s) * 264) f = table_row data woff soff r)
        \<and> row_store_attach_packed s (Some f) layer = Some (s\<lparr>rs_packed := Some f\<rparr>)
      else length f < expected \<and> row_store_attach_packed s (Some f) layer = None"
    using f assms(3-5) by (auto simp: row_store_attach_packed_def page_bytes_def header_bytes_def row_bytes_def expected_def)
next
  fix rd wr :: "nat \<Rightarrow> nat \<Rightarrow> nat option" and present :: "nat option" and chunk :: int
  assume a: "0 < chunk \<and> layer < 2 ^ 64 \<and> rows < 2 ^ 64 \<and> present \<noteq> Some expected
    \<and> (\<forall>off n. n \<le> nat chunk * 256 \<and> off + n \<le> length data \<longrightarrow> rd off n = Some n)
    \<and> (\<forall>off n. n \<le> max 4096 (nat chunk * 264) \<longrightarrow> wr off n = Some n)"
  have hi: "rs_lo s \<le> rows" "rs_hi s \<le> rows"
    using engram.bound_le [of tp _ rows] assms(1,3,4) by simp_all
  obtain h where h: "pack_header layer (rs_lo s) (rs_hi s) rows = Inr h"
    using hi a by (auto simp: pack_header_def Let_def magic_def row_bytes_def)
  note hlen = pack_header_length [OF h]
  have w: "raw_write wr [] h = Inr h" using a hlen by (simp add: raw_write_def header_bytes_def)
  obtain f where body: "pack_chunks rd wr data woff soff (nat chunk) (rs_hi s) (rs_lo s) h = Inr f"
    and len: "length f = length h + (rs_hi s - rs_lo s) * row_bytes"
    using pack_chunks_total [of "nat chunk" data rd wr rows woff soff "rs_hi s" "rs_lo s" h] a assms(2) hi
    by (auto simp: weight_bytes_def row_bytes_def)
  have "pack_layer rd wr data rows woff soff present layer rank tp chunk = Inr (Some f)"
    using assms(1,3,4) a h w body by (simp add: pack_layer_def Let_def expected_def header_bytes_def row_bytes_def)
  with len hlen assms(3,4)
  show "\<exists>f. pack_layer rd wr data rows woff soff present layer rank tp chunk = Inr (Some f) \<and> length f = expected"
    by (simp add: expected_def header_bytes_def row_bytes_def)
qed

definition demo_table :: "nat list" where
  "demo_table = map (\<lambda>i. i mod 251) [0..<792]"

definition demo_store :: row_store where
  "demo_store = \<lparr>rs_rows = 3, rs_woff = 0, rs_soff = 768, rs_lo = 1, rs_hi = 3, rs_sets = 0, rs_ways = 4,
     rs_cache = [], rs_keys = [], rs_victim = [], rs_resident = False, rs_scales = None, rs_packed = None,
     rs_hits = 0, rs_misses = 0\<rparr>"

lemma demo_fits: "table_fits demo_table 3 0 768"
  by (simp add: table_fits_def demo_table_def engram_sizes)

text \<open>The second part is the case of a full disk: the last write takes 100 of its 528 bytes, the pack
  step still returns the file, and the store refuses it.\<close>

definition full_disk :: "nat \<Rightarrow> nat \<Rightarrow> nat option" where
  "full_disk pos n = Some (min n (4196 - pos))"

theorem packed_file_accepted_witness:
  "(\<exists>f. pack_layer (\<lambda>off n. Some n) (\<lambda>off n. Some n) demo_table 3 0 768 None 14 1 2 2 = Inr (Some f)
      \<and> length f = 4096 + 2 * 264
      \<and> slice (4096 + 264) (4096 + 2 * 264) f = table_row demo_table 0 768 2
      \<and> row_store_attach_packed demo_store (Some f) 14 = Some (demo_store\<lparr>rs_packed := Some f\<rparr>))
   \<and> (\<exists>f. pack_layer (\<lambda>off n. Some n) full_disk demo_table 3 0 768 None 14 1 2 2 = Inr (Some f)
      \<and> length f = 4196 \<and> row_store_attach_packed demo_store (Some f) 14 = None)"
proof -
  have b: "engram_bound 3 2 1 = 1" "engram_bound 3 2 (Suc 1) = 3" by (simp_all add: engram_bound_def)
  have s: "rs_lo demo_store = engram_bound 3 2 1" "rs_hi demo_store = engram_bound 3 2 (Suc 1)" "rs_rows demo_store = 3"
    using b by (simp_all add: demo_store_def)
  have lt: "1 < (2 :: nat)" by simp
  note main = packed_file_accepted [of 1 2 demo_table 3 0 768 demo_store 14, OF lt demo_fits s, unfolded s b]
  have "\<exists>f. pack_layer (\<lambda>off n. Some n) (\<lambda>off n. Some n) demo_table 3 0 768 None 14 1 2 2 = Inr (Some f)
      \<and> length f = 4096 + (3 - 1) * 264"
    by (rule conjunct2 [OF main, rule_format]) simp_all
  then obtain f where f: "pack_layer (\<lambda>off n. Some n) (\<lambda>off n. Some n) demo_table 3 0 768 None 14 1 2 2 = Inr (Some f)"
    "length f = 4096 + (3 - 1) * 264" by blast
  have "slice (4096 + 264) (4096 + 2 * 264) f = table_row demo_table 0 768 2"
    "row_store_attach_packed demo_store (Some f) 14 = Some (demo_store\<lparr>rs_packed := Some f\<rparr>)"
    using conjunct1 [OF main, rule_format, OF f(1)] f(2) by (auto dest: spec [of _ 2])
  moreover
  obtain h where h: "pack_header 14 1 3 3 = Inr h" by (simp add: pack_header_def magic_def row_bytes_def)
  note hlen = pack_header_length [OF h]
  have "\<exists>g. pack_chunks (\<lambda>off n. Some n) full_disk demo_table 0 768 2 3 1 h = Inr g \<and> length g = 4196"
    using hlen by (simp add: pack_chunks.simps Let_def raw_read_def raw_write_def full_disk_def demo_table_def engram_sizes
        pack_block_def slice_def)
  then obtain g where g: "pack_chunks (\<lambda>off n. Some n) full_disk demo_table 0 768 2 3 1 h = Inr g" "length g = 4196" by blast
  have pk: "pack_layer (\<lambda>off n. Some n) full_disk demo_table 3 0 768 None 14 1 2 2 = Inr (Some g)"
    using h hlen g(1) b by (simp add: pack_layer_def Let_def raw_write_def full_disk_def header_bytes_def)
  have "row_store_attach_packed demo_store (Some g) 14 = None"
    using conjunct1 [OF main, rule_format, OF pk] g(2) by simp
  ultimately show ?thesis using f pk g(2) by auto
qed

text \<open>C7: however the lookups of the pool's threads interleave, and whether a row comes from the cache, the
  packed shard, the pinned scales or the checkpoint, every lookup a rank's store completes returns the
  exact bytes of the row in the checkpoint.\<close>

theorem lookups_exact:
  assumes "engram_init rd data rows woff soff budget ram cache_ways flag packed layer rank tp = Some s"
    and "packed_by data rows woff soff layer rank tp packed" and "rank < tp"
    and "rs_run rdc rdp data (s, []) out st'"
  shows "list_all (\<lambda>(i, row). row = table_row data woff soff i) out"
  using run_exact [OF assms(4)] engram_init_ok [OF assms(1-3)] by (simp add: list_all_iff)

lemma demo_init:
  "\<exists>s. engram_init (file_pread demo_table) demo_table 3 0 768 100000 False 4 False None 14 1 2 = Some s"
  by (simp add: engram_init_def row_store_open_def row_store_range_def row_store_attach_packed_def
      demo_table_def engram_bound_def Let_def)

theorem lookups_exact_witness:
  "\<exists>s row st'. engram_init (file_pread demo_table) demo_table 3 0 768 100000 False 4 False None 14 1 2 = Some s
    \<and> rs_run (file_pread demo_table) (file_pread []) demo_table (s, []) [(2, row)] st'
    \<and> list_all (\<lambda>(i, row). row = table_row demo_table 0 768 i) [(2, row)]"
proof -
  obtain s where s: "engram_init (file_pread demo_table) demo_table 3 0 768 100000 False 4 False None 14 1 2 = Some s"
    using demo_init by blast
  have pb: "packed_by demo_table 3 0 768 14 1 2 None" by (simp add: packed_by_def)
  note ok = engram_init_ok [OF s pb]
  have rng: "rs_lo s \<le> 2" "2 < rs_hi s" and nopack: "rs_packed s = None"
    using ok by (auto simp: engram_bound_def)
  have "probe s 2 = None"
    using s by (auto simp: engram_init_def row_store_open_def row_store_range_def row_store_attach_packed_def
        Let_def probe_def find_None_iff nth_replicate bind_eq_Some_conv row_bytes_def split: if_splits)
  moreover obtain row where row: "miss_row (file_pread demo_table) (file_pread []) demo_table s 2 = Some row"
    using miss_row_total [of demo_table s 2 "file_pread []"] ok rng nopack by auto
  ultimately have "rs_step (file_pread demo_table) (file_pread []) demo_table (s, []) None (s, [(2, row)])"
    using rng by (intro rs_step.read) auto
  from rs_run.step [OF this rs_run.step [OF rs_step.insert rs_run.stop], of 2 row]
  have run: "rs_run (file_pread demo_table) (file_pread []) demo_table (s, []) [(2, row)]
      (insert_row s 2 row, remove1 (2, row) [(2, row)])" by simp
  show ?thesis using s run lookups_exact [OF s pb _ run] by auto
qed

text \<open>The ranks together hold the table exactly once: for every row of the table, exactly one rank serves
  its bytes and every other rank serves zeros, so the sum over the ranks is the row.\<close>

theorem one_rank_serves_each_row:
  assumes "\<forall>r < tp. packed_by data rows woff soff layer r tp (packed r)
      \<and> engram_init (file_pread data) data rows woff soff budget ram cache_ways flag (packed r) layer r tp = Some (store r)"
    and "0 < tp" and "i < rows"
  shows "\<exists>owner < tp. \<forall>r < tp. \<exists>s'. serve (file_pread data) (file_pread (the (packed r))) data (store r) [int i]
    = Some (s', [if r = owner then table_row data woff soff i else replicate 264 0])"
proof -
  obtain owner where own: "owner < tp" "engram_bound rows tp owner \<le> i" "i < engram_bound rows tp (Suc owner)"
    and uniq: "\<And>r. r < tp \<Longrightarrow> engram_bound rows tp r \<le> i \<Longrightarrow> i < engram_bound rows tp (Suc r) \<Longrightarrow> r = owner"
    using engram.one_owner [OF assms(2,3)] by blast
  have "\<exists>s'. serve (file_pread data) (file_pread (the (packed r))) data (store r) [int i]
      = Some (s', [if r = owner then table_row data woff soff i else replicate 264 0])" if r: "r < tp" for r
  proof -
    have init: "engram_init (file_pread data) data rows woff soff budget ram cache_ways flag (packed r) layer r tp
        = Some (store r)" and "packed_by data rows woff soff layer r tp (packed r)" using assms(1) r by auto
    note ok = engram_init_ok [OF this r]
    have "header_bytes + (rs_hi (store r) - rs_lo (store r)) * row_bytes \<le> length f
        \<and> file_pread (the (packed r)) = file_pread f" if "rs_packed (store r) = Some f" for f
      using packed_room [OF init that] ok that by simp
    then have "\<exists>s'. serve (file_pread data) (file_pread (the (packed r))) data (store r) [int i]
        = Some (s', map (served_row data (store r) \<circ> nat) [int i]) \<and> store_ok data s'"
      using ok assms(3) by (intro serve_rows) auto
    then obtain s' where "serve (file_pread data) (file_pread (the (packed r))) data (store r) [int i]
        = Some (s', map (served_row data (store r) \<circ> nat) [int i])" by blast
    moreover have "served_row data (store r) i = (if r = owner then table_row data woff soff i else replicate 264 0)"
    proof (cases "r = owner")
      case True
      with ok own show ?thesis unfolding served_row_def by (simp only: if_True simp_thms)
    next
      case False
      then have "\<not> (rs_lo (store r) \<le> i \<and> i < rs_hi (store r))" using ok uniq [OF r] by auto
      with False show ?thesis unfolding served_row_def row_bytes_def by (simp only: if_False)
    qed
    ultimately show ?thesis by (simp only: list.map comp_apply nat_int) blast
  qed
  with own(1) show ?thesis by blast
qed

theorem one_rank_serves_each_row_witness:
  "\<exists>store owner. owner < (2::nat)
    \<and> (\<exists>s'. serve (file_pread demo_table) (file_pread (the None)) demo_table (store (0::nat)) [2]
         = Some (s', [if 0 = owner then table_row demo_table 0 768 2 else replicate 264 0]))
    \<and> (\<exists>s'. serve (file_pread demo_table) (file_pread (the None)) demo_table (store 1) [2]
         = Some (s', [if 1 = owner then table_row demo_table 0 768 2 else replicate 264 0]))"
proof -
  define store where "store r = the (engram_init (file_pread demo_table) demo_table 3 0 768 100000 False 4 False None 14 r 2)" for r
  have "\<exists>s. engram_init (file_pread demo_table) demo_table 3 0 768 100000 False 4 False None 14 r 2 = Some s" if "r < 2" for r
    using that by (cases "r = 0") (auto simp: engram_init_def row_store_open_def row_store_range_def
        row_store_attach_packed_def demo_table_def engram_bound_def Let_def less_2_cases_iff)
  then have "\<forall>r < 2. packed_by demo_table 3 0 768 14 r 2 None
      \<and> engram_init (file_pread demo_table) demo_table 3 0 768 100000 False 4 False None 14 r 2 = Some (store r)"
    by (auto simp: store_def packed_by_def)
  from one_rank_serves_each_row [where packed = "\<lambda>_. None", OF this, of 2] obtain owner where
    "owner < 2" and o: "\<And>r. r < 2 \<Longrightarrow> \<exists>s'. serve (file_pread demo_table) (file_pread (the None)) demo_table (store r) [int 2]
      = Some (s', [if r = owner then table_row demo_table 0 768 2 else replicate 264 0])" by auto
  from o [of 0] o [of 1] \<open>owner < 2\<close> show ?thesis by (intro exI [of _ store] exI [of _ owner]) simp
qed

end
