(* ===== verification/Loop_Abort.thy ===== *)
theory Loop_Abort
  imports Py_Prelude
begin

text \<open>
  The generation-loop stop of \<open>adapter/loop_abort.py\<close>: the configuration from the environment, the
  detection of a repeated token, of a repeated n-gram and of a repeated line at the end of the output, and
  the wrapper of \<open>Req.update_finish_state\<close>. Token ids are integers; decoded text is its list of code
  points; the tokenizer is a parameter.
\<close>

section \<open>Configuration\<close>

record loop_cfg =
  lc_abort :: int
  lc_ngram :: int
  lc_ngram_max :: int
  lc_repeats :: int
  lc_identical :: int
  lc_line_repeats :: int
  lc_line_min :: int
  lc_enabled :: bool

definition env_int :: "environ \<Rightarrow> string \<Rightarrow> int \<Rightarrow> int" where
  "env_int env name dflt =
     (case env name of
        None \<Rightarrow> dflt
      | Some raw \<Rightarrow> if py_strip raw = [] then dflt
          else (case py_int (py_strip raw) of None \<Rightarrow> dflt | Some v \<Rightarrow> v))"

definition load_config :: "environ \<Rightarrow> loop_cfg" where
  "load_config env =
     (let abort = env_int env ''DSV41_LOOP_ABORT'' 1;
          ngram = env_int env ''DSV41_LOOP_NGRAM'' 32;
          ngram_max = env_int env ''DSV41_LOOP_NGRAM_MAX'' 256;
          repeats = env_int env ''DSV41_LOOP_REPEATS'' 4;
          identical = env_int env ''DSV41_LOOP_IDENTICAL'' 64;
          line_repeats = env_int env ''DSV41_LOOP_LINE_REPEATS'' 8;
          line_min = env_int env ''DSV41_LOOP_LINE_MIN'' 16;
          ngram_max = (if ngram_max < ngram then ngram else ngram_max);
          ngram_on = (ngram > 0 \<and> repeats > 0)
      in \<lparr>lc_abort = abort, lc_ngram = ngram, lc_ngram_max = ngram_max, lc_repeats = repeats,
          lc_identical = identical, lc_line_repeats = line_repeats, lc_line_min = line_min,
          lc_enabled = (abort > 0 \<and> (ngram_on \<or> identical > 0 \<or> line_repeats > 0))\<rparr>)"

section \<open>Lines\<close>

type_synonym utext = "nat list"

definition is_space_cp :: "nat \<Rightarrow> bool" where
  "is_space_cp c = ((9 \<le> c \<and> c \<le> 13) \<or> (28 \<le> c \<and> c \<le> 32) \<or> c \<in> {133, 160, 5760}
     \<or> (8192 \<le> c \<and> c \<le> 8202) \<or> c \<in> {8232, 8233, 8239, 8287, 12288})"

definition is_break_cp :: "nat \<Rightarrow> bool" where
  "is_break_cp c = ((10 \<le> c \<and> c \<le> 13) \<or> (28 \<le> c \<and> c \<le> 30) \<or> c \<in> {133, 8232, 8233})"

text \<open>\<open>str.splitlines\<close>; \<open>cur\<close> is the open line, last character first.\<close>

fun splitlines_from :: "utext \<Rightarrow> utext \<Rightarrow> utext list" where
  "splitlines_from cur [] = (if cur = [] then [] else [rev cur])"
| "splitlines_from cur [c] = (if is_break_cp c then [rev cur] else [rev (c # cur)])"
| "splitlines_from cur (c # d # xs) =
     (if c = 13 \<and> d = 10 then rev cur # splitlines_from [] xs
      else if is_break_cp c then rev cur # splitlines_from [] (d # xs)
      else splitlines_from (c # cur) (d # xs))"

definition splitlines :: "utext \<Rightarrow> utext list" where
  "splitlines t = splitlines_from [] t"

definition rstrip :: "utext \<Rightarrow> utext" where
  "rstrip t = rev (dropWhile is_space_cp (rev t))"

definition repeated_line_suffix :: "utext \<Rightarrow> int \<Rightarrow> int \<Rightarrow> bool" where
  "repeated_line_suffix t repeats min_chars =
     (if t = [] \<or> repeats \<le> 0 \<or> min_chars \<le> 0 then False
      else (let lines = map rstrip (filter (\<lambda>ln. \<not> list_all is_space_cp ln) (splitlines t)) in
        if int (length lines) < repeats then False
        else if int (length (last lines)) < min_chars then False
        else list_all (\<lambda>ln. ln = last lines) (drop (length lines - nat repeats) lines)))"

section \<open>Detection\<close>

text \<open>The backward scan of the identical-token rule, over the output read from its end.\<close>

fun count_run :: "int \<Rightarrow> int list \<Rightarrow> nat" where
  "count_run tok [] = 0"
| "count_run tok (x # xs) = (if x = tok then Suc (count_run tok xs) else 0)"

definition identical_run :: "int list \<Rightarrow> nat" where
  "identical_run ids = 1 + count_run (last ids) (tl (rev ids))"

definition period_hit :: "int list \<Rightarrow> nat \<Rightarrow> nat \<Rightarrow> bool" where
  "period_hit ids repeats period =
     (let n = length ids; unit = drop (n - period) ids in
      list_all (\<lambda>r. slice (n - (r + 1) * period) (n - r * period) ids = unit) [1..<repeats])"

text \<open>The result is the number of tokens to keep; the match label is always \<open>repetition\<close>.\<close>

definition detect_repetition :: "int list \<Rightarrow> utext option \<Rightarrow> loop_cfg \<Rightarrow> nat option" where
  "detect_repetition ids txt cfg =
     (let n = length ids in
      if \<not> lc_enabled cfg \<or> n = 0 then None
      else if lc_identical cfg > 0 \<and> int n \<ge> lc_identical cfg \<and> int (identical_run ids) \<ge> lc_identical cfg
      then Some (n - identical_run ids + 1)
      else
        (let repeats = nat (lc_repeats cfg);
             hit = (if lc_ngram cfg > 0 \<and> lc_repeats cfg > 0
                    then find (period_hit ids repeats)
                           [nat (lc_ngram cfg)..<min (nat (lc_ngram_max cfg)) (n div repeats) + 1]
                    else None)
         in case hit of
              Some period \<Rightarrow> Some (n - (repeats - 1) * period)
            | None \<Rightarrow>
                (case txt of
                   Some t \<Rightarrow> if repeated_line_suffix t (lc_line_repeats cfg) (lc_line_min cfg) then Some n else None
                 | None \<Rightarrow> None)))"

section \<open>The request hook\<close>

text \<open>\<open>rq_finished\<close> is the finish reason, if any. \<open>decode\<close> is the request's tokenizer on a list of ids,
  \<open>None\<close> where there is none or it raised.\<close>

record request =
  rq_ids :: "int list"
  rq_finished :: "string option"
  rq_len :: "nat option"

definition decode_tail :: "(int list \<Rightarrow> utext option) \<Rightarrow> int list \<Rightarrow> utext option" where
  "decode_tail decode ids = (if ids = [] then None else decode (drop (length ids - 512) ids))"

definition update_finish_state ::
    "(request \<Rightarrow> request) \<Rightarrow> (int list \<Rightarrow> utext option) \<Rightarrow> loop_cfg \<Rightarrow> request \<Rightarrow> request" where
  "update_finish_state original decode cfg req =
     (let req = original req in
      if rq_finished req \<noteq> None then req
      else (let txt = (if lc_line_repeats cfg > 0 then decode_tail decode (rq_ids req) else None) in
        case detect_repetition (rq_ids req) txt cfg of
          None \<Rightarrow> req
        | Some k \<Rightarrow> req\<lparr>rq_finished := Some ''repetition'', rq_len := Some k\<rparr>))"

text \<open>\<open>install\<close>: a disabled configuration leaves the engine's method in place.\<close>

definition install_loop_abort ::
    "environ \<Rightarrow> (request \<Rightarrow> request) \<Rightarrow> (int list \<Rightarrow> utext option) \<Rightarrow> request \<Rightarrow> request" where
  "install_loop_abort env original decode =
     (let cfg = load_config env in
      if lc_enabled cfg then update_finish_state original decode cfg else original)"

section \<open>Runs and periods\<close>

lemma count_run_takeWhile: "count_run tok xs = length (takeWhile (\<lambda>x. x = tok) xs)"
  by (induction xs) auto

lemma identical_run_le: "ids \<noteq> [] \<Longrightarrow> identical_run ids \<le> length ids"
proof -
  assume "ids \<noteq> []"
  moreover have "count_run (last ids) (tl (rev ids)) \<le> length (tl (rev ids))"
    unfolding count_run_takeWhile by (rule length_takeWhile_le)
  ultimately show ?thesis by (cases ids rule: rev_cases) (auto simp: identical_run_def)
qed

text \<open>The output ends in \<open>k\<close> copies of \<open>tok\<close>.\<close>

definition ends_in :: "int list \<Rightarrow> int list \<Rightarrow> nat \<Rightarrow> bool" where
  "ends_in ids unit k \<longleftrightarrow> (\<exists>pre. ids = pre @ concat (replicate k unit))"

lemma replicate_snoc: "replicate n x @ [x] = replicate (Suc n) x"
  by (simp add: replicate_append_same)

lemma identical_run_ends:
  assumes "ids \<noteq> []"
  shows "ends_in ids [last ids] k \<longleftrightarrow> k \<le> identical_run ids"
proof -
  obtain ys y where ids: "ids = ys @ [y]" using assms by (cases ids rule: rev_cases) auto
  let ?run = "length (takeWhile (\<lambda>x. x = y) (rev ys))"
  have run: "identical_run ids = Suc ?run" by (simp add: identical_run_def ids count_run_takeWhile)
  have con: "concat (replicate m [y]) = replicate m y" for m by (induction m) auto
  show ?thesis
  proof
    assume "ends_in ids [last ids] k"
    then obtain pre where pre: "ys @ [y] = pre @ replicate k y" by (auto simp: ends_in_def ids con)
    show "k \<le> identical_run ids"
    proof (cases k)
      case (Suc m)
      then have "ys = pre @ replicate m y" using pre by (simp add: replicate_snoc [symmetric] del: replicate_Suc)
      then have "rev ys = replicate m y @ rev pre" by simp
      moreover have "takeWhile (\<lambda>x. x = y) (replicate m y @ zs) = replicate m y @ takeWhile (\<lambda>x. x = y) zs" for zs
        by (induction m) auto
      ultimately have "m \<le> ?run" by simp
      then show ?thesis using Suc run by simp
    qed simp
  next
    assume k: "k \<le> identical_run ids"
    have "takeWhile (\<lambda>x. x = y) (rev ys) = replicate ?run y"
      by (metis (mono_tags, lifting) replicate_length_same set_takeWhileD)
    then have "rev ys = replicate ?run y @ dropWhile (\<lambda>x. x = y) (rev ys)" by (metis takeWhile_dropWhile_id)
    then have "ys = rev (dropWhile (\<lambda>x. x = y) (rev ys)) @ replicate ?run y"
      by (metis rev_append rev_replicate rev_rev_ident)
    then have "ids = rev (dropWhile (\<lambda>x. x = y) (rev ys)) @ replicate (Suc ?run) y"
      by (simp add: ids replicate_snoc [symmetric] del: replicate_Suc)
    moreover have "replicate (Suc ?run) y = replicate (Suc ?run - k) y @ replicate k y"
      using k run by (simp only: replicate_add [symmetric]) simp
    ultimately have "ids = (rev (dropWhile (\<lambda>x. x = y) (rev ys)) @ replicate (Suc ?run - k) y) @ replicate k y"
      by simp
    moreover have "last ids = y" by (simp add: ids)
    ultimately show "ends_in ids [last ids] k" unfolding ends_in_def by (simp only: con) blast
  qed
qed

lemma period_hit_drop:
  assumes "0 < repeats" and "repeats * p \<le> length ids"
  shows "period_hit ids repeats p
    \<longleftrightarrow> drop (length ids - repeats * p) ids = concat (replicate repeats (drop (length ids - p) ids))"
  using assms
proof (induction repeats rule: nat_induct_non_zero)
  case 1
  then show ?case by (simp add: period_hit_def Let_def)
next
  case (Suc m)
  let ?n = "length ids" and ?unit = "drop (length ids - p) ids"
  have le: "m * p \<le> ?n" "Suc m * p \<le> ?n" using Suc.prems by auto
  have split: "drop (?n - Suc m * p) ids = slice (?n - Suc m * p) (?n - m * p) ids @ drop (?n - m * p) ids"
    by (rule drop_slice) simp
  have len: "length (slice (?n - Suc m * p) (?n - m * p) ids) = length ?unit" using le by simp
  have "period_hit ids (Suc m) p \<longleftrightarrow> period_hit ids m p \<and> slice (?n - Suc m * p) (?n - m * p) ids = ?unit"
    using Suc.hyps by (auto simp: period_hit_def Let_def)
  also have "\<dots> \<longleftrightarrow> drop (?n - Suc m * p) ids = concat (replicate (Suc m) ?unit)"
    unfolding split using Suc.IH le len by auto
  finally show ?case .
qed

lemma ends_in_drop:
  assumes "length u * k \<le> length ids"
  shows "ends_in ids u k \<longleftrightarrow> drop (length ids - k * length u) ids = concat (replicate k u)"
proof
  have len: "length (concat (replicate k u)) = k * length u" by (induction k) auto
  show "drop (length ids - k * length u) ids = concat (replicate k u)" if "ends_in ids u k"
    using that len by (auto simp: ends_in_def)
  show "ends_in ids u k" if "drop (length ids - k * length u) ids = concat (replicate k u)"
    using that unfolding ends_in_def by (metis append_take_drop_id)
qed

lemma ends_in_room: "ends_in ids u k \<Longrightarrow> k * length u \<le> length ids"
proof -
  have "length (concat (replicate k u)) = k * length u" by (induction k) auto
  then show "ends_in ids u k \<Longrightarrow> k * length u \<le> length ids" by (auto simp: ends_in_def)
qed

lemma period_hit_iff:
  assumes "0 < repeats" and "repeats * p \<le> length ids"
  shows "period_hit ids repeats p \<longleftrightarrow> (\<exists>u. length u = p \<and> ends_in ids u repeats)"
proof -
  have unit: "u = drop (length ids - p) ids" if len: "length u = p" and ends: "ends_in ids u repeats" for u
  proof -
    obtain m where "repeats = Suc m" using assms(1) by (cases repeats) auto
    then obtain pre where "ids = pre @ concat (replicate (Suc m) u)"
      using ends unfolding ends_in_def by blast
    then have "ids = (pre @ concat (replicate m u)) @ u"
      by (simp only: replicate_snoc [symmetric] concat_append) simp
    then show ?thesis using len by (metis append_eq_conv_conj length_append add_diff_cancel_right')
  qed
  have p: "p \<le> length ids" using assms by (metis dual_order.trans le_add1 mult.commute mult_Suc_right gr0_implies_Suc)
  show ?thesis
  proof
    assume "period_hit ids repeats p"
    then show "\<exists>u. length u = p \<and> ends_in ids u repeats"
      using period_hit_drop [OF assms] ends_in_drop [of "drop (length ids - p) ids" repeats ids] p assms
      by (intro exI [of _ "drop (length ids - p) ids"]) (simp add: mult.commute)
  next
    assume "\<exists>u. length u = p \<and> ends_in ids u repeats"
    then obtain u where u: "length u = p" "ends_in ids u repeats" by blast
    then show "period_hit ids repeats p"
      using period_hit_drop [OF assms] ends_in_drop [of u repeats ids] unit [OF u] assms(2)
      by (simp add: mult.commute)
  qed
qed

lemma ends_in_keep_one:
  assumes "ends_in ids u (Suc m)"
  shows "ids = take (length ids - m * length u) ids @ concat (replicate m u)
    \<and> ends_in (take (length ids - m * length u) ids) u 1"
proof -
  obtain pre where pre: "ids = pre @ concat (replicate (Suc m) u)" using assms by (auto simp: ends_in_def)
  have len: "length (concat (replicate m u)) = m * length u" by (induction m) auto
  have "ids = (pre @ u) @ concat (replicate m u)" using pre by simp
  then have "take (length ids - m * length u) ids = pre @ u" using len by (metis append_eq_conv_conj length_append add_diff_cancel_right')
  with \<open>ids = (pre @ u) @ concat (replicate m u)\<close> show ?thesis by (auto simp: ends_in_def)
qed

section \<open>Properties\<close>

text \<open>C16: the loop stop is exact. When it fires, what it drops is the extra copies of a suffix that
  repeats as configured (one token, or an n-gram of a configured length), or nothing for a repeated
  line, and the kept output still ends in one copy; when it does not fire, the output has no such
  suffix.\<close>

theorem loop_detection_exact:
  assumes "lc_enabled cfg" and "ids \<noteq> []"
  shows "case detect_repetition ids txt cfg of
      Some k \<Rightarrow> 0 < k \<and> k \<le> length ids \<and> (\<exists>u m. ids = take k ids @ concat (replicate m u) \<and> ends_in (take k ids) u 1
        \<and> (length u = 1 \<and> 0 < lc_identical cfg \<and> lc_identical cfg \<le> int (m + 1)
           \<or> lc_ngram cfg \<le> int (length u) \<and> int (length u) \<le> lc_ngram_max cfg \<and> int (m + 1) = lc_repeats cfg
           \<or> m = 0 \<and> (\<exists>t. txt = Some t \<and> repeated_line_suffix t (lc_line_repeats cfg) (lc_line_min cfg))))
    | None \<Rightarrow>
        \<not> (0 < lc_identical cfg \<and> ends_in ids [last ids] (nat (lc_identical cfg)))
        \<and> (\<forall>u. \<not> (0 < lc_ngram cfg \<and> 0 < lc_repeats cfg \<and> lc_ngram cfg \<le> int (length u)
              \<and> int (length u) \<le> lc_ngram_max cfg \<and> ends_in ids u (nat (lc_repeats cfg))))
        \<and> (\<forall>t. txt = Some t \<longrightarrow> \<not> repeated_line_suffix t (lc_line_repeats cfg) (lc_line_min cfg))"
proof -
  define n where "n = length ids"
  define R where "R = nat (lc_repeats cfg)"
  define ps where "ps = [nat (lc_ngram cfg)..<min (nat (lc_ngram_max cfg)) (n div R) + 1]"
  have n: "0 < n" using assms(2) by (simp add: n_def)
  have run1: "1 \<le> identical_run ids" "identical_run ids \<le> n"
    using identical_run_le [OF assms(2)] by (simp_all add: identical_run_def n_def)
  have fit: "p \<in> set ps \<Longrightarrow> R * p \<le> n" for p
  proof -
    assume "p \<in> set ps"
    then have "p \<le> n div R" by (auto simp: ps_def)
    then have "R * p \<le> R * (n div R)" by (rule mult_le_mono2)
    then show "R * p \<le> n" using times_div_less_eq_dividend [of R n] by linarith
  qed
  consider (same) "lc_identical cfg > 0" "int (identical_run ids) \<ge> lc_identical cfg"
    | (gram) p where "\<not> (lc_identical cfg > 0 \<and> int (identical_run ids) \<ge> lc_identical cfg)"
        "lc_ngram cfg > 0" "lc_repeats cfg > 0" "find (period_hit ids R) ps = Some p"
    | (rest) "\<not> (lc_identical cfg > 0 \<and> int (identical_run ids) \<ge> lc_identical cfg)"
        "lc_ngram cfg > 0 \<and> lc_repeats cfg > 0 \<Longrightarrow> find (period_hit ids R) ps = None"
    by (cases "find (period_hit ids R) ps") blast+
  then show ?thesis
  proof cases
    case same
    then have "detect_repetition ids txt cfg = Some (n - identical_run ids + 1)"
      using assms n run1 by (simp add: detect_repetition_def Let_def n_def)
    moreover obtain m where m: "identical_run ids = Suc m" using run1 by (cases "identical_run ids") auto
    have "ends_in ids [last ids] (Suc m)" using identical_run_ends [OF assms(2)] m by simp
    from ends_in_keep_one [OF this] m run1 n same show ?thesis
      unfolding \<open>detect_repetition ids txt cfg = _\<close>
      by (auto simp: n_def Suc_diff_Suc intro!: exI [of _ "[last ids]"] exI [of _ m])
  next
    case gram
    then have det: "detect_repetition ids txt cfg = Some (n - (R - 1) * p)"
      using assms n by (auto simp: detect_repetition_def Let_def n_def R_def ps_def)
    have p: "p \<in> set ps" "period_hit ids R p" using gram(4) by (auto simp: find_Some_iff)
    have "0 < R" using gram by (simp add: R_def)
    then obtain m where m: "R = Suc m" by (cases R) auto
    obtain u where u: "length u = p" "ends_in ids u (Suc m)"
      using period_hit_iff [of R p ids] p fit [OF p(1)] m by (auto simp: n_def)
    have rng: "lc_ngram cfg \<le> int p" "int p \<le> lc_ngram_max cfg" "0 < p" using p(1) gram(2) by (auto simp: ps_def)
    have "Suc m * p \<le> n" using fit [OF p(1)] m by simp
    then have "m * p < n" using rng(3) by simp
    with ends_in_keep_one [OF u(2)] u(1) m rng det gram(3) show ?thesis
      by (auto simp: n_def R_def intro!: exI [of _ u] exI [of _ m])
  next
    case rest
    have det: "detect_repetition ids txt cfg = (case txt of None \<Rightarrow> None
        | Some t \<Rightarrow> if repeated_line_suffix t (lc_line_repeats cfg) (lc_line_min cfg) then Some n else None)"
      using assms n rest by (auto simp: detect_repetition_def Let_def n_def R_def ps_def split: option.splits)
    have one: "\<not> (0 < lc_identical cfg \<and> ends_in ids [last ids] (nat (lc_identical cfg)))"
      using rest(1) identical_run_ends [OF assms(2)] by auto
    have gram: "\<not> (0 < lc_ngram cfg \<and> 0 < lc_repeats cfg \<and> lc_ngram cfg \<le> int (length u)
        \<and> int (length u) \<le> lc_ngram_max cfg \<and> ends_in ids u (nat (lc_repeats cfg)))" for u
    proof
      assume a: "0 < lc_ngram cfg \<and> 0 < lc_repeats cfg \<and> lc_ngram cfg \<le> int (length u)
        \<and> int (length u) \<le> lc_ngram_max cfg \<and> ends_in ids u (nat (lc_repeats cfg))"
      have room: "R * length u \<le> n" using ends_in_room a by (auto simp: R_def n_def)
      have R: "0 < R" using a by (simp add: R_def)
      have "length u \<le> n div R" using room R by (simp add: less_eq_div_iff_mult_less_eq mult.commute)
      then have "length u \<in> set ps" using a by (auto simp: ps_def)
      then have "\<not> period_hit ids R (length u)" using rest(2) a by (auto simp: find_None_iff)
      with period_hit_iff [of R "length u" ids] R room a show False by (auto simp: R_def n_def)
    qed
    show ?thesis
    proof (cases "\<exists>t. txt = Some t \<and> repeated_line_suffix t (lc_line_repeats cfg) (lc_line_min cfg)")
      case True
      then have "detect_repetition ids txt cfg = Some n" using det by auto
      moreover have "ends_in ids [] 1" by (simp add: ends_in_def)
      ultimately show ?thesis using True n by (auto simp: n_def intro!: exI [of _ "[]"] exI [of _ 0])
    next
      case False
      then have "detect_repetition ids txt cfg = None" using det by (auto split: option.splits)
      then show ?thesis using one gram False by auto
    qed
  qed
qed

definition demo_cfg :: loop_cfg where
  "demo_cfg = load_config [''DSV41_LOOP_IDENTICAL'' \<mapsto> ''3'']"

lemma demo_detect: "detect_repetition [5, 7, 7, 7] None demo_cfg = Some 2"
  by code_simp

theorem loop_detection_exact_witness:
  "lc_enabled demo_cfg \<and> detect_repetition [5, 7, 7, 7] None demo_cfg = Some 2
   \<and> (\<exists>u m. [5, 7, 7, 7] = take 2 [5, 7, 7, 7] @ concat (replicate m u) \<and> ends_in (take 2 [5, 7, 7, 7]) u 1)"
proof -
  have on: "lc_enabled demo_cfg" by code_simp
  from loop_detection_exact [OF on, of "[5, 7, 7, 7]" None] demo_detect
  have "\<exists>u m. [5, 7, 7, 7] = take 2 [5, 7, 7, 7] @ concat (replicate m u) \<and> ends_in (take 2 [5, 7, 7, 7]) u 1"
    by auto
  with on demo_detect show ?thesis by blast
qed

text \<open>The hook stops a request only through the detection, and never touches a finished one.\<close>

lemma hook_keeps_engine_state:
  assumes "req' = update_finish_state original decode cfg req"
  shows "rq_ids req' = rq_ids (original req)"
    and "rq_finished (original req) \<noteq> None \<Longrightarrow> req' = original req"
    and "rq_finished (original req) = None \<Longrightarrow> rq_finished req' \<noteq> None \<Longrightarrow>
      rq_finished req' = Some ''repetition'' \<and> (\<exists>k txt. rq_len req' = Some k
        \<and> detect_repetition (rq_ids req') txt cfg = Some k)"
  using assms by (auto simp: update_finish_state_def Let_def split: option.splits if_splits)

end
