(* ===== verification/Prefill_Bypass.thy ===== *)
theory Prefill_Bypass
  imports Py_Prelude
begin

text \<open>
  The bounded prefill admission beside an in-flight chunk (\<open>adapter/prefill_bypass.py\<close>): arming, the
  wrapped \<open>PrefillAdder\<close> methods, and the statements the adapter inserts into the scheduler's candidate
  loop. The engine's own \<open>add_one_req\<close>, its page rounding and its early exits are parameters; what the
  bounds need of \<open>add_one_req\<close> is stated as \<open>stock_add_ok\<close>.
\<close>

section \<open>Requests, scheduler and adder\<close>

record breq =
  br_id :: nat
  br_fill :: int  \<comment> \<open>len(full_untruncated_fill_ids)\<close>
  br_cached :: int  \<comment> \<open>len(prefix_indices)\<close>
  br_ignore_eos :: bool

record scheduler =
  sc_chunked :: "breq option"
  sc_dllm :: bool
  sc_delayer_flag :: bool
  sc_delayer :: bool
  sc_preemption :: bool
  sc_lora :: bool
  sc_hicache_storage :: bool
  sc_hierarchical :: bool
  sc_unified :: bool

record adder =
  ad_rem_chunk :: "int option"
  ad_pass :: bool
  ad_remaining :: int
  ad_candidate :: bool
  ad_run :: "breq list"  \<comment> \<open>can_run_list\<close>

datatype add_result = CONTINUE | NO_TOKEN | OTHER

definition fresh_tokens :: "breq \<Rightarrow> int" where
  "fresh_tokens req = br_fill req - br_cached req"

definition bypass_active :: "scheduler \<Rightarrow> bool" where
  "bypass_active s = (sc_chunked s \<noteq> None \<and> \<not> sc_dllm s \<and> \<not> sc_delayer_flag s \<and> \<not> sc_delayer s
     \<and> \<not> sc_preemption s \<and> \<not> sc_lora s \<and> \<not> sc_hicache_storage s \<and> \<not> sc_hierarchical s \<and> \<not> sc_unified s)"

section \<open>Arming\<close>

text \<open>The two limits; \<open>None\<close> leaves the engine as it is.\<close>

definition positive_int :: "string \<Rightarrow> int option" where
  "positive_int raw = (case py_int raw of None \<Rightarrow> None | Some v \<Rightarrow> if v \<le> 0 then None else Some v)"

definition bypass_limits :: "environ \<Rightarrow> (int \<times> int) option" where
  "bypass_limits env =
     (let raw = py_strip (env_get env ''DSV41_PREFILL_BYPASS'' '''') in
      if raw = '''' then None
      else (case positive_int raw of
          None \<Rightarrow> None
        | Some limit \<Rightarrow>
            (case positive_int (py_strip (env_get env ''DSV41_PREFILL_BYPASS_SCAN'' ''32'')) of
               None \<Rightarrow> None
             | Some scan_limit \<Rightarrow> Some (limit, scan_limit))))"

text \<open>\<open>str.count\<close> of a non-empty needle, and the anchored replacement of the patch list: an anchor
  that does not occur exactly once refuses.\<close>

function str_count :: "string \<Rightarrow> string \<Rightarrow> nat" where
  "str_count needle s =
     (if needle = [] \<or> s = [] then 0
      else if startswith s needle then Suc (str_count needle (drop (length needle) s))
      else str_count needle (tl s))"
  by pat_completeness auto
termination
  by (relation "measure (\<lambda>(needle, s). length s)") (auto simp: length_greater_0_conv [symmetric] simp del: length_greater_0_conv)

declare str_count.simps [simp del]

fun apply_patches :: "string \<Rightarrow> (string \<times> string) list \<Rightarrow> string res" where
  "apply_patches source [] = Inr source"
| "apply_patches source ((old, new) # ps) =
     (if str_count old source \<noteq> 1 then Inl ValueError
      else (case split_once old source of
          None \<Rightarrow> Inl ValueError
        | Some (a, b) \<Rightarrow> apply_patches (a @ new @ b) ps))"

text \<open>Every adapted method has its pinned digest; then the candidate loop is patched. \<open>digests\<close> pairs each
  expected digest with the one of the engine's source, \<open>None\<close> where it has none.\<close>

definition arm_sources :: "(string \<times> string option) list \<Rightarrow> string \<Rightarrow> (string \<times> string) list \<Rightarrow> string res" where
  "arm_sources digests source patches =
     (if list_all (\<lambda>(want, got). got = Some want) digests then apply_patches source patches else Inl ValueError)"

definition install_bypass ::
    "environ \<Rightarrow> bool \<Rightarrow> (string \<times> string option) list \<Rightarrow> string \<Rightarrow> (string \<times> string) list
     \<Rightarrow> (int \<times> int \<times> string) option" where
  "install_bypass env already digests source patches =
     (case bypass_limits env of
        None \<Rightarrow> None
      | Some (limit, scan_limit) \<Rightarrow>
          if already then None
          else (case arm_sources digests source patches of
              Inl _ \<Rightarrow> None
            | Inr patched \<Rightarrow> Some (limit, scan_limit, patched)))"

section \<open>The wrapped adder\<close>

text \<open>\<open>select\<close>: a bypass candidate that would become a second chunked request is refused. The admission is
  a result, or a plan that says whether it is chunked.\<close>

datatype admission = Refused add_result | Planned bool

definition select :: "adder \<Rightarrow> admission \<Rightarrow> admission" where
  "select ad adm = (if ad_candidate ad \<and> adm = Planned True then Refused OTHER else adm)"

type_synonym stock_add = "adder \<Rightarrow> breq \<Rightarrow> adder \<times> add_result res"

definition add :: "stock_add \<Rightarrow> (int \<Rightarrow> int) \<Rightarrow> int \<Rightarrow> bool \<Rightarrow> bool \<Rightarrow> stock_add" where
  "add orig ceil_paged limit dllm has_chunked ad req =
     (case ad_rem_chunk ad of
        None \<Rightarrow> orig ad req
      | Some saved \<Rightarrow>
          if \<not> ad_pass ad \<or> \<not> has_chunked then orig ad req
          else (let fresh = fresh_tokens req in
            if \<not> (0 \<le> fresh \<and> fresh \<le> limit) \<or> dllm \<or> br_ignore_eos req then (ad, Inr OTHER)
            else if fresh > ad_remaining ad then (ad, Inr OTHER)
            else (let allowance = max saved (ceil_paged fresh);
                      (ad', result) = orig (ad\<lparr>ad_rem_chunk := Some allowance, ad_candidate := True\<rparr>) req;
                      ad' = (case result of
                          Inl _ \<Rightarrow> ad'
                        | Inr _ \<Rightarrow> if ad_run ad' \<noteq> [] \<and> last (ad_run ad') = req
                                    then ad'\<lparr>ad_remaining := ad_remaining ad' - fresh\<rparr> else ad');
                      charged = allowance - the (ad_rem_chunk ad')
                  in (ad'\<lparr>ad_rem_chunk := Some (saved - charged), ad_candidate := False\<rparr>, result))))"

section \<open>The patched candidate loop\<close>

text \<open>After the chunked request was continued: the pass is armed only while the chunk stays in flight.\<close>

definition begin_pass :: "bool \<Rightarrow> scheduler \<Rightarrow> int \<Rightarrow> adder \<Rightarrow> bool \<times> adder" where
  "begin_pass was_active s limit ad =
     (let scan = (was_active \<and> sc_chunked s \<noteq> None) in
      (scan, ad\<lparr>ad_pass := scan, ad_remaining := (if scan then limit else 0)\<rparr>))"

text \<open>The loop over the waiting queue: \<open>stop\<close> is the engine's own early exit, \<open>admit\<close> the wrapped
  \<open>add_one_req\<close>. The result has the number of scanned candidates.\<close>

fun candidate_loop ::
    "(adder \<Rightarrow> breq \<Rightarrow> bool) \<Rightarrow> (adder \<Rightarrow> breq \<Rightarrow> adder \<times> add_result res) \<Rightarrow> bool \<Rightarrow> int \<Rightarrow> int \<Rightarrow> int \<Rightarrow> adder
     \<Rightarrow> breq list \<Rightarrow> (adder \<times> int) res" where
  "candidate_loop stop admit scan limit scan_limit scanned ad [] = Inr (ad, scanned)"
| "candidate_loop stop admit scan limit scan_limit scanned ad (req # queue) =
     (if stop ad req then Inr (ad, scanned)
      else if scan \<and> scanned \<ge> scan_limit then Inr (ad, scanned)
      else (let scanned' = (if scan then scanned + 1 else scanned) in
        if scan \<and> \<not> (0 \<le> fresh_tokens req \<and> fresh_tokens req \<le> limit)
        then candidate_loop stop admit scan limit scan_limit scanned' ad queue
        else (case admit ad req of
            (ad', Inl e) \<Rightarrow> Inl e
          | (ad', Inr res) \<Rightarrow>
              if res = CONTINUE \<or> scan \<and> ad_run ad' = ad_run ad \<and> scanned' < scan_limit
              then candidate_loop stop admit scan limit scan_limit scanned' ad' queue
              else Inr (ad', scanned'))))"

section \<open>Bounds\<close>

text \<open>What the engine's \<open>add_one_req\<close> does to the adder: it appends the request or nothing, keeps a
  compute budget where there is one, and does not touch the adapter's fields.\<close>

definition stock_add_ok :: "stock_add \<Rightarrow> bool" where
  "stock_add_ok orig \<longleftrightarrow> (\<forall>ad req. let ad' = fst (orig ad req) in
     (ad_run ad' = ad_run ad \<or> ad_run ad' = ad_run ad @ [req]) \<and> ad_pass ad' = ad_pass ad
     \<and> ad_remaining ad' = ad_remaining ad \<and> (ad_rem_chunk ad \<noteq> None \<longrightarrow> ad_rem_chunk ad' \<noteq> None))"

lemma stock_add_okD:
  assumes "stock_add_ok orig" and "orig ad req = (ad', r)"
  shows "ad_run ad' = ad_run ad \<or> ad_run ad' = ad_run ad @ [req]" and "ad_pass ad' = ad_pass ad"
    and "ad_remaining ad' = ad_remaining ad" and "ad_rem_chunk ad \<noteq> None \<Longrightarrow> ad_rem_chunk ad' \<noteq> None"
  using assms(1) [unfolded stock_add_ok_def, rule_format, of ad req] assms(2) by (simp_all add: Let_def)

definition fresh_sum :: "breq list \<Rightarrow> int" where
  "fresh_sum reqs = sum_list (map fresh_tokens reqs)"

lemma add_bypass:
  assumes ok: "stock_add_ok orig" and pass: "ad_pass ad" "ad_rem_chunk ad \<noteq> None"
    and new: "req \<notin> set (ad_run ad)" and "0 \<le> ad_remaining ad"
    and run: "add orig ceil_paged limit dllm True ad req = (ad', Inr res)"
  shows "\<exists>new. ad_run ad' = ad_run ad @ new \<and> set new \<subseteq> {req} \<and> ad_remaining ad' + fresh_sum new = ad_remaining ad
    \<and> 0 \<le> ad_remaining ad' \<and> ad_pass ad' \<and> ad_rem_chunk ad' \<noteq> None"
proof -
  obtain saved where saved: "ad_rem_chunk ad = Some saved" using pass by blast
  define fresh where "fresh = fresh_tokens req"
  consider (no) "\<not> (0 \<le> fresh \<and> fresh \<le> limit) \<or> dllm \<or> br_ignore_eos req \<or> fresh > ad_remaining ad"
    | (yes) "0 \<le> fresh" "fresh \<le> limit" "\<not> dllm" "\<not> br_ignore_eos req" "fresh \<le> ad_remaining ad" by linarith
  then show ?thesis
  proof cases
    case no
    then have "add orig ceil_paged limit dllm True ad req = (ad, Inr OTHER)"
      using saved pass by (cases "fresh > ad_remaining ad") (auto simp: add_def Let_def fresh_def)
    with run have "ad' = ad" by simp
    with assms show ?thesis by (intro exI [of _ "[]"]) (simp add: fresh_sum_def)
  next
    case yes
    define ad1 where "ad1 = ad\<lparr>ad_rem_chunk := Some (max saved (ceil_paged fresh)), ad_candidate := True\<rparr>"
    obtain ad2 r where o: "orig ad1 req = (ad2, r)" by (cases "orig ad1 req")
    note d = stock_add_okD [OF ok o]
    have r: "r = Inr res" and ad': "ad_run ad' = ad_run ad2" "ad_pass ad' = ad_pass ad2" "ad_rem_chunk ad' \<noteq> None"
      "ad_remaining ad' = (if ad_run ad2 \<noteq> [] \<and> last (ad_run ad2) = req then ad_remaining ad2 - fresh else ad_remaining ad2)"
      using run saved pass yes o
      by (auto simp: add_def Let_def fresh_def [symmetric] ad1_def [symmetric] split: sum.splits if_splits)
    from d(1) show ?thesis
    proof
      assume "ad_run ad2 = ad_run ad1"
      moreover have "\<not> (ad_run ad1 \<noteq> [] \<and> last (ad_run ad1) = req)" using new by (auto simp: ad1_def)
      ultimately show ?thesis using ad' d yes pass assms(5)
        by (intro exI [of _ "[]"]) (auto simp: fresh_sum_def ad1_def)
    next
      assume "ad_run ad2 = ad_run ad1 @ [req]"
      then show ?thesis using ad' d yes pass by (intro exI [of _ "[req]"]) (simp add: fresh_sum_def ad1_def fresh_def)
    qed
  qed
qed

lemma candidate_loop_bypass:
  assumes ok: "stock_add_ok orig"
    and "candidate_loop stop (add orig ceil_paged limit dllm True) True limit scan_limit scanned ad queue = Inr (ad', scanned')"
    and "ad_pass ad" and "ad_rem_chunk ad \<noteq> None" and "0 \<le> ad_remaining ad"
    and "distinct queue" and "set queue \<inter> set (ad_run ad) = {}"
  shows "\<exists>new. ad_run ad' = ad_run ad @ new \<and> set new \<subseteq> set queue \<and> ad_remaining ad' + fresh_sum new = ad_remaining ad
    \<and> 0 \<le> ad_remaining ad' \<and> scanned' \<le> max scanned scan_limit"
  using assms(2-)
proof (induction queue arbitrary: ad scanned)
  case Nil
  then show ?case by (simp add: fresh_sum_def)
next
  case (Cons req queue)
  let ?loop = "candidate_loop stop (add orig ceil_paged limit dllm True) True limit scan_limit"
  show ?case
  proof (cases "stop ad req \<or> scanned \<ge> scan_limit")
    case True
    then have "?loop scanned ad (req # queue) = Inr (ad, scanned)" by auto
    with Cons.prems show ?thesis by (intro exI [of _ "[]"]) (simp add: fresh_sum_def)
  next
    case False
    show ?thesis
    proof (cases "0 \<le> fresh_tokens req \<and> fresh_tokens req \<le> limit")
      case skip: False
      with False Cons.prems(1) have "?loop (scanned + 1) ad queue = Inr (ad', scanned')" by auto
      from Cons.IH [OF this] Cons.prems False show ?thesis by (auto simp: max_def split: if_splits)
    next
      case True
      obtain ad1 r where a: "add orig ceil_paged limit dllm True ad req = (ad1, r)" by (cases "add orig ceil_paged limit dllm True ad req")
      then obtain res where r: "r = Inr res" using Cons.prems(1) True False by (cases r) auto
      obtain new where n: "ad_run ad1 = ad_run ad @ new" "set new \<subseteq> {req}"
        "ad_remaining ad1 + fresh_sum new = ad_remaining ad" "0 \<le> ad_remaining ad1" "ad_pass ad1" "ad_rem_chunk ad1 \<noteq> None"
        using add_bypass [OF ok Cons.prems(2,3) _ Cons.prems(4) a [unfolded r]] Cons.prems(6) by auto
      show ?thesis
      proof (cases "?loop (scanned + 1) ad1 queue = Inr (ad', scanned')")
        case True
        have "set queue \<inter> set (ad_run ad1) = {}" using n(1,2) Cons.prems(5,6) by auto
        with Cons.IH [OF True n(5,6,4)] Cons.prems(5) obtain more where
          "ad_run ad' = ad_run ad1 @ more" "set more \<subseteq> set queue" "ad_remaining ad' + fresh_sum more = ad_remaining ad1"
          "0 \<le> ad_remaining ad'" "scanned' \<le> max (scanned + 1) scan_limit" by auto
        with n False show ?thesis by (intro exI [of _ "new @ more"]) (auto simp: fresh_sum_def)
      next
        case fin: False
        then have "ad' = ad1 \<and> scanned' = scanned + 1"
          using Cons.prems(1) \<open>0 \<le> fresh_tokens req \<and> fresh_tokens req \<le> limit\<close> False a r by (auto simp: Let_def split: if_splits)
        with n False show ?thesis by (intro exI [of _ new]) auto
      qed
    qed
  qed
qed

section \<open>Properties\<close>

text \<open>C26: while a chunk is in flight, one pass over the waiting queue admits requests with at most
  \<open>limit\<close> fresh tokens in total, looks at no more than \<open>scan_limit\<close> candidates, and keeps the order of the
  requests that were already admitted; without a chunk in flight it leaves the adapter off.\<close>

theorem bypass_pass_bounded:
  assumes "stock_add_ok orig" and "begin_pass (bypass_active s0) s limit ad = (scan, ad1)"
    and "0 \<le> limit" and "0 \<le> scan_limit" and "ad_rem_chunk ad \<noteq> None"
    and "distinct queue" and "set queue \<inter> set (ad_run ad) = {}"
    and "candidate_loop stop (add orig ceil_paged limit dllm True) scan limit scan_limit 0 ad1 queue = Inr (ad', scanned)"
    and "scan"
  shows "sc_chunked s \<noteq> None \<and> bypass_active s0 \<and> scanned \<le> scan_limit
    \<and> (\<exists>new. ad_run ad' = ad_run ad @ new \<and> set new \<subseteq> set queue \<and> fresh_sum new \<le> limit)"
proof -
  have ad1: "ad_pass ad1" "ad_remaining ad1 = limit" "ad_run ad1 = ad_run ad" "ad_rem_chunk ad1 = ad_rem_chunk ad"
    and on: "sc_chunked s \<noteq> None" "bypass_active s0"
    using assms(2,9) by (auto simp: begin_pass_def Let_def)
  obtain new where "ad_run ad' = ad_run ad1 @ new" "set new \<subseteq> set queue"
    "ad_remaining ad' + fresh_sum new = ad_remaining ad1" "0 \<le> ad_remaining ad'" "scanned \<le> max 0 scan_limit"
    using candidate_loop_bypass [OF assms(1), of stop ceil_paged limit dllm scan_limit 0 ad1 queue ad' scanned]
      assms ad1 by auto
  with ad1 on assms(4) show ?thesis by (intro conjI exI [of _ new]) auto
qed

definition demo_add :: stock_add where
  "demo_add ad req = (ad\<lparr>ad_run := ad_run ad @ [req], ad_rem_chunk := map_option (\<lambda>t. t - fresh_tokens req) (ad_rem_chunk ad)\<rparr>,
     Inr CONTINUE)"

definition demo_req :: "nat \<Rightarrow> breq" where
  "demo_req i = \<lparr>br_id = i, br_fill = 40, br_cached = 10, br_ignore_eos = False\<rparr>"

definition demo_sched :: scheduler where
  "demo_sched = \<lparr>sc_chunked = Some (demo_req 0), sc_dllm = False, sc_delayer_flag = False, sc_delayer = False,
     sc_preemption = False, sc_lora = False, sc_hicache_storage = False, sc_hierarchical = False, sc_unified = False\<rparr>"

definition demo_adder :: adder where
  "demo_adder = \<lparr>ad_rem_chunk = Some 0, ad_pass = False, ad_remaining = 0, ad_candidate = False, ad_run = [demo_req 0]\<rparr>"

theorem bypass_pass_bounded_witness:
  "\<exists>ad' scanned new. candidate_loop (\<lambda>_ _. False) (add demo_add id 50 False True) True 50 8 0
       (snd (begin_pass (bypass_active demo_sched) demo_sched 50 demo_adder)) [demo_req 1, demo_req 2] = Inr (ad', scanned)
     \<and> scanned \<le> 8 \<and> ad_run ad' = [demo_req 0] @ new \<and> fresh_sum new \<le> 50"
proof -
  let ?pass = "begin_pass (bypass_active demo_sched) demo_sched 50 demo_adder"
  have ok: "stock_add_ok demo_add" by (simp add: stock_add_ok_def demo_add_def Let_def)
  have p: "?pass = (True, snd ?pass)"
    by (simp add: begin_pass_def bypass_active_def demo_sched_def Let_def)
  obtain ad' scanned where run: "candidate_loop (\<lambda>_ _. False) (add demo_add id 50 False True) True 50 8 0
      (snd ?pass) [demo_req 1, demo_req 2] = Inr (ad', scanned)"
    by (simp add: begin_pass_def bypass_active_def demo_sched_def demo_adder_def add_def demo_add_def
        fresh_tokens_def demo_req_def Let_def)
  from bypass_pass_bounded [OF ok p _ _ _ _ _ run]
  obtain new where "scanned \<le> 8" "ad_run ad' = ad_run demo_adder @ new" "fresh_sum new \<le> 50"
    by (auto simp: demo_adder_def demo_req_def)
  with run show ?thesis by (intro exI [of _ ad'] exI [of _ scanned] exI [of _ new]) (simp add: demo_adder_def)
qed

text \<open>admitting a bypass request lends it compute budget but charges the engine's budget exactly what the
  engine's own admission charged, whether it admits, refuses or raises, and a candidate that only fits
  as a second chunked request is refused.\<close>

theorem bypass_charges_exactly:
  assumes "stock_add_ok orig" and "ad_rem_chunk ad = Some saved"
    and "ad_pass ad" and "0 \<le> fresh_tokens req" and "fresh_tokens req \<le> limit" and "fresh_tokens req \<le> ad_remaining ad"
    and "\<not> br_ignore_eos req"
    and "orig (ad\<lparr>ad_rem_chunk := Some (max saved (ceil_paged (fresh_tokens req))), ad_candidate := True\<rparr>) req = (ad2, res)"
    and "ad_rem_chunk ad2 = Some (max saved (ceil_paged (fresh_tokens req)) - charge)"
  shows "ad_rem_chunk (fst (add orig ceil_paged limit False True ad req)) = Some (saved - charge)
    \<and> snd (add orig ceil_paged limit False True ad req) = res
    \<and> ad_candidate (fst (add orig ceil_paged limit False True ad req)) = False
    \<and> select (ad\<lparr>ad_candidate := True\<rparr>) (Planned True) = Refused OTHER"
  using assms by (auto simp: add_def Let_def select_def split: sum.splits)

theorem bypass_charges_exactly_witness:
  "ad_rem_chunk (fst (add demo_add id 50 False True (demo_adder\<lparr>ad_pass := True, ad_remaining := 50\<rparr>) (demo_req 1))) = Some (0 - 30)
    \<and> snd (add demo_add id 50 False True (demo_adder\<lparr>ad_pass := True, ad_remaining := 50\<rparr>) (demo_req 1)) = Inr CONTINUE"
proof -
  let ?ad = "demo_adder\<lparr>ad_pass := True, ad_remaining := 50\<rparr>"
  have ok: "stock_add_ok demo_add" by (simp add: stock_add_ok_def demo_add_def Let_def)
  from bypass_charges_exactly [OF ok, of ?ad 0 "demo_req 1" 50 id _ _ 30]
  show ?thesis by (auto simp: demo_adder_def demo_req_def fresh_tokens_def demo_add_def)
qed

end
