(* ===== verification/Replicated_Split.thy ===== *)
theory Replicated_Split
  imports Rank_Split
begin

text \<open>
  The column split of replicated linear layers over the tensor-parallel group
  (\<open>adapter/replicated_split.py\<close>). A layer's weight is the list of its rows, a matrix the list of its
  rows of columns; the layer's own quantized product is the parameter \<open>fwd\<close>, so nothing is assumed of
  its arithmetic: exactness of a slice is what the code checks. Values are bit patterns; \<open>teq\<close> is the equality \<open>torch.equal\<close>
  applies to two of them (it does not tell the two zeros apart, and no NaN equals itself). The RoCE column gather is the parameter \<open>roce\<close>;
  the other collectives of the group are modelled over the list of all ranks' values.
\<close>

section \<open>Configuration\<close>

definition split_spec :: "environ \<Rightarrow> string list" where
  "split_spec env = filter (\<lambda>s. s \<noteq> []) (map py_strip (split_char CHR '','' (env_get env ''DSV41_REPLICATED_SPLIT'' '''')))"

definition window_on :: "environ \<Rightarrow> bool" where
  "window_on env = (py_lower (py_strip (env_get env ''DSV41_REPLICATED_SPLIT_WINDOW'' ''1''))
     \<notin> {''0'', ''off'', ''false'', ''''})"

definition compact_on :: "environ \<Rightarrow> bool" where
  "compact_on env = (py_lower (py_strip (env_get env ''DSV41_SPLIT_COMPACT_GATHER'' ''0''))
     \<in> {''1'', ''on'', ''true'', ''roce'', ''minimal''})"

definition compact_roce_on :: "environ \<Rightarrow> bool" where
  "compact_roce_on env = (py_lower (py_strip (env_get env ''DSV41_SPLIT_COMPACT_GATHER'' ''0''))
     \<in> {''1'', ''on'', ''true'', ''roce''})"

definition tile :: nat where "tile = 128"
definition pack_bytes :: nat where "pack_bytes = 16"

section \<open>Ranges and windows\<close>

definition tile_count :: "nat \<Rightarrow> nat \<Rightarrow> nat \<Rightarrow> nat" where
  "tile_count n world r = (let tiles = n div tile in tiles div world + (if r < tiles mod world then 1 else 0))"

definition split_bound :: "nat \<Rightarrow> nat \<Rightarrow> nat \<Rightarrow> nat" where
  "split_bound n world r = sum_list (map (tile_count n world) [0..<r]) * tile"

definition ranges :: "nat \<Rightarrow> nat \<Rightarrow> (nat \<times> nat) list \<times> nat" where
  "ranges n world =
     (let counts = map (tile_count n world) [0..<world];
          starts = map (\<lambda>r. sum_list (take r counts) * tile) [0..<world]
      in (map (\<lambda>(s, c). (s, s + c * tile)) (zip starts counts), Max (set counts) * tile))"

definition window :: "nat \<Rightarrow> nat \<Rightarrow> nat \<Rightarrow> nat" where
  "window n lo width = min lo (n - width)"

section \<open>Layers and slices\<close>

datatype 'p rparam = ParamRows "'p list" | ParamFlat "'p list" | ParamOther 'p

record ('w, 'p) rlayer =
  rl_weight :: "'w list"
  rl_k :: nat
  rl_params :: "(string \<times> 'p rparam) list"
  rl_out :: nat

type_synonym 'v matrix = "'v list list"

text \<open>\<open>_scale_params\<close> and the slices \<open>_proxy\<close> takes of them: parameters with one row per weight row,
  and flat parameters with one entry per 32 columns, are sliced with the weight; others are kept.\<close>

definition slice_param :: "('w, 'p) rlayer \<Rightarrow> nat \<Rightarrow> nat \<Rightarrow> 'p rparam \<Rightarrow> 'p rparam" where
  "slice_param layer n0 n1 p =
     (let n = length (rl_weight layer); c = rl_k layer div 32 in
      case p of
        ParamRows xs \<Rightarrow> if length xs = n then ParamRows (slice n0 n1 xs) else p
      | ParamFlat xs \<Rightarrow> if length xs = n * c then ParamFlat (slice (n0 * c) (n1 * c) xs) else p
      | ParamOther x \<Rightarrow> p)"

definition proxy :: "('w, 'p) rlayer \<Rightarrow> nat \<Rightarrow> nat \<Rightarrow> ('w, 'p) rlayer" where
  "proxy layer n0 n1 = layer\<lparr>rl_weight := slice n0 n1 (rl_weight layer),
     rl_params := map (\<lambda>(name, p). (name, slice_param layer n0 n1 p)) (rl_params layer), rl_out := n1 - n0\<rparr>"

section \<open>Assembling the gathered parts\<close>

definition padded :: "'v \<Rightarrow> nat \<Rightarrow> 'v matrix \<Rightarrow> 'v matrix" where
  "padded z width local = map (\<lambda>row. row @ replicate (width - length row) z) local"

text \<open>\<open>all_gather\<close> along the last dimension: the ranks' rows side by side.\<close>

definition gather_cols :: "nat \<Rightarrow> 'v matrix list \<Rightarrow> 'v matrix" where
  "gather_cols m parts = map (\<lambda>i. concat (map (\<lambda>p. p ! i) parts)) [0..<m]"

definition assemble :: "'v matrix \<Rightarrow> (nat \<times> nat) list \<Rightarrow> nat \<Rightarrow> nat list \<Rightarrow> 'v matrix" where
  "assemble gathered rs width offs =
     (if list_all (\<lambda>(a, b). b - a = width) rs then gathered
      else map (\<lambda>row. concat (map (\<lambda>(r, (a, b), off). slice (r * width + off) (r * width + off + (b - a)) row)
                    (zip [0..<length rs] (zip rs offs)))) gathered)"

definition compact_layout :: "(nat \<times> nat) list \<Rightarrow> nat list \<times> nat list" where
  "compact_layout rs = (map (\<lambda>(a, b). b - a) rs, map fst rs)"

definition pack_layout :: "(nat \<times> nat) list \<Rightarrow> nat \<Rightarrow> (nat list \<times> nat list \<times> nat) option" where
  "pack_layout rs es =
     (let (widths, dst) = compact_layout rs in
      if list_ex (\<lambda>v. v * es mod pack_bytes \<noteq> 0) (widths @ dst) then None
      else Some (map (\<lambda>w. w * es div pack_bytes) widths, map (\<lambda>d. d * es div pack_bytes) dst,
                 sum_list widths * es div pack_bytes))"

text \<open>The dim-0 gather keeps the ranks' parts apart; one \<open>cat\<close> takes each rank's own columns.\<close>

definition assemble_stacked :: "nat \<Rightarrow> 'v matrix list \<Rightarrow> (nat \<times> nat) list \<Rightarrow> nat list \<Rightarrow> 'v matrix" where
  "assemble_stacked m parts rs offs =
     map (\<lambda>i. concat (map (\<lambda>(p, (a, b), off). slice off (off + (b - a)) (p ! i)) (zip parts (zip rs offs)))) [0..<m]"

datatype gather_kind = Roce | Minimal

section \<open>Deciding\<close>

type_synonym ('w, 'p) split_state = "('w, 'p) rlayer \<times> (nat \<times> nat) list \<times> nat \<times> nat list"

text \<open>\<open>torch.equal\<close> of two matrices.\<close>

definition same_values :: "('v \<Rightarrow> 'v \<Rightarrow> bool) \<Rightarrow> 'v matrix \<Rightarrow> 'v matrix \<Rightarrow> bool" where
  "same_values teq a b = list_all2 (list_all2 teq) a b"

definition slice_exact ::
    "('v \<Rightarrow> 'v \<Rightarrow> bool) \<Rightarrow> (('w, 'p) rlayer \<Rightarrow> 'x \<Rightarrow> 'v matrix) \<Rightarrow> ('w, 'p) rlayer \<Rightarrow> ('w, 'p) rlayer \<Rightarrow> nat \<Rightarrow> nat \<Rightarrow> 'x list \<Rightarrow> bool" where
  "slice_exact teq fwd layer pr w0 w1 inputs =
     list_all (\<lambda>x. list_all (\<lambda>row. length row = w1 - w0) (fwd pr x) \<and> same_values teq (map (slice w0 w1) (fwd layer x)) (fwd pr x)) inputs"

text \<open>\<open>decide\<close>: the rank's window and slice candidates; \<open>fp8\<close> says the weight is e4m3, \<open>rand\<close> are the
  random inputs, the same on every rank.\<close>

definition decide ::
    "('v \<Rightarrow> 'v \<Rightarrow> bool) \<Rightarrow> (('w, 'p) rlayer \<Rightarrow> 'x \<Rightarrow> 'v matrix) \<Rightarrow> bool \<Rightarrow> bool \<Rightarrow> ('w, 'p) rlayer \<Rightarrow> nat \<Rightarrow> nat \<Rightarrow> 'x \<Rightarrow> 'x list
     \<Rightarrow> ('w, 'p) split_state option \<times> ('w, 'p) split_state option" where
  "decide teq fwd windows fp8 layer rank world x_real rand =
     (let n = length (rl_weight layer) in
      if \<not> (n mod tile = 0 \<and> n div tile \<ge> world \<and> fp8) then (None, None)
      else
        (let (rs, width) = ranges n world;
             (n0, n1) = rs ! rank;
             inputs = x_real # rand;
             pr = proxy layer n0 n1;
             sl = (if slice_exact teq fwd layer pr n0 n1 inputs then Some (pr, rs, width, replicate world 0) else None);
             wins = map (\<lambda>(a, b). window n a width) rs;
             w0 = wins ! rank;
             offs = map (\<lambda>((a, b), w). a - w) (zip rs wins);
             win = (if \<not> windows then None
                    else if w0 = n0 \<and> n1 - n0 = width
                    then map_option (\<lambda>(pr, _). (pr, rs, width, offs)) sl
                    else (let wpr = proxy layer w0 (w0 + width) in
                      if slice_exact teq fwd layer wpr w0 (w0 + width) inputs then Some (wpr, rs, width, offs) else None))
         in (win, sl)))"

text \<open>\<open>_build\<close> on all ranks: the candidates are agreed by a minimum over the group; a rank whose
  \<open>decide\<close> raised contributes no candidate.\<close>

definition build ::
    "(('w, 'p) split_state option \<times> ('w, 'p) split_state option) list \<Rightarrow> nat \<Rightarrow> ('w, 'p) split_state option" where
  "build cands rank =
     (if list_all (\<lambda>c. fst c \<noteq> None) cands then fst (cands ! rank)
      else if list_all (\<lambda>c. snd c \<noteq> None) cands then snd (cands ! rank) else None)"

section \<open>The forward\<close>

text \<open>The old gather of all ranks' local outputs.\<close>

definition plain_gather :: "'v \<Rightarrow> nat \<Rightarrow> 'v matrix list \<Rightarrow> (nat \<times> nat) list \<Rightarrow> nat \<Rightarrow> nat list \<Rightarrow> 'v matrix" where
  "plain_gather z m parts rs width offs = assemble (gather_cols m (map (padded z width) parts)) rs width offs"

type_synonym 'v roce_kernel = "nat \<Rightarrow> 'v matrix list \<Rightarrow> (nat \<times> nat) list \<Rightarrow> nat list \<Rightarrow> 'v matrix"

definition run_compact :: "'v roce_kernel \<Rightarrow> 'v \<Rightarrow> gather_kind \<Rightarrow> nat \<Rightarrow> 'v matrix list \<Rightarrow> (nat \<times> nat) list \<Rightarrow> nat \<Rightarrow> nat list \<Rightarrow> 'v matrix" where
  "run_compact roce z kind m parts rs width offs =
     (case kind of
        Roce \<Rightarrow> roce m parts rs offs
      | Minimal \<Rightarrow> assemble_stacked m (map (padded z width) parts) rs offs)"

text \<open>\<open>gather\<close>: the compact variant once its first eager call agreed with the old path on every rank, bit for bit;
  \<open>checked\<close> remembers the verdict per variant and row count. \<open>usable\<close>: every rank can run the variant.\<close>

definition gather ::
    "'v roce_kernel \<Rightarrow> 'v \<Rightarrow> bool \<Rightarrow> gather_kind \<Rightarrow> bool \<Rightarrow> bool \<Rightarrow> nat \<Rightarrow> 'v matrix list \<Rightarrow> (nat \<times> nat) list \<Rightarrow> nat \<Rightarrow> nat list
     \<Rightarrow> (gather_kind \<times> nat \<rightharpoonup> bool) \<Rightarrow> (gather_kind \<times> nat \<rightharpoonup> bool) \<times> 'v matrix" where
  "gather roce z compact kind usable capturing m parts rs width offs checked =
     (let old = plain_gather z m parts rs width offs;
          new = run_compact roce z kind m parts rs width offs in
      if \<not> compact then (checked, old)
      else
        (let checked' = (if checked (kind, m) = None \<and> \<not> capturing
                         then checked((kind, m) \<mapsto> (kind = Roce \<longrightarrow> usable) \<and> new = old) else checked)
         in (checked', if checked' (kind, m) = Some True then new else old)))"

datatype ('w, 'p) layer_split = Undecided | Off | On "('w, 'p) split_state list"

text \<open>What a call sees of its environment: whether a graph is being captured, which compact variant the group would run, and whether every rank can.\<close>

record call_env =
  e_capturing :: bool
  e_kind :: gather_kind
  e_usable :: bool

text \<open>The wrapped \<open>forward\<close> on all ranks, with the layer's split state and its checked gathers. \<open>plain_args\<close>: no further arguments; \<open>m\<close> is the row count of the
  input (\<open>-1\<close> where it is no matrix). \<open>On\<close> holds every rank's state.\<close>

definition split_forward ::
    "('v \<Rightarrow> 'v \<Rightarrow> bool) \<Rightarrow> 'v roce_kernel \<Rightarrow> (('w, 'p) rlayer \<Rightarrow> 'x \<Rightarrow> 'v matrix) \<Rightarrow> 'v \<Rightarrow> bool \<Rightarrow> bool \<Rightarrow> bool \<Rightarrow> nat \<Rightarrow> int \<Rightarrow> 'x list \<Rightarrow> bool
     \<Rightarrow> ('w, 'p) rlayer \<Rightarrow> int \<Rightarrow> call_env \<Rightarrow> 'x \<Rightarrow> ('w, 'p) layer_split \<Rightarrow> (gather_kind \<times> nat \<rightharpoonup> bool)
     \<Rightarrow> (('w, 'p) layer_split \<times> (gather_kind \<times> nat \<rightharpoonup> bool)) \<times> 'v matrix" where
  "split_forward teq roce fwd z windows compact fp8 world max_m rand plain_args layer m e x st checked =
     (if st = Off \<or> \<not> plain_args \<or> m \<le> 0 \<or> m > max_m \<or> world = 1 then ((st, checked), fwd layer x)
      else
        (let st' = (if st = Undecided \<and> \<not> e_capturing e
                    then (let cands = map (\<lambda>r. decide teq fwd windows fp8 layer r world x rand) [0..<world] in
                      if build cands 0 = None then Off else On (map (\<lambda>r. the (build cands r)) [0..<world]))
                    else st)
         in case st' of
              On states \<Rightarrow>
                (let (_, rs, width, offs) = states ! 0;
                     (checked', y) = gather roce z compact (e_kind e) (e_usable e) (e_capturing e) (nat m) (map (\<lambda>(pr, _). fwd pr x) states) rs width offs checked
                 in ((st', checked'), y))
            | _ \<Rightarrow> ((st', checked), fwd layer x)))"

section \<open>The ranges partition the columns\<close>

lemma sum_tile_count:
  "sum_list (map (tile_count n w) [0..<r]) = r * (n div tile div w) + min r (n div tile mod w)"
  by (induction r) (auto simp: tile_count_def Let_def min_def)

lemma split_bound_Suc: "split_bound n w (Suc r) = split_bound n w r + tile_count n w r * tile"
  by (simp add: split_bound_def distrib_right)

interpretation tiles: rank_split "\<lambda>n w. 0 < w \<and> n mod tile = 0" split_bound
proof
  fix n w :: nat
  assume ok: "0 < w \<and> n mod tile = 0"
  show "split_bound n w 0 = 0" by (simp add: split_bound_def)
  have "n div tile mod w < w" using ok by simp
  then have "sum_list (map (tile_count n w) [0..<w]) = n div tile"
    unfolding sum_tile_count using ok by (simp add: min_absorb2 less_imp_le)
  moreover have "n div tile * tile = n" using ok by auto
  ultimately show "split_bound n w w = n" by (simp add: split_bound_def)
  show "split_bound n w r \<le> split_bound n w (Suc r)" for r by (simp add: split_bound_Suc)
qed

definition split_width :: "nat \<Rightarrow> nat \<Rightarrow> nat" where
  "split_width n w = Max (set (map (tile_count n w) [0..<w])) * tile"

lemma ranges_bounds:
  "ranges n w = (map (\<lambda>r. (split_bound n w r, split_bound n w (Suc r))) [0..<w], split_width n w)"
proof -
  have "sum_list (take r (map (tile_count n w) [0..<w])) * tile = split_bound n w r" if "r < w" for r
    using that by (simp add: split_bound_def take_map)
  then have "map (\<lambda>(s, c). (s, s + c * tile)) (zip (map (\<lambda>r. sum_list (take r (map (tile_count n w) [0..<w])) * tile) [0..<w])
      (map (tile_count n w) [0..<w])) = map (\<lambda>r. (split_bound n w r, split_bound n w (Suc r))) [0..<w]"
    by (intro nth_equalityI) (simp_all add: split_bound_Suc)
  then show ?thesis by (simp add: ranges_def Let_def split_width_def)
qed

lemma part_le_width: "r < w \<Longrightarrow> split_bound n w (Suc r) - split_bound n w r \<le> split_width n w"
  by (simp add: split_bound_Suc split_width_def)

lemma window_covers:
  assumes "0 < w \<and> n mod tile = 0" and "r < w"
  defines "a \<equiv> split_bound n w r" and "b \<equiv> split_bound n w (Suc r)" and "width \<equiv> split_width n w"
  shows "window n a width \<le> a" and "a - window n a width + (b - a) \<le> width" and "window n a width + width \<le> n"
    and "b \<le> n" and "a \<le> b"
proof -
  show b: "b \<le> n" unfolding b_def using assms(1,2) by (intro tiles.bound_le) auto
  show ab: "a \<le> b" unfolding a_def b_def using assms(1,2) by (intro tiles.bound_step) auto
  have wd: "b - a \<le> width" unfolding a_def b_def width_def using assms(2) by (rule part_le_width)
  have "width \<le> n"
  proof -
    have "finite (set (map (tile_count n w) [0..<w]))" "set (map (tile_count n w) [0..<w]) \<noteq> {}" using assms(1) by auto
    from Max_in [OF this] obtain q where q: "q < w" "Max (set (map (tile_count n w) [0..<w])) = tile_count n w q" by auto
    have "tile_count n w q * tile \<le> split_bound n w (Suc q)" by (simp add: split_bound_Suc)
    also have "\<dots> \<le> n" using q assms(1) by (intro tiles.bound_le) auto
    finally show ?thesis using q by (simp add: width_def split_width_def)
  qed
  then show "window n a width + width \<le> n" by (simp add: window_def)
  show "window n a width \<le> a" by (simp add: window_def)
  show "a - window n a width + (b - a) \<le> width"
    using b ab wd \<open>width \<le> n\<close> by (cases "a \<le> n - width") (auto simp: window_def min_def)
qed

section \<open>Assembling is the stock output\<close>

text \<open>The parts hold each rank's own columns of \<open>full\<close> at its offset.\<close>

definition parts_exact ::
    "nat \<Rightarrow> nat \<Rightarrow> 'v matrix \<Rightarrow> 'v matrix list \<Rightarrow> nat \<Rightarrow> nat list \<Rightarrow> bool" where
  "parts_exact n w full parts width offs \<longleftrightarrow> length parts = w \<and> length offs = w
     \<and> (\<forall>r < w. \<forall>i < length full. length (parts ! r ! i) \<le> width
          \<and> offs ! r + (split_bound n w (Suc r) - split_bound n w r) \<le> length (parts ! r ! i)
          \<and> slice (offs ! r) (offs ! r + (split_bound n w (Suc r) - split_bound n w r)) (parts ! r ! i)
              = slice (split_bound n w r) (split_bound n w (Suc r)) (full ! i))
     \<and> (\<forall>r < w. length (parts ! r) = length full)"

lemma slice_append_left: "hi \<le> length xs \<Longrightarrow> slice lo hi (xs @ ys) = slice lo hi xs"
  by (simp add: slice_def)

lemma padded_row:
  assumes "i < length p" and "length (p ! i) \<le> width"
  shows "length (padded z width p ! i) = width"
    and "hi \<le> length (p ! i) \<Longrightarrow> slice lo hi (padded z width p ! i) = slice lo hi (p ! i)"
    and "length (p ! i) = width \<Longrightarrow> padded z width p ! i = p ! i"
  using assms by (simp_all add: padded_def slice_append_left)

lemma slice_of_concat:
  assumes "\<And>p. p \<in> set ps \<Longrightarrow> length p = width" and "r < length ps" and "hi \<le> width"
  shows "slice (r * width + lo) (r * width + hi) (concat ps) = slice lo hi (ps ! r)"
proof -
  have ps: "concat ps = concat (map ((!) ps) [0..<length ps])" by (simp add: map_nth)
  have "slice (r * width) (Suc r * width) (concat ps) = ps ! r"
    unfolding ps using assms(1,2) by (intro slice_concat_uniform) simp_all
  then have "slice lo hi (ps ! r) = slice lo hi (slice (r * width) (Suc r * width) (concat ps))" by simp
  also have "\<dots> = slice (r * width + lo) (r * width + hi) (concat ps)"
    using assms(3) by (subst slice_slice) simp_all
  finally show ?thesis by simp
qed

lemma zip3_map:
  "length xs = w \<Longrightarrow> length ys = w \<Longrightarrow>
    map (\<lambda>(x, (a, b), y). f x a b y) (zip xs (zip (map (\<lambda>r. (A r, B r)) [0..<w]) ys))
    = map (\<lambda>r. f (xs ! r) (A r) (B r) (ys ! r)) [0..<w]"
  by (intro nth_equalityI) simp_all

lemma own_columns:
  assumes ok: "0 < w \<and> n mod tile = 0" and cols: "\<forall>row \<in> set full. length row = n"
    and exact: "parts_exact n w full parts width offs" and i: "i < length full"
  shows "concat (map (\<lambda>r. slice (offs ! r) (offs ! r + (split_bound n w (Suc r) - split_bound n w r)) (parts ! r ! i)) [0..<w])
    = full ! i"
proof -
  have "map (\<lambda>r. slice (offs ! r) (offs ! r + (split_bound n w (Suc r) - split_bound n w r)) (parts ! r ! i)) [0..<w]
      = map (\<lambda>r. slice (split_bound n w r) (split_bound n w (Suc r)) (full ! i)) [0..<w]"
    using exact i by (auto simp: parts_exact_def)
  moreover have "length (full ! i) = n" using cols i by simp
  ultimately show ?thesis using tiles.gather_parts [OF ok, of "full ! i"] by (simp only:)
qed

lemma assemble_stacked_exact:
  assumes "0 < w \<and> n mod tile = 0" and "\<forall>row \<in> set full. length row = n" and exact: "parts_exact n w full parts width offs"
  shows "assemble_stacked (length full) parts (map (\<lambda>r. (split_bound n w r, split_bound n w (Suc r))) [0..<w]) offs = full"
proof (rule nth_equalityI)
  fix i assume "i < length (assemble_stacked (length full) parts (map (\<lambda>r. (split_bound n w r, split_bound n w (Suc r))) [0..<w]) offs)"
  then have i: "i < length full" by (simp add: assemble_stacked_def)
  have "length parts = w" "length offs = w" using exact by (simp_all add: parts_exact_def)
  then show "assemble_stacked (length full) parts (map (\<lambda>r. (split_bound n w r, split_bound n w (Suc r))) [0..<w]) offs ! i = full ! i"
    using own_columns [OF assms i] i by (simp add: assemble_stacked_def zip3_map)
qed (simp add: assemble_stacked_def)

lemma parts_exact_padded:
  assumes "parts_exact n w full parts width offs"
  shows "parts_exact n w full (map (padded z width) parts) width offs"
  using assms by (simp add: parts_exact_def padded_row, simp add: padded_def) (meson le_trans)

lemma plain_gather_exact:
  assumes ok: "0 < w \<and> n mod tile = 0" and cols: "\<forall>row \<in> set full. length row = n"
    and exact: "parts_exact n w full parts width offs"
  shows "plain_gather z (length full) parts (map (\<lambda>r. (split_bound n w r, split_bound n w (Suc r))) [0..<w]) width offs = full"
proof -
  define rs where "rs = map (\<lambda>r. (split_bound n w r, split_bound n w (Suc r))) [0..<w]"
  have len: "length parts = w" "length offs = w" "\<And>r. r < w \<Longrightarrow> length (parts ! r) = length full"
    using exact by (simp_all add: parts_exact_def)
  have ex: "length (parts ! r ! i) \<le> width"
    "offs ! r + (split_bound n w (Suc r) - split_bound n w r) \<le> length (parts ! r ! i)"
    if "r < w" "i < length full" for r i
    using exact that by (simp_all add: parts_exact_def)
  define row where "row i = concat (map (\<lambda>r. padded z width (parts ! r) ! i) [0..<w])" for i
  have gathered: "gather_cols (length full) (map (padded z width) parts) = map row [0..<length full]"
  proof -
    have "map (\<lambda>p. p ! i) (map (padded z width) parts) = map (\<lambda>r. padded z width (parts ! r) ! i) [0..<w]" for i
      by (rule nth_equalityI) (simp_all add: len)
    then show ?thesis by (auto simp only: gather_cols_def row_def intro!: map_cong)
  qed
  have cut: "slice (r * width + offs ! r) (r * width + (offs ! r + (split_bound n w (Suc r) - split_bound n w r))) (row i)
      = slice (offs ! r) (offs ! r + (split_bound n w (Suc r) - split_bound n w r)) (parts ! r ! i)"
    if "r < w" "i < length full" for r i
  proof -
    have "slice (r * width + offs ! r) (r * width + (offs ! r + (split_bound n w (Suc r) - split_bound n w r))) (row i)
        = slice (offs ! r) (offs ! r + (split_bound n w (Suc r) - split_bound n w r)) (map (\<lambda>r. padded z width (parts ! r) ! i) [0..<w] ! r)"
      unfolding row_def using that len ex le_trans [OF ex(2) [OF that] ex(1) [OF that]]
      by (intro slice_of_concat) (auto simp: padded_row)
    then show ?thesis using that len ex by (simp add: padded_row)
  qed
  show ?thesis
  proof (cases "list_all (\<lambda>(a, b). b - a = width) rs")
    case True
    then have eq: "split_bound n w (Suc r) - split_bound n w r = width" if "r < w" for r
      using that by (auto simp: rs_def list_all_iff)
    have "row i = full ! i" if i: "i < length full" for i
    proof -
      have pr: "padded z width (parts ! r) ! i
          = slice (offs ! r) (offs ! r + (split_bound n w (Suc r) - split_bound n w r)) (parts ! r ! i)" if r: "r < w" for r
      proof -
        have o: "offs ! r = 0" and l: "length (parts ! r ! i) = width" using eq [OF r] ex [OF r i] by linarith+
        have "padded z width (parts ! r) ! i = parts ! r ! i"
          using len(3) [OF r] i l by (intro padded_row(3)) simp_all
        also have "\<dots> = slice 0 (0 + width) (parts ! r ! i)" using l by (simp add: slice_all)
        finally show ?thesis by (simp only: o eq [OF r])
      qed
      have "row i = concat (map (\<lambda>r. slice (offs ! r) (offs ! r + (split_bound n w (Suc r) - split_bound n w r)) (parts ! r ! i)) [0..<w])"
        unfolding row_def by (rule arg_cong [where f = concat], rule map_cong [OF refl], rule pr) simp
      then show ?thesis using own_columns [OF ok cols exact i] by simp
    qed
    then have "map row [0..<length full] = full" by (intro nth_equalityI) simp_all
    with True show ?thesis by (simp add: plain_gather_def assemble_def gathered flip: rs_def)
  next
    case False
    have "map (\<lambda>row. concat (map (\<lambda>(r, (a, b), off). slice (r * width + off) (r * width + off + (b - a)) row)
        (zip [0..<length rs] (zip rs offs)))) (map row [0..<length full]) = full"
    proof (rule nth_equalityI)
      fix i assume "i < length (map (\<lambda>row. concat (map (\<lambda>(r, (a, b), off). slice (r * width + off) (r * width + off + (b - a)) row)
        (zip [0..<length rs] (zip rs offs)))) (map row [0..<length full]))"
      then have i: "i < length full" by simp
      have "map (\<lambda>r. slice (r * width + offs ! r) (r * width + (offs ! r + (split_bound n w (Suc r) - split_bound n w r))) (row i)) [0..<w]
          = map (\<lambda>r. slice (offs ! r) (offs ! r + (split_bound n w (Suc r) - split_bound n w r)) (parts ! r ! i)) [0..<w]"
        using cut i by simp
      moreover have "map (\<lambda>(r, (a, b), off). slice (r * width + off) (r * width + off + (b - a)) (row i)) (zip [0..<length rs] (zip rs offs))
          = map (\<lambda>r. slice (r * width + offs ! r) (r * width + (offs ! r + (split_bound n w (Suc r) - split_bound n w r))) (row i)) [0..<w]"
        by (rule nth_equalityI) (simp_all add: rs_def len add.assoc)
      ultimately show "map (\<lambda>row. concat (map (\<lambda>(r, (a, b), off). slice (r * width + off) (r * width + off + (b - a)) row)
        (zip [0..<length rs] (zip rs offs)))) (map row [0..<length full]) ! i = full ! i"
        using own_columns [OF ok cols exact i] i by (simp only: length_map length_upt diff_zero nth_map nth_upt add_0)
    qed simp
    with False show ?thesis by (simp add: plain_gather_def assemble_def gathered flip: rs_def)
  qed
qed

section \<open>The decided state\<close>

definition is_state :: "('w, 'p) rlayer \<Rightarrow> nat \<Rightarrow> bool \<Rightarrow> nat \<Rightarrow> ('w, 'p) split_state \<Rightarrow> bool" where
  "is_state layer w win r st \<longleftrightarrow>
     (let n = length (rl_weight layer); a = split_bound n w r; b = split_bound n w (Suc r); width = split_width n w;
          v = window n a width in
      st = (if win then proxy layer v (v + width) else proxy layer a b, fst (ranges n w), width,
            if win then map (\<lambda>r. split_bound n w r - window n (split_bound n w r) width) [0..<w] else replicate w 0))"

text \<open>The columns rank \<open>r\<close> computes.\<close>

definition state_cols :: "nat \<Rightarrow> nat \<Rightarrow> bool \<Rightarrow> nat \<Rightarrow> nat \<times> nat" where
  "state_cols n w win r =
     (let a = split_bound n w r; v = window n a (split_width n w) in
      if win then (v, v + split_width n w) else (a, split_bound n w (Suc r)))"

lemma decide_states:
  assumes dec: "decide teq fwd windows fp8 layer r w x rand = (win, sl)" and r: "r < w"
  defines "n \<equiv> length (rl_weight layer)"
  shows "win = Some st \<Longrightarrow> n mod tile = 0 \<and> is_state layer w True r st
      \<and> same_values teq (map (slice (fst (state_cols n w True r)) (snd (state_cols n w True r))) (fwd layer x)) (fwd (fst st) x)"
    and "sl = Some st \<Longrightarrow> n mod tile = 0 \<and> is_state layer w False r st
      \<and> same_values teq (map (slice (fst (state_cols n w False r)) (snd (state_cols n w False r))) (fwd layer x)) (fwd (fst st) x)"
proof -
  define a b width where "a = split_bound n w r" and "b = split_bound n w (Suc r)" and "width = split_width n w"
  define rs where "rs = map (\<lambda>r. (split_bound n w r, split_bound n w (Suc r))) [0..<w]"
  define v where "v = window n a width"
  have ab: "a \<le> b" by (simp add: a_def b_def split_bound_Suc)
  have rn: "ranges n w = (rs, width)" by (simp add: ranges_bounds rs_def width_def)
  have rsr: "rs ! r = (a, b)" using r by (simp add: rs_def a_def b_def)
  have wr: "map (\<lambda>(a, b). window n a width) rs ! r = v" using r by (simp add: rs_def v_def a_def)
  have offs: "map (\<lambda>((a, b), w). a - w) (zip rs (map (\<lambda>(a, b). window n a width) rs))
      = map (\<lambda>r. split_bound n w r - window n (split_bound n w r) width) [0..<w]"
    by (rule nth_equalityI) (simp_all add: rs_def)
  note unf = decide_def [of teq fwd windows fp8 layer r w x rand, folded n_def, unfolded rn Let_def prod.case rsr wr offs]
  show "win = Some st \<Longrightarrow> n mod tile = 0 \<and> is_state layer w True r st
      \<and> same_values teq (map (slice (fst (state_cols n w True r)) (snd (state_cols n w True r))) (fwd layer x)) (fwd (fst st) x)"
    using dec ab unfolding unf
    by (auto simp: is_state_def state_cols_def slice_exact_def rn Let_def
        simp flip: n_def a_def b_def width_def v_def split: if_splits)
  show "sl = Some st \<Longrightarrow> n mod tile = 0 \<and> is_state layer w False r st
      \<and> same_values teq (map (slice (fst (state_cols n w False r)) (snd (state_cols n w False r))) (fwd layer x)) (fwd (fst st) x)"
    using dec ab unfolding unf
    by (auto simp: is_state_def state_cols_def slice_exact_def rn Let_def
        simp flip: n_def a_def b_def width_def v_def split: if_splits)
qed

text \<open>The own columns of the ranks' parts, side by side.\<close>

definition own_matrix :: "nat \<Rightarrow> nat \<Rightarrow> nat \<Rightarrow> 'v matrix list \<Rightarrow> nat list \<Rightarrow> 'v matrix" where
  "own_matrix n w m parts offs =
     map (\<lambda>i. concat (map (\<lambda>r. slice (offs ! r) (offs ! r + (split_bound n w (Suc r) - split_bound n w r)) (parts ! r ! i)) [0..<w])) [0..<m]"

lemma concat_pieces:
  assumes "\<And>q. q < w \<Longrightarrow> length (f q) = split_bound n w (Suc q) - split_bound n w q"
  shows "k \<le> w \<Longrightarrow> length (concat (map f [0..<k])) = split_bound n w k"
    and "r < w \<Longrightarrow> slice (split_bound n w r) (split_bound n w (Suc r)) (concat (map f [0..<w])) = f r"
proof -
  have step: "split_bound n w q \<le> split_bound n w (Suc q)" for q by (simp add: split_bound_Suc)
  show len: "length (concat (map f [0..<k])) = split_bound n w k" if "k \<le> w" for k
    using that
  proof (induction k)
    case 0
    then show ?case by (simp add: split_bound_def)
  next
    case (Suc k)
    then show ?case using assms [of k] step [of k] by simp
  qed
  assume r: "r < w"
  then have "[0..<w] = [0..<r] @ r # [Suc r..<w]"
    using upt_add_eq_append [of 0 r "w - r"] upt_conv_Cons [of r w] by simp
  then have "concat (map f [0..<w]) = concat (map f [0..<r]) @ f r @ concat (map f [Suc r..<w])" by simp
  moreover have "length (concat (map f [0..<r])) = split_bound n w r" using len [of r] r by simp
  ultimately show "slice (split_bound n w r) (split_bound n w (Suc r)) (concat (map f [0..<w])) = f r"
    using assms [OF r] step [of r] by (simp add: slice_def)
qed

lemma list_all2_slice: "list_all2 P xs ys \<Longrightarrow> list_all2 P (slice lo hi xs) (slice lo hi ys)"
  unfolding slice_def by (intro list_all2_takeI list_all2_dropI)

text \<open>Parts that match the stock columns up to \<open>teq\<close>: their own columns make a matrix that matches the stock output.\<close>

lemma state_parts_match:
  assumes ok: "0 < w \<and> n mod tile = 0" and cols: "\<forall>row \<in> set full. length row = n"
    and parts: "length parts = w" "\<And>r. r < w \<Longrightarrow> same_values R (map (slice (fst (state_cols n w win r)) (snd (state_cols n w win r))) full) (parts ! r)"
    and offs: "offs = (if win then map (\<lambda>r. split_bound n w r - window n (split_bound n w r) (split_width n w)) [0..<w]
      else replicate w 0)"
  defines "y \<equiv> own_matrix n w (length full) parts offs"
  shows "parts_exact n w y parts (split_width n w) offs" and "same_values R full y" and "\<forall>row \<in> set y. length row = n"
proof -
  let ?f = "\<lambda>i r. slice (offs ! r) (offs ! r + (split_bound n w (Suc r) - split_bound n w r)) (parts ! r ! i)"
  have rows: "length (parts ! r) = length full" if "r < w" for r
    using list_all2_lengthD [OF parts(2) [OF that, unfolded same_values_def]] by simp
  have rel: "list_all2 R (slice (fst (state_cols n w win r)) (snd (state_cols n w win r)) (full ! i)) (parts ! r ! i)"
    if "r < w" "i < length full" for r i
    using list_all2_nthD [OF parts(2) [OF that(1), unfolded same_values_def], of i] that by simp
  have len: "length (parts ! r ! i) = snd (state_cols n w win r) - fst (state_cols n w win r)"
    "offs ! r + (split_bound n w (Suc r) - split_bound n w r) \<le> length (parts ! r ! i)" "length (parts ! r ! i) \<le> split_width n w"
    "list_all2 R (slice (split_bound n w r) (split_bound n w (Suc r)) (full ! i)) (?f i r)"
    if r: "r < w" and i: "i < length full" for r i
  proof -
    note wc = window_covers [OF ok r]
    have row: "length (full ! i) = n" using cols i by simp
    show len: "length (parts ! r ! i) = snd (state_cols n w win r) - fst (state_cols n w win r)"
      using list_all2_lengthD [OF rel [OF r i]] row wc by (auto simp: state_cols_def Let_def)
    show "offs ! r + (split_bound n w (Suc r) - split_bound n w r) \<le> length (parts ! r ! i)"
      using len wc r offs by (auto simp: state_cols_def Let_def)
    show "length (parts ! r ! i) \<le> split_width n w"
      using len part_le_width [OF r, of n] by (auto simp: state_cols_def Let_def)
    have "slice (offs ! r) (offs ! r + (split_bound n w (Suc r) - split_bound n w r))
        (slice (fst (state_cols n w win r)) (snd (state_cols n w win r)) (full ! i)) = slice (split_bound n w r) (split_bound n w (Suc r)) (full ! i)"
      using wc r offs by (auto simp: state_cols_def Let_def slice_slice)
    then show "list_all2 R (slice (split_bound n w r) (split_bound n w (Suc r)) (full ! i)) (?f i r)"
      using list_all2_slice [OF rel [OF r i]] by metis
  qed
  have piece: "length (?f i r) = split_bound n w (Suc r) - split_bound n w r" if "r < w" "i < length full" for r i
    using len(2) [OF that] by simp
  have yi: "y ! i = concat (map (?f i) [0..<w])" if "i < length full" for i
    using that by (simp add: y_def own_matrix_def)
  have ylen: "length y = length full" by (simp add: y_def own_matrix_def)
  show "parts_exact n w y parts (split_width n w) offs"
    unfolding parts_exact_def
  proof (intro conjI allI impI)
    fix r i assume r: "r < w" and "i < length y"
    then have i: "i < length full" by (simp add: ylen)
    show "length (parts ! r ! i) \<le> split_width n w" "offs ! r + (split_bound n w (Suc r) - split_bound n w r) \<le> length (parts ! r ! i)"
      using len [OF r i] by simp_all
    show "?f i r = slice (split_bound n w r) (split_bound n w (Suc r)) (y ! i)"
      unfolding yi [OF i] using concat_pieces(2) [of w "?f i" n r] piece i r by simp
  qed (use parts(1) offs rows ylen in auto)
  have "list_all2 R (full ! i) (y ! i)" if i: "i < length full" for i
  proof -
    have "length (full ! i) = n" using cols i by simp
    then have "full ! i = concat (map (\<lambda>r. slice (split_bound n w r) (split_bound n w (Suc r)) (full ! i)) [0..<w])"
      using tiles.gather_parts [OF ok, of "full ! i"] by simp
    moreover have "list_all2 (list_all2 R) (map (\<lambda>r. slice (split_bound n w r) (split_bound n w (Suc r)) (full ! i)) [0..<w]) (map (?f i) [0..<w])"
    proof (rule list_all2_all_nthI)
      fix r assume "r < length (map (\<lambda>r. slice (split_bound n w r) (split_bound n w (Suc r)) (full ! i)) [0..<w])"
      then have r: "r < w" by simp
      show "list_all2 R (map (\<lambda>r. slice (split_bound n w r) (split_bound n w (Suc r)) (full ! i)) [0..<w] ! r) (map (?f i) [0..<w] ! r)"
        using len(4) [OF r i] r by (simp only: nth_map length_upt nth_upt minus_nat.diff_0 add_0)
    qed simp
    then have "list_all2 R (concat (map (\<lambda>r. slice (split_bound n w r) (split_bound n w (Suc r)) (full ! i)) [0..<w])) (concat (map (?f i) [0..<w]))"
      by (rule rel_funD [OF concat_transfer])
    ultimately show ?thesis by (simp only: yi [OF i])
  qed
  then show "same_values R full y" by (simp add: same_values_def list_all2_conv_all_nth ylen)
  have "length (y ! i) = n" if i: "i < length full" for i
    using concat_pieces(1) [of w "?f i" n w] piece i tiles.bound_last ok unfolding yi [OF i] by simp
  then show "\<forall>row \<in> set y. length row = n" by (metis in_set_conv_nth ylen)
qed

text \<open>The state of all ranks after a decision in favour of the split.\<close>

definition split_on :: "('w, 'p) rlayer \<Rightarrow> nat \<Rightarrow> bool \<Rightarrow> ('w, 'p) split_state list \<Rightarrow> bool" where
  "split_on layer w win states \<longleftrightarrow> 0 < w \<and> length (rl_weight layer) mod tile = 0 \<and> length states = w
     \<and> (\<forall>r < w. is_state layer w win r (states ! r))"

text \<open>Every rank's product on \<open>x\<close> is its columns of the stock product, value by value.\<close>

definition columns_match :: "('v \<Rightarrow> 'v \<Rightarrow> bool) \<Rightarrow> (('w, 'p) rlayer \<Rightarrow> 'x \<Rightarrow> 'v matrix) \<Rightarrow> ('w, 'p) rlayer \<Rightarrow> nat \<Rightarrow> bool \<Rightarrow> ('w, 'p) split_state list \<Rightarrow> 'x \<Rightarrow> bool" where
  "columns_match R fwd layer w win states x \<longleftrightarrow> (\<forall>r < w. same_values R
     (map (slice (fst (state_cols (length (rl_weight layer)) w win r)) (snd (state_cols (length (rl_weight layer)) w win r))) (fwd layer x))
     (fwd (fst (states ! r)) x))"

lemma build_states:
  assumes "build (map (\<lambda>r. decide teq fwd windows fp8 layer r w x rand) [0..<w]) 0 \<noteq> None" and "0 < w"
  shows "\<exists>win. split_on layer w win (map (\<lambda>r. the (build (map (\<lambda>r. decide teq fwd windows fp8 layer r w x rand) [0..<w]) r)) [0..<w])
    \<and> columns_match teq fwd layer w win (map (\<lambda>r. the (build (map (\<lambda>r. decide teq fwd windows fp8 layer r w x rand) [0..<w]) r)) [0..<w]) x"
proof -
  let ?cands = "map (\<lambda>r. decide teq fwd windows fp8 layer r w x rand) [0..<w]"
  let ?n = "length (rl_weight layer)"
  define good where "good win r st \<longleftrightarrow> ?n mod tile = 0 \<and> is_state layer w win r st
      \<and> same_values teq (map (slice (fst (state_cols ?n w win r)) (snd (state_cols ?n w win r))) (fwd layer x)) (fwd (fst st) x)" for win r st
  have pick: "good True r st" if "fst (?cands ! r) = Some st" "r < w" for r st
    using decide_states(1) [of teq fwd windows fp8 layer r w x rand "fst (?cands ! r)" "snd (?cands ! r)" st] that
    by (simp add: good_def)
  have pick': "good False r st" if "snd (?cands ! r) = Some st" "r < w" for r st
    using decide_states(2) [of teq fwd windows fp8 layer r w x rand "fst (?cands ! r)" "snd (?cands ! r)" st] that
    by (simp add: good_def)
  consider (win) "list_all (\<lambda>c. fst c \<noteq> None) ?cands" | (sl) "\<not> list_all (\<lambda>c. fst c \<noteq> None) ?cands" "list_all (\<lambda>c. snd c \<noteq> None) ?cands"
  proof -
    have "list_all (\<lambda>c. fst c \<noteq> None) ?cands \<or> list_all (\<lambda>c. snd c \<noteq> None) ?cands"
    proof (rule ccontr)
      assume "\<not> ?thesis"
      then have "build ?cands 0 = None" by (simp only: build_def de_Morgan_disj if_False simp_thms)
      with assms(1) show False by contradiction
    qed
    then show thesis using that by blast
  qed
  then have "\<exists>win. \<forall>r < w. good win r (the (build ?cands r))"
  proof cases
    case win
    have "good True r (the (build ?cands r))" if r: "r < w" for r
    proof -
      obtain st where "fst (?cands ! r) = Some st" using win r by (fastforce simp: list_all_length)
      then show ?thesis using pick r win by (simp add: build_def)
    qed
    then show ?thesis by blast
  next
    case sl
    have "good False r (the (build ?cands r))" if r: "r < w" for r
    proof -
      obtain st where st: "snd (?cands ! r) = Some st" using sl(2) r by (fastforce simp: list_all_length)
      have "build ?cands r = snd (?cands ! r)" using sl unfolding build_def by (simp only: if_True if_False)
      then show ?thesis using pick' [OF st r] st by simp
    qed
    then show ?thesis by blast
  qed
  then show ?thesis using assms(2) by (fastforce simp: split_on_def columns_match_def good_def)
qed

lemma split_on_parts:
  assumes "split_on layer w win states" and "columns_match R fwd layer w win states x"
    and "\<forall>row \<in> set (fwd layer x). length row = length (rl_weight layer)"
    and "states ! 0 = (pr, rs, width, offs)"
  defines "n \<equiv> length (rl_weight layer)" and "parts \<equiv> map (\<lambda>(pr, _). fwd pr x) states"
  shows "\<exists>y. parts_exact n w y parts width offs \<and> same_values R (fwd layer x) y \<and> (\<forall>row \<in> set y. length row = n)"
    and "rs = map (\<lambda>r. (split_bound n w r, split_bound n w (Suc r))) [0..<w]" and "0 < w \<and> n mod tile = 0"
proof -
  have w: "0 < w" "length states = w" "n mod tile = 0" using assms(1) by (auto simp: split_on_def n_def)
  then show "0 < w \<and> n mod tile = 0" by simp
  have "is_state layer w win 0 (states ! 0)" using assms(1) w by (simp add: split_on_def)
  then have st: "rs = fst (ranges n w)" "width = split_width n w"
    "offs = (if win then map (\<lambda>r. split_bound n w r - window n (split_bound n w r) (split_width n w)) [0..<w] else replicate w 0)"
    using assms(4) by (auto simp: is_state_def Let_def n_def)
  show "rs = map (\<lambda>r. (split_bound n w r, split_bound n w (Suc r))) [0..<w]"
    by (simp add: st(1) ranges_bounds)
  have len: "length parts = w" by (simp add: parts_def w)
  have match: "same_values R (map (slice (fst (state_cols n w win r)) (snd (state_cols n w win r))) (fwd layer x)) (parts ! r)" if "r < w" for r
    using assms(2) that w by (simp add: columns_match_def n_def parts_def case_prod_beta)
  have rows: "\<forall>row \<in> set (fwd layer x). length row = n" using assms(3) by (simp add: n_def)
  from state_parts_match [OF _ rows len match st(3)] w
  show "\<exists>y. parts_exact n w y parts width offs \<and> same_values R (fwd layer x) y \<and> (\<forall>row \<in> set y. length row = n)"
    unfolding st(2) by blast
qed

text \<open>Every gather of such parts gives that matrix: the old one, the compact one that ran its check on this call, and one
  that is checked, if the RoCE kernel does on these parts what it did on those it was checked on.\<close>

lemma gather_of_parts:
  assumes ok: "0 < w \<and> n mod tile = 0" and cols: "\<forall>row \<in> set y. length row = n" and exact: "parts_exact n w y parts width offs"
    and rs: "rs = map (\<lambda>r. (split_bound n w r, split_bound n w (Suc r))) [0..<w]"
    and kernel_ok: "checked (Roce, length y) = Some True \<Longrightarrow> roce (length y) parts rs offs = assemble_stacked (length y) parts rs offs"
  shows "snd (gather roce z compact kind usable capturing (length y) parts rs width offs checked) = y"
proof -
  have old: "plain_gather z (length y) parts rs width offs = y" unfolding rs by (rule plain_gather_exact [OF ok cols exact])
  have stacked: "assemble_stacked (length y) parts rs offs = y" "assemble_stacked (length y) (map (padded z width) parts) rs offs = y"
    unfolding rs by (rule assemble_stacked_exact [OF ok cols exact], rule assemble_stacked_exact [OF ok cols parts_exact_padded [OF exact]])
  show ?thesis
    using kernel_ok by (cases kind) (auto simp: gather_def Let_def old stacked run_compact_def)
qed

section \<open>Properties\<close>

lemma same_values_eq: "same_values (=) a b \<longleftrightarrow> a = b"
  by (simp add: same_values_def list.rel_eq)

lemma on_call:
  assumes "split_on layer w win states" and "columns_match R fwd layer w win states x"
    and "\<forall>row \<in> set (fwd layer x). length row = length (rl_weight layer)" and "states ! 0 = (pr, rs, width, offs)"
    and "checked (Roce, length (fwd layer x)) = Some True \<Longrightarrow>
      roce (length (fwd layer x)) (map (\<lambda>(pr, _). fwd pr x) states) rs offs = assemble_stacked (length (fwd layer x)) (map (\<lambda>(pr, _). fwd pr x) states) rs offs"
  shows "same_values R (fwd layer x)
    (snd (gather roce z compact kind usable capturing (length (fwd layer x)) (map (\<lambda>(pr, _). fwd pr x) states) rs width offs checked))"
proof -
  note sp = split_on_parts [OF assms(1-4)]
  obtain y where y: "parts_exact (length (rl_weight layer)) w y (map (\<lambda>(pr, _). fwd pr x) states) width offs" "same_values R (fwd layer x) y"
    "\<forall>row \<in> set y. length row = length (rl_weight layer)" using sp(1) by blast
  have len: "length (fwd layer x) = length y" using y(2) by (simp add: same_values_def list_all2_lengthD)
  show ?thesis
    using gather_of_parts [OF sp(3) y(3,1) sp(2), of checked roce] assms(5) y(2) unfolding len by simp
qed

text \<open>C25: the split layer returns the stock layer's output, with any gather it may run. On the call that decides, this needs nothing of
  the layer's arithmetic nor of the RoCE kernel: the split is taken only where every rank's columns were compared with the
  stock output of that very call, for window and slice products alike, and a compact gather only where it gave the bits of the
  old one; the values are those of the stock output as \<open>torch.equal\<close> tells values apart. On later calls the output matches in whatever sense
  the ranks' products match the stock columns, bit for bit when they do so, if a RoCE kernel that passed its check still gathers columns.\<close>

theorem split_forward_exact:
  assumes "0 < world" and "\<forall>row \<in> set (fwd layer x). length row = length (rl_weight layer)"
    and "nat m = length (fwd layer x)" and "st = Undecided \<Longrightarrow> checked = Map.empty"
    and "\<And>states pr rs width offs. st = On states \<Longrightarrow> states ! 0 = (pr, rs, width, offs) \<Longrightarrow> checked (Roce, nat m) = Some True \<Longrightarrow>
      roce (nat m) (map (\<lambda>(pr, _). fwd pr x) states) rs offs = assemble_stacked (nat m) (map (\<lambda>(pr, _). fwd pr x) states) rs offs"
  shows "let y = snd (split_forward teq roce fwd z windows compact fp8 world max_m rand plain_args layer m e x st checked) in case st of
      On states \<Rightarrow> \<forall>R win. split_on layer world win states \<and> columns_match R fwd layer world win states x \<longrightarrow> y = fwd layer x \<or> same_values R (fwd layer x) y
    | _ \<Rightarrow> y = fwd layer x \<or> same_values teq (fwd layer x) y"
proof -
  let ?cands = "map (\<lambda>r. decide teq fwd windows fp8 layer r world x rand) [0..<world]"
  define y where "y = snd (split_forward teq roce fwd z windows compact fp8 world max_m rand plain_args layer m e x st checked)"
  let ?out = "\<lambda>states checked. case states ! 0 of (_, rs, width, offs) \<Rightarrow>
    snd (gather roce z compact (e_kind e) (e_usable e) (e_capturing e) (nat m) (map (\<lambda>(pr, _). fwd pr x) states) rs width offs checked)"
  define states where "states = map (\<lambda>r. the (build ?cands r)) [0..<world]"
  have "case st of
      On states \<Rightarrow> \<forall>R win. split_on layer world win states \<and> columns_match R fwd layer world win states x \<longrightarrow> y = fwd layer x \<or> same_values R (fwd layer x) y
    | _ \<Rightarrow> y = fwd layer x \<or> same_values teq (fwd layer x) y"
  proof (cases "st = Off \<or> \<not> plain_args \<or> m \<le> 0 \<or> m > max_m \<or> world = 1")
    case True
    then have "y = fwd layer x" unfolding y_def split_forward_def by simp
    then show ?thesis by (simp split: layer_split.splits)
  next
    case False
    have go: "y = (case (if st = Undecided \<and> \<not> e_capturing e then (if build ?cands 0 = None then Off else On states) else st) of
        On ss \<Rightarrow> ?out ss checked | _ \<Rightarrow> fwd layer x)"
      using False unfolding y_def split_forward_def states_def Let_def
      by (simp add: case_prod_beta split: layer_split.splits)
    show ?thesis
    proof (cases st)
      case Undecided
      show ?thesis
      proof (cases "e_capturing e \<or> build ?cands 0 = None")
        case True
        then show ?thesis using go Undecided by auto
      next
        case decided: False
        obtain win where w: "split_on layer world win states" "columns_match teq fwd layer world win states x"
          using build_states [of teq fwd windows fp8 layer world x rand] decided assms(1) by (auto simp: states_def)
        obtain pr rs width offs where s0: "states ! 0 = (pr, rs, width, offs)" by (metis prod_cases4)
        have "same_values teq (fwd layer x) (?out states checked)"
          using on_call [OF w assms(2) s0, of checked roce] assms(3,4) Undecided by (simp add: s0)
        then show ?thesis using go decided Undecided by simp
      qed
    next
      case (On ss)
      obtain pr rs width offs where s0: "ss ! 0 = (pr, rs, width, offs)" by (metis prod_cases4)
      have y: "y = ?out ss checked" using go On by simp
      have "same_values R (fwd layer x) y" if "split_on layer world win ss" "columns_match R fwd layer world win ss x" for R win
        using on_call [OF that assms(2) s0, of checked roce] assms(3) assms(5) [OF On s0] by (simp add: s0 y)
      then show ?thesis using On by auto
    qed (use False in simp)
  qed
  then show ?thesis by (simp only: Let_def y_def)
qed

definition demo_layer :: "(nat, nat) rlayer" where
  "demo_layer = \<lparr>rl_weight = [0..<384], rl_k = 32, rl_params = [(''scale'', ParamFlat [0..<384])], rl_out = 384\<rparr>"

definition demo_fwd :: "(nat, nat) rlayer \<Rightarrow> nat \<Rightarrow> nat matrix" where
  "demo_fwd layer x = [map (\<lambda>w. w * x) (rl_weight layer)]"

text \<open>A RoCE kernel that writes each rank's own columns at its destination, and an eager call.\<close>

definition demo_roce :: "nat roce_kernel" where
  "demo_roce m parts rs offs = assemble_stacked m parts rs offs"

definition demo_call :: call_env where
  "demo_call = \<lparr>e_capturing = False, e_kind = Roce, e_usable = True\<rparr>"

theorem split_forward_exact_witness:
  "snd (split_forward (=) demo_roce demo_fwd 0 True True True 2 96 [1, 6] True demo_layer 1 demo_call 5 Undecided Map.empty) = demo_fwd demo_layer 5"
  using split_forward_exact [of 2 demo_fwd demo_layer 5 1 Undecided Map.empty demo_roce "(=)" 0 True True True 96 "[1, 6]" True demo_call]
  by (auto simp: same_values_eq demo_fwd_def demo_layer_def Let_def)

text \<open>The compact gather is the plain gather: for parts that hold the stock columns, and a RoCE kernel that gathers columns, both variants give the
  stock output, whatever was checked before, and the first eager check of a variant every rank can
  run switches it on.\<close>

theorem compact_gather_exact:
  assumes "split_on layer w win states" and "columns_match (=) fwd layer w win states x"
    and "\<forall>row \<in> set (fwd layer x). length row = length (rl_weight layer)"
    and "states ! 0 = (pr, rs, width, offs)" and "\<And>m parts. roce m parts rs offs = assemble_stacked m parts rs offs"
  shows "snd (gather roce z compact kind usable capturing (length (fwd layer x)) (map (\<lambda>(pr, _). fwd pr x) states) rs width offs checked)
      = fwd layer x
    \<and> (checked (kind, length (fwd layer x)) = None \<and> compact \<and> \<not> capturing \<and> usable \<longrightarrow>
        fst (gather roce z compact kind usable capturing (length (fwd layer x)) (map (\<lambda>(pr, _). fwd pr x) states) rs width offs checked)
          (kind, length (fwd layer x)) = Some True)"
proof
  let ?parts = "map (\<lambda>(pr, _). fwd pr x) states"
  let ?m = "length (fwd layer x)"
  have val: "snd (gather roce z compact kind usable capturing ?m ?parts rs width offs c) = fwd layer x" for z compact kind usable capturing c
    using on_call [OF assms(1-4), of c roce] assms(5) by (simp add: same_values_eq)
  then show "snd (gather roce z compact kind usable capturing ?m ?parts rs width offs checked) = fwd layer x" .
  have "plain_gather z ?m ?parts rs width offs = fwd layer x"
    using val [of z False] by (simp add: gather_def Let_def)
  moreover have "run_compact roce z kind ?m ?parts rs width offs = fwd layer x"
    using val [of z True kind True True "\<lambda>_. Some True"] by (simp add: gather_def Let_def)
  ultimately show "checked (kind, ?m) = None \<and> compact \<and> \<not> capturing \<and> usable \<longrightarrow>
        fst (gather roce z compact kind usable capturing ?m ?parts rs width offs checked) (kind, ?m) = Some True"
    by (simp add: gather_def Let_def)
qed

end
