(* ===== verification/Prefill_Sp.thy ===== *)
theory Prefill_Sp
  imports Rank_Split
begin

text \<open>
  Sequence-parallel prefill (\<open>adapter/prefill_sp.py\<close>): the flags, the row partition of a chunk over
  the tensor-parallel ranks, the collectives on row shards, the tail rows of the late layers,
  the drift guard on the engine sources, the check of the static configuration and the plan of
  a chunk.

  A tensor is the list of its rows. All ranks run the same code in lockstep, so an operation with
  a collective takes the list of all ranks' tensors (\<open>xs ! r\<close> is rank \<open>r\<close>'s) and the plan of the
  rank whose result it computes. The collectives of the engine's group coordinator are parameters:
  \<open>ag n xs\<close> is \<open>all_gather_into_tensor\<close> into \<open>n\<close> rows, \<open>ar xs\<close> is \<open>all_reduce\<close> and \<open>rs s xs r\<close>
  is what \<open>reduce_scatter_tensor\<close> leaves in the \<open>s\<close> rows of rank \<open>r\<close>. The debug tracing
  (\<open>DSV41_PREFILL_SP_DEBUG\<close>), which is never armed in production, is left out, and so are the log lines.
\<close>

section \<open>Flags\<close>

datatype sp_mode = Off | Comm | Shard

record sp_flags =
  MODE :: sp_mode
  EXACT :: bool
  MIN_ROWS :: int
  WKV_SHARD :: bool
  FP8 :: bool
  FP8_MOE :: bool

definition sp_on :: "environ \<Rightarrow> string \<Rightarrow> bool" where
  "sp_on env name = (py_lower (py_strip (env_get env name ''0'')) \<in> {''1'', ''on'', ''true''})"

definition sp_mode_of :: "environ \<Rightarrow> sp_mode" where
  "sp_mode_of env = (let raw = py_lower (py_strip (env_get env ''DSV41_PREFILL_SP'' ''0'')) in
     if raw = ''comm'' then Comm
     else if raw \<in> {''1'', ''on'', ''true'', ''shard''} then Shard else Off)"

definition sp_flags_of :: "environ \<Rightarrow> sp_flags res" where
  "sp_flags_of env =
     (case py_int (env_get env ''DSV41_PREFILL_SP_MIN_ROWS'' ''2048'') of
        None \<Rightarrow> Inl ValueError
      | Some m \<Rightarrow> Inr \<lparr> MODE = sp_mode_of env,
          EXACT = sp_on env ''DSV41_PREFILL_SP_EXACT'',
          MIN_ROWS = m,
          WKV_SHARD = (py_lower (py_strip (env_get env ''DSV41_PREFILL_SP_WKV'' ''shard'')) \<noteq> ''full''),
          FP8 = sp_on env ''DSV41_PREFILL_SP_FP8'',
          FP8_MOE = sp_on env ''DSV41_PREFILL_SP_FP8_MOE'' \<rparr>)"

definition sp_enabled :: "sp_flags \<Rightarrow> bool" where
  "sp_enabled fl = (MODE fl \<noteq> Off)"

section \<open>The plan of a chunk\<close>

record sp_plan =
  p_rows :: nat
  p_world :: nat
  p_rank :: nat
  p_shard :: nat
  p_lo :: nat
  p_hi :: nat
  p_sharded :: bool
  p_exact :: bool

definition mk_plan :: "nat \<Rightarrow> nat \<Rightarrow> nat \<Rightarrow> bool \<Rightarrow> bool \<Rightarrow> sp_plan" where
  "mk_plan rows world rank sharded exact =
     \<lparr> p_rows = rows, p_world = world, p_rank = rank, p_shard = rows div world,
       p_lo = rank * (rows div world), p_hi = (rank + 1) * (rows div world),
       p_sharded = sharded, p_exact = exact \<rparr>"

definition in_rows :: "sp_plan \<Rightarrow> nat" where
  "in_rows p = (if p_sharded p then p_shard p else p_rows p)"

text \<open>The thread-local context: the plan while the layer loop is inside the full-row region, the
  depth of gathered attention or MoE calls, and the layer whose \<open>wo_b\<close> skips its all-reduce.\<close>

record sp_ctx =
  c_plan :: "sp_plan option"
  c_inner :: nat
  c_skip_wo_b :: "nat option"

definition init_ctx :: sp_ctx where
  "init_ctx = \<lparr> c_plan = None, c_inner = 0, c_skip_wo_b = None \<rparr>"

definition sp_logical_rows :: "sp_ctx \<Rightarrow> nat \<Rightarrow> nat" where
  "sp_logical_rows c n =
     (case c_plan c of
        None \<Rightarrow> n
      | Some p \<Rightarrow> if 0 < c_inner c \<or> \<not> p_sharded p then n
                  else if n = p_shard p then p_rows p else n)"

section \<open>Row partition\<close>

definition eligible_rows :: "nat \<Rightarrow> nat \<Rightarrow> int \<Rightarrow> bool" where
  "eligible_rows rows world min_rows = (1 < world \<and> min_rows \<le> int rows \<and> rows mod world = 0)"

definition shard_range :: "nat \<Rightarrow> nat \<Rightarrow> nat \<Rightarrow> nat \<times> nat" where
  "shard_range rows world rank = (let s = rows div world in (rank * s, (rank + 1) * s))"

datatype tail_way = Gather_full | Gather_owners

definition tail_plan :: "nat \<Rightarrow> nat \<Rightarrow> nat \<Rightarrow> tail_way" where
  "tail_plan rows world tail_len = (if world * tail_len \<ge> rows then Gather_full else Gather_owners)"

definition owner_local :: "nat \<Rightarrow> nat \<Rightarrow> nat \<times> nat" where
  "owner_local idx shard = (let owner = idx div shard in (owner, idx - owner * shard))"

section \<open>Collectives\<close>

definition gather_rows :: "(nat \<Rightarrow> 'r list list \<Rightarrow> 'r list) \<Rightarrow> sp_plan \<Rightarrow> 'r list list \<Rightarrow> 'r list" where
  "gather_rows ag p xs = ag (p_rows p) xs"

definition reduce_rows ::
    "('r list list \<Rightarrow> 'r list) \<Rightarrow> (nat \<Rightarrow> 'r list list \<Rightarrow> nat \<Rightarrow> 'r list) \<Rightarrow> sp_plan \<Rightarrow> 'r list list \<Rightarrow> 'r list" where
  "reduce_rows ar rs p xs =
     (if p_exact p then let full = ar xs in slice (p_lo p) (p_hi p) full
      else rs (p_shard p) xs (p_rank p))"

text \<open>Without sharding every rank gathers the parts again, so the parts of all ranks are needed.\<close>

definition reduce_out ::
    "(nat \<Rightarrow> 'r list list \<Rightarrow> 'r list) \<Rightarrow> ('r list list \<Rightarrow> 'r list) \<Rightarrow> (nat \<Rightarrow> 'r list list \<Rightarrow> nat \<Rightarrow> 'r list)
     \<Rightarrow> sp_plan \<Rightarrow> 'r list list \<Rightarrow> 'r list" where
  "reduce_out ag ar rs p xs =
     (if p_sharded p then reduce_rows ar rs p xs
      else let parts = map (rs (p_shard p) xs) [0..<p_world p] in gather_rows ag p parts)"

text \<open>\<open>t[idx]\<close> of a tensor and an index tensor.\<close>

definition index_rows :: "'r list \<Rightarrow> nat list \<Rightarrow> 'r list res" where
  "index_rows t idx = (if list_all (\<lambda>i. i < length t) idx then Inr (map ((!) t) idx) else Inl IndexError)"

section \<open>Tail rows\<close>

record tail =
  contiguous_start :: "nat option"
  token_indices :: "nat list"
  pad_rows :: nat

definition tail_owners ::
    "(nat \<Rightarrow> 'r list list \<Rightarrow> 'r list) \<Rightarrow> sp_plan \<Rightarrow> nat list \<Rightarrow> 'r list list \<Rightarrow> 'r list res" where
  "tail_owners ag p idx xs =
     (let n = length idx;
          ol = map (\<lambda>i. owner_local i (p_shard p)) idx;
          mine = map (\<lambda>t. map (\<lambda>(_, l). t ! (min l (p_shard p - 1))) ol) xs;
          buf = ag (p_world p * n) mine
      in if list_all (\<lambda>(owner, _). owner < p_world p) ol
         then Inr (map (\<lambda>(k, (owner, _)). buf ! (owner * n + k)) (zip [0..<n] ol))
         else Inl IndexError)"

definition tail_real_rows ::
    "(nat \<Rightarrow> 'r list list \<Rightarrow> 'r list) \<Rightarrow> sp_plan \<Rightarrow> tail \<Rightarrow> 'r list list \<Rightarrow> 'r list res" where
  "tail_real_rows ag p late xs =
     (case contiguous_start late of
        Some start \<Rightarrow>
          if p_rows p < start then Inl RuntimeError
          else if tail_plan (p_rows p) (p_world p) (p_rows p - start) = Gather_full \<or> p_rows p - start = 0
          then Inr (drop start (gather_rows ag p xs))
          else tail_owners ag p [start..<p_rows p] xs
      | None \<Rightarrow>
          let idx = token_indices late in
          if tail_plan (p_rows p) (p_world p) (length idx) = Gather_full \<or> length idx = 0
          then index_rows (gather_rows ag p xs) idx
          else tail_owners ag p idx xs)"

definition tail_rows ::
    "(nat \<Rightarrow> 'r list list \<Rightarrow> 'r list) \<Rightarrow> 'r \<Rightarrow> sp_plan \<Rightarrow> tail \<Rightarrow> 'r list list \<Rightarrow> 'r list res" where
  "tail_rows ag zero p late xs =
     bind_res (tail_real_rows ag p late xs) (\<lambda>rows.
       Inr (if pad_rows late \<noteq> 0 then rows @ replicate (pad_rows late) zero else rows))"

text \<open>The engine's \<open>LateLayerTail.rows\<close> on all rows, the semantics \<open>_tail_rows\<close> reproduces.\<close>

definition tail_spec :: "'r \<Rightarrow> tail \<Rightarrow> 'r list \<Rightarrow> 'r list" where
  "tail_spec zero late full =
     (case contiguous_start late of Some s \<Rightarrow> drop s full | None \<Rightarrow> map ((!) full) (token_indices late))
     @ replicate (pad_rows late) zero"

section \<open>Drift guard\<close>

text \<open>The engine sources the adapter relies on with the first 16 digits of their digests.\<close>

definition expected :: "(string \<times> string) list" where
  "expected = [
     (''v4.DeepseekV4Model._forward_layers_hc_pre_from_prev'', ''2675ec391cc23f1b''),
     (''v4.DeepseekV4DecoderLayer.forward_hc_pre_from_prev'', ''49dc092d369923cf''),
     (''v4.DeepseekV4DecoderLayer._hc_combine'', ''da5688eff1cf6fab''),
     (''v4.DeepseekV4DecoderLayer._hc_mix_stats'', ''0a6edf4b45cd160b''),
     (''v4.DeepseekV4DecoderLayer.hc_post'', ''8adb8062e8e66c31''),
     (''v4.DeepseekV4DecoderLayer._run_moe_ffn_dp_sync'', ''065622659105f3fe''),
     (''v4.DeepseekV4Model.forward'', ''3ab2a4745377b83b''),
     (''v4.MQALayer.forward'', ''167b94e235b3eab6''),
     (''v2.DeepseekV2MoE.forward'', ''d931dfa4d2acacd8''),
     (''v2.DeepseekV2MoE.forward_normal'', ''9da361af16dafbec''),
     (''engram.Engram.forward'', ''841b358015e044b8''),
     (''engram.EngramEmbedding.forward'', ''b2f3ea98879b9437''),
     (''engram.EngramEmbedding._lookup'', ''66a0f98a49fcd266''),
     (''hcn.hc_combine_norm'', ''afa73fe49eb1d4b0''),
     (''hcn._hc_combine_norm_prefill'', ''74f71ebf85b010ee''),
     (''linear.RowParallelLinear.forward'', ''30be12725b32806b'')]"

definition expected_fp8 :: "(string \<times> string) list" where
  "expected_fp8 = [
     (''v4.MQALayer._forward_prepare'', ''b3adfe1a07ee6127''),
     (''v4.MQALayer.accepts_mxfp8_swizzled_input'', ''5bb4fddfc5b329ca''),
     (''v4.MQALayer._compute_kv_to_cache'', ''f52f600c4986428c''),
     (''v4.MQALayer._compute_kv_bf16'', ''00c4ab90b403d1e9'')]"

definition expected_fp8_moe :: "(string \<times> string) list" where
  "expected_fp8_moe = [
     (''v2.DeepseekV2MoE._forward_shared_experts'', ''e90ba60e4d5c3d10''),
     (''v2.DeepseekV2MLP.forward'', ''f35466a33edfb991''),
     (''v2.MoEGate.forward'', ''f6ae5a28f762772d''),
     (''fmoe.FusedMoE.forward'', ''978c59903bdb0333''),
     (''fmoe.FusedMoE.forward_impl'', ''2eac8aedf987c339''),
     (''fmoe.FusedMoE._dispatch_with_pre_quant'', ''6f8480afc48c3864''),
     (''fp8q.Fp8LinearMethod.apply'', ''a28262b999af3152''),
     (''mxi.Mxfp8SwizzledInput'', ''93f8a398dc0a46d7''),
     (''std.StandardDispatcher.dispatch'', ''df5e766edd5c8d1f'')]"

definition expected_tail :: "(string \<times> string) list" where
  "expected_tail = [
     (''LateLayerTail.rows'', ''c58392d3ef651408''),
     (''LateLayerTail.real_rows'', ''c78962c2e01e0e3d''),
     (''_tail_rows'', ''54a3cbff5e674e84'')]"

text \<open>\<open>src_hash\<close> gives the digest of the named engine object; \<open>None\<close> when the name does not
  resolve, which is the \<open>AttributeError\<close> of \<open>_resolve\<close>. The result lists the names that
  drifted, of which the \<open>RuntimeError\<close> message is built.\<close>

definition drifted :: "(string \<Rightarrow> string option) \<Rightarrow> (string \<times> string) list \<Rightarrow> string list res" where
  "drifted src_hash exp =
     (if list_all (\<lambda>(k, _). src_hash k \<noteq> None) exp
      then Inr (map fst (filter (\<lambda>(k, want). src_hash k \<noteq> Some want) exp))
      else Inl AttributeError)"

definition refuse_drift :: "string list \<Rightarrow> unit res" where
  "refuse_drift bad = (if bad = [] then Inr () else Inl RuntimeError)"

definition check_engine :: "(string \<Rightarrow> string option) \<Rightarrow> sp_flags \<Rightarrow> unit res" where
  "check_engine src_hash fl =
     (let exp = expected @ (if FP8 fl then expected_fp8 else [])
                @ (if FP8_MOE fl \<and> MODE fl = Shard then expected_fp8_moe else [])
      in bind_res (drifted src_hash exp) refuse_drift)"

definition check_tail_engine :: "(string \<Rightarrow> string option) \<Rightarrow> unit res" where
  "check_tail_engine src_hash = bind_res (drifted src_hash expected_tail) refuse_drift"

text \<open>\<open>declares\<close> is \<open>hc_prefill_fused.SP_LOGICAL_ROWS\<close>.\<close>

definition check_hc_prefill_fused :: "environ \<Rightarrow> bool \<Rightarrow> unit res" where
  "check_hc_prefill_fused env declares =
     (if py_strip (env_get env ''DSV41_HC_PREFILL_FUSED'' ''0'') \<in> {''0'', ''off'', ''false'', []} then Inr ()
      else if \<not> declares then Inl RuntimeError else Inr ())"

section \<open>Static configuration\<close>

text \<open>What \<open>_static_check\<close> reads of a decoder layer and of the engine.\<close>

record sp_layer =
  is_mqa :: bool
  is_moe :: bool
  wo_b_row_parallel :: bool
  wo_b_reduce :: bool
  wo_b_tp :: nat
  attn_tp :: nat
  shared_expert_tp1 :: bool
  a2a_moe :: bool
  moe_tp :: nat
  prefill_cp :: bool
  fused_post_pre :: bool
  engram_tp :: "nat option"

record sp_model =
  pp_world :: nat
  hc_from_prev :: bool
  hc_mult :: nat
  start_layer :: nat
  end_layer :: nat
  late_layer_start :: "nat option"
  layers :: "sp_layer list"

record sp_engine =
  par_attn_dp :: nat
  par_tp :: nat
  par_attn_tp :: nat
  a2a_none :: bool
  is_sm100 :: bool
  deterministic :: bool
  row_parallel_known :: bool

datatype static_err =
    Pp | Attn_dp | Tp_sizes | A2a_backend | Hc_layout | Sm100 | Deterministic | Min_rows
  | Layer_types nat | Wo_b_type nat | Wo_b_reduce nat | Shared_or_a2a nat | Moe_tp nat | Cp_or_fused nat
  | Engram_tp nat

definition engine_errs :: "sp_flags \<Rightarrow> sp_engine \<Rightarrow> sp_model \<Rightarrow> nat \<Rightarrow> static_err list" where
  "engine_errs fl e m world =
     (if pp_world m \<noteq> 1 then [Pp] else [])
     @ (if par_attn_dp e \<noteq> 1 then [Attn_dp] else [])
     @ (if par_tp e \<noteq> world \<or> par_attn_tp e \<noteq> world then [Tp_sizes] else [])
     @ (if \<not> a2a_none e then [A2a_backend] else [])
     @ (if \<not> hc_from_prev m \<or> hc_mult m \<noteq> 4 then [Hc_layout] else [])
     @ (if is_sm100 e then [Sm100] else [])
     @ (if MODE fl = Comm \<and> deterministic e then [Deterministic] else [])
     @ (if MIN_ROWS fl < 256 then [Min_rows] else [])"

definition layer_errs :: "sp_engine \<Rightarrow> nat \<Rightarrow> nat \<Rightarrow> sp_layer \<Rightarrow> static_err list" where
  "layer_errs e world i l =
     (if \<not> is_mqa l \<or> \<not> is_moe l then [Layer_types i]
      else
        (if row_parallel_known e \<and> \<not> wo_b_row_parallel l then [Wo_b_type i] else [])
        @ (if \<not> (wo_b_reduce l \<and> wo_b_tp l = world \<and> attn_tp l = world) then [Wo_b_reduce i] else [])
        @ (if shared_expert_tp1 l \<or> a2a_moe l then [Shared_or_a2a i] else [])
        @ (if moe_tp l \<noteq> world then [Moe_tp i] else [])
        @ (if prefill_cp l \<or> fused_post_pre l then [Cp_or_fused i] else [])
        @ (case engram_tp l of Some n \<Rightarrow> if n \<noteq> world then [Engram_tp i] else [] | None \<Rightarrow> []))"

text \<open>The first layer that runs the stock path: the full-row layers end before it.\<close>

definition last_full :: "sp_model \<Rightarrow> nat" where
  "last_full m = (case late_layer_start m of Some l \<Rightarrow> l | None \<Rightarrow> end_layer m)"

record sp_static =
  tail_checked :: bool
  checked :: bool
  seen_m :: "nat set"

definition static_check ::
    "(string \<Rightarrow> string option) \<Rightarrow> sp_flags \<Rightarrow> sp_engine \<Rightarrow> sp_model \<Rightarrow> nat \<Rightarrow> sp_static \<Rightarrow> sp_static \<times> unit res" where
  "static_check tail_hash fl e m world st =
     (case (if tail_checked st then Inr () else check_tail_engine tail_hash) of
        Inl err \<Rightarrow> (st, Inl err)
      | Inr _ \<Rightarrow>
          let st = st\<lparr>tail_checked := True\<rparr> in
          if length (layers m) < last_full m \<and> start_layer m < last_full m then (st, Inl IndexError)
          else if engine_errs fl e m world
                 @ concat (map (\<lambda>i. layer_errs e world i (layers m ! i)) [start_layer m..<last_full m]) \<noteq> []
          then (st, Inl RuntimeError)
          else (st\<lparr>checked := True\<rparr>, Inr ()))"

section \<open>The plan of a forward\<close>

text \<open>What \<open>_plan\<close> reads of the forward and of the process.\<close>

record sp_forward =
  compiling :: bool
  capturing :: bool
  extend_without_speculative :: bool
  in_breakable_graph :: bool
  cp_active :: bool
  input_scattered :: bool
  hs_dim :: nat
  hs_bf16 :: bool
  hs_cuda :: bool
  hs_contiguous :: bool
  hs_rows :: nat

definition sp_guard :: "sp_forward \<Rightarrow> bool" where
  "sp_guard f = (\<not> (compiling f \<or> capturing f) \<and> extend_without_speculative f
     \<and> \<not> (in_breakable_graph f \<or> cp_active f) \<and> \<not> input_scattered f
     \<and> hs_dim f = 3 \<and> hs_bf16 f \<and> hs_cuda f \<and> hs_contiguous f)"

definition sp_plan_for ::
    "(string \<Rightarrow> string option) \<Rightarrow> sp_flags \<Rightarrow> sp_engine \<Rightarrow> sp_model \<Rightarrow> sp_forward \<Rightarrow> nat \<Rightarrow> nat \<Rightarrow> sp_static
     \<Rightarrow> sp_static \<times> sp_plan option res" where
  "sp_plan_for tail_hash fl e m f world rank st =
     (if MODE fl = Off \<or> \<not> sp_guard f then (st, Inr None)
      else if \<not> eligible_rows (hs_rows f) world (MIN_ROWS fl) then (st, Inr None)
      else case (if checked st then (st, Inr ()) else static_check tail_hash fl e m world st) of
             (st, Inl err) \<Rightarrow> (st, Inl err)
           | (st, Inr _) \<Rightarrow>
               let sharded = (MODE fl = Shard) in
               (st\<lparr>seen_m := insert (hs_rows f) (seen_m st)\<rparr>,
                Inr (Some (mk_plan (hs_rows f) world rank sharded (EXACT fl \<and> sharded)))))"

section \<open>Laws of the partition and of the collectives\<close>

definition gathers :: "(nat \<Rightarrow> 'r list list \<Rightarrow> 'r list) \<Rightarrow> bool" where
  "gathers ag = (\<forall>n xs. length (concat xs) = n \<longrightarrow> ag n xs = concat xs)"

definition scatters :: "nat \<Rightarrow> (nat \<Rightarrow> 'r list list \<Rightarrow> nat \<Rightarrow> 'r list) \<Rightarrow> bool" where
  "scatters w rs = (\<forall>s xs r. length xs = w \<and> r < w \<and> list_all (\<lambda>x. length x = w * s) xs
     \<longrightarrow> length (rs s xs r) = s)"

definition shards :: "nat \<Rightarrow> 'r list \<Rightarrow> 'r list list" where
  "shards w full = map (\<lambda>r. slice (fst (shard_range (length full) w r)) (snd (shard_range (length full) w r)) full) [0..<w]"

lemma gathersD: "gathers ag \<Longrightarrow> length (concat xs) = n \<Longrightarrow> ag n xs = concat xs"
  unfolding gathers_def by blast

lemma shard_range_Suc: "snd (shard_range n w r) = fst (shard_range n w (Suc r))"
  by (simp add: shard_range_def Let_def)

interpretation sp: even_rank_split
  "\<lambda>n w. 0 < w \<and> n mod w = 0" "\<lambda>n w r. fst (shard_range n w r)"
proof (unfold_locales, goal_cases)
  case (2 n w)
  then show ?case by (auto simp: shard_range_def Let_def)
qed (auto simp: shard_range_def Let_def)

lemma concat_shards:
  assumes "0 < w" and "length full mod w = 0"
  shows "concat (shards w full) = full"
  using sp.gather_parts [OF conjI [OF assms] refl] by (simp add: shards_def shard_range_Suc)

lemma length_shards [simp]: "length (shards w full) = w"
  by (simp add: shards_def)

lemma shards_nth_length:
  assumes "0 < w" and "length full mod w = 0" and "r < w"
  shows "length (shards w full ! r) = length full div w"
  using sp.part_length [OF conjI [OF assms(1,2)] assms(3) refl] assms(3) by (simp add: shards_def shard_range_Suc)

lemma shards_row:
  assumes "0 < w" and "length full mod w = 0" and "r < w" and "j < length full div w"
  shows "shards w full ! r ! j = full ! (r * (length full div w) + j)"
proof -
  have "j < length (shards w full ! r)" using shards_nth_length assms by metis
  with assms show ?thesis by (simp add: shards_def shard_range_def Let_def nth_slice)
qed

lemma gather_shards:
  assumes "gathers ag" and "0 < w" and "length full mod w = 0"
  shows "ag (length full) (shards w full) = full"
  using gathersD [OF assms(1), of "shards w full"] concat_shards [OF assms(2,3)] by simp

lemma owner_local_bounds:
  assumes "0 < w" and "n mod w = 0" and "i < n"
  shows "fst (owner_local i (n div w)) < w" and "snd (owner_local i (n div w)) < n div w"
    and "fst (owner_local i (n div w)) * (n div w) + snd (owner_local i (n div w)) = i"
proof -
  have n: "n = n div w * w" using assms(2) by (metis add.right_neutral div_mult_mod_eq)
  then have s: "0 < n div w" using assms(3) by (metis gr0I mult_is_0 not_less_zero)
  show "fst (owner_local i (n div w)) < w"
    using n s assms(3) by (metis fst_conv less_mult_imp_div_less mult.commute owner_local_def)
  show "snd (owner_local i (n div w)) < n div w"
    using s by (simp add: owner_local_def Let_def minus_div_mult_eq_mod)
  show "fst (owner_local i (n div w)) * (n div w) + snd (owner_local i (n div w)) = i"
    by (simp add: owner_local_def Let_def)
qed

lemma concat_nth_uniform:
  assumes "list_all (\<lambda>x. length x = n) xs" and "o' < length xs" and "k < n"
  shows "concat xs ! (o' * n + k) = xs ! o' ! k"
  using assms
proof (induction xs arbitrary: o')
  case (Cons x xs)
  then show ?case by (cases o') (simp_all add: nth_append)
qed simp

lemma tail_owners_exact:
  assumes "gathers ag" and "0 < w" and "length full mod w = 0"
    and "p_shard p = length full div w" and "p_world p = w"
    and "list_all (\<lambda>i. i < length full) idx"
  shows "tail_owners ag p idx (shards w full) = Inr (map ((!) full) idx)"
proof -
  let ?s = "length full div w" and ?n = "length idx"
  define ol where "ol = map (\<lambda>i. owner_local i ?s) idx"
  define mine where "mine = map (\<lambda>t. map (\<lambda>(_, l). t ! (min l (?s - 1))) ol) (shards w full)"
  have bounds: "fst (ol ! k) < w \<and> snd (ol ! k) < ?s \<and> fst (ol ! k) * ?s + snd (ol ! k) = idx ! k"
    if "k < ?n" for k
    using that owner_local_bounds [OF assms(2,3), of "idx ! k"] assms(6) by (simp add: ol_def list_all_length)
  have len: "list_all (\<lambda>x. length x = ?n) mine" by (simp add: mine_def ol_def list_all_iff)
  have "length (concat mine) = w * ?n"
    using len by (simp add: mine_def ol_def length_concat comp_def sum_list_triv)
  then have buf: "ag (w * ?n) mine = concat mine" by (rule gathersD [OF assms(1)])
  have owners: "list_all (\<lambda>(owner, _). owner < p_world p) ol"
    using bounds by (simp add: list_all_length ol_def assms(5) case_prod_beta)
  have row: "concat mine ! (fst (ol ! k) * ?n + k) = full ! (idx ! k)" if k: "k < ?n" for k
  proof -
    have clamp: "min (snd (ol ! k)) (?s - 1) = snd (ol ! k)" using bounds [OF k] by linarith
    have "concat mine ! (fst (ol ! k) * ?n + k) = mine ! fst (ol ! k) ! k"
      using bounds [OF k] by (intro concat_nth_uniform [OF len _ k]) (simp add: mine_def)
    also have "\<dots> = shards w full ! fst (ol ! k) ! snd (ol ! k)"
      using bounds [OF k] k clamp by (simp add: mine_def case_prod_beta ol_def)
    also have "\<dots> = full ! (idx ! k)"
      using bounds [OF k] shards_row [OF assms(2,3)] by metis
    finally show ?thesis .
  qed
  have "map (\<lambda>(k, (owner, _)). concat mine ! (owner * ?n + k)) (zip [0..<?n] ol) = map ((!) full) idx"
  proof (rule nth_equalityI)
    fix i
    assume "i < length (map (\<lambda>(k, (owner, _)). concat mine ! (owner * ?n + k)) (zip [0..<?n] ol))"
    then have "i < ?n" by (simp add: ol_def)
    then show "map (\<lambda>(k, (owner, _)). concat mine ! (owner * ?n + k)) (zip [0..<?n] ol) ! i = map ((!) full) idx ! i"
      using row [of i] by (simp add: ol_def case_prod_beta)
  qed (simp add: ol_def)
  then show ?thesis
    using owners unfolding tail_owners_def Let_def assms(4,5) ol_def [symmetric] mine_def [symmetric] buf by simp
qed

lemma tail_rows_of_shards:
  assumes "gathers ag" and "0 < w" and "length full mod w = 0"
    and "p_rows p = length full" and "p_shard p = length full div w" and "p_world p = w"
    and "case contiguous_start late of Some s \<Rightarrow> s \<le> length full
         | None \<Rightarrow> list_all (\<lambda>i. i < length full) (token_indices late)"
  shows "tail_rows ag zero p late (shards w full) = Inr (tail_spec zero late full)"
proof -
  have full: "gather_rows ag p (shards w full) = full"
    using gather_shards [OF assms(1-3)] by (simp add: gather_rows_def assms(4))
  have own: "tail_owners ag p idx (shards w full) = Inr (map ((!) full) idx)"
    if "list_all (\<lambda>i. i < length full) idx" for idx
    using tail_owners_exact [OF assms(1-3,5,6) that] .
  have sl: "map ((!) full) [s..<length full] = drop s full" for s
    by (rule nth_equalityI) auto
  have "tail_real_rows ag p late (shards w full)
      = Inr (case contiguous_start late of Some s \<Rightarrow> drop s full | None \<Rightarrow> map ((!) full) (token_indices late))"
    using assms(7) own [of "[the (contiguous_start late)..<length full]"] own [of "token_indices late"]
    by (auto simp: tail_real_rows_def full assms(4) sl index_rows_def Let_def list_all_iff split: option.splits)
  then show ?thesis by (simp add: tail_rows_def tail_spec_def)
qed

section \<open>The plan over a sequence of forwards\<close>

definition static_ok :: "(string \<Rightarrow> string option) \<Rightarrow> sp_flags \<Rightarrow> sp_engine \<Rightarrow> sp_model \<Rightarrow> nat \<Rightarrow> bool" where
  "static_ok tail_hash fl e m world =
     (check_tail_engine tail_hash = Inr () \<and> engine_errs fl e m world = []
      \<and> list_all (\<lambda>i. i < length (layers m) \<and> layer_errs e world i (layers m ! i) = []) [start_layer m..<last_full m])"

definition init_static :: sp_static where
  "init_static = \<lparr> tail_checked = False, checked = False, seen_m = {} \<rparr>"

text \<open>The state after a sequence of forwards on one rank.\<close>

fun after_forwards ::
    "(string \<Rightarrow> string option) \<Rightarrow> sp_flags \<Rightarrow> sp_engine \<Rightarrow> sp_model \<Rightarrow> nat \<Rightarrow> nat \<Rightarrow> sp_forward list \<Rightarrow> sp_static \<Rightarrow> sp_static" where
  "after_forwards tail_hash fl e m world rank [] st = st"
| "after_forwards tail_hash fl e m world rank (f # fs) st =
     after_forwards tail_hash fl e m world rank fs (fst (sp_plan_for tail_hash fl e m f world rank st))"

definition static_inv :: "(string \<Rightarrow> string option) \<Rightarrow> sp_flags \<Rightarrow> sp_engine \<Rightarrow> sp_model \<Rightarrow> nat \<Rightarrow> sp_static \<Rightarrow> bool" where
  "static_inv tail_hash fl e m world st =
     ((tail_checked st \<longrightarrow> check_tail_engine tail_hash = Inr ()) \<and> (checked st \<longrightarrow> static_ok tail_hash fl e m world))"

lemma static_check_cases:
  assumes "static_inv tail_hash fl e m world st" and "static_check tail_hash fl e m world st = (st', r)"
  shows "static_inv tail_hash fl e m world st'" and "r = Inr () \<Longrightarrow> static_ok tail_hash fl e m world"
proof -
  obtain q where q: "(if tail_checked st then Inr () else check_tail_engine tail_hash) = q" by blast
  have ok: "check_tail_engine tail_hash = Inr ()" if "q = Inr u" for u
    using q assms(1) that by (auto simp: static_inv_def split: if_splits)
  show "static_inv tail_hash fl e m world st'" and "r = Inr () \<Longrightarrow> static_ok tail_hash fl e m world"
    using assms q ok unfolding static_check_def
    by (auto simp: static_inv_def static_ok_def Let_def list_all_iff split: sum.splits if_splits)
qed

lemma plan_step:
  assumes "static_inv tail_hash fl e m world st" and "sp_plan_for tail_hash fl e m f world rank st = (st', r)"
  shows "static_inv tail_hash fl e m world st'"
    and "r = Inr (Some p) \<Longrightarrow> static_ok tail_hash fl e m world \<and> MODE fl \<noteq> Off \<and> sp_guard f
      \<and> eligible_rows (hs_rows f) world (MIN_ROWS fl)
      \<and> p = mk_plan (hs_rows f) world rank (MODE fl = Shard) (EXACT fl \<and> MODE fl = Shard)"
proof -
  obtain s q where sq: "(if checked st then (st, Inr ()) else static_check tail_hash fl e m world st) = (s, q)"
    by (cases "if checked st then (st, Inr ()) else static_check tail_hash fl e m world st")
  have inv: "static_inv tail_hash fl e m world s" and ok: "q = Inr () \<Longrightarrow> static_ok tail_hash fl e m world"
    using sq static_check_cases [OF assms(1)] assms(1) by (auto simp: static_inv_def split: if_splits)
  show "static_inv tail_hash fl e m world st'"
    using assms inv by (auto simp: sp_plan_for_def sq static_inv_def Let_def split: if_splits sum.splits)
  show "r = Inr (Some p) \<Longrightarrow> static_ok tail_hash fl e m world \<and> MODE fl \<noteq> Off \<and> sp_guard f
      \<and> eligible_rows (hs_rows f) world (MIN_ROWS fl)
      \<and> p = mk_plan (hs_rows f) world rank (MODE fl = Shard) (EXACT fl \<and> MODE fl = Shard)"
    using assms(2) ok by (auto simp: sp_plan_for_def sq Let_def split: if_splits sum.splits)
qed

lemma after_forwards_inv:
  "static_inv tail_hash fl e m world st
   \<Longrightarrow> static_inv tail_hash fl e m world (after_forwards tail_hash fl e m world rank fs st)"
proof (induction fs arbitrary: st)
  case (Cons f fs)
  then show ?case using plan_step(1) [OF Cons.prems] by (simp add: prod_eq_iff)
qed simp

section \<open>Properties\<close>

text \<open>C18: the tail rows a sharded run collects for the late layers are the tail rows of the whole chunk. For any
  all-gather that concatenates and any rows split over \<open>w\<close> ranks, \<open>_tail_rows\<close> returns
  \<open>tail.rows\<close> of the gathered rows, whether it gathers every row or only the owners' rows, with the
  clamped local indices of the other ranks' rows never showing in the result.\<close>

theorem tail_rows_exact:
  assumes "gathers ag" and "0 < w" and "length full mod w = 0" and "rank < w"
    and "case contiguous_start late of Some s \<Rightarrow> s \<le> length full
         | None \<Rightarrow> list_all (\<lambda>i. i < length full) (token_indices late)"
  shows "tail_rows ag zero (mk_plan (length full) w rank True exact) late (shards w full)
    = Inr (tail_spec zero late full)"
  using assms by (intro tail_rows_of_shards) (auto simp: mk_plan_def)

theorem tail_rows_exact_witness:
  "tail_plan 8 4 1 = Gather_owners
   \<and> tail_rows (\<lambda>_ xs. concat xs) 0 (mk_plan 8 4 2 True False)
       \<lparr>contiguous_start = None, token_indices = [5], pad_rows = 2\<rparr> (shards 4 [10, 11, 12, 13, 14, 15, 16, 17 :: nat])
     = Inr [15, 0, 0]"
proof -
  have "gathers (\<lambda>_ xs. concat xs :: nat list)" by (simp add: gathers_def)
  then have "tail_rows (\<lambda>_ xs. concat xs) 0 (mk_plan (length [10, 11, 12, 13, 14, 15, 16, 17 :: nat]) 4 2 True False)
       \<lparr>contiguous_start = None, token_indices = [5], pad_rows = 2\<rparr> (shards 4 [10, 11, 12, 13, 14, 15, 16, 17 :: nat])
     = Inr (tail_spec 0 \<lparr>contiguous_start = None, token_indices = [5], pad_rows = 2\<rparr> [10, 11, 12, 13, 14, 15, 16, 17])"
    by (rule tail_rows_exact) simp_all
  moreover have "length [10, 11, 12, 13, 14, 15, 16, 17 :: nat] = 8" by simp
  moreover have "tail_spec 0 \<lparr>contiguous_start = None, token_indices = [5], pad_rows = 2\<rparr>
      [10, 11, 12, 13, 14, 15, 16, 17 :: nat] = [15, 0, 0]"
    by (simp add: tail_spec_def numeral_2_eq_2)
  ultimately show ?thesis by (simp only: tail_plan_def) simp
qed

text \<open>A chunk is planned only after the checks, and identically on every rank. After any sequence of
  forwards, a forward that gets a plan has passed every guard of \<open>_plan\<close> and the row predicate, the
  pinned tail sources and the static configuration were found unchanged and supported, and the
  plan is the rank's shard of the chunk with the mode of the flags: it differs between ranks only in the
  rank's row range, and the ranges of all ranks tile the chunk.\<close>

theorem plan_checked_and_agreed:
  assumes "sp_plan_for tail_hash fl e m f world rank (after_forwards tail_hash fl e m world rank fs init_static)
    = (st, Inr (Some p))"
  shows "static_ok tail_hash fl e m world \<and> MODE fl \<noteq> Off \<and> sp_guard f \<and> eligible_rows (hs_rows f) world (MIN_ROWS fl)
    \<and> p = mk_plan (hs_rows f) world rank (MODE fl = Shard) (EXACT fl \<and> MODE fl = Shard)
    \<and> 256 \<le> p_rows p \<and> p_hi p - p_lo p = p_shard p \<and> p_world p * p_shard p = p_rows p
    \<and> (p_lo p, p_hi p) = shard_range (hs_rows f) world rank
    \<and> concat (map (\<lambda>r. [fst (shard_range (hs_rows f) world r)..<snd (shard_range (hs_rows f) world r)]) [0..<world])
      = [0..<hs_rows f]"
proof -
  have "static_inv tail_hash fl e m world init_static" by (simp add: static_inv_def init_static_def)
  then have inv: "static_inv tail_hash fl e m world (after_forwards tail_hash fl e m world rank fs init_static)"
    by (rule after_forwards_inv)
  note step = plan_step(2) [OF inv assms refl]
  then have w: "1 < world" "hs_rows f mod world = 0" and "MIN_ROWS fl \<le> int (hs_rows f)"
    by (auto simp: eligible_rows_def)
  moreover have "256 \<le> MIN_ROWS fl" using step by (auto simp: static_ok_def engine_errs_def split: if_splits)
  ultimately have big: "256 \<le> hs_rows f" by linarith
  have sl: "slice a b [0..<n] = [a..<b]" if "b \<le> n" for a b n :: nat
    using that by (cases "a \<le> b") (auto simp: slice_def take_upt)
  have "concat (shards world [0..<hs_rows f]) = [0..<hs_rows f]" using w by (intro concat_shards) auto
  moreover have "snd (shard_range (hs_rows f) world r) \<le> hs_rows f" if "r < world" for r
    using sp.bound_le [of world "hs_rows f" "Suc r"] w that by (simp add: shard_range_Suc)
  then have "map (\<lambda>r. [fst (shard_range (hs_rows f) world r)..<snd (shard_range (hs_rows f) world r)]) [0..<world]
      = shards world [0..<hs_rows f]"
    by (simp add: shards_def sl)
  ultimately have "concat (map (\<lambda>r. [fst (shard_range (hs_rows f) world r)..<snd (shard_range (hs_rows f) world r)]) [0..<world])
      = [0..<hs_rows f]"
    by simp
  with step big w show ?thesis by (auto simp: mk_plan_def shard_range_def Let_def)
qed

definition wit_flags :: sp_flags where
  "wit_flags = \<lparr> MODE = Shard, EXACT = False, MIN_ROWS = 2048, WKV_SHARD = True, FP8 = False, FP8_MOE = False \<rparr>"

definition wit_engine :: sp_engine where
  "wit_engine = \<lparr> par_attn_dp = 1, par_tp = 4, par_attn_tp = 4, a2a_none = True, is_sm100 = False,
     deterministic = False, row_parallel_known = True \<rparr>"

definition wit_model :: sp_model where
  "wit_model = \<lparr> pp_world = 1, hc_from_prev = True, hc_mult = 4, start_layer = 0, end_layer = 2,
     late_layer_start = Some 1, layers = [\<lparr> is_mqa = True, is_moe = True, wo_b_row_parallel = True, wo_b_reduce = True,
       wo_b_tp = 4, attn_tp = 4, shared_expert_tp1 = False, a2a_moe = False, moe_tp = 4, prefill_cp = False,
       fused_post_pre = False, engram_tp = Some 4 \<rparr>] \<rparr>"

definition wit_forward :: sp_forward where
  "wit_forward = \<lparr> compiling = False, capturing = False, extend_without_speculative = True, in_breakable_graph = False,
     cp_active = False, input_scattered = False, hs_dim = 3, hs_bf16 = True, hs_cuda = True, hs_contiguous = True,
     hs_rows = 4096 \<rparr>"

lemma wit_plan:
  "sp_plan_for (map_of expected_tail) wit_flags wit_engine wit_model wit_forward 4 1
     (after_forwards (map_of expected_tail) wit_flags wit_engine wit_model 4 1 [] init_static)
   = (\<lparr>tail_checked = True, checked = True, seen_m = {4096}\<rparr>, Inr (Some (mk_plan 4096 4 1 True False)))"
proof -
  have tail: "check_tail_engine (map_of expected_tail) = Inr ()"
    by (simp add: check_tail_engine_def drifted_def expected_tail_def refuse_drift_def)
  show ?thesis
    by (simp add: sp_plan_for_def static_check_def tail Let_def init_static_def wit_flags_def wit_engine_def
        wit_model_def wit_forward_def sp_guard_def eligible_rows_def engine_errs_def layer_errs_def last_full_def)
qed

theorem plan_checked_and_agreed_witness:
  "mk_plan 4096 4 1 True False
     = mk_plan (hs_rows wit_forward) 4 1 (MODE wit_flags = Shard) (EXACT wit_flags \<and> MODE wit_flags = Shard)
   \<and> static_ok (map_of expected_tail) wit_flags wit_engine wit_model 4
   \<and> (p_lo (mk_plan 4096 4 1 True False), p_hi (mk_plan 4096 4 1 True False)) = (1024, 2048)
   \<and> (1024, 2048) = shard_range (hs_rows wit_forward) 4 1"
  using plan_checked_and_agreed [OF wit_plan] by (simp add: mk_plan_def wit_flags_def)

end
