(* ===== verification/Sp_Mxfp8.thy ===== *)
theory Sp_Mxfp8
  imports Prefill_Sp
begin

text \<open>
  Stages 2 and 2b of the sequence-parallel prefill (\<open>adapter/prefill_sp.py\<close>): the ranks quantize their
  shards and gather the MXFP8 bytes and scales instead of the bf16 rows, for the attention input
  and for the MoE input. Nothing is assumed of the quantizers: the first chunk of every size runs the
  stock path too, compares, and the ranks agree on the verdict.

  The quantizer (\<open>quant swizzled x\<close>: the fp8 rows, the flat scale bytes, and the shape and type of the scale
  tensor), the projections, the router, the top-k and the stock MoE are parameters, as is the
  \<open>MIN\<close> all-reduce \<open>amin\<close>.
\<close>

section \<open>Agreement over the ranks\<close>

definition agree_min :: "(int list \<Rightarrow> int) \<Rightarrow> bool list \<Rightarrow> bool" where
  "agree_min amin locals = (amin (map (\<lambda>l. if l then 1 else 0) locals) \<noteq> 0)"

definition takes_min :: "(int list \<Rightarrow> int) \<Rightarrow> bool" where
  "takes_min amin = (\<forall>xs. xs \<noteq> [] \<longrightarrow> amin xs = Min (set xs))"

lemma agree_min_iff:
  assumes "takes_min amin" and "locals \<noteq> []"
  shows "agree_min amin locals \<longleftrightarrow> (\<forall>l \<in> set locals. l)"
proof -
  let ?xs = "map (\<lambda>l. if l then 1 else 0 :: int) locals"
  have in01: "Min (set ?xs) \<in> set ?xs" 
    using assms(2) by (intro Min_in) (simp_all only: finite_set set_empty map_is_Nil_conv not_False_eq_True)
  have eq: "agree_min amin locals \<longleftrightarrow> Min (set ?xs) \<noteq> 0"
    using assms by (simp add: agree_min_def takes_min_def)
  show ?thesis
  proof (cases "False \<in> set locals")
    case True
    then have "Min (set ?xs) \<le> 0" by (intro Min_le) (auto intro: image_eqI [of _ _ False])
    moreover have "0 \<le> Min (set ?xs)" using in01 by auto
    ultimately show ?thesis using eq True by auto
  next
    case False
    then have "\<forall>l \<in> set locals. l" by (metis (full_types))
    moreover from this have "Min (set ?xs) = 1" using in01 by auto
    ultimately show ?thesis using eq by simp
  qed
qed

section \<open>The scale layout\<close>

definition swizzle_128x4 :: "nat \<Rightarrow> nat list list \<Rightarrow> nat list res" where
  "swizzle_128x4 g s_lin =
     (let m = length s_lin; mt = (m + 127) div 128;
          s = (if mt * 128 \<noteq> m then s_lin @ replicate (mt * 128 - m) (replicate g 0) else s_lin)
      in if g mod 4 \<noteq> 0 then Inl AssertionError
         else Inr (concat (map (\<lambda>t. concat (map (\<lambda>c. concat (map (\<lambda>a. concat (map (\<lambda>b.
                map (\<lambda>d. s ! (t * 128 + b * 32 + a) ! (c * 4 + d)) [0..<4])
              [0..<4])) [0..<32])) [0..<g div 4])) [0..<mt])))"

section \<open>Quantized gathers\<close>

text \<open>The results of all ranks, or the first rank's exception.\<close>

fun seq_res :: "'a res list \<Rightarrow> 'a list res" where
  "seq_res [] = Inr []"
| "seq_res (r # rs) = bind_res r (\<lambda>x. bind_res (seq_res rs) (\<lambda>xs. Inr (x # xs)))"

type_synonym ('x, 'q, 'm) quantizer = "bool \<Rightarrow> 'x list \<Rightarrow> 'q list \<times> nat list \<times> 'm"

text \<open>A pre-quantized input: the fp8 rows, the swizzled scale bytes and the type and shape they are viewed with.\<close>

type_synonym ('q, 'm) mxfp8_input = "'q list \<times> nat list \<times> 'm"

definition mxfp8_shard :: "('x, 'q, 'm) quantizer \<Rightarrow> nat \<Rightarrow> 'x list \<Rightarrow> ('q list \<times> nat list list) res" where
  "mxfp8_shard quant k x =
     (let s_rows = length x; c = k div 32; (q, sf, _) = quant False x; flat = take (s_rows * c) sf
      in if length flat = s_rows * c
         then Inr (q, map (\<lambda>i. slice (i * c) (Suc i * c) flat) [0..<s_rows])
         else Inl RuntimeError)"

definition mxfp8_gather ::
    "(nat \<Rightarrow> 'q list list \<Rightarrow> 'q list) \<Rightarrow> (nat \<Rightarrow> nat list list list \<Rightarrow> nat list list)
     \<Rightarrow> ('x, 'q, 'm) quantizer \<Rightarrow> sp_plan \<Rightarrow> nat \<Rightarrow> 'x list list \<Rightarrow> ('q list \<times> nat list list) res" where
  "mxfp8_gather agq ags quant p k xs =
     bind_res (seq_res (map (mxfp8_shard quant k) xs)) (\<lambda>parts.
       Inr (gather_rows agq p (map fst parts), gather_rows ags p (map snd parts)))"

text \<open>What \<open>fp8_eligible_attn\<close> reads of an attention layer; \<open>accepts\<close> may raise.\<close>

record fp8_attn =
  cached_fp8 :: "bool option"
  no_compressor :: bool
  no_indexer :: bool
  fuse_wqa_wkv :: bool
  has_wqkv_a :: bool
  accepts :: "bool res"

definition fp8_eligible_attn :: "fp8_attn \<Rightarrow> fp8_attn \<times> bool" where
  "fp8_eligible_attn a =
     (case cached_fp8 a of
        Some v \<Rightarrow> (a, v)
      | None \<Rightarrow>
          let v = (no_compressor a \<and> no_indexer a \<and> fuse_wqa_wkv a \<and> has_wqkv_a a \<and> accepts a = Inr True)
          in (a\<lparr>cached_fp8 := Some v\<rparr>, v))"

text \<open>\<open>wq r\<close> is rank \<open>r\<close>'s \<open>wqkv_a\<close> on bf16 rows and \<open>wqq r\<close> on a pre-quantized input. The result is the
  pre-quantized input, or \<open>None\<close> with the bf16 rows when the check gathered them; every rank holds the same.\<close>

definition fp8_input ::
    "(nat \<Rightarrow> 'q list list \<Rightarrow> 'q list) \<Rightarrow> (nat \<Rightarrow> nat list list list \<Rightarrow> nat list list) \<Rightarrow> (nat \<Rightarrow> 'x list list \<Rightarrow> 'x list)
     \<Rightarrow> (int list \<Rightarrow> int) \<Rightarrow> ('x, 'q, 'm) quantizer \<Rightarrow> (nat \<Rightarrow> 'x list \<Rightarrow> 'o) \<Rightarrow> (nat \<Rightarrow> ('q, 'm) mxfp8_input \<Rightarrow> 'o)
     \<Rightarrow> sp_plan \<Rightarrow> nat \<Rightarrow> 'x list list \<Rightarrow> (nat \<rightharpoonup> bool \<times> 'm)
     \<Rightarrow> ((nat \<rightharpoonup> bool \<times> 'm) \<times> ('q, 'm) mxfp8_input option \<times> 'x list option) res" where
  "fp8_input agq ags agx amin quant wq wqq p k xs st =
     (case st (p_rows p) of
        Some (False, _) \<Rightarrow> Inr (st, None, None)
      | s \<Rightarrow>
          bind_res (mxfp8_gather agq ags quant p k xs) (\<lambda>(qg, sg).
          bind_res (swizzle_128x4 (k div 32) sg) (\<lambda>sw.
            case s of
              Some (_, meta) \<Rightarrow> Inr (st, Some (qg, sw, meta), None)
            | None \<Rightarrow>
                let xb = gather_rows agx p xs;
                    (rq, rs, meta) = quant True xb;
                    locals = map (\<lambda>r. rq = qg \<and> rs = sw \<and> wq r xb = wqq r (qg, sw, meta)) [0..<p_world p];
                    ok = agree_min amin locals;
                    st = st(p_rows p \<mapsto> (ok, meta))
                in if ok then Inr (st, Some (qg, sw, meta), None) else Inr (st, None, Some xb))))"

section \<open>Routing on the shard\<close>

text \<open>A top-k output: whether its type is a standard-format tuple, whether its fields are 2-D tensors of 4-byte
  elements, and the fields other than \<open>router_logits\<close> with their widths and rows of 32-bit words.\<close>

record topk_out =
  tk_std :: bool
  tk_words :: bool
  tk_fields :: "(string \<times> nat \<times> int list list) list"

definition topk_fields :: "topk_out \<Rightarrow> string list res" where
  "topk_fields t = (if tk_std t then Inr (map fst (tk_fields t)) else Inl RuntimeError)"

definition topk_well_shaped :: "nat \<Rightarrow> topk_out \<Rightarrow> bool" where
  "topk_well_shaped s t = (tk_words t \<and> list_all (\<lambda>(_, _, v). length v = s) (tk_fields t))"

definition danger_rows :: "nat list list \<Rightarrow> int list list" where
  "danger_rows sf = map (\<lambda>row. [if 0 \<in> set row then 1 else 0]) sf"

text \<open>One row of every field side by side.\<close>

definition packed_row :: "topk_out \<Rightarrow> nat \<Rightarrow> int list" where
  "packed_row t i = concat (map (\<lambda>(_, _, v). v ! i) (tk_fields t))"

fun split_fields :: "nat \<Rightarrow> (string \<times> nat \<times> int list list) list \<Rightarrow> int list list \<Rightarrow> (string \<times> nat \<times> int list list) list" where
  "split_fields c [] g = []"
| "split_fields c ((n, w, _) # fs) g = (n, w, map (slice c (c + w)) g) # split_fields (c + w) fs g"

definition gather_topk_out ::
    "(nat \<Rightarrow> int list list list \<Rightarrow> int list list) \<Rightarrow> sp_plan \<Rightarrow> topk_out list \<Rightarrow> int list list list option
     \<Rightarrow> (topk_out \<times> int list list option) res" where
  "gather_topk_out agi p ts extras =
     (let t = ts ! p_rank p in
      if \<not> tk_std t \<or> \<not> topk_well_shaped (p_shard p) t then Inl RuntimeError
      else
        let cols = map (\<lambda>r. map (\<lambda>i. packed_row (ts ! r) i
                     @ (case extras of Some e \<Rightarrow> e ! r ! i | None \<Rightarrow> [])) [0..<p_shard p]) [0..<p_world p];
            g = gather_rows agi p cols;
            c = sum_list (map (\<lambda>(_, w, _). w) (tk_fields t))
        in Inr (t\<lparr>tk_fields := split_fields 0 (tk_fields t) g\<rparr>,
                case extras of Some _ \<Rightarrow> Some (map (drop c) g) | None \<Rightarrow> None))"

definition topk_equal :: "topk_out \<Rightarrow> topk_out \<Rightarrow> bool" where
  "topk_equal a b = (tk_std a = tk_std b \<and> tk_fields a = tk_fields b)"

datatype router = On_shard | Padded

record 't moe_args =
  a_ids :: "'t list option"
  a_ntnp :: "int option"

text \<open>\<open>gate\<close> is the router GEMM, \<open>topk x logits ids ntnp\<close> the routing call of \<open>_topk_call\<close>.\<close>

definition route_local ::
    "'x \<Rightarrow> ('x list \<Rightarrow> 'l list) \<Rightarrow> ('x list \<Rightarrow> 'l list \<Rightarrow> 't list option \<Rightarrow> int option \<Rightarrow> topk_out res)
     \<Rightarrow> sp_plan \<Rightarrow> 'x list \<Rightarrow> 't moe_args \<Rightarrow> router \<Rightarrow> topk_out res" where
  "route_local zero gate topk p x a mode =
     (let logits = (case mode of
            On_shard \<Rightarrow> gate x
          | Padded \<Rightarrow> slice (p_lo p) (p_hi p)
                        (gate (replicate (p_lo p) zero @ x @ replicate (p_rows p - p_hi p) zero)));
          ntnp = map_option (\<lambda>n. max 0 (min (n - int (p_lo p)) (int (p_shard p)))) (a_ntnp a);
          ids = map_option (slice (p_lo p) (p_hi p)) (a_ids a)
      in topk x logits ids ntnp)"

definition route_stock ::
    "('x list \<Rightarrow> 'l list) \<Rightarrow> ('x list \<Rightarrow> 'l list \<Rightarrow> 't list option \<Rightarrow> int option \<Rightarrow> topk_out res)
     \<Rightarrow> 'x list \<Rightarrow> 't moe_args \<Rightarrow> topk_out res" where
  "route_stock gate topk x a = topk x (gate x) (a_ids a) (a_ntnp a)"

text \<open>\<open>_topk_call\<close>: \<open>vision_topk\<close> when the router has a VL bias, else \<open>topk\<close>, with the ids on hash layers.\<close>

definition topk_call ::
    "bool \<Rightarrow> bool \<Rightarrow> ('l list \<Rightarrow> 't list option \<Rightarrow> int option \<Rightarrow> topk_out res)
     \<Rightarrow> ('x list \<Rightarrow> 'l list \<Rightarrow> int option \<Rightarrow> 't list option \<Rightarrow> topk_out res)
     \<Rightarrow> 'x list \<Rightarrow> 'l list \<Rightarrow> 't list option \<Rightarrow> int option \<Rightarrow> topk_out res" where
  "topk_call has_vl is_hash vision_topk moe_topk x logits ids ntnp =
     (if has_vl then vision_topk logits ids ntnp
      else moe_topk x logits ntnp (if is_hash then ids else None))"

section \<open>The MoE input gather\<close>

text \<open>What \<open>moe8_static_reason\<close> reads of a MoE layer and of \<open>moe_b12x_next\<close>; an attribute access that fails is
  \<open>inspect_fails\<close>.\<close>

record moe8_attrs =
  cached_reason :: "string option"
  inspect_fails :: bool
  mbn_enabled :: bool
  mbn_deterministic :: bool
  mbn_impl_none :: bool
  experts_on_b12x :: bool
  fused_shared :: nat
  fused_inside_sbo :: bool
  gate_weight_2d :: bool
  has_shared :: bool
  gate_topk_submodules :: bool

definition moe8_static_reason :: "moe8_attrs \<Rightarrow> moe8_attrs \<times> string" where
  "moe8_static_reason m =
     (case cached_reason m of
        Some v \<Rightarrow> (m, v)
      | None \<Rightarrow>
          let v = (if inspect_fails m then ''inspection failed''
                   else if \<not> (mbn_enabled m \<and> mbn_deterministic m)
                   then ''needs DSV41_MOE_B12X_NEXT=1 with _DETERMINISTIC=1 (bit-exact self-check)''
                   else if mbn_impl_none m then ''b12x_next lacks the prequant-input patch''
                   else if \<not> experts_on_b12x m then ''routed experts are not on b12x_next''
                   else if fused_shared m \<noteq> 0 then ''fused shared experts''
                   else if fused_inside_sbo m then ''shared experts inside SBO''
                   else if \<not> gate_weight_2d m then ''router weight''
                   else if \<not> has_shared m then ''no shared expert''
                   else if \<not> gate_topk_submodules m then ''router / top-k are not submodules''
                   else [])
          in (m\<lparr>cached_reason := Some v\<rparr>, v))"

text \<open>The MoE's router and top-k submodules and the override of its quantize-once method.\<close>

datatype moe_module = Stock | Stub topk_out

record ('q, 'm) moe_mods =
  m_gate :: moe_module
  m_topk :: moe_module
  m_quant_once :: "('q, 'm) mxfp8_input option"

definition swapped_enter :: "topk_out \<Rightarrow> ('q, 'm) mxfp8_input \<Rightarrow> ('q, 'm) moe_mods \<Rightarrow> (moe_module \<times> moe_module) \<times> ('q, 'm) moe_mods" where
  "swapped_enter tk pre m = ((m_gate m, m_topk m), m\<lparr>m_gate := Stub tk, m_topk := Stub tk, m_quant_once := Some pre\<rparr>)"

definition swapped_exit :: "moe_module \<times> moe_module \<Rightarrow> ('q, 'm) moe_mods \<Rightarrow> ('q, 'm) moe_mods" where
  "swapped_exit saved m = m\<lparr>m_gate := fst saved, m_topk := snd saved, m_quant_once := None\<rparr>"

text \<open>\<open>run\<close> is the stock MoE on the placeholder with the given modules: its output and how often it called the
  router, the top-k, the quantize-once method and the pre-quantized launch.\<close>

definition moe8_call ::
    "(('q, 'm) moe_mods \<Rightarrow> ('o list \<times> nat \<times> nat \<times> nat \<times> nat) res) \<Rightarrow> topk_out \<Rightarrow> ('q, 'm) mxfp8_input
     \<Rightarrow> ('q, 'm) moe_mods \<Rightarrow> ('q, 'm) moe_mods \<times> 'o list res" where
  "moe8_call run tk pre m =
     (let (saved, m1) = swapped_enter tk pre m;
          m2 = swapped_exit saved m1
      in (m2, bind_res (run m1) (\<lambda>(out, hits).
                if hits = (1, 1, 1, 1) then Inr out else Inl RuntimeError)))"

record 'm moe8_state =
  s_ok :: bool
  s_router :: "router option"
  s_meta :: "'m option"

text \<open>The engine's side of one MoE layer: quantizer, router, top-k, the stock MoE of each rank on bf16 rows and on the
  placeholder, and what the stock launch leaves in the plan's input storage.\<close>

record ('x, 'q, 'm, 'l, 't, 'o) moe_ops =
  mo_zero :: 'x
  mo_quant :: "('x, 'q, 'm) quantizer"
  mo_gate :: "'x list \<Rightarrow> 'l list"
  mo_topk :: "nat \<Rightarrow> 'x list \<Rightarrow> 'l list \<Rightarrow> 't list option \<Rightarrow> int option \<Rightarrow> topk_out res"
  mo_stock :: "nat \<Rightarrow> 'x list \<Rightarrow> 'o list"
  mo_pre :: "nat \<Rightarrow> ('q, 'm) moe_mods \<Rightarrow> ('o list \<times> nat \<times> nat \<times> nat \<times> nat) res"
  mo_storage :: "nat \<Rightarrow> 'x list \<Rightarrow> 'q list \<times> nat list list"

text \<open>The group: its gathers at the types used and its \<open>MIN\<close>.\<close>

record ('x, 'q) sp_group =
  g_x :: "nat \<Rightarrow> 'x list list \<Rightarrow> 'x list"
  g_q :: "nat \<Rightarrow> 'q list list \<Rightarrow> 'q list"
  g_s :: "nat \<Rightarrow> nat list list list \<Rightarrow> nat list list"
  g_i :: "nat \<Rightarrow> int list list list \<Rightarrow> int list list"
  g_min :: "int list \<Rightarrow> int"

definition is_ok :: "'a res \<Rightarrow> bool" where
  "is_ok r = (case r of Inr _ \<Rightarrow> True | Inl _ \<Rightarrow> False)"

definition get_ok :: "'a \<Rightarrow> 'a res \<Rightarrow> 'a" where
  "get_ok d r = (case r of Inr x \<Rightarrow> x | Inl _ \<Rightarrow> d)"

definition no_topk :: topk_out where
  "no_topk = \<lparr> tk_std = False, tk_words = False, tk_fields = [] \<rparr>"

text \<open>The loop over the two router modes: the first mode whose gathered top-k equals the stock one on every rank.\<close>

fun choose_router ::
    "('x, 'q) sp_group \<Rightarrow> ('x, 'q, 'm, 'l, 't, 'o) moe_ops \<Rightarrow> sp_plan list \<Rightarrow> 'x list list \<Rightarrow> 't moe_args \<Rightarrow> topk_out res list
     \<Rightarrow> router list \<Rightarrow> (router \<times> topk_out) option" where
  "choose_router G M plans xs a refs [] = None"
| "choose_router G M plans xs a refs (mode # modes) =
     (if \<not> agree_min (g_min G) (map (\<lambda>t. is_ok (bind_res t topk_fields)) refs) then None
      else
        let ts = map (\<lambda>(p, x). route_local (mo_zero M) (mo_gate M) (mo_topk M (p_rank p)) p x a mode) (zip plans xs);
            good = map (\<lambda>(p, t). is_ok (bind_res t topk_fields) \<and> topk_well_shaped (p_shard p) (get_ok no_topk t)) (zip plans ts)
        in if \<not> agree_min (g_min G) good then None
           else
             let outs = map (\<lambda>p. fst (get_ok (no_topk, None) (gather_topk_out (g_i G) p (map (get_ok no_topk) ts) None))) plans;
                 same = map (\<lambda>(o', t). topk_equal o' (get_ok no_topk t)) (zip outs refs)
             in if agree_min (g_min G) same then Some (mode, hd outs)
                else choose_router G M plans xs a refs modes)"

definition moe8_first ::
    "('x, 'q) sp_group \<Rightarrow> ('x, 'q, 'm, 'l, 't, 'o) moe_ops \<Rightarrow> sp_plan list \<Rightarrow> nat \<Rightarrow> 'x list list \<Rightarrow> 't moe_args \<Rightarrow> ('q, 'm) moe_mods
     \<Rightarrow> (nat \<rightharpoonup> 'm moe8_state) \<Rightarrow> (nat \<rightharpoonup> 'm moe8_state) \<times> 'o list list res" where
  "moe8_first G M plans k xs a mods st =
     (let p = hd plans;
          xb = gather_rows (g_x G) p xs;
          t_refs = map (\<lambda>p. route_stock (mo_gate M) (mo_topk M (p_rank p)) xb a) plans;
          chosen = choose_router G M plans xs a t_refs [On_shard, Padded];
          ref = map (\<lambda>p. mo_stock M (p_rank p) xb) plans;
          off = \<lparr>s_ok = False, s_router = None, s_meta = None\<rparr>
      in case chosen of
           None \<Rightarrow> (st(p_rows p \<mapsto> off), Inr ref)
         | Some (router, tk) \<Rightarrow>
             let shards8 = map (mxfp8_shard (mo_quant M) k) xs;
                 agreed = agree_min (g_min G) (map is_ok shards8);
                 safe = agree_min (g_min G) (map (\<lambda>s. \<not> (\<exists>row \<in> set (danger_rows (snd (get_ok ([], []) s))). row \<noteq> [0])) shards8)
             in if \<not> agreed then (st(p_rows p \<mapsto> off), Inr ref)
                else if \<not> safe then (st, Inr ref)
                else
                  let dst_q = g_q G (p_rows p) (map (fst \<circ> get_ok ([], [])) shards8);
                      dst_sf = g_s G (p_rows p) (map (snd \<circ> get_ok ([], [])) shards8);
                      meta = snd (snd (mo_quant M True xb))
                  in case swizzle_128x4 (k div 32) dst_sf of
                       Inl e \<Rightarrow> (st, Inl e)
                     | Inr sw \<Rightarrow>
                         let out8 = map (\<lambda>p. snd (moe8_call (mo_pre M (p_rank p)) tk (dst_q, sw, meta) mods)) plans;
                             locals = map (\<lambda>(p, o8). is_ok o8
                                        \<and> mo_storage M (p_rank p) xb = (dst_q, dst_sf)
                                        \<and> get_ok [] o8 = mo_stock M (p_rank p) xb) (zip plans out8);
                             ok = agree_min (g_min G) locals
                         in (st(p_rows p \<mapsto> \<lparr>s_ok = ok, s_router = Some router, s_meta = Some meta\<rparr>),
                             Inr (if ok then map (get_ok []) out8 else ref)))"

text \<open>\<open>target\<close>: \<open>prequant_target\<close> has a plan for the chunk; \<open>None\<close> in the result asks for the bf16 gather.\<close>

definition moe8_forward ::
    "('x, 'q) sp_group \<Rightarrow> ('x, 'q, 'm, 'l, 't, 'o) moe_ops \<Rightarrow> sp_plan list \<Rightarrow> nat \<Rightarrow> moe8_attrs \<Rightarrow> bool \<Rightarrow> 'x list list
     \<Rightarrow> 't moe_args \<Rightarrow> ('q, 'm) moe_mods \<Rightarrow> (nat \<rightharpoonup> 'm moe8_state) \<Rightarrow> (nat \<rightharpoonup> 'm moe8_state) \<times> 'o list list option res" where
  "moe8_forward G M plans k attrs target xs a mods st =
     (let p = hd plans; s = st (p_rows p) in
      if (case s of Some s \<Rightarrow> \<not> s_ok s | None \<Rightarrow> False) \<or> snd (moe8_static_reason attrs) \<noteq> [] \<or> \<not> target
      then (st, Inr None)
      else case s of
        None \<Rightarrow> (case moe8_first G M plans k xs a mods st of (st, outs) \<Rightarrow> (st, bind_res outs (\<lambda>o'. Inr (Some o'))))
      | Some s \<Rightarrow>
          (st, bind_res (seq_res (map (\<lambda>(p, x). route_local (mo_zero M) (mo_gate M) (mo_topk M (p_rank p)) p x a
                                         (the (s_router s))) (zip plans xs))) (\<lambda>ts.
               bind_res (seq_res (map (mxfp8_shard (mo_quant M) k) xs)) (\<lambda>s8.
               bind_res (seq_res (map (\<lambda>p. gather_topk_out (g_i G) p ts (Some (map (danger_rows \<circ> snd) s8))) plans)) (\<lambda>tks.
                 if \<exists>row \<in> set (the (snd (hd tks))). row \<noteq> [0] then Inr None
                 else
                   let dst_q = g_q G (p_rows p) (map fst s8); dst_sf = g_s G (p_rows p) (map snd s8)
                   in bind_res (swizzle_128x4 (k div 32) dst_sf) (\<lambda>sw.
                      bind_res (seq_res (map (\<lambda>(p, tk). snd (moe8_call (mo_pre M (p_rank p)) (fst tk)
                                                          (dst_q, sw, the (s_meta s)) mods)) (zip plans tks))) (\<lambda>outs.
                      Inr (Some outs))))))))"

section \<open>Lemmas\<close>

lemma nth_concat_upt:
  assumes "\<And>i. i < k \<Longrightarrow> length (f i) = n" and "i < k" and "j < n"
  shows "concat (map f [0..<k]) ! (i * n + j) = f i ! j"
  using concat_nth_uniform [of n "map f [0..<k]" i j] assms by (simp add: list_all_length)

lemma length_concat_upt:
  assumes "\<And>i. i < k \<Longrightarrow> length (f i) = n"
  shows "length (concat (map f [0..<k])) = k * n"
  using assms by (induction k) auto

lemma swizzle_position:
  assumes "g mod 4 = 0" and "swizzle_128x4 g s_lin = Inr out" and "m < length s_lin" and "j < g"
  shows "out ! (((((m div 128) * (g div 4) + j div 4) * 32 + m mod 32) * 4 + (m mod 128) div 32) * 4 + j mod 4)
    = s_lin ! m ! j" (is "out ! ?pos = _")
proof -
  define mt where "mt = (length s_lin + 127) div 128"
  define s where "s = (if mt * 128 \<noteq> length s_lin
    then s_lin @ replicate (mt * 128 - length s_lin) (replicate g 0) else s_lin)"
  define cell where "cell = (\<lambda>t c a b. map (\<lambda>d. s ! (t * 128 + b * 32 + a) ! (c * 4 + d)) [0..<4])"
  define tile where "tile = (\<lambda>t c. concat (map (\<lambda>a. concat (map (cell t c a) [0..<4])) [0..<32]))"
  define band where "band = (\<lambda>t. concat (map (tile t) [0..<g div 4]))"
  have out: "out = concat (map band [0..<mt])"
    using assms(1,2) unfolding swizzle_128x4_def Let_def mt_def [symmetric] s_def [symmetric]
    by (simp add: cell_def tile_def band_def)
  have cl: "length (concat (map (cell t c a) [0..<4])) = 4 * 4" for t c a
    by (rule length_concat_upt) (simp add: cell_def)
  have tl: "length (tile t c) = 32 * (4 * 4)" for t c
    unfolding tile_def by (rule length_concat_upt) (rule cl)
  have bl: "length (band t) = g div 4 * (32 * (4 * 4))" for t
    unfolding band_def by (rule length_concat_upt) (rule tl)
  define t c a b d where "t = m div 128" and "c = j div 4" and "a = m mod 32" and "b = (m mod 128) div 32" and "d = j mod 4"
  have bounds: "t < mt" "c < g div 4" "a < 32" "b < 4" "d < 4"
    using assms(1,3,4) by (auto simp: t_def c_def a_def b_def d_def mt_def)
  have "m mod 128 mod 32 = m mod 32" by (rule mod_mod_cancel) simp
  then have "b * 32 + a = m mod 128" using div_mult_mod_eq [of "m mod 128" 32] by (simp only: a_def b_def)
  then have m: "t * 128 + b * 32 + a = m" using div_mult_mod_eq [of m 128] by (simp only: t_def add.assoc)
  define N :: nat where "N = 32 * (4 * 4)"
  have z: "b * 4 + d < 4 * 4" using bounds by linarith
  then have y: "a * (4 * 4) + (b * 4 + d) < N" using bounds unfolding N_def by linarith
  have "c * N + (a * (4 * 4) + (b * 4 + d)) < Suc c * N" using y by simp
  also have "\<dots> \<le> g div 4 * N" using bounds(2) by (intro mult_le_mono1) simp
  finally have x: "c * N + (a * (4 * 4) + (b * 4 + d)) < g div 4 * N" .
  have "?pos = t * (g div 4 * N) + (c * N + (a * (4 * 4) + (b * 4 + d)))"
    unfolding t_def [symmetric] c_def [symmetric] a_def [symmetric] b_def [symmetric] d_def [symmetric] N_def
    by (simp only: algebra_simps)
  also have "out ! \<dots> = band t ! (c * N + (a * (4 * 4) + (b * 4 + d)))"
    unfolding out using bl by (intro nth_concat_upt bounds x) (simp only: N_def)
  also have "\<dots> = tile t c ! (a * (4 * 4) + (b * 4 + d))"
    unfolding band_def using tl by (intro nth_concat_upt bounds y) (simp only: N_def)
  also have "\<dots> = concat (map (cell t c a) [0..<4]) ! (b * 4 + d)"
    unfolding tile_def by (intro nth_concat_upt bounds z cl)
  also have "\<dots> = cell t c a b ! d"
    by (intro nth_concat_upt bounds) (simp add: cell_def)
  also have "\<dots> = s ! (t * 128 + b * 32 + a) ! (c * 4 + d)" using bounds by (simp add: cell_def)
  also have "t * 128 + b * 32 + a = m" by (fact m)
  also have "c * 4 + d = j" by (simp add: c_def d_def)
  also have "s ! m = s_lin ! m" using assms(3) by (simp add: s_def nth_append)
  finally show ?thesis .
qed

lemma seq_res_Inr: "seq_res (map f xs) = Inr ys \<longleftrightarrow> length ys = length xs \<and> (\<forall>i < length xs. f (xs ! i) = Inr (ys ! i))"
proof (induction xs arbitrary: ys)
  case (Cons x xs)
  show ?case
  proof
    assume "seq_res (map f (x # xs)) = Inr ys"
    then obtain y zs where "f x = Inr y" "seq_res (map f xs) = Inr zs" "ys = y # zs"
      by (auto simp: bind_res_Inr_iff)
    moreover from this have "length zs = length xs \<and> (\<forall>i < length xs. f (xs ! i) = Inr (zs ! i))"
      using Cons.IH [of zs] by simp
    ultimately show "length ys = length (x # xs) \<and> (\<forall>i < length (x # xs). f ((x # xs) ! i) = Inr (ys ! i))"
      by (auto simp: less_Suc_eq_0_disj)
  next
    assume r: "length ys = length (x # xs) \<and> (\<forall>i < length (x # xs). f ((x # xs) ! i) = Inr (ys ! i))"
    then obtain y zs where ys: "ys = y # zs" by (cases ys) auto
    have "f x = Inr y" using r ys by auto
    moreover have "seq_res (map f xs) = Inr zs" using r ys Cons.IH by auto
    ultimately show "seq_res (map f (x # xs)) = Inr ys" by (simp add: ys)
  qed
qed auto

lemma all_ranks_equal:
  assumes "takes_min amin" and "plans \<noteq> []"
    and "agree_min amin (map (\<lambda>(p, o'). A p o' \<and> g o' = h p) (zip plans (map f plans)))"
  shows "map g (map f plans) = map h plans" and "\<forall>p \<in> set plans. A p (f p)"
proof -
  have "\<forall>l \<in> set (map (\<lambda>(p, o'). A p o' \<and> g o' = h p) (zip plans (map f plans))). l"
    using assms by (subst agree_min_iff [symmetric]) auto
  then have "\<forall>p \<in> set plans. A p (f p) \<and> g (f p) = h p" by (auto simp: zip_map2 zip_same_conv_map)
  then show "map g (map f plans) = map h plans" and "\<forall>p \<in> set plans. A p (f p)" by auto
qed

lemma moe8_first_cases:
  assumes "takes_min (g_min G)" and "plans \<noteq> []" and "moe8_first G M plans k xs a mods st = (st', Inr outs)"
  shows "outs = map (\<lambda>p. mo_stock M (p_rank p) (gather_rows (g_x G) (hd plans) xs)) plans
    \<and> (\<forall>n. n \<noteq> p_rows (hd plans) \<longrightarrow> st' n = st n)
    \<and> (st' = st \<or> (\<exists>s. st' (p_rows (hd plans)) = Some s \<and> (s_ok s \<longrightarrow>
         (\<forall>p \<in> set plans. mo_storage M (p_rank p) (gather_rows (g_x G) (hd plans) xs)
            = (gather_rows (g_q G) (hd plans) (map (fst \<circ> get_ok ([], []) \<circ> mxfp8_shard (mo_quant M) k) xs),
               gather_rows (g_s G) (hd plans) (map (snd \<circ> get_ok ([], []) \<circ> mxfp8_shard (mo_quant M) k) xs))))))"
proof -
  let ?p = "hd plans" and ?xb = "gather_rows (g_x G) (hd plans) xs"
  let ?ref = "map (\<lambda>p. mo_stock M (p_rank p) ?xb) plans"
  obtain chosen where ch: "choose_router G M plans xs a
      (map (\<lambda>p. route_stock (mo_gate M) (mo_topk M (p_rank p)) ?xb a) plans) [On_shard, Padded] = chosen" by blast
  show ?thesis
  proof (cases chosen)
    case None
    with assms(3) ch show ?thesis by (auto simp: moe8_first_def Let_def)
  next
    case (Some rt)
    obtain router tk where rt: "rt = (router, tk)" by (cases rt)
    define s8 where "s8 = map (mxfp8_shard (mo_quant M) k) xs"
    define dq where "dq = g_q G (p_rows ?p) (map (fst \<circ> get_ok ([], [])) s8)"
    define ds where "ds = g_s G (p_rows ?p) (map (snd \<circ> get_ok ([], [])) s8)"
    define meta where "meta = snd (snd (mo_quant M True ?xb))"
    note unf = assms(3) [unfolded moe8_first_def Let_def ch Some rt option.case prod.case, folded s8_def,
        folded dq_def ds_def meta_def]
    show ?thesis
    proof (cases "agree_min (g_min G) (map is_ok s8) \<and>
        agree_min (g_min G) (map (\<lambda>s. \<not> (\<exists>row \<in> set (danger_rows (snd (get_ok ([], []) s))). row \<noteq> [0])) s8)")
      case False
      with unf show ?thesis by (auto split: if_splits)
    next
      case True
      then obtain sw where sw: "swizzle_128x4 (k div 32) ds = Inr sw"
        using unf by (cases "swizzle_128x4 (k div 32) ds") auto
      define f where "f = (\<lambda>p :: sp_plan. snd (moe8_call (mo_pre M (p_rank p)) tk (dq, sw, meta) mods))"
      define ok where "ok = agree_min (g_min G) (map (\<lambda>(p, o8). (is_ok o8 \<and> mo_storage M (p_rank p) ?xb = (dq, ds))
        \<and> get_ok [] o8 = mo_stock M (p_rank p) ?xb) (zip plans (map f plans)))"
      have st': "st' = st(p_rows ?p \<mapsto> \<lparr>s_ok = ok, s_router = Some router, s_meta = Some meta\<rparr>)"
        and outs: "outs = (if ok then map (get_ok []) (map f plans) else ?ref)"
        using unf True sw unfolding ok_def f_def by (simp_all add: conj_assoc split del: if_split)
      show ?thesis
      proof (cases ok)
        case True
        from all_ranks_equal [OF assms(1,2) this [unfolded ok_def]] st' outs True show ?thesis
          by (auto simp: dq_def ds_def s8_def gather_rows_def comp_assoc)
      qed (use st' outs in auto)
    qed
  qed
qed

lemma split_fields_nth:
  "i < length fs \<Longrightarrow> split_fields c fs g ! i
     = (fst (fs ! i), fst (snd (fs ! i)),
        map (slice (c + sum_list (map (\<lambda>(_, w, _). w) (take i fs)))
               (c + sum_list (map (\<lambda>(_, w, _). w) (take i fs)) + fst (snd (fs ! i)))) g)"
  by (induction c fs g arbitrary: i rule: split_fields.induct) (auto simp: less_Suc_eq_0_disj algebra_simps)

lemma length_split_fields [simp]: "length (split_fields c fs g) = length fs"
  by (induction c fs g rule: split_fields.induct) auto

text \<open>A top-k output of \<open>s\<close> rows whose fields have the names and widths \<open>ns\<close>.\<close>

definition topk_layout :: "nat \<Rightarrow> (string \<times> nat) list \<Rightarrow> topk_out \<Rightarrow> bool" where
  "topk_layout s ns t = (tk_std t \<and> tk_words t \<and> map (\<lambda>(n, w, _). (n, w)) (tk_fields t) = ns
     \<and> list_all (\<lambda>(_, w, v). length v = s \<and> list_all (\<lambda>row. length row = w) v) (tk_fields t))"

definition field_rows :: "topk_out \<Rightarrow> nat \<Rightarrow> int list list" where
  "field_rows t i = snd (snd (tk_fields t ! i))"

lemma topk_layout_fields:
  assumes "topk_layout s ns t"
  shows "length (tk_fields t) = length ns" and "map (\<lambda>(_, w, _). w) (tk_fields t) = map snd ns"
    and "i < length ns \<Longrightarrow> fst (tk_fields t ! i) = fst (ns ! i) \<and> fst (snd (tk_fields t ! i)) = snd (ns ! i)"
    and "i < length ns \<Longrightarrow> length (field_rows t i) = s"
    and "i < length ns \<Longrightarrow> j < s \<Longrightarrow> length (field_rows t i ! j) = snd (ns ! i)"
proof -
  have ns: "ns = map (\<lambda>(n, w, _). (n, w)) (tk_fields t)" using assms by (simp add: topk_layout_def)
  have l: "i < length (tk_fields t) \<Longrightarrow> length (field_rows t i) = s \<and> (\<forall>j < s. length (field_rows t i ! j) = fst (snd (tk_fields t ! i)))" for i
    using assms by (auto simp: topk_layout_def list_all_length case_prod_beta field_rows_def)
  show "length (tk_fields t) = length ns" and "map (\<lambda>(_, w, _). w) (tk_fields t) = map snd ns"
    by (auto simp: ns)
  show "i < length ns \<Longrightarrow> fst (tk_fields t ! i) = fst (ns ! i) \<and> fst (snd (tk_fields t ! i)) = snd (ns ! i)"
    by (simp add: ns case_prod_beta)
  show "i < length ns \<Longrightarrow> length (field_rows t i) = s" using l by (simp add: ns)
  show "i < length ns \<Longrightarrow> j < s \<Longrightarrow> length (field_rows t i ! j) = snd (ns ! i)"
    using l by (simp add: ns case_prod_beta)
qed

lemma packed_row_eq:
  assumes "topk_layout s ns t"
  shows "packed_row t j = concat (map (\<lambda>i. field_rows t i ! j) [0..<length ns])"
  unfolding packed_row_def
  by (rule arg_cong [where f = concat], rule nth_equalityI)
     (auto simp: topk_layout_fields(1) [OF assms] field_rows_def case_prod_beta)

lemma packed_prefix_length:
  assumes "topk_layout s ns t" and "j < s" and "i \<le> length ns"
  shows "length (concat (map (\<lambda>i. field_rows t i ! j) [0..<i])) = sum_list (map snd (take i ns))"
  using assms(3)
proof (induction i)
  case (Suc i)
  then show ?case using topk_layout_fields(5) [OF assms(1) _ assms(2), of i] by (simp add: take_Suc_conv_app_nth)
qed simp

lemma slice_packed:
  assumes "topk_layout s ns t" and "j < s" and "i < length ns"
  shows "slice (sum_list (map snd (take i ns))) (sum_list (map snd (take i ns)) + snd (ns ! i)) (packed_row t j @ rest)
    = field_rows t i ! j"
proof -
  have "[0..<length ns] = [0..<i] @ i # [Suc i..<length ns]"
    using assms(3) by (metis less_imp_add_positive le0 upt_add_eq_append upt_conv_Cons add_0 less_imp_le_nat le_add_diff_inverse)
  then have "packed_row t j = concat (map (\<lambda>i. field_rows t i ! j) [0..<i]) @ field_rows t i ! j
      @ concat (map (\<lambda>i. field_rows t i ! j) [Suc i..<length ns])"
    by (simp add: packed_row_eq [OF assms(1)])
  then show ?thesis
    using packed_prefix_length [OF assms(1,2), of i] topk_layout_fields(5) [OF assms(1,3,2)] assms(3)
    by (simp add: slice_def)
qed

lemma drop_packed:
  assumes "topk_layout s ns t" and "j < s"
  shows "drop (sum_list (map snd ns)) (packed_row t j @ rest) = rest"
  using packed_prefix_length [OF assms, of "length ns"] by (simp add: packed_row_eq [OF assms(1)])

lemma gather_topk_rows:
  assumes "gathers agi" and "\<And>r. r < p_world p \<Longrightarrow> topk_layout (p_shard p) ns (ts ! r)"
    and "length ts = p_world p" and "p_rank p < p_world p" and "p_rows p = p_world p * p_shard p"
    and "length e = p_world p" and "\<And>r. r < p_world p \<Longrightarrow> length (e ! r) = p_shard p"
  obtains tk where "gather_topk_out agi p ts (Some e) = Inr (tk, Some (concat e))"
    and "tk_std tk" and "length (tk_fields tk) = length ns"
    and "\<And>i. i < length ns \<Longrightarrow> tk_fields tk ! i = (fst (ns ! i), snd (ns ! i), concat (map (\<lambda>t. field_rows t i) ts))"
proof -
  let ?w = "p_world p" and ?s = "p_shard p" and ?t = "ts ! p_rank p"
  define cols where "cols = map (\<lambda>r. map (\<lambda>i. packed_row (ts ! r) i @ e ! r ! i) [0..<?s]) [0..<?w]"
  have lay: "topk_layout ?s ns ?t" using assms by simp
  have "length (concat cols) = ?w * ?s"
    unfolding cols_def by (intro length_concat_upt) simp
  then have g: "gather_rows agi p cols = concat cols"
    by (simp add: gather_rows_def assms(5) gathersD [OF assms(1)])
  have fields: "map (slice a b) (concat cols) = concat (map (\<lambda>t. field_rows t i) ts)"
    if "i < length ns" "a = sum_list (map snd (take i ns))" "b = a + snd (ns ! i)" for i a b
  proof -
    have "map (slice a b) (map (\<lambda>j. packed_row (ts ! r) j @ e ! r ! j) [0..<?s]) = field_rows (ts ! r) i" if "r < ?w" for r
      using topk_layout_fields(4) [OF assms(2) [OF that] \<open>i < length ns\<close>] slice_packed [OF assms(2) [OF that] _ \<open>i < length ns\<close>]
      by (intro nth_equalityI) (simp_all add: \<open>a = _\<close> \<open>b = _\<close>)
    then have "map (slice a b) (concat cols) = concat (map (\<lambda>r. field_rows (ts ! r) i) [0..<?w])"
      unfolding cols_def map_concat map_map by (intro arg_cong [where f = concat] map_cong) auto
    also have "map (\<lambda>r. field_rows (ts ! r) i) [0..<?w] = map (\<lambda>t. field_rows t i) ts"
      by (rule nth_equalityI) (auto simp: assms(3))
    finally show ?thesis .
  qed
  have "map (drop (sum_list (map snd ns))) (map (\<lambda>j. packed_row (ts ! r) j @ e ! r ! j) [0..<?s]) = e ! r" if "r < ?w" for r
    using drop_packed [OF assms(2) [OF that]] assms(7) [OF that] by (intro nth_equalityI) simp_all
  then have "map (drop (sum_list (map snd ns))) (concat cols) = concat (map (\<lambda>r. e ! r) [0..<?w])"
    unfolding cols_def map_concat map_map by (intro arg_cong [where f = concat] map_cong) auto
  then have ex: "map (drop (sum_list (map snd ns))) (concat cols) = concat e"
    using assms(6) by (metis map_nth)
  have ok: "tk_std ?t" "topk_well_shaped ?s ?t"
    using lay by (auto simp: topk_layout_def topk_well_shaped_def list_all_iff)
  let ?tk = "?t\<lparr>tk_fields := split_fields 0 (tk_fields ?t) (concat cols)\<rparr>"
  have "gather_topk_out agi p ts (Some e) = Inr (?tk, Some (concat e))"
    using ok ex g topk_layout_fields(2) [OF lay] by (simp add: gather_topk_out_def Let_def flip: cols_def)
  moreover have "tk_fields ?tk ! i = (fst (ns ! i), snd (ns ! i), concat (map (\<lambda>t. field_rows t i) ts))" if "i < length ns" for i
    using that topk_layout_fields(1,2,3) [OF lay] fields [OF that]
    by (simp add: split_fields_nth take_map [symmetric])
  ultimately show ?thesis using that [of ?tk] ok topk_layout_fields(1) [OF lay] by simp
qed

text \<open>A quantizer that works row by row, in linear layout on a part and in the swizzled layout on the whole chunk:
  what makes the quantized gather exact.\<close>

definition row_local_quant :: "('x, 'q, 'm) quantizer \<Rightarrow> nat \<Rightarrow> ('x \<Rightarrow> 'q) \<Rightarrow> ('x \<Rightarrow> nat list) \<Rightarrow> bool" where
  "row_local_quant quant k q s =
     (\<forall>x. fst (quant False x) = map q x \<and> fst (quant True x) = map q x
        \<and> (\<exists>pad. fst (snd (quant False x)) = concat (map s x) @ pad)
        \<and> swizzle_128x4 (k div 32) (map s x) = Inr (fst (snd (quant True x)))
        \<and> list_all (\<lambda>y. length (s y) = k div 32) x)"

lemma mxfp8_shard_rows:
  assumes "row_local_quant quant k q s"
  shows "mxfp8_shard quant k x = Inr (map q x, map s x)"
proof -
  have len: "list_all (\<lambda>y. length (s y) = k div 32) x" and q: "fst (quant False x) = map q x"
    using assms by (simp_all add: row_local_quant_def)
  obtain pad where sf: "fst (snd (quant False x)) = concat (map s x) @ pad"
    using assms unfolding row_local_quant_def by blast
  have l: "length (concat (map s x)) = length x * (k div 32)"
    using len by (induction x) auto
  have "map (\<lambda>i. slice (i * (k div 32)) (Suc i * (k div 32)) (concat (map s x))) [0..<length x] = map s x"
  proof (rule nth_equalityI)
    fix i
    assume "i < length (map (\<lambda>i. slice (i * (k div 32)) (Suc i * (k div 32)) (concat (map s x))) [0..<length x])"
    then have i: "i < length x" by simp
    have "slice (i * (k div 32)) (Suc i * (k div 32)) (concat (map (\<lambda>j. s (x ! j)) [0..<length x])) = s (x ! i)"
      using len i by (intro slice_concat_uniform) (auto simp: list_all_length)
    moreover have "map (\<lambda>j. s (x ! j)) [0..<length x] = map s x" by (rule nth_equalityI) auto
    ultimately show "map (\<lambda>i. slice (i * (k div 32)) (Suc i * (k div 32)) (concat (map s x))) [0..<length x] ! i = map s x ! i"
      using i by simp
  qed simp
  with q sf l show ?thesis by (simp add: mxfp8_shard_def Let_def case_prod_beta)
qed

lemma seq_res_all: "(\<And>x. x \<in> set xs \<Longrightarrow> f x = Inr (g x)) \<Longrightarrow> seq_res (map f xs) = Inr (map g xs)"
  by (induction xs) auto

lemma mxfp8_gather_rows:
  assumes "row_local_quant quant k q s" and "gathers agq" and "gathers ags"
    and "length (concat xs) = p_rows p"
  shows "mxfp8_gather agq ags quant p k xs = Inr (map q (concat xs), map s (concat xs))"
proof -
  have "seq_res (map (mxfp8_shard quant k) xs) = Inr (map (\<lambda>x. (map q x, map s x)) xs)"
    by (intro seq_res_all) (rule mxfp8_shard_rows [OF assms(1)])
  moreover have "agq (p_rows p) (map (map q) xs) = map q (concat xs)"
    using assms(4) by (subst gathersD [OF assms(2)]) (auto simp: map_concat length_concat comp_def)
  moreover have "ags (p_rows p) (map (map s) xs) = map s (concat xs)"
    using assms(4) by (subst gathersD [OF assms(3)]) (auto simp: map_concat length_concat comp_def)
  ultimately show ?thesis by (simp add: mxfp8_gather_def gather_rows_def comp_def)
qed

section \<open>Properties\<close>

text \<open>C17: on the chunk that decides a size, the MXFP8 MoE input never changes a result. Whatever the quantizers, the
  router and the pre-quantized launch compute, \<open>_moe8_first\<close> returns on every rank the stock MoE's
  partial on the gathered bf16 rows; it stores a verdict for this size only, and the verdict is ON only if on
  every rank the gathered bytes are the ones b12x's own quantization of those rows leaves in the
  plan's storage. A chunk with a tiny block leaves the size undecided.\<close>

theorem moe8_first_exact:
  assumes "takes_min (g_min G)" and "plans \<noteq> []" and "moe8_first G M plans k xs a mods st = (st', Inr outs)"
  shows "outs = map (\<lambda>p. mo_stock M (p_rank p) (gather_rows (g_x G) (hd plans) xs)) plans
    \<and> (\<forall>n. n \<noteq> p_rows (hd plans) \<longrightarrow> st' n = st n)
    \<and> (st' = st \<or> (\<exists>s. st' (p_rows (hd plans)) = Some s \<and> (s_ok s \<longrightarrow>
         (\<forall>p \<in> set plans. mo_storage M (p_rank p) (gather_rows (g_x G) (hd plans) xs)
            = (gather_rows (g_q G) (hd plans) (map (fst \<circ> get_ok ([], []) \<circ> mxfp8_shard (mo_quant M) k) xs),
               gather_rows (g_s G) (hd plans) (map (snd \<circ> get_ok ([], []) \<circ> mxfp8_shard (mo_quant M) k) xs))))))"
  using moe8_first_cases [OF assms] .

definition wit_group :: "(nat, nat) sp_group" where
  "wit_group = \<lparr> g_x = \<lambda>_ xs. concat xs, g_q = \<lambda>_ xs. concat xs, g_s = \<lambda>_ xs. concat xs, g_i = \<lambda>_ xs. concat xs,
     g_min = \<lambda>xs. Min (set xs) \<rparr>"

definition wit_topk :: "nat list \<Rightarrow> topk_out" where
  "wit_topk l = \<lparr> tk_std = True, tk_words = True,
     tk_fields = [(''topk_ids'', 1, map (\<lambda>v. [int v]) l), (''topk_weights'', 1, map (\<lambda>v. [int v]) l)] \<rparr>"

definition wit_moe :: "(nat, nat, unit, nat, nat, nat) moe_ops" where
  "wit_moe = \<lparr> mo_zero = 0, mo_quant = \<lambda>_ x. (x, concat (map (\<lambda>_. [3, 3, 3, 3]) x), ()), mo_gate = \<lambda>x. x,
     mo_topk = \<lambda>r x l ids n. Inr (wit_topk l), mo_stock = \<lambda>r xb. map (\<lambda>v. v + r) xb,
     mo_pre = \<lambda>r m. Inr (case m_quant_once m of Some (q, _, _) \<Rightarrow> map (\<lambda>v. v + r) q | None \<Rightarrow> [], 1, 1, 1, 1),
     mo_storage = \<lambda>r xb. (xb, map (\<lambda>_. [3, 3, 3, 3]) xb) \<rparr>"

definition wit_mods :: "(nat, unit) moe_mods" where
  "wit_mods = \<lparr> m_gate = Stock, m_topk = Stock, m_quant_once = None \<rparr>"

definition wit_plans :: "sp_plan list" where
  "wit_plans = [mk_plan 2 2 0 True False, mk_plan 2 2 1 True False]"

lemma wit_moe8_first:
  "\<exists>st'. moe8_first wit_group wit_moe wit_plans 128 [[5], [7]] \<lparr>a_ids = None, a_ntnp = None\<rparr> wit_mods Map.empty
     = (st', Inr [[5, 7], [6, 8]]) \<and> map_option s_ok (st' 2) = Some True"
proof -
  obtain sw where sw: "swizzle_128x4 4 [[3, 3, 3, 3], [3, 3, 3, 3]] = Inr sw"
    by (simp add: swizzle_128x4_def Let_def)
  show ?thesis
    by (simp add: moe8_first_def wit_group_def wit_moe_def wit_plans_def wit_mods_def wit_topk_def Let_def gather_rows_def
        mk_plan_def route_stock_def route_local_def topk_fields_def is_ok_def get_ok_def agree_min_def topk_well_shaped_def
        gather_topk_out_def packed_row_def slice_def topk_equal_def mxfp8_shard_def danger_rows_def sw moe8_call_def
        swapped_enter_def numeral_2_eq_2 upt_rec)
qed

theorem moe8_first_exact_witness:
  "\<exists>st' outs. moe8_first wit_group wit_moe wit_plans 128 [[5], [7]] \<lparr>a_ids = None, a_ntnp = None\<rparr> wit_mods Map.empty
     = (st', Inr outs) \<and> map_option s_ok (st' 2) = Some True
     \<and> outs = map (\<lambda>p. mo_stock wit_moe (p_rank p) (gather_rows (g_x wit_group) (hd wit_plans) [[5], [7]])) wit_plans"
proof -
  obtain st' where st: "moe8_first wit_group wit_moe wit_plans 128 [[5], [7]] \<lparr>a_ids = None, a_ntnp = None\<rparr> wit_mods Map.empty
     = (st', Inr [[5, 7], [6, 8]])" and "map_option s_ok (st' 2) = Some True"
    using wit_moe8_first by blast
  moreover have "takes_min (g_min wit_group)" and "wit_plans \<noteq> []"
    by (simp_all add: takes_min_def wit_group_def wit_plans_def)
  ultimately show ?thesis using moe8_first_exact [of wit_group wit_plans] by blast
qed

text \<open>the pre-quantized attention input is the stock one. With a quantizer that works row by row the gathered and
  swizzled shards are the stock quantization of the gathered rows, on every chunk; and without any
  assumption on the quantizer, the chunk that decides a size hands attention a pre-quantized input only if the
  bytes, the scales and \<open>wqkv_a\<close>'s output equal the stock ones on every rank, and otherwise hands it the
  gathered bf16 rows.\<close>

theorem fp8_input_exact:
  assumes "takes_min amin" and "0 < p_world p" and "gathers agq" and "gathers ags"
    and "length (concat xs) = p_rows p"
    and "fp8_input agq ags agx amin quant wq wqq p k xs st = Inr (st', xq, xb)"
  shows "(row_local_quant quant k q s \<and> xq = Some (qg, sw, meta)
      \<longrightarrow> qg = fst (quant True (concat xs)) \<and> sw = fst (snd (quant True (concat xs))))
    \<and> (st (p_rows p) = None \<longrightarrow>
        (case xq of
           Some inp \<Rightarrow> inp = quant True (gather_rows agx p xs) \<and> xb = None
             \<and> (\<forall>r < p_world p. wqq r inp = wq r (gather_rows agx p xs)) \<and> st' (p_rows p) = Some (True, snd (snd inp))
         | None \<Rightarrow> xb = Some (gather_rows agx p xs) \<and> (\<exists>m. st' (p_rows p) = Some (False, m))))"
proof -
  have one: "qg = fst (quant True (concat xs)) \<and> sw = fst (snd (quant True (concat xs)))"
    if loc: "row_local_quant quant k q s" and xq: "xq = Some (qg, sw, meta)"
  proof -
    have g: "mxfp8_gather agq ags quant p k xs = Inr (map q (concat xs), map s (concat xs))"
      by (rule mxfp8_gather_rows [OF loc assms(3,4,5)])
    have sz: "swizzle_128x4 (k div 32) (map s (concat xs)) = Inr (fst (snd (quant True (concat xs))))"
      and "fst (quant True (concat xs)) = map q (concat xs)"
      using loc unfolding row_local_quant_def by blast+
    with assms(6) xq g show ?thesis
      by (auto simp: fp8_input_def Let_def case_prod_beta split: option.splits bool.splits if_splits)
  qed
  have two: "case xq of
           Some inp \<Rightarrow> inp = quant True (gather_rows agx p xs) \<and> xb = None
             \<and> (\<forall>r < p_world p. wqq r inp = wq r (gather_rows agx p xs)) \<and> st' (p_rows p) = Some (True, snd (snd inp))
         | None \<Rightarrow> xb = Some (gather_rows agx p xs) \<and> (\<exists>m. st' (p_rows p) = Some (False, m))"
    if fresh: "st (p_rows p) = None"
  proof -
    let ?xb = "gather_rows agx p xs"
    obtain qg sg where g: "mxfp8_gather agq ags quant p k xs = Inr (qg, sg)"
      using assms(6) fresh by (cases "mxfp8_gather agq ags quant p k xs") (auto simp: fp8_input_def)
    obtain sw where sw: "swizzle_128x4 (k div 32) sg = Inr sw"
      using assms(6) fresh g by (cases "swizzle_128x4 (k div 32) sg") (auto simp: fp8_input_def)
    obtain rq rs meta where rq: "quant True ?xb = (rq, rs, meta)" by (cases "quant True ?xb")
    define L where "L = map (\<lambda>r. rq = qg \<and> rs = sw \<and> wq r ?xb = wqq r (qg, sw, meta)) [0..<p_world p]"
    have "agree_min amin L \<longleftrightarrow> (\<forall>l \<in> set L. l)"
      using assms(1,2) by (intro agree_min_iff) (simp_all add: L_def)
    then have ag: "agree_min amin L \<Longrightarrow> rq = qg \<and> rs = sw \<and> (\<forall>r < p_world p. wq r ?xb = wqq r (qg, sw, meta))"
      using assms(2) by (auto simp: L_def)
    have eq: "(if agree_min amin L then Inr (st(p_rows p \<mapsto> (agree_min amin L, meta)), Some (qg, sw, meta), None)
        else Inr (st(p_rows p \<mapsto> (agree_min amin L, meta)), None, Some ?xb)) = (Inr (st', xq, xb) :: _ res)"
      using assms(6) fresh g sw rq unfolding fp8_input_def Let_def L_def by (simp split del: if_split)
    show ?thesis
    proof (cases "agree_min amin L")
      case True
      with eq ag rq show ?thesis by auto
    next
      case False
      with eq show ?thesis by auto
    qed
  qed
  from one two show ?thesis by blast
qed

text \<open>the 128x4 scale layout is the documented one and loses nothing: the scale of row \<open>m\<close> and block \<open>j\<close> is at
  tile \<open>(m div 128, j div 4)\<close> in row-tile-major order, inside the tile at \<open>[m mod 32][(m mod 128) div 32][j mod 4]\<close>,
  and the layout has exactly the rows padded to a multiple of 128; two inputs of the same shape
  with the same layout are equal.\<close>

theorem swizzle_layout:
  assumes "g mod 4 = 0" and "list_all (\<lambda>row. length row = g) s_lin"
  shows "\<exists>out. swizzle_128x4 g s_lin = Inr out \<and> length out = ceil_to (length s_lin) 128 * g
    \<and> (\<forall>m < length s_lin. \<forall>j < g.
        out ! (((((m div 128) * (g div 4) + j div 4) * 32 + m mod 32) * 4 + (m mod 128) div 32) * 4 + j mod 4) = s_lin ! m ! j)
    \<and> (\<forall>s. length s = length s_lin \<and> list_all (\<lambda>row. length row = g) s \<and> swizzle_128x4 g s = Inr out \<longrightarrow> s = s_lin)"
proof -
  obtain out where out: "swizzle_128x4 g s_lin = Inr out" using assms(1) by (auto simp: swizzle_128x4_def Let_def)
  have pos: "out ! (((((m div 128) * (g div 4) + j div 4) * 32 + m mod 32) * 4 + (m mod 128) div 32) * 4 + j mod 4) = s ! m ! j"
    if "swizzle_128x4 g s = Inr out" "m < length s" "j < g" for s m j
    by (rule swizzle_position [OF assms(1) that])
  have g: "g div 4 * 4 = g" using assms(1) by (metis add.right_neutral div_mult_mod_eq)
  have "length out = (length s_lin + 127) div 128 * (g div 4 * (32 * (4 * 4)))"
    using out assms(1) unfolding swizzle_128x4_def Let_def
    by (auto simp only: if_False sum.inject simp_thms intro!: length_concat_upt) simp_all
  also have "\<dots> = (length s_lin + 127) div 128 * 128 * (g div 4 * 4)" by simp
  finally have len: "length out = ceil_to (length s_lin) 128 * g" by (simp add: ceil_to_def g add.commute)
  have "s = s_lin" if "length s = length s_lin" "list_all (\<lambda>row. length row = g) s" "swizzle_128x4 g s = Inr out" for s
  proof (rule nth_equalityI [OF that(1)])
    fix m
    assume m: "m < length s"
    show "s ! m = s_lin ! m"
      using m that assms(2) pos [OF that(3) m] pos [OF out, of m]
      by (intro nth_equalityI) (auto simp: list_all_length)
  qed
  with out len pos [OF out] show ?thesis by blast
qed

theorem swizzle_layout_witness:
  "\<exists>out. swizzle_128x4 4 [[1, 2, 3, 4], [5, 6, 7, 8]] = Inr out \<and> length out = ceil_to 2 128 * 4
     \<and> out ! (((((1 div 128) * (4 div 4) + 2 div 4) * 32 + 1 mod 32) * 4 + (1 mod 128) div 32) * 4 + 2 mod 4) = 7"
proof -
  let ?s = "[[1, 2, 3, 4], [5, 6, 7, 8 :: nat]]"
  have two: "length ?s = 2" by simp
  obtain out where out: "swizzle_128x4 4 ?s = Inr out" "length out = ceil_to (length ?s) 128 * 4"
    and pos: "\<forall>m < length ?s. \<forall>j < 4.
      out ! (((((m div 128) * (4 div 4) + j div 4) * 32 + m mod 32) * 4 + (m mod 128) div 32) * 4 + j mod 4) = ?s ! m ! j"
    using swizzle_layout [of 4 ?s] by auto
  have "out ! (((((1 div 128) * (4 div 4) + 2 div 4) * 32 + 1 mod 32) * 4 + (1 mod 128) div 32) * 4 + 2 mod 4) = ?s ! 1 ! 2"
    using pos [rule_format, of 1 2] unfolding two by simp
  moreover have "?s ! 1 ! 2 = 7" by simp
  ultimately show ?thesis using out unfolding two by metis
qed

definition wit_quant :: "(nat, nat, unit) quantizer" where
  "wit_quant sz x = (x, if sz then (case swizzle_128x4 4 (map (\<lambda>_. [3, 3, 3, 3]) x) of Inr s \<Rightarrow> s | Inl _ \<Rightarrow> [])
     else concat (map (\<lambda>_. [3, 3, 3, 3]) x), ())"

definition wit_fp8 :: "((nat \<rightharpoonup> bool \<times> unit) \<times> (nat, unit) mxfp8_input option \<times> nat list option) res" where
  "wit_fp8 = fp8_input (\<lambda>_ xs. concat xs) (\<lambda>_ xs. concat xs) (\<lambda>_ xs. concat xs) (\<lambda>xs. Min (set xs)) wit_quant
     (\<lambda>r x. x) (\<lambda>r q. fst q) (mk_plan 2 2 0 True False) 128 [[5], [7]] Map.empty"

lemma wit_fp8_run: "\<exists>st' inp. wit_fp8 = Inr (st', Some inp, None)"
proof -
  obtain sw where sw: "swizzle_128x4 4 [[3, 3, 3, 3], [3, 3, 3, 3]] = Inr sw" by (simp add: swizzle_128x4_def Let_def)
  show ?thesis
    by (simp add: wit_fp8_def fp8_input_def mk_plan_def mxfp8_gather_def mxfp8_shard_def Let_def gather_rows_def slice_def
        wit_quant_def sw agree_min_def numeral_2_eq_2 upt_rec)
qed

theorem fp8_input_exact_witness:
  "\<exists>st' xq. wit_fp8 = Inr (st', Some xq, None) \<and> xq = wit_quant True [5, 7] \<and> st' 2 = Some (True, ())"
proof -
  let ?p = "mk_plan 2 2 0 True False"
  obtain st' inp where run: "wit_fp8 = Inr (st', Some inp, None)" using wit_fp8_run by blast
  have "takes_min (\<lambda>xs. Min (set xs))" and "gathers (\<lambda>_ xs. concat xs :: nat list)"
    and "gathers (\<lambda>_ xs. concat xs :: nat list list)" by (simp_all add: takes_min_def gathers_def)
  moreover have w: "0 < p_world ?p" "length (concat [[5], [7 :: nat]]) = p_rows ?p" "p_rows ?p = 2" by (simp_all add: mk_plan_def)
  ultimately have "case Some inp of
      Some inp \<Rightarrow> inp = wit_quant True (gather_rows (\<lambda>_ xs. concat xs) ?p [[5], [7]]) \<and> (None :: nat list option) = None
        \<and> (\<forall>r < p_world ?p. fst inp = gather_rows (\<lambda>_ xs. concat xs) ?p [[5], [7]]) \<and> st' (p_rows ?p) = Some (True, snd (snd inp))
    | None \<Rightarrow> (None :: nat list option) = Some (gather_rows (\<lambda>_ xs. concat xs) ?p [[5], [7]]) \<and> (\<exists>m. st' (p_rows ?p) = Some (False, m))"
    using fp8_input_exact [THEN conjunct2, rule_format, OF _ _ _ _ _ run [unfolded wit_fp8_def]] by blast
  then have "inp = wit_quant True [5, 7]" and "st' 2 = Some (True, ())"
    unfolding w(3) by (simp_all add: gather_rows_def)
  with run show ?thesis by blast
qed

end
