(* ===== verification/Sp_Layers.thy ===== *)
theory Sp_Layers
  imports Sp_Mxfp8
begin

text \<open>
  The layer loop of the sequence-parallel prefill (\<open>adapter/prefill_sp.py\<close>): Engram on the shard, the patched
  attention and MoE forwards (gather in, reduce-scatter out) and \<open>_sp_forward_layers\<close>. A value of all ranks is the
  list of the ranks' tensors, its \<open>views\<close>: the shards of a chunk while the residual is split, the same rows on
  every rank otherwise. The decoder layer of the engine is a parameter that is given the patched
  attention and MoE, as are the hashing, the lookups, the projections and the tail selection.
\<close>

section \<open>Engram on the shard\<close>

record 'a coll =
  c_ag :: "nat \<Rightarrow> 'a list list \<Rightarrow> 'a list"
  c_ar :: "'a list list \<Rightarrow> 'a list"
  c_rs :: "nat \<Rightarrow> 'a list list \<Rightarrow> nat \<Rightarrow> 'a list"

text \<open>An Engram layer: whether its table is host-shared, its lookups (all rows; the rows one rank owns), its \<open>wkv\<close>
  projection and its gate.\<close>

record ('h, 'e, 'k, 'r) engram =
  en_shared :: bool
  en_embed :: "'h list \<Rightarrow> 'e list"
  en_owned :: "nat \<Rightarrow> 'h list \<Rightarrow> 'e list"
  en_wkv :: "'e list \<Rightarrow> 'k list"
  en_gate :: "'r list \<Rightarrow> 'k list \<Rightarrow> 'r list"
  en_index :: nat

definition wkv_shard ::
    "sp_flags \<Rightarrow> (int list \<Rightarrow> int) \<Rightarrow> 'e coll \<Rightarrow> sp_plan list \<Rightarrow> ('h, 'e, 'k, 'r) engram \<Rightarrow> 'e list list
     \<Rightarrow> (nat \<times> nat \<rightharpoonup> bool) \<Rightarrow> (nat \<times> nat \<rightharpoonup> bool) \<times> 'k list list" where
  "wkv_shard fl amin ce plans en embs okm =
     (let rows = p_rows (hd plans); key = (en_index en, rows);
          mine = map (\<lambda>p. slice (p_lo p) (p_hi p) (en_wkv en (gather_rows (c_ag ce) p embs))) plans;
          part = map (en_wkv en) embs
      in if \<not> WKV_SHARD fl then (okm, mine)
         else case okm key of
           None \<Rightarrow>
             let ok = agree_min amin (map (\<lambda>(a, b). a = b) (zip mine part))
             in (okm(key \<mapsto> ok), if ok then part else mine)
         | Some ok \<Rightarrow> (okm, if ok then part else mine))"

definition engram_lookup_partial :: "sp_plan list \<Rightarrow> ('h, 'e, 'k, 'r) engram \<Rightarrow> 'h list \<Rightarrow> 'e list list \<times> bool" where
  "engram_lookup_partial plans en ids =
     (if en_shared en then (map (\<lambda>p. en_embed en ids) plans, False)
      else (map (\<lambda>p. en_owned en (p_rank p) ids) plans, True))"

definition sp_engram ::
    "sp_flags \<Rightarrow> (int list \<Rightarrow> int) \<Rightarrow> 'e coll \<Rightarrow> sp_plan list \<Rightarrow> ('h, 'e, 'k, 'r) engram \<Rightarrow> 'r list list \<Rightarrow> 'h list
     \<Rightarrow> (nat \<times> nat \<rightharpoonup> bool) \<Rightarrow> (nat \<times> nat \<rightharpoonup> bool) \<times> 'r list list" where
  "sp_engram fl amin ce plans en xs ids okm =
     (let (embs, partial) = engram_lookup_partial plans en ids in
      if p_sharded (hd plans) then
        let embs = (if partial then map (\<lambda>p. reduce_rows (c_ar ce) (c_rs ce) p embs) plans
                    else map (\<lambda>(p, e). slice (p_lo p) (p_hi p) e) (zip plans embs));
            (okm, kv) = wkv_shard fl amin ce plans en embs okm
        in (okm, map (\<lambda>(x, k). en_gate en x k) (zip xs kv))
      else
        let embs = (if partial then map (\<lambda>p. reduce_out (c_ag ce) (c_ar ce) (c_rs ce) p embs) plans else embs)
        in (okm, map (\<lambda>(x, e). en_gate en x (en_wkv en e)) (zip xs embs)))"

section \<open>Attention and MoE: gather in, reduce-scatter out\<close>

text \<open>The thread-local contexts of all ranks in lockstep.\<close>

record grp_ctx =
  x_plans :: "sp_plan list option"
  x_inner :: nat
  x_skip :: "nat option"

text \<open>One attention layer of the engine: each rank's output when \<open>wo_b\<close> skips its all-reduce, on bf16 rows or on a
  placeholder with a pre-quantized input, and the outputs of all ranks of the stock call.\<close>

record ('x, 'q, 'm, 'w) attn_ops =
  at_part :: "nat \<Rightarrow> 'x list \<Rightarrow> 'x list"
  at_part_q :: "nat \<Rightarrow> nat \<Rightarrow> ('q, 'm) mxfp8_input \<Rightarrow> 'x list"
  at_stock :: "'x list list \<Rightarrow> ('q, 'm) mxfp8_input option \<Rightarrow> 'x list list"
  at_quant :: "('x, 'q, 'm) quantizer"
  at_wq :: "nat \<Rightarrow> 'x list \<Rightarrow> 'w"
  at_wqq :: "nat \<Rightarrow> ('q, 'm) mxfp8_input \<Rightarrow> 'w"
  at_attrs :: fp8_attn

text \<open>The hook of \<open>wo_b.forward\<close>: the value of \<open>skip_all_reduce\<close> the original is called with.\<close>

definition wo_b_skip :: "grp_ctx \<Rightarrow> nat \<Rightarrow> bool \<Rightarrow> bool" where
  "wo_b_skip c i skip = (if x_skip c \<noteq> Some i then skip else True)"

definition attn_run ::
    "('x, 'q, 'm, 'w) attn_ops \<Rightarrow> nat \<Rightarrow> grp_ctx \<Rightarrow> sp_plan list \<Rightarrow> 'x list list \<Rightarrow> ('q, 'm) mxfp8_input option \<Rightarrow> 'x list list" where
  "attn_run A i c plans xfs xq =
     (if wo_b_skip c i False
      then map (\<lambda>(p, xf). case xq of None \<Rightarrow> at_part A (p_rank p) xf | Some q \<Rightarrow> at_part_q A (p_rank p) (p_rows p) q) (zip plans xfs)
      else at_stock A xfs xq)"

definition attn_forward ::
    "sp_flags \<Rightarrow> ('x, 'q) sp_group \<Rightarrow> 'x coll \<Rightarrow> nat \<Rightarrow> ('x, 'q, 'm, 'w) attn_ops \<Rightarrow> nat \<Rightarrow> grp_ctx \<Rightarrow> ('q, 'm) mxfp8_input option
     \<Rightarrow> (nat \<rightharpoonup> bool \<times> 'm) \<Rightarrow> 'x list list \<Rightarrow> (nat \<rightharpoonup> bool \<times> 'm) \<times> 'x list list res" where
  "attn_forward fl G cx k A i c x_quant st xs =
     (case x_plans c of
        None \<Rightarrow> (st, Inr (at_stock A xs x_quant))
      | Some plans \<Rightarrow>
          if 0 < x_inner c \<or> x_quant \<noteq> None \<or> list_ex (\<lambda>(p, x). length x \<noteq> in_rows p) (zip plans xs)
          then (st, Inr (at_stock A xs x_quant))
          else
            let p = hd plans in
            case (if p_sharded p \<and> FP8 fl \<and> snd (fp8_eligible_attn (at_attrs A))
                  then fp8_input (g_q G) (g_s G) (g_x G) (g_min G) (at_quant A) (at_wq A) (at_wqq A) p k xs st
                  else Inr (st, None, None)) of
              Inl e \<Rightarrow> (st, Inl e)
            | Inr (st, xq, xb) \<Rightarrow>
                let xfs = (case xb of
                       Some b \<Rightarrow> map (\<lambda>_. b) plans
                     | None \<Rightarrow> if p_sharded p then map (\<lambda>p. gather_rows (c_ag cx) p xs) plans else xs);
                    os = attn_run A i (c\<lparr>x_inner := x_inner c + 1, x_skip := Some i\<rparr>) plans xfs xq
                in if list_ex (\<lambda>out. length out \<noteq> p_rows p) os then (st, Inl RuntimeError)
                   else (st, Inr (map (\<lambda>p. reduce_out (c_ag cx) (c_ar cx) (c_rs cx) p os) plans)))"

text \<open>\<open>mo_all\<close> is the stock MoE call of all ranks, \<open>mega\<close> the mega-MoE predicate.\<close>

record ('x, 'q, 'm, 'l, 't) moe_layer =
  ml_ops :: "('x, 'q, 'm, 'l, 't, 'x) moe_ops"
  ml_attrs :: moe8_attrs
  ml_target :: "nat \<Rightarrow> bool"
  ml_mods :: "('q, 'm) moe_mods"
  ml_all :: "'x list list \<Rightarrow> 'x list list"
  ml_mega :: "'x list \<Rightarrow> bool"

definition moe_forward ::
    "sp_flags \<Rightarrow> ('x, 'q) sp_group \<Rightarrow> 'x coll \<Rightarrow> nat \<Rightarrow> ('x, 'q, 'm, 'l, 't) moe_layer \<Rightarrow> grp_ctx \<Rightarrow> bool \<Rightarrow> 't moe_args
     \<Rightarrow> (nat \<rightharpoonup> 'm moe8_state) \<Rightarrow> 'x list list \<Rightarrow> (nat \<rightharpoonup> 'm moe8_state) \<times> 'x list list res" where
  "moe_forward fl G cx k L c skip_shared a st xs =
     (case x_plans c of
        None \<Rightarrow> (st, Inr (ml_all L xs))
      | Some plans \<Rightarrow>
          if 0 < x_inner c \<or> list_ex (\<lambda>(p, x). length x \<noteq> in_rows p) (zip plans xs) \<or> skip_shared
          then (st, Inr (ml_all L xs))
          else
            let p = hd plans;
                finish = (\<lambda>outs. if list_ex (\<lambda>out. length out \<noteq> p_rows p) outs then Inl RuntimeError
                                 else Inr (map (\<lambda>p. reduce_out (c_ag cx) (c_ar cx) (c_rs cx) p outs) plans))
            in case (if p_sharded p \<and> FP8_MOE fl
                     then moe8_forward G (ml_ops L) plans k (ml_attrs L) (ml_target L (p_rows p)) xs a (ml_mods L) st
                     else (st, Inr None)) of
                 (st, Inl e) \<Rightarrow> (st, Inl e)
               | (st, Inr (Some outs)) \<Rightarrow> (st, finish outs)
               | (st, Inr None) \<Rightarrow>
                   let xfs = (if p_sharded p then map (\<lambda>p. gather_rows (c_ag cx) p xs) plans else xs)
                   in if list_ex (ml_mega L) xfs then (st, Inl RuntimeError)
                      else (st, finish (map (\<lambda>(p, xf). mo_stock (ml_ops L) (p_rank p) xf) (zip plans xfs))))"

section \<open>The layer loop\<close>

type_synonym 'm sp_memo = "(nat \<rightharpoonup> bool \<times> 'm) \<times> (nat \<rightharpoonup> 'm moe8_state)"

type_synonym ('x, 's) sublayer = "'s \<Rightarrow> 'x list list \<Rightarrow> 's \<times> 'x list list res"

record ('r, 'p, 'x, 'q, 'm, 'w, 'l, 't, 'h, 'e, 'k, 'pos, 'd) sp_net =
  n_start :: nat
  n_end :: nat
  n_late :: "nat option"
  n_tail_kv :: bool
  n_hash :: "'t list \<Rightarrow> 'h list list option"
  n_engram :: "nat \<Rightarrow> ('h, 'e, 'k, 'r) engram option"
  n_vision :: bool
  n_image :: "'t \<Rightarrow> bool"
  n_capture :: "nat \<Rightarrow> bool"
  n_mean :: "'r \<Rightarrow> 'd"
  n_zero_r :: 'r
  n_zero_p :: 'p
  n_tail_r :: "'r list \<Rightarrow> 'r list"
  n_tail_p :: "'p list \<Rightarrow> 'p list"
  n_tail_t :: "'t list \<Rightarrow> 't list"
  n_tail_h :: "'h list list \<Rightarrow> 'h list list"
  n_tail_pos :: "'pos list"
  n_k :: nat
  n_attn :: "nat \<Rightarrow> ('x, 'q, 'm, 'w) attn_ops"
  n_moe :: "nat \<Rightarrow> ('x, 'q, 'm, 'l, 't) moe_layer"
  n_moe_args :: "'t list \<Rightarrow> 't moe_args"
  n_layer :: "nat \<Rightarrow> ('x, 'm sp_memo) sublayer \<Rightarrow> ('x, 'm sp_memo) sublayer \<Rightarrow> 'm sp_memo \<Rightarrow> 'r list list \<Rightarrow> 'p list list option
     \<Rightarrow> 'pos list \<Rightarrow> 't list \<Rightarrow> 't list \<Rightarrow> 'm sp_memo \<times> ('r list list \<times> 'p list list) res"

text \<open>The group's collectives at the types the loop uses.\<close>

record ('x, 'q, 'r, 'p, 'e) sp_colls =
  k_group :: "('x, 'q) sp_group"
  k_x :: "'x coll"
  k_r :: "'r coll"
  k_p :: "'p coll"
  k_e :: "'e coll"

record ('r, 'p, 't, 'h, 'pos, 'd, 'm) loop_st =
  l_R :: "'r list list"
  l_pre :: "'p list list option"
  l_region :: bool
  l_saved :: bool
  l_ids :: "'t list"
  l_gids :: "'t list"
  l_pos :: "'pos list"
  l_hash :: "'h list list option"
  l_aux :: "'d list list list"
  l_kv :: "(nat \<times> 'r list list \<times> 'p list list option) list"
  l_wkv :: "nat \<times> nat \<rightharpoonup> bool"
  l_memo :: "'m sp_memo"

definition where_rows :: "bool list \<Rightarrow> 'r list \<Rightarrow> 'r list \<Rightarrow> 'r list" where
  "where_rows keep a b = map (\<lambda>(m, x, y). if m then x else y) (zip keep (zip a b))"

text \<open>Entering the late layers: the full-prompt KV write of the last source layer, then the tail rows.\<close>

definition enter_tail ::
    "('x, 'q, 'r, 'p, 'e) sp_colls \<Rightarrow> ('r, 'p, 'x, 'q, 'm, 'w, 'l, 't, 'h, 'e, 'k, 'pos, 'd) sp_net \<Rightarrow> sp_plan list \<Rightarrow> tail \<Rightarrow> nat
     \<Rightarrow> ('r, 'p, 't, 'h, 'pos, 'd, 'm) loop_st \<Rightarrow> ('r, 'p, 't, 'h, 'pos, 'd, 'm) loop_st res" where
  "enter_tail K N plans late i s =
     (let sh = p_sharded (hd plans);
          full_R = (if sh then map (\<lambda>p. gather_rows (c_ag (k_r K)) p (l_R s)) plans else l_R s);
          full_pre = map_option (\<lambda>v. if sh then map (\<lambda>p. gather_rows (c_ag (k_p K)) p v) plans else v) (l_pre s);
          kv = (if n_tail_kv N then l_kv s @ [(i, full_R, full_pre)] else l_kv s)
      in if sh \<and> l_pre s = None then Inl AttributeError
         else case l_pre s of
           None \<Rightarrow> Inl TypeError
         | Some pre \<Rightarrow>
             bind_res (if sh then seq_res (map (\<lambda>p. tail_rows (c_ag (k_r K)) (n_zero_r N) p late (l_R s)) plans)
                       else Inr (map (n_tail_r N) (l_R s))) (\<lambda>R.
             bind_res (if sh then seq_res (map (\<lambda>p. tail_rows (c_ag (k_p K)) (n_zero_p N) p late pre) plans)
                       else Inr (map (n_tail_p N) pre)) (\<lambda>pre.
               Inr (s\<lparr>l_R := R, l_pre := Some pre, l_region := False, l_saved := True, l_kv := kv,
                      l_ids := n_tail_t N (l_ids s), l_gids := n_tail_t N (l_gids s), l_pos := n_tail_pos N,
                      l_hash := map_option (n_tail_h N) (l_hash s)\<rparr>))))"

text \<open>The Engram of a layer, with the image rows kept; \<open>stock\<close> is the unpatched call outside the full-row region.\<close>

definition engram_step ::
    "sp_flags \<Rightarrow> ('x, 'q, 'r, 'p, 'e) sp_colls \<Rightarrow> ('r, 'p, 'x, 'q, 'm, 'w, 'l, 't, 'h, 'e, 'k, 'pos, 'd) sp_net
     \<Rightarrow> (nat \<Rightarrow> 'r list list \<Rightarrow> 'h list \<Rightarrow> 'r list list) \<Rightarrow> sp_plan list \<Rightarrow> nat
     \<Rightarrow> ('r, 'p, 't, 'h, 'pos, 'd, 'm) loop_st \<Rightarrow> ('r, 'p, 't, 'h, 'pos, 'd, 'm) loop_st res" where
  "engram_step fl K N stock plans i s =
     (case n_engram N i of
        None \<Rightarrow> Inr s
      | Some en \<Rightarrow>
          case l_hash s of
            None \<Rightarrow> Inl TypeError
          | Some hs \<Rightarrow>
              let ids = map (\<lambda>row. row ! en_index en) hs;
                  before = l_R s;
                  (wkv, R) = (if l_region s then sp_engram fl (g_min (k_group K)) (k_e K) plans en before ids (l_wkv s)
                              else (l_wkv s, stock i before ids));
                  R = (if n_vision N
                       then map (\<lambda>(p, b, r). where_rows (map (n_image N)
                                  (if l_region s \<and> p_sharded p then slice (p_lo p) (p_hi p) (l_ids s) else l_ids s)) b r)
                              (zip plans (zip before R))
                       else R)
              in Inr (s\<lparr>l_R := R, l_wkv := wkv\<rparr>))"

definition capture_step ::
    "('x, 'q, 'r, 'p, 'e) sp_colls \<Rightarrow> ('r, 'p, 'x, 'q, 'm, 'w, 'l, 't, 'h, 'e, 'k, 'pos, 'd) sp_net \<Rightarrow> bool \<Rightarrow> sp_plan list
     \<Rightarrow> tail option \<Rightarrow> nat \<Rightarrow> ('r, 'p, 't, 'h, 'pos, 'd, 'm) loop_st \<Rightarrow> ('r, 'p, 't, 'h, 'pos, 'd, 'm) loop_st res" where
  "capture_step K N capture plans tail i s =
     (if \<not> (capture \<and> n_capture N i) then Inr s
      else
        bind_res
          (if l_region s \<and> p_sharded (hd plans)
           then (case tail of
                   Some late \<Rightarrow> seq_res (map (\<lambda>p. tail_rows (c_ag (k_r K)) (n_zero_r N) p late (l_R s)) plans)
                 | None \<Rightarrow> Inr (map (\<lambda>p. gather_rows (c_ag (k_r K)) p (l_R s)) plans))
           else Inr (if tail \<noteq> None \<and> (case n_late N of Some l \<Rightarrow> i < l | None \<Rightarrow> False)
                     then map (n_tail_r N) (l_R s) else l_R s))
          (\<lambda>aux. Inr (s\<lparr>l_aux := l_aux s @ [map (map (n_mean N)) aux]\<rparr>)))"

definition loop_attn ::
    "sp_flags \<Rightarrow> ('x, 'q, 'r, 'p, 'e) sp_colls \<Rightarrow> ('r, 'p, 'x, 'q, 'm, 'w, 'l, 't, 'h, 'e, 'k, 'pos, 'd) sp_net \<Rightarrow> nat \<Rightarrow> grp_ctx
     \<Rightarrow> ('x, 'm sp_memo) sublayer" where
  "loop_attn fl K N i c memo xs =
     (case attn_forward fl (k_group K) (k_x K) (n_k N) (n_attn N i) i c None (fst memo) xs of
        (st, r) \<Rightarrow> ((st, snd memo), r))"

definition loop_moe ::
    "sp_flags \<Rightarrow> ('x, 'q, 'r, 'p, 'e) sp_colls \<Rightarrow> ('r, 'p, 'x, 'q, 'm, 'w, 'l, 't, 'h, 'e, 'k, 'pos, 'd) sp_net \<Rightarrow> nat \<Rightarrow> grp_ctx
     \<Rightarrow> 't list \<Rightarrow> ('x, 'm sp_memo) sublayer" where
  "loop_moe fl K N i c gids memo xs =
     (case moe_forward fl (k_group K) (k_x K) (n_k N) (n_moe N i) c False (n_moe_args N gids) (snd memo) xs of
        (st, r) \<Rightarrow> ((fst memo, st), r))"

definition layer_step ::
    "sp_flags \<Rightarrow> ('x, 'q, 'r, 'p, 'e) sp_colls \<Rightarrow> ('r, 'p, 'x, 'q, 'm, 'w, 'l, 't, 'h, 'e, 'k, 'pos, 'd) sp_net \<Rightarrow> sp_plan list \<Rightarrow> nat
     \<Rightarrow> ('r, 'p, 't, 'h, 'pos, 'd, 'm) loop_st \<Rightarrow> ('r, 'p, 't, 'h, 'pos, 'd, 'm) loop_st res" where
  "layer_step fl K N plans i s =
     (let c = \<lparr>x_plans = (if l_region s then Some plans else None), x_inner = 0, x_skip = None\<rparr> in
      case n_layer N i (loop_attn fl K N i c) (loop_moe fl K N i c (l_gids s)) (l_memo s) (l_R s) (l_pre s)
             (l_pos s) (l_ids s) (l_gids s) of
        (_, Inl e) \<Rightarrow> Inl e
      | (memo, Inr (R, pre)) \<Rightarrow> Inr (s\<lparr>l_R := R, l_pre := Some pre, l_memo := memo\<rparr>))"

definition loop_body ::
    "sp_flags \<Rightarrow> ('x, 'q, 'r, 'p, 'e) sp_colls \<Rightarrow> ('r, 'p, 'x, 'q, 'm, 'w, 'l, 't, 'h, 'e, 'k, 'pos, 'd) sp_net
     \<Rightarrow> (nat \<Rightarrow> 'r list list \<Rightarrow> 'h list \<Rightarrow> 'r list list) \<Rightarrow> bool \<Rightarrow> sp_plan list \<Rightarrow> tail option \<Rightarrow> nat
     \<Rightarrow> ('r, 'p, 't, 'h, 'pos, 'd, 'm) loop_st \<Rightarrow> ('r, 'p, 't, 'h, 'pos, 'd, 'm) loop_st res" where
  "loop_body fl K N stock capture plans tail i s =
     bind_res (case tail of
                 Some late \<Rightarrow> if n_late N = Some i then enter_tail K N plans late i s else Inr s
               | None \<Rightarrow> Inr s) (\<lambda>s.
     bind_res (engram_step fl K N stock plans i s) (\<lambda>s.
     bind_res (capture_step K N capture plans tail i s) (\<lambda>s.
     layer_step fl K N plans i s)))"

fun loop_layers ::
    "sp_flags \<Rightarrow> ('x, 'q, 'r, 'p, 'e) sp_colls \<Rightarrow> ('r, 'p, 'x, 'q, 'm, 'w, 'l, 't, 'h, 'e, 'k, 'pos, 'd) sp_net
     \<Rightarrow> (nat \<Rightarrow> 'r list list \<Rightarrow> 'h list \<Rightarrow> 'r list list) \<Rightarrow> bool \<Rightarrow> sp_plan list \<Rightarrow> tail option \<Rightarrow> nat list
     \<Rightarrow> ('r, 'p, 't, 'h, 'pos, 'd, 'm) loop_st \<Rightarrow> ('r, 'p, 't, 'h, 'pos, 'd, 'm) loop_st res" where
  "loop_layers fl K N stock capture plans tail [] s = Inr s"
| "loop_layers fl K N stock capture plans tail (i # rest) s =
     bind_res (loop_body fl K N stock capture plans tail i s) (loop_layers fl K N stock capture plans tail rest)"

text \<open>The result: the residual and pre-mix of all ranks, whether the tail was entered, and the loop's final state with the
  captured rows, the KV writes and the verdicts.\<close>

definition sp_forward_layers ::
    "sp_flags \<Rightarrow> ('x, 'q, 'r, 'p, 'e) sp_colls \<Rightarrow> ('r, 'p, 'x, 'q, 'm, 'w, 'l, 't, 'h, 'e, 'k, 'pos, 'd) sp_net
     \<Rightarrow> (nat \<Rightarrow> 'r list list \<Rightarrow> 'h list \<Rightarrow> 'r list list) \<Rightarrow> bool \<Rightarrow> sp_plan list \<Rightarrow> tail option
     \<Rightarrow> 'pos list \<Rightarrow> 'r list \<Rightarrow> 't list \<Rightarrow> 't list \<Rightarrow> (nat \<times> nat \<rightharpoonup> bool) \<Rightarrow> 'm sp_memo
     \<Rightarrow> ('r, 'p, 't, 'h, 'pos, 'd, 'm) loop_st res" where
  "sp_forward_layers fl K N stock capture plans tail positions hidden ids gids wkv memo =
     (let tail = (if n_late N = None then None else tail);
          s0 = \<lparr> l_R = map (\<lambda>p. if p_sharded p then slice (p_lo p) (p_hi p) hidden else hidden) plans,
                 l_pre = None, l_region = True, l_saved = False, l_ids = ids, l_gids = gids, l_pos = positions,
                 l_hash = n_hash N ids, l_aux = [], l_kv = [], l_wkv = wkv, l_memo = memo \<rparr>
      in bind_res (loop_layers fl K N stock capture plans tail [n_start N..<n_end N] s0) (\<lambda>s.
           if l_saved s \<or> \<not> p_sharded (hd plans) then Inr s
           else case l_pre s of
                  None \<Rightarrow> Inl AttributeError
                | Some pre \<Rightarrow> Inr (s\<lparr>l_R := map (\<lambda>p. gather_rows (c_ag (k_r K)) p (l_R s)) plans,
                                    l_pre := Some (map (\<lambda>p. gather_rows (c_ag (k_p K)) p pre) plans)\<rparr>)))"

section \<open>Kernel gates keyed on the logical row count\<close>

text \<open>What the gates read of the layer, the tensors and the platform.\<close>

record hc_facts =
  h_cuda :: bool
  h_blackwell :: bool
  h_sm90 :: bool
  h_v41 :: bool
  h_from_prev :: bool
  h_mult :: nat
  h_width :: nat
  h_post_width :: nat
  h_bf16 :: bool
  h_f32_mix :: bool
  h_pre_stride :: nat
  h_cast_before :: bool
  h_var_override :: bool
  h_batch_invariant :: bool
  h_contiguous :: bool
  h_flashinfer :: bool
  h_tilelang :: bool

definition combine_norm_fused :: "hc_facts \<Rightarrow> nat \<Rightarrow> bool" where
  "combine_norm_fused h m =
     (h_cuda h \<and> h_blackwell h \<and> ((0 < m \<and> m \<le> 8) \<or> (h_v41 h \<and> 4096 \<le> m \<and> m \<le> 65536)) \<and> h_mult h = 4
      \<and> h_width h = 20480 \<and> h_bf16 h \<and> h_pre_stride h = 1 \<and> \<not> h_cast_before h \<and> \<not> h_var_override h \<and> \<not> h_batch_invariant h)"

text \<open>\<open>Engine n\<close> is a call of the unpatched method on \<open>n\<close> rows.\<close>

datatype combine_kernel = Engine nat | Fused_prefill | Combine_then_norm

definition hc_combine_norm_rows :: "hc_facts \<Rightarrow> nat \<Rightarrow> combine_kernel res" where
  "hc_combine_norm_rows h logical_m =
     (if 4096 \<le> logical_m \<and> logical_m \<le> 65536 \<and> h_width h = 20480 \<and> h_pre_stride h = 1 \<and> h_bf16 h
      then Inr Fused_prefill else Inl AssertionError)"

definition sp_combine :: "hc_facts \<Rightarrow> sp_plan \<Rightarrow> nat \<Rightarrow> bool \<Rightarrow> combine_kernel res" where
  "sp_combine h p n has_pre =
     (if \<not> has_pre then Inr (Engine n)
      else let full = combine_norm_fused h (p_rows p); here = combine_norm_fused h n in
        if full = here then Inr (Engine n)
        else if full then hc_combine_norm_rows h (p_rows p)
        else Inr Combine_then_norm)"

text \<open>\<open>extras\<close>: a precomputed, normalized or stream argument was passed.\<close>

definition hc_combine :: "sp_ctx \<Rightarrow> hc_facts \<Rightarrow> nat \<Rightarrow> bool \<Rightarrow> bool \<Rightarrow> combine_kernel res" where
  "hc_combine c h n has_pre extras =
     (case c_plan c of
        None \<Rightarrow> Inr (Engine n)
      | Some p \<Rightarrow> if 0 < c_inner c \<or> \<not> p_sharded p \<or> n \<noteq> p_shard p \<or> extras then Inr (Engine n)
                  else sp_combine h p n has_pre)"

definition post_split_h :: "hc_facts \<Rightarrow> nat \<Rightarrow> bool" where
  "post_split_h h m = (h_cuda h \<and> h_blackwell h \<and> h_from_prev h \<and> h_mult h = 4 \<and> h_post_width h = 5120 \<and> m \<le> 384
     \<and> h_bf16 h \<and> h_f32_mix h \<and> h_contiguous h)"

datatype post_kernel = Engine_post nat | Split_h | Flashinfer_post | Mhc_post

definition hc_post :: "sp_ctx \<Rightarrow> hc_facts \<Rightarrow> nat \<Rightarrow> post_kernel res" where
  "hc_post c h n =
     (case c_plan c of
        None \<Rightarrow> Inr (Engine_post n)
      | Some p \<Rightarrow>
          if 0 < c_inner c \<or> \<not> p_sharded p \<or> n \<noteq> p_shard p then Inr (Engine_post n)
          else let full = post_split_h h (p_rows p) in
            if full = post_split_h h n then Inr (Engine_post n)
            else if full then Inr Split_h
            else if h_flashinfer h then Inr Flashinfer_post
            else if h_tilelang h then (if h_sm90 h \<and> 1 \<le> p_rows p \<and> p_rows p \<le> 64 then Inr Split_h else Inr Mhc_post)
            else Inl RuntimeError)"

section \<open>Shards and views\<close>

definition plans_for :: "nat \<Rightarrow> nat \<Rightarrow> bool \<Rightarrow> bool \<Rightarrow> sp_plan list" where
  "plans_for rows w sharded exact = map (\<lambda>r. mk_plan rows w r sharded exact) [0..<w]"

text \<open>Shards on the left, the same rows on every rank on the right.\<close>

definition vrel :: "nat \<Rightarrow> nat \<Rightarrow> 'a list list \<Rightarrow> 'a list list \<Rightarrow> bool" where
  "vrel rows w a b = (\<exists>f. length f = rows \<and> a = shards w f \<and> b = replicate w f)"

lemma vrelI: "length f = rows \<Longrightarrow> vrel rows w (shards w f) (replicate w f)"
  by (auto simp: vrel_def)

lemma slice_map: "slice lo hi (map f xs) = map f (slice lo hi xs)"
  by (simp add: slice_def take_map drop_map)

lemma slice_zip: "slice lo hi (zip xs ys) = zip (slice lo hi xs) (slice lo hi ys)"
  by (simp add: slice_def take_zip drop_zip)

lemma shards_map: "map (map f) (shards w xs) = shards w (map f xs)"
  by (simp add: shards_def slice_map)

lemma shards_zip:
  "length xs = length ys \<Longrightarrow> map (\<lambda>(a, b). zip a b) (zip (shards w xs) (shards w ys)) = shards w (zip xs ys)"
  by (simp add: shards_def slice_zip zip_map1 zip_map2 zip_same_conv_map comp_def)

lemma shards_map2:
  assumes "length xs = length ys"
  shows "map (\<lambda>(a, b). map f (zip a b)) (zip (shards w xs) (shards w ys)) = shards w (map f (zip xs ys))"
  using arg_cong [OF shards_zip [OF assms], of "map (map f)" w]
  by (simp add: shards_map comp_def case_prod_unfold)

lemma shards_concat:
  assumes "0 < w" and "length parts = w" and "list_all (\<lambda>x. length x = s) parts"
  shows "shards w (concat parts) = parts" and "length (concat parts) = w * s"
proof -
  have f: "map (\<lambda>r. parts ! r) [0..<w] = parts" using assms(2) by (metis map_nth)
  have l: "\<And>r. r < w \<Longrightarrow> length (parts ! r) = s" using assms by (simp add: list_all_length)
  show len: "length (concat parts) = w * s" using length_concat_upt [of w "(!) parts" s] l f by simp
  show "shards w (concat parts) = parts"
  proof (rule nth_equalityI)
    fix r assume "r < length (shards w (concat parts))"
    then have r: "r < w" by simp
    then have "shards w (concat parts) ! r = slice (r * s) (Suc r * s) (concat parts)"
      using assms(1) by (simp add: shards_def shard_range_def len)
    also have "\<dots> = parts ! r" using slice_concat_uniform [of w "(!) parts" s r] l r f by simp
    finally show "shards w (concat parts) ! r = parts ! r" .
  qed (simp add: assms(2))
qed

lemma plans_for_simps [simp]:
  "length (plans_for rows w sh ex) = w"
  "0 < w \<Longrightarrow> hd (plans_for rows w sh ex) = mk_plan rows w 0 sh ex"
  "r < w \<Longrightarrow> plans_for rows w sh ex ! r = mk_plan rows w r sh ex"
  by (auto simp: plans_for_def hd_map)

lemma mk_plan_simps [simp]:
  "p_rows (mk_plan rows w r sh ex) = rows" "p_world (mk_plan rows w r sh ex) = w" "p_rank (mk_plan rows w r sh ex) = r"
  "p_shard (mk_plan rows w r sh ex) = rows div w" "p_sharded (mk_plan rows w r sh ex) = sh" "p_exact (mk_plan rows w r sh ex) = ex"
  "p_lo (mk_plan rows w r sh ex) = r * (rows div w)" "p_hi (mk_plan rows w r sh ex) = Suc r * (rows div w)"
  by (simp_all add: mk_plan_def)

lemma map_plans_const: "(\<And>r. r < w \<Longrightarrow> f (mk_plan rows w r sh ex) = y) \<Longrightarrow> map f (plans_for rows w sh ex) = replicate w y"
  by (rule nth_equalityI) auto

lemma slices_are_shards:
  "length x = rows \<Longrightarrow> map (\<lambda>p. slice (p_lo p) (p_hi p) x) (plans_for rows w sh ex) = shards w x"
  by (rule nth_equalityI) (auto simp: shards_def shard_range_def Let_def)

text \<open>A chunk of \<open>rows\<close> rows on \<open>w\<close> ranks, and collectives that gather and scatter.\<close>

definition chunk_ok :: "nat \<Rightarrow> nat \<Rightarrow> bool" where
  "chunk_ok rows w = (0 < w \<and> rows mod w = 0)"

definition coll_ok :: "nat \<Rightarrow> 'a coll \<Rightarrow> bool" where
  "coll_ok w c = (gathers (c_ag c) \<and> scatters w (c_rs c))"

lemma gather_view:
  assumes "coll_ok w c" and "chunk_ok rows w" and "length f = rows" and "p \<in> set (plans_for rows w sh ex)"
  shows "gather_rows (c_ag c) p (shards w f) = f"
  using gather_shards [of "c_ag c" w f] assms by (auto simp: gather_rows_def coll_ok_def chunk_ok_def plans_for_def)

lemma gather_views:
  assumes "coll_ok w c" and "chunk_ok rows w" and "length f = rows"
  shows "map (\<lambda>p. gather_rows (c_ag c) p (shards w f)) (plans_for rows w sh ex) = replicate w f"
  by (rule map_plans_const) (rule gather_view [OF assms], auto simp: plans_for_def)

lemma reduce_views:
  assumes "coll_ok w c" and "chunk_ok rows w" and "length os = w" and "list_all (\<lambda>x. length x = rows) os"
  shows "vrel rows w (map (\<lambda>p. reduce_out (c_ag c) (c_ar c) (c_rs c) p os) (plans_for rows w True False))
    (map (\<lambda>p. reduce_out (c_ag c) (c_ar c) (c_rs c) p os) (plans_for rows w False False))"
proof -
  define parts where "parts = map (c_rs c (rows div w) os) [0..<w]"
  have w: "0 < w" and rows: "w * (rows div w) = rows" using assms(2) by (auto simp: chunk_ok_def)
  have "length (c_rs c (rows div w) os r) = rows div w" if "r < w" for r
    using assms that rows by (simp add: coll_ok_def scatters_def)
  then have parts: "length parts = w" "list_all (\<lambda>x. length x = rows div w) parts"
    by (simp_all add: parts_def list_all_length)
  note sc = shards_concat [OF w parts]
  have ag: "c_ag c rows parts = concat parts"
    using assms(1) sc(2) rows by (intro gathersD) (simp_all add: coll_ok_def)
  have "map (\<lambda>p. reduce_out (c_ag c) (c_ar c) (c_rs c) p os) (plans_for rows w True False) = parts"
    by (rule nth_equalityI) (simp_all add: parts_def reduce_out_def reduce_rows_def)
  moreover have "map (\<lambda>p. reduce_out (c_ag c) (c_ar c) (c_rs c) p os) (plans_for rows w False False) = replicate w (concat parts)"
    by (rule map_plans_const) (simp add: reduce_out_def gather_rows_def ag flip: parts_def)
  ultimately show ?thesis using sc rows by (auto simp: vrel_def)
qed

lemma in_rows_views:
  assumes "chunk_ok rows w" and "length f = rows"
  shows "\<not> list_ex (\<lambda>(p, x). length x \<noteq> in_rows p) (zip (plans_for rows w True ex) (shards w f))"
    and "\<not> list_ex (\<lambda>(p, x). length x \<noteq> in_rows p) (zip (plans_for rows w False ex) (replicate w f))"
  using assms shards_nth_length [of w f]
  by (auto simp: list_ex_length in_rows_def chunk_ok_def)

section \<open>Stage 1 against the transport-only mode\<close>

abbreviation sub_rel :: "('s \<Rightarrow> 's \<Rightarrow> bool) \<Rightarrow> ('x list list \<Rightarrow> 'x list list \<Rightarrow> bool) \<Rightarrow> ('x, 's) sublayer \<Rightarrow> ('x, 's) sublayer \<Rightarrow> bool" where
  "sub_rel Q V \<equiv> rel_fun Q (rel_fun V (rel_prod Q (rel_sum (=) V)))"

lemma sub_relI:
  "(\<And>m m' f. Q m m' \<Longrightarrow> length f = rows \<Longrightarrow> rel_prod Q (rel_sum (=) (vrel rows w)) (g m (shards w f)) (h m' (replicate w f)))
   \<Longrightarrow> sub_rel Q (vrel rows w) g h"
  by (auto simp: rel_fun_def vrel_def)

text \<open>The MXFP8 attention input (stage 2). \<open>fp8_bytes\<close> is what the ranks gather of a chunk \<open>x\<close>; the check of
  \<open>_fp8_input\<close> passes when these are the bytes of the stock quantization of \<open>x\<close> and \<open>wqkv_a\<close> answers the same on
  them as on the bf16 rows; the gathered input is good with the scale view \<open>m\<close> when \<open>wqkv_a\<close> answers the same.\<close>

definition fp8_bytes ::
    "('x, 'q) sp_group \<Rightarrow> nat \<Rightarrow> nat \<Rightarrow> nat \<Rightarrow> ('x, 'q, 'm, 'w) attn_ops \<Rightarrow> 'x list \<Rightarrow> ('q list \<times> nat list) res" where
  "fp8_bytes G k rows w A x =
     bind_res (mxfp8_gather (g_q G) (g_s G) (at_quant A) (mk_plan rows w 0 True False) k (shards w x)) (\<lambda>(qg, sg).
     bind_res (swizzle_128x4 (k div 32) sg) (\<lambda>sw. Inr (qg, sw)))"

definition fp8_good ::
    "('x, 'q) sp_group \<Rightarrow> nat \<Rightarrow> nat \<Rightarrow> nat \<Rightarrow> 'm \<Rightarrow> ('x, 'q, 'm, 'w) attn_ops \<Rightarrow> 'x list \<Rightarrow> bool" where
  "fp8_good G k rows w m A x =
     (\<exists>qg sw. fp8_bytes G k rows w A x = Inr (qg, sw) \<and> (\<forall>r < w. at_wqq A r (qg, sw, m) = at_wq A r x))"

definition fp8_passes ::
    "('x, 'q) sp_group \<Rightarrow> nat \<Rightarrow> nat \<Rightarrow> nat \<Rightarrow> ('x, 'q, 'm, 'w) attn_ops \<Rightarrow> 'x list \<Rightarrow> bool" where
  "fp8_passes G k rows w A x =
     (case at_quant A True x of (rq, rs, m) \<Rightarrow>
        fp8_bytes G k rows w A x = Inr (rq, rs) \<and> (\<forall>r < w. at_wq A r x = at_wqq A r (rq, rs, m)))"

definition fp8_on :: "sp_flags \<Rightarrow> ('x, 'q, 'm, 'w) attn_ops \<Rightarrow> bool" where
  "fp8_on fl A = (FP8 fl \<and> snd (fp8_eligible_attn (at_attrs A)))"

text \<open>What stage 2 rests on, for the eligible layers: the quantizer returns a scale per 32 values; attention reads
  its input only through \<open>wqkv_a\<close>; and the verdict is one of the size, not of the chunk or the layer it was measured
  on: if the check passes once for chunks of \<open>rows\<close> rows, the gathered input is good on all of them. Nothing is
  assumed of a size whose check fails.\<close>

definition fp8_net_ok ::
    "nat \<Rightarrow> nat \<Rightarrow> sp_flags \<Rightarrow> ('x, 'q, 'r, 'p, 'e) sp_colls
     \<Rightarrow> ('r, 'p, 'x, 'q, 'm, 'w, 'l, 't, 'h, 'e, 'k, 'pos, 'd) sp_net \<Rightarrow> bool" where
  "fp8_net_ok rows w fl K N =
     (gathers (g_x (k_group K))
      \<and> (\<forall>i x. fp8_on fl (n_attn N i) \<and> length x = rows \<longrightarrow> (\<exists>b. fp8_bytes (k_group K) (n_k N) rows w (n_attn N i) x = Inr b))
      \<and> (\<forall>i r x q. fp8_on fl (n_attn N i) \<and> length x = rows \<and> r < w \<and> at_wqq (n_attn N i) r q = at_wq (n_attn N i) r x
           \<longrightarrow> at_part_q (n_attn N i) r rows q = at_part (n_attn N i) r x)
      \<and> (\<forall>i j x y. fp8_on fl (n_attn N i) \<and> fp8_on fl (n_attn N j) \<and> length x = rows \<and> length y = rows
           \<and> fp8_passes (k_group K) (n_k N) rows w (n_attn N i) x
           \<longrightarrow> fp8_good (k_group K) (n_k N) rows w (snd (snd (at_quant (n_attn N i) True x))) (n_attn N j) y))"

text \<open>An ON verdict in the memo stands for a check that passed.\<close>

definition fp8_state_ok ::
    "nat \<Rightarrow> nat \<Rightarrow> sp_flags \<Rightarrow> ('x, 'q, 'r, 'p, 'e) sp_colls
     \<Rightarrow> ('r, 'p, 'x, 'q, 'm, 'w, 'l, 't, 'h, 'e, 'k, 'pos, 'd) sp_net \<Rightarrow> (nat \<rightharpoonup> bool \<times> 'm) \<Rightarrow> bool" where
  "fp8_state_ok rows w fl K N st =
     (\<forall>m j y. st rows = Some (True, m) \<and> fp8_on fl (n_attn N j) \<and> length y = rows
        \<longrightarrow> fp8_good (k_group K) (n_k N) rows w m (n_attn N j) y)"

lemma fp8_input_good:
  assumes net: "fp8_net_ok rows w fl K N" and min: "takes_min (g_min (k_group K))" and "chunk_ok rows w" and f: "length f = rows"
    and on: "fp8_on fl (n_attn N i)" and st: "fp8_state_ok rows w fl K N st"
  shows "\<exists>st' xq xb. fp8_input (g_q (k_group K)) (g_s (k_group K)) (g_x (k_group K)) (g_min (k_group K)) (at_quant (n_attn N i))
      (at_wq (n_attn N i)) (at_wqq (n_attn N i)) (mk_plan rows w 0 True False) (n_k N) (shards w f) st = Inr (st', xq, xb)
    \<and> fp8_state_ok rows w fl K N st' \<and> (xb = None \<or> xb = Some f)
    \<and> (\<forall>q r. xq = Some q \<and> r < w \<longrightarrow> at_part_q (n_attn N i) r rows q = at_part (n_attn N i) r f)"
proof -
  let ?A = "n_attn N i" and ?G = "k_group K" and ?p = "mk_plan rows w 0 True False"
  have w: "0 < w" "rows mod w = 0" using assms(3) by (simp_all add: chunk_ok_def)
  have part: "at_part_q ?A r rows q = at_part ?A r f" if "r < w" "at_wqq ?A r q = at_wq ?A r f" for r q
    using net on f that unfolding fp8_net_ok_def by blast
  obtain qg sw where b: "fp8_bytes ?G (n_k N) rows w ?A f = Inr (qg, sw)"
    using net on f unfolding fp8_net_ok_def by (metis surj_pair)
  then obtain sg where g: "mxfp8_gather (g_q ?G) (g_s ?G) (at_quant ?A) ?p (n_k N) (shards w f) = Inr (qg, sg)"
    and sw: "swizzle_128x4 (n_k N div 32) sg = Inr sw"
    by (auto simp: fp8_bytes_def bind_res_Inr_iff split: prod.splits)
  have xb: "gather_rows (g_x ?G) ?p (shards w f) = f"
    using net f w gather_shards [of "g_x ?G" w f] by (simp add: fp8_net_ok_def gather_rows_def)
  consider (off) m where "st rows = Some (False, m)" | (known) m where "st rows = Some (True, m)" | (fresh) "st rows = None"
    by (metis option.exhaust surj_pair)
  then show ?thesis
  proof cases
    case off
    then show ?thesis using st by (simp add: fp8_input_def)
  next
    case known
    then have "fp8_good ?G (n_k N) rows w m ?A f" using st on f unfolding fp8_state_ok_def by blast
    then have "\<forall>r < w. at_wqq ?A r (qg, sw, m) = at_wq ?A r f" using b by (simp add: fp8_good_def)
    then show ?thesis using known st part g sw by (simp add: fp8_input_def)
  next
    case fresh
    obtain rq rs m where q: "at_quant ?A True f = (rq, rs, m)" by (cases "at_quant ?A True f")
    define L where "L = map (\<lambda>r. rq = qg \<and> rs = sw \<and> at_wq ?A r f = at_wqq ?A r (qg, sw, m)) [0..<w]"
    have agree: "agree_min (g_min ?G) L \<longleftrightarrow> (\<forall>l \<in> set L. l)" using min w by (intro agree_min_iff) (simp_all add: L_def)
    have run: "fp8_input (g_q ?G) (g_s ?G) (g_x ?G) (g_min ?G) (at_quant ?A) (at_wq ?A) (at_wqq ?A) ?p (n_k N) (shards w f) st
        = (if agree_min (g_min ?G) L then Inr (st(rows \<mapsto> (True, m)), Some (qg, sw, m), None)
           else Inr (st(rows \<mapsto> (False, m)), None, Some f))"
      using fresh g sw xb q by (simp add: fp8_input_def L_def Let_def)
    show ?thesis
    proof (cases "agree_min (g_min ?G) L")
      case True
      then have ok: "rq = qg \<and> rs = sw \<and> (\<forall>r < w. at_wq ?A r f = at_wqq ?A r (qg, sw, m))" using agree w by (auto simp: L_def)
      then have "fp8_passes ?G (n_k N) rows w ?A f" using b q by (simp add: fp8_passes_def)
      then have "fp8_good ?G (n_k N) rows w m (n_attn N j) y" if "fp8_on fl (n_attn N j)" "length y = rows" for j y
        using net on f q that unfolding fp8_net_ok_def by (metis snd_conv)
      then show ?thesis using run True ok part by (simp add: fp8_state_ok_def)
    next
      case False
      then show ?thesis using run by (simp add: fp8_state_ok_def)
    qed
  qed
qed

lemma attn_views:
  assumes "coll_ok w (k_x K)" and "chunk_ok rows w" and net: "FP8 fl \<longrightarrow> fp8_net_ok rows w fl K N" and min: "takes_min (g_min (k_group K))"
    and f: "length f = rows" and st: "fp8_state_ok rows w fl K N st"
  shows "rel_prod (\<lambda>s s'. fp8_state_ok rows w fl K N s) (rel_sum (=) (vrel rows w))
    (attn_forward fl (k_group K) (k_x K) (n_k N) (n_attn N i) i \<lparr>x_plans = Some (plans_for rows w True False), x_inner = 0, x_skip = None\<rparr>
      None st (shards w f))
    (attn_forward fl (k_group K) (k_x K) (n_k N) (n_attn N i) i \<lparr>x_plans = Some (plans_for rows w False False), x_inner = 0, x_skip = None\<rparr>
      None st' (replicate w f))"
proof -
  let ?A = "n_attn N i" and ?cx = "k_x K"
  have w: "0 < w" using assms(2) by (simp add: chunk_ok_def)
  define os where "os = map (\<lambda>r. at_part ?A r f) [0..<w]"
  have run: "attn_run ?A i \<lparr>x_plans = Some (plans_for rows w sh False), x_inner = Suc 0, x_skip = Some i\<rparr>
      (plans_for rows w sh False) (replicate w f) xq = os"
    if "\<forall>q r. xq = Some q \<and> r < w \<longrightarrow> at_part_q ?A r rows q = at_part ?A r f" for sh xq
    using that by (intro nth_equalityI) (auto simp: attn_run_def wo_b_skip_def os_def split: option.splits)
  have const: "map (\<lambda>_. f) (plans_for rows w sh False) = replicate w f" for sh by (rule map_plans_const) simp
  note iv = in_rows_views [OF assms(2) f, of False]
  note gv = gather_views [OF assms(1,2) f]
  have "\<exists>s xq xb. (if FP8 fl \<and> snd (fp8_eligible_attn (at_attrs ?A))
      then fp8_input (g_q (k_group K)) (g_s (k_group K)) (g_x (k_group K)) (g_min (k_group K)) (at_quant ?A)
        (at_wq ?A) (at_wqq ?A) (mk_plan rows w 0 True False) (n_k N) (shards w f) st
      else Inr (st, None, None)) = Inr (s, xq, xb) \<and> fp8_state_ok rows w fl K N s \<and> (xb = None \<or> xb = Some f)
    \<and> (\<forall>q r. xq = Some q \<and> r < w \<longrightarrow> at_part_q ?A r rows q = at_part ?A r f)"
  proof (cases "FP8 fl \<and> snd (fp8_eligible_attn (at_attrs ?A))")
    case True
    then have "fp8_on fl ?A" by (simp add: fp8_on_def)
    from fp8_input_good [OF _ min assms(2) f this st] net True show ?thesis by simp
  qed (use st in auto)
  then obtain s xq xb where inp: "(if FP8 fl \<and> snd (fp8_eligible_attn (at_attrs ?A))
      then fp8_input (g_q (k_group K)) (g_s (k_group K)) (g_x (k_group K)) (g_min (k_group K)) (at_quant ?A)
        (at_wq ?A) (at_wqq ?A) (mk_plan rows w 0 True False) (n_k N) (shards w f) st
      else Inr (st, None, None)) = Inr (s, xq, xb)"
    and s: "fp8_state_ok rows w fl K N s" and xb: "xb = None \<or> xb = Some f"
    and xq: "\<forall>q r. xq = Some q \<and> r < w \<longrightarrow> at_part_q ?A r rows q = at_part ?A r f" by blast
  have xfs: "(case xb of Some b \<Rightarrow> map (\<lambda>_. b) (plans_for rows w True False)
      | None \<Rightarrow> map (\<lambda>p. gather_rows (c_ag ?cx) p (shards w f)) (plans_for rows w True False)) = replicate w f"
    using xb by (auto simp: const gv)
  have vr: "vrel rows w (map (\<lambda>p. reduce_out (c_ag ?cx) (c_ar ?cx) (c_rs ?cx) p os) (plans_for rows w True False))
      (map (\<lambda>p. reduce_out (c_ag ?cx) (c_ar ?cx) (c_rs ?cx) p os) (plans_for rows w False False))"
    if "\<not> list_ex (\<lambda>out. length out \<noteq> rows) os"
    using that by (intro reduce_views assms) (simp_all add: os_def list_all_iff list_ex_iff)
  have sharded: "attn_forward fl (k_group K) ?cx (n_k N) ?A i \<lparr>x_plans = Some (plans_for rows w True False), x_inner = 0, x_skip = None\<rparr>
      None st (shards w f) = (if list_ex (\<lambda>out. length out \<noteq> rows) os then (s, Inl RuntimeError)
        else (s, Inr (map (\<lambda>p. reduce_out (c_ag ?cx) (c_ar ?cx) (c_rs ?cx) p os) (plans_for rows w True False))))"
    using iv inp by (simp add: attn_forward_def Let_def w xfs run [OF xq])
  have whole: "attn_forward fl (k_group K) ?cx (n_k N) ?A i \<lparr>x_plans = Some (plans_for rows w False False), x_inner = 0, x_skip = None\<rparr>
      None st' (replicate w f) = (if list_ex (\<lambda>out. length out \<noteq> rows) os then (st', Inl RuntimeError)
        else (st', Inr (map (\<lambda>p. reduce_out (c_ag ?cx) (c_ar ?cx) (c_rs ?cx) p os) (plans_for rows w False False))))"
    using iv by (simp add: attn_forward_def Let_def w run)
  show ?thesis unfolding sharded whole using s vr by simp
qed

lemma moe_views:
  assumes "coll_ok w cx" and "chunk_ok rows w" and "FP8_MOE fl = False" and "length f = rows"
  shows "rel_prod (=) (rel_sum (=) (vrel rows w))
    (moe_forward fl G cx k L \<lparr>x_plans = Some (plans_for rows w True False), x_inner = 0, x_skip = None\<rparr> False a st (shards w f))
    (moe_forward fl G cx k L \<lparr>x_plans = Some (plans_for rows w False False), x_inner = 0, x_skip = None\<rparr> False a st (replicate w f))"
proof -
  have w: "0 < w" using assms(2) by (simp add: chunk_ok_def)
  define os where "os = map (\<lambda>r. mo_stock (ml_ops L) r f) [0..<w]"
  have run: "map (\<lambda>(p, xf). mo_stock (ml_ops L) (p_rank p) xf) (zip (plans_for rows w sh False) (replicate w f)) = os" for sh
    by (rule nth_equalityI) (auto simp: os_def)
  note iv = in_rows_views [OF assms(2,4), of False]
  note gv = gather_views [OF assms(1,2,4)]
  show ?thesis
  proof (cases "list_ex (\<lambda>out. length out \<noteq> rows) os")
    case True
    then show ?thesis
      using iv by (simp add: moe_forward_def Let_def w assms(3) gv run)
  next
    case False
    then have "list_all (\<lambda>x. length x = rows) os" by (simp add: list_all_iff list_ex_iff)
    then have "vrel rows w (map (\<lambda>p. reduce_out (c_ag cx) (c_ar cx) (c_rs cx) p os) (plans_for rows w True False))
        (map (\<lambda>p. reduce_out (c_ag cx) (c_ar cx) (c_rs cx) p os) (plans_for rows w False False))"
      by (intro reduce_views assms) (simp_all add: os_def)
    with False show ?thesis
      using iv by (simp add: moe_forward_def Let_def w assms(3) gv run)
  qed
qed

text \<open>An Engram layer whose gate works row by row and whose projection and lookups return a row per id. Its projection on a
  shard is exact where the ranks' products are their rows of the product of the whole chunk.\<close>

definition engram_row_local :: "nat \<Rightarrow> ('h, 'e, 'k, 'r) engram \<Rightarrow> bool" where
  "engram_row_local rows en =
     ((\<forall>e. length e = rows \<longrightarrow> length (en_wkv en e) = rows) \<and> (\<exists>g. \<forall>x k. en_gate en x k = map g (zip x k))
      \<and> (\<forall>ids. length ids = rows \<longrightarrow> length (en_embed en ids) = rows \<and> (\<forall>r. length (en_owned en r ids) = rows)))"

definition wkv_exact :: "nat \<Rightarrow> nat \<Rightarrow> ('h, 'e, 'k, 'r) engram \<Rightarrow> bool" where
  "wkv_exact rows w en = (\<forall>e. length e = rows \<longrightarrow> map (en_wkv en) (shards w e) = shards w (en_wkv en e))"

text \<open>Where the shard products are not taken on an earlier verdict, nothing is assumed of the projection.\<close>

lemma wkv_shard_rows:
  assumes "coll_ok w ce" and "chunk_ok rows w" and "length e = rows" and "length (en_wkv en e) = rows" and "takes_min amin"
    and "WKV_SHARD fl \<and> okm (en_index en, rows) = Some True \<longrightarrow> wkv_exact rows w en"
  shows "snd (wkv_shard fl amin ce (plans_for rows w True ex) en (shards w e) okm) = shards w (en_wkv en e)"
    and "k \<noteq> (en_index en, rows) \<Longrightarrow> fst (wkv_shard fl amin ce (plans_for rows w True ex) en (shards w e) okm) k = okm k"
proof -
  let ?part = "map (en_wkv en) (shards w e)"
  have w: "0 < w" using assms(2) by (simp add: chunk_ok_def)
  have "map (\<lambda>p. slice (p_lo p) (p_hi p) (en_wkv en (gather_rows (c_ag ce) p (shards w e)))) (plans_for rows w True ex)
      = map (\<lambda>p. slice (p_lo p) (p_hi p) (en_wkv en e)) (plans_for rows w True ex)"
    using gather_view [OF assms(1-3)] by (intro map_cong) auto
  also have "\<dots> = shards w (en_wkv en e)" using assms(4) by (intro slices_are_shards) simp
  finally have mine: "map (\<lambda>p. slice (p_lo p) (p_hi p) (en_wkv en (gather_rows (c_ag ce) p (shards w e)))) (plans_for rows w True ex)
      = shards w (en_wkv en e)" .
  have "agree_min amin (map (\<lambda>(a, b). a = b) (zip (shards w (en_wkv en e)) ?part))
      \<longleftrightarrow> (\<forall>l \<in> set (map (\<lambda>(a, b). a = b) (zip (shards w (en_wkv en e)) ?part)). l)"
    using assms(5) w by (intro agree_min_iff) (auto simp: shards_def)
  then have agree: "agree_min amin (map (\<lambda>(a, b). a = b) (zip (shards w (en_wkv en e)) ?part)) \<longleftrightarrow> shards w (en_wkv en e) = ?part"
    by (auto simp: list_eq_iff_zip_eq)
  show "snd (wkv_shard fl amin ce (plans_for rows w True ex) en (shards w e) okm) = shards w (en_wkv en e)"
    using assms(3,6) agree w by (auto simp: wkv_shard_def Let_def mine wkv_exact_def split: option.splits)
  show "k \<noteq> (en_index en, rows) \<Longrightarrow> fst (wkv_shard fl amin ce (plans_for rows w True ex) en (shards w e) okm) k = okm k"
    using w by (auto simp: wkv_shard_def Let_def split: option.splits)
qed

lemma engram_embs:
  assumes "coll_ok w ce" and "chunk_ok rows w" and "engram_row_local rows en" and "length ids = rows"
  shows "\<exists>e. length e = rows
    \<and> (let (embs, partial) = engram_lookup_partial (plans_for rows w True False) en ids in
       (if partial then map (\<lambda>p. reduce_rows (c_ar ce) (c_rs ce) p embs) (plans_for rows w True False)
        else map (\<lambda>(p, e). slice (p_lo p) (p_hi p) e) (zip (plans_for rows w True False) embs))) = shards w e
    \<and> (let (embs, partial) = engram_lookup_partial (plans_for rows w False False) en ids in
       (if partial then map (\<lambda>p. reduce_out (c_ag ce) (c_ar ce) (c_rs ce) p embs) (plans_for rows w False False) else embs))
      = replicate w e"
proof (cases "en_shared en")
  case True
  let ?e = "en_embed en ids"
  have "length ?e = rows" using assms(3,4) by (simp add: engram_row_local_def)
  moreover from this have "map (\<lambda>(p, e). slice (p_lo p) (p_hi p) e) (zip (plans_for rows w True False) (replicate w ?e)) = shards w ?e"
    by (intro nth_equalityI) (auto simp: shards_def shard_range_def Let_def)
  ultimately show ?thesis
    using True by (intro exI [of _ ?e]) (simp add: engram_lookup_partial_def map_replicate_const)
next
  case False
  define os where "os = map (\<lambda>r. en_owned en r ids) [0..<w]"
  have os: "map (\<lambda>p. en_owned en (p_rank p) ids) (plans_for rows w sh False) = os" for sh
    by (rule nth_equalityI) (auto simp: os_def)
  have "vrel rows w (map (\<lambda>p. reduce_out (c_ag ce) (c_ar ce) (c_rs ce) p os) (plans_for rows w True False))
      (map (\<lambda>p. reduce_out (c_ag ce) (c_ar ce) (c_rs ce) p os) (plans_for rows w False False))"
    using assms by (intro reduce_views) (auto simp: os_def engram_row_local_def list_all_iff)
  moreover have "map (\<lambda>p. reduce_out (c_ag ce) (c_ar ce) (c_rs ce) p os) (plans_for rows w True False)
      = map (\<lambda>p. reduce_rows (c_ar ce) (c_rs ce) p os) (plans_for rows w True False)"
    by (rule nth_equalityI) (auto simp: reduce_out_def)
  ultimately show ?thesis using False by (auto simp: engram_lookup_partial_def os vrel_def)
qed

lemma engram_views:
  assumes "coll_ok w ce" and "chunk_ok rows w" and "engram_row_local rows en" and "length ids = rows" and "length x = rows"
    and "takes_min amin" and "WKV_SHARD fl \<and> okm (en_index en, rows) = Some True \<longrightarrow> wkv_exact rows w en"
  shows "vrel rows w (snd (sp_engram fl amin ce (plans_for rows w True False) en (shards w x) ids okm))
      (snd (sp_engram fl amin ce (plans_for rows w False False) en (replicate w x) ids okm'))"
    and "fst (sp_engram fl amin ce (plans_for rows w False False) en (replicate w x) ids okm') = okm'"
    and "k \<noteq> (en_index en, rows) \<Longrightarrow> fst (sp_engram fl amin ce (plans_for rows w True False) en (shards w x) ids okm) k = okm k"
proof -
  have w: "0 < w" using assms(2) by (simp add: chunk_ok_def)
  obtain g where g: "\<And>x k. en_gate en x k = map g (zip x k)"
    using assms(3) unfolding engram_row_local_def by blast
  obtain e where e: "length e = rows"
    and S: "(let (embs, partial) = engram_lookup_partial (plans_for rows w True False) en ids in
       (if partial then map (\<lambda>p. reduce_rows (c_ar ce) (c_rs ce) p embs) (plans_for rows w True False)
        else map (\<lambda>(p, e). slice (p_lo p) (p_hi p) e) (zip (plans_for rows w True False) embs))) = shards w e"
    and C: "(let (embs, partial) = engram_lookup_partial (plans_for rows w False False) en ids in
       (if partial then map (\<lambda>p. reduce_out (c_ag ce) (c_ar ce) (c_rs ce) p embs) (plans_for rows w False False) else embs))
      = replicate w e"
    using engram_embs [OF assms(1-4)] by blast
  have k: "length (en_wkv en e) = rows" using assms(3) e by (simp add: engram_row_local_def)
  have wkv: "snd (wkv_shard fl amin ce (plans_for rows w True False) en (shards w e) okm) = shards w (en_wkv en e)"
    by (rule wkv_shard_rows(1)) (fact assms e k)+
  have run: "sp_engram fl amin ce (plans_for rows w True False) en (shards w x) ids okm
      = (fst (wkv_shard fl amin ce (plans_for rows w True False) en (shards w e) okm),
         map (\<lambda>(x, k). map g (zip x k)) (zip (shards w x) (shards w (en_wkv en e))))"
    using S wkv w by (simp add: sp_engram_def Let_def case_prod_beta g)
  have "map (\<lambda>(x, k). map g (zip x k)) (zip (shards w x) (shards w (en_wkv en e))) = shards w (map g (zip x (en_wkv en e)))"
    using k assms(5) by (intro shards_map2) simp
  moreover have "snd (sp_engram fl amin ce (plans_for rows w False False) en (replicate w x) ids okm')
      = replicate w (map g (zip x (en_wkv en e)))"
    using C w by (simp add: sp_engram_def Let_def case_prod_beta g zip_replicate)
  ultimately show "vrel rows w (snd (sp_engram fl amin ce (plans_for rows w True False) en (shards w x) ids okm))
      (snd (sp_engram fl amin ce (plans_for rows w False False) en (replicate w x) ids okm'))"
    using k assms(5) vrelI [of "map g (zip x (en_wkv en e))" rows w] run by simp
  show "fst (sp_engram fl amin ce (plans_for rows w False False) en (replicate w x) ids okm') = okm'"
    using w by (simp add: sp_engram_def Let_def case_prod_beta)
  show "k \<noteq> (en_index en, rows) \<Longrightarrow> fst (sp_engram fl amin ce (plans_for rows w True False) en (shards w x) ids okm) k = okm k"
    using wkv_shard_rows(2) [of w ce rows e en amin fl okm k False] assms e k run by simp
qed

text \<open>Sharded state on the left, transport-only state on the right; the verdicts on the \<open>wkv\<close> projection and on the MXFP8
  attention input exist only on the left.\<close>

definition memo_rel ::
    "nat \<Rightarrow> nat \<Rightarrow> sp_flags \<Rightarrow> ('x, 'q, 'r, 'p, 'e) sp_colls
     \<Rightarrow> ('r, 'p, 'x, 'q, 'm, 'w, 'l, 't, 'h, 'e, 'k, 'pos, 'd) sp_net \<Rightarrow> 'm sp_memo \<Rightarrow> 'm sp_memo \<Rightarrow> bool" where
  "memo_rel rows w fl K N s s' = (fp8_state_ok rows w fl K N (fst s) \<and> snd s = snd s')"

definition loop_rel ::
    "nat \<Rightarrow> nat \<Rightarrow> sp_flags \<Rightarrow> ('x, 'q, 'r, 'p, 'e) sp_colls
     \<Rightarrow> ('r, 'p, 'x, 'q, 'm, 'w, 'l, 't, 'h, 'e, 'k, 'pos, 'd) sp_net
     \<Rightarrow> ('r, 'p, 't, 'h, 'pos, 'd, 'm) loop_st \<Rightarrow> ('r, 'p, 't, 'h, 'pos, 'd, 'm) loop_st \<Rightarrow> bool" where
  "loop_rel rows w fl K N S C =
     (memo_rel rows w fl K N (l_memo S) (l_memo C)
      \<and> (if l_region C
         then length (l_ids C) = rows \<and> (case l_hash C of Some hs \<Rightarrow> length hs = rows | None \<Rightarrow> True)
           \<and> \<not> l_saved C \<and> vrel rows w (l_R S) (l_R C) \<and> rel_option (vrel rows w) (l_pre S) (l_pre C)
           \<and> S = C\<lparr>l_R := l_R S, l_pre := l_pre S, l_wkv := l_wkv S, l_memo := l_memo S\<rparr>
         else l_saved C \<and> S = C\<lparr>l_wkv := l_wkv S, l_memo := l_memo S\<rparr>))"

lemma where_step:
  assumes "chunk_ok rows w" and "vrel rows w aS aC" and "vrel rows w bS bC" and "length ids = rows"
  shows "vrel rows w
    (map (\<lambda>(p, b, r). where_rows (map im (if p_sharded p then slice (p_lo p) (p_hi p) ids else ids)) b r)
       (zip (plans_for rows w True False) (zip aS bS)))
    (map (\<lambda>(p, b, r). where_rows (map im (if p_sharded p then slice (p_lo p) (p_hi p) ids else ids)) b r)
       (zip (plans_for rows w False False) (zip aC bC)))"
proof -
  obtain a b where a: "length a = rows" "aS = shards w a" "aC = replicate w a"
    and b: "length b = rows" "bS = shards w b" "bC = replicate w b"
    using assms(2,3) by (auto simp: vrel_def)
  let ?f = "where_rows (map im ids) a b"
  have "map (\<lambda>(p, b, r). where_rows (map im (if p_sharded p then slice (p_lo p) (p_hi p) ids else ids)) b r)
       (zip (plans_for rows w True False) (zip aS bS)) = shards w ?f"
    using a b assms(4) by (intro nth_equalityI) (auto simp: shards_def shard_range_def Let_def where_rows_def slice_map slice_zip)
  moreover have "map (\<lambda>(p, b, r). where_rows (map im (if p_sharded p then slice (p_lo p) (p_hi p) ids else ids)) b r)
       (zip (plans_for rows w False False) (zip aC bC)) = replicate w ?f"
    by (rule nth_equalityI) (auto simp: a b)
  moreover have "length ?f = rows" using a b assms(4) by (simp add: where_rows_def)
  ultimately show ?thesis by (auto simp: vrel_def)
qed

text \<open>A decoder layer that is row-local but for its attention and MoE: from sublayers that agree on shards and whole
  rows it makes a layer that does; and it reaches the verdicts of this adapter only through them.\<close>

definition layer_respects ::
    "('s \<Rightarrow> 's \<Rightarrow> bool) \<Rightarrow> ('x list list \<Rightarrow> 'x list list \<Rightarrow> bool) \<Rightarrow> ('r list list \<Rightarrow> 'r list list \<Rightarrow> bool)
     \<Rightarrow> ('p list list \<Rightarrow> 'p list list \<Rightarrow> bool)
     \<Rightarrow> (('x, 's) sublayer \<Rightarrow> ('x, 's) sublayer \<Rightarrow> 's \<Rightarrow> 'r list list \<Rightarrow> 'p list list option
        \<Rightarrow> 'pos list \<Rightarrow> 't list \<Rightarrow> 't list \<Rightarrow> 's \<times> ('r list list \<times> 'p list list) res) \<Rightarrow> bool" where
  "layer_respects Q V VR VP L =
     (\<forall>atS atC moS moC s s' R R' pre pre' pos ids gids.
        sub_rel Q V atS atC \<and> sub_rel Q V moS moC \<and> Q s s' \<and> VR R R' \<and> rel_option VP pre pre'
        \<longrightarrow> rel_prod Q (rel_sum (=) (rel_prod VR VP))
              (L atS moS s R pre pos ids gids) (L atC moC s' R' pre' pos ids gids))"

definition row_local_layer :: "nat \<Rightarrow> nat \<Rightarrow> (('x, 's) sublayer \<Rightarrow> ('x, 's) sublayer \<Rightarrow> 's \<Rightarrow> 'r list list \<Rightarrow> 'p list list option
     \<Rightarrow> 'pos list \<Rightarrow> 't list \<Rightarrow> 't list \<Rightarrow> 's \<times> ('r list list \<times> 'p list list) res) \<Rightarrow> bool" where
  "row_local_layer rows w L =
     (\<forall>Q. layer_respects Q (vrel rows w) (vrel rows w) (vrel rows w) L \<and> layer_respects Q (=) (=) (=) L)"

definition tail_ok :: "nat \<Rightarrow> tail \<Rightarrow> bool" where
  "tail_ok rows late = (case contiguous_start late of Some s \<Rightarrow> s \<le> rows
     | None \<Rightarrow> list_all (\<lambda>i. i < rows) (token_indices late))"

definition net_ok ::
    "nat \<Rightarrow> nat \<Rightarrow> sp_flags \<Rightarrow> ('x, 'q, 'r, 'p, 'e) sp_colls
     \<Rightarrow> ('r, 'p, 'x, 'q, 'm, 'w, 'l, 't, 'h, 'e, 'k, 'pos, 'd) sp_net \<Rightarrow> tail option \<Rightarrow> bool" where
  "net_ok rows w fl K N tail =
     (chunk_ok rows w \<and> FP8_MOE fl = False \<and> (FP8 fl \<longrightarrow> fp8_net_ok rows w fl K N) \<and> takes_min (g_min (k_group K))
      \<and> coll_ok w (k_x K) \<and> coll_ok w (k_r K) \<and> coll_ok w (k_p K) \<and> coll_ok w (k_e K)
      \<and> (\<forall>i en. n_engram N i = Some en \<longrightarrow> engram_row_local rows en)
      \<and> (\<forall>i j en en'. n_engram N i = Some en \<and> n_engram N j = Some en' \<and> en_index en = en_index en' \<longrightarrow> i = j)
      \<and> (\<forall>i. row_local_layer rows w (n_layer N i))
      \<and> (\<forall>late. tail = Some late \<longrightarrow> tail_ok rows late \<and> n_tail_r N = tail_spec (n_zero_r N) late
           \<and> n_tail_p N = tail_spec (n_zero_p N) late))"

lemma fp8_off_ok: "\<not> FP8 fl \<Longrightarrow> fp8_state_ok rows w fl K N st"
  by (simp add: fp8_state_ok_def fp8_on_def)

lemma net_okD:
  assumes "net_ok rows w fl K N tail"
  shows "chunk_ok rows w" "FP8 fl \<Longrightarrow> fp8_net_ok rows w fl K N" "FP8_MOE fl = False" "coll_ok w (k_x K)" "coll_ok w (k_r K)" "coll_ok w (k_p K)"
    "coll_ok w (k_e K)" "n_engram N i = Some en \<Longrightarrow> engram_row_local rows en" "row_local_layer rows w (n_layer N i)"
    "tail = Some late \<Longrightarrow> tail_ok rows late \<and> n_tail_r N = tail_spec (n_zero_r N) late \<and> n_tail_p N = tail_spec (n_zero_p N) late"
    "0 < w" "takes_min (g_min (k_group K))"
    "n_engram N i = Some en \<Longrightarrow> n_engram N j = Some en' \<Longrightarrow> en_index en = en_index en' \<Longrightarrow> i = j"
  using assms unfolding net_ok_def chunk_ok_def by blast+

text \<open>The ON verdicts on the projections of the layers from \<open>k\<close> on stand for exact shard products.\<close>

definition wkv_ready :: "nat \<Rightarrow> nat \<Rightarrow> sp_flags \<Rightarrow> ('r, 'p, 'x, 'q, 'm, 'w, 'l, 't, 'h, 'e, 'k, 'pos, 'd) sp_net \<Rightarrow> nat
     \<Rightarrow> (nat \<times> nat \<rightharpoonup> bool) \<Rightarrow> bool" where
  "wkv_ready rows w fl N k okm =
     (\<forall>i en. k \<le> i \<and> n_engram N i = Some en \<and> WKV_SHARD fl \<and> okm (en_index en, rows) = Some True \<longrightarrow> wkv_exact rows w en)"

abbreviation loop_res ::
    "nat \<Rightarrow> nat \<Rightarrow> sp_flags \<Rightarrow> ('x, 'q, 'r, 'p, 'e) sp_colls
     \<Rightarrow> ('r, 'p, 'x, 'q, 'm, 'w, 'l, 't, 'h, 'e, 'k, 'pos, 'd) sp_net
     \<Rightarrow> ('r, 'p, 't, 'h, 'pos, 'd, 'm) loop_st res \<Rightarrow> ('r, 'p, 't, 'h, 'pos, 'd, 'm) loop_st res \<Rightarrow> bool" where
  "loop_res rows w fl K N \<equiv> rel_sum (=) (loop_rel rows w fl K N)"

lemma loop_rel_cases:
  assumes "loop_rel rows w fl K N S C"
  obtains (inside) R pre wkv memo where "l_region C" "\<not> l_saved C" "length (l_ids C) = rows"
      "\<forall>hs. l_hash C = Some hs \<longrightarrow> length hs = rows" "length R = rows" "l_R C = replicate w R"
      "\<forall>v. pre = Some v \<longrightarrow> length v = rows" "l_pre C = map_option (replicate w) pre"
      "S = C\<lparr>l_R := shards w R, l_pre := map_option (shards w) pre, l_wkv := wkv, l_memo := memo\<rparr>"
      "memo_rel rows w fl K N memo (l_memo C)"
  | (outside) wkv memo where "\<not> l_region C" "l_saved C" "S = C\<lparr>l_wkv := wkv, l_memo := memo\<rparr>" "memo_rel rows w fl K N memo (l_memo C)"
proof (cases "l_region C")
  case True
  then obtain R where R: "length R = rows" "l_R S = shards w R" "l_R C = replicate w R"
    using assms by (auto simp: loop_rel_def vrel_def)
  obtain pre where pre: "\<forall>v. pre = Some v \<longrightarrow> length v = rows" "l_pre S = map_option (shards w) pre"
      "l_pre C = map_option (replicate w) pre"
  proof (cases "l_pre C")
    case None
    then show ?thesis using assms True that [of None] by (auto simp: loop_rel_def)
  next
    case (Some v)
    then obtain v' where "l_pre S = Some v'" "vrel rows w v' v"
      using assms True by (auto simp: loop_rel_def option_rel_Some2)
    then show ?thesis using Some that [of "Some _"] by (auto simp: vrel_def)
  qed
  show ?thesis using True R pre assms
    by (intro inside [of R pre "l_memo S" "l_wkv S"]) (auto simp: loop_rel_def split: option.splits)
next
  case False
  then show ?thesis using assms by (intro outside [of "l_memo S" "l_wkv S"]) (auto simp: loop_rel_def)
qed

lemma loop_rel_insideI:
  assumes "l_region C" "\<not> l_saved C" "length (l_ids C) = rows" "\<forall>hs. l_hash C = Some hs \<longrightarrow> length hs = rows"
    "vrel rows w (l_R S) (l_R C)" "rel_option (vrel rows w) (l_pre S) (l_pre C)"
    "S = C\<lparr>l_R := l_R S, l_pre := l_pre S, l_wkv := l_wkv S, l_memo := l_memo S\<rparr>" "memo_rel rows w fl K N (l_memo S) (l_memo C)"
  shows "loop_rel rows w fl K N S C"
  using assms by (auto simp: loop_rel_def split: option.splits)

lemma rel_pre: "\<forall>v. pre = Some v \<longrightarrow> length v = rows \<Longrightarrow>
    rel_option (vrel rows w) (map_option (shards w) pre) (map_option (replicate w) pre)"
  by (cases pre) (auto intro: vrelI)

lemma engram_step_views:
  assumes "net_ok rows w fl K N tail" and "loop_rel rows w fl K N S C" and ready: "wkv_ready rows w fl N i (l_wkv S)"
  shows "loop_res rows w fl K N (engram_step fl K N stock (plans_for rows w True False) i S)
    (engram_step fl K N stock (plans_for rows w False False) i C)"
  using assms(2)
proof (cases rule: loop_rel_cases)
  case (inside R pre wkv memo)
  note S = inside(9)
  show ?thesis
  proof (cases "n_engram N i")
    case None
    then show ?thesis using assms(2) by (simp add: engram_step_def)
  next
    case (Some en)
    show ?thesis
    proof (cases "l_hash C")
      case None
      then show ?thesis by (simp add: engram_step_def Some S)
    next
      case (Some hs)
      let ?ids = "map (\<lambda>row. row ! en_index en) hs"
      have ids: "length ?ids = rows" using inside(4) Some by simp
      define eS where "eS = sp_engram fl (g_min (k_group K)) (k_e K) (plans_for rows w True False) en (shards w R) ?ids wkv"
      define eC where "eC = sp_engram fl (g_min (k_group K)) (k_e K) (plans_for rows w False False) en (replicate w R) ?ids (l_wkv C)"
      note nok = net_okD [OF assms(1)]
      have safe: "WKV_SHARD fl \<and> wkv (en_index en, rows) = Some True \<longrightarrow> wkv_exact rows w en"
        using ready \<open>n_engram N i = Some en\<close> by (auto simp: wkv_ready_def S)
      note row = nok(8) [OF \<open>n_engram N i = Some en\<close>]
      have ev: "vrel rows w (snd eS) (snd eC)"
        unfolding eS_def eC_def by (rule engram_views(1)) (fact nok(7) nok(1) row ids inside(5) nok(12) safe)+
      have okC: "fst eC = l_wkv C"
        unfolding eC_def by (rule engram_views(2)) (fact nok(7) nok(1) row ids inside(5) nok(12) safe)+
      note wv = where_step [OF nok(1) vrelI [OF inside(5)] ev inside(3), of "n_image N"]
      have one: "engram_step fl K N stock (plans_for rows w True False) i S
        = Inr (C\<lparr>l_pre := map_option (shards w) pre, l_R := (if n_vision N
          then map (\<lambda>(p, b, r). where_rows (map (n_image N) (if p_sharded p then slice (p_lo p) (p_hi p) (l_ids C) else l_ids C)) b r)
                 (zip (plans_for rows w True False) (zip (shards w R) (snd eS))) else snd eS), l_wkv := fst eS, l_memo := memo\<rparr>)"
        using \<open>n_engram N i = Some en\<close> Some inside(1) by (simp add: S engram_step_def Let_def case_prod_beta flip: eS_def)
      have two: "engram_step fl K N stock (plans_for rows w False False) i C = Inr (C\<lparr>l_R := (if n_vision N
          then map (\<lambda>(p, b, r). where_rows (map (n_image N) (if p_sharded p then slice (p_lo p) (p_hi p) (l_ids C) else l_ids C)) b r)
                 (zip (plans_for rows w False False) (zip (replicate w R) (snd eC))) else snd eC), l_wkv := l_wkv C\<rparr>)"
        using \<open>n_engram N i = Some en\<close> Some inside(1,6) okC by (simp add: engram_step_def Let_def case_prod_beta flip: eC_def)
      show ?thesis
        unfolding one two rel_sum_simps
        by (rule loop_rel_insideI) (use wv ev inside(1-8,10) rel_pre [OF inside(7)] in simp_all)
    qed
  qed
next
  case (outside wkv memo)
  have eq: "map (\<lambda>(p, b, r). where_rows (map (n_image N) (l_ids C)) b r) (zip (plans_for rows w True False) xs)
      = map (\<lambda>(p, b, r). where_rows (map (n_image N) (l_ids C)) b r) (zip (plans_for rows w False False) xs)" for xs
    by (rule nth_equalityI) (auto simp: case_prod_beta)
  show ?thesis
    using outside(1,2,4) by (auto simp: eq outside(3) engram_step_def Let_def loop_rel_def split: option.splits)
qed

lemma tail_views:
  assumes "coll_ok w c" and "chunk_ok rows w" and "length f = rows" and "tail_ok rows late"
  shows "seq_res (map (\<lambda>p. tail_rows (c_ag c) z p late (shards w f)) (plans_for rows w True False))
    = Inr (replicate w (tail_spec z late f))"
proof -
  have "tail_rows (c_ag c) z p late (shards w f) = Inr (tail_spec z late f)" if "p \<in> set (plans_for rows w True False)" for p
    using that assms by (intro tail_rows_of_shards)
      (auto simp: coll_ok_def chunk_ok_def tail_ok_def plans_for_def split: option.splits)
  then have "seq_res (map (\<lambda>p. tail_rows (c_ag c) z p late (shards w f)) (plans_for rows w True False))
      = Inr (map (\<lambda>_. tail_spec z late f) (plans_for rows w True False))"
    by (rule seq_res_all)
  then show ?thesis by (simp add: map_replicate_const)
qed

lemma enter_tail_views:
  assumes "net_ok rows w fl K N (Some late)" and "loop_rel rows w fl K N S C" and "l_region C" and "l_pre C \<noteq> None"
  shows "\<exists>S' C'. enter_tail K N (plans_for rows w True False) late i S = Inr S'
    \<and> enter_tail K N (plans_for rows w False False) late i C = Inr C' \<and> loop_rel rows w fl K N S' C' \<and> \<not> l_region C' \<and> l_pre C' \<noteq> None"
  using assms(2)
proof (cases rule: loop_rel_cases)
  case (inside R pre wkv memo)
  note S = inside(9)
  note nok = net_okD [OF assms(1)]
  from nok(10) [OF refl] have t: "tail_ok rows late" "n_tail_r N = tail_spec (n_zero_r N) late" "n_tail_p N = tail_spec (n_zero_p N) late"
    by auto
  obtain v where v: "pre = Some v" "length v = rows" using assms(4) inside(7,8) by (cases pre) auto
  note tv = tail_views [OF nok(5) nok(1) inside(5) t(1), of "n_zero_r N"] tail_views [OF nok(6) nok(1) v(2) t(1), of "n_zero_p N"]
  note gv = gather_views [OF nok(5) nok(1) inside(5)] gather_views [OF nok(6) nok(1) v(2)]
  show ?thesis
    using inside(1-8,10) v nok(11)
    by (simp add: S enter_tail_def Let_def tv gv t(2,3) loop_rel_def)
next
  case outside
  with assms(3) show ?thesis by simp
qed

lemma capture_step_views:
  assumes "net_ok rows w fl K N tail" and "loop_rel rows w fl K N S C" and "l_region C \<longleftrightarrow> (tail = None \<or> (\<exists>l. n_late N = Some l \<and> i < l))"
    and "tail \<noteq> None \<longrightarrow> n_late N \<noteq> None"
  shows "loop_res rows w fl K N (capture_step K N capture (plans_for rows w True False) tail i S)
    (capture_step K N capture (plans_for rows w False False) tail i C)"
  using assms(2)
proof (cases rule: loop_rel_cases)
  case (inside R pre wkv memo)
  note S = inside(9)
  note nok = net_okD [OF assms(1)]
  define aux where "aux = (if tail \<noteq> None \<and> (case n_late N of Some l \<Rightarrow> i < l | None \<Rightarrow> False)
    then map (n_tail_r N) (replicate w R) else replicate w R)"
  have eq: "(case tail of
        Some late \<Rightarrow> seq_res (map (\<lambda>p. tail_rows (c_ag (k_r K)) (n_zero_r N) p late (shards w R)) (plans_for rows w True False))
      | None \<Rightarrow> Inr (map (\<lambda>p. gather_rows (c_ag (k_r K)) p (shards w R)) (plans_for rows w True False))) = Inr aux"
    unfolding aux_def
    using inside(1) assms(3) nok(10) tail_views [OF nok(5) nok(1) inside(5), of _ "n_zero_r N"] gather_views [OF nok(5) nok(1) inside(5)]
    by (auto split: option.splits)
  have sel: "l_R S = shards w R" "l_region S = True" "l_aux S = l_aux C" using inside(1) by (simp_all add: S)
  show ?thesis
  proof (cases "capture \<and> n_capture N i")
    case True
    have "capture_step K N capture (plans_for rows w True False) tail i S = Inr (S\<lparr>l_aux := l_aux C @ [map (map (n_mean N)) aux]\<rparr>)"
      using True eq nok(11) unfolding capture_step_def sel by simp
    moreover have "capture_step K N capture (plans_for rows w False False) tail i C = Inr (C\<lparr>l_aux := l_aux C @ [map (map (n_mean N)) aux]\<rparr>)"
      using True inside(6) nok(11) unfolding capture_step_def by (simp add: aux_def)
    ultimately show ?thesis using assms(2) inside(1) by (auto simp: S loop_rel_def)
  next
    case False
    then show ?thesis using assms(2) by (auto simp: capture_step_def)
  qed
next
  case (outside wkv memo)
  then show ?thesis using outside(4) by (simp add: outside(3) capture_step_def loop_rel_def)
qed

lemma layer_step_views:
  assumes "net_ok rows w fl K N tail" and "loop_rel rows w fl K N S C"
  shows "loop_res rows w fl K N (layer_step fl K N (plans_for rows w True False) i S) (layer_step fl K N (plans_for rows w False False) i C)"
  using assms(2)
proof (cases rule: loop_rel_cases)
  case (inside R pre wkv memo)
  note S = inside(9)
  note nok = net_okD [OF assms(1)]
  let ?c = "\<lambda>sh. \<lparr>x_plans = Some (plans_for rows w sh False), x_inner = 0, x_skip = None\<rparr>"
  let ?Q = "memo_rel rows w fl K N"
  have at: "sub_rel ?Q (vrel rows w) (loop_attn fl K N i (?c True)) (loop_attn fl K N i (?c False))"
  proof (rule sub_relI, goal_cases)
    case (1 m m' f)
    show ?case
      using attn_views [OF nok(4,1) _ nok(12) 1(2), of fl N "fst m" i "fst m'"] nok(2) 1(1)
      by (auto simp: loop_attn_def memo_rel_def rel_prod_sel case_prod_beta)
  qed
  have mo: "sub_rel ?Q (vrel rows w) (loop_moe fl K N i (?c True) (l_gids C)) (loop_moe fl K N i (?c False) (l_gids C))"
  proof (rule sub_relI, goal_cases)
    case (1 m m' f)
    show ?case
      using moe_views [OF nok(4) nok(1) nok(3) 1(2), of "k_group K" "n_k N" "n_moe N i" "n_moe_args N (l_gids C)" "snd m"] 1(1)
      by (auto simp: loop_moe_def memo_rel_def rel_prod_sel case_prod_beta)
  qed
  define oS where "oS = n_layer N i (loop_attn fl K N i (?c True)) (loop_moe fl K N i (?c True) (l_gids C)) memo
    (shards w R) (map_option (shards w) pre) (l_pos C) (l_ids C) (l_gids C)"
  define oC where "oC = n_layer N i (loop_attn fl K N i (?c False)) (loop_moe fl K N i (?c False) (l_gids C)) (l_memo C)
    (replicate w R) (map_option (replicate w) pre) (l_pos C) (l_ids C) (l_gids C)"
  have rel: "rel_prod ?Q (rel_sum (=) (rel_prod (vrel rows w) (vrel rows w))) oS oC"
    using nok(9) [of i] at mo inside(10) vrelI [OF inside(5), of w] rel_pre [OF inside(7), of w]
    unfolding row_local_layer_def layer_respects_def oS_def oC_def by blast
  have lS: "layer_step fl K N (plans_for rows w True False) i S
      = (case oS of (_, Inl e) \<Rightarrow> Inl e | (memo, Inr (R, pre)) \<Rightarrow> Inr (C\<lparr>l_R := R, l_pre := Some pre, l_memo := memo, l_wkv := wkv\<rparr>))"
    using inside(1) by (simp add: S layer_step_def flip: oS_def split: prod.splits sum.splits)
  have lC: "layer_step fl K N (plans_for rows w False False) i C
      = (case oC of (_, Inl e) \<Rightarrow> Inl e | (memo, Inr (R, pre)) \<Rightarrow> Inr (C\<lparr>l_R := R, l_pre := Some pre, l_memo := memo\<rparr>))"
    using inside(1,6,8) by (simp add: layer_step_def flip: oC_def)
  show ?thesis
    using rel inside(1-4) unfolding lS lC
    by (cases oS; cases oC) (auto elim!: rel_sum.cases intro!: loop_rel_insideI)
next
  case (outside wkv memo)
  note nok = net_okD [OF assms(1)]
  let ?Q = "memo_rel rows w fl K N"
  let ?c = "\<lparr>x_plans = None, x_inner = 0, x_skip = None\<rparr> :: grp_ctx"
  define oS where "oS = n_layer N i (loop_attn fl K N i ?c) (loop_moe fl K N i ?c (l_gids C)) memo (l_R C) (l_pre C) (l_pos C) (l_ids C) (l_gids C)"
  define oC where "oC = n_layer N i (loop_attn fl K N i ?c) (loop_moe fl K N i ?c (l_gids C)) (l_memo C) (l_R C) (l_pre C) (l_pos C) (l_ids C) (l_gids C)"
  have "sub_rel ?Q (=) (loop_attn fl K N i ?c) (loop_attn fl K N i ?c)" "sub_rel ?Q (=) (loop_moe fl K N i ?c g) (loop_moe fl K N i ?c g)" for g
    by (auto simp: rel_fun_def loop_attn_def loop_moe_def attn_forward_def moe_forward_def memo_rel_def sum.rel_eq)
  moreover have "layer_respects ?Q (=) (=) (=) (n_layer N i)" using nok(9) [of i] unfolding row_local_layer_def by blast
  moreover have "rel_option (=) (l_pre C) (l_pre C)" by (simp add: option.rel_eq)
  ultimately have "rel_prod ?Q (rel_sum (=) (rel_prod (=) (=))) oS oC"
    using outside(4) unfolding layer_respects_def oS_def oC_def by blast
  then have rel: "rel_prod ?Q (=) oS oC" by (simp add: prod.rel_eq sum.rel_eq)
  have lS: "layer_step fl K N (plans_for rows w True False) i S
      = (case oS of (_, Inl e) \<Rightarrow> Inl e | (memo, Inr (R, pre)) \<Rightarrow> Inr (C\<lparr>l_R := R, l_pre := Some pre, l_memo := memo, l_wkv := wkv\<rparr>))"
    using outside(1) by (simp add: outside(3) layer_step_def flip: oS_def split: prod.splits sum.splits)
  have lC: "layer_step fl K N (plans_for rows w False False) i C
      = (case oC of (_, Inl e) \<Rightarrow> Inl e | (memo, Inr (R, pre)) \<Rightarrow> Inr (C\<lparr>l_R := R, l_pre := Some pre, l_memo := memo\<rparr>))"
    using outside(1) by (simp add: layer_step_def flip: oC_def)
  show ?thesis
    using rel outside(1,2) unfolding lS lC
    by (cases oS; cases oC) (auto simp: loop_rel_def split: sum.splits)
qed

lemma rel_bind:
  assumes "rel_sum (=) P a b" and "\<And>x y. a = Inr x \<Longrightarrow> b = Inr y \<Longrightarrow> P x y \<Longrightarrow> rel_sum (=) Q (f x) (g y)"
  shows "rel_sum (=) Q (bind_res a f) (bind_res b g)"
  using assms by (cases a; cases b) auto

lemma engram_step_keeps:
  "engram_step fl K N stock plans i s = Inr s' \<Longrightarrow> l_region s' = l_region s \<and> l_pre s' = l_pre s"
  by (auto simp: engram_step_def Let_def split: option.splits prod.splits)

lemma enter_tail_wkv: "enter_tail K N plans late i s = Inr s' \<Longrightarrow> l_wkv s' = l_wkv s"
  by (auto simp: enter_tail_def Let_def bind_res_Inr_iff split: option.splits if_splits)

lemma capture_step_wkv: "capture_step K N capture plans tail i s = Inr s' \<Longrightarrow> l_wkv s' = l_wkv s"
  by (auto simp: capture_step_def bind_res_Inr_iff split: if_splits)

lemma layer_step_wkv: "layer_step fl K N plans i s = Inr s' \<Longrightarrow> l_wkv s' = l_wkv s"
  by (auto simp: layer_step_def Let_def split: prod.splits sum.splits)

text \<open>The Engram of layer \<open>i\<close> decides its own projection only.\<close>

lemma wkv_shard_key:
  "k \<noteq> (en_index en, p_rows (hd plans)) \<Longrightarrow> fst (wkv_shard fl amin ce plans en embs okm) k = okm k"
  by (auto simp: wkv_shard_def Let_def split: option.splits)

lemma engram_step_ready:
  assumes "net_ok rows w fl K N tail" and "engram_step fl K N stock (plans_for rows w sh False) i s = Inr s'"
    and "wkv_ready rows w fl N i (l_wkv s)"
  shows "wkv_ready rows w fl N (Suc i) (l_wkv s')"
proof (cases "n_engram N i")
  case None
  then have "s' = s" using assms(2) by (simp add: engram_step_def)
  then show ?thesis using assms(3) unfolding wkv_ready_def by (metis Suc_leD)
next
  case (Some en)
  have w: "0 < w" using net_okD(11) [OF assms(1)] .
  have key: "l_wkv s' k = l_wkv s k" if "k \<noteq> (en_index en, rows)" for k
    using assms(2) Some that w wkv_shard_key [of k en "plans_for rows w sh False"]
    by (auto simp: engram_step_def sp_engram_def Let_def case_prod_beta split: option.splits if_splits)
  show ?thesis
    unfolding wkv_ready_def
  proof (intro allI impI)
    fix j en'
    assume j: "Suc i \<le> j \<and> n_engram N j = Some en' \<and> WKV_SHARD fl \<and> l_wkv s' (en_index en', rows) = Some True"
    then have "en_index en' \<noteq> en_index en" using net_okD(13) [OF assms(1), of j en' i en] Some by auto
    with j key have "l_wkv s (en_index en', rows) = Some True" by simp
    with j assms(3) show "wkv_exact rows w en'" unfolding wkv_ready_def by (meson Suc_leD)
  qed
qed

lemma capture_step_keeps:
  "capture_step K N capture plans tail i s = Inr s' \<Longrightarrow> l_region s' = l_region s \<and> l_pre s' = l_pre s"
  by (auto simp: capture_step_def bind_res_Inr_iff split: if_splits)

lemma layer_step_keeps:
  "layer_step fl K N plans i s = Inr s' \<Longrightarrow> l_region s' = l_region s \<and> l_pre s' \<noteq> None"
  by (auto simp: layer_step_def Let_def split: prod.splits sum.splits)

text \<open>Before layer \<open>k\<close> the loop is in the full-row region unless it passed the first late layer.\<close>

definition loop_inv ::
    "nat \<Rightarrow> nat \<Rightarrow> sp_flags \<Rightarrow> ('x, 'q, 'r, 'p, 'e) sp_colls
     \<Rightarrow> ('r, 'p, 'x, 'q, 'm, 'w, 'l, 't, 'h, 'e, 'k, 'pos, 'd) sp_net \<Rightarrow> tail option \<Rightarrow> nat
     \<Rightarrow> ('r, 'p, 't, 'h, 'pos, 'd, 'm) loop_st \<Rightarrow> ('r, 'p, 't, 'h, 'pos, 'd, 'm) loop_st \<Rightarrow> bool" where
  "loop_inv rows w fl K N tail k S C =
     (loop_rel rows w fl K N S C \<and> wkv_ready rows w fl N k (l_wkv S) \<and> (l_region C \<longleftrightarrow> (tail = None \<or> (\<exists>l. n_late N = Some l \<and> k \<le> l)))
      \<and> (n_start N < k \<longrightarrow> l_pre C \<noteq> None))"

lemma layer_inv:
  assumes "net_ok rows w fl K N tail" and "loop_rel rows w fl K N S C"
    and "l_region C \<longleftrightarrow> (tail = None \<or> (\<exists>l. n_late N = Some l \<and> i < l))" and "wkv_ready rows w fl N (Suc i) (l_wkv S)"
  shows "rel_sum (=) (loop_inv rows w fl K N tail (Suc i))
    (layer_step fl K N (plans_for rows w True False) i S) (layer_step fl K N (plans_for rows w False False) i C)"
  using layer_step_views [OF assms(1,2), of i]
proof (cases rule: rel_sum.cases)
  case (1 a c)
  then show ?thesis by simp
next
  case (2 S' C')
  then show ?thesis using assms(3,4) layer_step_keeps [OF 2(2)] layer_step_wkv [OF 2(1)] by (simp add: loop_inv_def Suc_le_eq)
qed

lemma capture_inv:
  assumes "net_ok rows w fl K N tail" and "tail \<noteq> None \<longrightarrow> n_late N \<noteq> None" and "loop_rel rows w fl K N S C"
    and "l_region C \<longleftrightarrow> (tail = None \<or> (\<exists>l. n_late N = Some l \<and> i < l))" and "wkv_ready rows w fl N (Suc i) (l_wkv S)"
  shows "rel_sum (=) (loop_inv rows w fl K N tail (Suc i))
    (bind_res (capture_step K N capture (plans_for rows w True False) tail i S) (layer_step fl K N (plans_for rows w True False) i))
    (bind_res (capture_step K N capture (plans_for rows w False False) tail i C) (layer_step fl K N (plans_for rows w False False) i))"
proof (rule rel_bind [OF capture_step_views [OF assms(1,3,4,2)]])
  fix S' C'
  assume S': "capture_step K N capture (plans_for rows w True False) tail i S = Inr S'"
    and C': "capture_step K N capture (plans_for rows w False False) tail i C = Inr C'" and rel: "loop_rel rows w fl K N S' C'"
  show "rel_sum (=) (loop_inv rows w fl K N tail (Suc i))
      (layer_step fl K N (plans_for rows w True False) i S') (layer_step fl K N (plans_for rows w False False) i C')"
    by (rule layer_inv [OF assms(1) rel]) (simp_all add: capture_step_keeps [OF C'] capture_step_wkv [OF S'] assms(4,5))
qed

lemma engram_inv:
  assumes "net_ok rows w fl K N tail" and "tail \<noteq> None \<longrightarrow> n_late N \<noteq> None" and "loop_rel rows w fl K N S C"
    and "l_region C \<longleftrightarrow> (tail = None \<or> (\<exists>l. n_late N = Some l \<and> i < l))" and "wkv_ready rows w fl N i (l_wkv S)"
  shows "rel_sum (=) (loop_inv rows w fl K N tail (Suc i))
    (bind_res (engram_step fl K N stock (plans_for rows w True False) i S) (\<lambda>s.
       bind_res (capture_step K N capture (plans_for rows w True False) tail i s) (layer_step fl K N (plans_for rows w True False) i)))
    (bind_res (engram_step fl K N stock (plans_for rows w False False) i C) (\<lambda>s.
       bind_res (capture_step K N capture (plans_for rows w False False) tail i s) (layer_step fl K N (plans_for rows w False False) i)))"
proof (rule rel_bind [OF engram_step_views [OF assms(1,3,5)]])
  fix S' C'
  assume S': "engram_step fl K N stock (plans_for rows w True False) i S = Inr S'"
    and C': "engram_step fl K N stock (plans_for rows w False False) i C = Inr C'" and rel: "loop_rel rows w fl K N S' C'"
  show "rel_sum (=) (loop_inv rows w fl K N tail (Suc i))
      (bind_res (capture_step K N capture (plans_for rows w True False) tail i S') (layer_step fl K N (plans_for rows w True False) i))
      (bind_res (capture_step K N capture (plans_for rows w False False) tail i C') (layer_step fl K N (plans_for rows w False False) i))"
    by (rule capture_inv [OF assms(1,2) rel _ engram_step_ready [OF assms(1) S' assms(5)]])
      (simp add: engram_step_keeps [OF C'] assms(4))
qed

lemma loop_body_views:
  assumes "net_ok rows w fl K N tail" and "tail \<noteq> None \<longrightarrow> (\<exists>l. n_late N = Some l \<and> n_start N < l)"
    and "loop_inv rows w fl K N tail i S C"
  shows "rel_sum (=) (loop_inv rows w fl K N tail (Suc i))
    (loop_body fl K N stock capture (plans_for rows w True False) tail i S)
    (loop_body fl K N stock capture (plans_for rows w False False) tail i C)"
proof -
  have rel: "loop_rel rows w fl K N S C" and reg: "l_region C \<longleftrightarrow> (tail = None \<or> (\<exists>l. n_late N = Some l \<and> i \<le> l))"
    and pre: "n_start N < i \<longrightarrow> l_pre C \<noteq> None" and ready: "wkv_ready rows w fl N i (l_wkv S)"
    using assms(3) unfolding loop_inv_def by blast+
  have late: "tail \<noteq> None \<longrightarrow> n_late N \<noteq> None" using assms(2) by auto
  show ?thesis
  proof (cases "tail \<noteq> None \<and> n_late N = Some i")
    case True
    then obtain t where t: "tail = Some t" by auto
    have "l_region C" using reg True by auto
    moreover have "l_pre C \<noteq> None" using pre True assms(2) by auto
    ultimately obtain S' C' where e: "enter_tail K N (plans_for rows w True False) t i S = Inr S'"
        "enter_tail K N (plans_for rows w False False) t i C = Inr C'" and r: "loop_rel rows w fl K N S' C'" "\<not> l_region C'"
      using enter_tail_views [OF assms(1) [unfolded t] rel, of i] by auto
    have "l_region C' \<longleftrightarrow> (tail = None \<or> (\<exists>l. n_late N = Some l \<and> i < l))" using r(2) True by auto
    from engram_inv [OF assms(1) late r(1) this] ready enter_tail_wkv [OF e(1)] show ?thesis
      using True by (simp add: loop_body_def t e)
  next
    case False
    have "l_region C \<longleftrightarrow> (tail = None \<or> (\<exists>l. n_late N = Some l \<and> i < l))"
      using reg False le_neq_implies_less by (cases "n_late N") auto
    from engram_inv [OF assms(1) late rel this ready] show ?thesis
      using False by (cases tail) (simp_all add: loop_body_def)
  qed
qed

lemma loop_layers_views:
  assumes "net_ok rows w fl K N tail" and "tail \<noteq> None \<longrightarrow> (\<exists>l. n_late N = Some l \<and> n_start N < l)"
  shows "loop_inv rows w fl K N tail k S C \<Longrightarrow> rel_sum (=) (loop_inv rows w fl K N tail (k + n))
    (loop_layers fl K N stock capture (plans_for rows w True False) tail [k..<k + n] S)
    (loop_layers fl K N stock capture (plans_for rows w False False) tail [k..<k + n] C)"
proof (induction n arbitrary: k S C)
  case 0
  then show ?case by simp
next
  case (Suc n)
  have up: "[k..<k + Suc n] = k # [Suc k..<Suc k + n]" by (simp add: upt_conv_Cons)
  have "rel_sum (=) (loop_inv rows w fl K N tail (Suc k + n))
    (bind_res (loop_body fl K N stock capture (plans_for rows w True False) tail k S)
       (loop_layers fl K N stock capture (plans_for rows w True False) tail [Suc k..<Suc k + n]))
    (bind_res (loop_body fl K N stock capture (plans_for rows w False False) tail k C)
       (loop_layers fl K N stock capture (plans_for rows w False False) tail [Suc k..<Suc k + n]))"
    by (rule rel_bind [OF loop_body_views [OF assms Suc.prems]]) (rule Suc.IH)
  then show ?case unfolding up loop_layers.simps by (simp only: add_Suc add_Suc_right)
qed

lemma forward_views:
  assumes "net_ok rows w fl K N tail" and "tail \<noteq> None \<longrightarrow> (\<exists>l. n_late N = Some l \<and> n_start N < l)" and "n_start N < n_end N"
    and "length hidden = rows" and "length ids = rows" and "\<forall>hs. n_hash N ids = Some hs \<longrightarrow> length hs = rows"
    and "wkv_ready rows w fl N (n_start N) wkv" and "fp8_state_ok rows w fl K N (fst memo)"
  shows "rel_sum (=) (\<lambda>S C. S = C\<lparr>l_wkv := l_wkv S, l_memo := l_memo S\<rparr> \<and> memo_rel rows w fl K N (l_memo S) (l_memo C))
    (sp_forward_layers fl K N stock capture (plans_for rows w True False) tail positions hidden ids gids wkv memo)
    (sp_forward_layers fl K N stock capture (plans_for rows w False False) tail positions hidden ids gids wkv memo)"
proof -
  note nok = net_okD [OF assms(1)]
  let ?s = "\<lambda>R. \<lparr> l_R = R, l_pre = None, l_region = True, l_saved = False, l_ids = ids, l_gids = gids, l_pos = positions,
     l_hash = n_hash N ids, l_aux = [], l_kv = [], l_wkv = wkv, l_memo = memo \<rparr>"
  have t: "(if n_late N = None then None else tail) = tail" using assms(2) by auto
  have RS: "map (\<lambda>p. if p_sharded p then slice (p_lo p) (p_hi p) hidden else hidden) (plans_for rows w True False) = shards w hidden"
    by (subst slices_are_shards [OF assms(4), of w True False, symmetric]) (auto simp: plans_for_def)
  have RC: "map (\<lambda>p. if p_sharded p then slice (p_lo p) (p_hi p) hidden else hidden) (plans_for rows w False False) = replicate w hidden"
    by (rule map_plans_const) simp
  have reg: "tail = None \<or> (\<exists>l. n_late N = Some l \<and> n_start N \<le> l)" using assms(2) by (cases tail) auto
  have "loop_inv rows w fl K N tail (n_start N) (?s (shards w hidden)) (?s (replicate w hidden))"
    unfolding loop_inv_def using reg vrelI [OF assms(4), of w] assms(5-8)
    by (auto simp: loop_rel_def memo_rel_def split: option.splits)
  then have loop: "rel_sum (=) (loop_inv rows w fl K N tail (n_end N))
      (loop_layers fl K N stock capture (plans_for rows w True False) tail [n_start N..<n_end N] (?s (shards w hidden)))
      (loop_layers fl K N stock capture (plans_for rows w False False) tail [n_start N..<n_end N] (?s (replicate w hidden)))"
    using loop_layers_views [OF assms(1,2), of "n_start N" _ _ "n_end N - n_start N"] assms(3) by simp
  show ?thesis
    unfolding sp_forward_layers_def t RS RC Let_def
  proof (rule rel_bind [OF loop])
    fix S C
    assume inv: "loop_inv rows w fl K N tail (n_end N) S C"
    then have rel: "loop_rel rows w fl K N S C" and pre: "l_pre C \<noteq> None" using assms(3) by (auto simp: loop_inv_def)
    from rel show "rel_sum (=) (\<lambda>S C. S = C\<lparr>l_wkv := l_wkv S, l_memo := l_memo S\<rparr> \<and> memo_rel rows w fl K N (l_memo S) (l_memo C))
      (if l_saved S \<or> \<not> p_sharded (hd (plans_for rows w True False)) then Inr S
       else case l_pre S of None \<Rightarrow> Inl AttributeError
         | Some pre \<Rightarrow> Inr (S\<lparr>l_R := map (\<lambda>p. gather_rows (c_ag (k_r K)) p (l_R S)) (plans_for rows w True False),
                            l_pre := Some (map (\<lambda>p. gather_rows (c_ag (k_p K)) p pre) (plans_for rows w True False))\<rparr>))
      (if l_saved C \<or> \<not> p_sharded (hd (plans_for rows w False False)) then Inr C
       else case l_pre C of None \<Rightarrow> Inl AttributeError
         | Some pre \<Rightarrow> Inr (C\<lparr>l_R := map (\<lambda>p. gather_rows (c_ag (k_r K)) p (l_R C)) (plans_for rows w False False),
                            l_pre := Some (map (\<lambda>p. gather_rows (c_ag (k_p K)) p pre) (plans_for rows w False False))\<rparr>))"
    proof (cases rule: loop_rel_cases)
      case (inside R pr w' memo')
      then obtain v where v: "pr = Some v" "length v = rows" using pre by (cases pr) auto
      show ?thesis
        using inside(1-8,10) v nok(11) gather_views [OF nok(5) nok(1) inside(5)] gather_views [OF nok(6) nok(1) v(2)]
        by (simp add: inside(9))
    next
      case (outside w' memo')
      then show ?thesis by (simp add: outside(3))
    qed
  qed
qed

section \<open>Properties\<close>

text \<open>C6: stage 1, and stage 2 on top of it, compute what the transport-only mode computes. For reduce-scatters that return
  a rank's rows, all-gathers that concatenate, layers that are row-local but for their attention and MoE, Engram
  gates that are row-local and a tail selection that is the one of the whole chunk, running the layer loop with the
  residual split over the ranks gives on every rank the residual, the pre-mix, the captured rows and the full-prompt KV
  writes of the loop on unsharded rows, or the same exception; only the verdicts of the self-checks are extra.
  Nothing is assumed of the \<open>wkv\<close> projection of a layer and size that has no ON verdict yet; with one, that the shard
  products are exact as they were on the chunk that was checked. With the MXFP8 attention input on, an eligible
  attention reads its input through \<open>wqkv_a\<close> only, and a check that passes for a size speaks for the size; where it
  fails nothing is assumed. The MXFP8 MoE input is off, as in production.\<close>

theorem stage1_is_comm:
  assumes "net_ok rows w fl K N tail" and "tail \<noteq> None \<longrightarrow> (\<exists>l. n_late N = Some l \<and> n_start N < l)" and "n_start N < n_end N"
    and "length hidden = rows" and "length ids = rows" and "\<forall>hs. n_hash N ids = Some hs \<longrightarrow> length hs = rows"
    and "wkv_ready rows w fl N (n_start N) wkv" and "fp8_state_ok rows w fl K N (fst memo)"
  shows "map_sum id (\<lambda>s. s\<lparr>l_wkv := wkv, l_memo := memo\<rparr>)
      (sp_forward_layers fl K N stock capture (plans_for rows w True False) tail positions hidden ids gids wkv memo)
    = map_sum id (\<lambda>s. s\<lparr>l_wkv := wkv, l_memo := memo\<rparr>)
      (sp_forward_layers fl K N stock capture (plans_for rows w False False) tail positions hidden ids gids wkv memo)"
  using forward_views [OF assms, of stock capture positions gids]
proof (cases rule: rel_sum.cases)
  case (1 a c)
  then show ?thesis by simp
next
  case (2 S C)
  have "S\<lparr>l_wkv := wkv, l_memo := memo\<rparr> = C\<lparr>l_wkv := wkv, l_memo := memo\<rparr>" by (subst conjunct1 [OF 2(3)]) simp
  with 2(1,2) show ?thesis by simp
qed

text \<open>with \<open>DSV41_PREFILL_SP_EXACT\<close> every reduction site keeps its quarter of the stock all-reduce: where the
  stock attention and MoE give every rank the all-reduce of the ranks' partial outputs, the sharded call gives each rank
  its rows of the stock result, for any all-reduce.\<close>

theorem exact_mode_is_stock:
  assumes "chunk_ok rows w" and "gathers (c_ag cx)" and "length x = rows" and "\<forall>xs. length xs = w \<and> list_all (\<lambda>y. length y = rows) xs \<longrightarrow> length (c_ar cx xs) = rows"
    and "FP8 fl = False" and "FP8_MOE fl = False" and "\<not> ml_mega L x"
    and "\<forall>r < w. length (at_part A r x) = rows \<and> length (mo_stock (ml_ops L) r x) = rows"
    and "at_stock A (replicate w x) None = replicate w (c_ar cx (map (\<lambda>r. at_part A r x) [0..<w]))"
    and "ml_all L (replicate w x) = replicate w (c_ar cx (map (\<lambda>r. mo_stock (ml_ops L) r x) [0..<w]))"
    and "c = \<lparr>x_plans = Some (plans_for rows w True True), x_inner = 0, x_skip = None\<rparr>"
  shows "attn_forward fl G cx k A i c None st (shards w x) = (st, Inr (shards w (hd (at_stock A (replicate w x) None))))
    \<and> moe_forward fl G cx k L c False a st8 (shards w x) = (st8, Inr (shards w (hd (ml_all L (replicate w x)))))"
proof -
  have w: "0 < w" using assms(1) by (simp add: chunk_ok_def)
  have gv: "map (\<lambda>p. gather_rows (c_ag cx) p (shards w x)) (plans_for rows w True True) = replicate w x"
  proof (rule map_plans_const)
    fix r
    show "gather_rows (c_ag cx) (mk_plan rows w r True True) (shards w x) = x"
      using gather_shards [OF assms(2), of w x] assms(1,3) by (simp add: gather_rows_def chunk_ok_def)
  qed
  have red: "map (\<lambda>p. reduce_out (c_ag cx) (c_ar cx) (c_rs cx) p os) (plans_for rows w True True) = shards w (c_ar cx os)"
    if "length os = w" "\<not> list_ex (\<lambda>out. length out \<noteq> rows) os" for os
  proof -
    have "list_all (\<lambda>y. length y = rows) os" using that(2) by (simp add: list_all_iff list_ex_iff)
    then have "length (c_ar cx os) = rows" using assms(4) that(1) by simp
    from slices_are_shards [OF this, of w True True, symmetric] show ?thesis
      by (auto simp: plans_for_def reduce_out_def reduce_rows_def)
  qed
  have hd: "hd (replicate w y) = y" for y :: "'a list" using w by (cases w) auto
  have os: "attn_run A i \<lparr>x_plans = Some (plans_for rows w True True), x_inner = Suc 0, x_skip = Some i\<rparr>
      (plans_for rows w True True) (replicate w x) None = map (\<lambda>r. at_part A r x) [0..<w]"
    by (rule nth_equalityI) (auto simp: attn_run_def wo_b_skip_def)
  have mo: "map (\<lambda>(p, xf). mo_stock (ml_ops L) (p_rank p) xf) (zip (plans_for rows w True True) (replicate w x))
      = map (\<lambda>r. mo_stock (ml_ops L) r x) [0..<w]"
    by (rule nth_equalityI) auto
  note iv = in_rows_views(1) [OF assms(1,3), of True]
  have lens: "\<not> list_ex (\<lambda>out. length out \<noteq> rows) (map (\<lambda>r. at_part A r x) [0..<w])"
    "\<not> list_ex (\<lambda>out. length out \<noteq> rows) (map (\<lambda>r. mo_stock (ml_ops L) r x) [0..<w])"
    using assms(8) by (auto simp: list_ex_iff)
  have mega: "\<not> list_ex (ml_mega L) (replicate w x)" using assms(7) by (auto simp: list_ex_iff)
  have "attn_forward fl G cx k A i c None st (shards w x) = (st, Inr (shards w (hd (at_stock A (replicate w x) None))))"
    using iv lens(1) by (simp add: assms(5,9,11) attn_forward_def Let_def w gv os red hd)
  moreover have "moe_forward fl G cx k L c False a st8 (shards w x) = (st8, Inr (shards w (hd (ml_all L (replicate w x)))))"
    using iv lens(2) mega by (simp add: assms(6,10,11) moe_forward_def Let_def w gv mo red hd)
  ultimately show ?thesis by simp
qed

text \<open>The \<open>wkv\<close> projection on the shard never changes a result while it is being decided: on the first chunk of a
  size, and whenever the verdict is OFF or the shard path is disabled, each rank gets its rows of the full-chunk
  projection, for any projection at all, and the verdict stored for the layer and size is ON only if every rank's shard
  product equals its rows of the full product.\<close>

theorem wkv_decided_exactly:
  assumes "takes_min amin" and "plans \<noteq> []" and "length embs = length plans"
    and "\<not> WKV_SHARD fl \<or> okm (en_index en, p_rows (hd plans)) \<noteq> Some True"
  shows "snd (wkv_shard fl amin ce plans en embs okm)
      = map (\<lambda>p. slice (p_lo p) (p_hi p) (en_wkv en (gather_rows (c_ag ce) p embs))) plans
    \<and> (fst (wkv_shard fl amin ce plans en embs okm) (en_index en, p_rows (hd plans)) = Some True
        \<longrightarrow> okm (en_index en, p_rows (hd plans)) = Some True
          \<or> map (en_wkv en) embs = map (\<lambda>p. slice (p_lo p) (p_hi p) (en_wkv en (gather_rows (c_ag ce) p embs))) plans)"
proof -
  define mine where "mine = map (\<lambda>p. slice (p_lo p) (p_hi p) (en_wkv en (gather_rows (c_ag ce) p embs))) plans"
  define part where "part = map (en_wkv en) embs"
  have len: "length mine = length part" using assms(3) by (simp add: mine_def part_def)
  have "agree_min amin (map (\<lambda>(a, b). a = b) (zip mine part)) \<longleftrightarrow> (\<forall>l \<in> set (map (\<lambda>(a, b). a = b) (zip mine part)). l)"
    using assms(1-3) by (intro agree_min_iff) (auto simp: mine_def part_def)
  then have agree: "agree_min amin (map (\<lambda>(a, b). a = b) (zip mine part)) \<longleftrightarrow> mine = part"
    using len by (auto simp: list_eq_iff_zip_eq)
  show ?thesis
    using assms(4) agree unfolding wkv_shard_def Let_def mine_def [symmetric] part_def [symmetric]
    by (auto split: option.splits)
qed

theorem wkv_decided_exactly_witness:
  "snd (wkv_shard \<lparr>MODE = Shard, EXACT = False, MIN_ROWS = 2048, WKV_SHARD = True, FP8 = False, FP8_MOE = False\<rparr>
      (\<lambda>xs. Min (set xs)) \<lparr>c_ag = \<lambda>_ xs. concat xs, c_ar = \<lambda>xs. [], c_rs = \<lambda>_ _ _. []\<rparr> (plans_for 2 2 True False)
      \<lparr>en_shared = True, en_embed = \<lambda>ids. ids, en_owned = \<lambda>_ ids. ids, en_wkv = \<lambda>e. map (\<lambda>v. v + length e) e,
        en_gate = \<lambda>x _. x, en_index = 0\<rparr> [[5], [7 :: nat]] Map.empty) = [[7], [9]]"
  by (subst wkv_decided_exactly [THEN conjunct1])
     (simp_all add: takes_min_def plans_for_def gather_rows_def slice_def upt_rec mk_plan_def)

definition wit_ar :: "nat list list \<Rightarrow> nat list" where
  "wit_ar xs = map (\<lambda>i. sum_list (map (\<lambda>x. x ! i) xs)) [0..<length (hd xs)]"

definition wit_coll :: "nat coll" where
  "wit_coll = \<lparr>c_ag = \<lambda>_ xs. concat xs, c_ar = wit_ar, c_rs = \<lambda>s xs r. slice (r * s) (Suc r * s) (wit_ar xs)\<rparr>"

lemma wit_coll_ok: "0 < w \<Longrightarrow> coll_ok w wit_coll"
proof -
  assume w: "0 < w"
  have "length (slice (r * s) (Suc r * s) (wit_ar xs)) = s"
    if "length xs = w" "r < w" "list_all (\<lambda>x. length x = w * s) xs" for s xs r
  proof -
    have "length (wit_ar xs) = w * s" using that w by (cases xs) (auto simp: wit_ar_def)
    moreover have "Suc r * s \<le> w * s" using that(2) by (intro mult_le_mono1) simp
    ultimately show ?thesis by simp
  qed
  then show ?thesis by (auto simp: coll_ok_def wit_coll_def gathers_def scatters_def)
qed

definition wit_attn :: "(nat, nat, unit, nat) attn_ops" where
  "wit_attn = \<lparr> at_part = \<lambda>r x. map (\<lambda>v. v + r) x, at_part_q = \<lambda>r n q. [], at_stock = \<lambda>xs q. map (\<lambda>x. wit_ar [x, map Suc x]) xs,
     at_quant = \<lambda>_ x. (x, [], ()), at_wq = \<lambda>r x. 0, at_wqq = \<lambda>r q. 0,
     at_attrs = \<lparr>cached_fp8 = Some False, no_compressor = False, no_indexer = False, fuse_wqa_wkv = False, has_wqkv_a = False,
       accepts = Inr False\<rparr> \<rparr>"

definition wit_moe_layer :: "(nat, nat, unit, nat, nat) moe_layer" where
  "wit_moe_layer = \<lparr> ml_ops = wit_moe, ml_attrs = \<lparr>cached_reason = None, inspect_fails = True, mbn_enabled = False,
       mbn_deterministic = False, mbn_impl_none = False, experts_on_b12x = False, fused_shared = 0, fused_inside_sbo = False,
       gate_weight_2d = True, has_shared = True, gate_topk_submodules = True\<rparr>,
     ml_target = \<lambda>_. False, ml_mods = wit_mods, ml_all = \<lambda>xs. map (\<lambda>x. wit_ar [x, map Suc x]) xs, ml_mega = \<lambda>_. False \<rparr>"

theorem exact_mode_is_stock_witness:
  "attn_forward wit_flags wit_group wit_coll 128 wit_attn 0 \<lparr>x_plans = Some (plans_for 2 2 True True), x_inner = 0, x_skip = None\<rparr>
      None Map.empty (shards 2 [5, 7]) = (Map.empty, Inr [[11], [15]])"
proof -
  have "attn_forward wit_flags wit_group wit_coll 128 wit_attn 0 \<lparr>x_plans = Some (plans_for 2 2 True True), x_inner = 0, x_skip = None\<rparr>
      None Map.empty (shards 2 [5, 7]) = (Map.empty, Inr (shards 2 (hd (at_stock wit_attn (replicate 2 [5, 7]) None))))"
  proof (rule exact_mode_is_stock [where L = wit_moe_layer and a = "\<lparr>a_ids = None, a_ntnp = None\<rparr>" and ?st8.0 = Map.empty, THEN conjunct1])
    show "\<forall>xs. length xs = 2 \<and> list_all (\<lambda>y. length y = 2) xs \<longrightarrow> length (c_ar wit_coll xs) = 2"
    proof (intro allI impI)
      fix xs :: "nat list list"
      assume "length xs = 2 \<and> list_all (\<lambda>y. length y = 2) xs"
      then show "length (c_ar wit_coll xs) = 2" by (cases xs) (auto simp: wit_coll_def wit_ar_def)
    qed
  qed (auto simp: chunk_ok_def wit_coll_def gathers_def wit_flags_def wit_moe_layer_def wit_attn_def wit_moe_def wit_ar_def
        numeral_2_eq_2 upt_rec less_Suc_eq)
  then show ?thesis
    by (simp add: wit_attn_def wit_ar_def shards_def shard_range_def slice_def numeral_2_eq_2 upt_rec)
qed

text \<open>A two-layer network on two ranks with the MXFP8 attention input, an Engram table, an image token and a tail of one
  row. The Engram's projection depends on the number of rows, so its shard products are wrong: the self-check finds it.\<close>

definition wit_flags8 :: sp_flags where
  "wit_flags8 = wit_flags\<lparr>FP8 := True, WKV_SHARD := True\<rparr>"

definition wit_attn8 :: "(nat, nat, unit, nat list) attn_ops" where
  "wit_attn8 = \<lparr> at_part = \<lambda>r x. map (\<lambda>v. v + r) x, at_part_q = \<lambda>r n q. map (\<lambda>v. v + r) (fst q),
     at_stock = \<lambda>xs q. map (\<lambda>x. wit_ar [x, map Suc x]) xs, at_quant = wit_quant, at_wq = \<lambda>r x. x, at_wqq = \<lambda>r q. fst q,
     at_attrs = \<lparr>cached_fp8 = Some True, no_compressor = True, no_indexer = True, fuse_wqa_wkv = True, has_wqkv_a = True,
       accepts = Inr True\<rparr> \<rparr>"

definition wit_layer ::
    "(nat, unit sp_memo) sublayer \<Rightarrow> (nat, unit sp_memo) sublayer \<Rightarrow> unit sp_memo \<Rightarrow> nat list list \<Rightarrow> nat list list option
     \<Rightarrow> nat list \<Rightarrow> nat list \<Rightarrow> nat list \<Rightarrow> unit sp_memo \<times> (nat list list \<times> nat list list) res" where
  "wit_layer at mo s R pre pos ids gids =
     (case at s R of (s, Inl e) \<Rightarrow> (s, Inl e)
      | (s, Inr x) \<Rightarrow> (case mo s x of (s, Inl e) \<Rightarrow> (s, Inl e) | (s, Inr y) \<Rightarrow> (s, Inr (y, x))))"

definition wit_engram :: "(nat, nat, nat, nat) engram" where
  "wit_engram = \<lparr>en_shared = False, en_embed = \<lambda>ids. ids, en_owned = \<lambda>r ids. map (\<lambda>v. if v mod 2 = r then v else 0) ids,
     en_wkv = \<lambda>e. map (\<lambda>v. v + length e) e, en_gate = \<lambda>x k. map (\<lambda>(a, b). a + b) (zip x k), en_index = 0\<rparr>"

definition wit_tail :: tail where
  "wit_tail = \<lparr>contiguous_start = None, token_indices = [3], pad_rows = 0\<rparr>"

definition wit_net :: "(nat, nat, nat, nat, unit, nat list, nat, nat, nat, nat, nat, nat, nat) sp_net" where
  "wit_net = \<lparr> n_start = 0, n_end = 2, n_late = Some 1, n_tail_kv = True, n_hash = \<lambda>ids. Some (map (\<lambda>t. [t]) ids),
     n_engram = \<lambda>i. if i = 0 then Some wit_engram else None, n_vision = True, n_image = \<lambda>t. t = 9, n_capture = \<lambda>i. i = 0,
     n_mean = \<lambda>r. r, n_zero_r = 0, n_zero_p = 0, n_tail_r = tail_spec 0 wit_tail, n_tail_p = tail_spec 0 wit_tail,
     n_tail_t = tail_spec 0 wit_tail, n_tail_h = tail_spec [] wit_tail, n_tail_pos = [3], n_k = 128, n_attn = \<lambda>_. wit_attn8,
     n_moe = \<lambda>_. wit_moe_layer, n_moe_args = \<lambda>g. \<lparr>a_ids = Some g, a_ntnp = None\<rparr>, n_layer = \<lambda>_. wit_layer \<rparr>"

definition wit_colls :: "(nat, nat, nat, nat, nat) sp_colls" where
  "wit_colls = \<lparr>k_group = wit_group, k_x = wit_coll, k_r = wit_coll, k_p = wit_coll, k_e = wit_coll\<rparr>"

lemma wit_layer_respects: "layer_respects Q V V V wit_layer"
proof -
  have "rel_prod Q (rel_sum (=) (rel_prod V V)) (wit_layer atS moS s R pre pos ids gids) (wit_layer atC moC s' R' pre' pos ids gids)"
    if at: "sub_rel Q V atS atC" and mo: "sub_rel Q V moS moC" and s: "Q s s'" and R: "V R R'"
    for atS atC moS moC s s' R R' pre pre' pos ids gids
  proof -
    have "rel_prod Q (rel_sum (=) V) (atS s R) (atC s' R')" using at s R unfolding rel_fun_def by blast
    then obtain s1 r1 s2 r2 where 1: "atS s R = (s1, r1)" "atC s' R' = (s2, r2)" and q: "Q s1 s2" and r: "rel_sum (=) V r1 r2"
      by (auto elim: rel_prod.cases)
    from r show ?thesis
    proof (cases rule: rel_sum.cases)
      case (1 a c)
      then show ?thesis using q by (simp add: wit_layer_def \<open>atS s R = (s1, r1)\<close> \<open>atC s' R' = (s2, r2)\<close>)
    next
      case (2 x y)
      have "rel_prod Q (rel_sum (=) V) (moS s1 x) (moC s2 y)" using mo q 2(3) unfolding rel_fun_def by blast
      then show ?thesis using 2 1
        by (cases "moS s1 x"; cases "moC s2 y") (auto simp: wit_layer_def elim!: rel_sum.cases)
    qed
  qed
  then show ?thesis unfolding layer_respects_def by blast
qed

lemma wit_layer_local: "row_local_layer rows w wit_layer"
  using wit_layer_respects by (simp add: row_local_layer_def)

lemma wit_quant_local: "row_local_quant wit_quant 128 (\<lambda>x. x) (\<lambda>_. [3, 3, 3, 3])"
proof -
  have "swizzle_128x4 4 s \<noteq> Inl e" for s e by (simp add: swizzle_128x4_def Let_def)
  then show ?thesis by (auto simp: row_local_quant_def wit_quant_def list_all_iff split: sum.splits)
qed

lemma wit_fp8_bytes: "length x = 4 \<Longrightarrow> fp8_bytes wit_group 128 4 2 wit_attn8 x = Inr (x, fst (snd (wit_quant True x)))"
proof -
  assume x: "length x = 4"
  have c: "concat (shards 2 x) = x" using gather_shards [of "\<lambda>_ xs. concat xs" 2 x] x by (simp add: gathers_def)
  have "mxfp8_gather (\<lambda>_ xs. concat xs) (\<lambda>_ xs. concat xs) wit_quant (mk_plan 4 2 0 True False) 128 (shards 2 x)
      = Inr (map (\<lambda>x. x) (concat (shards 2 x)), map (\<lambda>_. [3, 3, 3, 3]) (concat (shards 2 x)))"
    by (rule mxfp8_gather_rows [OF wit_quant_local]) (simp_all add: gathers_def c x)
  moreover have "swizzle_128x4 (128 div 32) (map (\<lambda>_. [3, 3, 3, 3]) x) = Inr (fst (snd (wit_quant True x)))"
    using wit_quant_local unfolding row_local_quant_def by blast
  ultimately show ?thesis by (simp add: fp8_bytes_def wit_group_def wit_attn8_def c)
qed

lemma wit_net_ok: "net_ok 4 2 wit_flags8 wit_colls wit_net (Some wit_tail)"
proof -
  have "engram_row_local 4 wit_engram" by (auto simp: engram_row_local_def wit_engram_def)
  moreover have "fp8_net_ok 4 2 wit_flags8 wit_colls wit_net"
    using wit_fp8_bytes
    by (auto simp: fp8_net_ok_def fp8_good_def wit_colls_def wit_net_def wit_attn8_def wit_group_def gathers_def)
  ultimately show ?thesis
    using wit_coll_ok [of 2] wit_layer_local
    by (auto simp: net_ok_def chunk_ok_def wit_flags8_def wit_flags_def wit_colls_def wit_net_def tail_ok_def wit_tail_def
        wit_group_def takes_min_def split: if_splits)
qed

definition wit_run :: "bool \<Rightarrow> (nat, nat, nat, nat, nat, nat, unit) loop_st res" where
  "wit_run sharded = sp_forward_layers wit_flags8 wit_colls wit_net (\<lambda>_ xs _. xs) True (plans_for 4 2 sharded False) (Some wit_tail)
     [0, 1, 2, 3] [10, 20, 30, 40] [1, 9, 2, 3] [1, 9, 2, 3] Map.empty (Map.empty, Map.empty)"

lemma wit_run_value:
  "(case wit_run False of Inr s \<Rightarrow> Some (l_R s, l_aux s, map fst (l_kv s)) | Inl _ \<Rightarrow> None)
    = Some ([[767], [767]], [[[47], [47]]], [1])"
  by code_simp

theorem stage1_is_comm_witness:
  "map_sum id (\<lambda>s. s\<lparr>l_wkv := Map.empty, l_memo := (Map.empty, Map.empty)\<rparr>) (wit_run True)
     = map_sum id (\<lambda>s. s\<lparr>l_wkv := Map.empty, l_memo := (Map.empty, Map.empty)\<rparr>) (wit_run False)
   \<and> (case wit_run False of Inr s \<Rightarrow> Some (l_R s, l_aux s, map fst (l_kv s)) | Inl _ \<Rightarrow> None) = Some ([[767], [767]], [[[47], [47]]], [1])"
proof (rule conjI)
  show "map_sum id (\<lambda>s. s\<lparr>l_wkv := Map.empty, l_memo := (Map.empty, Map.empty)\<rparr>) (wit_run True)
      = map_sum id (\<lambda>s. s\<lparr>l_wkv := Map.empty, l_memo := (Map.empty, Map.empty)\<rparr>) (wit_run False)"
    unfolding wit_run_def
    by (rule stage1_is_comm [OF wit_net_ok]) (auto simp: wit_net_def wkv_ready_def fp8_state_ok_def)
qed (rule wit_run_value)

text \<open>A sharded chunk runs the kernels the whole chunk would run. If the engine picks its combine kernel on \<open>n\<close> rows by
  the fused-norm gate at \<open>n\<close> and its post kernel by the split-h gate at \<open>n\<close>, then on a shard of a planned chunk (at
  least 256 rows, shards of more than 8 rows) the patched methods pick what the engine picks for the
  chunk's full row count; the post kernel is unavailable only where the engine has no kernel for the platform either.\<close>

theorem kernels_keyed_on_chunk:
  assumes "256 \<le> rows" and "8 < rows div w" and "c_plan c = Some (mk_plan rows w r True exact)" and "c_inner c = 0"
    and "\<And>n. 8 < n \<Longrightarrow> combine_of (Engine n) = (if combine_norm_fused h n then Fused_prefill else Combine_then_norm)"
    and "combine_of Fused_prefill = Fused_prefill" and "combine_of Combine_then_norm = Combine_then_norm"
    and "\<And>n. post_of (Engine_post n) = (if post_split_h h n then Split_h else if h_flashinfer h then Flashinfer_post else Mhc_post)"
    and "\<And>k. k = Split_h \<or> k = Flashinfer_post \<or> k = Mhc_post \<Longrightarrow> post_of k = k"
  shows "map_sum id combine_of (hc_combine c h (rows div w) True False) = Inr (combine_of (Engine rows))
    \<and> (h_flashinfer h \<or> h_tilelang h \<longrightarrow> map_sum id post_of (hc_post c h (rows div w)) = Inr (post_of (Engine_post rows)))
    \<and> sp_logical_rows c (rows div w) = rows"
proof -
  have big: "8 < rows" using assms(1) by simp
  have fused: "combine_norm_fused h rows \<Longrightarrow> 4096 \<le> rows \<and> rows \<le> 65536 \<and> h_width h = 20480 \<and> h_pre_stride h = 1 \<and> h_bf16 h"
    using big by (auto simp: combine_norm_fused_def)
  have "map_sum id combine_of (hc_combine c h (rows div w) True False) = Inr (combine_of (Engine rows))"
    using fused big assms(2-7) by (auto simp: hc_combine_def sp_combine_def Let_def hc_combine_norm_rows_def)
  moreover have "h_flashinfer h \<or> h_tilelang h \<longrightarrow> map_sum id post_of (hc_post c h (rows div w)) = Inr (post_of (Engine_post rows))"
    using assms(1,3,4,8,9) by (auto simp: hc_post_def Let_def)
  moreover have "sp_logical_rows c (rows div w) = rows" using assms(3,4) by (simp add: sp_logical_rows_def)
  ultimately show ?thesis by blast
qed

definition wit_hc :: hc_facts where
  "wit_hc = \<lparr>h_cuda = True, h_blackwell = True, h_sm90 = False, h_v41 = True, h_from_prev = True, h_mult = 4, h_width = 20480, h_post_width = 5120,
     h_bf16 = True, h_f32_mix = True, h_pre_stride = 1, h_cast_before = False, h_var_override = False, h_batch_invariant = False,
     h_contiguous = True, h_flashinfer = False, h_tilelang = True\<rparr>"

definition wit_combine :: "combine_kernel \<Rightarrow> combine_kernel" where
  "wit_combine k = (case k of Engine n \<Rightarrow> if combine_norm_fused wit_hc n then Fused_prefill else Combine_then_norm | _ \<Rightarrow> k)"

definition wit_post :: "post_kernel \<Rightarrow> post_kernel" where
  "wit_post k = (case k of Engine_post n \<Rightarrow> if post_split_h wit_hc n then Split_h else Mhc_post | _ \<Rightarrow> k)"

theorem kernels_keyed_on_chunk_witness:
  "map_sum id wit_combine (hc_combine \<lparr>c_plan = Some (mk_plan 4096 4 0 True False), c_inner = 0, c_skip_wo_b = None\<rparr> wit_hc (4096 div 4) True False)
     = Inr (wit_combine (Engine 4096)) \<and> wit_combine (Engine 4096) = Fused_prefill \<and> wit_combine (Engine 1024) = Combine_then_norm"
proof -
  let ?c = "\<lparr>c_plan = Some (mk_plan 4096 4 0 True False), c_inner = 0, c_skip_wo_b = None\<rparr>"
  have "map_sum id wit_combine (hc_combine ?c wit_hc (4096 div 4) True False) = Inr (wit_combine (Engine 4096))"
    by (rule kernels_keyed_on_chunk [of 4096 4 ?c 0 False wit_combine wit_hc wit_post, THEN conjunct1])
       (auto simp: wit_combine_def wit_post_def wit_hc_def)
  then show ?thesis by (simp add: wit_combine_def combine_norm_fused_def wit_hc_def)
qed

end
