(* ===== verification/Block_Verify.thy ===== *)
theory Block_Verify
  imports Complex_Main Py_Prelude
begin

text \<open>
  Block verification of drafted tokens (\<open>adapter/block_verify.py\<close>): the acceptance weights, the acceptance
  thresholds, the accepted length and the correction distribution of \<open>block_accept_probs\<close>, their values along a
  drafted chain, and the rule under a live length.

  One request is modelled; a batch is a list of requests. The tensors hold rational numbers: the rounding of
  32-bit floats is left out, the floors of \<open>1e-30\<close> are kept. \<open>eta\<close> and the exponential draws are arguments. A
  row of probabilities is the list of its entries over the vocabulary.
\<close>

section \<open>The acceptance rule\<close>

definition eps_floor :: rat where
  "eps_floor = 1 / 10 ^ 30"

text \<open>\<open>live = None\<close>: every drafted position is verified.\<close>

definition alive :: "nat option \<Rightarrow> nat \<Rightarrow> bool" where
  "alive live i = (case live of None \<Rightarrow> True | Some k \<Rightarrow> i < k)"

definition draft_row :: "nat option \<Rightarrow> rat list list \<Rightarrow> nat \<Rightarrow> rat list" where
  "draft_row live draft_probs i = (if alive live i then draft_probs ! i else map (\<lambda>_. 0) (draft_probs ! i))"

definition accept_ratio :: "nat list \<Rightarrow> rat list list \<Rightarrow> rat list list \<Rightarrow> nat option \<Rightarrow> nat \<Rightarrow> rat" where
  "accept_ratio X target_probs draft_probs live i =
     (if alive live i then target_probs ! i ! (X ! i) / max (draft_probs ! i ! (X ! i)) eps_floor else 0)"

text \<open>The recursion \<open>w\<^sub>i = min (w\<^sub>i\<^sub>-\<^sub>1 * r\<^sub>i) 1\<close>.\<close>

fun accept_w :: "rat \<Rightarrow> rat list \<Rightarrow> rat list" where
  "accept_w cur [] = []"
| "accept_w cur (r # rs) = (let c = min (cur * r) 1 in c # accept_w c rs)"

definition surplus :: "rat \<Rightarrow> rat list \<Rightarrow> rat list \<Rightarrow> rat list" where
  "surplus w p q = map (\<lambda>(a, b). max (w * a - b) 0) (zip p q)"

definition accept_h :: "nat list \<Rightarrow> rat list list \<Rightarrow> rat list list \<Rightarrow> nat option \<Rightarrow> rat list" where
  "accept_h X target_probs draft_probs live =
     (let g = length X;
          w = accept_w 1 (map (accept_ratio X target_probs draft_probs live) [0..<g])
      in map (\<lambda>i. if Suc i < g
                  then let s = sum_list (surplus (w ! i) (target_probs ! Suc i) (draft_row live draft_probs (Suc i)))
                       in s / max (s + (1 - w ! i)) eps_floor
                  else w ! i) [0..<g])"

text \<open>\<open>tau\<close>: the last accepted position, counted from 1.\<close>

fun last_ok :: "bool list \<Rightarrow> nat" where
  "last_ok [] = 0"
| "last_ok (b # bs) = (let t = last_ok bs in if 0 < t then Suc t else if b then 1 else 0)"

definition accept_ok :: "nat option \<Rightarrow> rat list \<Rightarrow> rat list \<Rightarrow> bool list" where
  "accept_ok live h eta = map (\<lambda>i. eta ! i \<le> h ! i \<and> alive live i) [0..<length h]"

definition correction_dist :: "nat list \<Rightarrow> rat list list \<Rightarrow> rat list list \<Rightarrow> nat option \<Rightarrow> nat \<Rightarrow> rat list" where
  "correction_dist X target_probs draft_probs live tau =
     (let g = length X;
          w_all = 1 # accept_w 1 (map (accept_ratio X target_probs draft_probs live) [0..<g]);
          p_row = target_probs ! tau;
          q_row = (if tau < g then draft_row live draft_probs tau else map (\<lambda>_. 0) p_row);
          res = surplus (w_all ! tau) p_row q_row;
          mass = sum_list res
      in if 0 < mass then map (\<lambda>r. r / max mass eps_floor) res else p_row)"

text \<open>The index of the first largest entry.\<close>

fun argmax_from :: "nat \<Rightarrow> nat \<Rightarrow> rat \<Rightarrow> rat list \<Rightarrow> nat" where
  "argmax_from i best v [] = best"
| "argmax_from i best v (x # xs) = (if v < x then argmax_from (Suc i) i x xs else argmax_from (Suc i) best v xs)"

definition argmax :: "rat list \<Rightarrow> nat" where
  "argmax xs = (case xs of [] \<Rightarrow> 0 | x # ys \<Rightarrow> argmax_from 1 0 x ys)"

definition block_accept_probs ::
    "nat list \<Rightarrow> rat list list \<Rightarrow> rat list list \<Rightarrow> rat list \<Rightarrow> rat list \<Rightarrow> nat option \<Rightarrow> (nat \<times> nat) res" where
  "block_accept_probs X target_probs draft_probs eta gumbel live =
     (if X = [] then Inl IndexError
      else
        let h = accept_h X target_probs draft_probs live;
            tau = last_ok (accept_ok live h eta);
            res = correction_dist X target_probs draft_probs live tau
        in Inr (tau, argmax (map (\<lambda>(r, e). r / e) (zip res gumbel))))"

text \<open>The call from the engine: the stock sampler when a cutoff is given but \<open>DSV41_VERIFY_CAP\<close> is off; \<open>stock\<close> is
  its result. \<open>candidates\<close> holds the anchor and the drafts.\<close>

definition block_verify_enabled :: "environ \<Rightarrow> bool" where
  "block_verify_enabled env = (py_strip (env_get env ''DSV41_BLOCK_VERIFY'' ''0'') \<notin> {''0'', [], ''off'', ''false''})"

definition accept_execute ::
    "environ \<Rightarrow> (nat \<times> nat) res \<Rightarrow> nat list \<Rightarrow> rat list list \<Rightarrow> rat list list \<Rightarrow> nat \<Rightarrow> nat option \<Rightarrow> rat list \<Rightarrow> rat list
     \<Rightarrow> (nat \<times> nat) res" where
  "accept_execute env stock candidates target_probs draft_probs gamma cutoff eta gumbel =
     (if cutoff \<noteq> None \<and> py_strip (env_get env ''DSV41_VERIFY_CAP'' []) \<in> {[], ''0'', ''off''} then stock
      else block_accept_probs (slice 1 (gamma + 1) candidates) target_probs draft_probs eta gumbel
             (map_option (\<lambda>c. c - 1) cutoff))"

section \<open>The law of the accepted length\<close>

text \<open>The probability that independent acceptances with probabilities \<open>h\<close> come out as \<open>ok\<close>; a uniform \<open>eta\<close> is at
  most \<open>h\<close> with probability \<open>h\<close>.\<close>

fun bern :: "rat list \<Rightarrow> bool list \<Rightarrow> rat" where
  "bern (h # hs) (b # bs) = (if b then h else 1 - h) * bern hs bs"
| "bern _ _ = 1"

definition tau_prob :: "rat list \<Rightarrow> nat \<Rightarrow> rat" where
  "tau_prob h i = (if i = 0 then 1 else h ! (i - 1)) * prod_list (map (\<lambda>t. 1 - t) (drop i h))"

lemma tau_prob_simps:
  "tau_prob (a # hs) 0 = (1 - a) * tau_prob hs 0"
  "tau_prob (a # hs) 1 = a * tau_prob hs 0"
  "tau_prob (a # hs) (Suc (Suc i)) = tau_prob hs (Suc i)"
  by (simp_all add: tau_prob_def)

lemma sum_bools:
  fixes F :: "bool list \<Rightarrow> rat"
  shows "(\<Sum>ok\<leftarrow>List.n_lists (Suc n) [True, False]. F ok) = (\<Sum>ok\<leftarrow>List.n_lists n [True, False]. F (True # ok) + F (False # ok))"
proof -
  have "(\<Sum>ok\<leftarrow>concat (map (\<lambda>ys. [True # ys, False # ys]) L). F ok) = (\<Sum>ok\<leftarrow>L. F (True # ok) + F (False # ok))" for L
    by (induction L) simp_all
  then show ?thesis by simp
qed

lemma sum_tau:
  "(\<Sum>ok\<leftarrow>List.n_lists (length h) [True, False]. bern h ok * f (last_ok ok)) = (\<Sum>i\<le>length h. tau_prob h i * f i)"
proof (induction h arbitrary: f)
  case Nil
  then show ?case by (simp add: tau_prob_def)
next
  case (Cons a hs)
  let ?f = "\<lambda>b t. if 0 < t then f (Suc t) else f (if b then 1 else 0)"
  have "(\<Sum>ok\<leftarrow>List.n_lists (length (a # hs)) [True, False]. bern (a # hs) ok * f (last_ok ok))
      = (\<Sum>ok\<leftarrow>List.n_lists (length hs) [True, False]. bern hs ok * (a * ?f True (last_ok ok) + (1 - a) * ?f False (last_ok ok)))"
    unfolding length_Cons sum_bools by (intro arg_cong [where f = sum_list] map_cong) (auto simp: Let_def algebra_simps)
  also have "\<dots> = (\<Sum>i\<le>length hs. tau_prob hs i * (a * ?f True i + (1 - a) * ?f False i))"
    by (rule Cons.IH)
  also have "\<dots> = tau_prob hs 0 * (a * f 1 + (1 - a) * f 0) + (\<Sum>i<length hs. tau_prob hs (Suc i) * f (Suc (Suc i)))"
    by (simp add: lessThan_Suc_atMost [symmetric] sum.lessThan_Suc_shift del: sum.lessThan_Suc) (simp add: algebra_simps)
  also have "\<dots> = (\<Sum>i\<le>length (a # hs). tau_prob (a # hs) i * f i)"
    by (simp add: lessThan_Suc_atMost [symmetric] sum.lessThan_Suc_shift tau_prob_simps [unfolded One_nat_def] algebra_simps
        del: sum.lessThan_Suc)
  finally show ?case .
qed

section \<open>The weights along a drafted chain\<close>

text \<open>A language model gives the next-token row after a prefix of drafted tokens.\<close>

type_synonym lm = "nat list \<Rightarrow> rat list"

definition target_rows :: "lm \<Rightarrow> nat list \<Rightarrow> rat list list" where
  "target_rows p X = map (\<lambda>i. p (take i X)) [0..<Suc (length X)]"

definition draft_rows :: "lm \<Rightarrow> nat list \<Rightarrow> rat list list" where
  "draft_rows q X = map (\<lambda>i. q (take i X)) [0..<length X]"

primrec wseq :: "rat \<Rightarrow> (nat \<Rightarrow> rat) \<Rightarrow> nat \<Rightarrow> rat" where
  "wseq c r 0 = c"
| "wseq c r (Suc i) = min (wseq c r i * r i) 1"

lemma wseq_shift: "wseq c r (Suc i) = wseq (min (c * r 0) 1) (\<lambda>j. r (Suc j)) i"
  by (induction i) simp_all

lemma wseq_cong: "(\<And>j. j < i \<Longrightarrow> r j = r' j) \<Longrightarrow> wseq c r i = wseq c r' i"
  by (induction i) simp_all

lemma accept_w_nth: "i < n \<Longrightarrow> accept_w c (map r [a..<a + n]) ! i = wseq c (\<lambda>j. r (a + j)) (Suc i)"
proof (induction n arbitrary: a c i)
  case (Suc n)
  have up: "[a..<a + Suc n] = a # [Suc a..<Suc a + n]" by (simp add: upt_conv_Cons)
  show ?case
  proof (cases i)
    case 0
    then show ?thesis unfolding up by (simp add: Let_def)
  next
    case (Suc j)
    then have "accept_w c (map r [a..<a + Suc n]) ! i = wseq (min (c * r a) 1) (\<lambda>k. r (Suc a + k)) (Suc j)"
      unfolding up using Suc.IH [of j "min (c * r a) 1" "Suc a"] Suc.prems by (simp add: Let_def del: wseq.simps)
    also have "\<dots> = wseq c (\<lambda>k. r (a + k)) (Suc (Suc j))" by (subst wseq_shift [of c]) simp
    finally show ?thesis using Suc by simp
  qed
qed simp

definition W :: "lm \<Rightarrow> lm \<Rightarrow> nat list \<Rightarrow> rat" where
  "W p q u = wseq 1 (\<lambda>j. p (take j u) ! (u ! j) / max (q (take j u) ! (u ! j)) eps_floor) (length u)"

lemma W_Nil: "W p q [] = 1"
  by (simp add: W_def)

lemma W_snoc: "W p q (u @ [x]) = min (W p q u * (p u ! x / max (q u ! x) eps_floor)) 1"
proof -
  have "wseq 1 (\<lambda>j. p (take j (u @ [x])) ! ((u @ [x]) ! j) / max (q (take j (u @ [x])) ! ((u @ [x]) ! j)) eps_floor) (length u) = W p q u"
    unfolding W_def by (rule wseq_cong) (simp add: nth_append)
  then show ?thesis by (simp add: W_def)
qed

lemma W_take:
  assumes "i \<le> length X"
  shows "wseq 1 (accept_ratio X (target_rows p X) (draft_rows q X) None) i = W p q (take i X)"
proof -
  have "wseq 1 (accept_ratio X (target_rows p X) (draft_rows q X) None) i
      = wseq 1 (\<lambda>j. p (take j (take i X)) ! (take i X ! j) / max (q (take j (take i X)) ! (take i X ! j)) eps_floor) i"
    using assms by (intro wseq_cong)
      (simp add: accept_ratio_def alive_def target_rows_def draft_rows_def min_def del: upt_Suc)
  then show ?thesis using assms by (simp add: W_def min_def)
qed

lemma accept_w_chain:
  assumes "i < length X"
  shows "accept_w 1 (map (accept_ratio X (target_rows p X) (draft_rows q X) None) [0..<length X]) ! i = W p q (take (Suc i) X)"
  using accept_w_nth [of i "length X" 1 "accept_ratio X (target_rows p X) (draft_rows q X) None" 0]
    W_take [of "Suc i" X p q] assms by simp

definition S :: "lm \<Rightarrow> lm \<Rightarrow> nat list \<Rightarrow> rat" where
  "S p q u = sum_list (surplus (W p q u) (p u) (q u))"

text \<open>\<open>stop u\<close>: drafting ends after \<open>u\<close>; a block of \<open>g\<close> drafts stops at length \<open>g\<close>.\<close>

definition H :: "lm \<Rightarrow> lm \<Rightarrow> (nat list \<Rightarrow> bool) \<Rightarrow> nat list \<Rightarrow> rat" where
  "H p q stop u = (if stop u then W p q u else S p q u / max (S p q u + (1 - W p q u)) eps_floor)"

definition Cd :: "lm \<Rightarrow> lm \<Rightarrow> (nat list \<Rightarrow> bool) \<Rightarrow> nat list \<Rightarrow> rat list" where
  "Cd p q stop u =
     (let res = surplus (W p q u) (p u) (if stop u then map (\<lambda>_. 0) (p u) else q u); mass = sum_list res
      in if 0 < mass then map (\<lambda>r. r / max mass eps_floor) res else p u)"

definition stops_at :: "nat \<Rightarrow> nat list \<Rightarrow> bool" where
  "stops_at g u = (g \<le> length u)"

lemma rows_nth:
  "i \<le> length X \<Longrightarrow> target_rows p X ! i = p (take i X)"
  "i < length X \<Longrightarrow> draft_row None (draft_rows q X) i = q (take i X)"
  by (simp_all add: target_rows_def draft_row_def alive_def draft_rows_def del: upt_Suc)

lemma accept_h_chain:
  "accept_h X (target_rows p X) (draft_rows q X) None = map (\<lambda>i. H p q (stops_at (length X)) (take (Suc i) X)) [0..<length X]"
proof (rule nth_equalityI)
  fix i
  assume "i < length (accept_h X (target_rows p X) (draft_rows q X) None)"
  then have i: "i < length X" by (simp add: accept_h_def Let_def)
  then show "accept_h X (target_rows p X) (draft_rows q X) None ! i = map (\<lambda>i. H p q (stops_at (length X)) (take (Suc i) X)) [0..<length X] ! i"
    by (simp add: accept_h_def Let_def accept_w_chain H_def S_def rows_nth min_def stops_at_def)
qed (simp add: accept_h_def Let_def)

lemma correction_chain:
  assumes "i \<le> length X"
  shows "correction_dist X (target_rows p X) (draft_rows q X) None i = Cd p q (stops_at (length X)) (take i X)"
proof -
  have w: "(1 # accept_w 1 (map (accept_ratio X (target_rows p X) (draft_rows q X) None) [0..<length X])) ! i = W p q (take i X)"
    using assms accept_w_chain [of "i - 1" X p q] by (cases i) (simp_all add: W_Nil)
  show ?thesis
    using assms rows_nth(2) [of i X q] unfolding correction_dist_def Cd_def Let_def w rows_nth(1) [OF assms] by (simp add: min_def stops_at_def)
qed

lemma eps_floor_pos: "0 < eps_floor"
  by (simp add: eps_floor_def)

section \<open>The shorter block of a live length\<close>

lemma last_ok_pad: "last_ok (bs @ replicate n False) = last_ok bs"
proof (induction bs)
  case Nil
  show ?case by (induction n) (simp_all add: Let_def)
qed (simp add: Let_def)

lemma last_ok_le: "last_ok bs \<le> length bs"
  by (induction bs) (auto simp: Let_def)

lemma accept_w_take: "take k (accept_w c rs) = accept_w c (take k rs)"
  by (induction rs arbitrary: c k) (auto simp: Let_def take_Cons split: nat.splits)

lemma length_accept_w [simp]: "length (accept_w c rs) = length rs"
  by (induction rs arbitrary: c) (simp_all add: Let_def)

lemma accept_w_range:
  assumes "0 \<le> c" and "list_all (\<lambda>r. 0 \<le> r) rs" and "i < length rs"
  shows "0 \<le> accept_w c rs ! i \<and> accept_w c rs ! i \<le> 1"
  using assms by (induction rs arbitrary: c i) (auto simp: Let_def nth_Cons split: nat.splits)

text \<open>Rows of probabilities over \<open>V\<close> tokens.\<close>

definition prob_rows :: "nat \<Rightarrow> rat list list \<Rightarrow> bool" where
  "prob_rows V rows = list_all (\<lambda>r. length r = V \<and> list_all (\<lambda>a. 0 \<le> a) r \<and> sum_list r = 1) rows"

lemma surplus_zero:
  assumes "0 \<le> w" and "list_all (\<lambda>a. 0 \<le> a) p" and "length p = length q"
  shows "surplus w p (map (\<lambda>_. 0) q) = map (\<lambda>a. w * a) p"
  using assms by (intro nth_equalityI) (auto simp: surplus_def list_all_length max_absorb1)

lemma ratio_live:
  assumes "i < k"
  shows "accept_ratio X tp dp (Some k) i = accept_ratio (take k X) (take (Suc k) tp) (take k dp) None i"
  using assms by (simp add: accept_ratio_def alive_def)

lemma accept_w_live:
  assumes "i < k" and "k \<le> length X"
  shows "accept_w 1 (map (accept_ratio X tp dp (Some k)) [0..<length X]) ! i
    = accept_w 1 (map (accept_ratio (take k X) (take (Suc k) tp) (take k dp) None) [0..<k]) ! i"
proof -
  have "take k (map (accept_ratio X tp dp (Some k)) [0..<length X])
      = map (accept_ratio (take k X) (take (Suc k) tp) (take k dp) None) [0..<k]"
    using assms(2) by (intro nth_equalityI) (auto simp: ratio_live)
  then have "take k (accept_w 1 (map (accept_ratio X tp dp (Some k)) [0..<length X]))
      = accept_w 1 (map (accept_ratio (take k X) (take (Suc k) tp) (take k dp) None) [0..<k])"
    by (simp add: accept_w_take)
  then show ?thesis using assms(1) by (metis nth_take)
qed

lemma accept_h_live:
  assumes "i < k" and "k \<le> length X" and "prob_rows V tp" and "length tp = Suc (length X)"
    and "list_all (\<lambda>r. length r = V) dp" and "length dp = length X" and "list_all (\<lambda>x. x < V) X"
  shows "accept_h X tp dp (Some k) ! i = accept_h (take k X) (take (Suc k) tp) (take k dp) None ! i"
proof -
  let ?w = "accept_w 1 (map (accept_ratio X tp dp (Some k)) [0..<length X])"
  have "0 \<le> accept_ratio X tp dp (Some k) j" if "j < length X" for j
  proof -
    have "0 \<le> tp ! j ! (X ! j)" using that assms(3,4,7) by (auto simp: prob_rows_def list_all_length)
    then show ?thesis using eps_floor_pos by (auto simp: accept_ratio_def less_max_iff_disj intro!: divide_nonneg_pos)
  qed
  then have w: "0 \<le> ?w ! i" "?w ! i \<le> 1"
    using accept_w_range [of 1 "map (accept_ratio X tp dp (Some k)) [0..<length X]" i] assms(1,2) by (auto simp: list_all_length)
  show ?thesis
  proof (cases "Suc i < k")
    case True
    then show ?thesis
      using assms(1,2) accept_w_live [OF assms(1,2), of tp dp] by (simp add: accept_h_def Let_def draft_row_def alive_def)
  next
    case last: False
    then have i: "Suc i = k" using assms(1) by simp
    have row: "length (tp ! k) = V" "list_all (\<lambda>a. 0 \<le> a) (tp ! k)" "sum_list (tp ! k) = 1"
      using assms(2-4) by (auto simp: prob_rows_def list_all_length)
    have "sum_list (surplus (?w ! i) (tp ! k) (draft_row (Some k) dp k)) = ?w ! i" if "k < length X"
      using that w(1) row assms(5,6) by (simp add: draft_row_def alive_def surplus_zero list_all_length sum_list_const_mult)
    moreover have "?w ! i / max (?w ! i + (1 - ?w ! i)) eps_floor = ?w ! i"
      by (simp add: eps_floor_def max_def)
    ultimately show ?thesis
      using i assms(1,2) accept_w_live [OF assms(1,2), of tp dp] by (auto simp: accept_h_def Let_def)
  qed
qed

lemma correction_live:
  assumes "t \<le> k" and "k \<le> length X" and "prob_rows V tp" and "length tp = Suc (length X)"
    and "list_all (\<lambda>r. length r = V) dp" and "length dp = length X"
  shows "correction_dist X tp dp (Some k) t = correction_dist (take k X) (take (Suc k) tp) (take k dp) None t"
proof -
  have w: "(1 # accept_w 1 (map (accept_ratio X tp dp (Some k)) [0..<length X])) ! t
      = (1 # accept_w 1 (map (accept_ratio (take k X) (take (Suc k) tp) (take k dp) None) [0..<length (take k X)])) ! t"
    using assms(1,2) accept_w_live [of "t - 1" k X tp dp] by (cases t) (simp_all add: min_def)
  have p: "take (Suc k) tp ! t = tp ! t" using assms(1) by simp
  have q: "(if t < length X then draft_row (Some k) dp t else map (\<lambda>_. 0) (tp ! t))
      = (if t < length (take k X) then draft_row None (take k dp) t else map (\<lambda>_. 0) (tp ! t))"
    using assms by (auto simp: draft_row_def alive_def min_def prob_rows_def list_all_length map_replicate_const)
  show ?thesis unfolding correction_dist_def Let_def w p q ..
qed

lemma last_ok_false: "(\<And>i. k \<le> i \<Longrightarrow> i < length bs \<Longrightarrow> \<not> bs ! i) \<Longrightarrow> last_ok bs \<le> k"
proof (induction bs arbitrary: k)
  case (Cons b bs)
  have "last_ok bs \<le> k - 1" by (rule Cons.IH) (use Cons.prems [of "Suc _"] in auto)
  moreover have "\<not> b" if "k = 0" using Cons.prems [of 0] that by simp
  moreover have "last_ok bs = 0" if "k = 0"
    using Cons.IH [of 0] Cons.prems [of "Suc _"] that by auto
  ultimately show ?case by (cases k) (auto simp: Let_def)
qed simp

lemma accept_tau_le:
  assumes "block_accept_probs X tp dp eta gumbel (Some k) = Inr (tau, tok)"
  shows "tau \<le> k"
  using assms last_ok_false [of k "accept_ok (Some k) (accept_h X tp dp (Some k)) eta"]
  by (auto simp: block_accept_probs_def Let_def accept_ok_def alive_def split: if_splits)

section \<open>Properties\<close>

text \<open>a live length is the block rule of the shorter block. Verifying a drafted block with live length \<open>k\<close> gives the accepted
  length and the correction token of verifying its first \<open>k\<close> drafts alone, for the same draws: the dead
  positions are never accepted and the residual at the cut is the plain target row.\<close>

theorem live_cut_is_shorter_block:
  assumes "0 < k" and "k \<le> length X" and "prob_rows V target_probs" and "length target_probs = Suc (length X)"
    and "list_all (\<lambda>r. length r = V) draft_probs" and "length draft_probs = length X" and "list_all (\<lambda>x. x < V) X"
  shows "block_accept_probs X target_probs draft_probs eta gumbel (Some k)
    = block_accept_probs (take k X) (take (Suc k) target_probs) (take k draft_probs) eta gumbel None"
proof -
  let ?h = "accept_h X target_probs draft_probs (Some k)"
  let ?h' = "accept_h (take k X) (take (Suc k) target_probs) (take k draft_probs) None"
  have len: "length ?h = length X" "length ?h' = k" using assms(2) by (simp_all add: accept_h_def Let_def)
  have "accept_ok (Some k) ?h eta = accept_ok None ?h' eta @ replicate (length X - k) False"
  proof (rule nth_equalityI)
    fix i
    assume "i < length (accept_ok (Some k) ?h eta)"
    then show "accept_ok (Some k) ?h eta ! i = (accept_ok None ?h' eta @ replicate (length X - k) False) ! i"
      using accept_h_live [OF _ assms(2-7), of i] len by (auto simp: accept_ok_def alive_def nth_append)
  qed (use len assms(2) in \<open>simp add: accept_ok_def\<close>)
  then have tau: "last_ok (accept_ok (Some k) ?h eta) = last_ok (accept_ok None ?h' eta)" by (simp add: last_ok_pad)
  have "last_ok (accept_ok None ?h' eta) \<le> k" using last_ok_le [of "accept_ok None ?h' eta"] len by (simp add: accept_ok_def)
  note corr = correction_live [OF this assms(2-6)]
  have "X \<noteq> []" "take k X \<noteq> []" using assms(1,2) by auto
  then show ?thesis unfolding block_accept_probs_def Let_def tau corr by simp
qed

theorem live_cut_is_shorter_block_witness:
  "block_accept_probs [0, 1] [[1/2, 1/2], [1/4, 3/4], [1/2, 1/2]] [[3/4, 1/4], [3/4, 1/4]] [1/2, 0] [1, 1] (Some 1)
   = block_accept_probs [0] [[1/2, 1/2], [1/4, 3/4]] [[3/4, 1/4]] [1/2, 0] [1, 1] None"
proof -
  have "block_accept_probs [0, 1] [[1/2, 1/2], [1/4, 3/4], [1/2, 1/2]] [[3/4, 1/4], [3/4, 1/4]] [1/2, 0] [1, 1] (Some 1)
     = block_accept_probs (take 1 [0, 1]) (take (Suc 1) [[1/2, 1/2], [1/4, 3/4], [1/2, 1/2]]) (take 1 [[3/4, 1/4], [3/4, 1/4]])
         [1/2, 0] [1, 1] None"
    by (rule live_cut_is_shorter_block [of 1 "[0, 1]" 2]) (simp_all add: prob_rows_def)
  then show ?thesis by simp
qed

end
