(* ===== verification/Verify_Cap.thy ===== *)
theory Verify_Cap
  imports Block_Verify
begin

text \<open>
  Per-step verify length (\<open>adapter/verify_cap.py\<close>): the policy of \<open>DSV41_VERIFY_CAP\<close>, the live-length
  buffer, the live lengths of a confidence tensor and their broadcast, the router rows of dead verify rows, and the
  hooks that mark a verify forward and cap the acceptance. Confidences and thresholds are rational numbers; \<open>to_float\<close>
  is Python's \<open>float()\<close> on a string, the \<open>torch\<close> stream state is the argument \<open>capturing\<close>. The measurement log is
  not modelled, nor the cache of the threshold tensor, whose width is the block size throughout.
\<close>

section \<open>Configuration\<close>

definition MAX_BS :: nat where "MAX_BS = 64"

definition E_TARGET :: nat where "E_TARGET = 384"

definition K_TARGET :: nat where "K_TARGET = 6"

datatype threshold = Uniform rat | Per_draft "rat list"

record cap_cfg =
  v_enabled :: bool
  v_stride :: int
  v_kmin :: int
  v_fixed :: "int option"
  v_thr :: "threshold option"

definition cap_spec :: "environ \<Rightarrow> string" where
  "cap_spec env = py_strip (env_get env ''DSV41_VERIFY_CAP'' [])"

definition cap_enabled :: "environ \<Rightarrow> bool" where
  "cap_enabled env = (cap_spec env \<notin> {[], ''0'', ''off''})"

definition to_res :: "'a option \<Rightarrow> 'a res" where
  "to_res r = (case r of Some x \<Rightarrow> Inr x | None \<Rightarrow> Inl ValueError)"

definition cap_stride :: "environ \<Rightarrow> int res" where
  "cap_stride env =
     (case env ''DSV41_VERIFY_CAP_STRIDE'' of
        Some v \<Rightarrow> if v \<noteq> [] then to_res (py_int v)
                  else bind_res (to_res (py_int (env_get env ''DSPARK_BLOCK_SIZE'' ''5''))) (\<lambda>b. Inr (b + 1))
      | None \<Rightarrow> bind_res (to_res (py_int (env_get env ''DSPARK_BLOCK_SIZE'' ''5''))) (\<lambda>b. Inr (b + 1)))"

fun all_floats :: "(string \<Rightarrow> rat option) \<Rightarrow> string list \<Rightarrow> rat list res" where
  "all_floats to_float [] = Inr []"
| "all_floats to_float (s # ss) =
     bind_res (to_res (to_float s)) (\<lambda>v. bind_res (all_floats to_float ss) (\<lambda>vs. Inr (v # vs)))"

definition cap_config :: "(string \<Rightarrow> rat option) \<Rightarrow> environ \<Rightarrow> cap_cfg res" where
  "cap_config to_float env =
     bind_res (cap_stride env) (\<lambda>stride.
     bind_res (to_res (py_int (env_get env ''DSV41_VERIFY_CAP_MIN'' ''1''))) (\<lambda>kmin.
       let c = \<lparr>v_enabled = cap_enabled env, v_stride = stride, v_kmin = kmin, v_fixed = None, v_thr = None\<rparr> in
       if \<not> cap_enabled env then Inr c
       else if startswith (cap_spec env) ''conf:'' then
         bind_res (all_floats to_float (split_char (CHR '','') (drop 5 (cap_spec env)))) (\<lambda>vals.
           Inr (c\<lparr>v_thr := Some (if length vals = 1 then Uniform (hd vals) else Per_draft (0 # vals))\<rparr>))
       else bind_res (to_res (py_int (cap_spec env))) (\<lambda>k. Inr (c\<lparr>v_fixed := Some k\<rparr>))))"

section \<open>Live lengths\<close>

record cap_state =
  s_live :: "int list option"
  s_in_verify :: bool
  s_conf :: "rat list list option"
  s_src :: "nat list option"

definition init_cap :: cap_state where
  "init_cap = \<lparr>s_live = None, s_in_verify = False, s_conf = None, s_src = None\<rparr>"

definition live_buf :: "cap_cfg \<Rightarrow> bool \<Rightarrow> cap_state \<Rightarrow> cap_state \<times> int list res" where
  "live_buf c capturing st =
     (case s_live st of
        Some buf \<Rightarrow> (st, Inr buf)
      | None \<Rightarrow>
          if capturing then (st, Inl AssertionError)
          else let buf = replicate MAX_BS (case v_fixed c of Some k \<Rightarrow> 1 + k | None \<Rightarrow> v_stride c)
               in (st\<lparr>s_live := Some buf\<rparr>, Inr buf))"

definition cutoff :: "cap_cfg \<Rightarrow> bool \<Rightarrow> nat \<Rightarrow> cap_state \<Rightarrow> cap_state \<times> int list option res" where
  "cutoff c capturing bs st =
     (if v_enabled c then (case live_buf c capturing st of (st, r) \<Rightarrow> (st, bind_res r (\<lambda>b. Inr (Some (take bs b)))))
      else (st, Inr None))"

fun cum_prod :: "rat \<Rightarrow> rat list \<Rightarrow> rat list" where
  "cum_prod acc [] = []"
| "cum_prod acc (x # xs) = (let a = acc * x in a # cum_prod a xs)"

definition clamp01 :: "rat \<Rightarrow> rat" where
  "clamp01 x = min (max x 0) 1"

definition thresholds :: "threshold \<Rightarrow> nat \<Rightarrow> rat list" where
  "thresholds t n = (case t of Uniform v \<Rightarrow> replicate n v | Per_draft vs \<Rightarrow> take n (vs @ replicate n (last vs)))"

text \<open>The number of leading positions that pass.\<close>

fun leading :: "bool list \<Rightarrow> nat" where
  "leading [] = 0"
| "leading (b # bs) = (if b then Suc (leading bs) else 0)"

definition live_drafts :: "cap_cfg \<Rightarrow> threshold \<Rightarrow> rat list \<Rightarrow> int" where
  "live_drafts c t conf =
     (let cum = cum_prod 1 (map clamp01 conf);
          n = leading (map (\<lambda>(a, b). b \<le> a) (zip cum (thresholds t (length cum))))
      in min (max (int n) (v_kmin c)) (v_stride c - 1))"

text \<open>\<open>bc\<close> is the broadcast of rank 0's first \<open>bs\<close> entries as this rank receives them (the group's, or
  \<open>spec_sync_free\<close>'s when that is enabled).\<close>

definition share_live :: "nat \<Rightarrow> (int list \<Rightarrow> int list) \<Rightarrow> nat \<Rightarrow> int list \<Rightarrow> int list" where
  "share_live world bc bs buf = (if 1 < world then bc (take bs buf) @ drop bs buf else buf)"

definition set_live_from_confidence ::
    "cap_cfg \<Rightarrow> nat \<Rightarrow> (int list \<Rightarrow> int list) \<Rightarrow> bool \<Rightarrow> rat list list option \<Rightarrow> nat \<Rightarrow> cap_state \<Rightarrow> cap_state \<times> unit res" where
  "set_live_from_confidence c world bc capturing confidence bs st =
     (case (v_thr c, confidence) of
        (Some t, Some conf) \<Rightarrow>
          (case live_buf c capturing st of
             (st, Inl e) \<Rightarrow> (st, Inl e)
           | (st, Inr buf) \<Rightarrow>
               let k = map (live_drafts c t) conf; n = min bs (length buf) in
               if length k \<noteq> n \<and> length k \<noteq> 1 then (st, Inl RuntimeError)
               else let k = (if length k = n then k else replicate n (hd k));
                        buf = map (\<lambda>x. x + 1) k @ drop bs buf
                    in (st\<lparr>s_live := Some (share_live world bc bs buf)\<rparr>, Inr ()))
      | _ \<Rightarrow> (st, Inr ()))"

section \<open>Dead rows\<close>

definition row_dead :: "nat \<Rightarrow> int list \<Rightarrow> nat \<Rightarrow> bool" where
  "row_dead stride live r = (live ! (min (r div stride) (MAX_BS - 1)) \<le> int (r mod stride))"

definition src_of :: "nat \<Rightarrow> int list \<Rightarrow> nat \<Rightarrow> nat" where
  "src_of stride live r = (if row_dead stride live r then r div stride * stride else r)"

definition src_rows :: "cap_cfg \<Rightarrow> bool \<Rightarrow> nat \<Rightarrow> cap_state \<Rightarrow> cap_state \<times> nat list res" where
  "src_rows c capturing m st =
     (case (case s_src st of Some src \<Rightarrow> if length src = m then Some src else None | None \<Rightarrow> None) of
        Some src \<Rightarrow> (st, Inr src)
      | None \<Rightarrow>
          (case live_buf c capturing st of
             (st, Inl e) \<Rightarrow> (st, Inl e)
           | (st, Inr live) \<Rightarrow>
               let src = map (src_of (nat (v_stride c)) live) [0..<m] in (st\<lparr>s_src := Some src\<rparr>, Inr src)))"

text \<open>The in-place kernel: for each column every dead row loads its anchor's entry, then the rows store.\<close>

definition remap_column :: "nat \<Rightarrow> int list \<Rightarrow> nat \<Rightarrow> 'a list list \<Rightarrow> 'a list list" where
  "remap_column stride live k rows =
     map (\<lambda>r. if live ! (r div stride) \<le> int (r mod stride) then (rows ! r)[k := rows ! (r div stride * stride) ! k] else rows ! r)
       [0..<length rows]"

definition remap_kernel :: "nat \<Rightarrow> int list \<Rightarrow> nat \<Rightarrow> 'a list list \<Rightarrow> 'a list list" where
  "remap_kernel stride live K rows = fold (remap_column stride live) [0..<K] rows"

text \<open>\<open>triton\<close>: Triton is there and the tensors are contiguous.\<close>

definition remap_dead_rows ::
    "cap_cfg \<Rightarrow> bool \<Rightarrow> bool \<Rightarrow> 'a list list \<Rightarrow> nat list list \<Rightarrow> cap_state \<Rightarrow> cap_state \<times> ('a list list \<times> nat list list) res" where
  "remap_dead_rows c capturing triton weights indices st =
     (let m = length indices in
      if triton \<and> list_all (\<lambda>row. length row = K_TARGET) weights \<and> m \<le> 1024 then
        (case live_buf c capturing st of
           (st, Inl e) \<Rightarrow> (st, Inl e)
         | (st, Inr live) \<Rightarrow>
             (st, Inr (remap_kernel (nat (v_stride c)) live K_TARGET weights, remap_kernel (nat (v_stride c)) live K_TARGET indices)))
      else
        (case src_rows c capturing m st of
           (st, Inl e) \<Rightarrow> (st, Inl e)
         | (st, Inr src) \<Rightarrow> (st, Inr (map ((!) weights) src, map ((!) indices) src))))"

text \<open>The wrapper of \<open>moe_fused_gate\<close> without \<open>DSV41_ROUTER_LIVE\<close>; \<open>original\<close> is its result on the \<open>m\<close> rows.\<close>

definition gate_verify :: "cap_cfg \<Rightarrow> cap_state \<Rightarrow> nat \<Rightarrow> nat \<Rightarrow> nat \<Rightarrow> bool" where
  "gate_verify c st m experts topk =
     (s_in_verify st \<and> experts = E_TARGET \<and> topk = K_TARGET \<and> 0 < m \<and> m mod nat (v_stride c) = 0
      \<and> m div nat (v_stride c) \<le> MAX_BS)"

definition gate_wrapped ::
    "cap_cfg \<Rightarrow> bool \<Rightarrow> bool \<Rightarrow> nat \<Rightarrow> nat \<Rightarrow> 'a list list \<times> nat list list \<Rightarrow> cap_state
     \<Rightarrow> cap_state \<times> ('a list list \<times> nat list list) res" where
  "gate_wrapped c capturing triton experts topk original st =
     (if gate_verify c st (length (snd original)) experts topk
      then remap_dead_rows c capturing triton (fst original) (snd original) st
      else (st, Inr original))"

section \<open>Hooks\<close>

text \<open>The target model's forward: marks verify forwards and clears the cached source rows; \<open>run\<close> is the engine's forward.\<close>

definition model_forward ::
    "cap_cfg \<Rightarrow> bool \<Rightarrow> bool \<Rightarrow> bool \<Rightarrow> (cap_state \<Rightarrow> cap_state \<times> 'o res) \<Rightarrow> cap_state \<Rightarrow> cap_state \<times> 'o res" where
  "model_forward c capturing target_class target_verify run st =
     (let st = (if s_live st = None \<and> \<not> capturing then fst (live_buf c capturing st) else st);
          prev = s_in_verify st
      in case run (st\<lparr>s_src := None, s_in_verify := target_class \<and> target_verify\<rparr>) of
           (st, r) \<Rightarrow> (st\<lparr>s_in_verify := prev\<rparr>, r))"

definition accept_cutoff :: "cap_cfg \<Rightarrow> bool \<Rightarrow> nat \<Rightarrow> int list option \<Rightarrow> cap_state \<Rightarrow> cap_state \<times> int list option res" where
  "accept_cutoff c capturing bs given st = (case given of Some v \<Rightarrow> (st, Inr (Some v)) | None \<Rightarrow> cutoff c capturing bs st)"

definition run_non_compact ::
    "cap_cfg \<Rightarrow> nat \<Rightarrow> (int list \<Rightarrow> int list) \<Rightarrow> bool \<Rightarrow> nat \<Rightarrow> cap_state \<Rightarrow> cap_state \<times> unit res" where
  "run_non_compact c world bc capturing bs st =
     (case (if v_thr c \<noteq> None then set_live_from_confidence c world bc capturing (s_conf st) bs st else (st, Inr ())) of
        (st, Inl e) \<Rightarrow> (st, Inl e)
      | (st, Inr _) \<Rightarrow> (st\<lparr>s_conf := None\<rparr>, Inr ()))"

text \<open>The proposer and the planner keep the step's confidence.\<close>

definition keep_confidence :: "cap_cfg \<Rightarrow> bool \<Rightarrow> rat list list option \<Rightarrow> cap_state \<Rightarrow> cap_state" where
  "keep_confidence c from_planner conf st =
     (if v_enabled c \<and> v_thr c \<noteq> None \<and> (from_planner \<or> conf \<noteq> None) then st\<lparr>s_conf := conf\<rparr> else st)"

section \<open>Lemmas\<close>

lemma remap_column_nth:
  assumes "r < length rows"
  shows "remap_column stride live k rows ! r
    = (if live ! (r div stride) \<le> int (r mod stride) then (rows ! r)[k := rows ! (r div stride * stride) ! k] else rows ! r)"
  using assms by (simp add: remap_column_def)

lemma length_remap_column [simp]: "length (remap_column stride live k rows) = length rows"
  by (simp add: remap_column_def)

lemma remap_fold:
  assumes "0 < stride" and "\<And>r. r < length rows \<Longrightarrow> 1 \<le> live ! (r div stride)"
    and "list_all (\<lambda>row. length row = K) rows" and "j \<le> K"
  shows "length (fold (remap_column stride live) [0..<j] rows) = length rows
    \<and> (\<forall>r < length rows. fold (remap_column stride live) [0..<j] rows ! r
        = (if live ! (r div stride) \<le> int (r mod stride) then take j (rows ! (r div stride * stride)) @ drop j (rows ! r) else rows ! r))"
  using assms(4)
proof (induction j)
  case 0
  then show ?case by simp
next
  case (Suc j)
  let ?f = "fold (remap_column stride live) [0..<j] rows"
  have IH: "length ?f = length rows" and nth: "\<And>r. r < length rows \<Longrightarrow> ?f ! r
        = (if live ! (r div stride) \<le> int (r mod stride) then take j (rows ! (r div stride * stride)) @ drop j (rows ! r) else rows ! r)"
    using Suc by auto
  have "remap_column stride live j ?f ! r
      = (if live ! (r div stride) \<le> int (r mod stride)
         then take (Suc j) (rows ! (r div stride * stride)) @ drop (Suc j) (rows ! r) else rows ! r)" if r: "r < length rows" for r
  proof (cases "live ! (r div stride) \<le> int (r mod stride)")
    case True
    let ?a = "r div stride * stride"
    have "?a \<le> r" by (rule div_times_less_eq_dividend)
    then have a: "?a < length rows" using r by (rule le_less_trans)
    have len: "length (rows ! ?a) = K" "length (rows ! r) = K" using assms(3) a r by (auto simp: list_all_length)
    have anchor: "?f ! ?a = rows ! ?a" using nth [OF a] assms(1) assms(2) [OF r] by simp
    have "(take j (rows ! ?a) @ drop j (rows ! r))[j := rows ! ?a ! j] = take (Suc j) (rows ! ?a) @ drop (Suc j) (rows ! r)"
      using len Suc.prems by (simp add: list_update_append take_Suc_conv_app_nth Cons_nth_drop_Suc [symmetric])
    then show ?thesis using True r nth [OF r] anchor by (simp add: remap_column_nth IH)
  next
    case False
    then show ?thesis using r nth [OF r] by (simp add: remap_column_nth IH)
  qed
  then show ?case by (simp add: IH)
qed

lemma remap_kernel_select:
  assumes "0 < stride" and "\<And>r. r < length rows \<Longrightarrow> 1 \<le> live ! (r div stride) \<and> r div stride < MAX_BS"
    and "list_all (\<lambda>row. length row = K) rows"
  shows "remap_kernel stride live K rows = map ((!) rows) (map (src_of stride live) [0..<length rows])"
proof (rule nth_equalityI)
  have f: "length (remap_kernel stride live K rows) = length rows"
    and nth: "\<And>r. r < length rows \<Longrightarrow> remap_kernel stride live K rows ! r
        = (if live ! (r div stride) \<le> int (r mod stride) then take K (rows ! (r div stride * stride)) @ drop K (rows ! r) else rows ! r)"
    unfolding remap_kernel_def using remap_fold [of stride rows live K K] assms by auto
  show "length (remap_kernel stride live K rows) = length (map ((!) rows) (map (src_of stride live) [0..<length rows]))"
    using f by simp
  fix r
  assume "r < length (remap_kernel stride live K rows)"
  then have r: "r < length rows" using f by simp
  have "r div stride * stride < length rows" using div_times_less_eq_dividend r by (rule le_less_trans)
  then have "length (rows ! (r div stride * stride)) = K" "length (rows ! r) = K" using assms(3) r by (auto simp: list_all_length)
  moreover have m: "min (r div stride) (MAX_BS - 1) = r div stride" using assms(2) [OF r] by (simp add: MAX_BS_def)
  ultimately show "remap_kernel stride live K rows ! r = map ((!) rows) (map (src_of stride live) [0..<length rows]) ! r"
    using nth [OF r] r m by (simp add: src_of_def row_dead_def)
qed

lemma cum_prod_take: "take j (cum_prod a xs) = cum_prod a (take j xs)"
  by (induction xs arbitrary: a j) (auto simp: Let_def take_Cons split: nat.splits)

lemma length_cum_prod [simp]: "length (cum_prod a xs) = length xs"
  by (induction xs arbitrary: a) (simp_all add: Let_def)

lemma leading_take: "take j bs = take j cs \<Longrightarrow> min j (leading bs) = min j (leading cs)"
proof (induction bs arbitrary: j cs)
  case Nil
  then show ?case by (cases cs; cases j) auto
next
  case (Cons b bs)
  then show ?case by (cases cs; cases j) auto
qed

section \<open>Reachable states\<close>

definition lens_ok :: "cap_cfg \<Rightarrow> int list \<Rightarrow> bool" where
  "lens_ok c b = list_all (\<lambda>x. 1 \<le> x \<and> x \<le> v_stride c) b"

text \<open>A block of at least one draft, a non-negative minimum, a fixed length inside the block.\<close>

definition cfg_ok :: "cap_cfg \<Rightarrow> bool" where
  "cfg_ok c = (1 \<le> v_stride c \<and> 0 \<le> v_kmin c \<and> (case v_fixed c of Some k \<Rightarrow> 0 \<le> k \<and> k < v_stride c | None \<Rightarrow> True))"

text \<open>A rank receives as many lengths as it sent, and lengths of the block (they are rank 0's, computed by the same code).\<close>

definition bc_ok :: "cap_cfg \<Rightarrow> (int list \<Rightarrow> int list) \<Rightarrow> bool" where
  "bc_ok c bc = (\<forall>xs. lens_ok c xs \<longrightarrow> length (bc xs) = length xs \<and> lens_ok c (bc xs))"

definition cap_inv :: "cap_cfg \<Rightarrow> cap_state \<Rightarrow> bool" where
  "cap_inv c st = (case s_live st of None \<Rightarrow> True | Some b \<Rightarrow> length b = MAX_BS \<and> lens_ok c b)"

text \<open>The adapter's operations in any order; a forward runs any of the other operations.\<close>

inductive cap_reach :: "cap_cfg \<Rightarrow> nat \<Rightarrow> (int list \<Rightarrow> int list) \<Rightarrow> cap_state \<Rightarrow> bool" for c world bc where
  reach_init: "cap_reach c world bc init_cap"
| reach_live: "cap_reach c world bc st \<Longrightarrow> cap_reach c world bc (fst (live_buf c capturing st))"
| reach_cutoff: "cap_reach c world bc st \<Longrightarrow> cap_reach c world bc (fst (accept_cutoff c capturing bs given st))"
| reach_keep: "cap_reach c world bc st \<Longrightarrow> cap_reach c world bc (keep_confidence c planner conf st)"
| reach_run: "cap_reach c world bc st \<Longrightarrow> cap_reach c world bc (fst (run_non_compact c world bc capturing bs st))"
| reach_remap: "cap_reach c world bc st
    \<Longrightarrow> cap_reach c world bc (fst (gate_wrapped c capturing triton experts topk (w :: rat list list, i) st))"
| reach_mark: "cap_reach c world bc st \<Longrightarrow> cap_reach c world bc (st\<lparr>s_src := src, s_in_verify := b\<rparr>)"

lemma live_buf_inv:
  assumes "cfg_ok c" and "cap_inv c st"
  shows "cap_inv c (fst (live_buf c capturing st))"
    and "snd (live_buf c capturing st) = Inr b \<Longrightarrow> length b = MAX_BS \<and> lens_ok c b"
    and "snd (live_buf c capturing st) = Inr b \<Longrightarrow> s_live (fst (live_buf c capturing st)) = Some b"
  using assms
  by (auto simp: live_buf_def cap_inv_def cfg_ok_def lens_ok_def list_all_iff Let_def split: option.splits if_splits)

lemma live_drafts_bounds:
  assumes "cfg_ok c"
  shows "0 \<le> live_drafts c t conf" and "live_drafts c t conf \<le> v_stride c - 1"
  using assms by (auto simp: live_drafts_def Let_def cfg_ok_def)

lemma lens_ok_append: "lens_ok c (xs @ ys) \<longleftrightarrow> lens_ok c xs \<and> lens_ok c ys"
  by (simp add: lens_ok_def)

lemma lens_ok_drop: "lens_ok c b \<Longrightarrow> lens_ok c (drop n b)"
  unfolding lens_ok_def list_all_iff by (meson in_set_dropD)

lemma lens_ok_take: "lens_ok c b \<Longrightarrow> lens_ok c (take n b)"
  unfolding lens_ok_def list_all_iff by (meson in_set_takeD)

lemma share_live_ok:
  assumes "bc_ok c bc" and "lens_ok c b"
  shows "lens_ok c (share_live world bc bs b)" and "length (share_live world bc bs b) = length b"
proof -
  have "length (bc (take bs b)) = length (take bs b) \<and> lens_ok c (bc (take bs b))"
    using assms(1) lens_ok_take [OF assms(2)] by (simp add: bc_ok_def)
  then show "lens_ok c (share_live world bc bs b)" and "length (share_live world bc bs b) = length b"
    using assms(2) lens_ok_drop [OF assms(2), of bs] by (auto simp: share_live_def lens_ok_append)
qed

lemma set_live_inv:
  assumes "cfg_ok c" and "bc_ok c bc" and "cap_inv c st"
  shows "cap_inv c (fst (set_live_from_confidence c world bc capturing conf bs st))"
proof (cases "v_thr c")
  case None
  then show ?thesis using assms(3) by (simp add: set_live_from_confidence_def)
next
  case (Some t)
  show ?thesis
  proof (cases conf)
    case None
    with Some show ?thesis using assms(3) by (simp add: set_live_from_confidence_def)
  next
    case (Some cf)
    obtain st1 r where lb: "live_buf c capturing st = (st1, r)" by (cases "live_buf c capturing st")
    note li = live_buf_inv [OF assms(1,3), of capturing, unfolded lb, simplified]
    show ?thesis
    proof (cases r)
      case (Inl e)
      then show ?thesis using li(1) \<open>v_thr c = Some t\<close> Some lb by (simp add: set_live_from_confidence_def)
    next
      case (Inr buf)
      define n where "n = min bs (length buf)"
      define k where "k = map (live_drafts c t) cf"
      define k' where "k' = (if length k = n then k else replicate n (hd k))"
      have b: "length buf = MAX_BS" "lens_ok c buf" using li(2) [OF Inr] by auto
      show ?thesis
      proof (cases "length k \<noteq> n \<and> length k \<noteq> 1")
        case True
        then show ?thesis using li(1) \<open>v_thr c = Some t\<close> Some lb Inr
          by (simp add: set_live_from_confidence_def Let_def n_def k_def)
      next
        case False
        have kk: "\<And>x. x \<in> set k \<Longrightarrow> 0 \<le> x \<and> x \<le> v_stride c - 1" using live_drafts_bounds [OF assms(1)] by (auto simp: k_def)
        have "\<And>x. x \<in> set k' \<Longrightarrow> 0 \<le> x \<and> x \<le> v_stride c - 1"
          using kk False by (cases k) (auto simp: k'_def split: if_splits)
        then have l1: "lens_ok c (map (\<lambda>x. x + 1) k')" unfolding lens_ok_def list_all_iff by fastforce
        have l2: "lens_ok c (map (\<lambda>x. x + 1) k' @ drop bs buf)" using l1 b(2) by (simp add: lens_ok_append lens_ok_drop)
        have len: "length (map (\<lambda>x. x + 1) k' @ drop bs buf) = MAX_BS" using b(1) by (auto simp: k'_def n_def)
        have "lens_ok c (share_live world bc bs (map (\<lambda>x. x + 1) k' @ drop bs buf))
            \<and> length (share_live world bc bs (map (\<lambda>x. x + 1) k' @ drop bs buf)) = MAX_BS"
          using share_live_ok [OF assms(2) l2, of world bs] len by simp
        moreover have "set_live_from_confidence c world bc capturing conf bs st
            = (st1\<lparr>s_live := Some (share_live world bc bs (map (\<lambda>x. x + 1) k' @ drop bs buf))\<rparr>, Inr ())"
          using False \<open>v_thr c = Some t\<close> Some lb Inr unfolding k'_def k_def n_def
          by (simp add: set_live_from_confidence_def Let_def)
        ultimately show ?thesis by (simp add: cap_inv_def)
      qed
    qed
  qed
qed

lemma src_rows_inv:
  assumes "cfg_ok c" and "cap_inv c st"
  shows "cap_inv c (fst (src_rows c capturing m st))"
  using live_buf_inv(1) [OF assms, of capturing] assms(2)
  by (auto simp: src_rows_def cap_inv_def Let_def split: option.splits prod.splits sum.splits if_splits)

lemma cap_reach_inv:
  assumes "cfg_ok c" and "bc_ok c bc" and "cap_reach c world bc st"
  shows "cap_inv c st"
  using assms(3)
proof induction
  case reach_init
  show ?case by (simp add: cap_inv_def init_cap_def)
next
  case (reach_live st capturing)
  then show ?case by (simp add: live_buf_inv(1) assms(1))
next
  case (reach_cutoff st capturing bs given)
  then show ?case using live_buf_inv(1) [OF assms(1), of st capturing]
    by (auto simp: accept_cutoff_def cutoff_def split: option.splits prod.splits)
next
  case (reach_keep st planner conf)
  then show ?case by (simp add: keep_confidence_def cap_inv_def)
next
  case (reach_run st capturing bs)
  then show ?case using set_live_inv [OF assms(1,2), of st world capturing "s_conf st" bs]
    by (auto simp: run_non_compact_def cap_inv_def split: prod.splits sum.splits if_splits)
next
  case (reach_remap st capturing triton experts topk w i)
  then show ?case using live_buf_inv(1) [OF assms(1), of st capturing] src_rows_inv [OF assms(1), of st capturing "length i"]
    by (auto simp: gate_wrapped_def remap_dead_rows_def Let_def split: prod.splits sum.splits)
next
  case (reach_mark st src b)
  then show ?case by (simp add: cap_inv_def)
qed

section \<open>Dead rows of a forward\<close>

text \<open>What the router rows of a verify forward should be: a live row keeps its own, a dead row has its anchor's.\<close>

definition routed :: "nat \<Rightarrow> int list \<Rightarrow> 'a list list \<Rightarrow> 'a list list" where
  "routed stride live rows =
     map (\<lambda>r. if int (r mod stride) < live ! (r div stride) then rows ! r else rows ! (r div stride * stride)) [0..<length rows]"

text \<open>The routers of a forward, one layer after the other; \<open>triton\<close> says which path the layer's tensors take.\<close>

fun run_layers :: "cap_cfg \<Rightarrow> bool \<Rightarrow> (bool \<times> rat list list \<times> nat list list) list \<Rightarrow> cap_state
    \<Rightarrow> cap_state \<times> (rat list list \<times> nat list list) list res" where
  "run_layers c capturing [] st = (st, Inr [])"
| "run_layers c capturing ((triton, original) # ls) st =
     (case gate_wrapped c capturing triton E_TARGET K_TARGET original st of
        (st, Inl e) \<Rightarrow> (st, Inl e)
      | (st, Inr out) \<Rightarrow> (case run_layers c capturing ls st of (st, r) \<Rightarrow> (st, bind_res r (\<lambda>outs. Inr (out # outs)))))"

text \<open>A layer of \<open>m\<close> router rows with \<open>K_TARGET\<close> experts each.\<close>

definition layer_ok :: "nat \<Rightarrow> bool \<times> rat list list \<times> nat list list \<Rightarrow> bool" where
  "layer_ok m l = (length (fst (snd l)) = m \<and> length (snd (snd l)) = m
     \<and> list_all (\<lambda>row. length row = K_TARGET) (fst (snd l)) \<and> list_all (\<lambda>row. length row = K_TARGET) (snd (snd l)))"

text \<open>The state of a verify forward between two layers.\<close>

definition verify_st :: "cap_cfg \<Rightarrow> int list \<Rightarrow> nat \<Rightarrow> cap_state \<Rightarrow> bool" where
  "verify_st c live m st = (s_live st = Some live \<and> s_in_verify st
     \<and> (case s_src st of None \<Rightarrow> True | Some src \<Rightarrow> src = map (src_of (nat (v_stride c)) live) [0..<m]))"

lemma select_routed:
  assumes "\<And>r. r < length rows \<Longrightarrow> r div stride < MAX_BS"
  shows "map ((!) rows) (map (src_of stride live) [0..<length rows]) = routed stride live rows"
proof (rule nth_equalityI)
  fix r
  assume "r < length (map ((!) rows) (map (src_of stride live) [0..<length rows]))"
  then have r: "r < length rows" by simp
  have "min (r div stride) (MAX_BS - 1) = r div stride" using assms [OF r] by (simp add: MAX_BS_def)
  then show "map ((!) rows) (map (src_of stride live) [0..<length rows]) ! r = routed stride live rows ! r"
    using r by (auto simp: routed_def src_of_def row_dead_def)
qed (simp add: routed_def)

lemma verify_row_bound:
  assumes "m mod s = 0" and "m div s \<le> MAX_BS" and "r < m"
  shows "r div s < (MAX_BS :: nat)"
proof -
  have "r < m div s * s" using assms(1,3) by auto
  then have "r div s < m div s" by (simp add: less_mult_imp_div_less)
  with assms(2) show ?thesis by simp
qed

lemma gate_layer:
  assumes "cfg_ok c" and "cap_inv c st" and "verify_st c live m st" and "layer_ok m (triton, w, i)" and "0 < m"
    and "m mod nat (v_stride c) = 0" and "m div nat (v_stride c) \<le> MAX_BS"
  shows "\<exists>st'. gate_wrapped c capturing triton E_TARGET K_TARGET (w, i) st
      = (st', Inr (routed (nat (v_stride c)) live w, routed (nat (v_stride c)) live i)) \<and> verify_st c live m st' \<and> cap_inv c st'"
proof -
  let ?s = "nat (v_stride c)"
  have len: "length w = m" "length i = m" "list_all (\<lambda>row. length row = K_TARGET) w" "list_all (\<lambda>row. length row = K_TARGET) i"
    using assms(4) by (simp_all add: layer_ok_def)
  have live: "s_live st = Some live" "s_in_verify st" using assms(3) by (simp_all add: verify_st_def)
  then have ok: "length live = MAX_BS" "lens_ok c live" using assms(2) by (simp_all add: cap_inv_def)
  have b: "r div ?s < MAX_BS" if "r < m" for r using verify_row_bound assms(6,7) that .
  then have l1: "1 \<le> live ! (r div ?s) \<and> r div ?s < MAX_BS" if "r < m" for r
    using that ok by (simp add: lens_ok_def list_all_length)
  have "0 < ?s" using assms(1) by (simp add: cfg_ok_def)
  note k = remap_kernel_select [OF this, of _ live K_TARGET]
  have kw: "remap_kernel ?s live K_TARGET w = routed ?s live w" using k [of w] select_routed [of w ?s live] l1 len b by simp
  have ki: "remap_kernel ?s live K_TARGET i = routed ?s live i" using k [of i] select_routed [of i ?s live] l1 len b by simp
  have lb: "live_buf c capturing st = (st, Inr live)" using live by (simp add: live_buf_def)
  have sw: "map (\<lambda>x. w ! src_of ?s live x) [0..<m] = routed ?s live w" using select_routed [of w ?s live] b len by (simp add: comp_def)
  have si: "map (\<lambda>x. i ! src_of ?s live x) [0..<m] = routed ?s live i" using select_routed [of i ?s live] b len by (simp add: comp_def)
  have gv: "gate_verify c st m E_TARGET K_TARGET" using live(2) assms(5-7) by (simp add: gate_verify_def)
  have "\<exists>st'. src_rows c capturing m st = (st', Inr (map (src_of ?s live) [0..<m])) \<and> verify_st c live m st' \<and> cap_inv c st'"
    using assms(2,3) lb by (cases "s_src st") (auto simp: src_rows_def verify_st_def Let_def cap_inv_def)
  then obtain st' where st': "src_rows c capturing m st = (st', Inr (map (src_of ?s live) [0..<m]))"
    and v: "verify_st c live m st'" "cap_inv c st'" by auto
  show ?thesis using gv st' v lb kw ki sw si len assms(2,3) by (auto simp: gate_wrapped_def remap_dead_rows_def Let_def comp_def)
qed

lemma run_layers_routed:
  assumes "cfg_ok c" and "0 < m" and "m mod nat (v_stride c) = 0" and "m div nat (v_stride c) \<le> MAX_BS"
    and "list_all (layer_ok m) ls" and "cap_inv c st" and "verify_st c live m st"
  shows "\<exists>st'. run_layers c capturing ls st
      = (st', Inr (map (\<lambda>(_, w, i). (routed (nat (v_stride c)) live w, routed (nat (v_stride c)) live i)) ls)) \<and> s_live st' = Some live"
  using assms(5-7)
proof (induction ls arbitrary: st)
  case Nil
  then show ?case by (simp add: verify_st_def)
next
  case (Cons l ls)
  obtain triton w i where l: "l = (triton, w, i)" by (cases l)
  have "layer_ok m (triton, w, i)" using Cons.prems(1) l by simp
  from gate_layer [OF assms(1) Cons.prems(2,3) this assms(2-4), of capturing] obtain st1 where
    g: "gate_wrapped c capturing triton E_TARGET K_TARGET (w, i) st
      = (st1, Inr (routed (nat (v_stride c)) live w, routed (nat (v_stride c)) live i))"
    and v: "verify_st c live m st1" "cap_inv c st1" by auto
  from Cons.IH [OF _ v(2,1)] Cons.prems(1) obtain st' where
    "run_layers c capturing ls st1
      = (st', Inr (map (\<lambda>(_, w, i). (routed (nat (v_stride c)) live w, routed (nat (v_stride c)) live i)) ls))" "s_live st' = Some live"
    by auto
  with g l show ?case by simp
qed

lemma live_drafts_iff:
  "int i < live_drafts c t conf \<longleftrightarrow>
     int i < v_stride c - 1 \<and> (int i < v_kmin c
       \<or> Suc i \<le> leading (map (\<lambda>(a, b). b \<le> a) (zip (cum_prod 1 (map clamp01 conf)) (thresholds t (length conf)))))"
  by (auto simp: live_drafts_def Let_def)

text \<open>The confidence policy is a stopping rule. Whether draft \<open>i\<close> of a request is verified depends on the confidences up to
  position \<open>i\<close> only (which the head computes from the drafts before \<open>i\<close>), never on a later one.\<close>

lemma live_length_stopping_rule:
  assumes "take (Suc i) conf = take (Suc i) conf'" and "length conf = length conf'"
  shows "int i < live_drafts c t conf \<longleftrightarrow> int i < live_drafts c t conf'"
proof -
  let ?b = "\<lambda>conf. map (\<lambda>(a, b). b \<le> a) (zip (cum_prod 1 (map clamp01 conf)) (thresholds t (length conf)))"
  have "take (Suc i) (?b conf) = take (Suc i) (?b conf')"
    using assms by (simp add: take_map take_zip cum_prod_take)
  from leading_take [OF this] have "Suc i \<le> leading (?b conf) \<longleftrightarrow> Suc i \<le> leading (?b conf')"
    by (metis min.absorb_iff1)
  then show ?thesis by (simp add: live_drafts_iff)
qed

section \<open>Properties\<close>

text \<open>C19: in every state the adapter's operations can reach, under a legal policy, the cutoff of a batch is one length per request
  between 1 (the anchor) and the rows of the block, and block verification under it never accepts more drafts
  than were verified.\<close>

theorem live_lengths_valid:
  assumes "cfg_ok c" and "v_enabled c" and "bc_ok c bc" and "cap_reach c world bc st"
  shows "\<exists>st' lens. cutoff c False bs st = (st', Inr (Some lens)) \<and> length lens = min bs MAX_BS
    \<and> (\<forall>j < length lens. 1 \<le> lens ! j \<and> lens ! j \<le> v_stride c
        \<and> (\<forall>X tp dp eta gumbel tau tok.
             block_accept_probs X tp dp eta gumbel (Some (nat (lens ! j) - 1)) = Inr (tau, tok) \<longrightarrow> int tau < lens ! j))"
proof -
  have inv: "cap_inv c st" using cap_reach_inv assms(1,3,4) .
  obtain st' r where lb: "live_buf c False st = (st', r)" by (cases "live_buf c False st")
  then obtain b where r: "r = Inr b" by (auto simp: live_buf_def Let_def split: option.splits)
  have b: "length b = MAX_BS" "lens_ok c b" using live_buf_inv(2) [OF assms(1) inv, of False b] lb r by auto
  have lens: "1 \<le> take bs b ! j \<and> take bs b ! j \<le> v_stride c" if "j < length (take bs b)" for j
    using that b by (auto simp: lens_ok_def list_all_length)
  have tau: "int tau < l" if "block_accept_probs X tp dp eta gumbel (Some (nat l - 1)) = Inr (tau, tok)" "1 \<le> l"
    for X tp dp eta gumbel l tau tok
    using that accept_tau_le [of X tp dp eta gumbel "nat l - 1" tau tok] by linarith
  show ?thesis using lb r b lens tau assms(2) by (auto simp: cutoff_def)
qed

definition wit_cfg :: cap_cfg where
  "wit_cfg = \<lparr>v_enabled = True, v_stride = 3, v_kmin = 1, v_fixed = None, v_thr = Some (Uniform (1/2))\<rparr>"

theorem live_lengths_valid_witness:
  "\<exists>lens. cutoff wit_cfg False 2
       (fst (run_non_compact wit_cfg 1 id False 2 (keep_confidence wit_cfg True (Some [[1/4, 1], [3/4, 3/4]]) init_cap)))
     = (fst (run_non_compact wit_cfg 1 id False 2 (keep_confidence wit_cfg True (Some [[1/4, 1], [3/4, 3/4]]) init_cap)),
        Inr (Some lens)) \<and> lens = [2, 3]"
proof -
  let ?st = "fst (run_non_compact wit_cfg 1 id False 2 (keep_confidence wit_cfg True (Some [[1/4, 1], [3/4, 3/4]]) init_cap))"
  have "cap_reach wit_cfg 1 id ?st" by (intro reach_run reach_keep reach_init)
  moreover have "cfg_ok wit_cfg" "v_enabled wit_cfg" by (simp_all add: cfg_ok_def wit_cfg_def)
  moreover have "bc_ok wit_cfg id" by (simp add: bc_ok_def)
  ultimately obtain st' lens where 1: "cutoff wit_cfg False 2 ?st = (st', Inr (Some lens))" "length lens = min 2 MAX_BS"
    using live_lengths_valid [of wit_cfg id 1 ?st 2] by blast
  have "take 2 (case s_live ?st of Some b \<Rightarrow> b | None \<Rightarrow> []) = [2, 3]" "s_live ?st \<noteq> None" by code_simp+
  with 1 show ?thesis by (auto simp: cutoff_def live_buf_def wit_cfg_def split: option.splits)
qed

text \<open>C20: in a verify forward, whatever the layers' tensors (the in-place kernel or the index select with its cached source rows),
  every layer's router gives a live row its own experts and weights and a dead row those of its request's anchor.\<close>

theorem dead_rows_take_anchor:
  assumes "cfg_ok c" and "bc_ok c bc" and "cap_reach c world bc st" and "s_live st = Some live"
    and "0 < m" and "m mod nat (v_stride c) = 0" and "m div nat (v_stride c) \<le> MAX_BS" and "list_all (layer_ok m) ls"
  shows "snd (model_forward c capturing True True (run_layers c capturing ls) st)
    = Inr (map (\<lambda>(_, w, i). (routed (nat (v_stride c)) live w, routed (nat (v_stride c)) live i)) ls)"
proof -
  let ?st = "st\<lparr>s_src := None, s_in_verify := True\<rparr>"
  have inv: "cap_inv c ?st" using cap_reach_inv [OF assms(1-3)] by (simp add: cap_inv_def)
  have "verify_st c live m ?st" using assms(4) by (simp add: verify_st_def)
  from run_layers_routed [OF assms(1,5-8) inv this, of capturing] show ?thesis
    using assms(4) by (auto simp: model_forward_def)
qed

theorem dead_rows_take_anchor_witness:
  "snd (model_forward wit_cfg False True True
      (run_layers wit_cfg False
         [(True, map (\<lambda>r. replicate 6 r) [0, 1, 2], map (\<lambda>r. [r ..< r + 6]) [10, 20, 30]),
          (False, map (\<lambda>r. replicate 6 r) [3, 4, 5], map (\<lambda>r. [r ..< r + 6]) [40, 50, 60])])
      (fst (run_non_compact wit_cfg 1 id False 1 (keep_confidence wit_cfg True (Some [[1/4, 1]]) init_cap))))
   = Inr [(map (\<lambda>r. replicate 6 r) [0, 1, 0], map (\<lambda>r. [r ..< r + 6]) [10, 20, 10]),
          (map (\<lambda>r. replicate 6 r) [3, 4, 3], map (\<lambda>r. [r ..< r + 6]) [40, 50, 40])]"
proof -
  let ?st = "fst (run_non_compact wit_cfg 1 id False 1 (keep_confidence wit_cfg True (Some [[1/4, 1]]) init_cap))"
  have reach: "cap_reach wit_cfg 1 id ?st" by (intro reach_run reach_keep reach_init)
  have live: "s_live ?st = Some (2 # replicate 63 3)" by code_simp
  have cfg: "cfg_ok wit_cfg" "bc_ok wit_cfg id" by (simp_all add: cfg_ok_def wit_cfg_def bc_ok_def)
  let ?ls = "[(True, map (\<lambda>r. replicate 6 r) [0 :: rat, 1, 2], map (\<lambda>r. [r ..< r + 6]) [10, 20, 30]),
    (False, map (\<lambda>r. replicate 6 r) [3, 4, 5], map (\<lambda>r. [r ..< r + 6]) [40, 50, 60])]"
  have m: "0 < (3 :: nat)" "3 mod nat (v_stride wit_cfg) = 0" "3 div nat (v_stride wit_cfg) \<le> MAX_BS" "list_all (layer_ok 3) ?ls"
    by code_simp+
  have out: "map (\<lambda>(_, w, i). (routed (nat (v_stride wit_cfg)) (2 # replicate 63 3) w, routed (nat (v_stride wit_cfg)) (2 # replicate 63 3) i)) ?ls
    = [(map (\<lambda>r. replicate 6 r) [0, 1, 0], map (\<lambda>r. [r ..< r + 6]) [10, 20, 10]),
       (map (\<lambda>r. replicate 6 r) [3, 4, 3], map (\<lambda>r. [r ..< r + 6]) [40, 50, 40])]"
    by code_simp
  show ?thesis unfolding dead_rows_take_anchor [OF cfg reach live m] out ..
qed

end
