(* ===== verification/Block_Law.thy ===== *)
theory Block_Law
  imports Verify_Cap
begin

text \<open>
  The law of what block verification publishes (\<open>adapter/block_verify.py\<close> with the live lengths of
  \<open>adapter/verify_cap.py\<close>): whatever stopping rule ends the verified block, the accepted drafts and the
  correction token have the target's distribution. The proof follows the chain of drafts; a block of fixed length is
  the stopping rule that looks at the length alone, the confidence policy is one that looks at the drafts.
\<close>

section \<open>Means over drafted chains\<close>

text \<open>The mean of \<open>F\<close> over \<open>n\<close> further tokens drafted after \<open>u\<close>, and over a chain that ends where \<open>stop\<close> says.\<close>

fun draft_mean :: "nat \<Rightarrow> lm \<Rightarrow> nat \<Rightarrow> nat list \<Rightarrow> (nat list \<Rightarrow> rat) \<Rightarrow> rat" where
  "draft_mean V q 0 u F = F u"
| "draft_mean V q (Suc n) u F = (\<Sum>x<V. q u ! x * draft_mean V q n (u @ [x]) F)"

lemma draft_mean_cong:
  "(\<And>Y. length Y = n \<Longrightarrow> F (u @ Y) = F' (u @ Y)) \<Longrightarrow> draft_mean V q n u F = draft_mean V q n u F'"
proof (induction n arbitrary: u)
  case 0
  from 0 [of "[]"] show ?case by simp
next
  case (Suc n)
  have "draft_mean V q n (u @ [x]) F = draft_mean V q n (u @ [x]) F'" for x
    by (rule Suc.IH) (use Suc.prems [of "x # _"] in simp)
  then show ?case by simp
qed

lemma draft_mean_mult: "draft_mean V q n u (\<lambda>X. c * F X) = c * draft_mean V q n u F"
  by (induction n arbitrary: u) (simp_all add: sum_distrib_left algebra_simps)

lemma draft_mean_add: "draft_mean V q n u (\<lambda>X. F X + G X) = draft_mean V q n u F + draft_mean V q n u G"
  by (induction n arbitrary: u) (simp_all add: sum.distrib algebra_simps)

lemma draft_mean_0: "draft_mean V q n u (\<lambda>X. 0) = 0"
  by (induction n arbitrary: u) simp_all

fun chain_mean :: "nat \<Rightarrow> lm \<Rightarrow> (nat list \<Rightarrow> bool) \<Rightarrow> nat \<Rightarrow> nat list \<Rightarrow> (nat list \<Rightarrow> rat) \<Rightarrow> rat" where
  "chain_mean V q stop 0 u F = F u"
| "chain_mean V q stop (Suc n) u F = (if stop u then F u else \<Sum>x<V. q u ! x * chain_mean V q stop n (u @ [x]) F)"

lemma chain_mean_cong:
  "(\<And>Y. length Y \<le> n \<Longrightarrow> F (u @ Y) = F' (u @ Y)) \<Longrightarrow> chain_mean V q stop n u F = chain_mean V q stop n u F'"
proof (induction n arbitrary: u)
  case 0
  from 0 [of "[]"] show ?case by simp
next
  case (Suc n)
  have "chain_mean V q stop n (u @ [x]) F = chain_mean V q stop n (u @ [x]) F'" for x
    by (rule Suc.IH) (use Suc.prems [of "x # _"] in simp)
  then show ?case using Suc.prems [of "[]"] by simp
qed

lemma chain_mean_mult: "chain_mean V q stop n u (\<lambda>X. c * F X) = c * chain_mean V q stop n u F"
  by (induction n arbitrary: u) (simp_all add: sum_distrib_left algebra_simps)

lemma chain_mean_add: "chain_mean V q stop n u (\<lambda>X. F X + G X) = chain_mean V q stop n u F + chain_mean V q stop n u G"
  by (induction n arbitrary: u) (simp_all add: sum.distrib algebra_simps)

lemma chain_mean_0: "chain_mean V q stop n u (\<lambda>X. 0) = 0"
  by (induction n arbitrary: u) simp_all

definition is_lm :: "nat \<Rightarrow> lm \<Rightarrow> bool" where
  "is_lm V p = (\<forall>u. length (p u) = V \<and> (\<forall>x<V. 0 \<le> p u ! x) \<and> (\<Sum>x<V. p u ! x) = 1)"

text \<open>The probabilities and weights of the block are zero or above the floor.\<close>

definition above_floor :: "nat \<Rightarrow> lm \<Rightarrow> lm \<Rightarrow> nat \<Rightarrow> bool" where
  "above_floor V p q g =
     ((\<forall>u. \<forall>x<V. q u ! x = 0 \<or> eps_floor \<le> q u ! x)
      \<and> (\<forall>u. set u \<subseteq> {..<V} \<and> length u \<le> g \<longrightarrow> W p q u = 0 \<or> eps_floor \<le> W p q u)
      \<and> (\<forall>u. set u \<subseteq> {..<V} \<and> length u < g \<longrightarrow> S p q u = 0 \<or> eps_floor \<le> S p q u))"

lemma W_bounds: "is_lm V p \<Longrightarrow> set u \<subseteq> {..<V} \<Longrightarrow> 0 \<le> W p q u \<and> W p q u \<le> 1"
proof (induction u rule: rev_induct)
  case (snoc x u)
  then have "0 \<le> p u ! x" and "0 \<le> W p q u" by (auto simp: is_lm_def)
  moreover have "0 < max (q u ! x) eps_floor" using eps_floor_pos by (simp add: less_max_iff_disj)
  ultimately show ?case by (simp add: W_snoc)
qed (simp add: W_Nil)

lemma S_sum:
  assumes "is_lm V p" and "is_lm V q"
  shows "S p q u = (\<Sum>x<V. max (W p q u * p u ! x - q u ! x) 0)"
  using assms by (simp add: S_def surplus_def sum_list_sum_nth is_lm_def atLeast0LessThan)

text \<open>The part of a token's target mass that drafting covers.\<close>

lemma covered:
  assumes "is_lm V p" and "is_lm V q" and "set u \<subseteq> {..<V}" and "x < V" and "q u ! x = 0 \<or> eps_floor \<le> q u ! x"
  shows "q u ! x * W p q (u @ [x]) = min (W p q u * p u ! x) (q u ! x)"
proof (cases "q u ! x = 0")
  case True
  have "0 \<le> p u ! x" using assms(1,4) by (simp add: is_lm_def)
  then have "0 \<le> W p q u * p u ! x" using W_bounds [OF assms(1,3), of q] by simp
  with True show ?thesis by (simp add: min_absorb2)
next
  case False
  then have f: "eps_floor \<le> q u ! x" "0 < q u ! x" using assms(5) eps_floor_pos by auto
  then have "q u ! x * W p q (u @ [x]) = min (q u ! x * (W p q u * (p u ! x / q u ! x))) (q u ! x)"
    by (simp add: W_snoc max_def min_mult_distrib_left)
  then show ?thesis using f by simp
qed

lemma S_covered:
  assumes "is_lm V p" and "is_lm V q"
  shows "S p q u + (\<Sum>x<V. min (W p q u * p u ! x) (q u ! x)) = W p q u"
proof -
  have "S p q u + (\<Sum>x<V. min (W p q u * p u ! x) (q u ! x)) = (\<Sum>x<V. W p q u * p u ! x)"
    unfolding S_sum [OF assms] sum.distrib [symmetric] by (intro sum.cong) (auto simp: max_def min_def)
  also have "\<dots> = W p q u" using assms(1) by (simp add: is_lm_def flip: sum_distrib_left)
  finally show ?thesis .
qed

lemma draft_mean_const:
  assumes "is_lm V q"
  shows "draft_mean V q n u (\<lambda>X. c) = c"
  using assms by (induction n arbitrary: u) (simp_all add: is_lm_def flip: sum_distrib_right)

text \<open>A stopping rule cuts a drafted chain of \<open>g\<close> tokens at \<open>k X\<close>.\<close>

definition cuts_at :: "(nat list \<Rightarrow> bool) \<Rightarrow> nat \<Rightarrow> (nat list \<Rightarrow> nat) \<Rightarrow> bool" where
  "cuts_at stop g k = (\<forall>X. length X = g \<longrightarrow> k X \<le> g \<and> (\<forall>i\<le>g. stop (take i X) = (k X \<le> i)))"

lemma cuts_atD: "cuts_at stop g k \<Longrightarrow> length X = g \<Longrightarrow> i \<le> g \<Longrightarrow> stop (take i X) = (k X \<le> i)"
  by (simp add: cuts_at_def)

lemma cuts_at_le: "cuts_at stop g k \<Longrightarrow> length X = g \<Longrightarrow> k X \<le> g"
  by (simp add: cuts_at_def)

lemma cuts_at_stop: "cuts_at stop g k \<Longrightarrow> length u = g \<Longrightarrow> stop u"
  using cuts_atD [of stop g k u g] cuts_at_le [of stop g k u] by simp

lemma chain_mean_cut:
  assumes "is_lm V q" and "cuts_at stop g k"
  shows "length u + n = g \<Longrightarrow> (\<And>j. j < length u \<Longrightarrow> \<not> stop (take j u))
    \<Longrightarrow> chain_mean V q stop n u F = draft_mean V q n u (\<lambda>X. F (take (k X) X))"
proof (induction n arbitrary: u)
  case 0
  have "k u \<le> g" using cuts_at_le [OF assms(2)] 0(1) by simp
  moreover have "\<not> k u < g"
  proof
    assume "k u < g"
    then have "stop (take (k u) u)" using cuts_atD [OF assms(2), of u "k u"] 0(1) by simp
    then show False using 0(2) [of "k u"] \<open>k u < g\<close> 0(1) by simp
  qed
  ultimately show ?case using 0(1) by simp
next
  case (Suc n)
  show ?case
  proof (cases "stop u")
    case True
    have "k (u @ Y) = length u" if "length Y = Suc n" for Y
    proof -
      have g: "length (u @ Y) = g" using Suc.prems(1) that by simp
      have "stop (take (length u) (u @ Y))" using True by simp
      then have "k (u @ Y) \<le> length u" using cuts_atD [OF assms(2) g, of "length u"] Suc.prems(1) by simp
      moreover have "\<not> k (u @ Y) < length u"
      proof
        assume lt: "k (u @ Y) < length u"
        then have "stop (take (k (u @ Y)) (u @ Y))" using cuts_atD [OF assms(2) g, of "k (u @ Y)"] Suc.prems(1) by simp
        then show False using Suc.prems(2) [OF lt] lt by simp
      qed
      ultimately show ?thesis by simp
    qed
    then have "draft_mean V q (Suc n) u (\<lambda>X. F (take (k X) X)) = draft_mean V q (Suc n) u (\<lambda>X. F u)"
      by (intro draft_mean_cong) simp
    then show ?thesis using True draft_mean_const [OF assms(1), of "Suc n" u "F u"] by simp
  next
    case False
    have "chain_mean V q stop n (u @ [x]) F = draft_mean V q n (u @ [x]) (\<lambda>X. F (take (k X) X))" for x
    proof (rule Suc.IH)
      fix j
      assume "j < length (u @ [x])"
      then show "\<not> stop (take j (u @ [x]))" using Suc.prems(2) [of j] False by (cases "j < length u") (auto simp: less_Suc_eq)
    qed (use Suc.prems(1) in simp)
    then show ?thesis using False by simp
  qed
qed

section \<open>Losslessness of a stopping rule\<close>

text \<open>No draft after \<open>u\<close> is accepted; \<open>n\<close> drafts are left.\<close>

definition none_after :: "nat \<Rightarrow> lm \<Rightarrow> lm \<Rightarrow> (nat list \<Rightarrow> bool) \<Rightarrow> nat \<Rightarrow> nat list \<Rightarrow> rat" where
  "none_after V p q stop n u = chain_mean V q stop n u (\<lambda>X. \<Prod>j\<in>{length u<..length X}. 1 - H p q stop (take j X))"

lemma none_after_step:
  assumes "\<not> stop u"
  shows "none_after V p q stop (Suc n) u = (\<Sum>x<V. q u ! x * ((1 - H p q stop (u @ [x])) * none_after V p q stop n (u @ [x])))"
proof -
  have "chain_mean V q stop n (u @ [x]) (\<lambda>X. \<Prod>j\<in>{length u<..length X}. 1 - H p q stop (take j X))
      = (1 - H p q stop (u @ [x])) * none_after V p q stop n (u @ [x])" for x
  proof -
    have "chain_mean V q stop n (u @ [x]) (\<lambda>X. \<Prod>j\<in>{length u<..length X}. 1 - H p q stop (take j X))
        = chain_mean V q stop n (u @ [x])
            (\<lambda>X. (1 - H p q stop (u @ [x])) * (\<Prod>j\<in>{Suc (length u)<..length X}. 1 - H p q stop (take j X)))"
    proof (rule chain_mean_cong)
      fix Y
      have "{length u<..length ((u @ [x]) @ Y)} = insert (Suc (length u)) {Suc (length u)<..length ((u @ [x]) @ Y)}" by auto
      then show "(\<Prod>j\<in>{length u<..length ((u @ [x]) @ Y)}. 1 - H p q stop (take j ((u @ [x]) @ Y)))
          = (1 - H p q stop (u @ [x])) * (\<Prod>j\<in>{Suc (length u)<..length ((u @ [x]) @ Y)}. 1 - H p q stop (take j ((u @ [x]) @ Y)))"
        by (simp only: prod.insert finite_greaterThanAtMost greaterThanAtMost_iff less_irrefl simp_thms) simp
    qed
    then show ?thesis by (simp add: chain_mean_mult none_after_def)
  qed
  then show ?thesis using assms by (simp add: none_after_def)
qed

lemma S_nonneg: "is_lm V p \<Longrightarrow> is_lm V q \<Longrightarrow> 0 \<le> S p q u"
  by (simp add: S_sum sum_nonneg)

lemma threshold:
  assumes "is_lm V p" and "is_lm V q" and "set u \<subseteq> {..<V}" and "above_floor V p q g" and "length u < g" and "\<not> stop u"
  shows "H p q stop u * (S p q u + (1 - W p q u)) = S p q u"
proof (cases "S p q u = 0")
  case True
  then show ?thesis using assms(6) by (simp add: H_def)
next
  case False
  then have "eps_floor \<le> S p q u" using assms(3-5) by (auto simp: above_floor_def)
  moreover have "W p q u \<le> 1" using W_bounds [OF assms(1,3)] by simp
  ultimately have "eps_floor \<le> S p q u + (1 - W p q u)" by simp
  then show ?thesis using assms(6) eps_floor_pos by (simp add: H_def max_def)
qed

lemma none_after_mass:
  assumes "is_lm V p" and "is_lm V q" and "above_floor V p q g" and "\<And>u. length u = g \<Longrightarrow> stop u"
  shows "set u \<subseteq> {..<V} \<Longrightarrow> length u + n = g \<Longrightarrow>
    (1 - H p q stop u) * none_after V p q stop n u = 1 - W p q u
    \<and> (\<not> stop u \<longrightarrow> none_after V p q stop n u = S p q u + (1 - W p q u))"
proof (induction n arbitrary: u)
  case 0
  then show ?case using assms(4) [of u] by (simp add: none_after_def H_def)
next
  case (Suc n)
  show ?case
  proof (cases "stop u")
    case True
    then show ?thesis by (simp add: none_after_def H_def)
  next
    case go: False
    have "none_after V p q stop (Suc n) u = (\<Sum>x<V. q u ! x * (1 - W p q (u @ [x])))"
      unfolding none_after_step [of stop u, OF go] using Suc.IH Suc.prems by (intro sum.cong) auto
    also have "\<dots> = (\<Sum>x<V. q u ! x) - (\<Sum>x<V. q u ! x * W p q (u @ [x]))"
      by (simp add: algebra_simps sum_subtractf)
    also have "(\<Sum>x<V. q u ! x * W p q (u @ [x])) = (\<Sum>x<V. min (W p q u * p u ! x) (q u ! x))"
      using covered [OF assms(1,2) Suc.prems(1)] assms(3) by (intro sum.cong) (auto simp: above_floor_def)
    also have "(\<Sum>x<V. q u ! x) = 1" using assms(2) by (simp add: is_lm_def)
    finally have mass: "none_after V p q stop (Suc n) u = S p q u + (1 - W p q u)"
      using S_covered [OF assms(1,2), of u] by simp
    have "length u < g" using Suc.prems(2) by simp
    then show ?thesis
      unfolding mass using threshold [where stop = stop, OF assms(1,2) Suc.prems(1) assms(3) _ go] by (simp add: algebra_simps)
  qed
qed

text \<open>The target probability of the tokens of \<open>z\<close> from position \<open>i\<close> to \<open>g\<close>.\<close>

definition tail_prob :: "lm \<Rightarrow> nat \<Rightarrow> nat list \<Rightarrow> nat \<Rightarrow> rat" where
  "tail_prob p g z i = (\<Prod>l\<in>{i..g}. p (take l z) ! (z ! l))"

lemma tail_prob_step: "i \<le> g \<Longrightarrow> tail_prob p g z i = p (take i z) ! (z ! i) * tail_prob p g z (Suc i)"
  by (simp add: tail_prob_def atLeastAtMost_insertL [symmetric] flip: atLeastAtMost_insertL)

text \<open>The probability that the accepted drafts and the correction, continued by the target, spell \<open>z\<close>, given a drafted
  chain that starts with \<open>u\<close> and that at least \<open>length u\<close> drafts are considered.\<close>

definition spell_term :: "lm \<Rightarrow> lm \<Rightarrow> (nat list \<Rightarrow> bool) \<Rightarrow> nat \<Rightarrow> nat list \<Rightarrow> nat list \<Rightarrow> nat \<Rightarrow> rat" where
  "spell_term p q stop g z X j =
     (if j = 0 then 1 else H p q stop (take j X)) * (\<Prod>l\<in>{j<..length X}. 1 - H p q stop (take l X))
     * (if take j X = take j z then Cd p q stop (take j X) ! (z ! j) * tail_prob p g z (Suc j) else 0)"

definition spells :: "nat \<Rightarrow> lm \<Rightarrow> lm \<Rightarrow> (nat list \<Rightarrow> bool) \<Rightarrow> nat \<Rightarrow> nat list \<Rightarrow> nat \<Rightarrow> nat list \<Rightarrow> rat" where
  "spells V p q stop g z n u = chain_mean V q stop n u (\<lambda>X. \<Sum>j\<in>{length u..length X}. spell_term p q stop g z X j)"

lemma spells_other:
  assumes "u \<noteq> take (length u) z"
  shows "spells V p q stop g z n u = 0"
proof -
  have "spells V p q stop g z n u = chain_mean V q stop n u (\<lambda>X. 0)"
    unfolding spells_def
  proof (rule chain_mean_cong)
    fix Y
    have "take j (u @ Y) \<noteq> take j z" if "length u \<le> j" for j
      using assms that by (metis append_eq_conv_conj take_all_iff take_append take_take min.absorb1)
    then show "(\<Sum>j\<in>{length u..length (u @ Y)}. spell_term p q stop g z (u @ Y) j) = 0" by (simp add: spell_term_def)
  qed
  then show ?thesis by (simp add: chain_mean_0)
qed

lemma Cd_mass:
  assumes "is_lm V p" and "is_lm V q" and "above_floor V p q g" and "length u < g" and "\<not> stop u" and "y < V" and "set u \<subseteq> {..<V}"
  shows "S p q u * Cd p q stop u ! y = max (W p q u * p u ! y - q u ! y) 0"
proof -
  have len: "length (p u) = V" "length (q u) = V" using assms(1,2) by (auto simp: is_lm_def)
  have nth: "surplus (W p q u) (p u) (q u) ! y = max (W p q u * p u ! y - q u ! y) 0"
    using assms(6) len by (simp add: surplus_def)
  show ?thesis
  proof (cases "S p q u = 0")
    case True
    then have "\<forall>x\<in>{..<V}. max (W p q u * p u ! x - q u ! x) 0 = 0"
      unfolding S_sum [OF assms(1,2)] by (subst (asm) sum_nonneg_eq_0_iff) auto
    with True assms(6) show ?thesis by simp
  next
    case False
    then have f: "eps_floor \<le> S p q u" "0 < S p q u" using assms(3,4,7) eps_floor_pos by (auto simp: above_floor_def)
    then have "Cd p q stop u ! y = surplus (W p q u) (p u) (q u) ! y / S p q u"
      using assms(5,6) len unfolding Cd_def Let_def S_def by (simp add: surplus_def max_def)
    then show ?thesis using f nth by simp
  qed
qed

lemma Cd_last:
  assumes "is_lm V p" and "above_floor V p q g" and "length u \<le> g" and "stop u" and "set u \<subseteq> {..<V}" and "y < V"
  shows "W p q u * Cd p q stop u ! y = W p q u * p u ! y"
proof (cases "W p q u = 0")
  case False
  then have f: "eps_floor \<le> W p q u" "0 < W p q u" using assms(2,3,5) eps_floor_pos by (auto simp: above_floor_def)
  have len: "length (p u) = V" "\<forall>x<V. 0 \<le> p u ! x" "(\<Sum>x<V. p u ! x) = 1" using assms(1) by (auto simp: is_lm_def)
  have res: "surplus (W p q u) (p u) (map (\<lambda>_. 0) (p u)) = map (\<lambda>a. W p q u * a) (p u)"
    using f len by (intro nth_equalityI) (simp_all add: surplus_def max_absorb1)
  have "sum_list (map (\<lambda>a. W p q u * a) (p u)) = W p q u"
    using len by (simp add: sum_list_sum_nth atLeast0LessThan sum_distrib_left [symmetric])
  then have "Cd p q stop u ! y = p u ! y"
    using f assms(4,6) len unfolding Cd_def Let_def by (simp add: res max_def)
  then show ?thesis by simp
qed simp

lemma spells_stop:
  assumes "is_lm V p" and "above_floor V p q g" and "set z \<subseteq> {..<V}" and "length z = Suc g" and "i \<le> g" and "stop (take i z)"
  shows "spell_term p q stop g z (take i z) i = W p q (take i z) * tail_prob p g z i"
proof -
  let ?u = "take i z"
  have u: "length ?u = i" "set ?u \<subseteq> {..<V}" using assms(3-5) set_take_subset [of i z] by auto
  have "z ! i \<in> set z" using assms(4,5) by (intro nth_mem) simp
  then have y: "z ! i < V" using assms(3) by auto
  have c: "(if i = 0 then 1 else H p q stop ?u) = W p q ?u" using assms(6) by (auto simp: H_def W_Nil)
  have "spell_term p q stop g z ?u i = (if i = 0 then 1 else H p q stop ?u) * (Cd p q stop ?u ! (z ! i) * tail_prob p g z (Suc i))"
    using u(1) by (simp add: spell_term_def)
  also have "\<dots> = W p q ?u * Cd p q stop ?u ! (z ! i) * tail_prob p g z (Suc i)" unfolding c by simp
  also have "\<dots> = W p q ?u * p ?u ! (z ! i) * tail_prob p g z (Suc i)"
    using Cd_last [where stop = stop, OF assms(1,2) _ assms(6) u(2) y] u(1) assms(5) by simp
  finally show ?thesis using tail_prob_step [OF assms(5), of p z] by simp
qed

text \<open>The correction right after \<open>u\<close>, and the chains that go on with the next token of \<open>z\<close>.\<close>

lemma spells_first:
  assumes "is_lm V p" and "is_lm V q" and "above_floor V p q g" and "\<And>u. length u = g \<Longrightarrow> stop u"
    and "set (take i z) \<subseteq> {..<V}" and "length (take i z) = i \<and> i + Suc n = g" and "\<not> stop (take i z)"
  shows "chain_mean V q stop (Suc n) (take i z) (\<lambda>X. spell_term p q stop g z X i)
    = S p q (take i z) * (Cd p q stop (take i z) ! (z ! i) * tail_prob p g z (Suc i))"
proof -
  let ?u = "take i z" and ?K = "Cd p q stop (take i z) ! (z ! i) * tail_prob p g z (Suc i)"
  let ?c = "if i = 0 then 1 else H p q stop ?u"
  have u: "length ?u = i" "length ?u < g" using assms(6) by simp_all
  have "chain_mean V q stop (Suc n) ?u (\<lambda>X. spell_term p q stop g z X i)
      = chain_mean V q stop (Suc n) ?u (\<lambda>X. (?c * ?K) * (\<Prod>l\<in>{length ?u<..length X}. 1 - H p q stop (take l X)))"
    by (rule chain_mean_cong) (use u in \<open>simp add: spell_term_def\<close>)
  also have "\<dots> = (?c * none_after V p q stop (Suc n) ?u) * ?K"
    unfolding chain_mean_mult none_after_def by (simp add: algebra_simps)
  also have "?c * none_after V p q stop (Suc n) ?u = S p q ?u"
    using none_after_mass [where stop = stop and n = "Suc n", OF assms(1-4) assms(5)] assms(6,7)
      threshold [where stop = stop, OF assms(1,2,5,3) u(2) assms(7)]
    by (auto simp: W_Nil)
  finally show ?thesis .
qed

lemma spells_rest:
  assumes "\<not> stop u" and "u @ [y] = take (Suc (length u)) z" and "y < V"
  shows "chain_mean V q stop (Suc n) u (\<lambda>X. \<Sum>j\<in>{Suc (length u)..length X}. spell_term p q stop g z X j)
    = q u ! y * spells V p q stop g z n (u @ [y])"
proof -
  have "chain_mean V q stop (Suc n) u (\<lambda>X. \<Sum>j\<in>{Suc (length u)..length X}. spell_term p q stop g z X j)
      = (\<Sum>x<V. q u ! x * spells V p q stop g z n (u @ [x]))"
    using assms(1) by (simp add: spells_def)
  also have "\<dots> = (\<Sum>x<V. if x = y then q u ! x * spells V p q stop g z n (u @ [x]) else 0)"
  proof (intro sum.cong refl)
    fix x
    show "q u ! x * spells V p q stop g z n (u @ [x]) = (if x = y then q u ! x * spells V p q stop g z n (u @ [x]) else 0)"
    proof (cases "x = y")
      case False
      then have "u @ [x] \<noteq> take (length (u @ [x])) z" using assms(2) by (metis append1_eq_conv length_append_singleton)
      then show ?thesis using False by (simp add: spells_other)
    qed simp
  qed
  also have "\<dots> = q u ! y * spells V p q stop g z n (u @ [y])" using assms(3) by simp
  finally show ?thesis .
qed

lemma spells_target:
  assumes "is_lm V p" and "is_lm V q" and "above_floor V p q g" and "set z \<subseteq> {..<V}" and "length z = Suc g"
    and "\<And>u. length u = g \<Longrightarrow> stop u"
  shows "i + n = g \<Longrightarrow> spells V p q stop g z n (take i z) = W p q (take i z) * tail_prob p g z i"
proof (induction n arbitrary: i)
  case 0
  then have "length (take i z) = i" "stop (take i z)" using assms(5) assms(6) [of "take i z"] by simp_all
  then show ?case using spells_stop [OF assms(1,3-5), of i stop] 0 by (simp add: spells_def)
next
  case (Suc n)
  let ?u = "take i z" and ?y = "z ! i"
  have i: "i < g" using Suc.prems by simp
  have u: "length ?u = i" "set ?u \<subseteq> {..<V}" and uy: "?u @ [?y] = take (Suc i) z"
    using assms(4,5) i set_take_subset [of i z] by (auto simp: take_Suc_conv_app_nth)
  have "?y \<in> set z" using assms(5) i by (intro nth_mem) simp
  then have y: "?y < V" using assms(4) by auto
  show ?case
  proof (cases "stop ?u")
    case True
    then show ?thesis using spells_stop [where stop = stop, OF assms(1,3-5) _ True] i u(1) by (simp add: spells_def)
  next
    case go: False
    let ?K = "Cd p q stop ?u ! ?y * tail_prob p g z (Suc i)"
    have first: "chain_mean V q stop (Suc n) ?u (\<lambda>X. spell_term p q stop g z X i) = S p q ?u * ?K"
      using spells_first [where stop = stop, OF assms(1-3,6) u(2) _ go] u(1) Suc.prems by simp
    have rest: "chain_mean V q stop (Suc n) ?u (\<lambda>X. \<Sum>j\<in>{Suc i..length X}. spell_term p q stop g z X j)
        = q ?u ! ?y * spells V p q stop g z n (?u @ [?y])"
      by (rule spells_rest [where stop = stop and u = ?u and z = z, unfolded u(1), OF go uy y])
    have "spells V p q stop g z (Suc n) ?u
        = chain_mean V q stop (Suc n) ?u (\<lambda>X. spell_term p q stop g z X i + (\<Sum>j\<in>{Suc i..length X}. spell_term p q stop g z X j))"
      unfolding spells_def
    proof (rule chain_mean_cong)
      fix Y
      have "{length ?u..length (?u @ Y)} = insert i {Suc i..length (?u @ Y)}" using u(1) by auto
      then show "(\<Sum>j\<in>{length ?u..length (?u @ Y)}. spell_term p q stop g z (?u @ Y) j)
          = spell_term p q stop g z (?u @ Y) i + (\<Sum>j\<in>{Suc i..length (?u @ Y)}. spell_term p q stop g z (?u @ Y) j)" by simp
    qed
    also have "\<dots> = S p q ?u * ?K + q ?u ! ?y * spells V p q stop g z n (?u @ [?y])"
      unfolding chain_mean_add first rest ..
    also have "\<dots> = (S p q ?u * Cd p q stop ?u ! ?y + q ?u ! ?y * W p q (?u @ [?y])) * tail_prob p g z (Suc i)"
      using Suc.IH [of "Suc i"] Suc.prems uy by (simp add: algebra_simps)
    also have "S p q ?u * Cd p q stop ?u ! ?y + q ?u ! ?y * W p q (?u @ [?y]) = W p q ?u * p ?u ! ?y"
      using Cd_mass [where stop = stop, OF assms(1-3) _ go y u(2)] covered [OF assms(1,2) u(2) y] assms(3) u(1) i y
      by (auto simp: above_floor_def max_def min_def)
    finally show ?thesis using tail_prob_step [of i g p z] i by simp
  qed
qed

section \<open>What a step publishes\<close>

text \<open>The acceptances that count: those of verified positions.\<close>

definition live_ok :: "nat option \<Rightarrow> bool list \<Rightarrow> bool list" where
  "live_ok live ok = map (\<lambda>i. ok ! i \<and> alive live i) [0..<length ok]"

lemma accept_ok_live: "accept_ok live h eta = live_ok live (map (\<lambda>i. eta ! i \<le> h ! i) [0..<length h])"
  by (simp add: accept_ok_def live_ok_def)

text \<open>For a drafted chain \<open>X\<close>, the probability over the acceptances and the correction token that the step, continued by the
  target to \<open>g + 1\<close> tokens, spells \<open>z\<close>; and its mean over the drafted chains. \<open>accept_h\<close>, \<open>live_ok\<close>, \<open>last_ok\<close> and
  \<open>correction_dist\<close> are the parts of \<open>block_accept_probs\<close>; an acceptance is a uniform draw at most \<open>h\<close>.\<close>

definition step_law :: "lm \<Rightarrow> lm \<Rightarrow> nat \<Rightarrow> nat list \<Rightarrow> nat option \<Rightarrow> nat list \<Rightarrow> rat" where
  "step_law p q g z live X =
     (\<Sum>ok\<leftarrow>List.n_lists g [True, False].
        bern (accept_h X (target_rows p X) (draft_rows q X) live) ok
        * (let tau = last_ok (live_ok live ok) in
           if take tau X = take tau z
           then correction_dist X (target_rows p X) (draft_rows q X) live tau ! (z ! tau) * tail_prob p g z (Suc tau)
           else 0))"

definition published :: "nat \<Rightarrow> lm \<Rightarrow> lm \<Rightarrow> nat \<Rightarrow> (nat list \<Rightarrow> nat option) \<Rightarrow> nat list \<Rightarrow> rat" where
  "published V p q g live z = draft_mean V q g [] (\<lambda>X. step_law p q g z (live X) X)"

lemma sum_bern: "(\<Sum>ok\<leftarrow>List.n_lists (length h) [True, False]. bern h ok) = 1"
proof (induction h)
  case (Cons a h)
  have "(\<Sum>ok\<leftarrow>List.n_lists (length (a # h)) [True, False]. bern (a # h) ok) = (\<Sum>ok\<leftarrow>List.n_lists (length h) [True, False]. bern h ok)"
    unfolding length_Cons sum_bools by (simp add: algebra_simps)
  then show ?case using Cons.IH by simp
qed simp

lemma sum_prefix:
  "(\<Sum>ok\<leftarrow>List.n_lists (length h) [True, False]. bern h ok * F (take k ok))
    = (\<Sum>ok\<leftarrow>List.n_lists (length (take k h)) [True, False]. bern (take k h) ok * F ok)"
proof (induction h arbitrary: k F)
  case (Cons a h)
  show ?case
  proof (cases k)
    case 0
    then show ?thesis using sum_bern [of "a # h"] by (simp only: take_0 sum_list_mult_const) simp
  next
    case (Suc j)
    have "(\<Sum>ok\<leftarrow>List.n_lists (length (a # h)) [True, False]. bern (a # h) ok * F (take k ok))
        = (\<Sum>ok\<leftarrow>List.n_lists (length h) [True, False]. bern h ok * (\<lambda>ok. a * F (True # ok) + (1 - a) * F (False # ok)) (take j ok))"
      unfolding length_Cons sum_bools Suc by (simp add: algebra_simps)
    also have "\<dots> = (\<Sum>ok\<leftarrow>List.n_lists (length (take j h)) [True, False]. bern (take j h) ok * (a * F (True # ok) + (1 - a) * F (False # ok)))"
      by (rule Cons.IH)
    also have "\<dots> = (\<Sum>ok\<leftarrow>List.n_lists (length (take k (a # h))) [True, False]. bern (take k (a # h)) ok * F ok)"
      unfolding Suc take_Suc_Cons length_Cons sum_bools by (simp add: algebra_simps)
    finally show ?thesis .
  qed
qed simp

lemma last_ok_live: "k \<le> length ok \<Longrightarrow> last_ok (live_ok (Some k) ok) = last_ok (take k ok)"
proof -
  assume k: "k \<le> length ok"
  then have "live_ok (Some k) ok = take k ok @ replicate (length ok - k) False"
    by (intro nth_equalityI) (auto simp: live_ok_def alive_def nth_append)
  then show ?thesis by (simp add: last_ok_pad)
qed

lemma tau_prob_chain:
  assumes "i \<le> k"
  shows "tau_prob (map (\<lambda>i. f (take (Suc i) X)) [0..<k]) i = (if i = 0 then 1 else f (take i X)) * (\<Prod>l\<in>{i<..k}. 1 - f (take l X))"
proof -
  have "prod_list (map (\<lambda>t. 1 - t) (drop i (map (\<lambda>i. f (take (Suc i) X)) [0..<k])))
      = prod_list (map (\<lambda>l. 1 - f (take (Suc l) X)) [i..<k])"
    by (simp add: drop_map comp_def)
  also have "\<dots> = (\<Prod>l\<in>{i..<k}. 1 - f (take (Suc l) X))"
    using prod.distinct_set_conv_list [of "[i..<k]" "\<lambda>l. 1 - f (take (Suc l) X)"] by simp
  also have "\<dots> = (\<Prod>l\<in>{i<..k}. 1 - f (take l X))"
    by (rule prod.reindex_bij_witness [of _ "\<lambda>l. l - 1" Suc]) auto
  finally show ?thesis using assms by (cases i) (simp_all add: tau_prob_def)
qed

lemma rows_of_lm:
  assumes "is_lm V p" and "is_lm V q"
  shows "prob_rows V (target_rows p X)" and "length (target_rows p X) = Suc (length X)"
    and "list_all (\<lambda>r. length r = V) (draft_rows q X)" and "length (draft_rows q X) = length X"
proof -
  have "sum_list (p u) = 1" "list_all (\<lambda>a. 0 \<le> a) (p u)" "length (p u) = V" for u
    using assms(1) by (auto simp: is_lm_def sum_list_sum_nth atLeast0LessThan list_all_length)
  then show "prob_rows V (target_rows p X)" by (simp add: prob_rows_def target_rows_def list_all_iff)
  show "list_all (\<lambda>r. length r = V) (draft_rows q X)" using assms(2) by (simp add: draft_rows_def list_all_iff is_lm_def)
qed (simp_all add: target_rows_def draft_rows_def)

lemma rows_take:
  assumes "k \<le> length X"
  shows "take (Suc k) (target_rows p X) = target_rows p (take k X)" and "take k (draft_rows q X) = draft_rows q (take k X)"
  using assms by (auto simp: target_rows_def draft_rows_def take_map min_def simp del: upt_Suc)

lemma step_law_cut:
  assumes "is_lm V p" and "is_lm V q" and "length X = g" and "set X \<subseteq> {..<V}" and "cuts_at stop g k"
  shows "step_law p q g z (Some (k X)) X = (\<Sum>j\<in>{0..k X}. spell_term p q stop g z (take (k X) X) j)"
proof -
  let ?k = "k X" and ?h = "accept_h X (target_rows p X) (draft_rows q X) (Some (k X))"
  have k: "?k \<le> length X" using cuts_at_le [OF assms(5,3)] assms(3) by simp
  note rows = rows_of_lm [OF assms(1,2), of X]
  have tok: "list_all (\<lambda>x. x < V) X" using assms(4) by (auto simp: list_all_iff)
  have st: "stop (take j X) = stops_at ?k (take j X)" if "j \<le> ?k" for j
    using cuts_atD [OF assms(5,3), of j] that k assms(3) by (auto simp: stops_at_def)
  have len: "length ?h = g" using assms(3) by (simp add: accept_h_def Let_def)
  have h: "take ?k ?h = map (\<lambda>i. H p q stop (take (Suc i) X)) [0..<?k]"
  proof (rule nth_equalityI)
    show "length (take ?k ?h) = length (map (\<lambda>i. H p q stop (take (Suc i) X)) [0..<?k])" using len k assms(3) by simp
    fix i
    assume "i < length (take ?k ?h)"
    then have i: "i < ?k" by simp
    then have "?h ! i = accept_h (take ?k X) (target_rows p (take ?k X)) (draft_rows q (take ?k X)) None ! i"
      using accept_h_live [OF i k rows tok] rows_take [OF k] by simp
    also have "\<dots> = H p q (stops_at ?k) (take (Suc i) X)" using i k by (simp add: accept_h_chain min_def)
    also have "\<dots> = H p q stop (take (Suc i) X)" using st [of "Suc i"] i by (simp add: H_def)
    finally show "take ?k ?h ! i = map (\<lambda>i. H p q stop (take (Suc i) X)) [0..<?k] ! i" using i by simp
  qed
  have cd: "correction_dist X (target_rows p X) (draft_rows q X) (Some ?k) i = Cd p q stop (take i X)" if "i \<le> ?k" for i
  proof -
    have "correction_dist X (target_rows p X) (draft_rows q X) (Some ?k) i = Cd p q (stops_at ?k) (take i (take ?k X))"
      using correction_live [OF that k rows] correction_chain [of i "take ?k X" p q] rows_take [OF k] that k by (simp add: min_def)
    then show ?thesis using st [OF that] that by (simp add: Cd_def)
  qed
  let ?G = "\<lambda>tau. if take tau X = take tau z
    then correction_dist X (target_rows p X) (draft_rows q X) (Some ?k) tau ! (z ! tau) * tail_prob p g z (Suc tau) else 0"
  have "step_law p q g z (Some ?k) X = (\<Sum>ok\<leftarrow>List.n_lists (length ?h) [True, False]. bern ?h ok * ?G (last_ok (take ?k ok)))"
    unfolding step_law_def len using k assms(3)
    by (intro arg_cong [where f = sum_list] map_cong) (auto simp: Let_def last_ok_live set_n_lists)
  also have "\<dots> = (\<Sum>ok\<leftarrow>List.n_lists (length (take ?k ?h)) [True, False]. bern (take ?k ?h) ok * ?G (last_ok ok))"
    by (rule sum_prefix [where F = "\<lambda>ok. ?G (last_ok ok)"])
  also have "\<dots> = (\<Sum>i\<le>?k. tau_prob (take ?k ?h) i * ?G i)"
    using sum_tau [of "take ?k ?h" ?G] len k assms(3) by simp
  also have "\<dots> = (\<Sum>j\<in>{0..?k}. spell_term p q stop g z (take ?k X) j)"
    using k by (intro sum.cong)
      (auto simp: h tau_prob_chain [where f = "H p q stop"] cd spell_term_def min_def intro!: prod.cong)
  finally show ?thesis .
qed

lemma draft_mean_cong_set:
  "(\<And>Y. length Y = n \<Longrightarrow> set Y \<subseteq> {..<V} \<Longrightarrow> F (u @ Y) = F' (u @ Y)) \<Longrightarrow> draft_mean V q n u F = draft_mean V q n u F'"
proof (induction n arbitrary: u)
  case 0
  from 0 [of "[]"] show ?case by simp
next
  case (Suc n)
  have "draft_mean V q n (u @ [x]) F = draft_mean V q n (u @ [x]) F'" if "x < V" for x
    by (rule Suc.IH) (use Suc.prems [of "x # _"] that in simp)
  then show ?case by simp
qed

lemma published_cut:
  assumes "is_lm V p" and "is_lm V q" and "above_floor V p q g" and "set z \<subseteq> {..<V}" and "length z = Suc g"
    and "cuts_at stop g k" and "\<And>X. length X = g \<Longrightarrow> set X \<subseteq> {..<V} \<Longrightarrow> step_law p q g z (live X) X = step_law p q g z (Some (k X)) X"
  shows "published V p q g live z = (\<Prod>l\<in>{0..g}. p (take l z) ! (z ! l))"
proof -
  have "published V p q g live z = draft_mean V q g [] (\<lambda>X. \<Sum>j\<in>{0..length (take (k X) X)}. spell_term p q stop g z (take (k X) X) j)"
    unfolding published_def
  proof (rule draft_mean_cong_set)
    fix Y :: "nat list"
    assume Y: "length Y = g" "set Y \<subseteq> {..<V}"
    have "length (take (k Y) Y) = k Y" using cuts_at_le [OF assms(6) Y(1)] Y(1) by simp
    then show "step_law p q g z (live ([] @ Y)) ([] @ Y)
        = (\<Sum>j\<in>{0..length (take (k ([] @ Y)) ([] @ Y))}. spell_term p q stop g z (take (k ([] @ Y)) ([] @ Y)) j)"
      using assms(7) [OF Y] step_law_cut [OF assms(1,2) Y assms(6), of z] by simp
  qed
  also have "\<dots> = chain_mean V q stop g [] (\<lambda>X. \<Sum>j\<in>{0..length X}. spell_term p q stop g z X j)"
    by (rule chain_mean_cut [OF assms(2,6), symmetric]) simp_all
  also have "\<dots> = spells V p q stop g z g (take 0 z)" by (simp add: spells_def)
  also have "\<dots> = tail_prob p g z 0"
    using spells_target [where stop = stop and i = 0 and n = g, OF assms(1-5)] cuts_at_stop [OF assms(6)] by (simp add: W_Nil)
  finally show ?thesis by (simp add: tail_prob_def)
qed

section \<open>Properties\<close>

text \<open>C1: block verification is lossless, in exact arithmetic and above the code's clamps. For target and draft models over a
  vocabulary for which every draft probability, every weight \<open>W\<close> and every surplus \<open>S\<close> of the block is zero or at
  least the \<open>1e-30\<close> of the \<open>clamp_min\<close> calls, the tokens a step publishes (the drafts up to the last accepted position, then
  the correction token) have exactly the target's distribution: every sequence of \<open>g + 1\<close> tokens comes out with
  the product of its target probabilities.\<close>

theorem block_lossless:
  assumes "is_lm V p" and "is_lm V q" and "above_floor V p q g" and "set z \<subseteq> {..<V}" and "length z = Suc g"
  shows "published V p q g (\<lambda>X. None) z = (\<Prod>l\<in>{0..g}. p (take l z) ! (z ! l))"
proof (rule published_cut [OF assms])
  show "cuts_at (stops_at g) g (\<lambda>X. g)" by (auto simp: cuts_at_def stops_at_def)
  fix X :: "nat list"
  assume X: "length X = g" "set X \<subseteq> {..<V}"
  note rows = rows_of_lm [OF assms(1,2), of X]
  have tok: "list_all (\<lambda>x. x < V) X" using X(2) by (auto simp: list_all_iff)
  have len: "length (accept_h X tp dp live) = g" for tp dp live using X(1) by (simp add: accept_h_def Let_def)
  have h: "accept_h X (target_rows p X) (draft_rows q X) (Some g) = accept_h X (target_rows p X) (draft_rows q X) None"
    using accept_h_live [OF _ _ rows tok, of _ g] rows(2,4) X(1) len by (intro nth_equalityI) auto
  have cd: "correction_dist X (target_rows p X) (draft_rows q X) (Some g) i = correction_dist X (target_rows p X) (draft_rows q X) None i"
    if "i \<le> g" for i using correction_live [OF that _ rows] rows(2,4) X(1) by simp
  have ok: "live_ok (Some g) b = live_ok None b" if "length b = g" for b using that by (simp add: live_ok_def alive_def)
  have tau: "last_ok (live_ok None b) \<le> g" if "length b = g" for b
    using last_ok_le [of "live_ok None b"] that by (simp add: live_ok_def)
  show "step_law p q g z None X = step_law p q g z (Some g) X"
    unfolding step_law_def h by (intro arg_cong [where f = sum_list] map_cong) (auto simp: Let_def set_n_lists ok cd tau)
qed

definition wit_p :: lm where
  "wit_p u = (if u = [] then [1/2, 1/2] else [1/4, 3/4])"

definition wit_q :: lm where
  "wit_q u = [3/4, 1/4]"

lemma wit_lms: "is_lm 2 wit_p" "is_lm 2 wit_q"
proof -
  have two: "(x :: nat) < 2 \<longleftrightarrow> x = 0 \<or> x = 1" for x by auto
  have sum2: "sum f {..<2 :: nat} = f 0 + f 1" for f :: "nat \<Rightarrow> rat" by (simp add: numeral_2_eq_2)
  show "is_lm 2 wit_p" "is_lm 2 wit_q" by (auto simp: is_lm_def wit_p_def wit_q_def two sum2)
qed

lemma wit_floor: "above_floor 2 wit_p wit_q 1"
proof -
  have two: "(x :: nat) < 2 \<longleftrightarrow> x = 0 \<or> x = 1" for x by auto
  have w: "W wit_p wit_q [x] = (if x = 0 then 2/3 else 1)" if "x < 2" for x
    using that W_snoc [of wit_p wit_q "[]" x] by (auto simp: less_2_cases_iff W_Nil wit_p_def wit_q_def eps_floor_def)
  have s: "S wit_p wit_q [] = 1/4"
    by (simp add: S_def surplus_def W_Nil wit_p_def wit_q_def)
  have "W wit_p wit_q u = 0 \<or> eps_floor \<le> W wit_p wit_q u" if "set u \<subseteq> {..<2}" "length u \<le> 1" for u
    using that w by (cases u) (auto simp: W_Nil eps_floor_def)
  moreover have "S wit_p wit_q u = 0 \<or> eps_floor \<le> S wit_p wit_q u" if "length u < 1" for u
    using that s by (simp add: eps_floor_def)
  moreover have "wit_q u ! x = 0 \<or> eps_floor \<le> wit_q u ! x" if "x < 2" for u x
    using that two [of x] by (auto simp: wit_q_def eps_floor_def)
  ultimately show ?thesis by (simp add: above_floor_def)
qed

theorem block_lossless_witness:
  "published 2 wit_p wit_q 1 (\<lambda>X. None) [1, 1] = 1/2 * (3/4)"
proof -
  have "published 2 wit_p wit_q 1 (\<lambda>X. None) [1, 1] = (\<Prod>l\<in>{0..1}. wit_p (take l [1, 1]) ! ([1, 1] ! l))"
    by (intro block_lossless wit_lms wit_floor) auto
  then show ?thesis by (simp add: wit_p_def atLeastAtMost_insertL [symmetric] numeral_2_eq_2 atLeast0_atMost_Suc)
qed

text \<open>Below the clamps the law is another one: with a draft probability of \<open>1e-31\<close> the token comes out with a
  probability that is not the target's, so the hypothesis cannot be dropped.\<close>

definition low_p :: lm where
  "low_p u = [1 - 1 / (2 * 10 ^ 31), 1 / (2 * 10 ^ 31)]"

definition low_q :: lm where
  "low_q u = [1 - 1 / 10 ^ 31, 1 / 10 ^ 31]"

lemma clamps_change_law:
  "is_lm 2 low_p \<and> is_lm 2 low_q \<and> published 2 low_p low_q 1 (\<lambda>X. None) [1, 0] \<noteq> low_p [] ! 1 * low_p [1] ! 0"
proof (intro conjI)
  have two: "(x :: nat) < 2 \<longleftrightarrow> x = 0 \<or> x = 1" for x by auto
  have sum2: "sum f {..<2 :: nat} = f 0 + f 1" for f :: "nat \<Rightarrow> rat" by (simp add: numeral_2_eq_2)
  show "is_lm 2 low_p" "is_lm 2 low_q" by (auto simp: is_lm_def low_p_def low_q_def two sum2)
  show "published 2 low_p low_q 1 (\<lambda>X. None) [1, 0] \<noteq> low_p [] ! 1 * low_p [1] ! 0" by code_simp
qed

text \<open>The confidence policy on a drafted chain: the head gives the confidence of position \<open>i\<close> from the drafts before it, and the
  cutoff the verify step passes on is one more than the live length.\<close>

definition head_confidence :: "(nat list \<Rightarrow> rat) \<Rightarrow> nat \<Rightarrow> nat list \<Rightarrow> rat list" where
  "head_confidence hd_conf g X = map (\<lambda>i. hd_conf (take i X)) [0..<g]"

definition policy_live :: "cap_cfg \<Rightarrow> threshold \<Rightarrow> (nat list \<Rightarrow> rat) \<Rightarrow> nat \<Rightarrow> nat list \<Rightarrow> nat option" where
  "policy_live c t hd_conf g X = map_option (\<lambda>len. len - 1) (Some (nat (live_drafts c t (head_confidence hd_conf g X) + 1)))"

lemma policy_cuts:
  assumes "cfg_ok c" and "v_stride c = int g + 1"
  shows "cuts_at (\<lambda>u. g \<le> length u \<or> \<not> int (length u) < live_drafts c t (head_confidence hd_conf g u)) g
    (\<lambda>X. nat (live_drafts c t (head_confidence hd_conf g X)))"
  unfolding cuts_at_def
proof (intro allI impI conjI)
  fix X :: "nat list" and i
  let ?k = "live_drafts c t (head_confidence hd_conf g X)"
  assume X: "length X = g"
  have k: "0 \<le> ?k" "?k \<le> int g" using live_drafts_bounds [OF assms(1)] assms(2) by simp_all
  then show "nat ?k \<le> g" by simp
  assume i: "i \<le> g"
  show "(g \<le> length (take i X) \<or> \<not> int (length (take i X)) < live_drafts c t (head_confidence hd_conf g (take i X))) = (nat ?k \<le> i)"
  proof (cases "i = g")
    case True
    then show ?thesis using X k by simp
  next
    case False
    then have lt: "i < g" using i by simp
    have "take (Suc i) (head_confidence hd_conf g (take i X)) = take (Suc i) (head_confidence hd_conf g X)"
      by (intro nth_equalityI) (simp_all add: head_confidence_def min.absorb1 less_Suc_eq_le)
    then have "int i < live_drafts c t (head_confidence hd_conf g (take i X)) \<longleftrightarrow> int i < ?k"
      by (rule live_length_stopping_rule) (simp add: head_confidence_def)
    then show ?thesis using lt X k by auto
  qed
qed

text \<open>C2: verifying only as many drafts as the confidence policy chooses is lossless too, again in exact arithmetic and with
  every draft probability, weight and surplus zero or at least \<open>1e-30\<close>. Whatever the head and the thresholds, cutting the verified block at the live length keeps the target's distribution, because the cut is a stopping rule.\<close>

theorem adaptive_block_lossless:
  assumes "is_lm V p" and "is_lm V q" and "above_floor V p q g" and "set z \<subseteq> {..<V}" and "length z = Suc g"
    and "cfg_ok c" and "v_stride c = int g + 1"
  shows "published V p q g (policy_live c t hd_conf g) z = (\<Prod>l\<in>{0..g}. p (take l z) ! (z ! l))"
proof (rule published_cut [OF assms(1-5) policy_cuts [OF assms(6,7), of t hd_conf]])
  fix X :: "nat list"
  have "0 \<le> live_drafts c t (head_confidence hd_conf g X)" by (rule live_drafts_bounds [OF assms(6)])
  then have "policy_live c t hd_conf g X = Some (nat (live_drafts c t (head_confidence hd_conf g X)))"
    by (simp add: policy_live_def nat_add_distrib)
  then show "step_law p q g z (policy_live c t hd_conf g X) X
      = step_law p q g z (Some (nat (live_drafts c t (head_confidence hd_conf g X)))) X" by simp
qed

theorem adaptive_block_lossless_witness:
  "published 2 wit_p wit_q 1 (policy_live (wit_cfg\<lparr>v_stride := 2, v_kmin := 0\<rparr>) (Uniform (1/2)) (\<lambda>u. 1/4) 1) [1, 1] = 1/2 * (3/4)"
proof -
  have "cfg_ok (wit_cfg\<lparr>v_stride := 2, v_kmin := 0\<rparr>)" "v_stride (wit_cfg\<lparr>v_stride := 2, v_kmin := 0\<rparr>) = int 1 + 1"
    by (simp_all add: cfg_ok_def wit_cfg_def)
  then have "published 2 wit_p wit_q 1 (policy_live (wit_cfg\<lparr>v_stride := 2, v_kmin := 0\<rparr>) (Uniform (1/2)) (\<lambda>u. 1/4) 1) [1, 1]
      = (\<Prod>l\<in>{0..1}. wit_p (take l [1, 1]) ! ([1, 1] ! l))"
    by (intro adaptive_block_lossless wit_lms wit_floor) auto
  then show ?thesis by (simp add: wit_p_def atLeastAtMost_insertL [symmetric] numeral_2_eq_2 atLeast0_atMost_Suc)
qed

end
