(* ===== verification/Spec_Sync.thy ===== *)
theory Spec_Sync
  imports Verify_Cap "HOL-Library.Word"
begin

text \<open>
  The per-step broadcasts of speculative decoding (\<open>adapter/spec_sync_free.py\<close>): the tokens of
  \<open>DSV41_SPEC_SYNC_FREE\<close>, the rank-invariant draft noise, the sync sites with their skipped, merged and audited
  broadcasts, and the install checks. A collective acts on all ranks at once, so a sync maps the list of rank states to
  the next; tensors live in each rank's store under an address, because the merged accept writes the held tensors
  back in place. \<open>bc\<close> is the group's broadcast from rank 0, \<open>orig\<close> the engine's own \<open>SpecTpSync.sync\<close>, \<open>neg_log_u\<close>
  the negated logarithm of Triton's Philox uniform for a key and an offset, \<open>ab\<close> the parts of the A/B variant in
  force. Log lines are left out, except whether an audit readout is printed.
\<close>

section \<open>Configuration\<close>

record sync_flags =
  f_enabled :: bool
  f_audit :: bool
  f_skip_draft :: bool
  f_skip_accept :: bool
  f_skip_vcap :: bool
  f_merge :: bool
  f_noise :: bool
  f_audit_every :: int
  f_want_merge :: bool

definition sync_parts :: "string list" where
  "sync_parts = [''draft'', ''accept'', ''vcap'', ''merge'']"

definition sync_tokens :: "environ \<Rightarrow> string list" where
  "sync_tokens env =
     (let spec = py_lower (py_strip (env_get env ''DSV41_SPEC_SYNC_FREE'' []));
          toks = filter (\<lambda>t. t \<noteq> [] \<and> t \<notin> {''0'', ''off'', ''false''})
                   (map py_strip (split_char (CHR '','') (map (\<lambda>c. if c = CHR '';'' then CHR '','' else c) spec)))
      in if ''all'' \<in> set toks then toks @ sync_parts else toks)"

definition sync_config :: "environ \<Rightarrow> sync_flags res" where
  "sync_config env =
     (let toks = sync_tokens env in
      if \<not> set toks \<subseteq> {''draft'', ''accept'', ''vcap'', ''merge'', ''audit'', ''all'', ''1'', ''on''} then Inl ValueError
      else
        let toks = (if ''1'' \<in> set toks \<or> ''on'' \<in> set toks then toks @ sync_parts else toks);
            audit = ''audit'' \<in> set toks;
            skip_accept = (''accept'' \<in> set toks \<and> \<not> audit);
            every = env_get env ''DSV41_SPEC_SYNC_FREE_AUDIT_EVERY'' ''1024''
        in bind_res (if every = [] then Inr 1024 else to_res (py_int every)) (\<lambda>n.
             Inr \<lparr>f_enabled = (toks \<noteq> []), f_audit = audit, f_skip_draft = (''draft'' \<in> set toks \<and> \<not> audit),
                  f_skip_accept = skip_accept, f_skip_vcap = (''vcap'' \<in> set toks \<and> \<not> audit),
                  f_merge = (''merge'' \<in> set toks \<and> \<not> skip_accept), f_noise = (''draft'' \<in> set toks \<or> audit),
                  f_audit_every = n, f_want_merge = (''merge'' \<in> set toks)\<rparr>))"

text \<open>\<open>(skip draft, skip accept, skip vcap, merge)\<close>.\<close>

definition sync_live :: "sync_flags \<Rightarrow> string list option \<Rightarrow> bool \<times> bool \<times> bool \<times> bool" where
  "sync_live f ab =
     (case ab of
        Some p \<Rightarrow>
          if \<not> f_audit f then (''draft'' \<in> set p, ''accept'' \<in> set p, ''vcap'' \<in> set p, ''merge'' \<in> set p \<and> ''accept'' \<notin> set p)
          else (f_skip_draft f, f_skip_accept f, f_skip_vcap f, f_merge f)
      | None \<Rightarrow> (f_skip_draft f, f_skip_accept f, f_skip_vcap f, f_merge f))"

section \<open>Draft noise\<close>

text \<open>\<open>RankInvariantNoise\<close> on one rank; seed and counter are 64-bit device integers.\<close>

record noise =
  n_seed :: "64 word"
  n_ctr :: "64 word"
  n_step :: nat

definition noise_key :: "64 word \<Rightarrow> 64 word \<Rightarrow> nat \<Rightarrow> 64 word" where
  "noise_key seed ctr step = seed + ctr * 64 + of_nat step"

definition exp_noise_kernel :: "(64 word \<Rightarrow> nat \<Rightarrow> 'u) \<Rightarrow> nat \<Rightarrow> nat \<Rightarrow> 64 word \<Rightarrow> 64 word \<Rightarrow> nat \<Rightarrow> 'u list list" where
  "exp_noise_kernel neg_log_u bs v seed ctr step =
     map (\<lambda>row. map (\<lambda>col. neg_log_u (noise_key seed ctr step) (row * v + col)) [0..<v]) [0..<bs]"

definition fill_exp_noise ::
    "(64 word \<Rightarrow> nat \<Rightarrow> 'u) \<Rightarrow> nat \<Rightarrow> nat \<Rightarrow> 64 word \<Rightarrow> 64 word \<Rightarrow> nat \<Rightarrow> 'u list list res" where
  "fill_exp_noise neg_log_u bs v seed ctr step =
     (if \<not> step < 64 then Inl AssertionError
      else if bs = 0 then Inr []
      else if \<not> bs * v < 2 ^ 31 then Inl AssertionError
      else Inr (exp_noise_kernel neg_log_u bs v seed ctr step))"

text \<open>\<open>exp_noise[:bs].exponential_()\<close>; \<open>args\<close>: it was called with arguments.\<close>

definition exponential :: "(64 word \<Rightarrow> nat \<Rightarrow> 'u) \<Rightarrow> nat \<Rightarrow> nat \<Rightarrow> bool \<Rightarrow> noise \<Rightarrow> noise \<times> 'u list list res" where
  "exponential neg_log_u bs v args n =
     (if args then (n, Inl RuntimeError)
      else (n\<lparr>n_step := Suc (n_step n)\<rparr>, fill_exp_noise neg_log_u bs v (n_seed n) (n_ctr n) (n_step n)))"

text \<open>The sampler's call; \<open>orig_call\<close> is the engine's, which draws from the noise.\<close>

definition sampler_call :: "(noise \<Rightarrow> noise \<times> 'o res) \<Rightarrow> noise \<Rightarrow> noise \<times> 'o res" where
  "sampler_call orig_call n =
     (case orig_call (n\<lparr>n_step := 0\<rparr>) of
        (n, Inl e) \<Rightarrow> (n, Inl e)
      | (n, Inr out) \<Rightarrow> (n\<lparr>n_ctr := n_ctr n + 1\<rparr>, Inr out))"

text \<open>\<open>int(s, 0)\<close>: a sign, then a decimal numeral without leading zeros or one with the prefix of its base.\<close>

definition base_digit :: "nat \<Rightarrow> char \<Rightarrow> int option" where
  "base_digit b c =
     (let n = (of_char (lower_char c) :: nat); d = (if 48 \<le> n \<and> n \<le> 57 then n - 48 else if 97 \<le> n \<and> n \<le> 102 then n - 87 else 99)
      in if d < b then Some (int d) else None)"

fun base_digits :: "nat \<Rightarrow> bool \<Rightarrow> int \<Rightarrow> string \<Rightarrow> int option" where
  "base_digits b ok acc [] = (if ok then Some acc else None)"
| "base_digits b ok acc (c # s) =
     (case base_digit b c of
        Some d \<Rightarrow> base_digits b True (int b * acc + d) s
      | None \<Rightarrow> if c = CHR ''_'' \<and> ok then base_digits b False acc s else None)"

definition unsigned_int0 :: "string \<Rightarrow> int option" where
  "unsigned_int0 s =
     (let p = py_lower (take 2 s) in
      if p = ''0x'' then (if length s = 2 then None else base_digits 16 True 0 (drop 2 s))
      else if p = ''0o'' then (if length s = 2 then None else base_digits 8 True 0 (drop 2 s))
      else if p = ''0b'' then (if length s = 2 then None else base_digits 2 True 0 (drop 2 s))
      else (case base_digits 10 False 0 s of
              Some n \<Rightarrow> if take 1 s = ''0'' \<and> n \<noteq> 0 then None else Some n
            | None \<Rightarrow> None))"

definition py_int0 :: "string \<Rightarrow> int option" where
  "py_int0 s = (case py_strip s of
      [] \<Rightarrow> None
    | c # t \<Rightarrow>
        if c = CHR ''-'' then map_option uminus (unsigned_int0 t)
        else if c = CHR ''+'' then unsigned_int0 t
        else unsigned_int0 (c # t))"

text \<open>A rank's own seed: a value outside 64 bits does not fit the tensor. \<open>initial_seed\<close> is the rank's device seed.\<close>

definition own_seed :: "environ \<Rightarrow> nat \<Rightarrow> 64 word res" where
  "own_seed env initial_seed =
     (let base = py_strip (env_get env ''DSV41_SPEC_SYNC_FREE_SEED'' []) in
      if base \<noteq> [] then
        bind_res (to_res (py_int0 base)) (\<lambda>v. if - (2 ^ 63) \<le> v \<and> v < 2 ^ 63 then Inr (of_int v) else Inl RuntimeError)
      else Inr (of_nat (take_bit 47 initial_seed)))"

fun own_seeds :: "environ \<Rightarrow> nat list \<Rightarrow> 64 word list res" where
  "own_seeds env [] = Inr []"
| "own_seeds env (i # is) = bind_res (own_seed env i) (\<lambda>s. bind_res (own_seeds env is) (\<lambda>ss. Inr (s # ss)))"

text \<open>The seeds of all ranks after \<open>_seed_tensor\<close>; the ranks share the environment.\<close>

definition seed_tensor :: "(64 word list \<Rightarrow> 64 word list) \<Rightarrow> environ \<Rightarrow> nat list \<Rightarrow> 64 word list res" where
  "seed_tensor bc env initial = bind_res (own_seeds env initial) (\<lambda>ss. Inr (if 1 < length initial then bc ss else ss))"

definition new_noise :: "64 word \<Rightarrow> noise" where
  "new_noise seed = \<lparr>n_seed = seed, n_ctr = 0, n_step = 0\<rparr>"

section \<open>Sync sites\<close>

datatype sync_site = DSPARK_GRAPH_SAMPLE | DSPARK_GRAPH_GREEDY | DSPARK_ACCEPT_GRAPH | Other_site nat

datatype audit_site = Draft_site | Accept_site | Vcap_site

text \<open>One rank: its tensors, the held accept tensors, the audit counters (mismatches and checks per site) and readouts.\<close>

record rank_st =
  r_store :: "nat \<Rightarrow> int list"
  r_pending :: "nat list"
  r_counters :: "(audit_site \<Rightarrow> nat \<times> nat) option"
  r_calls :: nat
  r_last :: "(nat \<times> nat) list option"

definition bcast_addr :: "(int list list \<Rightarrow> int list list) \<Rightarrow> nat \<Rightarrow> rank_st list \<Rightarrow> rank_st list" where
  "bcast_addr bc a rs =
     map2 (\<lambda>r v. r\<lparr>r_store := (r_store r)(a := v)\<rparr>) rs (bc (map (\<lambda>r. r_store r a) rs))"

definition ensure_counters :: "rank_st \<Rightarrow> rank_st" where
  "ensure_counters r = (case r_counters r of None \<Rightarrow> r\<lparr>r_counters := Some (\<lambda>_. (0, 0))\<rparr> | Some _ \<Rightarrow> r)"

definition counters :: "bool \<Rightarrow> rank_st \<Rightarrow> rank_st res" where
  "counters capturing r = (if r_counters r = None \<and> capturing then Inl AssertionError else Inr (ensure_counters r))"

definition count_check :: "audit_site \<Rightarrow> nat \<Rightarrow> rank_st \<Rightarrow> rank_st \<Rightarrow> rank_st" where
  "count_check site a before r =
     (case r_counters r of
        None \<Rightarrow> r
      | Some c \<Rightarrow>
          r\<lparr>r_counters := Some (c(site := (fst (c site) + (if r_store before a \<noteq> r_store r a then 1 else 0), snd (c site) + 1)))\<rparr>)"

definition audited_broadcast ::
    "(int list list \<Rightarrow> int list list) \<Rightarrow> bool \<Rightarrow> nat \<Rightarrow> audit_site \<Rightarrow> rank_st list \<Rightarrow> rank_st list" where
  "audited_broadcast bc capturing a site rs =
     (let rs = (if capturing then rs else map ensure_counters rs)
      in map2 (count_check site a) rs (bcast_addr bc a rs))"

definition audit_sites :: "audit_site list" where
  "audit_sites = [Draft_site, Accept_site, Vcap_site]"

text \<open>The readout: the counters if it is due, and whether it is printed.\<close>

definition audit_tick :: "sync_flags \<Rightarrow> bool \<Rightarrow> rank_st \<Rightarrow> rank_st \<times> ((nat \<times> nat) list \<times> bool) option res" where
  "audit_tick f force r =
     (let r = r\<lparr>r_calls := r_calls r + 1\<rparr> in
      case r_counters r of
        None \<Rightarrow> (r, Inr None)
      | Some c \<Rightarrow>
          if \<not> force \<and> f_audit_every f = 0 then (r, Inl ZeroDivisionError)
          else if \<not> (force \<or> int (r_calls r) mod f_audit_every f = 0) then (r, Inr None)
          else let vals = map c audit_sites; diverged = list_ex (\<lambda>v. fst v \<noteq> 0) vals
               in (r\<lparr>r_last := Some vals\<rparr>, Inr (Some (vals, diverged \<or> Some vals \<noteq> r_last r))))"

definition tp_broadcast ::
    "sync_flags \<Rightarrow> string list option \<Rightarrow> (int list list \<Rightarrow> int list list) \<Rightarrow> bool \<Rightarrow> nat \<Rightarrow> audit_site \<Rightarrow> rank_st list
     \<Rightarrow> rank_st list" where
  "tp_broadcast f ab bc capturing a site rs =
     (if f_audit f then audited_broadcast bc capturing a site rs
      else if site = Vcap_site \<and> fst (snd (snd (sync_live f ab))) then rs
      else bcast_addr bc a rs)"

text \<open>A rank packs its three held tensors, and copies the rows of the received tensor back.\<close>

definition packed :: "rank_st \<Rightarrow> int list" where
  "packed r = concat (map (r_store r) (r_pending r))"

definition same_shape :: "rank_st \<Rightarrow> bool" where
  "same_shape r = (length (r_store r (r_pending r ! 0)) = length (r_store r (r_pending r ! 1))
     \<and> length (r_store r (r_pending r ! 1)) = length (r_store r (r_pending r ! 2)))"

definition unpack :: "rank_st \<Rightarrow> int list \<Rightarrow> rank_st" where
  "unpack r v =
     (let a = r_pending r ! 0; b = r_pending r ! 1; c = r_pending r ! 2; n = length (r_store r a)
      in r\<lparr>r_pending := [],
           r_store := (r_store r)(a := Py_Prelude.slice 0 n v, b := Py_Prelude.slice n (2 * n) v, c := Py_Prelude.slice (2 * n) (3 * n) v)\<rparr>)"

definition merged_accept :: "(int list list \<Rightarrow> int list list) \<Rightarrow> nat \<Rightarrow> rank_st list \<Rightarrow> rank_st list res" where
  "merged_accept bc a rs =
     (let rs = map (\<lambda>r. r\<lparr>r_pending := r_pending r @ [a]\<rparr>) rs in
      if list_all (\<lambda>r. length (r_pending r) < 3) rs then Inr rs
      else if \<not> list_all (\<lambda>r. length (r_pending r) = 3) rs then Inl ValueError
      else if \<not> list_all same_shape rs then Inl RuntimeError
      else Inr (map2 unpack rs (bc (map packed rs))))"

text \<open>\<open>SpecTpSync.sync\<close> with the wrapper in place; \<open>sites\<close> are the engine's active sites.\<close>

definition site_name :: "sync_site \<Rightarrow> audit_site option" where
  "site_name site =
     (if site = DSPARK_GRAPH_SAMPLE \<or> site = DSPARK_GRAPH_GREEDY then Some Draft_site
      else if site = DSPARK_ACCEPT_GRAPH then Some Accept_site else None)"

definition sync ::
    "sync_flags \<Rightarrow> string list option \<Rightarrow> (int list list \<Rightarrow> int list list) \<Rightarrow> (sync_site \<Rightarrow> nat \<Rightarrow> rank_st list \<Rightarrow> rank_st list)
     \<Rightarrow> sync_site list \<Rightarrow> bool \<Rightarrow> sync_site \<Rightarrow> nat \<Rightarrow> rank_st list \<Rightarrow> rank_st list res" where
  "sync f ab bc orig sites capturing site a rs =
     (if site \<notin> set sites then Inr rs
      else case site_name site of
        None \<Rightarrow> Inr (orig site a rs)
      | Some name \<Rightarrow>
          if f_audit f then Inr (audited_broadcast bc capturing a name rs)
          else
            let (skip_draft, skip_accept, _, merge) = sync_live f ab in
            if name = Draft_site \<and> skip_draft then Inr rs
            else if name = Accept_site \<and> skip_accept then Inr rs
            else if name = Accept_site \<and> merge then merged_accept bc a rs
            else Inr (orig site a rs))"

text \<open>The sampler's constructor on every rank after the engine's own, when it has a noise buffer: the shared seed, a zero counter and,
  in audit mode, the audit counters; and its parameter staging, which ticks the audit.\<close>

fun counters_all :: "bool \<Rightarrow> rank_st list \<Rightarrow> rank_st list res" where
  "counters_all capturing [] = Inr []"
| "counters_all capturing (r # rs) = bind_res (counters capturing r) (\<lambda>r. bind_res (counters_all capturing rs) (\<lambda>rs. Inr (r # rs)))"

definition sampler_init ::
    "sync_flags \<Rightarrow> (64 word list \<Rightarrow> 64 word list) \<Rightarrow> environ \<Rightarrow> bool \<Rightarrow> nat list \<Rightarrow> rank_st list \<Rightarrow> (noise list \<times> rank_st list) res" where
  "sampler_init f bc env capturing initial rs =
     bind_res (seed_tensor bc env initial) (\<lambda>seeds.
     bind_res (if f_audit f then counters_all capturing rs else Inr rs) (\<lambda>rs. Inr (map new_noise seeds, rs)))"

definition stage_sampling_params :: "sync_flags \<Rightarrow> rank_st \<Rightarrow> rank_st res" where
  "stage_sampling_params f r =
     (if f_audit f then (case audit_tick f False r of (r, Inl e) \<Rightarrow> Inl e | (r, Inr _) \<Rightarrow> Inr r) else Inr r)"

section \<open>Install checks\<close>

text \<open>\<open>s.count(sub)\<close>: non-overlapping occurrences.\<close>

function py_count :: "string \<Rightarrow> string \<Rightarrow> nat" where
  "py_count sub s =
     (if sub = [] then Suc (length s) else if s = [] then 0
      else if startswith s sub then Suc (py_count sub (drop (length sub) s)) else py_count sub (drop 1 s))"
  by pat_completeness auto
termination
  by (relation "measure (\<lambda>(sub, s). length s)") auto

declare py_count.simps [simp del]

definition line_break :: "char \<Rightarrow> bool" where
  "line_break c = (let n = (of_char c :: nat) in (10 \<le> n \<and> n \<le> 13) \<or> (28 \<le> n \<and> n \<le> 30) \<or> n = 133)"

text \<open>\<open>s.splitlines()\<close>; \<open>cur\<close> is the line so far.\<close>

fun splitlines_from :: "string \<Rightarrow> string \<Rightarrow> string list" where
  "splitlines_from cur [] = (if cur = [] then [] else [cur])"
| "splitlines_from cur [c] = (if line_break c then [cur] else [cur @ [c]])"
| "splitlines_from cur (c # d # s) =
     (if line_break c then
        (if of_char c = (13 :: nat) \<and> of_char d = (10 :: nat) then cur # splitlines_from [] s else cur # splitlines_from [] (d # s))
      else splitlines_from (cur @ [c]) (d # s))"

definition call_uses_exp_noise :: "string \<Rightarrow> bool" where
  "call_uses_exp_noise src = (py_count ''self.exp_noise[:bs].exponential_()'' src = 1)"

definition wanted_syncs :: "string list" where
  "wanted_syncs = map (\<lambda>n. ''self._tp_sync.sync(SpecTpSyncSite.DSPARK_ACCEPT_GRAPH, '' @ n @ '')'')
     [''correct_len'', ''bonus'', ''cap_trim_lens'']"

definition accept_syncs_back_to_back :: "string \<Rightarrow> bool" where
  "accept_syncs_back_to_back src =
     (let lines = map py_strip (splitlines_from [] src) in
      list_ex (\<lambda>i. Py_Prelude.slice i (i + 3) lines = wanted_syncs) [0..<length lines - 2]
      \<and> py_count ''DSPARK_ACCEPT_GRAPH'' src = 3)"

record sync_installed =
  i_sync :: bool
  i_sampler :: bool
  i_verify :: bool

definition install_sync :: "sync_flags \<Rightarrow> sync_installed \<Rightarrow> sync_installed" where
  "install_sync f st = (if \<not> f_enabled f \<or> i_sync st then st else st\<lparr>i_sync := True\<rparr>)"

definition install_sampler :: "sync_flags \<Rightarrow> string \<Rightarrow> bool \<Rightarrow> sync_installed \<Rightarrow> sync_installed \<times> unit res" where
  "install_sampler f call_src triton st =
     (if \<not> f_enabled f then (st, Inr ())
      else let st = install_sync f st in
        if \<not> f_noise f \<or> i_sampler st then (st, Inr ())
        else if \<not> call_uses_exp_noise call_src then (st, Inl RuntimeError)
        else if \<not> triton then (st, Inl RuntimeError)
        else (st\<lparr>i_sampler := True\<rparr>, Inr ()))"

definition install_verify :: "sync_flags \<Rightarrow> string \<Rightarrow> sync_installed \<Rightarrow> sync_installed \<times> unit res" where
  "install_verify f accept_src st =
     (if \<not> f_enabled f then (st, Inr ())
      else let st = install_sync f st in
        if i_verify st then (st, Inr ())
        else let st = st\<lparr>i_verify := True\<rparr> in
          if f_want_merge f \<and> \<not> accept_syncs_back_to_back accept_src then (st, Inl RuntimeError)
          else (st, Inr ()))"

section \<open>Lemmas\<close>

text \<open>The documented effect of \<open>broadcast(values, src=0)\<close>: every rank holds what rank 0 held.\<close>

definition broadcasts :: "('a list \<Rightarrow> 'a list) \<Rightarrow> bool" where
  "broadcasts bc = (\<forall>vs. vs \<noteq> [] \<longrightarrow> bc vs = replicate (length vs) (hd vs))"

lemma broadcasts_nth:
  assumes "broadcasts bc" and "i < length vs"
  shows "length (bc vs) = length vs" and "bc vs ! i = vs ! 0"
proof -
  have "vs \<noteq> []" using assms(2) by auto
  then have "bc vs = replicate (length vs) (vs ! 0)" using assms(1) by (simp add: broadcasts_def hd_conv_nth)
  then show "length (bc vs) = length vs" and "bc vs ! i = vs ! 0" using assms(2) by simp_all
qed

lemma bcast_addr_simps:
  assumes "broadcasts bc"
  shows "length (bcast_addr bc a rs) = length rs"
    and "i < length rs \<Longrightarrow> bcast_addr bc a rs ! i = (rs ! i)\<lparr>r_store := (r_store (rs ! i))(a := r_store (rs ! 0) a)\<rparr>"
proof -
  let ?vs = "map (\<lambda>r. r_store r a) rs"
  have len: "length (bc ?vs) = length rs" if "rs \<noteq> []"
    using broadcasts_nth(1) [OF assms, of 0 ?vs] that by simp
  then show "length (bcast_addr bc a rs) = length rs" by (cases rs) (simp_all add: bcast_addr_def)
  assume i: "i < length rs"
  then have "rs \<noteq> []" and "0 < length rs" by auto
  then have "bc ?vs ! i = r_store (rs ! 0) a" using broadcasts_nth(2) [OF assms, of i ?vs] i by simp
  then show "bcast_addr bc a rs ! i = (rs ! i)\<lparr>r_store := (r_store (rs ! i))(a := r_store (rs ! 0) a)\<rparr>"
    using len [OF \<open>rs \<noteq> []\<close>] i by (simp add: bcast_addr_def)
qed

lemma ensure_counters_store [simp]: "r_store (ensure_counters r) = r_store r"
  by (simp add: ensure_counters_def split: option.splits)

lemma count_check_store [simp]: "r_store (count_check site a b r) = r_store r"
  by (simp add: count_check_def split: option.splits)

lemma audited_store:
  assumes "broadcasts bc" and "i < length rs"
  shows "length (audited_broadcast bc capturing a site rs) = length rs"
    and "r_store (audited_broadcast bc capturing a site rs ! i) = (r_store (rs ! i))(a := r_store (rs ! 0) a)"
proof -
  have "0 < length rs" using assms(2) by (rule le_less_trans [OF le0])
  then show "length (audited_broadcast bc capturing a site rs) = length rs"
    and "r_store (audited_broadcast bc capturing a site rs ! i) = (r_store (rs ! i))(a := r_store (rs ! 0) a)"
    using assms bcast_addr_simps [OF assms(1)] by (simp_all add: audited_broadcast_def Let_def)
qed

text \<open>A rank's counters of a site, zero before they exist.\<close>

definition site_counts :: "audit_site \<Rightarrow> rank_st \<Rightarrow> nat \<times> nat" where
  "site_counts site r = (case r_counters r of None \<Rightarrow> (0, 0) | Some c \<Rightarrow> c site)"

text \<open>The counters of a rank after an audited broadcast that changed its tensor or did not: they are created on the first
  check outside a capture, and without them a broadcast in a capture is not counted.\<close>

definition audit_count :: "bool \<Rightarrow> audit_site \<Rightarrow> bool \<Rightarrow> (audit_site \<Rightarrow> nat \<times> nat) option \<Rightarrow> (audit_site \<Rightarrow> nat \<times> nat) option" where
  "audit_count capturing site differs counts =
     (if counts = None \<and> capturing then None
      else let c = (case counts of None \<Rightarrow> \<lambda>_. (0, 0) | Some c \<Rightarrow> c)
        in Some (c(site := (fst (c site) + of_bool differs, snd (c site) + 1))))"

lemma audited_rank:
  assumes "broadcasts bc" and "i < length rs"
  shows "audited_broadcast bc capturing a site rs ! i
    = (rs ! i)\<lparr>r_store := (r_store (rs ! i))(a := r_store (rs ! 0) a),
        r_counters := audit_count capturing site (r_store (rs ! i) a \<noteq> r_store (rs ! 0) a) (r_counters (rs ! i))\<rparr>"
proof -
  let ?e = "if capturing then rs else map ensure_counters rs"
  have "0 < length rs" using assms(2) by (rule le_less_trans [OF le0])
  then have "audited_broadcast bc capturing a site rs ! i
      = count_check site a (?e ! i) ((?e ! i)\<lparr>r_store := (r_store (rs ! i))(a := r_store (rs ! 0) a)\<rparr>)"
    using assms(2) bcast_addr_simps [OF assms(1)] by (cases capturing) (simp_all add: audited_broadcast_def Let_def)
  then show ?thesis using assms(2)
    by (cases "r_counters (rs ! i)") (simp_all add: count_check_def ensure_counters_def audit_count_def Let_def)
qed

lemma audited_counts:
  assumes "broadcasts bc" and "i < length rs"
  shows "site_counts site (audited_broadcast bc False a site rs ! i)
    = (fst (site_counts site (rs ! i)) + (if r_store (rs ! i) a \<noteq> r_store (rs ! 0) a then 1 else 0),
       snd (site_counts site (rs ! i)) + 1)"
  by (cases "r_counters (rs ! i)") (simp_all add: audited_rank [OF assms] audit_count_def site_counts_def)

text \<open>A broadcast changes no rank exactly when every rank already holds rank 0's value.\<close>

lemma bcast_fixpoint:
  assumes "broadcasts bc"
  shows "bcast_addr bc a rs = rs \<longleftrightarrow> (\<forall>i < length rs. r_store (rs ! i) a = r_store (rs ! 0) a)"
proof
  assume same: "bcast_addr bc a rs = rs"
  show "\<forall>i < length rs. r_store (rs ! i) a = r_store (rs ! 0) a"
  proof (intro allI impI)
    fix i assume "i < length rs"
    from bcast_addr_simps(2) [OF assms this, of a] same
    have "r_store (rs ! i) = (r_store (rs ! i))(a := r_store (rs ! 0) a)" by (metis rank_st.select_convs(1) rank_st.surjective rank_st.update_convs(1))
    then show "r_store (rs ! i) a = r_store (rs ! 0) a" by (metis fun_upd_same)
  qed
next
  assume same: "\<forall>i < length rs. r_store (rs ! i) a = r_store (rs ! 0) a"
  show "bcast_addr bc a rs = rs"
  proof (rule nth_equalityI)
    fix i assume "i < length (bcast_addr bc a rs)"
    then have i: "i < length rs" by (simp add: bcast_addr_simps(1) [OF assms])
    have "(r_store (rs ! i))(a := r_store (rs ! 0) a) = r_store (rs ! i)"
      using same i by (intro fun_upd_idem) simp
    then show "bcast_addr bc a rs ! i = rs ! i" by (simp add: bcast_addr_simps(2) [OF assms i])
  qed (rule bcast_addr_simps(1) [OF assms])
qed

section \<open>The noise stream\<close>

text \<open>The engine's sampler call with \<open>k\<close> Markov steps on \<open>bs\<close> rows, and a sequence of calls.\<close>

fun draws :: "(64 word \<Rightarrow> nat \<Rightarrow> 'u) \<Rightarrow> nat \<Rightarrow> nat \<Rightarrow> nat \<Rightarrow> noise \<Rightarrow> noise \<times> 'u list list list res" where
  "draws neg_log_u bs v 0 n = (n, Inr [])"
| "draws neg_log_u bs v (Suc k) n =
     (case exponential neg_log_u bs v False n of
        (n, Inl e) \<Rightarrow> (n, Inl e)
      | (n, Inr out) \<Rightarrow> (case draws neg_log_u bs v k n of (n, r) \<Rightarrow> (n, bind_res r (\<lambda>outs. Inr (out # outs)))))"

fun run_calls :: "(64 word \<Rightarrow> nat \<Rightarrow> 'u) \<Rightarrow> nat \<Rightarrow> (nat \<times> nat) list \<Rightarrow> noise \<Rightarrow> noise \<times> 'u list list list list res" where
  "run_calls neg_log_u v [] n = (n, Inr [])"
| "run_calls neg_log_u v ((bs, k) # cs) n =
     (case sampler_call (draws neg_log_u bs v k) n of
        (n, Inl e) \<Rightarrow> (n, Inl e)
      | (n, Inr out) \<Rightarrow> (case run_calls neg_log_u v cs n of (n, r) \<Rightarrow> (n, bind_res r (\<lambda>outs. Inr (out # outs)))))"

lemma draws_stream:
  assumes "bs * v < 2 ^ 31"
  shows "n_step n + k \<le> 64 \<Longrightarrow> draws neg_log_u bs v k n
    = (n\<lparr>n_step := n_step n + k\<rparr>, Inr (map (exp_noise_kernel neg_log_u bs v (n_seed n) (n_ctr n)) [n_step n..<n_step n + k]))"
proof (induction k arbitrary: n)
  case (Suc k)
  have "fill_exp_noise neg_log_u bs v (n_seed n) (n_ctr n) (n_step n)
      = Inr (exp_noise_kernel neg_log_u bs v (n_seed n) (n_ctr n) (n_step n))"
    using Suc.prems assms by (simp add: fill_exp_noise_def exp_noise_kernel_def)
  moreover have "[n_step n..<n_step n + Suc k] = n_step n # [Suc (n_step n)..<Suc (n_step n) + k]"
    by (simp add: upt_conv_Cons)
  ultimately show ?case using Suc.IH [of "n\<lparr>n_step := Suc (n_step n)\<rparr>"] Suc.prems
    by (simp add: exponential_def del: upt_Suc)
qed simp

lemma run_calls_stream:
  assumes "list_all (\<lambda>(bs, k). k \<le> 64 \<and> bs * v < 2 ^ 31) cs"
  shows "snd (run_calls neg_log_u v cs n)
    = Inr (map (\<lambda>c. map (exp_noise_kernel neg_log_u (fst (cs ! c)) v (n_seed n) (n_ctr n + of_nat c)) [0..<snd (cs ! c)]) [0..<length cs])"
  using assms
proof (induction cs arbitrary: n)
  case (Cons c cs)
  obtain bs k where c: "c = (bs, k)" by (cases c)
  let ?n = "n\<lparr>n_step := k, n_ctr := n_ctr n + 1\<rparr>"
  have call: "sampler_call (draws neg_log_u bs v k) n = (?n, Inr (map (exp_noise_kernel neg_log_u bs v (n_seed n) (n_ctr n)) [0..<k]))"
    using draws_stream [of bs v "n\<lparr>n_step := 0\<rparr>" k neg_log_u] Cons.prems c by (simp add: sampler_call_def)
  have shift: "map (\<lambda>i. f (Suc i)) [0..<m] = map f [Suc 0..<Suc m]" for f :: "nat \<Rightarrow> 'b" and m
    by (simp add: map_Suc_upt [symmetric] comp_def del: upt_Suc)
  have "[0..<length (c # cs)] = 0 # [Suc 0..<Suc (length cs)]" by (simp add: upt_conv_Cons del: upt_Suc)
  then show ?case using call Cons.IH [of ?n] Cons.prems c
    by (cases "run_calls neg_log_u v cs ?n") (simp add: shift [symmetric] add.assoc del: upt_Suc)
qed simp

lemma noise_key_inj:
  assumes "n \<le> 2 ^ 58"
  shows "inj_on (\<lambda>(c, j). noise_key s (of_nat c) j) ({..<n} \<times> {..<64})"
proof (rule inj_onI, clarsimp)
  fix c j c' j' :: nat
  assume *: "c < n" "j < 64" "c' < n" "j' < 64" "noise_key s (of_nat c) j = noise_key s (of_nat c') j'"
  then have "(of_nat (c * 64 + j) :: 64 word) = of_nat (c' * 64 + j')" by (simp add: noise_key_def)
  moreover have "c * 64 + j < 2 ^ 64" "c' * 64 + j' < 2 ^ 64" using * assms by auto
  ultimately have "c * 64 + j = c' * 64 + j'"
    unfolding word_of_nat_eq_iff by (simp add: take_bit_nat_eq_self del: of_nat_add of_nat_mult)
  moreover have "(c * 64 + j) div 64 = c" "(c' * 64 + j') div 64 = c'" using *(2,4) by simp_all
  ultimately show "c = c' \<and> j = j'" by simp
qed

section \<open>Properties\<close>

text \<open>C30: what a sync site does to every rank, whatever the ranks hold. A stock or audited site gives every rank rank 0's
  value in the synced tensor and changes nothing else, except that an audited site counts one check on every rank and
  one mismatch on exactly those whose own value differed, creating the counters at the first check and counting
  nothing without them in a capture. A skipped site changes nothing at all: every rank keeps its own value. That is what
  the broadcast would have left exactly when an audit of the same site on the same states counts no mismatch.\<close>

theorem sync_is_stock_broadcast:
  assumes "broadcasts bc" and "orig site a rs = bcast_addr bc a rs" and "site \<in> set sites"
    and "sync_live f ab = (skip_draft, skip_accept, skip_vcap, merge)"
    and "f_audit f \<or> skip_accept \<or> \<not> merge \<or> site \<noteq> DSPARK_ACCEPT_GRAPH"
  shows "\<exists>rs'. sync f ab bc orig sites capturing site a rs = Inr rs'
    \<and> (if \<not> f_audit f \<and> (site_name site = Some Draft_site \<and> skip_draft \<or> site_name site = Some Accept_site \<and> skip_accept)
       then rs' = rs
         \<and> (\<forall>f' ab' audit name. f_audit f' \<and> site_name site = Some name \<and> sync f' ab' bc orig sites False site a rs = Inr audit \<longrightarrow>
              (rs' = bcast_addr bc a rs) = (\<forall>i < length rs. fst (site_counts name (audit ! i)) = fst (site_counts name (rs ! i))))
       else length rs' = length rs
         \<and> (\<forall>i < length rs. rs' ! i = (rs ! i)\<lparr>r_store := (r_store (rs ! i))(a := r_store (rs ! 0) a),
              r_counters := (case site_name site of
                  Some name \<Rightarrow> if f_audit f then audit_count capturing name (r_store (rs ! i) a \<noteq> r_store (rs ! 0) a) (r_counters (rs ! i))
                    else r_counters (rs ! i)
                | None \<Rightarrow> r_counters (rs ! i))\<rparr>))"
proof (cases "f_audit f \<and> site_name site \<noteq> None")
  case True
  then obtain name where "site_name site = Some name" by auto
  moreover have "length (audited_broadcast bc capturing a name rs) = length rs"
    using audited_store(1) [OF assms(1), of 0 rs] by (cases rs) (simp_all add: audited_broadcast_def bcast_addr_def)
  ultimately show ?thesis using True assms(3) audited_rank [OF assms(1)] by (simp add: sync_def)
next
  case False
  let ?b = "bcast_addr bc a rs"
  have b: "length ?b = length rs" "\<And>i. i < length rs \<Longrightarrow> ?b ! i = (rs ! i)\<lparr>r_store := (r_store (rs ! i))(a := r_store (rs ! 0) a)\<rparr>"
    using bcast_addr_simps [OF assms(1)] by simp_all
  show ?thesis
  proof (cases "\<not> f_audit f \<and> (site_name site = Some Draft_site \<and> skip_draft \<or> site_name site = Some Accept_site \<and> skip_accept)")
    case True
    have "(rs = ?b) = (\<forall>i < length rs. fst (site_counts name (audit ! i)) = fst (site_counts name (rs ! i)))"
      if "f_audit f'" "site_name site = Some name" "sync f' ab' bc orig sites False site a rs = Inr audit" for f' ab' audit name
    proof -
      have "audit = audited_broadcast bc False a name rs" using that assms(3) by (simp add: sync_def)
      then show ?thesis using bcast_fixpoint [OF assms(1), of a rs] audited_counts [OF assms(1)] by (auto simp: eq_commute [of rs])
    qed
    moreover have "sync f ab bc orig sites capturing site a rs = Inr rs" using True assms(3,4) by (auto simp: sync_def)
    ultimately show ?thesis unfolding if_P [OF True] by blast
  next
    case skip: False
    then have "sync f ab bc orig sites capturing site a rs = Inr ?b"
      using False assms(2-5) by (auto simp: sync_def site_name_def split: if_splits)
    moreover have "\<not> (f_audit f \<and> site_name site = Some name)" for name using False by simp
    ultimately show ?thesis using skip b False by (intro exI [of _ ?b]) (auto split: option.split)
  qed
qed

definition wit_ranks :: "rank_st list" where
  "wit_ranks = map (\<lambda>v. \<lparr>r_store = (\<lambda>a. if a = 0 then [v] else [7, v]), r_pending = [], r_counters = None, r_calls = 0, r_last = None\<rparr>) [3, 4]"

definition wit_bc :: "'a list \<Rightarrow> 'a list" where
  "wit_bc vs = (case vs of [] \<Rightarrow> [] | v # _ \<Rightarrow> replicate (length vs) v)"

definition wit_flags :: sync_flags where
  "wit_flags = \<lparr>f_enabled = True, f_audit = True, f_skip_draft = False, f_skip_accept = False, f_skip_vcap = False, f_merge = False,
     f_noise = True, f_audit_every = 1024, f_want_merge = False\<rparr>"

lemma wit_bc_broadcasts: "broadcasts wit_bc"
  by (auto simp: broadcasts_def wit_bc_def split: list.splits)

text \<open>Two ranks that hold different values: the audited site gives both rank 0's and counts the second rank, the
  skipped site leaves both as they are, which is not what the broadcast leaves.\<close>

theorem sync_is_stock_broadcast_witness:
  "(\<exists>rs'. sync wit_flags None wit_bc (\<lambda>_. bcast_addr wit_bc) [DSPARK_GRAPH_SAMPLE] False DSPARK_GRAPH_SAMPLE 0 wit_ranks = Inr rs'
      \<and> r_store (rs' ! 1) 0 = [3] \<and> r_store (rs' ! 1) 1 = [7, 4]
      \<and> site_counts Draft_site (rs' ! 0) = (0, 1) \<and> site_counts Draft_site (rs' ! 1) = (1, 1))
   \<and> sync (wit_flags\<lparr>f_audit := False, f_skip_draft := True\<rparr>) None wit_bc (\<lambda>_. bcast_addr wit_bc) [DSPARK_GRAPH_SAMPLE] False
        DSPARK_GRAPH_SAMPLE 0 wit_ranks = Inr wit_ranks
   \<and> wit_ranks \<noteq> bcast_addr wit_bc 0 wit_ranks"
proof -
  let ?f = "wit_flags\<lparr>f_audit := False, f_skip_draft := True\<rparr>"
  let ?sync = "\<lambda>f. sync f None wit_bc (\<lambda>_. bcast_addr wit_bc) [DSPARK_GRAPH_SAMPLE] False DSPARK_GRAPH_SAMPLE 0 wit_ranks"
  have len: "length wit_ranks = 2" by (simp add: wit_ranks_def)
  obtain rs' where rs': "?sync wit_flags = Inr rs'"
    "\<forall>i < length wit_ranks. rs' ! i = (wit_ranks ! i)\<lparr>r_store := (r_store (wit_ranks ! i))(0 := r_store (wit_ranks ! 0) 0),
        r_counters := audit_count False Draft_site (r_store (wit_ranks ! i) 0 \<noteq> r_store (wit_ranks ! 0) 0) (r_counters (wit_ranks ! i))\<rparr>"
    using sync_is_stock_broadcast [OF wit_bc_broadcasts, of "\<lambda>_. bcast_addr wit_bc" DSPARK_GRAPH_SAMPLE 0 wit_ranks "[DSPARK_GRAPH_SAMPLE]"
      wit_flags None False False False False False] by (auto simp: sync_live_def wit_flags_def site_name_def)
  from rs'(2) len have c: "r_store (rs' ! 1) 0 = [3]" "r_store (rs' ! 1) 1 = [7, 4]"
    "site_counts Draft_site (rs' ! 0) = (0, 1)" "site_counts Draft_site (rs' ! 1) = (1, 1)"
    by (simp_all add: wit_ranks_def site_counts_def audit_count_def)
  have skip: "?sync ?f = Inr wit_ranks \<and> (\<forall>f' ab' audit name. f_audit f' \<and> site_name DSPARK_GRAPH_SAMPLE = Some name
      \<and> sync f' ab' wit_bc (\<lambda>_. bcast_addr wit_bc) [DSPARK_GRAPH_SAMPLE] False DSPARK_GRAPH_SAMPLE 0 wit_ranks = Inr audit \<longrightarrow>
        (wit_ranks = bcast_addr wit_bc 0 wit_ranks)
          = (\<forall>i < length wit_ranks. fst (site_counts name (audit ! i)) = fst (site_counts name (wit_ranks ! i))))"
    using sync_is_stock_broadcast [OF wit_bc_broadcasts, of "\<lambda>_. bcast_addr wit_bc" DSPARK_GRAPH_SAMPLE 0 wit_ranks "[DSPARK_GRAPH_SAMPLE]"
      ?f None True False False False False] by (auto simp: sync_live_def wit_flags_def site_name_def)
  have "fst (site_counts Draft_site (wit_ranks ! 1)) = 0" by (simp add: wit_ranks_def site_counts_def)
  moreover have "(wit_ranks = bcast_addr wit_bc 0 wit_ranks)
      = (\<forall>i < length wit_ranks. fst (site_counts Draft_site (rs' ! i)) = fst (site_counts Draft_site (wit_ranks ! i)))"
    using conjunct2 [OF skip, rule_format, of wit_flags Draft_site None rs'] rs'(1) by (simp add: wit_flags_def site_name_def)
  moreover have "\<not> (\<forall>i < length wit_ranks. fst (site_counts Draft_site (rs' ! i)) = fst (site_counts Draft_site (wit_ranks ! i)))"
  proof
    assume "\<forall>i < length wit_ranks. fst (site_counts Draft_site (rs' ! i)) = fst (site_counts Draft_site (wit_ranks ! i))"
    from spec [OF this, of 1] show False using c(4) len calculation(1) by simp
  qed
  ultimately have "wit_ranks \<noteq> bcast_addr wit_bc 0 wit_ranks" by blast
  then show ?thesis using rs'(1) c skip by blast
qed

text \<open>C24: the merged accept is the three broadcasts. The three syncs of the accept epilogue with \<open>merge\<close>, on tensors of one
  length, leave every rank in the state the three separate broadcasts leave it in.\<close>

theorem merged_accept_exact:
  assumes "broadcasts bc" and "rs \<noteq> []" and "list_all (\<lambda>r. r_pending r = []) rs" and "distinct [a, b, c]"
    and "list_all (\<lambda>r. length (r_store r a) = n \<and> length (r_store r b) = n \<and> length (r_store r c) = n) rs"
    and "DSPARK_ACCEPT_GRAPH \<in> set sites" and "\<not> f_audit f" and "sync_live f ab = (skip_draft, False, skip_vcap, True)"
  shows "bind_res (sync f ab bc orig sites capturing DSPARK_ACCEPT_GRAPH a rs) (\<lambda>rs.
      bind_res (sync f ab bc orig sites capturing DSPARK_ACCEPT_GRAPH b rs) (\<lambda>rs.
        sync f ab bc orig sites capturing DSPARK_ACCEPT_GRAPH c rs))
    = Inr (bcast_addr bc c (bcast_addr bc b (bcast_addr bc a rs)))"
proof -
  have sync: "sync f ab bc orig sites capturing DSPARK_ACCEPT_GRAPH x xs = merged_accept bc x xs" for x xs
    using assms(6-8) by (simp add: sync_def site_name_def)
  let ?p = "map (\<lambda>r. r\<lparr>r_pending := [a, b, c]\<rparr>) rs"
  have one: "merged_accept bc a rs = Inr (map (\<lambda>r. r\<lparr>r_pending := [a]\<rparr>) rs)"
  proof -
    have "map (\<lambda>r. r\<lparr>r_pending := r_pending r @ [a]\<rparr>) rs = map (\<lambda>r. r\<lparr>r_pending := [a]\<rparr>) rs"
      using assms(3) by (simp add: list_all_iff)
    then show ?thesis by (simp add: merged_accept_def list_all_iff)
  qed
  have two: "merged_accept bc b (map (\<lambda>r. r\<lparr>r_pending := [a]\<rparr>) rs) = Inr (map (\<lambda>r. r\<lparr>r_pending := [a, b]\<rparr>) rs)"
    by (simp add: merged_accept_def list_all_iff comp_def)
  have pend: "map (\<lambda>r. r\<lparr>r_pending := r_pending r @ [c]\<rparr>) (map (\<lambda>r. r\<lparr>r_pending := [a, b]\<rparr>) rs) = ?p"
    by (simp add: comp_def)
  have "list_all same_shape ?p" using assms(5) by (simp add: list_all_iff same_shape_def)
  then have three: "merged_accept bc c (map (\<lambda>r. r\<lparr>r_pending := [a, b]\<rparr>) rs) = Inr (map2 unpack ?p (bc (map packed ?p)))"
    unfolding merged_accept_def pend Let_def using assms(2) by (simp add: list_all_iff)
  have len: "length (bc (map packed ?p)) = length rs"
    using broadcasts_nth(1) [OF assms(1), of 0 "map packed ?p"] assms(2) by simp
  have "map2 unpack ?p (bc (map packed ?p)) = bcast_addr bc c (bcast_addr bc b (bcast_addr bc a rs))"
  proof (rule nth_equalityI)
    show "length (map2 unpack ?p (bc (map packed ?p))) = length (bcast_addr bc c (bcast_addr bc b (bcast_addr bc a rs)))"
      using len bcast_addr_simps [OF assms(1)] by simp
    fix i
    assume "i < length (map2 unpack ?p (bc (map packed ?p)))"
    then have i: "i < length rs" by simp
    then have z: "0 < length rs" by (rule le_less_trans [OF le0])
    have v: "bc (map packed ?p) ! i = r_store (rs ! 0) a @ r_store (rs ! 0) b @ r_store (rs ! 0) c"
      using broadcasts_nth(2) [OF assms(1), of i "map packed ?p"] i z by (simp add: packed_def)
    have l: "length (r_store (rs ! k) x) = n" if "k < length rs" "x = a \<or> x = b \<or> x = c" for k x
      using assms(5) that by (auto simp: list_all_length)
    have "r_pending (rs ! i) = []" using assms(3) i by (simp add: list_all_length)
    then show "map2 unpack ?p (bc (map packed ?p)) ! i = bcast_addr bc c (bcast_addr bc b (bcast_addr bc a rs)) ! i"
      using i z v l [OF i] l [OF z] assms(4) len bcast_addr_simps [OF assms(1)]
      by (cases "rs ! i") (simp add: unpack_def Let_def Py_Prelude.slice_def)
  qed
  with one two three show ?thesis by (simp add: sync)
qed

theorem merged_accept_exact_witness:
  "bind_res (merged_accept wit_bc 1 wit_ranks) (\<lambda>rs. bind_res (merged_accept wit_bc 2 rs) (merged_accept wit_bc 3))
    = Inr (bcast_addr wit_bc 3 (bcast_addr wit_bc 2 (bcast_addr wit_bc 1 wit_ranks)))"
proof -
  let ?f = "wit_flags\<lparr>f_audit := False, f_merge := True\<rparr>"
  have "sync ?f None wit_bc (\<lambda>_. bcast_addr wit_bc) [DSPARK_ACCEPT_GRAPH] False DSPARK_ACCEPT_GRAPH = merged_accept wit_bc"
    by (intro ext) (simp add: sync_def site_name_def sync_live_def wit_flags_def)
  then show ?thesis
    using merged_accept_exact [OF wit_bc_broadcasts, of wit_ranks 1 2 3 2 "[DSPARK_ACCEPT_GRAPH]" ?f None False False
      "\<lambda>_. bcast_addr wit_bc" False] by (simp add: wit_ranks_def sync_live_def wit_flags_def)
qed

text \<open>C31: the draft noise is rank-invariant and never repeats. Whatever seeds the ranks start with, after the broadcast at
  construction the same sampler calls draw the same noise on every rank, the noise of call \<open>c\<close> and step \<open>j\<close> is
  the Philox stream of its own key, and no two draws of fewer than \<open>2 ^ 58\<close> calls of at most 64 steps share a key.\<close>

theorem draft_noise_rank_invariant:
  assumes "broadcasts bc" and "sampler_init f bc env capturing initial rs = Inr (ns, rs')" and "i < length ns"
    and "list_all (\<lambda>(bs, k). k \<le> 64 \<and> bs * v < 2 ^ 31) cs" and "length cs \<le> 2 ^ 58"
  shows "snd (run_calls neg_log_u v cs (ns ! i))
      = Inr (map (\<lambda>c. map (exp_noise_kernel neg_log_u (fst (cs ! c)) v (n_seed (ns ! 0)) (of_nat c)) [0..<snd (cs ! c)]) [0..<length cs])
    \<and> inj_on (\<lambda>(c, j). noise_key (n_seed (ns ! 0)) (of_nat c) j) ({..<length cs} \<times> {..<64})"
proof -
  have own: "length ss = length is" if "own_seeds env is = Inr ss" for "is" ss
    using that by (induction "is" arbitrary: ss) (auto simp: bind_res_Inr_iff)
  obtain ss seeds where ss: "own_seeds env initial = Inr ss" "seeds = (if 1 < length initial then bc ss else ss)"
    and ns: "ns = map new_noise seeds"
    using assms(2) by (auto simp: sampler_init_def seed_tensor_def bind_res_Inr_iff)
  have i: "i < length seeds" using assms(3) ns by simp
  have "seeds ! i = seeds ! 0"
  proof (cases "1 < length initial")
    case True
    then have z: "0 < length ss" using own [OF ss(1)] by linarith
    then have "length (bc ss) = length ss" by (rule broadcasts_nth(1) [OF assms(1)])
    then show ?thesis using True ss(2) i z by (simp add: broadcasts_nth(2) [OF assms(1)])
  next
    case False
    then show ?thesis using i ss own [OF ss(1)] by (cases i) auto
  qed
  moreover have "0 < length seeds" using i by (rule le_less_trans [OF le0])
  ultimately show ?thesis using noise_key_inj [OF assms(5)] i ns by (simp add: new_noise_def run_calls_stream [OF assms(4)])
qed

theorem draft_noise_rank_invariant_witness:
  "snd (run_calls (\<lambda>k o'. (k, o')) 2 [(1, 2), (1, 1)] (new_noise 5))
   = Inr [[[[(5, 0), (5, 1)]], [[(6, 0), (6, 1)]]], [[[(69, 0), (69, 1)]]]]"
proof -
  let ?f = "wit_flags\<lparr>f_audit := False\<rparr>"
  have s: "sampler_init ?f wit_bc (\<lambda>_. None) False [5, 7] wit_ranks = Inr ([new_noise 5, new_noise 5], wit_ranks)"
    by (simp add: sampler_init_def seed_tensor_def own_seed_def env_get_def py_strip_def take_bit_eq_mod wit_bc_def)
  let ?cs = "[(1, 2), (1, 1)] :: (nat \<times> nat) list"
  have "snd (run_calls (\<lambda>k o'. (k, o')) 2 ?cs ([new_noise 5, new_noise 5] ! 1))
      = Inr (map (\<lambda>c. map (exp_noise_kernel (\<lambda>k o'. (k, o')) (fst (?cs ! c)) 2 (n_seed ([new_noise 5, new_noise 5] ! 0)) (of_nat c)) [0..<snd (?cs ! c)]) [0..<length ?cs])"
    using draft_noise_rank_invariant [OF wit_bc_broadcasts s, of 1 2 ?cs "\<lambda>k o'. (k, o')"] by simp
  also have "map (\<lambda>c. map (exp_noise_kernel (\<lambda>k o'. (k, o')) (fst (?cs ! c)) 2 (n_seed ([new_noise 5, new_noise 5] ! 0)) (of_nat c)) [0..<snd (?cs ! c)]) [0..<length ?cs]
      = [[[[(5, 0), (5, 1)]], [[(6, 0), (6, 1)]]], [[[(69, 0), (69, 1)]]]]"
    by (simp add: exp_noise_kernel_def noise_key_def new_noise_def numeral_2_eq_2)
  finally show ?thesis by simp
qed

end
