(* ===== verification/Py_Float.thy ===== *)
theory Py_Float
  imports Complex_Main Py_Prelude
begin

text \<open>
  A float as the adapters compare them: a number, an infinity or NaN, in the total order in which
  \<open>torch.max\<close> and \<open>torch.argmax\<close> rank them (NaN last).
\<close>

datatype fval = NInf | Fin real | PInf | NaN

instantiation fval :: linorder
begin

fun less_eq_fval :: "fval \<Rightarrow> fval \<Rightarrow> bool" where
  "NInf \<le> y = True"
| "Fin x \<le> NInf = False"
| "Fin x \<le> Fin y = (x \<le> y)"
| "Fin x \<le> PInf = True"
| "Fin x \<le> NaN = True"
| "PInf \<le> y = (y = PInf \<or> y = NaN)"
| "NaN \<le> y = (y = NaN)"

definition less_fval :: "fval \<Rightarrow> fval \<Rightarrow> bool" where
  "less_fval x y = (x \<le> y \<and> \<not> y \<le> x)"

instance
proof
  fix x y z :: fval
  show "(x < y) = (x \<le> y \<and> \<not> y \<le> x)" by (rule less_fval_def)
  show "x \<le> x" by (cases x) simp_all
  show "x \<le> y \<Longrightarrow> y \<le> z \<Longrightarrow> x \<le> z" by (cases x; cases y; cases z) simp_all
  show "x \<le> y \<Longrightarrow> y \<le> x \<Longrightarrow> x = y" by (cases x; cases y) simp_all
  show "x \<le> y \<or> y \<le> x" by (cases x; cases y) auto
qed

end

lemma NInf_least [simp]: "NInf \<le> x"
  by simp

lemma fval_le_NaN [simp]: "x \<le> NaN"
  by (cases x) simp_all

lemma fval_le_PInf: "x \<le> PInf \<longleftrightarrow> x \<noteq> NaN"
  by (cases x) simp_all

lemma fval_le_NInf [simp]: "x \<le> NInf \<longleftrightarrow> x = NInf"
  by (cases x) simp_all

end
