(* ===== verification/Float_Round.thy ===== *)
theory Float_Round
  imports Py_Float
begin

text \<open>
  IEEE arithmetic for the bounds the adapters compute: binary formats, rounding to the nearest even value with
  gradual underflow and overflow to infinity, the operations on \<open>fval\<close>, and sums in any order. The locale \<open>ieee\<close> states
  what the error analysis uses of a rounding, and every format is an instance of it.
\<close>

section \<open>Formats\<close>

text \<open>Precision in bits, exponent of the smallest normal number, exponent of the largest binade.\<close>

datatype fmt = Fmt (prec: nat) (emin: int) (emax: int)

definition F64 :: fmt where "F64 = Fmt 53 (-1022) 1023"
definition F32 :: fmt where "F32 = Fmt 24 (-126) 127"
definition F16 :: fmt where "F16 = Fmt 11 (-14) 15"
definition BF16 :: fmt where "BF16 = Fmt 8 (-126) 127"

definition expo :: "fmt \<Rightarrow> real \<Rightarrow> int" where
  "expo F x = (if x = 0 then emin F else max \<lfloor>log 2 \<bar>x\<bar>\<rfloor> (emin F))"

text \<open>The spacing of the format at \<open>x\<close>.\<close>

definition ulp :: "fmt \<Rightarrow> real \<Rightarrow> real" where
  "ulp F x = 2 powi (expo F x - int (prec F) + 1)"

definition rne :: "real \<Rightarrow> int" where
  "rne x = (let f = \<lfloor>x\<rfloor>; d = x - of_int f in if d < 1/2 then f else if 1/2 < d then f + 1 else if even f then f else f + 1)"

definition rn :: "fmt \<Rightarrow> real \<Rightarrow> real" where
  "rn F x = of_int (rne (x / ulp F x)) * ulp F x"

definition overflow :: "fmt \<Rightarrow> real" where
  "overflow F = 2 powi (emax F + 1)"

definition fl :: "fmt \<Rightarrow> real \<Rightarrow> fval" where
  "fl F x = (let y = rn F x in if overflow F \<le> y then PInf else if y \<le> - overflow F then NInf else Fin y)"

section \<open>Operations\<close>

fun fneg :: "fval \<Rightarrow> fval" where
  "fneg NInf = PInf"
| "fneg (Fin x) = Fin (- x)"
| "fneg PInf = NInf"
| "fneg NaN = NaN"

fun fabs :: "fval \<Rightarrow> fval" where
  "fabs NInf = PInf"
| "fabs (Fin x) = Fin \<bar>x\<bar>"
| "fabs PInf = PInf"
| "fabs NaN = NaN"

fun fadd :: "(real \<Rightarrow> fval) \<Rightarrow> fval \<Rightarrow> fval \<Rightarrow> fval" where
  "fadd R NaN y = NaN"
| "fadd R x NaN = NaN"
| "fadd R (Fin x) (Fin y) = R (x + y)"
| "fadd R PInf NInf = NaN"
| "fadd R NInf PInf = NaN"
| "fadd R PInf y = PInf"
| "fadd R NInf y = NInf"
| "fadd R (Fin x) y = y"

definition fsub :: "(real \<Rightarrow> fval) \<Rightarrow> fval \<Rightarrow> fval \<Rightarrow> fval" where
  "fsub R x y = fadd R x (fneg y)"

definition finf :: "real \<Rightarrow> fval" where
  "finf s = (if s = 0 then NaN else if 0 < s then PInf else NInf)"

fun fmul :: "(real \<Rightarrow> fval) \<Rightarrow> fval \<Rightarrow> fval \<Rightarrow> fval" where
  "fmul R NaN y = NaN"
| "fmul R x NaN = NaN"
| "fmul R (Fin x) (Fin y) = R (x * y)"
| "fmul R PInf PInf = PInf"
| "fmul R NInf NInf = PInf"
| "fmul R PInf NInf = NInf"
| "fmul R NInf PInf = NInf"
| "fmul R (Fin x) PInf = finf x"
| "fmul R (Fin x) NInf = finf (- x)"
| "fmul R PInf (Fin y) = finf y"
| "fmul R NInf (Fin y) = finf (- y)"

text \<open>\<open>x * y + z\<close> with one rounding.\<close>

fun ffma :: "(real \<Rightarrow> fval) \<Rightarrow> fval \<Rightarrow> fval \<Rightarrow> fval \<Rightarrow> fval" where
  "ffma R (Fin x) (Fin y) (Fin z) = R (x * y + z)"
| "ffma R x y z = fadd R (fmul (\<lambda>_. Fin 0) x y) z"

text \<open>A multiply-add the compiler may contract.\<close>

definition mul_add :: "(real \<Rightarrow> fval) \<Rightarrow> bool \<Rightarrow> fval \<Rightarrow> fval \<Rightarrow> fval \<Rightarrow> fval" where
  "mul_add R contract x y z = (if contract then ffma R x y z else fadd R (fmul R x y) z)"

fun fsqrt :: "(real \<Rightarrow> fval) \<Rightarrow> fval \<Rightarrow> fval" where
  "fsqrt R (Fin x) = (if x < 0 then NaN else R (sqrt x))"
| "fsqrt R NInf = NaN"
| "fsqrt R x = x"

fun fcvt :: "(real \<Rightarrow> fval) \<Rightarrow> fval \<Rightarrow> fval" where
  "fcvt R (Fin x) = R x"
| "fcvt R x = x"

text \<open>The next value above a value that is not negative, as the successor of its bit pattern.\<close>

fun next_up :: "fmt \<Rightarrow> fval \<Rightarrow> fval" where
  "next_up F (Fin x) = (if overflow F \<le> x + ulp F x then PInf else Fin (x + ulp F x))"
| "next_up F x = x"

text \<open>A sum of squares, in any order and with any contraction.\<close>

datatype stree = Leaf nat | Add stree stree | Fma nat stree

fun leaves :: "stree \<Rightarrow> nat list" where
  "leaves (Leaf i) = [i]"
| "leaves (Add s t) = leaves s @ leaves t"
| "leaves (Fma i t) = i # leaves t"

fun tsum :: "(real \<Rightarrow> fval) \<Rightarrow> (nat \<Rightarrow> fval) \<Rightarrow> stree \<Rightarrow> fval" where
  "tsum R f (Leaf i) = fmul R (f i) (f i)"
| "tsum R f (Add s t) = fadd R (tsum R f s) (tsum R f t)"
| "tsum R f (Fma i t) = ffma R (f i) (f i) (tsum R f t)"

lemma fmul_commute: "fmul R x y = fmul R y x"
  by (cases x; cases y) (simp_all add: mult.commute)

lemma mul_add_commute: "mul_add R ct x y z = mul_add R ct y x z"
  by (cases x; cases y; cases z) (simp_all add: mul_add_def mult.commute)

section \<open>Rounding to the nearest even value\<close>

lemma rne_error: "\<bar>of_int (rne x) - x\<bar> \<le> 1/2"
  unfolding rne_def Let_def by (simp add: abs_le_iff; linarith)

lemma rne_of_int [simp]: "rne (of_int n) = n"
  by (simp add: rne_def)

lemma rne_mono:
  assumes "x \<le> y"
  shows "rne x \<le> rne y"
proof (cases "\<lfloor>x\<rfloor> = \<lfloor>y\<rfloor>")
  case True
  then show ?thesis using assms unfolding rne_def Let_def by auto
next
  case False
  then have "\<lfloor>x\<rfloor> + 1 \<le> \<lfloor>y\<rfloor>" using floor_mono [OF assms] by linarith
  then show ?thesis unfolding rne_def Let_def by auto
qed

lemma rne_minus: "rne (- x) = - rne x"
proof -
  let ?f = "\<lfloor>x\<rfloor>"
  show ?thesis
  proof (cases "x = of_int ?f")
    case True
    then show ?thesis by (metis of_int_minus rne_of_int)
  next
    case False
    then have "of_int ?f < x" "x < of_int ?f + 1" by linarith+
    then have "\<lfloor>- x\<rfloor> = - ?f - 1" by (intro floor_unique) (simp_all, linarith)
    then have "rne (- x) = (if - x - of_int (- ?f - 1) < 1/2 then - ?f - 1 else if 1/2 < - x - of_int (- ?f - 1) then - ?f else if odd ?f then - ?f - 1 else - ?f)"
      by (simp add: rne_def Let_def)
    then show ?thesis by (simp add: rne_def Let_def)
  qed
qed

lemma rne_ge_int: "of_int n \<le> x \<Longrightarrow> n \<le> rne x"
  using rne_mono [of "of_int n" x] by simp

lemma rne_le_int: "x \<le> of_int n \<Longrightarrow> rne x \<le> n"
  using rne_mono [of x "of_int n"] by simp

section \<open>Spacing\<close>

lemma ulp_pos [simp]: "0 < ulp F x"
  by (simp add: ulp_def)

lemma ulp_minus [simp]: "ulp F (- x) = ulp F x"
  by (simp add: ulp_def expo_def)

lemma expo_ge: "emin F \<le> expo F x"
  by (simp add: expo_def)

lemma powi_log:
  assumes "0 < x"
  shows "2 powi \<lfloor>log 2 x\<rfloor> \<le> x" and "x < 2 powi (\<lfloor>log 2 x\<rfloor> + 1)"
proof -
  have p: "(2::real) powi n = 2 powr of_int n" for n by (simp add: powr_real_of_int')
  show "2 powi \<lfloor>log 2 x\<rfloor> \<le> x" using assms unfolding p by (simp add: powr_le_iff)
  show "x < 2 powi (\<lfloor>log 2 x\<rfloor> + 1)" using assms unfolding p by (simp add: less_powr_iff)
qed

lemma expo_upper: "\<bar>x\<bar> < 2 powi (expo F x + 1)"
proof (cases "x = 0")
  case False
  then have "\<bar>x\<bar> < 2 powi (\<lfloor>log 2 \<bar>x\<bar>\<rfloor> + 1)" by (simp add: powi_log)
  also have "\<dots> \<le> 2 powi (expo F x + 1)" using False by (intro power_int_increasing) (auto simp: expo_def)
  finally show ?thesis .
qed simp

lemma expo_lower: "emin F < expo F x \<Longrightarrow> 2 powi (expo F x) \<le> \<bar>x\<bar>"
  using powi_log(1) [of "\<bar>x\<bar>"] by (auto simp: expo_def split: if_splits)

lemma expo_mono:
  assumes "\<bar>x\<bar> \<le> \<bar>y\<bar>"
  shows "expo F x \<le> expo F y"
proof (cases "x = 0")
  case False
  then have "\<lfloor>log 2 \<bar>x\<bar>\<rfloor> \<le> \<lfloor>log 2 \<bar>y\<bar>\<rfloor>" using assms by (intro floor_mono) auto
  then show ?thesis using False assms by (auto simp: expo_def)
qed (simp add: expo_ge expo_def)

lemma expo_eqI:
  assumes "2 powi n \<le> \<bar>x\<bar>" and "\<bar>x\<bar> < 2 powi (n + 1)" and "emin F \<le> n"
  shows "expo F x = n"
proof -
  have x: "x \<noteq> 0" using assms(1) by (metis abs_zero not_le zero_less_numeral zero_less_power_int)
  have p: "(2::real) powi k = 2 powr of_int k" for k by (simp add: powr_real_of_int')
  have "\<lfloor>log 2 \<bar>x\<bar>\<rfloor> = n" using assms(1,2) x unfolding p by (intro floor_unique) (auto simp: le_log_iff log_less_iff)
  then show ?thesis using x assms(3) by (simp add: expo_def)
qed

section \<open>Rounding to a format\<close>

lemma rn_minus: "rn F (- x) = - rn F x"
  by (simp add: rn_def rne_minus)

lemma rn_zero [simp]: "rn F 0 = 0"
  using rne_of_int [of 0] by (simp add: rn_def)

lemma rn_half_ulp: "\<bar>rn F x - x\<bar> \<le> ulp F x / 2"
proof -
  have "ulp F x \<noteq> 0" using ulp_pos [of F x] by linarith
  then have "rn F x - x = (of_int (rne (x / ulp F x)) - x / ulp F x) * ulp F x" by (simp add: rn_def left_diff_distrib)
  then have "\<bar>rn F x - x\<bar> = \<bar>of_int (rne (x / ulp F x)) - x / ulp F x\<bar> * ulp F x" by (simp add: abs_mult less_imp_le [OF ulp_pos])
  also have "\<dots> \<le> 1/2 * ulp F x" by (intro mult_right_mono rne_error) (simp add: less_imp_le)
  finally show ?thesis by simp
qed

lemma ulp_le: "ulp F x \<le> 2 powi (1 - int (prec F)) * \<bar>x\<bar> + 2 powi (emin F - int (prec F) + 1)"
proof (cases "emin F < expo F x")
  case True
  have "ulp F x = 2 powi (1 - int (prec F)) * 2 powi (expo F x)" by (simp add: ulp_def power_int_add [symmetric] algebra_simps)
  also have "\<dots> \<le> 2 powi (1 - int (prec F)) * \<bar>x\<bar>" by (intro mult_left_mono expo_lower True) simp
  finally show ?thesis by (simp add: add_increasing2)
next
  case False
  then have "expo F x = emin F" using expo_ge [of F x] by simp
  then show ?thesis by (simp add: ulp_def add_increasing)
qed

lemma rn_error: "\<bar>rn F x - x\<bar> \<le> 2 powi (- int (prec F)) * \<bar>x\<bar> + 2 powi (emin F - int (prec F))"
proof -
  have "2 powi (1 - int (prec F)) = 2 * (2::real) powi (- int (prec F))" "2 powi (emin F - int (prec F) + 1) = 2 * (2::real) powi (emin F - int (prec F))"
    using power_int_add [of "2::real" 1 "- int (prec F)"] power_int_add [of "2::real" "emin F - int (prec F)" 1] by simp_all
  then show ?thesis using rn_half_ulp [of F x] ulp_le [of F x] by simp
qed

lemma rn_le_power:
  assumes "0 \<le> x" shows "rn F x \<le> 2 powi (expo F x + 1)"
proof -
  have u: "2 powi (expo F x + 1) = of_int (2 ^ prec F) * ulp F x"
    by (simp add: ulp_def power_int_add [symmetric] flip: power_int_of_nat)
  have "x / ulp F x \<le> of_int (2 ^ prec F)" using expo_upper [of x F] u by (simp add: pos_divide_le_eq)
  then have "rne (x / ulp F x) \<le> 2 ^ prec F" by (rule rne_le_int)
  then have "rn F x \<le> of_int (2 ^ prec F) * ulp F x" unfolding rn_def by (intro mult_right_mono) (auto simp: less_imp_le)
  then show ?thesis using u by simp
qed

lemma rn_ge_power:
  assumes "0 \<le> x" and "2 powi (expo F x) \<le> x" and "1 \<le> prec F"
  shows "2 powi (expo F x) \<le> rn F x"
proof -
  have u: "2 powi (expo F x) = of_int (2 ^ (prec F - 1)) * ulp F x"
    using assms(3) by (simp add: ulp_def power_int_add [symmetric] of_nat_diff flip: power_int_of_nat)
  have "of_int (2 ^ (prec F - 1)) \<le> x / ulp F x" using assms(2) u by (simp add: pos_le_divide_eq)
  then have "2 ^ (prec F - 1) \<le> rne (x / ulp F x)" by (rule rne_ge_int)
  then have "of_int (2 ^ (prec F - 1)) * ulp F x \<le> rn F x" unfolding rn_def by (intro mult_right_mono) (auto simp: less_imp_le simp del: of_int_power)
  then show ?thesis using u by simp
qed

lemma rn_mono_pos:
  assumes "0 \<le> x" and "x \<le> y" and "1 \<le> prec F"
  shows "rn F x \<le> rn F y"
proof (cases "expo F x = expo F y")
  case True
  then have u: "ulp F x = ulp F y" by (simp add: ulp_def)
  have "rne (x / ulp F y) \<le> rne (y / ulp F y)" using assms(2) by (intro rne_mono divide_right_mono) (auto simp: less_imp_le)
  then show ?thesis unfolding rn_def u by (intro mult_right_mono) (auto simp: less_imp_le)
next
  case False
  then have e: "expo F x + 1 \<le> expo F y" using expo_mono [of x y F] assms(1,2) by simp
  have "rn F x \<le> 2 powi (expo F x + 1)" by (rule rn_le_power [OF assms(1)])
  also have "\<dots> \<le> 2 powi (expo F y)" using e by (intro power_int_increasing) auto
  also have "\<dots> \<le> rn F y"
    using expo_lower [of F y] expo_ge [of F x] e assms by (intro rn_ge_power) auto
  finally show ?thesis .
qed

lemma rn_nonneg: "0 \<le> x \<Longrightarrow> 1 \<le> prec F \<Longrightarrow> 0 \<le> rn F x"
  using rn_mono_pos [of 0 x F] by simp

lemma rn_mono:
  assumes "x \<le> y" and "1 \<le> prec F"
  shows "rn F x \<le> rn F y"
proof -
  consider "0 \<le> x" | "x < 0" "0 \<le> y" | "y < 0" by linarith
  then show ?thesis
  proof cases
    case 2
    then show ?thesis using rn_nonneg [of "- x" F] rn_nonneg [of y F] assms(2) by (simp add: rn_minus)
  next
    case 3
    then show ?thesis using rn_mono_pos [of "- y" "- x" F] assms by (simp add: rn_minus)
  qed (rule rn_mono_pos [OF _ assms])
qed

lemma rn_granular: "\<exists>n. rn F x = of_int n * 2 powi (emin F - int (prec F) + 1)"
proof -
  have "ulp F x = of_int (2 ^ nat (expo F x - emin F)) * 2 powi (emin F - int (prec F) + 1)"
    using expo_ge [of F x] by (simp add: ulp_def power_int_add [symmetric] algebra_simps flip: power_int_of_nat)
  then have "rn F x = of_int (rne (x / ulp F x) * 2 ^ nat (expo F x - emin F)) * 2 powi (emin F - int (prec F) + 1)"
    by (simp add: rn_def)
  then show ?thesis by blast
qed

text \<open>A number with few enough bits is not changed.\<close>

lemma rn_int_ulp:
  assumes "x = of_int n * ulp F x"
  shows "rn F x = x"
proof -
  have "x / ulp F x = of_int n" using assms ulp_pos [of F x] by (simp add: nonzero_divide_eq_eq less_imp_neq [THEN not_sym])
  then show ?thesis using assms by (simp add: rn_def)
qed

lemma rn_exact:
  assumes "\<bar>m\<bar> < 2 ^ prec F" and "emin F - int (prec F) + 1 \<le> k"
  shows "rn F (of_int m * 2 powi k) = of_int m * 2 powi k"
proof (cases "m = 0")
  case False
  let ?x = "of_int m * 2 powi k :: real"
  have x0: "?x \<noteq> 0" using False by simp
  have "\<bar>?x\<bar> < 2 powi (k + int (prec F))"
  proof -
    have "\<bar>?x\<bar> = of_int \<bar>m\<bar> * 2 powi k" by (simp add: abs_mult)
    also have "\<dots> < of_int (2 ^ prec F) * 2 powi k" using assms(1) by (intro mult_strict_right_mono) (simp_all only: of_int_less_iff, simp)
    also have "\<dots> = 2 powi (k + int (prec F))" by (simp add: power_int_add)
    finally show ?thesis .
  qed
  then have "\<lfloor>log 2 \<bar>?x\<bar>\<rfloor> < k + int (prec F)"
    using x0 powi_log(1) [of "\<bar>?x\<bar>"] by (smt (verit) power_int_increasing zero_less_abs_iff)
  then have e: "expo F ?x - int (prec F) + 1 \<le> k" using x0 assms(2) by (simp add: expo_def)
  define j where "j = nat (k - (expo F ?x - int (prec F) + 1))"
  have "2 powi k = 2 ^ j * ulp F ?x"
    using e unfolding ulp_def j_def by (simp add: power_int_add [symmetric] flip: power_int_of_nat)
  then have "?x = of_int (m * 2 ^ j) * ulp F ?x" by simp
  then show ?thesis by (rule rn_int_ulp)
qed simp

lemma rn_idem:
  assumes "1 \<le> prec F"
  shows "rn F (rn F x) = rn F x"
proof -
  define n where "n = rne (x / ulp F x)"
  define k where "k = expo F x - int (prec F) + 1"
  have x: "rn F x = of_int n * 2 powi k" by (simp add: rn_def n_def k_def ulp_def)
  have "\<bar>x\<bar> \<le> of_int (2 ^ prec F) * ulp F x"
    using expo_upper [of x F] by (simp add: ulp_def power_int_add [symmetric] less_imp_le flip: power_int_of_nat)
  then have "x / ulp F x \<le> of_int (2 ^ prec F)" "of_int (- (2 ^ prec F)) \<le> x / ulp F x"
    by (simp_all add: pos_divide_le_eq pos_le_divide_eq abs_le_iff del: of_int_power)
  then have n: "n \<le> 2 ^ prec F" "- (2 ^ prec F) \<le> n" unfolding n_def by (blast intro: rne_le_int rne_ge_int)+
  have k: "emin F - int (prec F) + 1 \<le> k" using expo_ge [of F x] by (simp add: k_def)
  have big: "\<bar>s\<bar> < 2 ^ prec F" if "\<bar>s\<bar> = (1::int)" for s using assms that one_less_power [of "2::int" "prec F"] by simp
  consider "\<bar>n\<bar> < 2 ^ prec F" | s where "\<bar>s\<bar> = 1" "n = s * 2 ^ prec F"
  proof -
    have "\<bar>n\<bar> < 2 ^ prec F \<or> n = 1 * 2 ^ prec F \<or> n = (- 1) * 2 ^ prec F" using n by linarith
    then show thesis using that(1) that(2) [of 1] that(2) [of "- 1"] by auto
  qed
  then show ?thesis
  proof cases
    case 1
    then show ?thesis unfolding x by (rule rn_exact [OF _ k])
  next
    case (2 s)
    then have "rn F x = of_int s * 2 powi (k + int (prec F))" unfolding x by (simp add: power_int_add)
    then show ?thesis using rn_exact [OF big [OF 2(1)], of "k + int (prec F)"] k by simp
  qed
qed

section \<open>What the analysis uses of a rounding\<close>

locale ieee =
  fixes R :: "real \<Rightarrow> fval" and u h top :: real
  assumes R_mono: "x \<le> y \<Longrightarrow> R x \<le> R y"
    and R_zero: "R 0 = Fin 0"
    and R_num: "R x \<noteq> NaN"
    and R_err: "R x = Fin y \<Longrightarrow> \<bar>y - x\<bar> \<le> u * \<bar>x\<bar> + h"
    and R_range: "R x = Fin y \<Longrightarrow> \<bar>y\<bar> < top"
    and u_pos: "0 < u" and u_le: "u \<le> 1/2" and h_pos: "0 \<le> h"
begin

lemma R_nonneg: "0 \<le> x \<Longrightarrow> Fin 0 \<le> R x"
  using R_mono [of 0 x] by (simp add: R_zero)

lemma R_nonpos: "x \<le> 0 \<Longrightarrow> R x \<le> Fin 0"
  using R_mono [of x 0] by (simp add: R_zero)

lemma R_lower:
  assumes "0 \<le> x" and "a \<le> x"
  shows "Fin ((1 - u) * a - h) \<le> R x"
proof (cases "R x")
  case (Fin y)
  have "(1 - u) * a \<le> (1 - u) * x" using assms(2) u_le by (intro mult_left_mono) auto
  then show ?thesis using R_err [OF Fin] assms(1) Fin by (simp add: algebra_simps abs_le_iff)
qed (use R_nonneg [OF assms(1)] in auto)

lemma add_nonneg: "Fin 0 \<le> x \<Longrightarrow> Fin 0 \<le> y \<Longrightarrow> Fin 0 \<le> fadd R x y"
  by (cases x; cases y) (auto intro: R_nonneg)

lemma add_lower:
  assumes "Fin 0 \<le> x" and "Fin 0 \<le> y" and "Fin a \<le> x" and "Fin b \<le> y"
  shows "Fin ((1 - u) * (a + b) - h) \<le> fadd R x y"
  using assms by (cases x; cases y) (auto intro!: R_lower)

lemma mul_nonneg: "Fin 0 \<le> x \<Longrightarrow> Fin 0 \<le> y \<Longrightarrow> Fin 0 \<le> fmul R x y"
  by (cases x; cases y) (auto intro: R_nonneg simp: finf_def)

lemma mul_lower:
  assumes "Fin 0 \<le> x" and "Fin 0 \<le> y" and "Fin a \<le> x" and "Fin b \<le> y" and "0 \<le> b"
  shows "Fin ((1 - u) * (a * b) - h) \<le> fmul R x y"
proof (cases "0 \<le> a")
  case True
  then show ?thesis using assms by (cases x; cases y) (auto intro!: R_lower mult_mono simp: finf_def)
next
  case False
  then have "a * b \<le> 0" using assms(5) by (simp add: mult_nonpos_nonneg)
  then have "(1 - u) * (a * b) \<le> 0" using mult_nonneg_nonpos [of "1 - u" "a * b"] u_le by simp
  then have "(1 - u) * (a * b) - h \<le> 0" using h_pos by linarith
  then have "Fin ((1 - u) * (a * b) - h) \<le> Fin 0" by simp
  then show ?thesis by (rule order_trans) (rule mul_nonneg [OF assms(1,2)])
qed

lemma fma_nonneg: "Fin 0 \<le> x \<Longrightarrow> Fin 0 \<le> y \<Longrightarrow> Fin 0 \<le> z \<Longrightarrow> Fin 0 \<le> ffma R x y z"
  by (cases x; cases y; cases z) (auto intro: R_nonneg simp: finf_def)

lemma fma_lower:
  assumes "Fin 0 \<le> x" and "Fin 0 \<le> y" and "Fin 0 \<le> z" and "Fin a \<le> x" and "Fin b \<le> y" and "Fin c \<le> z" and "0 \<le> a" and "0 \<le> b"
  shows "Fin ((1 - u) * (a * b + c) - h) \<le> ffma R x y z"
  using assms by (cases x; cases y; cases z) (auto intro!: R_lower add_mono mult_mono simp: finf_def)

lemma mul_add_nonneg: "Fin 0 \<le> x \<Longrightarrow> Fin 0 \<le> y \<Longrightarrow> Fin 0 \<le> z \<Longrightarrow> Fin 0 \<le> mul_add R ct x y z"
  by (simp add: mul_add_def fma_nonneg add_nonneg mul_nonneg)

lemma mul_add_lower:
  assumes "Fin 0 \<le> x" and "Fin 0 \<le> y" and "Fin 0 \<le> z" and "Fin a \<le> x" and "Fin b \<le> y" and "Fin c \<le> z" and "0 \<le> b"
  shows "Fin ((1 - u) * ((1 - u) * (a * b) - h + c) - h) \<le> mul_add R ct x y z"
proof (cases ct)
  case False
  then show ?thesis unfolding mul_add_def using add_lower [OF mul_nonneg [OF assms(1,2)] assms(3) mul_lower [OF assms(1,2,4,5,7)] assms(6)] by simp
next
  case True
  have m: "0 \<le> max 0 a" "Fin (max 0 a) \<le> x" using assms(1,4) by (auto simp: max_def)
  have "(1 - u) * (a * b) \<le> max 0 a * b"
  proof (cases "0 \<le> a")
    case True
    then have "0 \<le> u * (a * b)" using assms(7) u_pos by simp
    then show ?thesis using True by (simp add: algebra_simps)
  next
    case False
    then have "a * b \<le> 0" using assms(7) by (simp add: mult_nonpos_nonneg)
    then show ?thesis using False u_le by (simp add: mult_nonneg_nonpos)
  qed
  then have "(1 - u) * ((1 - u) * (a * b) - h + c) \<le> (1 - u) * (max 0 a * b + c)" using u_le h_pos by (intro mult_left_mono) auto
  then have "Fin ((1 - u) * ((1 - u) * (a * b) - h + c) - h) \<le> Fin ((1 - u) * (max 0 a * b + c) - h)" by simp
  also have "\<dots> \<le> ffma R x y z" using assms m by (intro fma_lower) auto
  finally show ?thesis using True by (simp add: mul_add_def)
qed

lemma sqrt_nonneg: "Fin 0 \<le> x \<Longrightarrow> Fin 0 \<le> fsqrt R x"
  by (cases x) (auto intro: R_nonneg)

lemma sqrt_lower:
  assumes "Fin 0 \<le> x" and "Fin a \<le> x"
  shows "Fin ((1 - u) * sqrt a - h) \<le> fsqrt R x"
  using assms by (cases x) (auto intro!: R_lower)

lemma sq_nonneg: "Fin 0 \<le> fmul R x x"
  by (cases x) (auto intro: R_nonneg)

lemma sq_lower:
  assumes "Fin b \<le> fabs x" and "0 \<le> b"
  shows "Fin ((1 - u) * b\<^sup>2 - h) \<le> fmul R x x"
proof (cases x)
  case (Fin y)
  then have "b\<^sup>2 \<le> y * y" using assms power_mono [of b "\<bar>y\<bar>" 2] by (simp add: power2_eq_square)
  then show ?thesis using Fin R_lower [of "y * y" "b\<^sup>2"] by simp
qed simp_all

lemma sq_fma_nonneg: "Fin 0 \<le> z \<Longrightarrow> Fin 0 \<le> ffma R x x z"
  by (cases x; cases z) (auto intro: R_nonneg)

lemma sq_fma_lower:
  assumes "Fin b \<le> fabs x" and "0 \<le> b" and "Fin 0 \<le> z" and "Fin c \<le> z"
  shows "Fin ((1 - u) * (b\<^sup>2 + c) - h) \<le> ffma R x x z"
proof (cases x)
  case (Fin y)
  then have "b\<^sup>2 \<le> y * y" using assms power_mono [of b "\<bar>y\<bar>" 2] by (simp add: power2_eq_square)
  then show ?thesis using Fin assms(3,4) by (cases z) (auto intro!: R_lower)
qed (use assms(3) in \<open>cases z; simp\<close>)+

lemma tsum_nonneg: "Fin 0 \<le> tsum R f t"
  by (induction t) (auto intro: sq_nonneg add_nonneg sq_fma_nonneg)

text \<open>A sum of \<open>n\<close> squares in any order loses at most \<open>n + 1\<close> roundings.\<close>

lemma leaves_pos [simp]: "leaves t \<noteq> []"
  by (induction t) auto

lemma loss_step:
  assumes "0 \<le> s" and "n < k" and "(1 - u) ^ n * s - (2 * real n - 1) * h \<le> a" and "0 < n"
  shows "(1 - u) ^ k * s - (2 * real n - 1) * h \<le> (1 - u) * a"
proof -
  have q: "0 \<le> 1 - u" "1 - u \<le> 1" using u_pos u_le by auto
  have "(1 - u) ^ k * s \<le> (1 - u) ^ Suc n * s" using assms(1,2) q by (intro mult_right_mono power_decreasing) auto
  moreover have "(1 - u) * ((1 - u) ^ n * s - (2 * real n - 1) * h) \<le> (1 - u) * a" using assms(3) q by (intro mult_left_mono) auto
  moreover have "0 \<le> u * ((2 * real n - 1) * h)" using assms(4) u_pos h_pos by (intro mult_nonneg_nonneg) auto
  ultimately show ?thesis by (simp add: algebra_simps)
qed

lemma tsum_lower:
  assumes "\<And>i. i \<in> set (leaves t) \<Longrightarrow> Fin (b i) \<le> fabs (f i) \<and> 0 \<le> b i"
  shows "Fin ((1 - u) ^ length (leaves t) * (\<Sum>i\<leftarrow>leaves t. (b i)\<^sup>2) - (2 * real (length (leaves t)) - 1) * h) \<le> tsum R f t"
  using assms
proof (induction t)
  case (Leaf i)
  then show ?case using sq_lower [of "b i" "f i"] by simp
next
  case (Add s t)
  define n1 n2 where n: "n1 = length (leaves s)" "n2 = length (leaves t)"
  define S1 S2 where S: "S1 = (\<Sum>i\<leftarrow>leaves s. (b i)\<^sup>2)" "S2 = (\<Sum>i\<leftarrow>leaves t. (b i)\<^sup>2)"
  define A B where AB: "A = (1 - u) ^ n1 * S1 - (2 * real n1 - 1) * h" "B = (1 - u) ^ n2 * S2 - (2 * real n2 - 1) * h"
  have "0 < n1" "0 < n2" "0 \<le> S1" "0 \<le> S2" unfolding n S by (auto intro!: sum_list_nonneg)
  then have "(1 - u) ^ (n1 + n2) * S1 - (2 * real n1 - 1) * h \<le> (1 - u) * A" "(1 - u) ^ (n1 + n2) * S2 - (2 * real n2 - 1) * h \<le> (1 - u) * B"
    unfolding AB by (auto intro!: loss_step)
  moreover have "Fin ((1 - u) * (A + B) - h) \<le> tsum R f (Add s t)"
    unfolding tsum.simps AB n S using Add by (intro add_lower tsum_nonneg) auto
  ultimately have "Fin ((1 - u) ^ (n1 + n2) * (S1 + S2) - (2 * real (n1 + n2) - 1) * h) \<le> tsum R f (Add s t)"
    by (elim order_trans [rotated]) (simp add: algebra_simps)
  then show ?case by (simp add: n S)
next
  case (Fma i t)
  define n where "n = length (leaves t)"
  define S where "S = (\<Sum>i\<leftarrow>leaves t. (b i)\<^sup>2)"
  define A where A: "A = (1 - u) ^ n * S - (2 * real n - 1) * h"
  have "0 < n" "0 \<le> S" unfolding n_def S_def by (auto intro!: sum_list_nonneg)
  then have "(1 - u) ^ Suc n * S - (2 * real n - 1) * h \<le> (1 - u) * A" unfolding A by (intro loss_step) auto
  moreover have "(1 - u) ^ Suc n * (b i)\<^sup>2 \<le> (1 - u) * (b i)\<^sup>2"
    using u_pos u_le power_decreasing [of 1 "Suc n" "1 - u"] by (intro mult_right_mono) auto
  moreover have "Fin ((1 - u) * ((b i)\<^sup>2 + A) - h) \<le> tsum R f (Fma i t)"
    unfolding tsum.simps A n_def S_def using Fma by (intro sq_fma_lower tsum_nonneg) auto
  ultimately have "Fin ((1 - u) ^ Suc n * ((b i)\<^sup>2 + S) - (2 * real (Suc n) - 1) * h) \<le> tsum R f (Fma i t)"
    using h_pos by (elim order_trans [rotated]) (simp add: algebra_simps)
  then show ?case by (simp add: n_def S_def)
qed

text \<open>A value that is not finite stays so in sums and products of numbers that are not negative.\<close>

lemma add_inf: "PInf \<le> x \<Longrightarrow> Fin 0 \<le> y \<Longrightarrow> PInf \<le> fadd R x y" "Fin 0 \<le> x \<Longrightarrow> PInf \<le> y \<Longrightarrow> PInf \<le> fadd R x y"
  by (cases x; cases y; auto)+

lemma mul_inf:
  assumes "PInf \<le> x" and "Fin c \<le> y" and "0 < c"
  shows "PInf \<le> fmul R x y" "PInf \<le> fmul R y x"
  using assms by (cases x; cases y; auto simp: finf_def)+

lemma fma_inf:
  assumes "PInf \<le> x" and "Fin c \<le> y" and "0 < c" and "Fin 0 \<le> z"
  shows "PInf \<le> ffma R x y z" "PInf \<le> ffma R y x z"
  using assms by (cases x; cases y; cases z; auto simp: finf_def)+

lemma fma_inf_add: "Fin 0 \<le> x \<Longrightarrow> Fin 0 \<le> y \<Longrightarrow> PInf \<le> z \<Longrightarrow> PInf \<le> ffma R x y z"
  by (cases x; cases y; cases z) (auto simp: finf_def)

lemma mul_add_inf:
  assumes "PInf \<le> x" and "Fin c \<le> y" and "0 < c" and "Fin 0 \<le> z"
  shows "PInf \<le> mul_add R ct x y z" "PInf \<le> mul_add R ct y x z"
  using assms by (auto simp: mul_add_def simp del: less_eq_fval.simps intro: fma_inf add_inf mul_inf)

lemma mul_add_inf_add: "Fin 0 \<le> x \<Longrightarrow> Fin 0 \<le> y \<Longrightarrow> PInf \<le> z \<Longrightarrow> PInf \<le> mul_add R ct x y z"
  by (auto simp: mul_add_def simp del: less_eq_fval.simps intro: fma_inf_add add_inf mul_nonneg)

lemma sq_inf: "PInf \<le> fabs x \<Longrightarrow> PInf \<le> fmul R x x" "PInf \<le> fabs x \<Longrightarrow> Fin 0 \<le> z \<Longrightarrow> PInf \<le> ffma R x x z" "PInf \<le> z \<Longrightarrow> PInf \<le> ffma R x x z"
  by (cases x; cases z; auto)+

lemma sqrt_inf: "PInf \<le> x \<Longrightarrow> PInf \<le> fsqrt R x"
  by (cases x) auto

lemma tsum_inf: "i \<in> set (leaves t) \<Longrightarrow> PInf \<le> fabs (f i) \<Longrightarrow> PInf \<le> tsum R f t"
  by (induction t) (auto simp del: less_eq_fval.simps intro: sq_inf add_inf tsum_nonneg)

lemma mul_mono: "Fin 0 \<le> x \<Longrightarrow> x \<le> y \<Longrightarrow> 0 < c \<Longrightarrow> fmul R x (Fin c) \<le> fmul R y (Fin c)"
  using R_num by (cases x; cases y) (auto simp: finf_def fval_le_PInf intro: R_mono)

lemma cvt_mono: "x \<le> y \<Longrightarrow> fcvt R x \<le> fcvt R y"
  using R_num by (cases x; cases y) (auto intro: R_mono simp: fval_le_PInf)

end

section \<open>The formats are instances\<close>

lemma fl_mono:
  assumes "x \<le> y" and "1 \<le> prec F"
  shows "fl F x \<le> fl F y"
proof -
  have "0 < overflow F" by (simp add: overflow_def)
  then show ?thesis using rn_mono [OF assms] unfolding fl_def Let_def by auto
qed

lemma fl_zero [simp]: "fl F 0 = Fin 0"
proof -
  have "0 < overflow F" by (simp add: overflow_def)
  then show ?thesis by (simp add: fl_def)
qed

lemma fl_Fin: "fl F x = Fin y \<Longrightarrow> y = rn F x \<and> \<bar>y\<bar> < overflow F"
  by (auto simp: fl_def Let_def split: if_splits)

lemma fl_num: "fl F x \<noteq> NaN"
  by (simp add: fl_def Let_def)

lemma fl_idem: "fl F x = Fin y \<Longrightarrow> 1 \<le> prec F \<Longrightarrow> fl F y = Fin y"
  unfolding fl_def [of F y] Let_def by (drule fl_Fin) (auto simp: rn_idem)

lemma fl_ieee:
  assumes "1 \<le> prec F"
  shows "ieee (fl F) (2 powi (- int (prec F))) (2 powi (emin F - int (prec F))) (overflow F)"
proof
  show "(2::real) powi (- int (prec F)) \<le> 1/2" using assms power_int_increasing [of "- int (prec F)" "- 1" "2::real"] by simp
  fix x y
  assume "fl F x = Fin y"
  from fl_Fin [OF this] show "\<bar>y - x\<bar> \<le> 2 powi (- int (prec F)) * \<bar>x\<bar> + 2 powi (emin F - int (prec F))" "\<bar>y\<bar> < overflow F"
    using rn_error [of F x] by auto
qed (use fl_mono [OF _ assms] fl_num in auto)

interpretation b32: ieee "fl F32" "2 powi (-24)" "2 powi (-150)" "2 powi 128"
  using fl_ieee [of F32] by (simp add: F32_def overflow_def)

interpretation b64: ieee "fl F64" "2 powi (-53)" "2 powi (-1075)" "2 powi 1024"
  using fl_ieee [of F64] by (simp add: F64_def overflow_def)

interpretation bf: ieee "fl BF16" "2 powi (-8)" "2 powi (-134)" "2 powi 128"
  using fl_ieee [of BF16] by (simp add: BF16_def overflow_def)

interpretation b16: ieee "fl F16" "2 powi (-11)" "2 powi (-25)" "2 powi 16"
  using fl_ieee [of F16] by (simp add: F16_def overflow_def)

text \<open>Rounding up: the nearest value, or its successor when that is below.\<close>

definition round_up :: "fmt \<Rightarrow> fval \<Rightarrow> fval" where
  "round_up F x = (let f = fcvt (fl F) x in if f < x then next_up F f else f)"

lemma next_up_covers:
  assumes x: "0 \<le> x" and p: "1 \<le> prec F" and lt: "rn F x < x"
  shows "x \<le> rn F x + ulp F (rn F x)"
proof -
  have e: "expo F (rn F x) = expo F x"
  proof (cases "emin F < expo F x")
    case True
    have "2 powi (expo F x) \<le> rn F x" using expo_lower [OF True] x by (intro rn_ge_power p) auto
    moreover have "rn F x < 2 powi (expo F x + 1)" using expo_upper [of x F] x lt by simp
    ultimately show ?thesis using True rn_nonneg [OF x p] by (intro expo_eqI) auto
  next
    case False
    then show ?thesis using expo_mono [of "rn F x" x F] expo_ge [of F "rn F x"] expo_ge [of F x] rn_nonneg [OF x p] lt by auto
  qed
  then have "ulp F (rn F x) = ulp F x" by (simp add: ulp_def)
  then show ?thesis using rn_half_ulp [of F x] ulp_pos [of F x] by linarith
qed

lemma round_up_ge:
  assumes "Fin 0 \<le> x" and p: "1 \<le> prec F"
  shows "x \<le> round_up F x"
proof (cases x)
  case (Fin r)
  then have r: "0 \<le> r" using assms by simp
  show ?thesis
  proof (cases "fl F r < Fin r")
    case True
    have "rn F r < r" and f: "fl F r = Fin (rn F r)"
      using True rn_nonneg [OF r p] unfolding fl_def Let_def by (auto simp: overflow_def less_fval_def split: if_splits)
    from next_up_covers [OF r p this(1)] show ?thesis using Fin True by (simp add: round_up_def f Let_def)
  next
    case False
    from leI [OF this] False show ?thesis by (simp add: Fin round_up_def Let_def)
  qed
qed (use assms in \<open>auto simp: round_up_def less_fval_def\<close>)

lemma round_up_inf: "PInf \<le> x \<Longrightarrow> PInf \<le> round_up F x"
  by (cases x) (auto simp: round_up_def)

end
