(* ===== verification/Cert_Head.thy ===== *)
theory Cert_Head
  imports Py_Float
begin

text \<open>
  The certified LM head of the verify step (\<open>adapter/cert_head.py\<close>): configuration, the thresholds and tiles of the screen
  and refine kernels, the build agreement of the ranks, the dispatch of the head, and the arming of a step.

  A logit is a float (\<open>Py_Float\<close>). The arithmetic of the
  kernels is an argument: \<open>exact\<close> gives the logit the exact kernel computes for a row and a token of the shard,
  \<open>screen\<close> the two bounds rounded to bf16 with the flag of a non-finite accumulation, \<open>bad\<close> the rows whose norm is
  not finite. What the module text states of them is the hypothesis \<open>certified\<close>: on a row that is not bad the
  exact logit lies between the bounds. \<open>Cert_Bound\<close> computes the tables and the bounds in floats and proves it. Logging is left out.
\<close>

section \<open>Configuration\<close>

definition off_words :: "string list" where
  "off_words = [[], ''0'', ''off'', ''false'', ''no'']"

definition MAX_M :: int where "MAX_M = 128"

definition NSTOP :: nat where "NSTOP = 64"

text \<open>\<open>ab\<close>: the A/B harness's value of the variable when it is active and knows it.\<close>

definition cert_env :: "(string \<Rightarrow> string option) \<Rightarrow> environ \<Rightarrow> string \<Rightarrow> string \<Rightarrow> string" where
  "cert_env ab env name dflt = (case ab name of Some v \<Rightarrow> v | None \<Rightarrow> env_get env name dflt)"

definition cert_mode :: "(string \<Rightarrow> string option) \<Rightarrow> environ \<Rightarrow> string" where
  "cert_mode ab env =
     (let raw = cert_env ab env ''DSV41_CERT_HEAD'' ''0'';
          v = py_lower (py_strip (if raw = [] then ''0'' else raw))
      in if v \<in> set off_words then ''0'' else if v = ''check'' then ''check'' else ''1'')"

definition enabled_anywhere :: "environ \<Rightarrow> bool" where
  "enabled_anywhere env = (py_lower (py_strip (env_get env ''DSV41_CERT_HEAD'' ''0'')) \<notin> set off_words)"

text \<open>One entry \<open>a\<close> or \<open>a-b\<close> of \<open>DSV41_CERT_HEAD_M\<close>.\<close>

definition parse_entry :: "string \<Rightarrow> int list res" where
  "parse_entry part =
     (let (a, b) = (case split_once ''-'' part of Some (a, b) \<Rightarrow> (a, b) | None \<Rightarrow> (part, [])) in
      case (py_int a, py_int (if b = [] then a else b)) of
        (Some lo, Some hi) \<Rightarrow> if 1 \<le> lo \<and> lo \<le> hi \<and> hi \<le> MAX_M then Inr [lo..hi] else Inl ValueError
      | _ \<Rightarrow> Inl ValueError)"

fun parse_entries :: "string list \<Rightarrow> int list res" where
  "parse_entries [] = Inr []"
| "parse_entries (s # ss) = bind_res (parse_entry s) (\<lambda>x. bind_res (parse_entries ss) (\<lambda>xs. Inr (x @ xs)))"

definition parse_m :: "string \<Rightarrow> int list res" where
  "parse_m spec = parse_entries (filter (\<lambda>p. p \<noteq> []) (map py_strip (split_char (CHR '','') spec)))"

definition CONFIG_KEYS :: "string list" where
  "CONFIG_KEYS = [''DSV41_CERT_HEAD'', ''DSV41_CERT_HEAD_M'', ''DSV41_CERT_HEAD_GROUP'', ''DSV41_CERT_HEAD_TILE'', ''DSV41_CERT_HEAD_EXACT'']"

fun join_bar :: "string list \<Rightarrow> string" where
  "join_bar [] = []"
| "join_bar [s] = s"
| "join_bar (s # t # ss) = s @ ''|'' @ join_bar (t # ss)"

text \<open>\<open>sha7\<close>: the number the first seven bytes of the digest spell.\<close>

definition config_hash :: "(string \<Rightarrow> nat) \<Rightarrow> environ \<Rightarrow> nat" where
  "config_hash sha7 env = sha7 (join_bar (map (\<lambda>k. k @ ''='' @ env_get env k []) CONFIG_KEYS))"

function pow2_loop :: "nat \<Rightarrow> nat \<Rightarrow> nat" where
  "pow2_loop n p = (if 0 < p \<and> p < n then pow2_loop n (p * 2) else p)"
  by pat_completeness auto
termination
  by (relation "measure (\<lambda>(n, p). n - p)") auto

declare pow2_loop.simps [simp del]

definition next_pow2 :: "nat \<Rightarrow> nat" where
  "next_pow2 n = pow2_loop n 1"

section \<open>The device pipeline\<close>

text \<open>The head module, as the identities the dispatch compares; and one rank's shard of it: its tokens and its first global token id.\<close>

record lm_object =
  l_id :: nat
  l_weight :: nat

record head_state =
  h_V :: nat
  h_vstart :: int
  h_lm :: lm_object

text \<open>The device buffers and their host copies: the flag (0 full, 1 certified), the stop-id slots, and the check counters.\<close>

record buffers =
  b_flag :: nat
  b_flag_host :: nat
  b_stop :: "int list"
  b_stop_host :: "int list"
  b_need :: nat
  b_counters :: "nat list"

definition new_buffers :: buffers where
  "new_buffers = \<lparr>b_flag = 0, b_flag_host = 0, b_stop = replicate NSTOP (-1), b_stop_host = [], b_need = 0, b_counters = replicate 8 0\<rparr>"

text \<open>The arithmetic of one rank's forward: the exact kernel, the screen, the rows with a norm that is not finite.\<close>

record shard_ops =
  o_exact :: "nat \<Rightarrow> nat \<Rightarrow> fval"
  o_screen :: "nat \<Rightarrow> nat \<Rightarrow> fval \<times> fval \<times> bool"
  o_bad :: "nat \<Rightarrow> bool"

definition is_stop :: "head_state \<Rightarrow> int list \<Rightarrow> nat \<Rightarrow> bool" where
  "is_stop st stop v = (h_vstart st + int v \<in> set stop)"

definition bound_lo :: "head_state \<Rightarrow> shard_ops \<Rightarrow> int list \<Rightarrow> nat \<Rightarrow> nat \<Rightarrow> fval" where
  "bound_lo st K stop m v =
     (case o_screen K m v of (lo, _, nonfin) \<Rightarrow> if is_stop st stop v then NInf else if nonfin \<or> lo = NaN then NInf else lo)"

definition bound_hi :: "head_state \<Rightarrow> shard_ops \<Rightarrow> int list \<Rightarrow> nat \<Rightarrow> nat \<Rightarrow> fval" where
  "bound_hi st K stop m v =
     (case o_screen K m v of (_, hi, nonfin) \<Rightarrow> if is_stop st stop v then PInf else if nonfin \<or> hi = NaN then PInf else hi)"

text \<open>The row threshold: the screen's blocks max-reduce their lower bounds into a value that starts at minus infinity.\<close>

definition row_threshold :: "head_state \<Rightarrow> shard_ops \<Rightarrow> int list \<Rightarrow> nat \<Rightarrow> fval" where
  "row_threshold st K stop m = fold (\<lambda>v t. max t (bound_lo st K stop m v)) [0..<h_V st] NInf"

text \<open>A tile of \<open>bv\<close> tokens is computed in full mode, when some row is bad, or when a token of it may reach the
  threshold of some row.\<close>

definition tile_needed :: "head_state \<Rightarrow> shard_ops \<Rightarrow> nat \<Rightarrow> int list \<Rightarrow> nat \<Rightarrow> nat \<Rightarrow> nat \<Rightarrow> bool" where
  "tile_needed st K flag stop bv M tile =
     (flag = 0
      \<or> list_ex (\<lambda>m. list_ex (\<lambda>v. row_threshold st K stop m \<le> bound_hi st K stop m v) [tile * bv..<min (tile * bv + bv) (h_V st)]) [0..<M]
      \<or> list_ex (o_bad K) [0..<M])"

definition certified_logits :: "head_state \<Rightarrow> shard_ops \<Rightarrow> nat \<Rightarrow> nat \<Rightarrow> buffers \<Rightarrow> buffers \<times> fval list list" where
  "certified_logits st K bv M bufs =
     (let needed = (\<lambda>tile. tile_needed st K (b_flag bufs) (b_stop bufs) bv M tile);
          tiles = (h_V st + bv - 1) div bv
      in (bufs\<lparr>b_need := (b_need bufs + length (filter needed [0..<tiles])) mod 2 ^ 32\<rparr>,
          map (\<lambda>m. map (\<lambda>v. if needed (v div bv) then o_exact K m v else NInf) [0..<h_V st]) [0..<M]))"

text \<open>\<open>torch.argmax\<close>: the first position of the maximum. \<open>!=\<close> on floats holds of a NaN and anything.\<close>

fun argmax :: "fval list \<Rightarrow> nat" where
  "argmax [] = 0"
| "argmax [x] = 0"
| "argmax (x # y # ys) = (let j = argmax (y # ys) in if (y # ys) ! j \<le> x then 0 else Suc j)"

definition fneq :: "fval \<Rightarrow> fval \<Rightarrow> bool" where
  "fneq x y = (x = NaN \<or> y = NaN \<or> x \<noteq> y)"

definition count_pairs :: "(fval \<Rightarrow> fval \<Rightarrow> bool) \<Rightarrow> fval list list \<Rightarrow> fval list list \<Rightarrow> nat" where
  "count_pairs p a b = length (filter (\<lambda>(x, y). p x y) (concat (map2 zip a b)))"

text \<open>The counters of check mode: steps, certified steps, argmax mismatches, value mismatches, computed-logit mismatches,
  full-mode logit mismatches, rows, unused.\<close>

definition check_counts :: "buffers \<Rightarrow> fval list list \<Rightarrow> fval list list \<Rightarrow> nat list" where
  "check_counts bufs a b =
     (let full = (b_flag bufs = 0);
          rows = zip a b
      in [1, if full then 0 else 1,
          length (filter (\<lambda>(x, y). argmax x \<noteq> argmax y) rows),
          length (filter (\<lambda>(x, y). fneq (x ! argmax x) (y ! argmax y)) rows),
          count_pairs (\<lambda>x y. fneq x y \<and> fneq y NInf) a b,
          if full then count_pairs fneq a b else 0,
          length a, 0])"

definition check :: "buffers \<Rightarrow> fval list list \<Rightarrow> fval list list \<Rightarrow> buffers" where
  "check bufs a b = bufs\<lparr>b_counters := map2 (+) (b_counters bufs) (check_counts bufs a b)\<rparr>"

section \<open>Building the tables\<close>

text \<open>What \<open>_build_for_model\<close> reads of the model, and the reason for which it leaves the stock head in place.\<close>

record model_info =
  i_lp :: "nat option"
  i_lm :: "lm_object option"
  i_bf16 :: bool
  i_dim :: nat
  i_contiguous :: bool
  i_cuda :: bool
  i_V :: nat
  i_K :: nat
  i_finite :: bool
  i_quant :: bool
  i_lora :: bool
  i_fp32 :: bool
  i_rl_target :: bool
  i_logit_scale :: bool
  i_softcap :: bool
  i_vstart :: "int option"

datatype reason = NotBuilt | NoHead | DraftCapture | NotMatrix | QuantMethod | LoRA | Fp32Path | Scaled | NoQualified
  | DoesNotFit | NonFinite | BuildFailed | RankFailed | SettingsDiffer | AgreementFailed

text \<open>The guard of \<open>build_tables\<close>, whose clauses are tried in order; a zero divisor raises, and the caller's handler
  makes that a failed build.\<close>

definition tables_guard :: "nat \<Rightarrow> nat \<Rightarrow> nat \<Rightarrow> nat \<Rightarrow> reason option" where
  "tables_guard grp sbk xbk K =
     (if grp = 0 then Some BuildFailed
      else if K mod grp \<noteq> 0 \<or> grp mod 32 \<noteq> 0 \<or> and grp (grp - 1) \<noteq> 0 then Some DoesNotFit
      else if sbk = 0 then Some BuildFailed
      else if K mod sbk \<noteq> 0 then Some DoesNotFit
      else if xbk = 0 then Some BuildFailed
      else if K mod xbk \<noteq> 0 then Some DoesNotFit
      else None)"

definition build_tables :: "nat \<Rightarrow> nat \<Rightarrow> nat \<Rightarrow> model_info \<Rightarrow> lm_object \<Rightarrow> reason + head_state" where
  "build_tables grp sbk xbk mi lm =
     (if \<not> i_bf16 mi then Inl DoesNotFit
      else case tables_guard grp sbk xbk (i_K mi) of
        Some why \<Rightarrow> Inl why
      | None \<Rightarrow> if \<not> i_finite mi then Inl NonFinite else Inr \<lparr>h_V = i_V mi, h_vstart = 0, h_lm = lm\<rparr>)"

definition build_for_model :: "environ \<Rightarrow> int list \<Rightarrow> nat \<Rightarrow> nat \<Rightarrow> nat \<Rightarrow> model_info \<Rightarrow> reason + head_state" where
  "build_for_model env qualified grp sbk xbk mi =
     (case (i_lp mi, i_lm mi) of
        (Some lp, Some lm) \<Rightarrow>
          if py_lower (py_strip (env_get env ''DSV41_DRAFT_CAPTURE'' ''0'')) \<notin> set off_words then Inl DraftCapture
          else if \<not> i_bf16 mi \<or> i_dim mi \<noteq> 2 \<or> \<not> i_contiguous mi \<or> \<not> i_cuda mi then Inl NotMatrix
          else if i_quant mi then Inl QuantMethod
          else if i_lora mi then Inl LoRA
          else if i_fp32 mi \<or> i_rl_target mi then Inl Fp32Path
          else if i_logit_scale mi \<or> i_softcap mi then Inl Scaled
          else if qualified = [] then Inl NoQualified
          else (case build_tables grp sbk xbk mi lm of
                  Inl why \<Rightarrow> Inl why
                | Inr st \<Rightarrow> Inr (st\<lparr>h_vstart := (case i_vstart mi of Some v \<Rightarrow> v | None \<Rightarrow> 0)\<rparr>))
      | _ \<Rightarrow> Inl NoHead)"

text \<open>One rank's part of the agreement, given what the all-reduce returned (\<open>None\<close> when a call raised; a group of one does not reduce).\<close>

definition agree_word :: "bool \<Rightarrow> nat \<Rightarrow> int list" where
  "agree_word ok h = [if ok then 0 else 1, int h, - int h]"

definition max_reduce :: "int list list \<Rightarrow> int list" where
  "max_reduce ws = (case ws of [] \<Rightarrow> [] | w # ws \<Rightarrow> foldl (map2 max) w ws)"

definition tp_agree :: "nat \<Rightarrow> int list option \<Rightarrow> bool \<Rightarrow> bool \<times> reason option" where
  "tp_agree world reduced ok =
     (case reduced of
        Some [failed, hmax, hneg] \<Rightarrow>
          if world = 1 then (ok, None)
          else if failed \<noteq> 0 then (False, Some RankFailed)
          else if hmax \<noteq> - hneg then (False, Some SettingsDiffer)
          else (ok, None)
      | _ \<Rightarrow> (False, Some AgreementFailed))"

text \<open>The module's state on one rank, \<open>_S\<close> with the \<open>ctx\<close> of \<open>install_logits\<close>.\<close>

record cert_state =
  s_st :: "head_state option"
  s_bufs :: "buffers option"
  s_lp :: "nat option"
  s_why :: reason
  s_verify_calls :: nat
  s_armed_calls :: nat
  s_on :: bool

definition cert_init :: cert_state where
  "cert_init = \<lparr>s_st = None, s_bufs = None, s_lp = None, s_why = NotBuilt, s_verify_calls = 0, s_armed_calls = 0, s_on = False\<rparr>"

text \<open>The tail of \<open>load_weights\<close>: \<open>target\<close> says that the instance is of the patched class itself; \<open>built\<close> is the
  outcome of the build, an exception being \<open>BuildFailed\<close>.\<close>

definition load_weights :: "bool \<Rightarrow> nat \<Rightarrow> (reason + head_state) \<Rightarrow> bool \<times> reason option \<Rightarrow> cert_state \<Rightarrow> cert_state" where
  "load_weights target lp built agreed S =
     (if \<not> target \<or> s_lp S \<noteq> None then S
      else case (built, agreed) of
        (Inr st, (True, _)) \<Rightarrow> S\<lparr>s_st := Some st, s_lp := Some lp, s_bufs := Some new_buffers\<rparr>
      | (Inl why, _) \<Rightarrow> S\<lparr>s_why := why\<rparr>
      | (Inr _, (False, why)) \<Rightarrow> S\<lparr>s_why := (case why of Some w \<Rightarrow> w | None \<Rightarrow> AgreementFailed)\<rparr>)"

text \<open>All ranks load: each builds, the words are reduced, each applies the result.\<close>

definition is_built :: "reason + head_state \<Rightarrow> bool" where
  "is_built b = (case b of Inr _ \<Rightarrow> True | Inl _ \<Rightarrow> False)"

definition load_group :: "(string \<Rightarrow> nat) \<Rightarrow> (environ \<times> nat \<times> (reason + head_state)) list \<Rightarrow> cert_state list" where
  "load_group sha7 ranks =
     (let red = max_reduce (map (\<lambda>(env, lp, b). agree_word (is_built b) (config_hash sha7 env)) ranks)
      in map (\<lambda>(env, lp, b). load_weights True lp b (tp_agree (length ranks) (Some red) (is_built b)) cert_init) ranks)"

section \<open>Dispatch of the head\<close>

datatype forward_mode = TargetVerify | OtherMode

definition get_logits :: "nat \<Rightarrow> lm_object \<Rightarrow> forward_mode option \<Rightarrow> (cert_state \<Rightarrow> cert_state \<times> 'r res) \<Rightarrow> cert_state \<Rightarrow> cert_state \<times> 'r res" where
  "get_logits self lm fm orig_get S =
     (case s_st S of
        None \<Rightarrow> orig_get S
      | Some st \<Rightarrow>
          if s_lp S \<noteq> Some self \<or> l_id lm \<noteq> l_id (h_lm st) \<or> fm \<noteq> Some TargetVerify then orig_get S
          else (let (S', r) = orig_get (S\<lparr>s_on := True\<rparr>) in (S'\<lparr>s_on := False\<rparr>, r)))"

text \<open>\<open>stock\<close>: what the original head returns for these hidden states; \<open>ndim\<close> and \<open>M\<close>: their dimensions and rows;
  \<open>bias\<close>: an embedding bias is given.\<close>

definition compute_lm_head ::
  "int list \<Rightarrow> nat \<Rightarrow> string \<Rightarrow> shard_ops \<Rightarrow> fval list list \<Rightarrow> nat \<Rightarrow> nat \<Rightarrow> bool \<Rightarrow> lm_object \<Rightarrow> cert_state \<Rightarrow> cert_state \<times> fval list list" where
  "compute_lm_head qualified bv md K stock ndim M bias lm S =
     (case (s_st S, s_bufs S) of
        (Some st, Some bufs) \<Rightarrow>
          if \<not> s_on S \<or> bias \<or> md = ''0'' \<or> int M \<notin> set qualified \<or> ndim \<noteq> 2 \<or> l_weight lm \<noteq> l_weight (h_lm st)
          then (S, stock)
          else let (bufs', cert) = certified_logits st K bv M bufs
               in if md = ''1'' then (S\<lparr>s_bufs := Some bufs'\<rparr>, cert)
                  else (S\<lparr>s_bufs := Some (check bufs' stock cert)\<rparr>, stock)
      | _ \<Rightarrow> (S, stock))"

section \<open>Arming a step\<close>

record req =
  r_stop_ids :: "int option list option"
  r_eos_ids :: "int option list option"
  r_tok :: "(int option list option \<times> int option) option"
  r_cached :: "int list option"

record penalizer =
  p_name :: string
  p_prepared :: bool

record sampling_info =
  g_all_greedy :: bool
  g_custom :: bool
  g_logit_bias :: bool
  g_grammar_mask :: bool
  g_pen :: "(bool \<times> penalizer list) option"

record batch =
  t_logprob :: bool
  t_grammar :: bool
  t_info :: "sampling_info option"
  t_reqs :: "req list"

definition or_empty :: "'a list option \<Rightarrow> 'a list" where
  "or_empty xs = (case xs of Some ys \<Rightarrow> ys | None \<Rightarrow> [])"

definition prepare_ids :: "req \<Rightarrow> int list" where
  "prepare_ids r =
     (let ids = or_empty (r_stop_ids r) @ or_empty (r_eos_ids r);
          tok = (case r_tok r of None \<Rightarrow> [] | Some (extra, eos) \<Rightarrow> or_empty extra @ [eos])
      in remdups (List.map_filter id (ids @ tok)))"

definition req_stop_ids :: "req \<Rightarrow> int list \<times> req" where
  "req_stop_ids r =
     (case r_cached r of Some got \<Rightarrow> (got, r) | None \<Rightarrow> (prepare_ids r, r\<lparr>r_cached := Some (prepare_ids r)\<rparr>))"

text \<open>The decision and the stop ids of a batch; the requests come back with their ids cached.\<close>

definition step_armed :: "batch \<Rightarrow> (bool \<times> int list) \<times> batch" where
  "step_armed b =
     (if t_logprob b \<or> t_grammar b then ((False, []), b)
      else case t_info b of
        None \<Rightarrow> ((True, []), b)
      | Some si \<Rightarrow>
          if \<not> g_all_greedy si \<or> g_custom si \<or> g_logit_bias si \<or> g_grammar_mask si then ((False, []), b)
          else (case g_pen si of
              Some (True, pens) \<Rightarrow>
                if list_ex (\<lambda>p. p_prepared p \<and> p_name p \<noteq> ''BatchedMinNewTokensPenalizer'') pens then ((False, []), b)
                else (let got = map req_stop_ids (t_reqs b);
                          stops = sort (remdups (concat (map fst got)));
                          b' = b\<lparr>t_reqs := map snd got\<rparr>
                      in if NSTOP < length stops then ((False, []), b') else ((True, stops), b'))
            | _ \<Rightarrow> ((True, []), b)))"

definition set_flag :: "bool \<Rightarrow> cert_state \<Rightarrow> cert_state" where
  "set_flag armed S =
     (case s_bufs S of
        None \<Rightarrow> S
      | Some bufs \<Rightarrow>
          let v = (if armed then 1 else 0)
          in if b_flag_host bufs \<noteq> v then S\<lparr>s_bufs := Some (bufs\<lparr>b_flag := v, b_flag_host := v\<rparr>)\<rparr> else S)"

text \<open>The slots are int32: an id out of that range makes \<open>torch.tensor\<close> raise, and so does a tuple longer than the slots.\<close>

definition fits_int32 :: "int \<Rightarrow> bool" where
  "fits_int32 i = (- (2 ^ 31) \<le> i \<and> i < 2 ^ 31)"

definition set_stop :: "int list \<Rightarrow> cert_state \<Rightarrow> cert_state res" where
  "set_stop ids S =
     (case s_bufs S of
        None \<Rightarrow> Inr S
      | Some bufs \<Rightarrow>
          if b_stop_host bufs = ids then Inr S
          else if \<not> list_all fits_int32 ids \<or> NSTOP < length ids then Inl RuntimeError
          else Inr (S\<lparr>s_bufs := Some (bufs\<lparr>b_stop := ids @ replicate (NSTOP - length ids) (-1), b_stop_host := ids\<rparr>)\<rparr>))"

text \<open>The part of the wrapped executors before the original call: the state and batch it runs on.\<close>

definition run_non_compact :: "batch \<Rightarrow> cert_state \<Rightarrow> (cert_state \<times> batch) res" where
  "run_non_compact b S =
     (let ((armed, stops), b') = step_armed b
      in bind_res (if armed \<and> stops \<noteq> [] then set_stop stops S else Inr S)
        (\<lambda>S1. let S2 = set_flag armed S1
              in Inr (S2\<lparr>s_verify_calls := s_verify_calls S2 + 1, s_armed_calls := s_armed_calls S2 + (if armed then 1 else 0)\<rparr>, b')))"

definition run_compact :: "cert_state \<Rightarrow> cert_state" where
  "run_compact S = set_flag False S"

definition run_idle :: "cert_state \<Rightarrow> cert_state" where
  "run_idle S = set_flag False S"

text \<open>One rank's verify step as the engine calls it: the executor, then the head through \<open>_get_logits\<close>.\<close>

definition verify_step ::
  "int list \<Rightarrow> nat \<Rightarrow> string \<Rightarrow> batch \<Rightarrow> nat \<Rightarrow> lm_object \<Rightarrow> shard_ops \<Rightarrow> fval list list \<Rightarrow> nat \<Rightarrow> cert_state \<Rightarrow> (cert_state \<times> fval list list) res" where
  "verify_step qualified bv md b lp lm K stock M S =
     bind_res (run_non_compact b S) (\<lambda>(S1, b').
       let (S2, out) = get_logits lp lm (Some TargetVerify)
             (\<lambda>S. let (S', l) = compute_lm_head qualified bv md K stock 2 M False lm S in (S', Inr l)) S1
       in bind_res out (\<lambda>l. Inr (S2, l)))"

inductive reach :: "cert_state \<Rightarrow> bool" where
  reach_init: "reach cert_init"
| reach_load: "reach S \<Longrightarrow> reach (load_weights target lp built agreed S)"
| reach_non_compact: "reach S \<Longrightarrow> run_non_compact b S = Inr (S', b') \<Longrightarrow> reach S'"
| reach_compact: "reach S \<Longrightarrow> reach (run_compact S)"
| reach_idle: "reach S \<Longrightarrow> reach (run_idle S)"
| reach_head: "reach S \<Longrightarrow> get_logits self lm fm
    (\<lambda>S. let (S', l) = compute_lm_head qualified bv md K stock ndim M bias lm S in (S', Inr l)) S = (S', out) \<Longrightarrow> reach S'"

section \<open>What the consumers read\<close>

text \<open>The positions of the maximum of a row, each with its value.\<close>

definition maximisers :: "fval list \<Rightarrow> (nat \<times> fval) list" where
  "maximisers xs = map (\<lambda>i. (i, xs ! i)) (filter (\<lambda>i. list_all (\<lambda>y. y \<le> xs ! i) xs) [0..<length xs])"

text \<open>A mask adds minus infinity to a logit.\<close>

fun add_ninf :: "fval \<Rightarrow> fval" where
  "add_ninf NaN = NaN"
| "add_ninf PInf = NaN"
| "add_ninf x = NInf"

definition mask_row :: "(nat \<Rightarrow> bool) \<Rightarrow> fval list \<Rightarrow> fval list" where
  "mask_row msk xs = map (\<lambda>v. if msk v then add_ninf (xs ! v) else xs ! v) [0..<length xs]"

text \<open>Row \<open>m\<close> of the logits gathered over the vocabulary shards of the ranks, with the masks applied.\<close>

definition gathered_row :: "nat \<Rightarrow> (nat \<Rightarrow> nat \<Rightarrow> bool) \<Rightarrow> (nat \<Rightarrow> fval list list) \<Rightarrow> nat \<Rightarrow> fval list" where
  "gathered_row n msk ls m = concat (map (\<lambda>r. mask_row (msk r) (ls r ! m)) [0..<n])"

definition exact_logits :: "head_state \<Rightarrow> shard_ops \<Rightarrow> nat \<Rightarrow> fval list list" where
  "exact_logits st K M = map (\<lambda>m. map (o_exact K m) [0..<h_V st]) [0..<M]"

text \<open>The certificate: on a row with a finite norm, bounds from a finite accumulation enclose the exact logit.\<close>

definition certified :: "head_state \<Rightarrow> shard_ops \<Rightarrow> nat \<Rightarrow> bool" where
  "certified st K M =
     list_all (\<lambda>m. o_bad K m \<or> list_all (\<lambda>v.
        case o_screen K m v of (lo, hi, nonfin) \<Rightarrow>
          nonfin \<or> (lo = NaN \<or> lo \<le> o_exact K m v) \<and> (hi = NaN \<or> hi = PInf \<or> o_exact K m v \<le> hi)) [0..<h_V st]) [0..<M]"

section \<open>The certified head keeps the maximum\<close>

text \<open>Entries replaced by minus infinity are harmless as long as each was below an entry that is kept.\<close>

definition only_losers_dropped :: "fval list \<Rightarrow> fval list \<Rightarrow> bool" where
  "only_losers_dropped a b =
     (length a = length b \<and> list_all (\<lambda>i. a ! i = b ! i \<or> b ! i = NInf \<and> list_ex (\<lambda>j. a ! j = b ! j \<and> a ! i < a ! j) [0..<length a]) [0..<length a])"

lemma only_losers_droppedI:
  assumes "length a = length b"
    and "\<And>i. i < length a \<Longrightarrow> a ! i = b ! i \<or> b ! i = NInf \<and> (\<exists>j<length a. a ! j = b ! j \<and> a ! i < a ! j)"
  shows "only_losers_dropped a b"
  using assms by (force simp: only_losers_dropped_def list_all_iff list_ex_iff)

lemma only_losers_droppedD:
  assumes "only_losers_dropped a b" and "i < length a" and "a ! i \<noteq> b ! i"
  shows "b ! i = NInf" and "\<exists>j<length a. a ! j = b ! j \<and> a ! i < a ! j"
  using assms by (force simp: only_losers_dropped_def list_all_iff list_ex_iff)+

lemma only_losers_dropped_length: "only_losers_dropped a b \<Longrightarrow> length b = length a"
  by (simp add: only_losers_dropped_def)

lemma top_kept:
  assumes d: "only_losers_dropped a b" and i: "i < length a" and top: "\<forall>k<length a. b ! k \<le> b ! i"
  shows "a ! i = b ! i"
proof (rule ccontr)
  assume ne: "a ! i \<noteq> b ! i"
  then obtain j where j: "j < length a" "a ! j = b ! j" "a ! i < a ! j"
    using only_losers_droppedD(2) [OF d i] by blast
  then have "b ! j = NInf" using top only_losers_droppedD(1) [OF d i ne] by (metis fval_le_NInf)
  with j show False by (metis NInf_least leD)
qed

lemma top_iff:
  assumes d: "only_losers_dropped a b" and i: "i < length a"
  shows "(\<forall>k<length a. a ! k \<le> a ! i) \<longleftrightarrow> (\<forall>k<length a. b ! k \<le> b ! i)" (is "?A \<longleftrightarrow> ?B")
proof
  assume A: ?A
  have eq: "a ! i = b ! i" using only_losers_droppedD(2) [OF d i] A by (metis leD)
  show ?B
  proof (intro allI impI)
    fix k
    assume k: "k < length a"
    show "b ! k \<le> b ! i"
      using only_losers_droppedD(1) [OF d k] A k eq by (metis NInf_least)
  qed
next
  assume B: ?B
  have eq: "a ! i = b ! i" using top_kept [OF d i B] .
  show ?A
  proof (intro allI impI)
    fix k
    assume k: "k < length a"
    show "a ! k \<le> a ! i"
      using only_losers_droppedD(2) [OF d k] B k eq by (metis less_le_trans less_imp_le)
  qed
qed

lemma list_all_le_iff: "list_all (\<lambda>y. y \<le> x) xs \<longleftrightarrow> (\<forall>k<length xs. xs ! k \<le> x)"
  by (simp add: list_all_length)

lemma same_maximisers:
  assumes d: "only_losers_dropped a b"
  shows "maximisers a = maximisers b"
proof -
  have len: "length b = length a" using d by (rule only_losers_dropped_length)
  have "filter (\<lambda>i. list_all (\<lambda>y. y \<le> a ! i) a) [0..<length a] = filter (\<lambda>i. list_all (\<lambda>y. y \<le> b ! i) b) [0..<length a]"
    using top_iff [OF d] len by (intro filter_cong) (auto simp: list_all_le_iff)
  moreover have "a ! i = b ! i" if "i < length a" "list_all (\<lambda>y. y \<le> b ! i) b" for i
    using top_kept [OF d that(1)] that(2) len by (simp add: list_all_le_iff)
  ultimately show ?thesis unfolding maximisers_def len by (auto intro!: map_cong)
qed

lemma argmax_spec:
  assumes "xs \<noteq> []"
  shows "argmax xs < length xs \<and> (\<forall>k<length xs. xs ! k \<le> xs ! argmax xs) \<and> (\<forall>k<argmax xs. xs ! k < xs ! argmax xs)"
  using assms
proof (induction xs rule: argmax.induct)
  case (3 x y ys)
  then show ?case by (auto simp: Let_def nth_Cons split: nat.splits intro: order_trans less_imp_le)
qed auto

lemma argmax_unique:
  assumes "i < length xs" and "\<forall>k<length xs. xs ! k \<le> xs ! i" and "\<forall>k<i. xs ! k < xs ! i"
  shows "argmax xs = i"
proof -
  have "xs \<noteq> []" using assms by auto
  note s = argmax_spec [OF this]
  show ?thesis using s assms by (metis leD linorder_neqE_nat)
qed

lemma same_argmax:
  assumes d: "only_losers_dropped a b" and ne: "a \<noteq> []"
  shows "argmax b = argmax a \<and> b ! argmax b = a ! argmax a"
proof -
  have len: "length b = length a" using d by (rule only_losers_dropped_length)
  note s = argmax_spec [OF ne]
  let ?i = "argmax a"
  have top: "\<forall>k<length a. b ! k \<le> b ! ?i" using top_iff [OF d] s by blast
  have eq: "a ! ?i = b ! ?i" using top_kept [OF d _ top] s by blast
  have "b ! k < b ! ?i" if "k < ?i" for k
  proof -
    have k: "k < length a" and lt: "a ! k < b ! ?i" using that s eq by auto
    show ?thesis using only_losers_droppedD(1) [OF d k] lt by (metis NInf_least le_less_trans)
  qed
  then have "argmax b = ?i" using top s len by (intro argmax_unique) auto
  then show ?thesis using eq by simp
qed

text \<open>Rows gathered from several ranks, each with its own losers dropped.\<close>

lemma only_losers_dropped_append:
  assumes "only_losers_dropped a b" and "only_losers_dropped c d"
  shows "only_losers_dropped (a @ c) (b @ d)"
proof (rule only_losers_droppedI)
  note len = assms [THEN only_losers_dropped_length]
  show "length (a @ c) = length (b @ d)" using len by simp
  fix i
  assume i: "i < length (a @ c)"
  show "(a @ c) ! i = (b @ d) ! i \<or> (b @ d) ! i = NInf \<and> (\<exists>j<length (a @ c). (a @ c) ! j = (b @ d) ! j \<and> (a @ c) ! i < (a @ c) ! j)"
  proof (cases "i < length a")
    case True
    then show ?thesis
      using only_losers_droppedD [OF assms(1) True] len by (auto simp: nth_append intro: trans_less_add1)
  next
    case False
    then have i': "i - length a < length c" using i by auto
    show ?thesis
    proof (cases "c ! (i - length a) = d ! (i - length a)")
      case True
      then show ?thesis using False len by (simp add: nth_append)
    next
      case ne: False
      obtain j where "j < length c" "c ! j = d ! j" "c ! (i - length a) < c ! j"
        using only_losers_droppedD(2) [OF assms(2) i' ne] by blast
      then show ?thesis using only_losers_droppedD(1) [OF assms(2) i' ne] False len
        by (intro disjI2 conjI exI [of _ "length a + j"]) (auto simp: nth_append)
    qed
  qed
qed

lemma only_losers_dropped_refl [simp]: "only_losers_dropped a a"
  by (rule only_losers_droppedI) auto

lemma only_losers_dropped_concat:
  "(\<And>r. r < n \<Longrightarrow> only_losers_dropped (f r) (g r)) \<Longrightarrow>
   only_losers_dropped (concat (map f [0..<n])) (concat (map g [0..<n]))"
  by (induction n) (auto intro: only_losers_dropped_append)

lemma fold_max_bounds:
  fixes f :: "nat \<Rightarrow> fval"
  shows "(\<forall>v\<in>set vs. f v \<le> fold (\<lambda>v t. max t (f v)) vs t) \<and> t \<le> fold (\<lambda>v t. max t (f v)) vs t
    \<and> (fold (\<lambda>v t. max t (f v)) vs t = t \<or> (\<exists>v\<in>set vs. fold (\<lambda>v t. max t (f v)) vs t = f v))"
proof (induction vs arbitrary: t)
  case (Cons v vs)
  show ?case using Cons [of "max t (f v)"] by (auto simp: max_def split: if_splits)
qed simp

lemma row_threshold_reached:
  assumes "x < row_threshold st K stop m"
  shows "\<exists>w<h_V st. row_threshold st K stop m = bound_lo st K stop m w"
proof -
  have "row_threshold st K stop m \<noteq> NInf" using assms by (metis NInf_least leD)
  then show ?thesis
    using fold_max_bounds [of "[0..<h_V st]" "bound_lo st K stop m" NInf] unfolding row_threshold_def by force
qed

lemma tile_of: "0 < bv \<Longrightarrow> v < V \<Longrightarrow> v \<in> set [v div bv * bv..<min (v div bv * bv + bv) V]"
  using dividend_less_div_times [of bv v] by (simp add: add.commute)

lemma not_needed:
  assumes "\<not> tile_needed st K flag stop bv M (v div bv)" and "0 < bv" and "v < h_V st" and "m < M"
  shows "bound_hi st K stop m v < row_threshold st K stop m" and "\<not> o_bad K m"
  using assms tile_of [OF assms(2,3)] unfolding tile_needed_def list_ex_iff by (auto simp: not_le)

lemma needed_if:
  assumes "row_threshold st K stop m \<le> bound_hi st K stop m v" and "0 < bv" and "v < h_V st" and "m < M"
  shows "tile_needed st K flag stop bv M (v div bv)"
  using assms not_needed(1) [of st K flag stop bv M v m] by (metis leD)

lemma certifiedD:
  assumes "certified st K M" and "m < M" and "\<not> o_bad K m" and "v < h_V st" and "o_screen K m v = (lo, hi, False)"
  shows "lo = NaN \<or> lo \<le> o_exact K m v" and "hi = NaN \<or> hi = PInf \<or> o_exact K m v \<le> hi"
proof -
  have "case o_screen K m v of (lo, hi, nonfin) \<Rightarrow>
      nonfin \<or> (lo = NaN \<or> lo \<le> o_exact K m v) \<and> (hi = NaN \<or> hi = PInf \<or> o_exact K m v \<le> hi)"
    using assms(1-4) unfolding certified_def list_all_iff set_upt by (meson atLeastLessThan_iff le0)
  then show "lo = NaN \<or> lo \<le> o_exact K m v" "hi = NaN \<or> hi = PInf \<or> o_exact K m v \<le> hi" using assms(5) by simp_all
qed

lemma lo_sound:
  assumes "certified st K M" and "m < M" and "\<not> o_bad K m" and "v < h_V st"
  shows "bound_lo st K stop m v \<le> o_exact K m v"
  using certifiedD(1) [OF assms] unfolding bound_lo_def by (auto split: prod.splits bool.splits)

lemma hi_sound:
  assumes "certified st K M" and "m < M" and "\<not> o_bad K m" and "v < h_V st"
  shows "bound_hi st K stop m v = PInf \<or> o_exact K m v \<le> bound_hi st K stop m v"
  using certifiedD(2) [OF assms] unfolding bound_hi_def by (auto split: prod.splits bool.splits)

lemma stop_bounds:
  "is_stop st stop v \<Longrightarrow> bound_lo st K stop m v = NInf"
  "is_stop st stop v \<Longrightarrow> bound_hi st K stop m v = PInf"
  by (auto simp: bound_lo_def bound_hi_def split: prod.splits)

lemma screen_not_NaN: "bound_lo st K stop m v \<noteq> NaN" "bound_hi st K stop m v \<noteq> NaN"
  by (auto simp: bound_lo_def bound_hi_def split: prod.splits)

lemma threshold_not_NaN: "row_threshold st K stop m \<noteq> NaN"
  using fold_max_bounds [of "[0..<h_V st]" "bound_lo st K stop m" NInf] screen_not_NaN(1) [of st K stop m]
  unfolding row_threshold_def by (metis fval.distinct(5))

text \<open>A token left out has a kept rival above it: the token whose lower bound is the threshold.\<close>

lemma dropped_has_rival:
  assumes c: "certified st K M" and m: "m < M" and v: "v < h_V st" and bv: "0 < bv"
    and out: "\<not> tile_needed st K flag stop bv M (v div bv)"
  shows "\<not> is_stop st stop v \<and> (\<exists>w<h_V st. tile_needed st K flag stop bv M (w div bv) \<and> \<not> is_stop st stop w
           \<and> o_exact K m v < o_exact K m w)"
proof -
  note n = not_needed [OF out bv v m]
  have hi: "bound_hi st K stop m v \<noteq> PInf" using n(1) threshold_not_NaN [of st K stop m] by (auto simp: less_fval_def)
  obtain w where w: "w < h_V st" "row_threshold st K stop m = bound_lo st K stop m w"
    using row_threshold_reached [OF n(1)] by blast
  have lw: "row_threshold st K stop m \<le> o_exact K m w" using lo_sound [OF c m n(2) w(1)] w(2) by simp
  have "o_exact K m v < o_exact K m w"
    using hi_sound [OF c m n(2) v, of stop] hi n(1) lw by (metis le_less_trans less_le_trans)
  moreover have "tile_needed st K flag stop bv M (w div bv)"
  proof (rule needed_if [OF _ bv w(1) m])
    have "row_threshold st K stop m \<le> PInf" using threshold_not_NaN by (cases "row_threshold st K stop m") auto
    then show "row_threshold st K stop m \<le> bound_hi st K stop m w"
      using hi_sound [OF c m n(2) w(1), of stop] lw by (metis order_trans)
  qed
  moreover have "\<not> is_stop st stop w"
    using stop_bounds(1) [of st stop w K m] n(1) w(2) by (metis NInf_least leD)
  moreover have "\<not> is_stop st stop v" using hi stop_bounds(2) by blast
  ultimately show ?thesis using w(1) by blast
qed

definition cert_row :: "head_state \<Rightarrow> shard_ops \<Rightarrow> nat \<Rightarrow> int list \<Rightarrow> nat \<Rightarrow> nat \<Rightarrow> nat \<Rightarrow> fval list" where
  "cert_row st K flag stop bv M m =
     map (\<lambda>v. if tile_needed st K flag stop bv M (v div bv) then o_exact K m v else NInf) [0..<h_V st]"

lemma certified_logits_rows:
  "m < M \<Longrightarrow> snd (certified_logits st K bv M bufs) ! m = cert_row st K (b_flag bufs) (b_stop bufs) bv M m"
  by (simp add: certified_logits_def cert_row_def Let_def)

lemma shard_losers_dropped:
  assumes "certified st K M" and "m < M" and "0 < bv"
    and msk: "\<And>v. v < h_V st \<Longrightarrow> msk v \<Longrightarrow> is_stop st stop v"
  shows "only_losers_dropped (mask_row msk (exact_logits st K M ! m)) (mask_row msk (cert_row st K flag stop bv M m))"
proof (rule only_losers_droppedI)
  fix v
  assume "v < length (mask_row msk (exact_logits st K M ! m))"
  then have v: "v < h_V st" using assms(2) by (simp add: mask_row_def exact_logits_def)
  show "mask_row msk (exact_logits st K M ! m) ! v = mask_row msk (cert_row st K flag stop bv M m) ! v \<or>
    mask_row msk (cert_row st K flag stop bv M m) ! v = NInf \<and>
    (\<exists>j<length (mask_row msk (exact_logits st K M ! m)).
       mask_row msk (exact_logits st K M ! m) ! j = mask_row msk (cert_row st K flag stop bv M m) ! j \<and>
       mask_row msk (exact_logits st K M ! m) ! v < mask_row msk (exact_logits st K M ! m) ! j)"
  proof (cases "tile_needed st K flag stop bv M (v div bv)")
    case True
    then show ?thesis using v assms(2) by (simp add: mask_row_def exact_logits_def cert_row_def)
  next
    case False
    then obtain w where "w < h_V st" "tile_needed st K flag stop bv M (w div bv)" "\<not> msk w" "\<not> msk v"
        "o_exact K m v < o_exact K m w"
      using dropped_has_rival [OF assms(1,2) v assms(3) False] msk v by blast
    then show ?thesis using False v assms(2)
      by (intro disjI2 conjI exI [of _ w]) (simp_all add: mask_row_def exact_logits_def cert_row_def)
  qed
qed (use assms(2) in \<open>simp add: mask_row_def exact_logits_def cert_row_def\<close>)

lemma full_mode_exact:
  "snd (certified_logits st K bv M (bufs\<lparr>b_flag := 0\<rparr>)) = exact_logits st K M"
  by (simp add: certified_logits_def exact_logits_def tile_needed_def Let_def)

section \<open>The invariant of the module state\<close>

definition bufs_ok :: "buffers \<Rightarrow> bool" where
  "bufs_ok b =
     (b_flag b = b_flag_host b \<and> b_flag b \<le> 1 \<and> length (b_stop_host b) \<le> NSTOP \<and> length (b_counters b) = 8
      \<and> b_stop b = b_stop_host b @ replicate (NSTOP - length (b_stop_host b)) (-1))"

definition cert_ok :: "cert_state \<Rightarrow> bool" where
  "cert_ok S =
     (\<not> s_on S \<and> s_armed_calls S \<le> s_verify_calls S
      \<and> (case (s_st S, s_bufs S, s_lp S) of (None, None, None) \<Rightarrow> True | (Some st, Some bufs, Some lp) \<Rightarrow> bufs_ok bufs | _ \<Rightarrow> False))"

lemma cert_ok_cases:
  assumes "cert_ok S"
  obtains (off) "s_st S = None" "s_bufs S = None" "s_lp S = None" "\<not> s_on S"
  | (built) st bufs lp where "s_st S = Some st" "s_bufs S = Some bufs" "s_lp S = Some lp" "bufs_ok bufs" "\<not> s_on S"
  using assms unfolding cert_ok_def by (auto split: option.splits)

lemma new_buffers_ok [simp]: "bufs_ok new_buffers"
  by (simp add: bufs_ok_def new_buffers_def)

lemma load_weights_ok: "cert_ok S \<Longrightarrow> cert_ok (load_weights target lp built agreed S)"
  unfolding load_weights_def cert_ok_def by (auto split: sum.splits prod.splits option.splits bool.splits)

lemma set_flag_bufs:
  "s_bufs (set_flag armed S) = map_option (\<lambda>b. if b_flag_host b \<noteq> (if armed then 1 else 0)
      then b\<lparr>b_flag := if armed then 1 else 0, b_flag_host := if armed then 1 else 0\<rparr> else b) (s_bufs S)"
  by (auto simp: set_flag_def Let_def split: option.splits)

lemma set_flag_frame [simp]:
  "s_st (set_flag armed S) = s_st S" "s_lp (set_flag armed S) = s_lp S" "s_on (set_flag armed S) = s_on S"
  "s_verify_calls (set_flag armed S) = s_verify_calls S" "s_armed_calls (set_flag armed S) = s_armed_calls S"
  by (auto simp: set_flag_def Let_def split: option.splits)

lemma set_flag_ok: "cert_ok S \<Longrightarrow> cert_ok (set_flag armed S)"
  by (auto simp: cert_ok_def set_flag_bufs bufs_ok_def split: option.splits)

lemma set_stop_cases:
  assumes "set_stop ids S = Inr S'"
  obtains (none) "s_bufs S = None" "S' = S"
  | (same) bufs where "s_bufs S = Some bufs" "b_stop_host bufs = ids" "S' = S"
  | (wrote) bufs where "s_bufs S = Some bufs" "length ids \<le> NSTOP"
      "S' = S\<lparr>s_bufs := Some (bufs\<lparr>b_stop := ids @ replicate (NSTOP - length ids) (-1), b_stop_host := ids\<rparr>)\<rparr>"
  using assms unfolding set_stop_def by (auto split: option.splits if_splits)

lemma set_stop_ok: "set_stop ids S = Inr S' \<Longrightarrow> cert_ok S \<Longrightarrow> cert_ok S'"
  by (erule set_stop_cases) (auto simp: cert_ok_def bufs_ok_def split: option.splits)

lemma run_non_compact_ok:
  assumes "run_non_compact b S = Inr (S', b')" and "cert_ok S"
  shows "cert_ok S'"
proof -
  obtain armed stops b1 where a: "step_armed b = ((armed, stops), b1)" by (metis prod.collapse)
  obtain S1 where S1: "(if armed \<and> stops \<noteq> [] then set_stop stops S else Inr S) = Inr S1"
    and S': "S' = (let S2 = set_flag armed S1 in S2\<lparr>s_verify_calls := s_verify_calls S2 + 1,
        s_armed_calls := s_armed_calls S2 + (if armed then 1 else 0)\<rparr>)"
    using assms(1) unfolding run_non_compact_def a Let_def prod.case by (auto simp: bind_res_Inr_iff)
  have "cert_ok S1" using S1 set_stop_ok assms(2) by (auto split: if_splits)
  then have "cert_ok (set_flag armed S1)" by (rule set_flag_ok)
  then show ?thesis unfolding S' Let_def cert_ok_def by (auto split: option.splits)
qed

lemma certified_logits_bufs:
  "fst (certified_logits st K bv M bufs) = bufs\<lparr>b_need := b_need (fst (certified_logits st K bv M bufs))\<rparr>"
  by (simp add: certified_logits_def Let_def)

lemma check_bufs_ok: "bufs_ok bufs \<Longrightarrow> bufs_ok (check bufs a b)"
  by (simp add: bufs_ok_def check_def check_counts_def Let_def)

lemma certified_logits_ok: "bufs_ok bufs \<Longrightarrow> bufs_ok (fst (certified_logits st K bv M bufs))"
  by (subst certified_logits_bufs) (simp add: bufs_ok_def)

lemma compute_lm_head_ok:
  assumes "compute_lm_head qualified bv md K stock ndim M bias lm S = (S', l)" and "cert_ok (S\<lparr>s_on := False\<rparr>)"
  shows "cert_ok (S'\<lparr>s_on := False\<rparr>) \<and> s_on S' = s_on S"
  using assms certified_logits_ok check_bufs_ok unfolding compute_lm_head_def cert_ok_def
  by (auto simp: Let_def split: option.splits if_splits prod.splits) (metis fst_conv)+

lemma get_logits_ok:
  assumes "get_logits self lm fm (\<lambda>S. let (S', l) = compute_lm_head qualified bv md K stock ndim M bias lm S in (S', Inr l)) S = (S', out)"
    and ok: "cert_ok S"
  shows "cert_ok S'"
proof -
  have off: "\<not> s_on S" using ok by (simp add: cert_ok_def)
  have id: "S\<lparr>s_on := False\<rparr> = S" using off by (cases S) simp
  have base: "cert_ok (S\<lparr>s_on := x, s_on := False\<rparr>)" for x using ok id by simp
  obtain S1 l1 S2 l2 where h: "compute_lm_head qualified bv md K stock ndim M bias lm S = (S1, l1)"
      "compute_lm_head qualified bv md K stock ndim M bias lm (S\<lparr>s_on := True\<rparr>) = (S2, l2)" by (metis prod.collapse)
  have "cert_ok (S1\<lparr>s_on := False\<rparr>) \<and> s_on S1 = s_on S"
    using compute_lm_head_ok [OF h(1)] ok id by simp
  then have "cert_ok S1" using off by (simp add: cert_ok_def)
  moreover have "cert_ok (S2\<lparr>s_on := False\<rparr>)" using compute_lm_head_ok [OF h(2) base] by simp
  ultimately show ?thesis using assms(1) h unfolding get_logits_def by (auto simp: Let_def split: option.splits if_splits)
qed

lemma cert_init_ok: "cert_ok cert_init"
  by (simp add: cert_ok_def cert_init_def)

lemma reach_ok: "reach S \<Longrightarrow> cert_ok S"
  by (induction rule: reach.induct)
    (auto simp: run_compact_def run_idle_def
      intro: cert_init_ok load_weights_ok run_non_compact_ok set_flag_ok get_logits_ok)

section \<open>What an armed step runs on\<close>

lemma run_non_compact_frame:
  assumes "run_non_compact b S = Inr (S', b')"
  shows "s_st S' = s_st S \<and> s_lp S' = s_lp S \<and> s_on S' = s_on S"
  using assms unfolding run_non_compact_def
  by (auto simp: bind_res_Inr_iff Let_def split: prod.splits if_splits elim!: set_stop_cases)

lemma run_non_compact_bufs:
  assumes run: "run_non_compact b S = Inr (S', b')" and ok: "cert_ok S" and a: "step_armed b = ((armed, stops), b1)"
    and "s_bufs S' = Some bufs"
  shows "b_flag bufs = (if armed then 1 else 0) \<and> (armed \<longrightarrow> set stops \<subseteq> set (b_stop bufs))"
proof -
  obtain S1 where S1: "(if armed \<and> stops \<noteq> [] then set_stop stops S else Inr S) = Inr S1"
    and S': "s_bufs S' = s_bufs (set_flag armed S1)"
    using run unfolding run_non_compact_def a Let_def prod.case by (auto simp: bind_res_Inr_iff)
  have ok1: "cert_ok S1" using S1 set_stop_ok ok by (auto split: if_splits)
  obtain b1 where b1: "s_bufs S1 = Some b1" using assms(4) S' by (cases "s_bufs S1") (auto simp: set_flag_bufs)
  have flag: "b_flag b1 = b_flag_host b1" using ok1 b1 by (auto simp: cert_ok_def bufs_ok_def split: option.splits)
  have "set stops \<subseteq> set (b_stop b1)" if armed
  proof (cases "stops = []")
    case False
    then have "set_stop stops S = Inr S1" using S1 that by simp
    then show ?thesis
    proof (cases rule: set_stop_cases)
      case (same bufs')
      then show ?thesis using ok b1 by (auto simp: cert_ok_def bufs_ok_def split: option.splits)
    qed (use b1 in auto)
  qed simp
  then show ?thesis using assms(4) S' b1 flag by (auto simp: set_flag_bufs split: if_splits)
qed

lemma verify_step_output:
  assumes step: "verify_step qualified bv md b lp lm K stock M S = Inr (S', l)" and ok: "cert_ok S"
    and a: "step_armed b = ((armed, stops), b1)" and st: "s_st S = Some st"
  shows "l = stock \<or> int M \<in> set qualified \<and> (\<exists>bufs. b_flag bufs = (if armed then 1 else 0)
    \<and> (armed \<longrightarrow> set stops \<subseteq> set (b_stop bufs)) \<and> l = snd (certified_logits st K bv M bufs))"
proof -
  obtain S1 b' where S1: "run_non_compact b S = Inr (S1, b')"
    using step unfolding verify_step_def by (auto simp: bind_res_Inr_iff)
  note f = run_non_compact_frame [OF S1]
  have "s_bufs S1 \<noteq> None" "\<not> s_on S1" using run_non_compact_ok [OF S1 ok] f st
    by (auto simp: cert_ok_def split: option.splits)
  then obtain bufs where bufs: "s_bufs S1 = Some bufs" by blast
  note fl = run_non_compact_bufs [OF S1 ok a bufs]
  show ?thesis
  proof (cases "l = stock")
    case False
    then have "int M \<in> set qualified \<and> l = snd (certified_logits st K bv M bufs)"
      using step S1 bufs f st \<open>\<not> s_on S1\<close> unfolding verify_step_def get_logits_def compute_lm_head_def
      by (auto simp: Let_def split: if_splits prod.splits)
    then show ?thesis using fl by blast
  qed simp
qed

lemma full_flag_exact: "b_flag bufs = 0 \<Longrightarrow> snd (certified_logits st K bv M bufs) = exact_logits st K M"
  by (simp add: certified_logits_def exact_logits_def tile_needed_def Let_def)

lemma verify_step_losers:
  assumes step: "verify_step qualified bv md b lp lm K stock M S = Inr (S', l)" and ok: "cert_ok S"
    and a: "step_armed b = ((armed, stops), b1)" and st: "s_st S = Some st" and bv: "0 < bv" and m: "m < M"
    and q: "int M \<in> set qualified \<Longrightarrow> stock = exact_logits st K M \<and> certified st K M"
    and msk: "\<And>v. armed \<Longrightarrow> v < h_V st \<Longrightarrow> msk v \<Longrightarrow> h_vstart st + int v \<in> set stops"
  shows "only_losers_dropped (mask_row msk (stock ! m)) (mask_row msk (l ! m)) \<and> (\<not> armed \<longrightarrow> l = stock)"
  using verify_step_output [OF step ok a st]
proof
  assume "int M \<in> set qualified \<and> (\<exists>bufs. b_flag bufs = (if armed then 1 else 0)
    \<and> (armed \<longrightarrow> set stops \<subseteq> set (b_stop bufs)) \<and> l = snd (certified_logits st K bv M bufs))"
  then obtain bufs where M: "int M \<in> set qualified" and fl: "b_flag bufs = (if armed then 1 else 0)"
    and sub: "armed \<Longrightarrow> set stops \<subseteq> set (b_stop bufs)" and l: "l = snd (certified_logits st K bv M bufs)" by blast
  note qq = q [OF M]
  show ?thesis
  proof (cases armed)
    case True
    have "only_losers_dropped (mask_row msk (stock ! m)) (mask_row msk (l ! m))"
      unfolding l certified_logits_rows [OF m] using qq
      by (simp only:) (rule shard_losers_dropped [OF _ m bv]; use msk sub True in \<open>auto simp: is_stop_def\<close>)
    then show ?thesis using True by simp
  next
    case False
    then have "l = stock" using full_flag_exact [of bufs st K bv M] fl l qq by simp
    then show ?thesis by simp
  qed
qed simp

text \<open>Every reader of a batch's verify logits is a greedy argmax, but for the min-new-tokens mask of stop ids within \<open>slots\<close>.\<close>

definition greedy_readers :: "int list \<Rightarrow> batch \<Rightarrow> bool" where
  "greedy_readers slots b =
     (\<not> t_logprob b \<and> \<not> t_grammar b
      \<and> (case t_info b of None \<Rightarrow> True | Some si \<Rightarrow>
           g_all_greedy si \<and> \<not> g_custom si \<and> \<not> g_logit_bias si \<and> \<not> g_grammar_mask si
           \<and> (case g_pen si of
                Some (True, pens) \<Rightarrow>
                  list_all (\<lambda>p. p_prepared p \<longrightarrow> p_name p = ''BatchedMinNewTokensPenalizer'') pens
                  \<and> list_all (\<lambda>r. set (fst (req_stop_ids r)) \<subseteq> set slots) (t_reqs b)
              | _ \<Rightarrow> True)))"

lemma step_armed_greedy:
  assumes "step_armed b = ((True, stops), b')" and "set stops \<subseteq> set slots"
  shows "greedy_readers slots b"
  using assms unfolding step_armed_def greedy_readers_def
  by (auto simp: Let_def list_all_iff list_ex_iff UN_subset_iff split: option.splits if_splits bool.splits)
    blast

section \<open>Agreement of the ranks\<close>

lemma map2_max_words:
  "length xs = 3 \<Longrightarrow> \<forall>w\<in>set ws. length w = 3 \<Longrightarrow>
   length (foldl (map2 max) xs ws) = 3 \<and> (\<forall>k<3. \<forall>z::int. foldl (map2 max) xs ws ! k \<le> z \<longleftrightarrow> (\<forall>w\<in>set (xs # ws). w ! k \<le> z))"
proof (induction ws arbitrary: xs)
  case (Cons w ws)
  have "length (map2 max xs w) = 3" using Cons.prems by simp
  from Cons.IH [OF this] Cons.prems show ?case by auto
qed simp

lemma max_reduce_words:
  fixes sha7 :: "string \<Rightarrow> nat" and ranks :: "(environ \<times> nat \<times> (reason + head_state)) list"
  defines "w \<equiv> \<lambda>(env, lp, b). agree_word (is_built b) (config_hash sha7 env)"
  assumes "ranks \<noteq> []"
  obtains f g h where "max_reduce (map w ranks) = [f, g, h]"
    "\<And>z. f \<le> z \<longleftrightarrow> (\<forall>(env, lp, b)\<in>set ranks. (if is_built b then 0 else 1) \<le> z)"
    "\<And>z. g \<le> z \<longleftrightarrow> (\<forall>(env, lp, b)\<in>set ranks. int (config_hash sha7 env) \<le> z)"
    "\<And>z. h \<le> z \<longleftrightarrow> (\<forall>(env, lp, b)\<in>set ranks. - int (config_hash sha7 env) \<le> z)"
proof -
  obtain x xs where r: "ranks = x # xs" using assms by (cases ranks) auto
  let ?m = "max_reduce (map w ranks)"
  have m: "length ?m = 3 \<and> (\<forall>k<3. \<forall>z. ?m ! k \<le> z \<longleftrightarrow> (\<forall>u\<in>set (map w ranks). u ! k \<le> z))"
    using map2_max_words [of "w x" "map w xs"] unfolding r max_reduce_def
    by (auto simp: w_def agree_word_def split: prod.splits)
  then have "?m = [?m ! 0, ?m ! 1, ?m ! 2]" by (intro nth_equalityI) (auto simp: less_Suc_eq numeral_3_eq_3 numeral_2_eq_2)
  moreover have "?m ! k \<le> z \<longleftrightarrow> (\<forall>u\<in>set (map w ranks). u ! k \<le> z)" if "k < 3" for k z using m that by blast
  from this [of 0] this [of 1] this [of 2]
  have "?m ! 0 \<le> z \<longleftrightarrow> (\<forall>(env, lp, b)\<in>set ranks. (if is_built b then 0 else 1) \<le> z)"
    "?m ! 1 \<le> z \<longleftrightarrow> (\<forall>(env, lp, b)\<in>set ranks. int (config_hash sha7 env) \<le> z)"
    "?m ! 2 \<le> z \<longleftrightarrow> (\<forall>(env, lp, b)\<in>set ranks. - int (config_hash sha7 env) \<le> z)" for z
    by (auto simp: w_def agree_word_def split: prod.splits)
  ultimately show thesis by (rule that)
qed

lemma max_and_min_meet:
  fixes g h :: int
  assumes "xs \<noteq> []" and "\<And>z. g \<le> z \<longleftrightarrow> (\<forall>x\<in>set xs. f x \<le> z)" and "\<And>z. h \<le> z \<longleftrightarrow> (\<forall>x\<in>set xs. - f x \<le> z)"
  shows "g = - h \<longleftrightarrow> (\<forall>x\<in>set xs. f x = f (hd xs))"
proof
  assume gh: "g = - h"
  have "f x = g" if "x \<in> set xs" for x
    using assms(2) [of g] assms(3) [of h] that gh by force
  then show "\<forall>x\<in>set xs. f x = f (hd xs)" using assms(1) hd_in_set by metis
next
  assume eq: "\<forall>x\<in>set xs. f x = f (hd xs)"
  then have "\<And>z. g \<le> z \<longleftrightarrow> f (hd xs) \<le> z" "\<And>z. h \<le> z \<longleftrightarrow> - f (hd xs) \<le> z"
    using assms hd_in_set [OF assms(1)] by metis+
  then show "g = - h" by (metis order_antisym order_refl add.inverse_inverse)
qed

section \<open>Check mode\<close>

lemma mask_none [simp]: "mask_row (\<lambda>_. False) xs = xs"
  by (simp add: mask_row_def map_nth)

lemma cert_row_losers:
  assumes "certified st K M" and "m < M" and "0 < bv"
  shows "only_losers_dropped (exact_logits st K M ! m) (cert_row st K flag stop bv M m)"
  using shard_losers_dropped [OF assms, of "\<lambda>_. False" stop flag] by simp

lemma zip_rows:
  "zip (exact_logits st K M) (snd (certified_logits st K bv M bufs))
   = map (\<lambda>m. (exact_logits st K M ! m, cert_row st K (b_flag bufs) (b_stop bufs) bv M m)) [0..<M]"
  by (auto simp: exact_logits_def certified_logits_def cert_row_def Let_def intro: nth_equalityI)

lemma count_pairs_zero:
  assumes "\<And>m v. m < M \<Longrightarrow> v < h_V st \<Longrightarrow> \<not> p (exact_logits st K M ! m ! v) (cert_row st K (b_flag bufs) (b_stop bufs) bv M m ! v)"
  shows "count_pairs p (exact_logits st K M) (snd (certified_logits st K bv M bufs)) = 0"
  using assms unfolding count_pairs_def zip_rows
  by (auto simp: filter_empty_conv set_zip exact_logits_def cert_row_def)

section \<open>A two-rank example\<close>

text \<open>Two shards of two tokens; the batch masks token 2, the largest logit, whose rank is the second one.\<close>

definition ex_lm :: lm_object where
  "ex_lm = \<lparr>l_id = 1, l_weight = 2\<rparr>"

definition ex_st :: "nat \<Rightarrow> head_state" where
  "ex_st r = \<lparr>h_V = 2, h_vstart = int (2 * r), h_lm = ex_lm\<rparr>"

definition ex_logit :: "nat \<Rightarrow> nat \<Rightarrow> real" where
  "ex_logit r v = [[3, 1], [5, 0]] ! r ! v"

definition ex_K :: "nat \<Rightarrow> shard_ops" where
  "ex_K r = \<lparr>o_exact = \<lambda>m v. Fin (ex_logit r v),
     o_screen = \<lambda>m v. (Fin (ex_logit r v - 1), Fin (ex_logit r v + 1 / 2), False), o_bad = \<lambda>m. False\<rparr>"

definition ex_batch :: batch where
  "ex_batch = \<lparr>t_logprob = False, t_grammar = False,
     t_info = Some \<lparr>g_all_greedy = True, g_custom = False, g_logit_bias = False, g_grammar_mask = False,
       g_pen = Some (True, [\<lparr>p_name = ''BatchedMinNewTokensPenalizer'', p_prepared = True\<rparr>])\<rparr>,
     t_reqs = [\<lparr>r_stop_ids = Some [Some 2], r_eos_ids = None, r_tok = None, r_cached = None\<rparr>]\<rparr>"

definition ex_state :: "nat \<Rightarrow> cert_state" where
  "ex_state r = load_weights True 7 (Inr (ex_st r)) (True, None) cert_init"

definition ex_run :: "nat \<Rightarrow> cert_state \<times> fval list list" where
  "ex_run r = (case verify_step [1] 1 ''1'' ex_batch 7 ex_lm (ex_K r) (exact_logits (ex_st r) (ex_K r) 1) 1 (ex_state r) of
     Inr x \<Rightarrow> x | Inl e \<Rightarrow> (ex_state r, []))"

lemmas ex_defs = ex_lm_def ex_st_def ex_logit_def ex_K_def ex_batch_def ex_state_def

lemma ex_shard: "h_V (ex_st r) = 2" "h_vstart (ex_st r) = 2 * int r"
  by (simp_all add: ex_st_def)

lemma ex_reach: "reach (ex_state r)"
  unfolding ex_state_def by (intro reach_load reach_init)

lemma ex_built: "s_st (ex_state r) = Some (ex_st r)"
  by (simp add: ex_state_def load_weights_def cert_init_def)

lemma ex_armed: "step_armed ex_batch = ((True, [2]), ex_batch\<lparr>t_reqs := [\<lparr>r_stop_ids = Some [Some 2], r_eos_ids = None, r_tok = None, r_cached = Some [2]\<rparr>]\<rparr>)"
  by (simp add: ex_batch_def step_armed_def req_stop_ids_def prepare_ids_def or_empty_def map_filter_def NSTOP_def)

lemma ex_step:
  "r < 2 \<Longrightarrow> verify_step [1] 1 ''1'' ex_batch 7 ex_lm (ex_K r) (exact_logits (ex_st r) (ex_K r) 1) 1 (ex_state r) = Inr (ex_run r)"
  by (simp add: ex_run_def verify_step_def run_non_compact_def ex_armed set_stop_def ex_state_def load_weights_def cert_init_def new_buffers_def
      fits_int32_def NSTOP_def get_logits_def compute_lm_head_def set_flag_def split: prod.splits)

lemma ex_out:
  "r < 2 \<Longrightarrow> snd (ex_run r) = [cert_row (ex_st r) (ex_K r) 1 (2 # replicate 63 (-1)) 1 1 0]"
  by (simp add: ex_run_def verify_step_def run_non_compact_def ex_armed set_stop_def ex_state_def load_weights_def cert_init_def new_buffers_def
      fits_int32_def NSTOP_def get_logits_def compute_lm_head_def set_flag_def ex_st_def certified_logits_def cert_row_def Let_def)

lemma ex_kept:
  "cert_row (ex_st 0) (ex_K 0) 1 (2 # replicate 63 (-1)) 1 1 0 = [Fin 3, NInf]"
  by (simp add: cert_row_def tile_needed_def row_threshold_def bound_lo_def bound_hi_def is_stop_def ex_st_def ex_K_def ex_logit_def
      upt_rec [of _ 2] max_def)

lemma ex_certified: "r < 2 \<Longrightarrow> certified (ex_st r) (ex_K r) 1"
  by (simp add: certified_def ex_st_def ex_K_def list_all_iff)

section \<open>Properties\<close>

text \<open>C3: The certified head is lossless. On every rank the module is in some reachable state, the tables are built, and a
  batch goes through \<open>run_non_compact\<close> and the head. When the row count is qualified, the exact kernel gives the stock
  logits and the screen's bounds enclose them on rows of finite norm. Then, after the gather over the vocabulary and with
  any mask on stop ids of the batch applied, every row has the same maximal positions with the same values as the stock
  logits, although the tiles that could not win were never computed; and on a step that was not armed every logit is the stock one.\<close>

theorem certified_verify_exact:
  assumes "0 < bv" and "m < M" and "step_armed b = ((armed, stops), b')"
    and "\<And>r. r < n \<Longrightarrow> reach (S r) \<and> s_st (S r) = Some (st r)"
    and "\<And>r. r < n \<Longrightarrow> verify_step qual_M bv md b (lp r) (lm r) (K r) (stock r) M (S r) = Inr (S' r, l r)"
    and "\<And>r. r < n \<Longrightarrow> int M \<in> set qual_M \<Longrightarrow> stock r = exact_logits (st r) (K r) M \<and> certified (st r) (K r) M"
    and "\<And>r v. armed \<Longrightarrow> r < n \<Longrightarrow> v < h_V (st r) \<Longrightarrow> msk r v \<Longrightarrow> h_vstart (st r) + int v \<in> set stops"
  shows "maximisers (gathered_row n msk l m) = maximisers (gathered_row n msk stock m) \<and> (armed \<or> (\<forall>r<n. l r = stock r))"
proof -
  have each: "only_losers_dropped (mask_row (msk r) (stock r ! m)) (mask_row (msk r) (l r ! m)) \<and> (\<not> armed \<longrightarrow> l r = stock r)"
    if r: "r < n" for r
    using assms(4) [OF r] reach_ok
    by (intro verify_step_losers [OF assms(5) [OF r] _ assms(3) _ assms(1,2)]) (auto intro: assms(6) [OF r, THEN conjunct1]
        assms(6) [OF r, THEN conjunct2] assms(7) [OF _ r])
  have "only_losers_dropped (gathered_row n msk stock m) (gathered_row n msk l m)"
    unfolding gathered_row_def by (rule only_losers_dropped_concat) (use each in blast)
  from same_maximisers [OF this] each show ?thesis by auto
qed

theorem certified_verify_exact_witness:
  "snd (ex_run 0) = [[Fin 3, NInf]]
    \<and> maximisers (gathered_row 2 (\<lambda>r v. r = 1 \<and> v = 0) (\<lambda>r. snd (ex_run r)) 0) = [(0, Fin 3)]"
proof -
  let ?stock = "\<lambda>r. exact_logits (ex_st r) (ex_K r) 1" and ?msk = "\<lambda>r v. r = 1 \<and> v = 0"
  have "snd (ex_run 0) = [[Fin 3, NInf]]"
    using ex_out [of 0] ex_kept by simp
  moreover have "maximisers (gathered_row 2 ?msk (\<lambda>r. snd (ex_run r)) 0) = maximisers (gathered_row 2 ?msk ?stock 0)"
    by (rule certified_verify_exact [OF _ _ ex_armed, where S = ex_state and st = ex_st and qual_M = "[1]" and bv = "1"
          and md = "''1''" and lp = "\<lambda>r. 7" and lm = "\<lambda>r. ex_lm" and K = ex_K and M = "1" and S' = "\<lambda>r. fst (ex_run r)", THEN conjunct1])
      (use ex_step ex_certified in \<open>auto simp: ex_reach ex_built ex_shard\<close>)
  moreover have "maximisers (gathered_row 2 ?msk ?stock 0) = [(0, Fin 3)]" by code_simp
  ultimately show ?thesis by simp
qed

text \<open>C35: When a verify step runs certified, every consumer of its logits is a greedy argmax: the batch asks for no log
  probabilities and no grammar, and its sampling info is greedy with no custom processor, bias or grammar mask; a required
  penalizer that is prepared is the min-new-tokens one, and then every stop id it may mask is in the slots. A compact or idle
  step runs in full mode.\<close>

theorem certified_only_when_greedy:
  assumes "reach S" and "run_non_compact b S = Inr (S', b')" and "s_bufs S' = Some bufs" and "b_flag bufs \<noteq> 0"
  shows "greedy_readers (b_stop bufs) b
    \<and> map_option b_flag (s_bufs (run_compact S')) = Some 0 \<and> map_option b_flag (s_bufs (run_idle S')) = Some 0"
proof -
  obtain armed stops b1 where a: "step_armed b = ((armed, stops), b1)" by (metis prod.collapse)
  note fl = run_non_compact_bufs [OF assms(2) reach_ok [OF assms(1)] a assms(3)]
  then have "armed" "set stops \<subseteq> set (b_stop bufs)" using assms(4) by (auto split: if_splits)
  then have "greedy_readers (b_stop bufs) b" using step_armed_greedy a by simp
  moreover have "bufs_ok bufs" using run_non_compact_ok [OF assms(2) reach_ok [OF assms(1)]] assms(3)
    by (auto simp: cert_ok_def split: option.splits)
  then have "map_option b_flag (s_bufs (set_flag False S')) = Some 0"
    using assms(3) by (auto simp: set_flag_bufs bufs_ok_def)
  ultimately show ?thesis by (simp add: run_compact_def run_idle_def)
qed

theorem certified_only_when_greedy_witness:
  "greedy_readers (2 # replicate 63 (-1)) ex_batch"
proof -
  let ?b = "\<lparr>b_flag = 1, b_flag_host = 1, b_stop = 2 # replicate 63 (-1), b_stop_host = [2], b_need = 0, b_counters = replicate 8 0\<rparr>"
  have "run_non_compact ex_batch (ex_state 0) = Inr ((ex_state 0)\<lparr>s_bufs := Some ?b, s_verify_calls := 1, s_armed_calls := 1\<rparr>, snd (step_armed ex_batch))"
    by (simp add: run_non_compact_def ex_armed set_stop_def ex_state_def load_weights_def cert_init_def new_buffers_def
      fits_int32_def NSTOP_def set_flag_def)
  from certified_only_when_greedy [OF ex_reach this, of ?b] show ?thesis by simp
qed

text \<open>The head is certified on every rank of the group or on none: after all ranks have loaded the target, a rank has
  its tables exactly when every rank built them and the settings hash to the same value on every rank.\<close>

theorem load_group_agrees:
  assumes "ranks \<noteq> []"
  shows "list_all (\<lambda>S. s_st S \<noteq> None \<longleftrightarrow>
      list_all (\<lambda>(env, lp, b). is_built b \<and> config_hash sha7 env = config_hash sha7 (fst (hd ranks))) ranks) (load_group sha7 ranks)"
proof -
  obtain f g h where red: "max_reduce (map (\<lambda>(env, lp, b). agree_word (is_built b) (config_hash sha7 env)) ranks) = [f, g, h]"
    and f: "\<And>z. f \<le> z \<longleftrightarrow> (\<forall>(env, lp, b)\<in>set ranks. (if is_built b then 0 else 1) \<le> z)"
    and g: "\<And>z. g \<le> z \<longleftrightarrow> (\<forall>(env, lp, b)\<in>set ranks. int (config_hash sha7 env) \<le> z)"
    and h: "\<And>z. h \<le> z \<longleftrightarrow> (\<forall>(env, lp, b)\<in>set ranks. - int (config_hash sha7 env) \<le> z)"
    by (rule max_reduce_words [OF assms, of sha7]) blast
  let ?built = "\<forall>(env, lp, b)\<in>set ranks. is_built b"
  have "0 \<le> f" using f [of "f"] assms by (cases ranks) (auto split: if_splits prod.splits)
  then have f0: "f = 0 \<longleftrightarrow> ?built" using f [of 0] by (auto split: if_splits prod.splits)
  have gh: "g = - h \<longleftrightarrow> (\<forall>x\<in>set ranks. config_hash sha7 (fst x) = config_hash sha7 (fst (hd ranks)))"
    using max_and_min_meet [OF assms, of g "\<lambda>x. int (config_hash sha7 (fst x))" h] g h by (auto simp: case_prod_beta)
  have one: "g = - h" if "length ranks = 1" using that gh by (cases ranks) auto
  have "s_st (load_weights True lp b (tp_agree (length ranks) (Some [f, g, h]) (is_built b)) cert_init) \<noteq> None
      \<longleftrightarrow> f = 0 \<and> g = - h" if "(env, lp, b) \<in> set ranks" for env lp b
  proof (cases "length ranks = 1")
    case True
    then have "ranks = [(env, lp, b)]" using that by (cases ranks) auto
    then show ?thesis using one f0
      by (auto simp: load_weights_def tp_agree_def cert_init_def is_built_def split: sum.splits)
  next
    case False
    have "is_built b" if "f = 0" using f0 that \<open>(env, lp, b) \<in> set ranks\<close> by fastforce
    then show ?thesis using False
      by (cases b) (auto simp: load_weights_def tp_agree_def cert_init_def is_built_def)
  qed
  moreover have "list_all (\<lambda>(env, lp, b). is_built b \<and> config_hash sha7 env = config_hash sha7 (fst (hd ranks))) ranks
      \<longleftrightarrow> f = 0 \<and> g = - h" unfolding f0 gh list_all_iff by fastforce
  ultimately show ?thesis unfolding load_group_def red Let_def by (auto simp: list_all_iff)
qed

theorem load_group_agrees_witness:
  "list_all (\<lambda>S. s_st S \<noteq> None) (load_group length [(Map.empty, 7, Inr (ex_st 0)), (Map.empty, 7, Inr (ex_st 1))])
   \<and> list_all (\<lambda>S. s_st S = None) (load_group length [(Map.empty, 7, Inr (ex_st 0)), (Map.empty, 7, Inl NonFinite)])"
  using load_group_agrees [of "[(Map.empty, 7, Inr (ex_st 0)), (Map.empty, 7, Inr (ex_st 1))]" length]
    load_group_agrees [of "[(Map.empty, 7, Inr (ex_st 0)), (Map.empty, 7, Inl NonFinite)]" length]
  by (simp add: is_built_def)

text \<open>Check mode counts no false alarm: when the exact kernel gives the stock logits, none of them NaN, and the bounds
  enclose them, a step adds nothing to the four mismatch counters, in either mode; it counts one step, one certified step if
  the flag is set, and its rows.\<close>

theorem check_mode_clean:
  assumes c: "certified st K M" and bv: "0 < bv" and V: "0 < h_V st"
    and fin: "\<And>m v. m < M \<Longrightarrow> v < h_V st \<Longrightarrow> o_exact K m v \<noteq> NaN"
    and cert: "certified_logits st K bv M bufs = (bufs', l)"
  shows "check_counts bufs' (exact_logits st K M) l = [1, if b_flag bufs = 0 then 0 else 1, 0, 0, 0, 0, M, 0]"
proof -
  let ?a = "exact_logits st K M" and ?r = "\<lambda>m. cert_row st K (b_flag bufs) (b_stop bufs) bv M m"
  have l: "l = snd (certified_logits st K bv M bufs)" and fl: "b_flag bufs' = b_flag bufs"
    using cert certified_logits_bufs [of st K bv M bufs] by (auto simp: certified_logits_def Let_def)
  have ne: "?a ! m \<noteq> []" if "m < M" for m using that V by (simp add: exact_logits_def)
  have am: "argmax (?r m) = argmax (?a ! m)" "?r m ! argmax (?a ! m) = ?a ! m ! argmax (?a ! m)" if "m < M" for m
    using same_argmax [OF cert_row_losers [OF c that bv] ne [OF that], of "b_flag bufs" "b_stop bufs"] by auto
  have val: "?a ! m ! argmax (?a ! m) \<noteq> NaN" if "m < M" for m
    using argmax_spec [OF ne [OF that]] fin that by (simp add: exact_logits_def)
  have "count_pairs (\<lambda>x y. fneq x y \<and> fneq y NInf) ?a l = 0" unfolding l
    by (rule count_pairs_zero) (use fin in \<open>auto simp: exact_logits_def cert_row_def fneq_def\<close>)
  moreover have "count_pairs fneq ?a l = 0" if "b_flag bufs = 0" unfolding l
    by (rule count_pairs_zero) (use fin that in \<open>auto simp: exact_logits_def cert_row_def fneq_def tile_needed_def\<close>)
  moreover have "length (filter (\<lambda>(x, y). argmax x \<noteq> argmax y) (zip ?a l)) = 0"
    "length (filter (\<lambda>(x, y). fneq (x ! argmax x) (y ! argmax y)) (zip ?a l)) = 0"
    unfolding l zip_rows using am val by (auto simp: filter_empty_conv fneq_def)
  moreover have "length ?a = M" by (simp add: exact_logits_def)
  ultimately show ?thesis unfolding check_counts_def Let_def fl by simp
qed

theorem check_mode_clean_witness:
  "check_counts (fst (certified_logits (ex_st 0) (ex_K 0) 1 1 (new_buffers\<lparr>b_flag := 1\<rparr>))) (exact_logits (ex_st 0) (ex_K 0) 1)
     (snd (certified_logits (ex_st 0) (ex_K 0) 1 1 (new_buffers\<lparr>b_flag := 1\<rparr>))) = [1, 1, 0, 0, 0, 0, 1, 0]"
  using check_mode_clean [OF ex_certified [of 0], of 1 "new_buffers\<lparr>b_flag := 1\<rparr>"]
  by (simp add: ex_shard ex_K_def)

end
