(* ===== verification/Cert_Bound.thy ===== *)
theory Cert_Bound
  imports Float_Round Cert_Head
begin

text \<open>
  The float arithmetic of the certified head (\<open>adapter/cert_head.py\<close>): the tables of a head shard, the norms of a row and the
  screen's bounds, computed in the formats of the code with every rounding, underflow, overflow and NaN. It shows that
  the bounds enclose the exact kernel's logits, the hypothesis \<open>certified\<close> of \<open>Cert_Head\<close>.

  What the source leaves to the compiler is an argument: the order of a sum and the contraction of its products
  (\<open>stree\<close>), the contraction of the other multiply-adds (\<open>g_fma\<close>, by position), and the square root when the correctly
  rounded one is missing. The tensor-core accumulation of the two matrix products is an argument too; what the
  code assumes of it (\<open>c_acc\<close>) is a hypothesis, with an absolute term for underflow. The Triton interpreter's
  branches are left out.
\<close>

section \<open>Constants\<close>

definition INFL_Q :: real where "INFL_Q = 1 + 2 powi (-18)"
definition INFL_B :: real where "INFL_B = 1 + 2 powi (-20)"
definition INFL_X :: real where "INFL_X = 1 + 2 powi (-16)"
definition SLOP_REL :: real where "SLOP_REL = 2 powi (-22)"
definition SLOP_ABS :: real where "SLOP_ABS = 2 powi (-126)"
definition X_ABS :: real where "X_ABS = 2 powi (-59)"

definition c_acc :: "nat \<Rightarrow> real" where
  "c_acc K = real K / 16 * 17 * 2 powi (-23)"

section \<open>The tables of a shard\<close>

text \<open>How torch runs: its fp32 logarithm and the orders of its fp64 sums over a group and over a row.\<close>

record torch_ops =
  p_log2 :: "real \<Rightarrow> real"
  p_group_tree :: stree
  p_row_tree :: stree

fun fin :: "fval \<Rightarrow> real" where
  "fin (Fin x) = x"
| "fin _ = 0"

definition is_fin :: "fval \<Rightarrow> bool" where
  "is_fin x = (case x of Fin _ \<Rightarrow> True | _ \<Rightarrow> False)"

text \<open>\<open>make_mxint8\<close> on one block of 32 weights: exponent byte and int8 values.\<close>

definition block_exponent :: "torch_ops \<Rightarrow> real list \<Rightarrow> nat" where
  "block_exponent P ws =
     (let amax = foldr (\<lambda>w a. max \<bar>w\<bar> a) ws 0;
          ex = (if 0 < amax then \<lceil>p_log2 P (rn F32 (max amax (rn F32 (1 / 10 ^ 38)) / 127))\<rceil> else 0)
      in nat (max 1 (min 254 (ex + 127))))"

definition quantize :: "nat \<Rightarrow> real \<Rightarrow> int" where
  "quantize eb w = max (-127) (min 127 (rne (rn F32 (w / 2 powi (int eb - 127)))))"

definition make_mxint8 :: "torch_ops \<Rightarrow> real list \<Rightarrow> int list \<times> nat list" where
  "make_mxint8 P w =
     (let e = map (\<lambda>b. block_exponent P (slice (b * 32) (b * 32 + 32) w)) [0..<length w div 32]
      in (map (\<lambda>k. quantize (e ! (k div 32)) (w ! k)) [0..<length w], e))"

text \<open>The float whose bits are the exponent byte alone.\<close>

definition scale :: "nat \<Rightarrow> fval" where
  "scale eb = (if eb = 0 then Fin 0 else if eb = 255 then PInf else Fin (2 powi (int eb - 127)))"

text \<open>\<open>deq_rows\<close> on one row: the bf16 values the screen multiplies with, and the fp32 products.\<close>

definition deq_row :: "int list \<Rightarrow> nat list \<Rightarrow> fval list \<times> fval list" where
  "deq_row q e =
     (let raw = map (\<lambda>k. fmul (fl F32) (Fin (of_int (q ! k))) (scale (e ! (k div 32)))) [0..<length q]
      in (map (fcvt (fl BF16)) raw, raw))"

record table_row =
  v_q :: "int list"
  v_e :: "nat list"
  v_rt :: "fval list"
  v_nv :: fval

definition infl64 :: fval where "infl64 = Fin (1 + 2 powi (-40))"

definition resid_norm :: "torch_ops \<Rightarrow> nat \<Rightarrow> fval list \<Rightarrow> fval list \<Rightarrow> nat \<Rightarrow> fval" where
  "resid_norm P G w d g =
     round_up F32 (fmul (fl F64) (fsqrt (fl F64) (tsum (fl F64) (\<lambda>i. fsub (fl F64) (w ! (g * G + i)) (d ! (g * G + i))) (p_group_tree P))) infl64)"

definition norm64 :: "torch_ops \<Rightarrow> fval list \<Rightarrow> fval" where
  "norm64 P w = fsqrt (fl F64) (tsum (fl F64) (\<lambda>i. w ! i) (p_row_tree P))"

text \<open>\<open>build_tables\<close> on one row of the shard; a row whose bf16 cast is not exact gets infinite residuals.\<close>

definition build_row :: "torch_ops \<Rightarrow> nat \<Rightarrow> fval list \<Rightarrow> table_row" where
  "build_row P G w =
     (let (q, e) = make_mxint8 P (map fin w);
          (d, raw) = deq_row q e;
          unsafe = list_ex (\<lambda>(a, b). fneq a b) (zip d raw);
          rg = map (\<lambda>g. if unsafe then PInf else resid_norm P G w d g) [0..<length w div G]
      in \<lparr>v_q = q, v_e = e, v_rt = map (round_up F16) rg,
          v_nv = round_up F32 (fmul (fl F64) (max (norm64 P w) (norm64 P d)) infl64)\<rparr>)"

section \<open>The kernels\<close>

text \<open>How the kernels were compiled, and their accumulations of a row of the input with a row of weights.\<close>

record codegen =
  g_rn :: bool
  g_sqrt :: "fval \<Rightarrow> fval"
  g_fma :: "nat \<Rightarrow> bool"
  g_group_tree :: stree
  g_norm_tree :: stree
  g_dot :: "fval list \<Rightarrow> fval list \<Rightarrow> fval"
  g_exact :: "fval list \<Rightarrow> fval list \<Rightarrow> fval"

definition ksqrt :: "codegen \<Rightarrow> fval \<Rightarrow> fval" where
  "ksqrt C s = (if g_rn C then fsqrt (fl F32) s else g_sqrt C s)"

definition group_norm :: "codegen \<Rightarrow> nat \<Rightarrow> fval list \<Rightarrow> nat \<Rightarrow> fval" where
  "group_norm C G x g =
     mul_add (fl F32) (g_fma C 0) (ksqrt C (tsum (fl F32) (\<lambda>i. x ! (g * G + i)) (g_group_tree C))) (Fin INFL_X) (Fin X_ABS)"

definition row_norm :: "codegen \<Rightarrow> nat \<Rightarrow> fval list \<Rightarrow> fval" where
  "row_norm C G x =
     fmul (fl F32) (ksqrt C (tsum (fl F32) (\<lambda>g. if g < length x div G then group_norm C G x g else Fin 0) (g_norm_tree C))) (Fin INFL_X)"

definition row_bad :: "codegen \<Rightarrow> nat \<Rightarrow> fval list \<Rightarrow> bool" where
  "row_bad C G x = (row_norm C G x = NaN \<or> row_norm C G x = PInf)"

definition resid_bound :: "codegen \<Rightarrow> nat \<Rightarrow> fval list \<Rightarrow> fval list \<Rightarrow> fval" where
  "resid_bound C G x rt = fold (\<lambda>g qb. mul_add (fl F32) (g_fma C 1) (group_norm C G x g) (rt ! g) qb) [0..<length x div G] (Fin 0)"

definition screen_bound :: "codegen \<Rightarrow> nat \<Rightarrow> fval list \<Rightarrow> table_row \<Rightarrow> fval" where
  "screen_bound C G x T =
     (let R = fl F32;
          qb = resid_bound C G x (v_rt T);
          cacc2 = fl F32 (2 * c_acc (length x));
          p = fmul R (row_norm C G x) (v_nv T);
          s = (if g_fma C 2 then ffma R qb (Fin INFL_Q) (fmul R cacc2 p)
               else mul_add R (g_fma C 3) cacc2 p (fmul R qb (Fin INFL_Q)));
          B = fmul R s (Fin INFL_B)
      in if B = NaN then PInf else B)"

definition screen_slop :: "codegen \<Rightarrow> fval \<Rightarrow> fval \<Rightarrow> fval" where
  "screen_slop C acc B = mul_add (fl F32) (g_fma C 4) (fadd (fl F32) (fabs acc) B) (Fin SLOP_REL) (Fin SLOP_ABS)"

definition screen_value :: "codegen \<Rightarrow> nat \<Rightarrow> fval list \<Rightarrow> table_row \<Rightarrow> fval \<times> fval \<times> bool" where
  "screen_value C G x T =
     (let acc = g_dot C x (fst (deq_row (v_q T) (v_e T)));
          B = screen_bound C G x T;
          slop = screen_slop C acc B
      in (fcvt (fl BF16) (fsub (fl F32) (fsub (fl F32) acc B) slop),
          fcvt (fl BF16) (fadd (fl F32) (fadd (fl F32) acc B) slop),
          \<not> is_fin acc))"

text \<open>The arithmetic of one rank: the tables of the shard \<open>W\<close>, applied to the rows \<open>xs\<close>.\<close>

definition head_ops :: "codegen \<Rightarrow> torch_ops \<Rightarrow> nat \<Rightarrow> fval list list \<Rightarrow> fval list list \<Rightarrow> shard_ops" where
  "head_ops C P G W xs =
     \<lparr>o_exact = \<lambda>m v. fcvt (fl BF16) (g_exact C (W ! v) (xs ! m)),
      o_screen = \<lambda>m v. screen_value C G (xs ! m) (map (build_row P G) W ! v),
      o_bad = \<lambda>m. row_bad C G (xs ! m)\<rparr>"

section \<open>Hypotheses\<close>

definition dot :: "fval list \<Rightarrow> fval list \<Rightarrow> real" where
  "dot w x = (\<Sum>k<length x. fin (w ! k) * fin (x ! k))"

definition norm2 :: "fval list \<Rightarrow> real" where
  "norm2 x = sqrt (\<Sum>k<length x. (fin (x ! k))\<^sup>2)"

text \<open>The assumption of \<open>c_acc\<close>: a finite accumulation is a fp32 number within \<open>c_acc\<close> times the norms of the exact product, or within
  the absolute error of underflow; an infinite one means that this range reaches the end of the format.\<close>

definition accumulates :: "fval \<Rightarrow> fval list \<Rightarrow> fval list \<Rightarrow> bool" where
  "accumulates r w x =
     (let s = dot w x; e = c_acc (length x) * (norm2 w * norm2 x) + 2 powi (-129) in
      case r of
        Fin y \<Rightarrow> \<bar>y - s\<bar> \<le> e \<and> fl F32 y = Fin y
      | PInf \<Rightarrow> 2 powi 128 \<le> s + e
      | NInf \<Rightarrow> s - e \<le> - (2 powi 128)
      | NaN \<Rightarrow> False)"

definition sums_over :: "stree \<Rightarrow> nat \<Rightarrow> bool" where
  "sums_over t n = (distinct (leaves t) \<and> set (leaves t) = {..<n})"

text \<open>The documented accuracy of the fast square root.\<close>

definition approx_sqrt :: "(fval \<Rightarrow> fval) \<Rightarrow> bool" where
  "approx_sqrt r \<longleftrightarrow> r PInf = PInf \<and> r NaN = NaN
     \<and> (\<forall>s. 0 \<le> s \<longrightarrow> (\<exists>y. r (Fin s) = Fin y \<and> 0 \<le> y \<and> \<bar>y - sqrt s\<bar> \<le> 2 powi (-22) * sqrt s))"

definition is_bf16 :: "fval \<Rightarrow> bool" where
  "is_bf16 x \<longleftrightarrow> is_fin x \<and> fcvt (fl BF16) x = x"

section \<open>Norms in floats\<close>

lemma bernoulli: "0 \<le> u \<Longrightarrow> u \<le> 1 \<Longrightarrow> 1 - real n * u \<le> (1 - u) ^ n" for u :: real
  using Bernoulli_inequality [of "- u" n] by simp

lemma sums_over_length: "sums_over t n \<Longrightarrow> length (leaves t) = n"
  using distinct_card [of "leaves t"] by (simp add: sums_over_def)

lemma sums_over_sum: "sums_over t n \<Longrightarrow> (\<Sum>i\<leftarrow>leaves t. f i) = (\<Sum>i<n. f i :: real)"
  by (simp add: sums_over_def sum_list_distinct_conv_sum_set)

lemma sums_over_set: "sums_over t n \<Longrightarrow> i \<in> set (leaves t) \<longleftrightarrow> i < n"
  by (auto simp: sums_over_def)

lemma sqrt_diff_le:
  assumes "0 \<le> a" and "0 \<le> b" and "a - b \<le> c" and "0 \<le> c"
  shows "sqrt a - sqrt b \<le> sqrt c"
proof -
  have "sqrt a \<le> sqrt (b + c)" using assms by simp
  also have "\<dots> \<le> sqrt b + sqrt c" using assms by (intro sqrt_add_le_add_sqrt)
  finally show ?thesis by simp
qed

lemma sqrt_ge_self: "0 \<le> q \<Longrightarrow> q \<le> 1 \<Longrightarrow> q \<le> sqrt q"
  using real_le_rsqrt [of q q] by (simp add: power2_eq_square mult_left_le)

text \<open>The sum of squares of numbers at least \<open>b\<close>, in any order, and its square root.\<close>

definition nrm :: "(nat \<Rightarrow> real) \<Rightarrow> nat \<Rightarrow> real" where
  "nrm b n = sqrt (\<Sum>i<n. (b i)\<^sup>2)"

lemma nrm_nonneg [simp]: "0 \<le> nrm b n"
  by (simp add: nrm_def sum_nonneg)

lemma nrm_mono: "(\<And>i. i < n \<Longrightarrow> \<bar>a i\<bar> \<le> \<bar>b i\<bar>) \<Longrightarrow> nrm a n \<le> nrm b n"
  unfolding nrm_def by (intro real_sqrt_le_mono sum_mono) (simp add: abs_le_square_iff)

lemma nrm_scale: "0 \<le> c \<Longrightarrow> nrm (\<lambda>i. c * b i) n = c * nrm b n"
  by (simp add: nrm_def power_mult_distrib sum_distrib_left [symmetric] real_sqrt_mult)

context ieee
begin

lemma tsum_norm:
  assumes t: "sums_over t n" and b: "\<And>i. i < n \<Longrightarrow> Fin (b i) \<le> fabs (f i) \<and> 0 \<le> b i" and n: "real n * u \<le> 1"
  shows "\<exists>s. 0 \<le> s \<and> Fin s \<le> tsum R f t \<and> (1 - real n * u) * nrm b n - sqrt (2 * real n * h) \<le> sqrt s"
proof -
  let ?S = "\<Sum>i<n. (b i)\<^sup>2" and ?q = "(1 - u) ^ n"
  define s where "s = max 0 (?q * ?S - (2 * real n - 1) * h)"
  have q: "0 \<le> ?q" "?q \<le> 1" "1 - real n * u \<le> ?q" using u_pos u_le by (auto intro: bernoulli power_le_one)
  have S: "0 \<le> ?S" by (simp add: sum_nonneg)
  have "Fin (?q * ?S - (2 * real n - 1) * h) \<le> tsum R f t"
    using tsum_lower [of t b f] b by (simp add: sums_over_length [OF t] sums_over_sum [OF t] sums_over_set [OF t])
  then have 1: "Fin s \<le> tsum R f t" using tsum_nonneg [of f t] by (auto simp: s_def max_def)
  have "sqrt (?q * ?S) - sqrt (2 * real n * h) \<le> sqrt s"
    by (rule sqrt_diff_le) (use q S h_pos in \<open>auto simp: s_def algebra_simps\<close>)
  moreover have "(1 - real n * u) * nrm b n \<le> sqrt (?q * ?S)"
    using sqrt_ge_self [OF q(1,2)] q(3) by (simp add: real_sqrt_mult nrm_def mult_right_mono S)
  ultimately show ?thesis using 1 s_def by (intro exI [of _ s]) auto
qed

text \<open>When the sum is far above the underflow threshold the loss is relative.\<close>

lemma tsum_norm_rel:
  assumes t: "sums_over t n" and b: "\<And>i. i < n \<Longrightarrow> Fin (b i) \<le> fabs (f i) \<and> 0 \<le> b i" and n: "(real n + 1) * u \<le> 1"
    and h: "nrm b n = 0 \<or> 2 * real n * h \<le> u * (nrm b n)\<^sup>2"
  shows "\<exists>s. 0 \<le> s \<and> Fin s \<le> tsum R f t \<and> (1 - (real n + 1) * u) * nrm b n \<le> sqrt s"
proof -
  let ?S = "\<Sum>i<n. (b i)\<^sup>2" and ?q = "(1 - u) ^ n"
  have q: "0 \<le> ?q" "?q \<le> 1" "1 - real n * u \<le> ?q" using u_pos u_le by (auto intro: bernoulli power_le_one)
  have S: "0 \<le> ?S" "(nrm b n)\<^sup>2 = ?S" by (auto simp: sum_nonneg nrm_def)
  show ?thesis
  proof (cases "nrm b n = 0")
    case True
    then show ?thesis using tsum_nonneg [of f t] by (intro exI [of _ 0]) simp
  next
    case False
    let ?k = "1 - (real n + 1) * u"
    have "?k * ?S \<le> ?q * ?S - (2 * real n - 1) * h"
      using mult_right_mono [OF q(3) S(1)] h False h_pos S(2) by (simp add: algebra_simps)
    moreover have "Fin (?q * ?S - (2 * real n - 1) * h) \<le> tsum R f t"
      using tsum_lower [of t b f] b by (simp add: sums_over_length [OF t] sums_over_sum [OF t] sums_over_set [OF t])
    ultimately have "Fin (?k * ?S) \<le> tsum R f t" by (elim order_trans [rotated]) simp
    moreover have k: "0 \<le> ?k" "?k \<le> 1" using n u_pos by auto
    moreover have "?k * nrm b n \<le> sqrt (?k * ?S)"
      using sqrt_ge_self [OF k] by (simp add: real_sqrt_mult nrm_def mult_right_mono S)
    ultimately show ?thesis using S by (intro exI [of _ "?k * ?S"]) auto
  qed
qed

end

section \<open>The tables bound the weights\<close>

lemma powi_neg: "(2::real) powi (- int n) = 1 / 2 ^ n"
  by (simp add: power_int_minus divide_inverse)

lemma h64_le:
  assumes "2 powi (-134) \<le> (B::real)" shows "2 powi (-1075) \<le> 2 powi (-53) * B / 4"
proof -
  have "(2::real) powi (-1075) \<le> 2 powi (-189)" by (rule power_int_increasing) auto
  also have "\<dots> = 2 powi (-53) * 2 powi (-134) / 4" by (simp add: power_int_def field_simps flip: power_add)
  also have "\<dots> \<le> 2 powi (-53) * B / 4" using assms by simp
  finally show ?thesis .
qed

lemma h64_sq_le:
  assumes "2 powi (-134) \<le> (B::real)" and "n \<le> 8000"
  shows "2 * real n * 2 powi (-1075) \<le> 2 powi (-53) * B\<^sup>2"
proof -
  have "2 * real n * 2 powi (-1075) \<le> 2 powi 14 * 2 powi (-1075)" using assms(2) by (intro mult_right_mono) auto
  also have "\<dots> = (2::real) powi (-1061)" by (simp flip: power_int_add)
  also have "\<dots> \<le> 2 powi (-321)" by (rule power_int_increasing) auto
  also have "\<dots> = 2 powi (-53) * (2 powi (-134))\<^sup>2" by (simp add: power2_eq_square flip: power_int_add)
  also have "\<dots> \<le> 2 powi (-53) * B\<^sup>2" using assms(1) by (intro mult_left_mono power_mono) auto
  finally show ?thesis .
qed

lemma inflate64:
  fixes u B s h :: real
  assumes u: "u = 1 / 9007199254740992" and "0 \<le> B" and "(1 - 8001 * u) * B \<le> s" and "h \<le> u * B / 4"
  shows "(1 + 100 * u) * B \<le> (1 - u) * (((1 - u) * s - h) * (1 + 8192 * u)) - h"
proof -
  have "(1 - 8003 * u) * B \<le> (1 - u) * s - h" using assms(2-4) unfolding u by (simp add: field_simps)
  then show ?thesis using assms(2,4) unfolding u by (simp add: field_simps)
qed

text \<open>A fp64 norm, inflated, is above the exact norm with room to spare.\<close>

lemma norm64_covers:
  assumes t: "sums_over t n" and n: "n \<le> 8000" and b: "\<And>i. i < n \<Longrightarrow> Fin (b i) \<le> fabs (f i) \<and> 0 \<le> b i"
    and B: "nrm b n = 0 \<or> 2 powi (-134) \<le> nrm b n"
  shows "Fin ((1 + 100 * 2 powi (-53)) * nrm b n) \<le> fmul (fl F64) (fsqrt (fl F64) (tsum (fl F64) f t)) infl64"
proof (cases "nrm b n = 0")
  case True
  have "Fin 0 \<le> fmul (fl F64) (fsqrt (fl F64) (tsum (fl F64) f t)) infl64"
    by (intro b64.mul_nonneg b64.sqrt_nonneg b64.tsum_nonneg) (simp add: infl64_def)
  then show ?thesis using True by simp
next
  case False
  define u h where uh: "u = (2::real) powi (-53)" "h = (2::real) powi (-1075)"
  let ?B = "nrm b n"
  have B: "2 powi (-134) \<le> ?B" using B False by blast
  have u: "u = 1 / 9007199254740992" using powi_neg [of 53] by (simp add: uh)
  have nu: "(real n + 1) * u \<le> 1" using n by (simp add: u)
  obtain s where s: "0 \<le> s" "Fin s \<le> tsum (fl F64) f t" "(1 - (real n + 1) * u) * ?B \<le> sqrt s"
    using b64.tsum_norm_rel [OF t b nu [unfolded uh] disjI2 [OF h64_sq_le [OF B n]]] by (auto simp: uh)
  have h: "h \<le> u * ?B / 4" using h64_le [OF B] by (simp add: uh)
  have 1: "Fin ((1 - u) * sqrt s - h) \<le> fsqrt (fl F64) (tsum (fl F64) f t)"
    unfolding uh by (rule b64.sqrt_lower [OF b64.tsum_nonneg s(2)])
  have "Fin ((1 - u) * (((1 - u) * sqrt s - h) * (1 + 2 powi (-40))) - h) \<le> fmul (fl F64) (fsqrt (fl F64) (tsum (fl F64) f t)) infl64"
    unfolding uh infl64_def by (rule b64.mul_lower) (use 1 in \<open>simp_all add: uh b64.sqrt_nonneg b64.tsum_nonneg\<close>)
  moreover have "(1 + 100 * u) * ?B \<le> (1 - u) * (((1 - u) * sqrt s - h) * (1 + 2 powi (-40))) - h"
  proof -
    have i: "(2::real) powi (-40) = 8192 * u" using powi_neg [of 40] by (simp add: u)
    have "(1 - 8001 * u) * ?B \<le> (1 - (real n + 1) * u) * ?B" using n by (intro mult_right_mono) (simp_all add: u)
    then have r: "(1 - 8001 * u) * ?B \<le> sqrt s" using s(3) by linarith
    show ?thesis unfolding i by (rule inflate64 [OF u nrm_nonneg r h])
  qed
  ultimately show ?thesis by (elim order_trans [rotated]) (simp add: uh)
qed

lemma bf16_granular:
  assumes "is_bf16 x" shows "\<exists>k::int. fin x = of_int k * 2 powi (-133)"
proof -
  obtain y where y: "x = Fin y" using assms by (auto simp: is_bf16_def is_fin_def split: fval.splits)
  then have "fl BF16 y = Fin y" using assms by (simp add: is_bf16_def)
  then have "y = rn BF16 y" using fl_Fin by blast
  then show ?thesis using rn_granular [of BF16 y] y by (simp add: BF16_def)
qed

lemma granular_gap: "(x::real) = of_int k * 2 powi (-133) \<Longrightarrow> x = 0 \<or> 2 powi (-133) \<le> \<bar>x\<bar>"
  by (cases "k = 0") (auto simp: abs_mult)

lemma nrm_gap:
  assumes "\<And>i. i < n \<Longrightarrow> a i = 0 \<or> c \<le> \<bar>a i\<bar>" and "0 \<le> c"
  shows "nrm a n = 0 \<or> c \<le> nrm a n"
proof (cases "\<forall>i<n. a i = 0")
  case True
  then show ?thesis by (simp add: nrm_def)
next
  case False
  then obtain i where i: "i < n" "a i \<noteq> 0" by blast
  then have "\<bar>a i\<bar> = sqrt ((a i)\<^sup>2)" by simp
  also have "\<dots> \<le> nrm a n" unfolding nrm_def using i(1) by (intro real_sqrt_le_mono member_le_sum) auto
  finally show ?thesis using assms(1) [OF i(1)] i(2) by auto
qed

lemma fl_rel_error:
  assumes "\<delta> = 0 \<or> 2 powi (-133) \<le> \<bar>\<delta>\<bar>"
  shows "Fin ((1 - 2 * 2 powi (-53)) * \<bar>\<delta>\<bar>) \<le> fabs (fl F64 \<delta>)"
proof (cases "fl F64 \<delta>")
  case (Fin y)
  have "2 powi (-1075) \<le> 2 powi (-53) * \<bar>\<delta>\<bar>" if "\<delta> \<noteq> 0"
  proof -
    have "(2::real) powi (-134) \<le> 2 powi (-133)" by (rule power_int_increasing) auto
    then have "2 powi (-134) \<le> \<bar>\<delta>\<bar>" using assms that by auto
    from h64_le [OF this] show ?thesis by (simp add: abs_if split: if_splits)
  qed
  then show ?thesis using Fin b64.R_err [OF Fin] by (cases "\<delta> = 0") (auto simp: algebra_simps)
qed (use b64.R_num in auto)

lemma bf16_Fin: "is_bf16 x \<Longrightarrow> x = Fin (fin x)"
  by (cases x) (auto simp: is_bf16_def is_fin_def)

lemma bf16_diff_gap:
  assumes "is_bf16 x" and "is_bf16 y"
  shows "fin x - fin y = 0 \<or> 2 powi (-133) \<le> \<bar>fin x - fin y\<bar>"
proof -
  obtain j k :: int where "fin x = of_int j * 2 powi (-133)" "fin y = of_int k * 2 powi (-133)" using bf16_granular assms by blast
  then show ?thesis using granular_gap [of "fin x - fin y" "j - k"] by (simp add: algebra_simps)
qed

lemma bf16_gap: "is_bf16 x \<Longrightarrow> fin x = 0 \<or> 2 powi (-133) \<le> \<bar>fin x\<bar>"
  using bf16_granular granular_gap by blast

lemma gap_half: "2 powi (-133) \<le> x \<Longrightarrow> 2 powi (-134) \<le> x" for x :: real
  using power_int_increasing [of "-134" "-133" "2::real"] by simp

lemma resid_norm_covers:
  assumes t: "sums_over (p_group_tree P) G" and G: "G \<le> 8000"
    and w: "\<And>i. i < G \<Longrightarrow> is_bf16 (w ! (g * G + i)) \<and> is_bf16 (d ! (g * G + i))"
  shows "Fin (nrm (\<lambda>i. fin (w ! (g * G + i)) - fin (d ! (g * G + i))) G) \<le> resid_norm P G w d g"
proof -
  define \<delta> where "\<delta> i = fin (w ! (g * G + i)) - fin (d ! (g * G + i))" for i
  define c :: real where "c = 1 - 2 * 2 powi (-53)"
  define b where "b i = c * \<bar>\<delta> i\<bar>" for i
  let ?f = "\<lambda>i. fsub (fl F64) (w ! (g * G + i)) (d ! (g * G + i))"
  have c: "c = 1 - 2 / 9007199254740992" using powi_neg [of 53] by (simp add: c_def)
  have gap: "\<delta> i = 0 \<or> 2 powi (-133) \<le> \<bar>\<delta> i\<bar>" if "i < G" for i using bf16_diff_gap w [OF that] by (simp add: \<delta>_def)
  have f: "?f i = fl F64 (\<delta> i)" if "i < G" for i
    using bf16_Fin [of "w ! (g * G + i)"] bf16_Fin [of "d ! (g * G + i)"] w [OF that] by (simp add: fsub_def \<delta>_def) (metis fadd.simps(5) fneg.simps(2) diff_conv_add_uminus)
  have N: "nrm b G = c * nrm \<delta> G" 
  proof -
    have "0 \<le> c" by (simp add: c)
    from nrm_scale [OF this, of "\<lambda>i. \<bar>\<delta> i\<bar>" G] show ?thesis unfolding b_def [abs_def] by (simp add: nrm_def)
  qed
  have "nrm b G = 0 \<or> 2 powi (-134) \<le> nrm b G"
  proof (rule nrm_gap)
    fix i assume "i < G"
    from gap [OF this] show "b i = 0 \<or> 2 powi (-134) \<le> \<bar>b i\<bar>"
      using power_int_add [of "2::real" "-134" 1] by (auto simp: b_def c abs_mult)
  qed simp
  then have "Fin ((1 + 100 * 2 powi (-53)) * nrm b G) \<le> fmul (fl F64) (fsqrt (fl F64) (tsum (fl F64) ?f (p_group_tree P))) infl64"
    by (intro norm64_covers [OF t G]) (use fl_rel_error [OF gap] f in \<open>auto simp: b_def c_def [symmetric] c\<close>)
  moreover have "nrm \<delta> G \<le> (1 + 100 * 2 powi (-53)) * nrm b G"
    using nrm_nonneg [of \<delta> G] powi_neg [of 53] unfolding N c by (simp add: field_simps)
  ultimately have "Fin (nrm \<delta> G) \<le> fmul (fl F64) (fsqrt (fl F64) (tsum (fl F64) ?f (p_group_tree P))) infl64"
    by (elim order_trans [rotated]) simp
  also have "\<dots> \<le> resid_norm P G w d g" unfolding resid_norm_def
    by (intro round_up_ge b64.mul_nonneg b64.sqrt_nonneg b64.tsum_nonneg) (simp_all add: infl64_def F32_def)
  finally show ?thesis by (simp add: \<delta>_def [abs_def])
qed

lemma resid_norm_nonneg: "Fin 0 \<le> resid_norm P G w d g"
proof -
  have "Fin 0 \<le> fmul (fl F64) (fsqrt (fl F64) (tsum (fl F64) (\<lambda>i. fsub (fl F64) (w ! (g * G + i)) (d ! (g * G + i))) (p_group_tree P))) infl64"
    by (intro b64.mul_nonneg b64.sqrt_nonneg b64.tsum_nonneg) (simp add: infl64_def)
  then show ?thesis unfolding resid_norm_def by (rule order_trans [OF _ round_up_ge]) (simp_all add: F32_def \<open>Fin 0 \<le> _\<close>)
qed

lemma resid_norm_inf:
  assumes t: "sums_over (p_group_tree P) G" and i: "i < G" and w: "is_fin (w ! (g * G + i))" and d: "\<not> is_fin (d ! (g * G + i))"
  shows "PInf \<le> resid_norm P G w d g"
proof -
  have "PInf \<le> fabs (fsub (fl F64) (w ! (g * G + i)) (d ! (g * G + i)))"
    using w d by (cases "w ! (g * G + i)"; cases "d ! (g * G + i)") (auto simp: is_fin_def fsub_def)
  then have "PInf \<le> tsum (fl F64) (\<lambda>i. fsub (fl F64) (w ! (g * G + i)) (d ! (g * G + i))) (p_group_tree P)"
    using i sums_over_set [OF t] by (intro b64.tsum_inf [of i]) auto
  then show ?thesis unfolding resid_norm_def infl64_def
    by (intro round_up_inf b64.mul_inf(1) [where c = 1] b64.sqrt_inf) (auto simp: less_imp_le)
qed

lemma norm64_covers_row:
  assumes t: "sums_over (p_row_tree P) (length w)" and K: "length w \<le> 8000" and w: "\<And>k. k < length w \<Longrightarrow> is_bf16 (w ! k)"
  shows "Fin (norm2 w) \<le> fmul (fl F64) (norm64 P w) infl64"
proof -
  let ?b = "\<lambda>k. \<bar>fin (w ! k)\<bar>"
  have n: "norm2 w = nrm ?b (length w)" by (simp add: norm2_def nrm_def)
  have "nrm ?b (length w) = 0 \<or> 2 powi (-134) \<le> nrm ?b (length w)"
  proof (rule nrm_gap)
    fix k assume "k < length w"
    from bf16_gap [OF w [OF this]] show "?b k = 0 \<or> 2 powi (-134) \<le> \<bar>?b k\<bar>" using gap_half by auto
  qed simp
  moreover have "Fin (?b k) \<le> fabs (w ! k)" if "k < length w" for k using bf16_Fin [OF w [OF that]] by (cases "w ! k") auto
  ultimately have "Fin ((1 + 100 * 2 powi (-53)) * norm2 w) \<le> fmul (fl F64) (norm64 P w) infl64"
    unfolding n norm64_def by (intro norm64_covers [OF t K]) auto
  moreover have "norm2 w \<le> (1 + 100 * 2 powi (-53)) * norm2 w" unfolding n using nrm_nonneg [of ?b "length w"] by (simp add: algebra_simps)
  ultimately show ?thesis by (elim order_trans [rotated]) simp
qed

lemma norm64_nonneg: "Fin 0 \<le> norm64 P w"
  unfolding norm64_def by (intro b64.sqrt_nonneg b64.tsum_nonneg)

lemma make_mxint8_length: "make_mxint8 P w = (q, e) \<Longrightarrow> length q = length w"
  by (auto simp: make_mxint8_def Let_def)

lemma deq_row_length [simp]: "length (fst (deq_row q e)) = length q"
  by (simp add: deq_row_def)

lemma deq_row_bf16:
  assumes "k < length q" and "is_fin (fst (deq_row q e) ! k)"
  shows "is_bf16 (fst (deq_row q e) ! k)"
proof -
  have "fst (deq_row q e) ! k = fcvt (fl BF16) (fmul (fl F32) (Fin (of_int (q ! k))) (scale (e ! (k div 32))))" (is "_ = fcvt _ ?r")
    using assms(1) by (simp add: deq_row_def)
  then show ?thesis using assms(2) fl_idem [of BF16]
    by (cases ?r) (auto simp: is_bf16_def is_fin_def BF16_def split: fval.splits)
qed

lemma build_row_parts:
  assumes "length w = G * NG" and "0 < G" and "T = build_row P G w" and "d = fst (deq_row (v_q T) (v_e T))"
  shows "length d = length w" and "length (v_rt T) = NG"
    and "g < NG \<Longrightarrow> x \<le> PInf \<Longrightarrow> x \<le> resid_norm P G w d g \<Longrightarrow> x \<le> v_rt T ! g"
    and "fmul (fl F64) (norm64 P w) infl64 \<le> v_nv T" and "fmul (fl F64) (norm64 P d) infl64 \<le> v_nv T"
    and "g < NG \<Longrightarrow> Fin 0 \<le> v_rt T ! g" and "Fin 0 \<le> v_nv T"
proof -
  obtain q e where qe: "make_mxint8 P (map fin w) = (q, e)" by fastforce
  have T: "v_q T = q" "v_e T = e" using assms(3) qe by (simp_all add: build_row_def Let_def case_prod_unfold)
  have d: "d = fst (deq_row q e)" using assms(4) T by simp
  show len: "length d = length w" using make_mxint8_length [OF qe] d by simp
  define un where "un = list_ex (\<lambda>(a, b). fneq a b) (zip d (snd (deq_row q e)))"
  have rt: "v_rt T = map (\<lambda>g. round_up F16 (if un then PInf else resid_norm P G w d g)) [0..<NG]"
    using assms(1-3) qe by (simp add: build_row_def Let_def case_prod_unfold d un_def)
  have nv: "v_nv T = round_up F32 (fmul (fl F64) (max (norm64 P w) (norm64 P d)) infl64)"
    using assms(3) qe by (simp add: build_row_def Let_def case_prod_unfold d)
  show "length (v_rt T) = NG" by (simp add: rt)
  have pos: "Fin 0 \<le> (if un then PInf else resid_norm P G w d g)" for g using resid_norm_nonneg by simp
  have up: "(if un then PInf else resid_norm P G w d g) \<le> v_rt T ! g" if "g < NG" for g
  proof -
    have "1 \<le> prec F16" by (simp add: F16_def)
    from round_up_ge [OF pos this] show ?thesis using that by (simp only: rt nth_map_upt length_upt diff_zero add_0)
  qed
  show "g < NG \<Longrightarrow> x \<le> PInf \<Longrightarrow> x \<le> resid_norm P G w d g \<Longrightarrow> x \<le> v_rt T ! g"
    by (rule order_trans [OF _ up]) (simp split: if_splits)
  show "g < NG \<Longrightarrow> Fin 0 \<le> v_rt T ! g" by (rule order_trans [OF pos up])
  have m: "Fin 0 \<le> max (norm64 P w) (norm64 P d)" using norm64_nonneg [of P w] by (auto simp: max_def intro: order_trans)
  have "Fin 0 \<le> fmul (fl F64) (max (norm64 P w) (norm64 P d)) infl64"
    by (rule b64.mul_nonneg [OF m]) (simp add: infl64_def)
  then have n: "fmul (fl F64) (max (norm64 P w) (norm64 P d)) infl64 \<le> v_nv T" "Fin 0 \<le> v_nv T"
    using round_up_ge [of "fmul (fl F64) (max (norm64 P w) (norm64 P d)) infl64" F32] by (auto simp: nv F32_def intro: order_trans)
  show "Fin 0 \<le> v_nv T" by (rule n(2))
  have c: "0 < 1 + (2::real) powi (-40)" by (simp add: add_pos_pos)
  show "fmul (fl F64) (norm64 P w) infl64 \<le> v_nv T" "fmul (fl F64) (norm64 P d) infl64 \<le> v_nv T"
    unfolding infl64_def by (rule order_trans [OF b64.mul_mono [OF norm64_nonneg _ c] n(1) [unfolded infl64_def]]; simp)+
qed

section \<open>The norms of a row\<close>

definition compiled :: "codegen \<Rightarrow> nat \<Rightarrow> nat \<Rightarrow> bool" where
  "compiled C G n \<longleftrightarrow> (g_rn C \<or> approx_sqrt (g_sqrt C)) \<and> sums_over (g_group_tree C) G \<and> sums_over (g_norm_tree C) n"

lemma ksqrt_nonneg: "compiled C G n \<Longrightarrow> Fin 0 \<le> s \<Longrightarrow> Fin 0 \<le> ksqrt C s"
proof (cases "g_rn C")
  case False
  assume "compiled C G n" "Fin 0 \<le> s"
  then have a: "approx_sqrt (g_sqrt C)" using False by (simp add: compiled_def)
  show ?thesis
  proof (cases s)
    case (Fin x)
    then have "0 \<le> x" using \<open>Fin 0 \<le> s\<close> by simp
    with a obtain y where "g_sqrt C (Fin x) = Fin y" "0 \<le> y" unfolding approx_sqrt_def by blast
    then show ?thesis using False Fin by (simp add: ksqrt_def)
  qed (use a False \<open>Fin 0 \<le> s\<close> in \<open>auto simp: ksqrt_def approx_sqrt_def\<close>)
qed (simp add: ksqrt_def b32.sqrt_nonneg)

lemma ksqrt_inf: "compiled C G n \<Longrightarrow> PInf \<le> s \<Longrightarrow> PInf \<le> ksqrt C s"
  by (cases s) (auto simp: compiled_def ksqrt_def approx_sqrt_def)

lemma ksqrt_lower:
  assumes C: "compiled C G n" and s: "Fin 0 \<le> s" "Fin a \<le> s" and a: "0 \<le> a"
  shows "Fin ((1 - 4 * 2 powi (-24)) * sqrt a - 2 powi (-150)) \<le> ksqrt C s"
proof (cases "g_rn C")
  case True
  have "Fin ((1 - 4 * 2 powi (-24)) * sqrt a - 2 powi (-150)) \<le> Fin ((1 - 2 powi (-24)) * sqrt a - 2 powi (-150))"
    using a by (simp add: mult_right_mono)
  also have "\<dots> \<le> fsqrt (fl F32) s" by (rule b32.sqrt_lower [OF s])
  finally show ?thesis using True by (simp add: ksqrt_def)
next
  case False
  then have r: "approx_sqrt (g_sqrt C)" using C by (simp add: compiled_def)
  show ?thesis
  proof (cases s)
    case (Fin x)
    then have x: "0 \<le> x" "a \<le> x" using s by simp_all
    obtain y where y: "g_sqrt C (Fin x) = Fin y" "\<bar>y - sqrt x\<bar> \<le> 2 powi (-22) * sqrt x" using r x unfolding approx_sqrt_def by blast
    have p: "(2::real) powi (-22) = 4 * 2 powi (-24)" using power_int_add [of "2::real" 2 "-24"] by simp
    have "(1 - 4 * 2 powi (-24)) * sqrt a \<le> (1 - 4 * 2 powi (-24)) * sqrt x"
      using x powi_neg [of 24] by (intro mult_left_mono) simp_all
    also have "\<dots> = sqrt x - 2 powi (-22) * sqrt x" by (simp only: p left_diff_distrib mult_1)
    also have "\<dots> \<le> y" using y(2) by linarith
    finally show ?thesis using False Fin y(1) by (simp add: ksqrt_def add_increasing2)
  qed (use r False s in \<open>auto simp: ksqrt_def approx_sqrt_def\<close>)
qed

lemma group_norm_arith:
  fixes u N M r h z :: real
  assumes "u = 1 / 16777216" and "0 \<le> N" and "0 \<le> M" and "M \<le> 300 * N" and "0 \<le> z" and "h \<le> z / 1024" and "N - u * M - z / 1024 \<le> r"
  shows "(1 + 249 * u) * N - u * M + z \<le> (1 - u) * ((1 - u) * (((1 - 4 * u) * r - h) * (1 + 256 * u)) - h + 2 * z) - h"
  using assms(2-) unfolding assms(1) by (simp add: field_simps)

lemma group_norm_covers:
  assumes C: "compiled C G n" and G: "G \<le> 300"
    and b: "\<And>i. i < G \<Longrightarrow> Fin (b i) \<le> fabs (x ! (g * G + i)) \<and> 0 \<le> b i"
  shows "Fin ((1 + (249 - real G) * 2 powi (-24)) * nrm b G + 2 powi (-60)) \<le> group_norm C G x g"
proof -
  define u h z where uhz: "u = (2::real) powi (-24)" "h = (2::real) powi (-150)" "z = (2::real) powi (-60)"
  let ?N = "nrm b G"
  have u: "u = 1 / 16777216" using powi_neg [of 24] by (simp add: uhz)
  have t: "sums_over (g_group_tree C) G" using C by (simp add: compiled_def)
  let ?t = "tsum (fl F32) (\<lambda>i. x ! (g * G + i)) (g_group_tree C)"
  have "real G * 2 powi (-24) \<le> 1" using G u by (simp add: uhz)
  from b32.tsum_norm [where b = b and f = "\<lambda>i. x ! (g * G + i)", OF t b this]
  obtain s where s: "0 \<le> s" "Fin s \<le> ?t" "(1 - real G * u) * ?N - sqrt (2 * real G * h) \<le> sqrt s" unfolding uhz by blast
  have "2 * real G * h \<le> 2 powi 10 * h" using G by (intro mult_right_mono) (auto simp: uhz)
  also have "\<dots> = (2 powi (-70))\<^sup>2" by (simp add: uhz power2_eq_square flip: power_int_add)
  finally have "sqrt (2 * real G * h) \<le> \<bar>2 powi (-70)\<bar>" by (simp only: real_sqrt_abs [symmetric] real_sqrt_le_mono)
  also have "\<bar>2 powi (-70)\<bar> = (2::real) powi (-70)" by simp
  also have "(2::real) powi (-70) = z / 1024" using power_int_add [of "2::real" "-60" "-10"] by (simp add: uhz)
  finally have e: "sqrt (2 * real G * h) \<le> z / 1024" .
  have "h \<le> 2 powi (-70)" unfolding uhz by (rule power_int_increasing) auto
  also have "(2::real) powi (-70) = z / 1024" using power_int_add [of "2::real" "-60" "-10"] by (simp add: uhz)
  finally have h: "h \<le> z / 1024" .
  have nn: "Fin 0 \<le> ksqrt C ?t" by (rule ksqrt_nonneg [OF C b32.tsum_nonneg])
  have "Fin ((1 - u) * ((1 - u) * (((1 - 4 * u) * sqrt s - h) * INFL_X) - h + X_ABS) - h) \<le> group_norm C G x g"
    unfolding group_norm_def uhz
    by (rule b32.mul_add_lower [OF nn _ _ ksqrt_lower [OF C b32.tsum_nonneg s(2,1)]]) (simp_all add: INFL_X_def X_ABS_def add_increasing)
  moreover have "INFL_X = 1 + 256 * u" using power_int_add [of "2::real" 8 "-24"] by (simp add: INFL_X_def uhz)
  moreover have "X_ABS = 2 * z" using power_int_add [of "2::real" 1 "-60"] by (simp add: X_ABS_def uhz)
  ultimately have l: "Fin ((1 - u) * ((1 - u) * (((1 - 4 * u) * sqrt s - h) * (1 + 256 * u)) - h + 2 * z) - h) \<le> group_norm C G x g" by (simp only:)
  have "(1 + 249 * u) * ?N - u * (real G * ?N) + z \<le> (1 - u) * ((1 - u) * (((1 - 4 * u) * sqrt s - h) * (1 + 256 * u)) - h + 2 * z) - h"
  proof (rule group_norm_arith [OF u nrm_nonneg _ _ _ h])
    show "?N - u * (real G * ?N) - z / 1024 \<le> sqrt s" using s(3) e by (simp add: algebra_simps)
    show "real G * ?N \<le> 300 * ?N" using G by (intro mult_right_mono) auto
  qed (simp_all add: uhz)
  then have "Fin ((1 + (249 - real G) * u) * ?N + z) \<le> Fin ((1 - u) * ((1 - u) * (((1 - 4 * u) * sqrt s - h) * (1 + 256 * u)) - h + 2 * z) - h)"
    by (simp only: less_eq_fval.simps) (simp only: algebra_simps)
  from order_trans [OF this l] show ?thesis by (simp only: uhz)
qed

lemma group_norm_pos:
  assumes "compiled C G n" and "G \<le> 300" shows "Fin (2 powi (-60)) \<le> group_norm C G x g"
proof -
  have "Fin 0 \<le> fabs y" for y by (cases y) auto
  then show ?thesis using group_norm_covers [OF assms, of "\<lambda>_. 0" x g] by (simp add: nrm_def)
qed

lemma group_norm_nonneg: "compiled C G n \<Longrightarrow> G \<le> 300 \<Longrightarrow> Fin 0 \<le> group_norm C G x g"
  by (rule order_trans [OF _ group_norm_pos]) auto

lemma not_fin_abs: "\<not> is_fin x \<Longrightarrow> PInf \<le> fabs x"
  by (cases x) (auto simp: is_fin_def)

lemma group_norm_inf:
  assumes C: "compiled C G n" and i: "i < G" "\<not> is_fin (x ! (g * G + i))"
  shows "PInf \<le> group_norm C G x g"
proof -
  have t: "sums_over (g_group_tree C) G" using C by (simp add: compiled_def)
  have "PInf \<le> tsum (fl F32) (\<lambda>i. x ! (g * G + i)) (g_group_tree C)"
    using i not_fin_abs by (intro b32.tsum_inf [of i]) (auto simp: sums_over_set [OF t])
  from ksqrt_inf [OF C this] show ?thesis unfolding group_norm_def
    by (rule b32.mul_add_inf(1) [where c = 1]) (simp_all add: INFL_X_def X_ABS_def)
qed

lemma row_norm_inf:
  assumes C: "compiled C G n" and g: "g < length x div G" "g < n" "PInf \<le> group_norm C G x g"
  shows "PInf \<le> row_norm C G x"
proof -
  have t: "sums_over (g_norm_tree C) n" using C by (simp add: compiled_def)
  have "PInf \<le> fabs y" if "PInf \<le> y" for y using that by (cases y) auto
  then have "PInf \<le> tsum (fl F32) (\<lambda>g. if g < length x div G then group_norm C G x g else Fin 0) (g_norm_tree C)"
    using g by (intro b32.tsum_inf [of g]) (auto simp: sums_over_set [OF t])
  from ksqrt_inf [OF C this] show ?thesis unfolding row_norm_def by (rule b32.mul_inf(1) [where c = 1]) (simp_all add: INFL_X_def)
qed

lemma row_norm_arith:
  fixes u B M r h :: real
  assumes "u = 1 / 16777216" and "0 \<le> B" and "0 \<le> M" and "M \<le> 400 * B" and "h \<le> u * B / 4" and "B - u * M - u * B \<le> r"
  shows "(1 + 247 * u) * B - u * M \<le> (1 - u) * (((1 - 4 * u) * r - h) * (1 + 256 * u)) - h"
  using assms(2-) unfolding assms(1) by (simp add: field_simps)

lemma row_norm_lower:
  assumes C: "compiled C G n" and n: "n \<le> 2 * NG" "NG \<le> n" and NG: "0 < NG" "NG \<le> 200" "length x div G = NG"
    and b: "\<And>g. g < NG \<Longrightarrow> Fin (b g) \<le> group_norm C G x g \<and> 2 powi (-60) \<le> b g"
  shows "Fin ((1 + (247 - real n) * 2 powi (-24)) * nrm b NG) \<le> row_norm C G x"
proof -
  define u h z where uhz: "u = (2::real) powi (-24)" "h = (2::real) powi (-150)" "z = (2::real) powi (-60)"
  let ?B = "nrm b NG" and ?b = "\<lambda>g. if g < NG then b g else 0"
  let ?f = "\<lambda>g. if g < length x div G then group_norm C G x g else Fin 0"
  have u: "u = 1 / 16777216" using powi_neg [of 24] by (simp add: uhz)
  have z: "0 < z" by (simp add: uhz)
  have t: "sums_over (g_norm_tree C) n" using C by (simp add: compiled_def)
  have "nrm ?b n = ?B"
  proof -
    have "(\<Sum>g<n. (?b g)\<^sup>2) = (\<Sum>g\<in>{..<NG}. (?b g)\<^sup>2)" using n(2) by (intro sum.mono_neutral_right) auto
    then show ?thesis by (simp add: nrm_def)
  qed
  note B = this
  have bz: "z \<le> b g" if "g < NG" for g using b [OF that] by (simp only: uhz)
  have sq: "real NG * z\<^sup>2 \<le> ?B\<^sup>2"
  proof -
    have "real NG * z\<^sup>2 = (\<Sum>g<NG. z\<^sup>2)" by simp
    also have "\<dots> \<le> (\<Sum>g<NG. (b g)\<^sup>2)" using bz z by (intro sum_mono power_mono) auto
    finally show ?thesis by (simp add: nrm_def sum_nonneg)
  qed
  have h: "4 * h \<le> u * z\<^sup>2"
  proof -
    have "4 * h = 2 powi (-148)" using power_int_add [of "2::real" 2 "-150"] by (simp add: uhz)
    also have "\<dots> \<le> (2::real) powi (-144)" by (rule power_int_increasing) auto
    also have "\<dots> = u * z\<^sup>2" by (simp add: uhz power2_eq_square flip: power_int_add)
    finally show ?thesis .
  qed
  have "2 * real n * h \<le> 2 * (2 * real NG) * h" using n(1) by (intro mult_right_mono) (auto simp: uhz)
  also have "\<dots> \<le> u * (real NG * z\<^sup>2)" using mult_left_mono [OF h, of "real NG"] by (simp add: algebra_simps)
  also have "\<dots> \<le> u * ?B\<^sup>2" using sq by (intro mult_left_mono) (auto simp: u)
  finally have hB: "2 * real n * h \<le> u * ?B\<^sup>2" .
  have nu: "(real n + 1) * u \<le> 1" using n NG by (simp add: u)
  have bb: "Fin (?b g) \<le> fabs (?f g) \<and> 0 \<le> ?b g" if "g < n" for g
    using b [of g] bz [of g] z NG(3) by (cases "group_norm C G x g") auto
  obtain s where s: "0 \<le> s" "Fin s \<le> tsum (fl F32) ?f (g_norm_tree C)" "(1 - (real n + 1) * u) * ?B \<le> sqrt s"
    using b32.tsum_norm_rel [where b = ?b and f = ?f, OF t bb nu [unfolded uhz]] hB unfolding B uhz by blast
  have zB: "z \<le> ?B"
  proof -
    have "z\<^sup>2 \<le> ?B\<^sup>2" using sq NG(1) mult_right_mono [of 1 "real NG" "z\<^sup>2"] by simp
    then show ?thesis by (rule power2_le_imp_le) simp
  qed
  have "h \<le> 2 powi (-86)" unfolding uhz by (rule power_int_increasing) auto
  also have "(2::real) powi (-86) = u * z / 4" by (simp add: uhz flip: power_int_add)
  also have "\<dots> \<le> u * ?B / 4" using zB by (simp add: u)
  finally have h1: "h \<le> u * ?B / 4" .
  have nn: "Fin 0 \<le> ksqrt C (tsum (fl F32) ?f (g_norm_tree C))" by (rule ksqrt_nonneg [OF C b32.tsum_nonneg])
  have "Fin ((1 - u) * (((1 - 4 * u) * sqrt s - h) * INFL_X) - h) \<le> row_norm C G x"
    unfolding row_norm_def uhz by (rule b32.mul_lower [OF nn _ ksqrt_lower [OF C b32.tsum_nonneg s(2,1)]]) (simp_all add: INFL_X_def add_increasing)
  moreover have "INFL_X = 1 + 256 * u" using power_int_add [of "2::real" 8 "-24"] by (simp add: INFL_X_def uhz)
  ultimately have l: "Fin ((1 - u) * (((1 - 4 * u) * sqrt s - h) * (1 + 256 * u)) - h) \<le> row_norm C G x" by (simp only:)
  have "(1 + 247 * u) * ?B - u * (real n * ?B) \<le> (1 - u) * (((1 - 4 * u) * sqrt s - h) * (1 + 256 * u)) - h"
  proof (rule row_norm_arith [OF u nrm_nonneg _ _ h1])
    show "?B - u * (real n * ?B) - u * ?B \<le> sqrt s" using s(3) by (simp add: algebra_simps)
    show "real n * ?B \<le> 400 * ?B" using n NG by (intro mult_right_mono) auto
  qed simp
  then have "Fin ((1 + (247 - real n) * u) * ?B) \<le> Fin ((1 - u) * (((1 - 4 * u) * sqrt s - h) * (1 + 256 * u)) - h)"
    by (simp only: less_eq_fval.simps) (simp only: algebra_simps)
  from order_trans [OF this l] show ?thesis by (simp only: uhz)
qed

section \<open>The bound\<close>

lemma resid_fold_lower:
  fixes a r :: "nat \<Rightarrow> real"
  assumes "\<And>g. g < m \<Longrightarrow> Fin (a g) \<le> x g \<and> Fin (r g) \<le> y g \<and> 0 \<le> a g \<and> 0 \<le> r g"
  shows "Fin ((1 - 2 powi (-24)) ^ Suc m * (\<Sum>g<m. a g * r g) - 2 * real m * 2 powi (-150))
      \<le> fold (\<lambda>g qb. mul_add (fl F32) ct (x g) (y g) qb) [0..<m] (Fin 0)
    \<and> Fin 0 \<le> fold (\<lambda>g qb. mul_add (fl F32) ct (x g) (y g) qb) [0..<m] (Fin 0)"
  using assms
proof (induction m)
  case (Suc m)
  define u h :: real where uh: "u = 2 powi (-24)" "h = 2 powi (-150)"
  have q: "0 \<le> 1 - u" "1 - u \<le> 1" using powi_neg [of 24] by (simp_all add: uh)
  let ?Q = "fold (\<lambda>g qb. mul_add (fl F32) ct (x g) (y g) qb) [0..<m] (Fin 0)" and ?S = "\<Sum>g<m. a g * r g"
  have IH: "Fin ((1 - u) ^ Suc m * ?S - 2 * real m * h) \<le> ?Q" "Fin 0 \<le> ?Q" using Suc.IH Suc.prems unfolding uh by simp_all
  have m: "Fin (a m) \<le> x m" "Fin (r m) \<le> y m" "0 \<le> a m" "0 \<le> r m" using Suc.prems [of m] by simp_all
  then have nn: "Fin 0 \<le> x m" "Fin 0 \<le> y m" by (auto intro: order_trans [of _ "Fin (a m)"] order_trans [of _ "Fin (r m)"])
  have S: "0 \<le> ?S" using Suc.prems by (intro sum_nonneg mult_nonneg_nonneg) auto
  have low: "Fin ((1 - u) * ((1 - u) * (a m * r m) - h + ((1 - u) ^ Suc m * ?S - 2 * real m * h)) - h) \<le> mul_add (fl F32) ct (x m) (y m) ?Q"
    unfolding uh by (rule b32.mul_add_lower [OF nn IH(2) m(1,2) IH(1) [unfolded uh] m(4)])
  have "(1 - u) ^ Suc (Suc m) * (a m * r m) \<le> (1 - u) * ((1 - u) * (a m * r m))"
  proof -
    have "(1 - u) ^ Suc (Suc m) \<le> (1 - u) ^ 2" using q by (intro power_decreasing) auto
    from mult_right_mono [OF this, of "a m * r m"] m(3,4) show ?thesis by (simp add: power2_eq_square algebra_simps)
  qed
  moreover have "0 \<le> u * h" "0 \<le> u * (2 * real m * h)" by (simp_all add: uh)
  ultimately have "(1 - u) ^ Suc (Suc m) * (\<Sum>g<Suc m. a g * r g) - 2 * real (Suc m) * h
      \<le> (1 - u) * ((1 - u) * (a m * r m) - h + ((1 - u) ^ Suc m * ?S - 2 * real m * h)) - h"
    by (simp add: algebra_simps)
  then have "Fin ((1 - u) ^ Suc (Suc m) * (\<Sum>g<Suc m. a g * r g) - 2 * real (Suc m) * h)
      \<le> Fin ((1 - u) * ((1 - u) * (a m * r m) - h + ((1 - u) ^ Suc m * ?S - 2 * real m * h)) - h)" by (simp only: less_eq_fval.simps)
  from order_trans [OF this low] b32.mul_add_nonneg [OF nn IH(2), of ct] show ?case unfolding uh by simp
qed simp

lemma resid_fold_inf:
  assumes "\<And>g. g < m \<Longrightarrow> Fin c \<le> x g \<and> Fin 0 \<le> y g" and c: "0 < c" and "k < m" and k: "PInf \<le> y k"
  shows "PInf \<le> fold (\<lambda>g qb. mul_add (fl F32) ct (x g) (y g) qb) [0..<m] (Fin 0)"
  using assms(1,3)
proof (induction m)
  case (Suc m)
  let ?Q = "fold (\<lambda>g qb. mul_add (fl F32) ct (x g) (y g) qb) [0..<m] (Fin 0)"
  have pos: "Fin 0 \<le> x g" if "g < Suc m" for g
  proof -
    have "Fin 0 \<le> Fin c" using c by simp
    then show ?thesis by (rule order_trans) (use Suc.prems(1) [OF that] in blast)
  qed
  have nn: "Fin 0 \<le> ?Q"
    by (rule resid_fold_lower [of m "\<lambda>_. 0" x "\<lambda>_. 0" y ct, THEN conjunct2])
      (use pos Suc.prems(1) in \<open>simp del: less_eq_fval.simps\<close>)
  have xm: "Fin c \<le> x m" "Fin 0 \<le> y m" using Suc.prems(1) [of m] by (simp_all del: less_eq_fval.simps)
  have "PInf \<le> mul_add (fl F32) ct (x m) (y m) ?Q"
  proof (cases "k = m")
    case True
    then show ?thesis using k by (intro b32.mul_add_inf(2) [OF _ xm(1) c nn]) simp
  next
    case False
    then have "PInf \<le> ?Q" using Suc by simp
    then show ?thesis by (rule b32.mul_add_inf_add [OF pos [OF lessI] xm(2)])
  qed
  then show ?case by (simp del: less_eq_fval.simps)
qed simp

lemma cacc2_exact:
  assumes "K \<le> 8000" shows "fl F32 (2 * c_acc K) = Fin (2 * c_acc K)"
proof -
  have c: "2 * c_acc K = of_int (17 * int K) * 2 powi (-26)" using powi_neg [of 23] powi_neg [of 26] by (simp add: c_acc_def)
  have "rn F32 (of_int (17 * int K) * 2 powi (-26)) = of_int (17 * int K) * 2 powi (-26)"
    by (rule rn_exact) (use assms in \<open>simp_all add: F32_def\<close>)
  moreover have "2 * c_acc K < 1" "0 \<le> 2 * c_acc K" using assms powi_neg [of 23] by (simp_all add: c_acc_def)
  moreover have "1 \<le> overflow F32" by (simp add: overflow_def F32_def)
  ultimately show ?thesis unfolding c fl_def Let_def by auto
qed

lemma screen_bound_nonneg:
  assumes qb: "Fin 0 \<le> resid_bound C G x (v_rt T)" and xn: "Fin 0 \<le> row_norm C G x" and nv: "Fin 0 \<le> v_nv T" and K: "length x \<le> 8000"
  shows "Fin 0 \<le> screen_bound C G x T"
proof -
  have c: "Fin 0 \<le> fl F32 (2 * c_acc (length x))" by (rule b32.R_nonneg) (simp add: c_acc_def)
  have i: "Fin 0 \<le> Fin INFL_Q" "Fin 0 \<le> Fin INFL_B" by (simp_all add: INFL_Q_def INFL_B_def add_increasing)
  show ?thesis unfolding screen_bound_def Let_def
    using b32.mul_nonneg [OF b32.fma_nonneg [OF qb i(1) b32.mul_nonneg [OF c b32.mul_nonneg [OF xn nv]]] i(2)]
      b32.mul_nonneg [OF b32.mul_add_nonneg [OF c b32.mul_nonneg [OF xn nv] b32.mul_nonneg [OF qb i(1)]] i(2)]
    by simp
qed

text \<open>The bound of a token is the exact bound up to underflow.\<close>

lemma screen_bound_lower:
  assumes qb: "Fin 0 \<le> resid_bound C G x (v_rt T)" "Fin Q \<le> resid_bound C G x (v_rt T)"
    and xn: "Fin 0 \<le> row_norm C G x" "Fin X \<le> row_norm C G x" and nv: "Fin 0 \<le> v_nv T" "Fin N \<le> v_nv T" "0 \<le> N"
    and K: "length x \<le> 8000" and u: "u = 2 powi (-24)" and h: "h = 2 powi (-150)" and c: "c = 2 * c_acc (length x)"
  shows "Fin ((1 - u) * (((1 - u) * ((1 - u) * (Q * (1 + 64 * u)) - h + ((1 - u) * (((1 - u) * (X * N) - h) * c) - h)) - h) * (1 + 16 * u)) - h)
    \<le> screen_bound C G x T"
proof -
  let ?qb = "resid_bound C G x (v_rt T)" and ?p = "fmul (fl F32) (row_norm C G x) (v_nv T)" and ?c = "fl F32 (2 * c_acc (length x))"
  have cc: "?c = Fin c" "0 \<le> c" unfolding c by (rule cacc2_exact [OF K]) (simp add: c_acc_def)
  have iq: "INFL_Q = 1 + 64 * u" using power_int_add [of "2::real" 6 "-24"] by (simp add: INFL_Q_def u)
  have ib: "INFL_B = 1 + 16 * u" using power_int_add [of "2::real" 4 "-24"] by (simp add: INFL_B_def u)
  have i: "0 \<le> INFL_Q" "0 \<le> INFL_B" by (simp_all add: INFL_Q_def INFL_B_def add_increasing)
  have q: "0 \<le> 1 - u" using powi_neg [of 24] by (simp add: u)
  let ?P = "(1 - u) * (X * N) - h"
  have p: "Fin 0 \<le> ?p" "Fin ?P \<le> ?p"
    unfolding u h by (rule b32.mul_nonneg [OF xn(1) nv(1)], rule b32.mul_lower [OF xn(1) nv(1) xn(2) nv(2,3)])
  have cp: "Fin 0 \<le> fmul (fl F32) ?c ?p" "Fin ((1 - u) * (?P * c) - h) \<le> fmul (fl F32) ?c ?p"
  proof -
    have e: "fmul (fl F32) ?c ?p = fmul (fl F32) ?p (Fin c)" by (simp only: cc(1) fmul_commute [of _ "Fin c"])
    show "Fin 0 \<le> fmul (fl F32) ?c ?p" unfolding e by (rule b32.mul_nonneg [OF p(1)]) (use cc in simp)
    show "Fin ((1 - u) * (?P * c) - h) \<le> fmul (fl F32) ?c ?p"
      unfolding e u h by (rule b32.mul_lower [OF p(1) _ p(2) [unfolded u h]]) (use cc in simp_all)
  qed
  have qi: "Fin 0 \<le> fmul (fl F32) ?qb (Fin INFL_Q)" "Fin ((1 - u) * (Q * INFL_Q) - h) \<le> fmul (fl F32) ?qb (Fin INFL_Q)"
    unfolding u h by (rule b32.mul_nonneg [OF qb(1)], use i in simp, rule b32.mul_lower [OF qb(1) _ qb(2)], use i in simp_all)
  let ?S = "(1 - u) * ((1 - u) * (Q * INFL_Q) - h + ((1 - u) * (?P * c) - h)) - h"
  let ?s = "if g_fma C 2 then ffma (fl F32) ?qb (Fin INFL_Q) (fmul (fl F32) ?c ?p)
      else mul_add (fl F32) (g_fma C 3) ?c ?p (fmul (fl F32) ?qb (Fin INFL_Q))"
  have s: "Fin 0 \<le> ?s \<and> Fin ?S \<le> ?s"
  proof (cases "g_fma C 2")
    case True
    have "Fin ?S \<le> mul_add (fl F32) True ?qb (Fin INFL_Q) (fmul (fl F32) ?c ?p)"
      unfolding u h by (rule b32.mul_add_lower [OF qb(1) _ cp(1) qb(2) _ cp(2) [unfolded u h]]) (use i in simp_all)
    moreover have "Fin 0 \<le> mul_add (fl F32) True ?qb (Fin INFL_Q) (fmul (fl F32) ?c ?p)"
      by (rule b32.mul_add_nonneg [OF qb(1) _ cp(1)]) (use i in simp)
    ultimately show ?thesis using True by (simp only: mul_add_def if_True simp_thms)
  next
    case False
    have "Fin ((1 - u) * ((1 - u) * (?P * c) - h + ((1 - u) * (Q * INFL_Q) - h)) - h)
        \<le> mul_add (fl F32) (g_fma C 3) ?p (Fin c) (fmul (fl F32) ?qb (Fin INFL_Q))"
      unfolding u h by (rule b32.mul_add_lower [OF p(1) _ qi(1) p(2) [unfolded u h] _ qi(2) [unfolded u h]]) (use cc in simp_all)
    moreover have "Fin 0 \<le> mul_add (fl F32) (g_fma C 3) ?p (Fin c) (fmul (fl F32) ?qb (Fin INFL_Q))"
      by (rule b32.mul_add_nonneg [OF p(1) _ qi(1)]) (use cc in simp)
    moreover have "mul_add (fl F32) (g_fma C 3) ?c ?p (fmul (fl F32) ?qb (Fin INFL_Q)) = mul_add (fl F32) (g_fma C 3) ?p (Fin c) (fmul (fl F32) ?qb (Fin INFL_Q))"
      by (simp only: cc(1) mul_add_commute [of _ _ "Fin c"])
    ultimately show ?thesis using False by (simp only: if_False add.commute [of "(1 - u) * (?P * c) - h"] simp_thms)
  qed
  have "Fin ((1 - u) * (?S * INFL_B) - h) \<le> fmul (fl F32) ?s (Fin INFL_B)"
    unfolding u h by (rule b32.mul_lower [OF s [THEN conjunct1] _ s [THEN conjunct2, unfolded u h]]) (use i in simp_all)
  then show ?thesis unfolding screen_bound_def Let_def iq ib by (auto simp del: less_eq_fval.simps(3) simp: fval_le_PInf split: if_splits)
qed

lemma screen_bound_inf:
  assumes qb: "PInf \<le> resid_bound C G x (v_rt T)" and xn: "Fin 0 \<le> row_norm C G x" and nv: "Fin 0 \<le> v_nv T"
  shows "screen_bound C G x T = PInf"
proof -
  let ?qb = "resid_bound C G x (v_rt T)" and ?p = "fmul (fl F32) (row_norm C G x) (v_nv T)" and ?c = "fl F32 (2 * c_acc (length x))"
  have c: "Fin 0 \<le> ?c" by (rule b32.R_nonneg) (simp add: c_acc_def)
  have i: "Fin 1 \<le> Fin INFL_Q" "Fin 1 \<le> Fin INFL_B" by (simp_all add: INFL_Q_def INFL_B_def)
  have p: "Fin 0 \<le> ?p" by (rule b32.mul_nonneg [OF xn nv])
  have "PInf \<le> ffma (fl F32) ?qb (Fin INFL_Q) (fmul (fl F32) ?c ?p)"
    by (rule b32.fma_inf(1) [OF qb i(1) _ b32.mul_nonneg [OF c p]]) simp
  moreover have "PInf \<le> mul_add (fl F32) (g_fma C 3) ?c ?p (fmul (fl F32) ?qb (Fin INFL_Q))"
    by (rule b32.mul_add_inf_add [OF c p b32.mul_inf(1) [OF qb i(1)]]) simp
  ultimately have "PInf \<le> fmul (fl F32) (if g_fma C 2 then ffma (fl F32) ?qb (Fin INFL_Q) (fmul (fl F32) ?c ?p)
      else mul_add (fl F32) (g_fma C 3) ?c ?p (fmul (fl F32) ?qb (Fin INFL_Q))) (Fin INFL_B)" (is "_ \<le> ?B")
    by (intro b32.mul_inf(1) [OF _ i(2)]) simp_all
  then have "?B = PInf \<or> ?B = NaN" by simp
  then show ?thesis unfolding screen_bound_def Let_def by auto
qed

lemma bound_arith:
  fixes u A D S Y h e :: real
  assumes "u = 1 / 16777216" and "0 \<le> h" and "0 \<le> e" and "e \<le> h"
    and "S \<le> (1 - u) ^ 3 * (1 + 64 * u) * (1 + 16 * u) * A" and "Y \<le> (1 - u) ^ 4 * (1 + 16 * u) * D"
  shows "S + Y - 500 * h
    \<le> (1 - u) * (((1 - u) * ((1 - u) * ((A - 400 * h) * (1 + 64 * u)) - h + ((1 - u) * ((1 - u) * D - e) - h)) - h) * (1 + 16 * u)) - h"
  using assms(2-) unfolding assms(1) by (simp add: field_simps power3_eq_cube power4_eq_xxxx)

text \<open>The inflations outweigh the roundings for the groups in use.\<close>

lemma product_lower:
  fixes u s t :: real
  assumes "0 < u" and "\<bar>s\<bar> \<le> a" and "\<bar>t\<bar> \<le> b" and "0 \<le> a"
  shows "1 + (s + t) * u - a * b * u * u \<le> (1 + s * u) * (1 + t * u)"
proof -
  have "- (s * t) \<le> a * b" using mult_mono [OF assms(2,3)] assms(4) abs_ge_minus_self [of "s * t"] by (simp add: abs_mult)
  then have "- (s * t) * (u * u) \<le> a * b * (u * u)" using assms(1) by (intro mult_right_mono) auto
  then show ?thesis by (simp add: algebra_simps)
qed

lemma first_factor:
  fixes u G m :: real
  assumes u: "u = 1 / 16777216" and "0 \<le> G" and "0 \<le> m" and "G + m \<le> 300" and "m \<le> 200"
  shows "1 \<le> (1 - u) ^ 3 * (1 + 64 * u) * (1 + 16 * u) * ((1 - (m + 1) * u) * (1 + (249 - G) * u))"
proof -
  let ?p = "(1 + (- (m + 1)) * u) * (1 + (249 - G) * u)"
  have "1 + (- (m + 1) + (249 - G)) * u - 201 * 300 * u * u \<le> ?p" using assms by (intro product_lower) auto
  then have "1 - 53 * u \<le> ?p" using assms(4) unfolding u by (simp add: field_simps)
  then have "(1 - u) ^ 3 * (1 + 64 * u) * (1 + 16 * u) * (1 - 53 * u) \<le> (1 - u) ^ 3 * (1 + 64 * u) * (1 + 16 * u) * ?p"
    by (intro mult_left_mono) (simp_all add: u)
  moreover have "1 \<le> (1 - u) ^ 3 * (1 + 64 * u) * (1 + 16 * u) * (1 - 53 * u)" by (simp add: u power3_eq_cube)
  moreover have "1 + (- (m + 1)) * u = 1 - (m + 1) * u" by (simp add: algebra_simps)
  ultimately show ?thesis by (simp only:)
qed

lemma second_factor:
  fixes u G n :: real
  assumes u: "u = 1 / 16777216" and "0 \<le> G" and "0 \<le> n" and "G + n \<le> 500" and "n \<le> 400" and "G \<le> 300"
  shows "1 \<le> (1 - u) ^ 4 * (1 + 16 * u) * ((1 + (247 - n) * u) * (1 + (249 - G) * u))"
proof -
  let ?p = "(1 + (247 - n) * u) * (1 + (249 - G) * u)"
  have "1 + ((247 - n) + (249 - G)) * u - 300 * 300 * u * u \<le> ?p" using assms by (intro product_lower) auto
  then have "1 - 5 * u \<le> ?p" using assms(4) unfolding u by (simp add: field_simps)
  then have "(1 - u) ^ 4 * (1 + 16 * u) * (1 - 5 * u) \<le> (1 - u) ^ 4 * (1 + 16 * u) * ?p" by (intro mult_left_mono) (simp_all add: u)
  moreover have "1 \<le> (1 - u) ^ 4 * (1 + 16 * u) * (1 - 5 * u)" by (simp add: u power4_eq_xxxx)
  ultimately show ?thesis by simp
qed

section \<open>From the bound to the logit\<close>

text \<open>Cauchy-Schwarz, on a group and over the groups.\<close>

lemma cauchy_schwarz: "\<bar>\<Sum>i<n. a i * b i\<bar> \<le> nrm a n * nrm b n"
proof (cases "nrm a n = 0 \<or> nrm b n = 0")
  case True
  then have "(\<forall>i<n. a i = 0) \<or> (\<forall>i<n. b i = 0)" by (auto simp: nrm_def sum_nonneg_eq_0_iff)
  then have "(\<Sum>i<n. a i * b i) = 0" by (intro sum.neutral) auto
  then show ?thesis by simp
next
  case False
  define A B where AB: "A = nrm a n" "B = nrm b n"
  have p: "0 < A" "0 < B" using False nrm_nonneg [of a n] nrm_nonneg [of b n] unfolding AB by linarith+
  have sq: "A\<^sup>2 = (\<Sum>i<n. (a i)\<^sup>2)" "B\<^sup>2 = (\<Sum>i<n. (b i)\<^sup>2)" by (simp_all add: AB nrm_def sum_nonneg)
  have "2 * (A * B) * \<bar>a i * b i\<bar> \<le> B\<^sup>2 * (a i)\<^sup>2 + A\<^sup>2 * (b i)\<^sup>2" for i
  proof -
    have "0 \<le> (B * \<bar>a i\<bar> - A * \<bar>b i\<bar>)\<^sup>2" by simp
    then show ?thesis by (simp add: power2_diff power_mult_distrib abs_mult algebra_simps)
  qed
  then have "(\<Sum>i<n. 2 * (A * B) * \<bar>a i * b i\<bar>) \<le> (\<Sum>i<n. B\<^sup>2 * (a i)\<^sup>2 + A\<^sup>2 * (b i)\<^sup>2)" by (intro sum_mono)
  also have "\<dots> = 2 * (A * B) * (A * B)" by (simp add: sum.distrib sum_distrib_left [symmetric] sq [symmetric]) (simp add: power2_eq_square)
  finally have "(\<Sum>i<n. \<bar>a i * b i\<bar>) \<le> A * B" using p by (simp add: sum_distrib_left [symmetric])
  then show ?thesis using sum_abs [of "\<lambda>i. a i * b i" "{..<n}"] unfolding AB by linarith
qed

lemma sum_lessThan_add: "(\<Sum>k<a + b. f k) = (\<Sum>k<a. f k) + (\<Sum>i<b. f (a + i))" for f :: "nat \<Rightarrow> real"
  by (induction b) (simp_all add: add.assoc)

lemma sum_groups: "(\<Sum>k<m * G. f k) = (\<Sum>g<m. \<Sum>i<G. f (g * G + i))" for f :: "nat \<Rightarrow> real"
proof (induction m)
  case (Suc m)
  have "(\<Sum>k<Suc m * G. f k) = (\<Sum>k<m * G + G. f k)" by (simp add: add.commute)
  also have "\<dots> = (\<Sum>k<m * G. f k) + (\<Sum>i<G. f (m * G + i))"
    by (rule sum_lessThan_add)
  finally show ?case using Suc by simp
qed simp

lemma fl_minus: "fl F (- x) = fneg (fl F x)"
proof -
  have "0 < overflow F" by (simp add: overflow_def)
  then show ?thesis unfolding fl_def Let_def rn_minus by auto
qed

lemma fneg_le: "x \<le> y \<Longrightarrow> y \<noteq> NaN \<Longrightarrow> fneg y \<le> fneg x"
  by (cases x; cases y) auto

lemma slop_arith:
  fixes u h w m t s :: real
  assumes "u = 1 / 16777216" and "0 \<le> m" and "0 \<le> w" and "h \<le> w / 1024" and "0 \<le> h" and "(1 - u) * m - h \<le> t"
    and "(1 - u) * ((1 - u) * (t * (4 * u)) - h + 4 * w) - h \<le> s"
  shows "3 * u * m + 3 * w \<le> s"
  using assms(2-) unfolding assms(1) by (simp add: field_simps)

lemma upper_arith:
  fixes u h w a b m c s y :: real
  assumes "u = 1 / 16777216" and "m = \<bar>a\<bar> + b" and "0 \<le> b" and "0 \<le> w" and "0 \<le> h" and "h \<le> w / 1024"
    and "\<bar>c - (a + b)\<bar> \<le> u * \<bar>a + b\<bar> + h" and "3 * u * m + 3 * w \<le> s" and "\<bar>y - (c + s)\<bar> \<le> u * \<bar>c + s\<bar> + h"
  shows "a + b + 2 * w \<le> y"
proof -
  have m: "\<bar>a + b\<bar> \<le> m" "0 \<le> m" using assms(2,3) by auto
  have "0 \<le> 3 * u * m" using assms(1) m(2) by simp
  then have s: "0 \<le> s" using assms(4,8) by linarith
  have "u * \<bar>a + b\<bar> \<le> u * m" using m(1) assms(1) by simp
  then have c: "a + b - u * m - h \<le> c" "\<bar>c\<bar> \<le> m + u * m + h" using assms(7) m by linarith+
  have "\<bar>c + s\<bar> \<le> m + u * m + h + s" using c(2) s by linarith
  then have "u * \<bar>c + s\<bar> \<le> u * (m + u * m + h + s)" by (rule mult_left_mono) (simp add: assms(1))
  then have "c + s - u * (m + u * m + h + s) - h \<le> y" using assms(9) by linarith
  then show ?thesis using c(1) assms(4-6,8) m(2) unfolding assms(1) by (simp add: field_simps)
qed

text \<open>A fp32 value that stays within the bound of the accumulation lies below the screen's upper end.\<close>

definition reaches :: "fval \<Rightarrow> real \<Rightarrow> real \<Rightarrow> bool" where
  "reaches e a b = (case e of Fin y \<Rightarrow> \<bar>y - a\<bar> \<le> b | PInf \<Rightarrow> 2 powi 128 \<le> a + b | NInf \<Rightarrow> a - b \<le> - (2 powi 128) | NaN \<Rightarrow> False)"

lemma reaches_minus: "reaches e a b \<Longrightarrow> reaches (fneg e) (- a) b"
  by (cases e) (auto simp: reaches_def abs_le_iff)

lemma screen_slop_lower:
  assumes B: "B = Fin b" "0 \<le> b"
  shows "Fin (3 * 2 powi (-24) * (\<bar>a\<bar> + b) + 3 * 2 powi (-128)) \<le> screen_slop C (Fin a) B"
    and "Fin 0 \<le> screen_slop C (Fin a) B"
proof -
  define u h w :: real where uhw: "u = 2 powi (-24)" "h = 2 powi (-150)" "w = 2 powi (-128)"
  have u: "u = 1 / 16777216" using powi_neg [of 24] by (simp add: uhw)
  have h: "h \<le> w / 1024"
  proof -
    have "h \<le> 2 powi (-138)" unfolding uhw by (rule power_int_increasing) auto
    also have "(2::real) powi (-138) = w / 1024" using power_int_add [of "2::real" "-128" "-10"] by (simp add: uhw)
    finally show ?thesis .
  qed
  let ?m = "\<bar>a\<bar> + b" and ?t = "fadd (fl F32) (fabs (Fin a)) B"
  have rel: "SLOP_REL = 4 * u" using power_int_add [of "2::real" 2 "-24"] by (simp add: SLOP_REL_def uhw)
  have ab: "SLOP_ABS = 4 * w" using power_int_add [of "2::real" 2 "-128"] by (simp add: SLOP_ABS_def uhw)
  have t: "Fin 0 \<le> ?t" "Fin ((1 - u) * ?m - h) \<le> ?t"
    using b32.R_nonneg [of ?m] b32.R_lower [of ?m ?m] B by (simp_all add: uhw)
  have p: "Fin 0 \<le> Fin (4 * u)" "Fin 0 \<le> Fin (4 * w)" by (simp_all add: uhw)
  show "Fin 0 \<le> screen_slop C (Fin a) B" unfolding screen_slop_def rel ab by (rule b32.mul_add_nonneg [OF t(1) p])
  have "Fin ((1 - u) * ((1 - u) * (((1 - u) * ?m - h) * (4 * u)) - h + 4 * w) - h) \<le> screen_slop C (Fin a) B"
    unfolding screen_slop_def rel ab unfolding uhw by (rule b32.mul_add_lower [OF t(1) p [unfolded uhw] t(2) [unfolded uhw]]) simp_all
  moreover have "3 * u * ?m + 3 * w \<le> (1 - u) * ((1 - u) * (((1 - u) * ?m - h) * (4 * u)) - h + 4 * w) - h"
    by (rule slop_arith [OF u _ _ h _ order_refl order_refl]) (use B in \<open>simp_all add: uhw\<close>)
  then have "Fin (3 * u * ?m + 3 * w) \<le> Fin ((1 - u) * ((1 - u) * (((1 - u) * ?m - h) * (4 * u)) - h + 4 * w) - h)"
    by (simp only: less_eq_fval.simps)
  ultimately show "Fin (3 * 2 powi (-24) * ?m + 3 * 2 powi (-128)) \<le> screen_slop C (Fin a) B"
    unfolding uhw by (rule order_trans [rotated])
qed

lemma screen_upper:
  assumes a: "fl F32 a = Fin a" and e: "reaches e a (b + 2 * 2 powi (-128))" and B: "Fin b \<le> B" "Fin 0 \<le> B" "B \<noteq> NaN"
  shows "fadd (fl F32) (fadd (fl F32) (Fin a) B) (screen_slop C (Fin a) B) = NaN
    \<or> e \<le> fadd (fl F32) (fadd (fl F32) (Fin a) B) (screen_slop C (Fin a) B)"
proof (cases B)
  case (Fin b')
  then have b: "b \<le> b'" "0 \<le> b'" using B by auto
  define u h w :: real where uhw: "u = 2 powi (-24)" "h = 2 powi (-150)" "w = 2 powi (-128)"
  have u: "u = 1 / 16777216" using powi_neg [of 24] by (simp add: uhw)
  have h: "h \<le> w / 1024"
  proof -
    have "h \<le> 2 powi (-138)" unfolding uhw by (rule power_int_increasing) auto
    also have "(2::real) powi (-138) = w / 1024" using power_int_add [of "2::real" "-128" "-10"] by (simp add: uhw)
    finally show ?thesis .
  qed
  have en: "e \<noteq> NaN" using e by (auto simp: reaches_def)
  have c: "Fin a \<le> fl F32 (a + b')" using b32.R_mono [of a "a + b'"] b(2) a by simp
  let ?S = "screen_slop C (Fin a) B"
  note slop = screen_slop_lower [OF Fin b(2), where a = a and C = C]
  show ?thesis
  proof (cases "fl F32 (a + b')")
    case F: (Fin c)
    have cc: "fl F32 c = Fin c" by (rule fl_idem [OF F]) (simp add: F32_def)
    show ?thesis
    proof (cases ?S)
      case S: (Fin s)
      have s: "3 * u * (\<bar>a\<bar> + b') + 3 * w \<le> s" using slop(1) S by (simp only: less_eq_fval.simps uhw)
      have s0: "0 \<le> s" using slop(2) S by simp
      have r: "Fin c \<le> fl F32 (c + s)" using b32.R_mono [of c "c + s"] s0 cc by simp
      show ?thesis
      proof (cases "fl F32 (c + s)")
        case Y: (Fin y)
        have "a + b' + 2 * w \<le> y"
          by (rule upper_arith [OF u refl b(2) _ _ h _ s])
            (use b32.R_err [OF F] b32.R_err [OF Y] in \<open>simp_all only: uhw\<close>, simp_all)
        then have y: "a + (b + 2 * 2 powi (-128)) \<le> y" using b(1) unfolding uhw by linarith
        have "e \<le> Fin y"
          using e y b32.R_range [OF Y] by (cases e) (auto simp: reaches_def abs_le_iff)
        then show ?thesis using Fin F S Y by simp
      qed (use r Fin F S en in \<open>auto simp: fval_le_PInf\<close>)
    qed (use slop(2) Fin F en in \<open>auto simp: fval_le_PInf\<close>)
  next
    case PInf
    then show ?thesis using slop(2) Fin en by (cases ?S) (auto simp: fval_le_PInf)
  qed (use c Fin b32.R_num in auto)
next
  case PInf
  have "e \<noteq> NaN" using e by (auto simp: reaches_def)
  moreover have "PInf \<le> screen_slop C (Fin a) PInf"
    unfolding screen_slop_def by (rule b32.mul_add_inf(1) [where c = SLOP_REL]) (simp_all add: SLOP_REL_def SLOP_ABS_def)
  ultimately show ?thesis using PInf by (cases "screen_slop C (Fin a) PInf") (auto simp: fval_le_PInf)
qed (use B in auto)

lemma screen_lower:
  assumes a: "fl F32 a = Fin a" and e: "reaches e a (b + 2 * 2 powi (-128))" and B: "Fin b \<le> B" "Fin 0 \<le> B" "B \<noteq> NaN"
  shows "fsub (fl F32) (fsub (fl F32) (Fin a) B) (screen_slop C (Fin a) B) = NaN
    \<or> fsub (fl F32) (fsub (fl F32) (Fin a) B) (screen_slop C (Fin a) B) \<le> e"
proof -
  have neg: "fadd (fl F32) (fneg x) (fneg y) = fneg (fadd (fl F32) x y)" for x y
    by (cases x; cases y) (simp_all add: fl_minus [symmetric])
  have nn: "fneg (fneg x) = x" for x by (cases x) simp_all
  let ?S = "screen_slop C (Fin a) B" and ?H = "fadd (fl F32) (fadd (fl F32) (Fin (- a)) B) (screen_slop C (Fin (- a)) B)"
  have S: "screen_slop C (Fin (- a)) B = ?S" by (simp add: screen_slop_def)
  have "fsub (fl F32) (fsub (fl F32) (Fin a) B) ?S = fadd (fl F32) (fadd (fl F32) (fneg (Fin (- a))) (fneg B)) (fneg ?S)"
    by (simp add: fsub_def)
  also have "\<dots> = fneg ?H" unfolding neg S ..
  finally have lo: "fsub (fl F32) (fsub (fl F32) (Fin a) B) ?S = fneg ?H" .
  have "fl F32 (- a) = Fin (- a)" using a by (simp add: fl_minus)
  from screen_upper [OF this reaches_minus [OF e] B] show ?thesis
    unfolding lo using fneg_le [of "fneg e" ?H] nn by (cases "?H = NaN") auto
qed

section \<open>The screen of one token\<close>

definition group_nrm :: "nat \<Rightarrow> (nat \<Rightarrow> real) \<Rightarrow> nat \<Rightarrow> real" where
  "group_nrm G a g = nrm (\<lambda>i. a (g * G + i)) G"

lemma group_nrm_nonneg [simp]: "0 \<le> group_nrm G a g"
  by (simp add: group_nrm_def)

lemma nrm_groups: "nrm (group_nrm G a) m = nrm a (m * G)"
  by (simp add: nrm_def group_nrm_def sum_groups sum_nonneg)

lemma dot_difference:
  assumes "length x = m * G"
  shows "\<bar>dot w x - dot d x\<bar> \<le> (\<Sum>g<m. group_nrm G (\<lambda>k. fin (x ! k)) g * group_nrm G (\<lambda>k. fin (w ! k) - fin (d ! k)) g)"
proof -
  have "dot w x - dot d x = (\<Sum>g<m. \<Sum>i<G. fin (x ! (g * G + i)) * (fin (w ! (g * G + i)) - fin (d ! (g * G + i))))"
    unfolding dot_def assms sum_groups by (simp add: sum_subtractf [symmetric] algebra_simps)
  then show ?thesis unfolding group_nrm_def by (simp only:) (rule order_trans [OF sum_abs sum_mono [OF cauchy_schwarz]])
qed

text \<open>The shapes in use: groups of up to 256 columns at 5120 columns, among others.\<close>

definition fits :: "nat \<Rightarrow> nat \<Rightarrow> nat \<Rightarrow> bool" where
  "fits G NG n = (0 < G \<and> 0 < NG \<and> G + NG \<le> 300 \<and> NG \<le> 200 \<and> NG * G \<le> 8000 \<and> NG \<le> n \<and> n \<le> 2 * NG)"

lemma group_div: "fits G NG n \<Longrightarrow> length x = NG * G \<Longrightarrow> length x div G = NG"
  by (simp add: fits_def)

lemma row_fin:
  assumes C: "compiled C G n" and f: "fits G NG n" and x: "length x = NG * G" and ok: "\<not> row_bad C G x"
  shows "list_all is_fin x"
proof (rule ccontr)
  assume "\<not> list_all is_fin x"
  then obtain k where k: "k < NG * G" "\<not> is_fin (x ! k)" using x by (auto simp: list_all_length)
  define g i where gi: "g = k div G" "i = k mod G"
  have g: "g < NG" "i < G" "g * G + i = k" using k(1) f by (auto simp: gi fits_def less_mult_imp_div_less)
  have "PInf \<le> group_norm C G x g" using k(2) g by (intro group_norm_inf [OF C g(2)]) simp
  then have "PInf \<le> row_norm C G x" using g(1) f group_div [OF f x] by (intro row_norm_inf [OF C]) (auto simp: fits_def)
  then show False using ok by (auto simp: row_bad_def)
qed

lemma group_norm_exact:
  assumes C: "compiled C G n" and f: "fits G NG n" and x: "length x = NG * G" and fin: "list_all is_fin x" and g: "g < NG"
  shows "Fin ((1 + (249 - real G) * 2 powi (-24)) * group_nrm G (\<lambda>k. fin (x ! k)) g + 2 powi (-60)) \<le> group_norm C G x g"
proof -
  have b: "Fin \<bar>fin (x ! (g * G + i))\<bar> \<le> fabs (x ! (g * G + i)) \<and> 0 \<le> \<bar>fin (x ! (g * G + i))\<bar>" if "i < G" for i
  proof -
    have "Suc g * G \<le> NG * G" using g by (intro mult_right_mono) auto
    then have "g * G + i < length x" using that x by simp
    then have "is_fin (x ! (g * G + i))" using fin by (simp add: list_all_length)
    then show ?thesis by (cases "x ! (g * G + i)") (auto simp: is_fin_def)
  qed
  have "G \<le> 300" using f by (simp add: fits_def)
  from group_norm_covers [OF C this, where b = "\<lambda>i. \<bar>fin (x ! (g * G + i))\<bar>", OF b] show ?thesis by (simp add: group_nrm_def nrm_def)
qed

definition summed :: "torch_ops \<Rightarrow> nat \<Rightarrow> nat \<Rightarrow> bool" where
  "summed P G K = (sums_over (p_group_tree P) G \<and> sums_over (p_row_tree P) K)"

lemma build_row_covers:
  assumes f: "fits G NG n" and P: "summed P G (NG * G)" and w: "length w = NG * G" "list_all is_bf16 w" and T: "T = build_row P G w"
    and d: "d = fst (deq_row (v_q T) (v_e T))" "list_all is_fin d"
  shows "\<And>g. g < NG \<Longrightarrow> Fin (group_nrm G (\<lambda>k. fin (w ! k) - fin (d ! k)) g) \<le> v_rt T ! g"
    and "Fin (max (norm2 w) (norm2 d)) \<le> v_nv T"
proof -
  have fd: "0 < G" "G \<le> 300" "NG * G \<le> 8000" using f by (auto simp: fits_def)
  note bp = build_row_parts [OF trans [OF w(1) mult.commute] fd(1) T d(1)]
  have dl: "length d = NG * G" using bp(1) w(1) by simp
  have dq: "is_bf16 (d ! k)" if "k < NG * G" for k
    using deq_row_bf16 [of k "v_q T" "v_e T"] that d dl by (simp add: list_all_length)
  have wk: "is_bf16 (w ! k)" if "k < NG * G" for k using w that by (simp add: list_all_length)
  have in_row: "g * G + i < NG * G" if "g < NG" "i < G" for g i
  proof -
    have "Suc g * G \<le> NG * G" using that by (intro mult_right_mono) auto
    then show ?thesis using that by simp
  qed
  show "Fin (group_nrm G (\<lambda>k. fin (w ! k) - fin (d ! k)) g) \<le> v_rt T ! g" if "g < NG" for g
  proof (rule bp(3) [OF that])
    show "Fin (group_nrm G (\<lambda>k. fin (w ! k) - fin (d ! k)) g) \<le> resid_norm P G w d g" unfolding group_nrm_def
      by (rule resid_norm_covers) (use P fd in_row [OF that] wk dq in \<open>auto simp: summed_def\<close>)
  qed simp
  have "Fin (norm2 w) \<le> v_nv T" using P w(1) wk fd by (intro order_trans [OF norm64_covers_row bp(4)]) (auto simp: summed_def)
  moreover have "Fin (norm2 d) \<le> v_nv T" using P dl dq fd by (intro order_trans [OF norm64_covers_row bp(5)]) (auto simp: summed_def)
  ultimately show "Fin (max (norm2 w) (norm2 d)) \<le> v_nv T" by (simp add: max_def)
qed

text \<open>What the inflation of a group norm leaves after its own roundings.\<close>

definition group_gain :: "nat \<Rightarrow> real" where
  "group_gain G = 1 + (249 - real G) * 2 powi (-24)"

lemma group_gain_nonneg: "G \<le> 300 \<Longrightarrow> 0 \<le> group_gain G"
  using powi_neg [of 24] by (simp add: group_gain_def field_simps)

lemma resid_bound_covers:
  assumes C: "compiled C G n" and f: "fits G NG n" and x: "length x = NG * G" and fin: "list_all is_fin x"
    and r: "\<And>g. g < NG \<Longrightarrow> Fin (r g) \<le> rt ! g" "\<And>g. 0 \<le> r g"
  defines "S \<equiv> \<Sum>g<NG. group_nrm G (\<lambda>k. fin (x ! k)) g * r g"
  shows "Fin ((1 - (real NG + 1) * 2 powi (-24)) * group_gain G * S - 400 * 2 powi (-150)) \<le> resid_bound C G x rt"
    and "Fin 0 \<le> resid_bound C G x rt"
proof -
  define u h where uh: "u = (2::real) powi (-24)" "h = (2::real) powi (-150)"
  have u: "u = 1 / 16777216" using powi_neg [of 24] by (simp add: uh)
  let ?N = "group_nrm G (\<lambda>k. fin (x ! k))"
  define \<rho> where "\<rho> = group_gain G"
  have \<rho>: "0 \<le> \<rho>" using f by (auto simp: \<rho>_def fits_def intro: group_gain_nonneg)
  define a where "a g = \<rho> * ?N g + 2 powi (-60)" for g
  have a0: "0 \<le> a g" "\<rho> * ?N g \<le> a g" for g using \<rho> by (auto simp: a_def intro: add_nonneg_nonneg)
  have xa: "Fin (a g) \<le> group_norm C G x g" if "g < NG" for g
    using group_norm_exact [OF C f x fin that] unfolding a_def \<rho>_def group_gain_def .
  have l: "Fin ((1 - u) ^ Suc NG * (\<Sum>g<NG. a g * r g) - 2 * real NG * h) \<le> resid_bound C G x rt \<and> Fin 0 \<le> resid_bound C G x rt"
    unfolding resid_bound_def group_div [OF f x] uh by (rule resid_fold_lower) (use xa r a0(1) in auto)
  have S0: "0 \<le> S" unfolding S_def using r(2) by (intro sum_nonneg mult_nonneg_nonneg) auto
  have "(1 - (real NG + 1) * u) * \<rho> * S \<le> (1 - u) ^ Suc NG * (\<rho> * S)"
    using bernoulli [of u "Suc NG"] \<rho> S0 by (simp only: mult.assoc) (intro mult_right_mono, auto simp: u algebra_simps)
  also have "\<dots> \<le> (1 - u) ^ Suc NG * (\<Sum>g<NG. a g * r g)"
    unfolding S_def sum_distrib_left mult.assoc [symmetric] using a0(2) r(2)
    by (intro sum_mono mult_right_mono mult_left_mono) (auto simp: u mult.assoc intro!: mult_left_mono)
  finally have "(1 - (real NG + 1) * u) * \<rho> * S - 400 * h \<le> (1 - u) ^ Suc NG * (\<Sum>g<NG. a g * r g) - 2 * real NG * h"
    using f by (intro diff_mono) (auto simp: uh fits_def)
  then have "Fin ((1 - (real NG + 1) * u) * \<rho> * S - 400 * h) \<le> Fin ((1 - u) ^ Suc NG * (\<Sum>g<NG. a g * r g) - 2 * real NG * h)"
    by (simp only: less_eq_fval.simps)
  from order_trans [OF this l [THEN conjunct1]]
  show "Fin ((1 - (real NG + 1) * 2 powi (-24)) * group_gain G * S - 400 * 2 powi (-150)) \<le> resid_bound C G x rt"
    unfolding uh \<rho>_def .
  show "Fin 0 \<le> resid_bound C G x rt" using l by blast
qed

lemma row_norm_covers:
  assumes C: "compiled C G n" and f: "fits G NG n" and x: "length x = NG * G" and fin: "list_all is_fin x"
  shows "Fin ((1 + (247 - real n) * 2 powi (-24)) * (group_gain G * norm2 x)) \<le> row_norm C G x"
proof -
  let ?N = "group_nrm G (\<lambda>k. fin (x ! k))" and ?\<mu> = "1 + (247 - real n) * 2 powi (-24)"
  define \<rho> where "\<rho> = group_gain G"
  have fd: "0 < NG" "NG \<le> 200" "NG \<le> n" "n \<le> 2 * NG" "G \<le> 300" using f by (auto simp: fits_def)
  have \<rho>: "0 \<le> \<rho>" using group_gain_nonneg fd(5) by (simp add: \<rho>_def)
  have \<mu>: "0 \<le> ?\<mu>" using fd powi_neg [of 24] by (simp add: field_simps)
  define a where "a g = \<rho> * ?N g + 2 powi (-60)" for g
  have a0: "2 powi (-60) \<le> a g" "0 \<le> a g" "\<rho> * ?N g \<le> a g" for g using \<rho> by (auto simp: a_def intro: add_nonneg_nonneg)
  have xa: "Fin (a g) \<le> group_norm C G x g" if "g < NG" for g
    using group_norm_exact [OF C f x fin that] unfolding a_def \<rho>_def group_gain_def .
  have "Fin (?\<mu> * nrm a NG) \<le> row_norm C G x"
    by (rule row_norm_lower [OF C fd(4,3,1,2) group_div [OF f x]]) (use xa a0(1) in auto)
  moreover have "\<rho> * norm2 x = nrm (\<lambda>g. \<rho> * ?N g) NG"
    using nrm_groups [of G "\<lambda>k. fin (x ! k)" NG] x by (simp add: nrm_scale [OF \<rho>] norm2_def nrm_def)
  moreover have "nrm (\<lambda>g. \<rho> * ?N g) NG \<le> nrm a NG"
    using a0(2,3) \<rho> by (intro nrm_mono) (simp add: abs_mult)
  ultimately show ?thesis using \<mu> unfolding \<rho>_def by (auto elim!: order_trans [rotated] intro: mult_left_mono)
qed

lemma bound_covers:
  assumes C: "compiled C G n" and f: "fits G NG n" and x: "length x = NG * G" and fin: "list_all is_fin x"
    and P: "summed P G (NG * G)" and w: "length w = NG * G" "list_all is_bf16 w" and T: "T = build_row P G w"
    and d: "d = fst (deq_row (v_q T) (v_e T))" "list_all is_fin d"
  shows "Fin ((\<Sum>g<NG. group_nrm G (\<lambda>k. fin (x ! k)) g * group_nrm G (\<lambda>k. fin (w ! k) - fin (d ! k)) g)
      + 2 * c_acc (length x) * (norm2 x * max (norm2 w) (norm2 d)) - 500 * 2 powi (-150)) \<le> screen_bound C G x T"
proof -
  define u h where uhz: "u = (2::real) powi (-24)" "h = (2::real) powi (-150)"
  have u: "u = 1 / 16777216" using powi_neg [of 24] by (simp add: uhz)
  have fd: "0 < G" "G + NG \<le> 300" "NG \<le> 200" "n \<le> 2 * NG" "length x \<le> 8000" using f x by (auto simp: fits_def)
  define \<rho> \<mu> where \<rho>\<mu>: "\<rho> = 1 + (249 - real G) * u" "\<mu> = 1 + (247 - real n) * u"
  have \<rho>: "\<rho> = group_gain G" "0 \<le> \<rho>" using group_gain_nonneg [of G] fd(2) by (auto simp: \<rho>\<mu> group_gain_def uhz)
  have "real n \<le> 400" using fd by simp
  then have \<mu>: "0 \<le> \<mu>" by (simp add: \<rho>\<mu> u field_simps)
  let ?R = "group_nrm G (\<lambda>k. fin (w ! k) - fin (d ! k))"
  let ?S = "\<Sum>g<NG. group_nrm G (\<lambda>k. fin (x ! k)) g * ?R g" and ?X = "norm2 x" and ?W = "max (norm2 w) (norm2 d)"
  define A where "A = (1 - (real NG + 1) * u) * \<rho> * ?S"
  define c where "c = 2 * c_acc (length x)"
  define D where "D = \<mu> * \<rho> * (c * (?X * ?W))"
  let ?X' = "\<mu> * (\<rho> * ?X)"
  note rt = build_row_covers [OF f P w T d]
  note bp = build_row_parts [OF trans [OF w(1) mult.commute] fd(1) T d(1)]
  have qb: "Fin (A - 400 * h) \<le> resid_bound C G x (v_rt T)" "Fin 0 \<le> resid_bound C G x (v_rt T)"
    using resid_bound_covers [OF C f x fin rt(1)] unfolding A_def uhz \<rho>(1) by simp_all
  have xn: "Fin ?X' \<le> row_norm C G x" using row_norm_covers [OF C f x fin] unfolding \<rho>(1) \<rho>\<mu>(2) uhz(1) .
  have pos: "0 \<le> ?S" "0 \<le> ?X" "0 \<le> ?W" by (auto intro!: sum_nonneg simp: norm2_def max_def)
  have c: "0 \<le> c" "c \<le> 1" using fd(5) powi_neg [of 23] by (auto simp: c_def c_acc_def)
  have xn0: "Fin 0 \<le> row_norm C G x" by (rule order_trans [OF _ xn]) (use \<mu> \<rho>(2) pos in simp)
  have low: "Fin ((1 - u) * (((1 - u) * ((1 - u) * ((A - 400 * h) * (1 + 64 * u)) - h + ((1 - u) * (((1 - u) * (?X' * ?W) - h) * c) - h)) - h) * (1 + 16 * u)) - h)
      \<le> screen_bound C G x T"
    by (rule screen_bound_lower [OF qb(2,1) xn0 xn bp(7) rt(2) pos(3) fd(5) uhz(1,2) c_def])
  have D: "((1 - u) * (?X' * ?W) - h) * c = (1 - u) * D - h * c" by (simp add: D_def algebra_simps)
  have "?S + c * (?X * ?W) - 500 * h
      \<le> (1 - u) * (((1 - u) * ((1 - u) * ((A - 400 * h) * (1 + 64 * u)) - h + ((1 - u) * ((1 - u) * D - h * c) - h)) - h) * (1 + 16 * u)) - h"
  proof (rule bound_arith [OF u])
    show "h * c \<le> h" "0 \<le> h" "0 \<le> h * c" using c mult_left_mono [OF c(2), of h] by (simp_all add: uhz)
    have "1 \<le> (1 - u) ^ 3 * (1 + 64 * u) * (1 + 16 * u) * ((1 - (real NG + 1) * u) * \<rho>)"
      unfolding \<rho>\<mu>(1) by (rule first_factor [OF u]) (use fd in simp_all)
    from mult_right_mono [OF this pos(1)] show "?S \<le> (1 - u) ^ 3 * (1 + 64 * u) * (1 + 16 * u) * A" by (simp add: A_def mult.assoc)
    have "1 \<le> (1 - u) ^ 4 * (1 + 16 * u) * (\<mu> * \<rho>)"
      unfolding \<rho>\<mu> by (rule second_factor [OF u]) (use fd in simp_all)
    from mult_right_mono [OF this, of "c * (?X * ?W)"] c pos show "c * (?X * ?W) \<le> (1 - u) ^ 4 * (1 + 16 * u) * D" by (simp add: D_def mult.assoc)
  qed
  then have "Fin (?S + c * (?X * ?W) - 500 * h)
      \<le> Fin ((1 - u) * (((1 - u) * ((1 - u) * ((A - 400 * h) * (1 + 64 * u)) - h + ((1 - u) * (((1 - u) * (?X' * ?W) - h) * c) - h)) - h) * (1 + 16 * u)) - h)"
    by (simp only: D less_eq_fval.simps)
  from order_trans [OF this low] show ?thesis by (simp only: c_def uhz)
qed

lemma accumulated_reach:
  assumes e: "accumulates e w x" and a: "\<bar>a - dot d x\<bar> \<le> c_acc (length x) * (norm2 d * norm2 x) + 2 powi (-129)"
    and S: "\<bar>dot w x - dot d x\<bar> \<le> S"
  shows "reaches e a (S + 2 * c_acc (length x) * (norm2 x * max (norm2 w) (norm2 d)) + 2 powi (-128))"
proof -
  define c X where cX: "c = c_acc (length x)" "X = norm2 x"
  have c: "0 \<le> c" "0 \<le> X" by (simp_all add: cX c_acc_def norm2_def sum_nonneg)
  let ?N = "max (norm2 w) (norm2 d)"
  have "c * (norm2 w * X) \<le> c * (X * ?N)" "c * (norm2 d * X) \<le> c * (X * ?N)"
    using c by (auto intro!: mult_left_mono simp: mult.commute [of _ X])
  moreover have "(2::real) powi (-128) = 2 * 2 powi (-129)" using power_int_add [of "2::real" 1 "-129"] by simp
  ultimately have k: "c * (norm2 w * X) + 2 powi (-129) + (c * (norm2 d * X) + 2 powi (-129)) \<le> 2 * c * (X * ?N) + 2 powi (-128)"
    by (simp only: mult.assoc)
  show ?thesis
  proof (cases e)
    case (Fin y)
    then have "\<bar>y - dot w x\<bar> \<le> c * (norm2 w * X) + 2 powi (-129)" using e by (simp only: accumulates_def Let_def fval.case cX)
    then have "\<bar>y - a\<bar> \<le> S + 2 * c * (X * ?N) + 2 powi (-128)" using a S k unfolding cX by linarith
    then show ?thesis unfolding Fin reaches_def fval.case cX .
  next
    case PInf
    then have "2 powi 128 \<le> dot w x + (c * (norm2 w * X) + 2 powi (-129))" using e by (simp only: accumulates_def Let_def fval.case cX)
    then have "2 powi 128 \<le> a + (S + 2 * c * (X * ?N) + 2 powi (-128))" using a S k unfolding cX by linarith
    then show ?thesis unfolding PInf reaches_def fval.case cX .
  next
    case NInf
    then have "dot w x - (c * (norm2 w * X) + 2 powi (-129)) \<le> - (2 powi 128)" using e by (simp only: accumulates_def Let_def fval.case cX)
    then have "a - (S + 2 * c * (X * ?N) + 2 powi (-128)) \<le> - (2 powi 128)" using a S k unfolding cX by linarith
    then show ?thesis unfolding NInf reaches_def fval.case cX .
  qed (use e in \<open>simp add: accumulates_def Let_def\<close>)
qed

lemma screen_open:
  assumes "e \<noteq> NaN"
  shows "fadd (fl F32) (fadd (fl F32) (Fin a) PInf) s = NaN \<or> e \<le> fadd (fl F32) (fadd (fl F32) (Fin a) PInf) s"
    and "fsub (fl F32) (fsub (fl F32) (Fin a) PInf) s = NaN \<or> fsub (fl F32) (fsub (fl F32) (Fin a) PInf) s \<le> e"
  using assms by (cases s; auto simp: fsub_def fval_le_PInf)+

definition models :: "codegen \<Rightarrow> nat \<Rightarrow> bool" where
  "models C K \<longleftrightarrow> (\<forall>w x. length w = K \<longrightarrow> length x = K \<longrightarrow> list_all is_fin w \<longrightarrow> list_all is_fin x
     \<longrightarrow> accumulates (g_exact C w x) w x \<and> accumulates (g_dot C x w) w x)"

lemma screen_encloses:
  assumes C: "compiled C G n" and f: "fits G NG n" and x: "length x = NG * G" and ok: "\<not> row_bad C G x" and m: "models C (NG * G)"
    and P: "summed P G (NG * G)" and w: "length w = NG * G" "list_all is_bf16 w"
    and acc: "g_dot C x (fst (deq_row (v_q (build_row P G w)) (v_e (build_row P G w)))) = Fin a"
  defines "B \<equiv> screen_bound C G x (build_row P G w)"
  defines "hi \<equiv> fadd (fl F32) (fadd (fl F32) (Fin a) B) (screen_slop C (Fin a) B)"
    and "lo \<equiv> fsub (fl F32) (fsub (fl F32) (Fin a) B) (screen_slop C (Fin a) B)"
  shows "(hi = NaN \<or> g_exact C w x \<le> hi) \<and> (lo = NaN \<or> lo \<le> g_exact C w x)"
proof -
  let ?T = "build_row P G w"
  let ?d = "fst (deq_row (v_q ?T) (v_e ?T))"
  have fin: "list_all is_fin x" by (rule row_fin [OF C f x ok])
  have wf: "list_all is_fin w" using w(2) by (auto simp: list_all_length is_bf16_def)
  have G: "0 < G" using f by (simp add: fits_def)
  note bp = build_row_parts [OF trans [OF w(1) mult.commute] G refl refl, where P = P]
  have dl: "length ?d = NG * G" using bp(1) w(1) by simp
  have e: "accumulates (g_exact C w x) w x" using m w(1) x wf fin by (simp add: models_def)
  have xn0: "Fin 0 \<le> row_norm C G x"
    unfolding row_norm_def by (intro b32.mul_nonneg ksqrt_nonneg [OF C] b32.tsum_nonneg) (simp add: INFL_X_def add_increasing)
  have nn: "Fin 0 \<le> resid_bound C G x (v_rt ?T)" unfolding resid_bound_def group_div [OF f x]
    by (rule resid_fold_lower [where a = "\<lambda>_. 0" and r = "\<lambda>_. 0", THEN conjunct2])
      (use bp(6) f group_norm_nonneg [OF C] in \<open>auto simp: fits_def\<close>)
  have B0: "Fin 0 \<le> B" "B \<noteq> NaN"
    unfolding B_def by (rule screen_bound_nonneg [OF nn xn0 bp(7)]) (use f x in \<open>auto simp: fits_def screen_bound_def Let_def\<close>)
  show ?thesis
  proof (cases "list_all is_fin ?d")
    case True
    have "accumulates (Fin a) ?d x" using m dl x True fin acc unfolding models_def by metis
    then have a: "\<bar>a - dot ?d x\<bar> \<le> c_acc (length x) * (norm2 ?d * norm2 x) + 2 powi (-129)" "fl F32 a = Fin a"
      by (simp_all add: accumulates_def Let_def)
    let ?S = "\<Sum>g<NG. group_nrm G (\<lambda>k. fin (x ! k)) g * group_nrm G (\<lambda>k. fin (w ! k) - fin (?d ! k)) g"
    let ?b = "?S + 2 * c_acc (length x) * (norm2 x * max (norm2 w) (norm2 ?d)) - 500 * 2 powi (-150)"
    have b: "Fin ?b \<le> B" unfolding B_def by (rule bound_covers [OF C f x fin P w refl refl True])
    have r0: "reaches (g_exact C w x) a (?S + 2 * c_acc (length x) * (norm2 x * max (norm2 w) (norm2 ?d)) + 2 powi (-128))"
      by (rule accumulated_reach [OF e a(1) dot_difference [OF x]])
    have mono: "reaches y a r'" if "r \<le> r'" "reaches y a r" for y r r' using that by (cases y) (auto simp: reaches_def)
    have "500 * 2 powi (-150) \<le> (2::real) powi (-128)"
    proof -
      have "500 * (2::real) powi (-150) \<le> 2 powi 10 * 2 powi (-150)" by (intro mult_right_mono) simp_all
      also have "\<dots> = (2::real) powi (-140)" by (simp flip: power_int_add)
      also have "\<dots> \<le> 2 powi (-128)" by (rule power_int_increasing) auto
      finally show ?thesis .
    qed
    then have "?S + 2 * c_acc (length x) * (norm2 x * max (norm2 w) (norm2 ?d)) + 2 powi (-128) \<le> ?b + 2 * 2 powi (-128)" by linarith
    from mono [OF this r0] have r: "reaches (g_exact C w x) a (?b + 2 * 2 powi (-128))" .
    show ?thesis unfolding hi_def lo_def using screen_upper [OF a(2) r b B0] screen_lower [OF a(2) r b B0] by blast
  next
    case False
    then obtain k where k: "k < NG * G" "\<not> is_fin (?d ! k)" using dl by (auto simp: list_all_length)
    define g i where gi: "g = k div G" "i = k mod G"
    have g: "g < NG" "i < G" "g * G + i = k" using k(1) G by (auto simp: gi less_mult_imp_div_less)
    have "PInf \<le> resid_norm P G w ?d g"
      by (rule resid_norm_inf [OF _ g(2)]) (use P k g wf w(1) in \<open>auto simp: summed_def list_all_length\<close>)
    then have "PInf \<le> v_rt ?T ! g" by (intro bp(3) [OF g(1)]) simp_all
    then have "PInf \<le> resid_bound C G x (v_rt ?T)" unfolding resid_bound_def group_div [OF f x]
      by (intro resid_fold_inf [where c = "2 powi (-60)" and k = g]) (use bp(6) g(1) f group_norm_pos [OF C] in \<open>auto simp: fits_def\<close>)
    then have B: "B = PInf" unfolding B_def by (rule screen_bound_inf [OF _ xn0 bp(7)])
    have "g_exact C w x \<noteq> NaN" using e by (auto simp: accumulates_def Let_def)
    from screen_open [OF this] show ?thesis unfolding hi_def lo_def B by blast
  qed
qed

text \<open>The norm kernel pads the groups to a power of two.\<close>

lemma pow2_loop_bounds: "p \<le> 2 * n \<Longrightarrow> 0 < p \<Longrightarrow> n \<le> pow2_loop n p \<and> pow2_loop n p \<le> 2 * n"
proof (induction n p rule: pow2_loop.induct)
  case (1 n p)
  then show ?case by (subst (1 2) pow2_loop.simps) auto
qed

lemma fits_shape: "0 < G \<Longrightarrow> 0 < NG \<Longrightarrow> G + NG \<le> 300 \<Longrightarrow> NG \<le> 200 \<Longrightarrow> NG * G \<le> 8000 \<Longrightarrow> fits G NG (next_pow2 NG)"
  using pow2_loop_bounds [of 1 NG] by (simp add: fits_def next_pow2_def)

text \<open>A product accumulated exactly and rounded once satisfies the hypothesis.\<close>

definition rounded_codegen :: "nat \<Rightarrow> nat \<Rightarrow> codegen" where
  "rounded_codegen G n =
     \<lparr>g_rn = True, g_sqrt = (\<lambda>s. s), g_fma = (\<lambda>_. False), g_group_tree = fold Fma [1..<G] (Leaf 0),
      g_norm_tree = fold (\<lambda>i t. Add t (Leaf i)) [1..<n] (Leaf 0),
      g_dot = (\<lambda>x w. fl F32 (dot w x)), g_exact = (\<lambda>w x. fl F32 (dot w x))\<rparr>"

lemma fl_accumulates:
  assumes "length w = length x" and "0 < length x"
  shows "accumulates (fl F32 (dot w x)) w x"
proof -
  let ?s = "dot w x" and ?N = "norm2 w * norm2 x" and ?y = "rn F32 (dot w x)"
  have "\<bar>?s\<bar> \<le> ?N" using cauchy_schwarz [of "\<lambda>k. fin (w ! k)" "\<lambda>k. fin (x ! k)" "length x"] assms(1)
    by (simp add: dot_def norm2_def nrm_def order_trans [OF sum_abs])
  then have N: "0 \<le> ?N" "2 powi (-24) * \<bar>?s\<bar> \<le> 2 powi (-24) * ?N" by (auto intro: order_trans [OF abs_ge_zero])
  have l: "1 \<le> real (length x)" using assms(2) by (cases x) simp_all
  have "(2::real) powi (-23) = 2 * 2 powi (-24)" using power_int_add [of "2::real" 1 "-24"] by simp
  then have "c_acc (length x) * ?N = real (length x) * (17 / 8) * (2 powi (-24) * ?N)" by (simp add: c_acc_def)
  moreover have "1 * (2 powi (-24) * ?N) \<le> real (length x) * (17 / 8) * (2 powi (-24) * ?N)"
    using l N(1) by (intro mult_right_mono) auto
  ultimately have "2 powi (-24) * \<bar>?s\<bar> \<le> c_acc (length x) * ?N" using N(2) by linarith
  moreover have "(2::real) powi (-150) \<le> 2 powi (-129)" by (rule power_int_increasing) auto
  moreover have "\<bar>?y - ?s\<bar> \<le> 2 powi (-24) * \<bar>?s\<bar> + 2 powi (-150)" using rn_error [of F32 ?s] by (simp add: F32_def)
  ultimately have e: "\<bar>?y - ?s\<bar> \<le> c_acc (length x) * ?N + 2 powi (-129)" by linarith
  have o: "overflow F32 = 2 powi 128" by (simp add: overflow_def F32_def)
  show ?thesis
  proof (cases "fl F32 ?s")
    case (Fin y)
    then have "y = ?y" "fl F32 y = Fin y" using fl_Fin fl_idem [OF Fin] by (auto simp: F32_def)
    then show ?thesis unfolding Fin accumulates_def Let_def fval.case using e by simp
  next
    case PInf
    then have "2 powi 128 \<le> ?y" by (simp add: fl_def Let_def o split: if_splits)
    then show ?thesis unfolding PInf accumulates_def Let_def fval.case using e unfolding abs_le_iff by linarith
  next
    case NInf
    then have "?y \<le> - (2 powi 128)" by (simp add: fl_def Let_def o split: if_splits)
    then show ?thesis unfolding NInf accumulates_def Let_def fval.case using e unfolding abs_le_iff by linarith
  qed (use fl_num in simp)
qed

lemma rounded_models: "0 < K \<Longrightarrow> models (rounded_codegen G n) K"
  by (simp add: models_def rounded_codegen_def fl_accumulates)

lemma rounded_compiled:
  assumes "0 < G" and "0 < n"
  shows "compiled (rounded_codegen G n) G n"
proof -
  have 1: "leaves (fold Fma xs (Leaf 0)) = rev xs @ [0]" for xs
    by (induction xs rule: rev_induct) simp_all
  have 2: "leaves (fold (\<lambda>i t. Add t (Leaf i)) xs (Leaf 0)) = 0 # xs" for xs
    by (induction xs rule: rev_induct) simp_all
  show ?thesis unfolding compiled_def sums_over_def rounded_codegen_def
    using assms by (auto simp: 1 2)
qed

lemma ones_bf16: "list_all is_bf16 (replicate K (Fin 1))"
proof -
  have "rn BF16 (of_int 1 * 2 powi 0) = of_int 1 * 2 powi 0" by (rule rn_exact) (simp_all add: BF16_def)
  then show ?thesis by (simp add: list_all_length is_bf16_def is_fin_def fl_def Let_def overflow_def BF16_def)
qed

section \<open>Properties\<close>

text \<open>C4: The screen's bounds are certified. Take the tables the builder makes of a shard of bf16 weights and the kernels at the shapes in
  use, with every addition, product, root and cast rounded as the formats round it, in whatever order the sums run and whichever
  multiply-adds are contracted. If the tensor cores accumulate a product of two rows within the documented \<open>c_acc\<close>, then
  on every row that is not bad, every token whose accumulation is finite has a stock logit between the two bf16 bounds of the
  screen. Overflow, underflow and the tables' unsafe rows are included.\<close>

theorem screen_bounds_certified:
  assumes "0 < G" and "0 < NG" and "G + NG \<le> 300" and "NG \<le> 200" and "NG * G \<le> 8000"
    and C: "compiled C G (next_pow2 NG)" and P: "summed P G (NG * G)" and m: "models C (NG * G)"
    and W: "\<And>v. v < length W \<Longrightarrow> length (W ! v) = NG * G \<and> list_all is_bf16 (W ! v)"
    and X: "\<And>r. r < length xs \<Longrightarrow> length (xs ! r) = NG * G"
    and V: "h_V st = length W"
  shows "certified st (head_ops C P G W xs) (length xs)"
proof -
  note f = fits_shape [OF assms(1-5)]
  have enc: "case screen_value C G (xs ! r) (build_row P G (W ! v)) of (lo, hi, nonfin) \<Rightarrow>
      nonfin \<or> (lo = NaN \<or> lo \<le> fcvt (fl BF16) (g_exact C (W ! v) (xs ! r))) \<and> (hi = NaN \<or> hi = PInf \<or> fcvt (fl BF16) (g_exact C (W ! v) (xs ! r)) \<le> hi)"
    if r: "r < length xs" "\<not> row_bad C G (xs ! r)" and v: "v < length W" for r v
  proof -
    let ?T = "build_row P G (W ! v)"
    let ?acc = "g_dot C (xs ! r) (fst (deq_row (v_q ?T) (v_e ?T)))"
    show ?thesis
    proof (cases ?acc)
      case (Fin a)
      have nan: "fcvt (fl BF16) y = NaN" if "y = NaN" for y using that by simp
      from screen_encloses [OF C f X [OF r(1)] r(2) m P W [OF v, THEN conjunct1] W [OF v, THEN conjunct2] Fin] Fin
      show ?thesis unfolding screen_value_def Let_def by (auto intro: bf.cvt_mono nan)
    qed (simp_all add: screen_value_def Let_def is_fin_def)
  qed
  have "o_bad (head_ops C P G W xs) r \<or> list_all (\<lambda>v. case o_screen (head_ops C P G W xs) r v of (lo, hi, nonfin) \<Rightarrow>
      nonfin \<or> (lo = NaN \<or> lo \<le> o_exact (head_ops C P G W xs) r v) \<and> (hi = NaN \<or> hi = PInf \<or> o_exact (head_ops C P G W xs) r v \<le> hi)) [0..<h_V st]"
    if "r < length xs" for r
    using enc [OF that] by (cases "row_bad C G (xs ! r)") (simp_all add: head_ops_def list_all_iff V)
  then show ?thesis by (simp add: certified_def list_all_iff)
qed

theorem screen_bounds_certified_witness:
  "certified \<lparr>h_V = 1, h_vstart = 0, h_lm = \<lparr>l_id = 0, l_weight = 0\<rparr>\<rparr>
     (head_ops (rounded_codegen 128 64) \<lparr>p_log2 = log 2, p_group_tree = fold Fma [1..<128] (Leaf 0), p_row_tree = fold Fma [1..<5120] (Leaf 0)\<rparr>
        128 [replicate 5120 (Fin 1)] [replicate 5120 (Fin 1)]) 1"
proof -
  have n: "next_pow2 40 = 64" by (simp add: next_pow2_def pow2_loop.simps)
  have 1: "leaves (fold Fma xs (Leaf 0)) = rev xs @ [0]" for xs
    by (induction xs rule: rev_induct) simp_all
  have s: "sums_over (fold Fma [1..<K] (Leaf 0)) K" if "0 < K" for K using that by (auto simp: sums_over_def 1)
  show ?thesis
    by (rule screen_bounds_certified [where NG = 40 and xs = "[replicate 5120 (Fin 1)]" and W = "[replicate 5120 (Fin 1)]", unfolded length_Cons list.size(3) One_nat_def [symmetric] n add_0])
      (use rounded_compiled [of 128 64] rounded_models [of 5120] s ones_bf16 in \<open>simp_all add: summed_def\<close>)
qed

end
