(* ===== verification/Moe_Next.thy ===== *)
theory Moe_Next
  imports Py_Prelude
begin

text \<open>
  The routed mixture of experts on the b12x package (\<open>adapter/moe_b12x_next.py\<close>): its settings and plan table, the remap of
  expert ids over the expert-parallel ranks, the capacities and execution plans of a geometry with their shared scratch
  arena, the chunked forward, the conversion of layers and the dispatch with the check of pre-quantized rows.

  The package is an argument: \<open>plan_limit\<close> and \<open>plan_specs\<close> give the launch limit and the scratch sizes of a prepared
  plan, \<open>launch\<close> runs one launch, \<open>bind_ptrs\<close> the addresses of a plan's input storage. Row counts and capacities are
  Python integers. Timing, memory statistics, warm-up runs and log lines are left out.
\<close>

section \<open>Settings\<close>

definition moe_env :: "environ \<Rightarrow> string \<Rightarrow> string \<Rightarrow> string" where
  "moe_env env name dflt = py_strip (env_get env name dflt)"

definition to_int :: "string \<Rightarrow> int res" where
  "to_int s = (case py_int s of Some n \<Rightarrow> Inr n | None \<Rightarrow> Inl ValueError)"

fun map_res :: "('a \<Rightarrow> 'b res) \<Rightarrow> 'a list \<Rightarrow> 'b list res" where
  "map_res f [] = Inr []"
| "map_res f (x # xs) = bind_res (f x) (\<lambda>y. bind_res (map_res f xs) (\<lambda>ys. Inr (y # ys)))"

definition no_spaces :: "string \<Rightarrow> string" where
  "no_spaces s = filter (\<lambda>c. c \<noteq> CHR '' '') s"

definition ints :: "string \<Rightarrow> int list res" where
  "ints s = map_res to_int (filter (\<lambda>v. v \<noteq> []) (split_char (CHR '','') (no_spaces s)))"

definition flag_on :: "environ \<Rightarrow> string \<Rightarrow> string \<Rightarrow> bool" where
  "flag_on env name dflt = (moe_env env name dflt \<notin> {''0'', ''off'', ''false'', []})"

text \<open>\<open>a, b = s.split(sep)\<close>: exactly one separator.\<close>

definition split_two :: "string \<Rightarrow> string \<Rightarrow> (string \<times> string) res" where
  "split_two sep s = (case split_once sep s of Some (a, b) \<Rightarrow> if contains_str sep b then Inl ValueError else Inr (a, b) | None \<Rightarrow> Inl ValueError)"

type_synonym pinned = "string \<times> int option \<times> int"
type_synonym table_row = "int \<times> int \<times> int option \<times> pinned option"

definition parse_range :: "string \<Rightarrow> (int \<times> int \<times> int option) res" where
  "parse_range rng =
     bind_res (if contains_str ''@k'' rng
               then bind_res (split_two ''@k'' rng) (\<lambda>(r, k). bind_res (to_int k) (\<lambda>n. Inr (r, Some n)))
               else Inr (rng, None))
       (\<lambda>(r, topk).
          if contains_str ''-'' r
          then bind_res (split_two ''-'' r) (\<lambda>(a, b). bind_res (to_int a) (\<lambda>lo. bind_res (to_int b) (\<lambda>hi. Inr (lo, hi, topk))))
          else bind_res (to_int r) (\<lambda>n. Inr (n, n, topk)))"

definition parse_spec :: "bool \<Rightarrow> string \<Rightarrow> pinned option res" where
  "parse_spec det spec =
     (if spec = ''heur'' then Inr None
      else case split_char (CHR '':'') spec of
        [planner, mac, tile] \<Rightarrow>
          if planner \<noteq> ''internal'' \<and> planner \<noteq> ''triton'' then Inl ValueError
          else bind_res (if mac = ''none'' then Inr None else bind_res (to_int mac) (\<lambda>n. Inr (Some n)))
            (\<lambda>m. bind_res (to_int tile) (\<lambda>t. Inr (Some (if det \<and> planner = ''triton'' then ''internal'' else planner, m, t))))
      | _ \<Rightarrow> Inl ValueError)"

definition parse_item :: "bool \<Rightarrow> string \<Rightarrow> table_row res" where
  "parse_item det item =
     (case bind_res (split_two ''='' item) (\<lambda>(rng, spec).
             bind_res (parse_range rng) (\<lambda>(lo, hi, topk). bind_res (parse_spec det spec) (\<lambda>plan. Inr (lo, hi, topk, plan)))) of
        Inl e \<Rightarrow> Inl (if e = ValueError then RuntimeError else e)
      | Inr (lo, hi, topk, plan) \<Rightarrow> if lo < 1 \<or> hi < lo then Inl RuntimeError else Inr (lo, hi, topk, plan))"

definition parse_plan_table :: "string \<Rightarrow> bool \<Rightarrow> table_row list res" where
  "parse_plan_table s det = map_res (parse_item det) (filter (\<lambda>i. i \<noteq> []) (split_char (CHR '','') (no_spaces s)))"

fun table_plan :: "table_row list \<Rightarrow> int \<Rightarrow> int \<Rightarrow> pinned option" where
  "table_plan [] cap topk = None"
| "table_plan ((lo, hi, k, plan) # rows) cap topk =
     (if lo \<le> cap \<and> cap \<le> hi \<and> (k = None \<or> k = Some topk) then plan else table_plan rows cap topk)"

record moe_cfg =
  c_graph_bs :: "int list"
  c_max_bs :: int
  c_block :: int
  c_ladder :: "int list"
  c_exact_max :: int
  c_m64_min :: int
  c_tune :: bool
  c_det :: bool
  c_direct :: bool
  c_tune_rows :: "int \<rightharpoonup> int"
  c_table :: "table_row list"

definition or_default :: "string \<Rightarrow> string \<Rightarrow> string" where
  "or_default s d = (if s = [] then d else s)"

definition max_of :: "int list \<Rightarrow> int res" where
  "max_of xs = (if xs = [] then Inl ValueError else Inr (Max (set xs)))"

definition tune_row :: "string \<Rightarrow> (int \<times> int) res" where
  "tune_row p = bind_res (split_two '':'' p) (\<lambda>(k, v). bind_res (to_int k) (\<lambda>k. bind_res (to_int v) (\<lambda>v. Inr (k, v))))"

text \<open>The spec of the pinned small plan is read even when the plan table replaces it.\<close>

definition small_ok :: "string \<Rightarrow> unit res" where
  "small_ok spec =
     (case split_char (CHR '':'') spec of
        planner # mac # rest \<Rightarrow>
          bind_res (if mac = ''none'' then Inr 0 else to_int mac) (\<lambda>_.
            case rest of tile # _ \<Rightarrow> bind_res (to_int tile) (\<lambda>_. Inr ()) | [] \<Rightarrow> Inl IndexError)
      | _ \<Rightarrow> Inl IndexError)"

text \<open>The module's start: the settings, in the order they are read.\<close>

definition load_cfg :: "environ \<Rightarrow> moe_cfg res" where
  "load_cfg env =
     bind_res (ints (moe_env env ''DSV41_MOE_B12X_NEXT_GRAPH_BS'' ''1,2,3,4,5,6,7,8,10,12,14,16'')) (\<lambda>bs0.
     bind_res (to_int (or_default (moe_env env ''CUDA_GRAPH_MAX_BS_DECODE'' ''16'') ''16'')) (\<lambda>max_bs.
     let bs = (let fits = filter (\<lambda>b. b \<le> max_bs) bs0 in if fits = [] then [1] else fits) in
     bind_res (to_int (or_default (moe_env env ''DSPARK_BLOCK_SIZE'' ''5'') ''5'')) (\<lambda>block.
     bind_res (ints (moe_env env ''DSV41_MOE_B12X_NEXT_LADDER'' ''128,256,512,1024,2048,4096'')) (\<lambda>ladder0.
     bind_res (to_int (or_default (moe_env env ''DSV41_MOE_B12X_NEXT_M64_MIN_CAP'' ''2048'') ''0'')) (\<lambda>m64.
     let small = moe_env env ''DSV41_MOE_B12X_NEXT_SMALL_PLAN'' ''triton:48:16'';
         det = flag_on env ''DSV41_MOE_B12X_NEXT_DETERMINISTIC'' ''0'';
         det_triton = flag_on env ''DSV41_MOE_B12X_NEXT_DET_TRITON'' ''1'' in
     bind_res (small_ok small) (\<lambda>_.
     bind_res (parse_plan_table (moe_env env ''DSV41_MOE_B12X_NEXT_PLAN_TABLE'' (''1-8='' @ small)) (det \<and> \<not> det_triton)) (\<lambda>table.
     bind_res (to_int (or_default (moe_env env ''CHUNKED_PREFILL_SIZE'' ''0'') ''0'')) (\<lambda>chunk_env.
     bind_res (max_of ladder0) (\<lambda>top.
     let ladder = (if top < chunk_env then ladder0 @ [chunk_env] else ladder0) in
     bind_res (map_res tune_row (filter (\<lambda>p. p \<noteq> []) (split_char (CHR '','') (moe_env env ''DSV41_MOE_B12X_NEXT_TUNE_ROWS'' ''6:6,3:5'')))) (\<lambda>rows.
     Inr \<lparr>c_graph_bs = bs, c_max_bs = max_bs, c_block = block, c_ladder = ladder,
          c_exact_max = max 96 ((block + 1) * Max (set bs)), c_m64_min = m64,
          c_tune = flag_on env ''DSV41_MOE_B12X_NEXT_TUNE'' ''1'', c_det = det,
          c_direct = flag_on env ''DSV41_MOE_B12X_NEXT_DIRECT_IDS'' ''1'',
          c_tune_rows = map_of (rev rows), c_table = table\<rparr>))))))))))"

text \<open>A runtime that refuses the Triton route planner under determinism gets the table with the internal planner.\<close>

definition admit_table :: "environ \<Rightarrow> bool \<Rightarrow> moe_cfg \<Rightarrow> moe_cfg res" where
  "admit_table env supported c =
     (if c_det c \<and> flag_on env ''DSV41_MOE_B12X_NEXT_DET_TRITON'' ''1'' \<and> \<not> supported
      then bind_res (parse_plan_table (moe_env env ''DSV41_MOE_B12X_NEXT_PLAN_TABLE''
               (''1-8='' @ moe_env env ''DSV41_MOE_B12X_NEXT_SMALL_PLAN'' ''triton:48:16'')) True) (\<lambda>t. Inr (c\<lparr>c_table := t\<rparr>))
      else Inr c)"

definition uncovered_rows :: "moe_cfg \<Rightarrow> int list" where
  "uncovered_rows c =
     (let top = Max (set (c_graph_bs c));
          exact = [r * b. r \<leftarrow> [c_block c, c_block c + 1], b \<leftarrow> c_graph_bs c, r * b \<le> c_exact_max c];
          rows = [r * b. r \<leftarrow> [c_block c, c_block c + 1], b \<leftarrow> [top + 1..c_max_bs c]]
      in if c_max_bs c \<le> top then [] else sort (remdups (filter (\<lambda>x. x \<notin> set exact) rows)))"

section \<open>Expert ids over the expert-parallel ranks\<close>

definition big :: int where "big = 2147483647"

text \<open>Two's complement at the width of the code: the kernel works on 32-bit ids, the reference on 64-bit ones.\<close>

definition wrap :: "nat \<Rightarrow> int \<Rightarrow> int" where
  "wrap w x = (x + 2 ^ (w - 1)) mod 2 ^ w - 2 ^ (w - 1)"

text \<open>\<open>id.to(tl.int32) - OFFSET\<close>: an offset that fits 32 bits is passed as a 32-bit argument, so the difference wraps there; a larger
  one is passed in 64 bits, where the difference with a 32-bit id does not wrap.\<close>

definition kernel_lid :: "int \<Rightarrow> int \<Rightarrow> int" where
  "kernel_lid offset i = (if - (2 ^ 31) \<le> offset \<and> offset < 2 ^ 31 then wrap 32 (wrap 32 i - offset) else wrap 32 i - offset)"

definition ref_lid :: "int \<Rightarrow> int \<Rightarrow> int" where
  "ref_lid offset i = wrap 64 (wrap 64 i - offset)"

definition is_local :: "int \<Rightarrow> int \<Rightarrow> bool" where
  "is_local num_local l = (0 \<le> l \<and> l < num_local)"

definition masked_id :: "int \<Rightarrow> int \<Rightarrow> int" where
  "masked_id num_local l = (if is_local num_local l then l else big)"

definition min_or_big :: "int list \<Rightarrow> int" where
  "min_or_big xs = foldr min xs big"

text \<open>One row of local ids, stored into a 32-bit buffer.\<close>

definition remap_row :: "int \<Rightarrow> int \<Rightarrow> int list \<Rightarrow> 'w::zero list \<Rightarrow> int list \<times> 'w list" where
  "remap_row num_local fb ls ws =
     (let row_min = min_or_big (map (masked_id num_local) ls);
          fill = (if row_min < num_local then row_min else fb)
      in (map (\<lambda>l. wrap 32 (if is_local num_local l then l else fill)) ls,
          map2 (\<lambda>l w. if is_local num_local l then w else 0) ls ws))"

text \<open>The kernel: a pass over blocks of \<open>br\<close> rows finds the lowest local expert of the batch, a second pass writes.\<close>

definition row_blocks :: "nat \<Rightarrow> 'a list \<Rightarrow> 'a list list" where
  "row_blocks br xs = map (\<lambda>b. slice (b * br) (b * br + br) xs) [0..<(length xs + br - 1) div br]"

definition block_min :: "int \<Rightarrow> int list list \<Rightarrow> int" where
  "block_min num_local rows = min_or_big (map (\<lambda>row. min_or_big (map (masked_id num_local) row)) rows)"

definition remap_kernel :: "nat \<Rightarrow> int \<Rightarrow> int \<Rightarrow> int list list \<Rightarrow> 'w::zero list list \<Rightarrow> (int list \<times> 'w list) list" where
  "remap_kernel br offset num_local ids ws =
     (let lids = map (map (kernel_lid offset)) ids;
          best = foldl (\<lambda>best blk. min best (block_min num_local blk)) big (row_blocks br lids);
          fb = (if best < num_local then best else 0)
      in concat (map2 (map2 (remap_row num_local fb)) (row_blocks br lids) (row_blocks br ws)))"

text \<open>\<open>ep_remap\<close> on an id and a weight buffer of \<open>n_ids\<close> and \<open>n_w\<close> rows.\<close>

definition ep_remap :: "nat \<Rightarrow> nat \<Rightarrow> int \<Rightarrow> int \<Rightarrow> int list list \<Rightarrow> 'w::zero list list \<Rightarrow> (int list \<times> 'w list) list res" where
  "ep_remap n_ids n_w offset num_local ids ws =
     (if ids = [] then Inr []
      else if map length ws \<noteq> map length ids \<or> n_ids < length ids \<or> n_w < length ids then Inl RuntimeError
      else Inr (remap_kernel 32 offset num_local ids ws))"

definition ep_remap_reference :: "int \<Rightarrow> int \<Rightarrow> int list list \<Rightarrow> 'w::zero list list \<Rightarrow> (int list \<times> 'w list) list" where
  "ep_remap_reference offset num_local ids ws =
     (let lids = map (map (ref_lid offset)) ids;
          best = min_or_big (map (masked_id num_local) (concat lids));
          fb = (if best < num_local then best else 0)
      in map2 (remap_row num_local fb) lids ws)"

section \<open>The plans of a geometry\<close>

datatype override = Override string "int option" int

record plan_entry =
  e_override :: "override option"
  e_tuned :: bool
  e_limit :: int
  e_specs :: "nat list"
  e_views :: "(nat \<times> nat) list"

record geometry =
  g_E :: int
  g_K :: int
  g_N :: int
  g_topk :: int
  g_offset :: int
  g_direct :: bool
  g_plans :: "(int \<times> plan_entry) list"
  g_caps :: "int list"
  g_chunk :: int
  g_exact_max :: int
  g_table :: "int option list"
  g_arena :: nat
  g_ready :: bool
  g_pq :: "int \<rightharpoonup> (nat \<times> nat) option"

definition new_geometry :: "moe_cfg \<Rightarrow> int \<Rightarrow> int \<Rightarrow> int \<Rightarrow> int \<Rightarrow> int \<Rightarrow> int \<Rightarrow> geometry" where
  "new_geometry c E K N topk ep_rank ep_size =
     \<lparr>g_E = E, g_K = K, g_N = N, g_topk = topk, g_offset = ep_rank * E, g_direct = (c_direct c \<and> ep_size = 1 \<and> \<not> c_det c),
      g_plans = [], g_caps = [], g_chunk = 0, g_exact_max = c_exact_max c, g_table = [], g_arena = 0, g_ready = False, g_pq = Map.empty\<rparr>"

definition capacities :: "moe_cfg \<Rightarrow> int list res" where
  "capacities c =
     (let rows = sort (remdups [r * b. r \<leftarrow> [c_block c, c_block c + 1], b \<leftarrow> c_graph_bs c]);
          exact = filter (\<lambda>m. m \<le> c_exact_max c) rows
      in bind_res (max_of exact) (\<lambda>top. Inr (sort (remdups (exact @ filter (\<lambda>x. top < x) (c_ladder c))))))"

definition tuned_caps :: "moe_cfg \<Rightarrow> int \<Rightarrow> int list" where
  "tuned_caps c topk =
     (if \<not> c_tune c \<or> c_det c then []
      else case c_tune_rows c topk of None \<Rightarrow> [] | Some r \<Rightarrow> map (\<lambda>b. r * b) (c_graph_bs c))"

definition plan_override :: "moe_cfg \<Rightarrow> bool \<Rightarrow> int \<Rightarrow> int \<Rightarrow> int \<Rightarrow> override option" where
  "plan_override c m64_ok N topk cap =
     (case (if N mod 128 = 64 then table_plan (c_table c) cap topk else None) of
        Some (planner, mac, tile) \<Rightarrow> Some (Override planner mac tile)
      | None \<Rightarrow>
          if c_m64_min c \<noteq> 0 \<and> c_m64_min c \<le> cap \<and> c_exact_max c < cap \<and> N mod 128 = 64 \<and> m64_ok
          then Some (Override ''internal'' None 64) else None)"

text \<open>\<open>plan_limit cap ov\<close>: \<open>max_tokens_per_launch\<close> of the prepared plan, if it has the attribute.\<close>

definition prepare_plan :: "moe_cfg \<Rightarrow> bool \<Rightarrow> (int \<Rightarrow> override option \<Rightarrow> int option) \<Rightarrow> (int \<Rightarrow> override option \<Rightarrow> nat list) \<Rightarrow> geometry \<Rightarrow> int \<Rightarrow> plan_entry" where
  "prepare_plan c m64_ok plan_limit plan_specs g cap =
     (let ov = plan_override c m64_ok (g_N g) (g_topk g) cap
      in \<lparr>e_override = ov, e_tuned = (cap \<in> set (tuned_caps c (g_topk g)) \<and> ov = None),
          e_limit = (case plan_limit cap ov of Some l \<Rightarrow> if l = 0 then cap else l | None \<Rightarrow> cap),
          e_specs = plan_specs cap ov, e_views = []\<rparr>)"

definition select_chunk :: "(int \<times> int) list \<Rightarrow> (int \<times> int list \<times> int list) res" where
  "select_chunk limits =
     (let kept = sort (map fst (filter (\<lambda>(c, l). c \<le> l) limits))
      in if kept = [] then Inl RuntimeError
         else Inr (last kept, kept, sort (filter (\<lambda>c. c \<notin> set kept) (map fst limits))))"

definition bisect_left :: "int list \<Rightarrow> int \<Rightarrow> nat" where
  "bisect_left xs m = length (takeWhile (\<lambda>x. x < m) xs)"

definition lookup_cap :: "int list \<Rightarrow> int \<Rightarrow> int" where
  "lookup_cap caps m = (let i = bisect_left caps m in if i < length caps then caps ! i else last caps)"

definition cap_for :: "geometry \<Rightarrow> nat \<Rightarrow> int option" where
  "cap_for g m = (if int m \<le> g_exact_max g then g_table g ! m else Some (lookup_cap (g_caps g) (int m)))"

definition align256 :: "nat \<Rightarrow> nat" where
  "align256 n = (n + 256 - 1) div 256 * 256"

fun carve :: "nat \<Rightarrow> nat list \<Rightarrow> (nat \<times> nat) list" where
  "carve off [] = []"
| "carve off (nb # specs) = (off, nb) # carve (off + align256 nb) specs"

definition arena_bytes :: "nat list \<Rightarrow> nat" where
  "arena_bytes specs = sum_list (map align256 specs)"

definition build :: "moe_cfg \<Rightarrow> bool \<Rightarrow> (int \<Rightarrow> override option \<Rightarrow> int option) \<Rightarrow> (int \<Rightarrow> override option \<Rightarrow> nat list) \<Rightarrow> geometry \<Rightarrow> geometry res" where
  "build c m64_ok plan_limit plan_specs g =
     bind_res (capacities c) (\<lambda>all_caps.
       let plans = map (\<lambda>cap. (cap, prepare_plan c m64_ok plan_limit plan_specs g cap)) all_caps in
       bind_res (select_chunk (map (\<lambda>(cap, e). (cap, e_limit e)) plans)) (\<lambda>(chunk, caps, dropped).
         let kept = filter (\<lambda>(cap, e). cap \<notin> set dropped) plans;
             need = Max (set (map (\<lambda>(cap, e). arena_bytes (e_specs e)) kept))
         in Inr (g\<lparr>g_plans := map (\<lambda>(cap, e). (cap, e\<lparr>e_views := carve 0 (e_specs e)\<rparr>)) kept,
                  g_caps := caps, g_chunk := chunk, g_exact_max := c_exact_max c,
                  g_table := None # map (\<lambda>m. Some (lookup_cap caps m)) [1..c_exact_max c],
                  g_arena := max need 256, g_ready := True\<rparr>)))"

section \<open>Forward\<close>

text \<open>The router's output of a batch: ids and weights per row, and whether they are int32, fp32 and contiguous.\<close>

record 'w routing =
  r_ids :: "int list list"
  r_w :: "'w list list"
  r_plain :: bool

text \<open>One launch: \<open>launch cap rows\<close> on triples of a hidden row, its ids and its weights. More rows than the plan's capacity raise.\<close>

definition run_plan :: "(int \<Rightarrow> ('x \<times> int list \<times> 'w list) list \<Rightarrow> 'y list) \<Rightarrow> geometry \<Rightarrow> int option \<Rightarrow> 'x list \<Rightarrow> (int list \<times> 'w list) list \<Rightarrow> 'y list res" where
  "run_plan launch g cap_opt xs routes =
     (case cap_opt of
        None \<Rightarrow> Inl TypeError
      | Some cap \<Rightarrow>
          if cap < int (length xs) then Inl RuntimeError
          else (case map_of (g_plans g) cap of
                  None \<Rightarrow> Inl KeyError
                | Some e \<Rightarrow> Inr (launch cap (zip xs routes))))"

definition route_piece :: "geometry \<Rightarrow> 'w::zero routing \<Rightarrow> nat \<Rightarrow> nat \<Rightarrow> (int list \<times> 'w list) list res" where
  "route_piece g r s e =
     (if g_direct g \<and> r_plain r then Inr (zip (slice s e (r_ids r)) (slice s e (r_w r)))
      else ep_remap (nat (g_chunk g)) (nat (g_chunk g)) (g_offset g) (g_E g) (slice s e (r_ids r)) (slice s e (r_w r)))"

definition forward_piece :: "(int \<Rightarrow> ('x \<times> int list \<times> 'w::zero list) list \<Rightarrow> 'y list) \<Rightarrow> geometry \<Rightarrow> 'w routing \<Rightarrow> 'x list \<Rightarrow> nat \<Rightarrow> nat \<Rightarrow> 'y list res" where
  "forward_piece launch g r x s e =
     bind_res (route_piece g r s e) (\<lambda>routes. run_plan launch g (cap_for g (e - s)) (slice s e x) routes)"

text \<open>The loop over chunks, writing rows \<open>s\<close> to \<open>e\<close> of the output; that it ends is a theorem.\<close>

partial_function (option) forward_loop ::
  "(int \<Rightarrow> ('x \<times> int list \<times> 'w::zero list) list \<Rightarrow> 'y list) \<Rightarrow> geometry \<Rightarrow> 'w routing \<Rightarrow> 'x list \<Rightarrow> nat \<Rightarrow> 'y list \<Rightarrow> 'y list res option" where
  "forward_loop launch g r x s out =
     (if s < length x
      then let e = nat (min (int (length x)) (int s + g_chunk g))
           in case forward_piece launch g r x s e of
                Inl err \<Rightarrow> Some (Inl err)
              | Inr rows \<Rightarrow> forward_loop launch g r x e (take s out @ rows @ drop e out)
      else Some (Inr out))"

definition moe_forward :: "(int \<Rightarrow> ('x \<times> int list \<times> 'w::zero list) list \<Rightarrow> 'y list) \<Rightarrow> geometry \<Rightarrow> 'w routing \<Rightarrow> 'x list \<Rightarrow> 'y list \<Rightarrow> 'y list res option" where
  "moe_forward launch g r x out = forward_loop launch g r x 0 out"

section \<open>Pre-quantized rows\<close>

text \<open>The addresses of the input storage of the plan that runs \<open>m\<close> rows; \<open>bind_views\<close> binds a plan once, \<open>None\<close> when its
  storage is not token-major.\<close>

definition prequant_views :: "bool \<Rightarrow> (int \<Rightarrow> (nat \<times> nat) option) \<Rightarrow> geometry \<Rightarrow> nat \<Rightarrow> geometry \<times> (nat \<times> nat) option" where
  "prequant_views patched bind_views g m =
     (if \<not> patched \<or> \<not> g_ready g \<or> \<not> (1 \<le> m \<and> int m \<le> g_chunk g) then (g, None)
      else case cap_for g m of
        None \<Rightarrow> (g, None)
      | Some cap \<Rightarrow>
          (case g_pq g cap of
             Some v \<Rightarrow> (g, v)
           | None \<Rightarrow> (g\<lparr>g_pq := (g_pq g)(cap \<mapsto> bind_views cap)\<rparr>, bind_views cap)))"

definition prequant_caps :: "geometry \<Rightarrow> nat \<Rightarrow> int list" where
  "prequant_caps g min_rows =
     (if \<not> g_ready g \<or> g_chunk g < int min_rows then []
      else sort (remdups ((case cap_for g min_rows of Some c \<Rightarrow> [c] | None \<Rightarrow> []) @ filter (\<lambda>c. int min_rows \<le> c) (g_caps g))))"

definition forward_prequant :: "bool \<Rightarrow> (int \<Rightarrow> (unit \<times> int list \<times> 'w::zero list) list \<Rightarrow> 'y list) \<Rightarrow> geometry \<Rightarrow> 'w routing \<Rightarrow> nat \<Rightarrow> 'y list res" where
  "forward_prequant patched launch_pq g r m =
     (if \<not> patched \<or> \<not> (1 \<le> m \<and> int m \<le> g_chunk g) then Inl RuntimeError
      else bind_res (route_piece g r 0 m) (\<lambda>routes. run_plan launch_pq g (cap_for g m) (replicate m ()) routes))"

section \<open>Layers and dispatch\<close>

type_synonym gkey = "int \<times> int \<times> int \<times> int \<times> int \<times> int \<times> string option \<times> int"

record layer_info =
  i_w13 :: "int \<times> int \<times> int"
  i_w2 :: "int \<times> int \<times> int"
  i_s13 :: "int \<times> int \<times> int"
  i_s2 :: "int \<times> int \<times> int"
  i_e8m0 :: bool
  i_shared :: int
  i_contiguous :: bool
  i_limit :: "string option"
  i_clamp :: bool
  i_topk :: int
  i_ep_rank :: int
  i_ep_size :: int
  i_dev :: int
  i_ptr :: nat
  i_in_place :: bool

record moe_state =
  m_geoms :: "gkey \<rightharpoonup> geometry"
  m_layers :: "nat \<rightharpoonup> gkey \<times> int"

definition moe_init :: moe_state where
  "moe_init = \<lparr>m_geoms = Map.empty, m_layers = Map.empty\<rparr>"

definition layer_key :: "layer_info \<Rightarrow> gkey" where
  "layer_key i = (case i_w13 i of (E, two_n, k_half) \<Rightarrow>
     (E, k_half * 2, two_n div 2, i_topk i, i_ep_rank i, i_ep_size i, i_limit i, i_dev i))"

definition layer_shapes_ok :: "layer_info \<Rightarrow> bool" where
  "layer_shapes_ok i = (case i_w13 i of (E, two_n, k_half) \<Rightarrow>
     let n = two_n div 2; k = k_half * 2
     in i_w2 i = (E, k, n div 2) \<and> i_s13 i = (E, two_n, k div 32) \<and> i_s2 i = (E, k, n div 32))"

text \<open>\<open>i_in_place\<close>: the prepared representation is readable and lies in the checkpoint storage. A new geometry is
  registered before the weights are prepared and built after.\<close>

definition convert_layer ::
  "moe_cfg \<Rightarrow> bool \<Rightarrow> (int \<Rightarrow> override option \<Rightarrow> int option) \<Rightarrow> (int \<Rightarrow> override option \<Rightarrow> nat list) \<Rightarrow> layer_info \<Rightarrow> moe_state \<Rightarrow> moe_state \<times> unit res" where
  "convert_layer c m64_ok plan_limit plan_specs i S =
     (if \<not> i_e8m0 i \<or> \<not> layer_shapes_ok i \<or> i_shared i \<noteq> 0 \<or> \<not> i_contiguous i \<or> i_clamp i then (S, Inl RuntimeError)
      else case layer_key i of (E, k, n, topk, ep_rank, ep_size, limit, dev) \<Rightarrow>
        let key = (E, k, n, topk, ep_rank, ep_size, limit, dev);
            fresh = (m_geoms S key = None);
            g = (case m_geoms S key of Some g \<Rightarrow> g | None \<Rightarrow> new_geometry c E k n topk ep_rank ep_size);
            S1 = S\<lparr>m_geoms := (m_geoms S)(key \<mapsto> g)\<rparr>
        in if \<not> i_in_place i then (S1, Inl RuntimeError)
           else case (if fresh then build c m64_ok plan_limit plan_specs g else Inr g) of
             Inl e \<Rightarrow> (S1, Inl e)
           | Inr g' \<Rightarrow> (S1\<lparr>m_geoms := (m_geoms S1)(key \<mapsto> g'), m_layers := (m_layers S1)(i_ptr i \<mapsto> (key, k))\<rparr>, Inr ()))"

text \<open>A dispatch: the layer's weight address, the padded hidden size if given, hidden rows, routing, and the marker of
  pre-quantized rows: geometry, row count and the two addresses.\<close>

record ('x, 'w) dispatch =
  d_ptr :: nat
  d_padded :: "int option"
  d_x :: "'x list"
  d_routing :: "'w routing"
  d_rows :: "(gkey \<times> nat \<times> nat \<times> nat) option"

definition prequant_target :: "bool \<Rightarrow> (gkey \<Rightarrow> int \<Rightarrow> (nat \<times> nat) option) \<Rightarrow> nat \<Rightarrow> nat \<Rightarrow> moe_state \<Rightarrow> moe_state \<times> (gkey \<times> nat \<times> nat \<times> nat) option" where
  "prequant_target patched bind_views ptr m S =
     (case m_layers S ptr of
        None \<Rightarrow> (S, None)
      | Some (key, hidden) \<Rightarrow>
          (case m_geoms S key of
             None \<Rightarrow> (S, None)
           | Some g \<Rightarrow>
               let (g', v) = prequant_views patched (bind_views key) g m
               in (S\<lparr>m_geoms := (m_geoms S)(key \<mapsto> g')\<rparr>, case v of None \<Rightarrow> None | Some (q, sf) \<Rightarrow> Some (key, m, q, sf))))"

definition fused_b12x_next ::
  "bool \<Rightarrow> (gkey \<Rightarrow> int \<Rightarrow> (nat \<times> nat) option) \<Rightarrow> (nat \<Rightarrow> int \<Rightarrow> ('x \<times> int list \<times> 'w::zero list) list \<Rightarrow> 'y list) \<Rightarrow> (nat \<Rightarrow> int \<Rightarrow> (unit \<times> int list \<times> 'w list) list \<Rightarrow> 'y list) \<Rightarrow>
   ('x, 'w) dispatch \<Rightarrow> 'y list \<Rightarrow> moe_state \<Rightarrow> moe_state \<times> 'y list res option" where
  "fused_b12x_next patched bind_views launch launch_pq d out S =
     (case m_layers S (d_ptr d) of
        None \<Rightarrow> (S, Some (Inl RuntimeError))
      | Some (key, hidden) \<Rightarrow>
          if d_padded d \<noteq> None \<and> d_padded d \<noteq> Some hidden then (S, Some (Inl RuntimeError))
          else (case m_geoms S key of
             None \<Rightarrow> (S, Some (Inl KeyError))
           | Some g \<Rightarrow>
               (case d_rows d of
                  Some (key', m', q, sf) \<Rightarrow>
                    let (g', v) = prequant_views patched (bind_views key) g (length (d_x d));
                        S' = S\<lparr>m_geoms := (m_geoms S)(key \<mapsto> g')\<rparr>
                    in if v \<noteq> Some (q, sf) \<or> key' \<noteq> key \<or> m' \<noteq> length (d_x d) then (S', Some (Inl RuntimeError))
                       else (S', Some (forward_prequant patched (launch_pq (d_ptr d)) g' (d_routing d) (length (d_x d))))
                | None \<Rightarrow>
                    if d_x d = [] then (S, Some (Inr out))
                    else (S, moe_forward (launch (d_ptr d)) g (d_routing d) (d_x d) out))))"

inductive moe_reach :: "moe_cfg \<Rightarrow> moe_state \<Rightarrow> bool" for c where
  mr_init: "moe_reach c moe_init"
| mr_convert: "moe_reach c S \<Longrightarrow> convert_layer c m64_ok plan_limit plan_specs i S = (S', Inr ()) \<Longrightarrow> moe_reach c S'"
| mr_target: "moe_reach c S \<Longrightarrow> prequant_target patched bind_views ptr m S = (S', out) \<Longrightarrow> moe_reach c S'"

section \<open>The remap kernel is the reference\<close>

lemma min_or_big_Nil [simp]: "min_or_big [] = big"
  by (simp add: min_or_big_def)

lemma min_or_big_Cons [simp]: "min_or_big (x # xs) = min x (min_or_big xs)"
  by (simp add: min_or_big_def)

lemma min_or_big_le: "min_or_big xs \<le> big"
  by (induction xs) auto

lemma min_or_big_append: "min_or_big (xs @ ys) = min (min_or_big xs) (min_or_big ys)"
  by (induction xs) (simp_all add: min.absorb2 min_or_big_le min.assoc)

lemma min_or_big_concat: "min_or_big (map min_or_big xss) = min_or_big (concat xss)"
  by (induction xss) (auto simp: min_or_big_append)

lemma block_min_concat: "block_min n rows = min_or_big (map (masked_id n) (concat rows))"
  unfolding block_min_def using min_or_big_concat [of "map (map (masked_id n)) rows"] by (simp add: map_concat comp_def)

lemma concat_row_blocks:
  assumes "0 < br"
  shows "concat (row_blocks br xs) = xs"
proof -
  let ?k = "(length xs + br - 1) div br"
  have "concat (row_blocks br xs) = slice 0 (?k * br) xs"
    using concat_even_slices [of 0 br xs ?k] by (simp add: row_blocks_def add.commute)
  also have "\<dots> = xs"
    using ceil_to_ge [OF assms, of "length xs"] by (intro slice_all) (simp add: ceil_to_def)
  finally show ?thesis .
qed

lemma foldl_block_min:
  "a \<le> big \<Longrightarrow> foldl (\<lambda>best blk. min best (block_min n blk)) a blks = min a (min_or_big (map (masked_id n) (concat (concat blks))))"
proof (induction blks arbitrary: a)
  case (Cons b bs)
  have "min a (block_min n b) \<le> big" using Cons.prems by simp
  from Cons.IH [OF this] show ?case by (simp add: block_min_concat min_or_big_append min.assoc)
qed simp

lemma map2_row_blocks:
  assumes "0 < br" and "length xs = length ys"
  shows "concat (map2 (map2 f) (row_blocks br xs) (row_blocks br ys)) = map2 f xs ys"
proof -
  have "map2 (map2 f) (row_blocks br xs) (row_blocks br ys) = row_blocks br (map2 f xs ys)"
    using assms(2) by (intro nth_equalityI) (auto simp: row_blocks_def slice_def take_map drop_map take_zip drop_zip)
  then show ?thesis using concat_row_blocks [OF assms(1)] by simp
qed

text \<open>Both remaps over the differences, without blocks and without wrap-around.\<close>

definition remap_rows :: "int \<Rightarrow> int list list \<Rightarrow> 'w::zero list list \<Rightarrow> (int list \<times> 'w list) list" where
  "remap_rows n lids ws =
     (let best = min_or_big (map (masked_id n) (concat lids)) in map2 (remap_row n (if best < n then best else 0)) lids ws)"

lemma remap_kernel_rows:
  assumes "0 < br" and "length ids = length ws"
  shows "remap_kernel br offset n ids ws = remap_rows n (map (map (kernel_lid offset)) ids) ws"
proof -
  let ?l = "map (map (kernel_lid offset)) ids"
  have "foldl (\<lambda>best blk. min best (block_min n blk)) big (row_blocks br ?l) = min_or_big (map (masked_id n) (concat ?l))"
    using foldl_block_min [of big n "row_blocks br ?l"] by (simp add: concat_row_blocks [OF assms(1)] min.absorb2 min_or_big_le)
  moreover have "length ?l = length ws" using assms(2) by simp
  ultimately show ?thesis
    unfolding remap_kernel_def remap_rows_def Let_def by (simp add: map2_row_blocks [OF assms(1)])
qed

text \<open>The ids a router gives: experts, or \<open>-1\<close> for a padding slot, in 32 bits.\<close>

definition ids_ok :: "int list list \<Rightarrow> bool" where
  "ids_ok ids \<longleftrightarrow> list_all (list_all (\<lambda>i. - 1 \<le> i \<and> i \<le> big)) ids"

lemma wrap_id: "- (2 ^ (w - 1)) \<le> x \<Longrightarrow> x < 2 ^ (w - 1) \<Longrightarrow> 0 < w \<Longrightarrow> wrap w x = x"
  unfolding wrap_def by (subst mod_pos_pos_trivial) (auto simp: power_eq_if [of _ w])

lemma wrap32_id: "- (2 ^ 31) \<le> x \<Longrightarrow> x \<le> big \<Longrightarrow> wrap 32 x = x"
  using wrap_id [of 32 x] by (simp add: big_def)

lemma wrap64_id: "- (2 ^ 63) \<le> x \<Longrightarrow> x < 2 ^ 63 \<Longrightarrow> wrap 64 x = x"
  using wrap_id [of 64 x] by simp

lemma kernel_lid_exact:
  assumes "- 1 \<le> i" and "i \<le> big" and "0 \<le> offset"
  shows "kernel_lid offset i = i - offset"
proof -
  have "wrap 32 i = i" by (rule wrap32_id) (use assms in \<open>simp_all add: big_def\<close>)
  moreover have "wrap 32 (i - offset) = i - offset" if "offset < 2 ^ 31"
    by (rule wrap32_id) (use assms that in \<open>simp_all add: big_def\<close>)
  ultimately show ?thesis using assms(3) by (simp add: kernel_lid_def)
qed

lemma ref_lid_exact:
  assumes "- 1 \<le> i" and "i \<le> big" and "0 \<le> offset" and "offset \<le> big"
  shows "ref_lid offset i = i - offset"
proof -
  have "wrap 64 i = i" by (rule wrap64_id) (use assms in \<open>simp_all add: big_def\<close>)
  moreover have "wrap 64 (i - offset) = i - offset" by (rule wrap64_id) (use assms in \<open>simp_all add: big_def\<close>)
  ultimately show ?thesis by (simp add: ref_lid_def)
qed

lemma lids_exact:
  assumes "ids_ok ids" and "0 \<le> offset"
  shows "map (map (kernel_lid offset)) ids = map (map (\<lambda>i. i - offset)) ids"
    and "offset \<le> big \<Longrightarrow> map (map (ref_lid offset)) ids = map (map (\<lambda>i. i - offset)) ids"
  using assms kernel_lid_exact ref_lid_exact by (auto simp: ids_ok_def list_all_iff)

lemma remap_kernel_exact:
  assumes "0 < br" and "length ids = length ws" and "ids_ok ids" and "0 \<le> offset"
  shows "remap_kernel br offset n ids ws = remap_rows n (map (map (\<lambda>i. i - offset)) ids) ws"
  unfolding remap_kernel_rows [OF assms(1,2)] lids_exact(1) [OF assms(3,4)] ..

lemma remap_kernel_reference:
  assumes "0 < br" and "length ids = length ws" and "ids_ok ids" and "0 \<le> offset" and "offset \<le> big"
  shows "remap_kernel br offset n ids ws = ep_remap_reference offset n ids ws"
  unfolding remap_kernel_exact [OF assms(1-4)] ep_remap_reference_def lids_exact(2) [OF assms(3-5)] Let_def remap_rows_def ..

text \<open>A local id is below the sentinel, so the fill of a row is the lowest local id of the row, else of the batch, else 0.\<close>

lemma min_or_big_local:
  assumes "0 < n" and "n \<le> big"
  shows "min_or_big (map (masked_id n) ls) < n \<longleftrightarrow> (\<exists>l\<in>set ls. is_local n l)"
    and "\<exists>l\<in>set ls. is_local n l \<Longrightarrow> \<exists>l\<in>set ls. is_local n l \<and> min_or_big (map (masked_id n) ls) = l"
proof -
  have a: "min_or_big (map (masked_id n) ls) < n \<longleftrightarrow> (\<exists>l\<in>set ls. is_local n l)" for ls
    using assms by (induction ls) (auto simp: masked_id_def is_local_def min_less_iff_disj)
  then show "min_or_big (map (masked_id n) ls) < n \<longleftrightarrow> (\<exists>l\<in>set ls. is_local n l)" .
  show "\<exists>l\<in>set ls. is_local n l \<Longrightarrow> \<exists>l\<in>set ls. is_local n l \<and> min_or_big (map (masked_id n) ls) = l"
    using assms
  proof (induction ls)
    case (Cons l ls)
    show ?case
    proof (cases "\<exists>l\<in>set ls. is_local n l")
      case True
      then show ?thesis using Cons.IH [OF True assms] assms by (auto simp: masked_id_def is_local_def min_def)
    next
      case False
      then have "n \<le> min_or_big (map (masked_id n) ls)" using a [of ls] by simp
      moreover have loc: "is_local n l" using Cons.prems(1) False by auto
      ultimately have "min_or_big (map (masked_id n) (l # ls)) = l"
        using masked_id_def [of n l] by (simp add: is_local_def)
      then show ?thesis using loc by auto
    qed
  qed simp
qed

text \<open>What the remap is for, over the ids themselves: the experts of a rank, and the expert that stands in for the others.\<close>

definition owned :: "int \<Rightarrow> int \<Rightarrow> int \<Rightarrow> bool" where
  "owned offset n i \<longleftrightarrow> offset \<le> i \<and> i < offset + n"

lemma is_local_owned: "is_local n (i - offset) = owned offset n i"
  by (auto simp: is_local_def owned_def)

definition lowest_local :: "int \<Rightarrow> int \<Rightarrow> int list \<Rightarrow> int" where
  "lowest_local offset n ids = (let l = filter (owned offset n) ids in if l = [] then 0 else Min (set l) - offset)"

definition spare_expert :: "int \<Rightarrow> int \<Rightarrow> int list list \<Rightarrow> int list \<Rightarrow> int" where
  "spare_expert offset n ids row = (if list_ex (owned offset n) row then lowest_local offset n row else lowest_local offset n (concat ids))"

lemma min_or_big_lower: "l \<in> set ls \<Longrightarrow> is_local n l \<Longrightarrow> min_or_big (map (masked_id n) ls) \<le> l"
  by (induction ls) (auto simp: masked_id_def min_le_iff_disj)

lemma min_or_big_lowest:
  assumes "0 < n" and "n \<le> big"
  defines "best ids offset \<equiv> min_or_big (map (masked_id n) (map (\<lambda>i. i - offset) ids))"
  shows "best ids offset < n \<longleftrightarrow> list_ex (owned offset n) ids"
    and "list_ex (owned offset n) ids \<Longrightarrow> best ids offset = lowest_local offset n ids"
proof -
  let ?ls = "map (\<lambda>i. i - offset) ids"
  have ex: "(\<exists>l\<in>set ?ls. is_local n l) \<longleftrightarrow> list_ex (owned offset n) ids" by (auto simp: list_ex_iff is_local_owned)
  show "best ids offset < n \<longleftrightarrow> list_ex (owned offset n) ids"
    using min_or_big_local(1) [OF assms(1,2), of ?ls] ex by (simp add: best_def)
  assume own: "list_ex (owned offset n) ids"
  then obtain l where "l \<in> set ?ls" "is_local n l" "best ids offset = l"
    using min_or_big_local(2) [OF assms(1,2), of ?ls] ex unfolding best_def by blast
  then obtain i where i: "i \<in> set ids" "owned offset n i" "best ids offset = i - offset" by (auto simp: is_local_owned)
  have "i \<le> j" if "j \<in> set ids" "owned offset n j" for j
    using min_or_big_lower [of "j - offset" ?ls n] that i(3) by (simp add: is_local_owned best_def)
  then have "Min (set (filter (owned offset n) ids)) = i"
    using i by (intro Min_eqI) auto
  moreover have "filter (owned offset n) ids \<noteq> []" using i by (auto simp: filter_empty_conv)
  ultimately show "best ids offset = lowest_local offset n ids"
    using i(3) by (simp add: lowest_local_def)
qed

lemma lowest_local_none: "\<not> list_ex (owned offset n) ids \<Longrightarrow> lowest_local offset n ids = 0"
  by (auto simp: lowest_local_def list_ex_iff filter_empty_conv)

lemma spare_expert_small:
  assumes "0 < n" and "n \<le> big"
  shows "0 \<le> spare_expert offset n ids row \<and> spare_expert offset n ids row < n"
proof -
  have low: "0 \<le> lowest_local offset n xs \<and> lowest_local offset n xs < n" for xs
  proof (cases "filter (owned offset n) xs = []")
    case True
    then show ?thesis using assms(1) by (simp add: lowest_local_def)
  next
    case False
    then have "set (filter (owned offset n) xs) \<noteq> {}" by (simp only: set_empty not_False_eq_True)
    then have "Min (set (filter (owned offset n) xs)) \<in> set (filter (owned offset n) xs)" by (intro Min_in) simp_all
    then have "owned offset n (Min (set (filter (owned offset n) xs)))" by simp
    with False show ?thesis by (simp add: lowest_local_def owned_def)
  qed
  then show ?thesis by (simp add: spare_expert_def)
qed

lemma remap_rows_nth:
  assumes n: "0 < n" "n \<le> big" and len: "length ids = length ws" and k: "k < length ids" and ids: "ids_ok ids" and off: "0 \<le> offset"
  shows "remap_rows n (map (map (\<lambda>i. i - offset)) ids) ws ! k =
    (map (\<lambda>i. if owned offset n i then i - offset else spare_expert offset n ids (ids ! k)) (ids ! k),
     map2 (\<lambda>i w. if owned offset n i then w else 0) (ids ! k) (ws ! k))"
proof -
  let ?row = "map (\<lambda>i. i - offset) (ids ! k)"
  let ?fb = "lowest_local offset n (concat ids)"
  let ?best = "min_or_big (map (masked_id n) ?row)"
  note lo = min_or_big_lowest [OF n]
  have "concat (map (map (\<lambda>i. i - offset)) ids) = map (\<lambda>i. i - offset) (concat ids)" by (simp add: map_concat)
  then have row: "remap_rows n (map (map (\<lambda>i. i - offset)) ids) ws ! k = remap_row n ?fb ?row (ws ! k)"
    using len k lo [of offset "concat ids"] lowest_local_none [of offset n "concat ids"]
    by (cases "list_ex (owned offset n) (concat ids)") (simp_all add: remap_rows_def Let_def)
  have fill: "(if ?best < n then ?best else ?fb) = spare_expert offset n ids (ids ! k)"
    using lo [of offset "ids ! k"] by (simp add: spare_expert_def)
  have "wrap 32 (if is_local n (i - offset) then i - offset else spare_expert offset n ids (ids ! k))
      = (if owned offset n i then i - offset else spare_expert offset n ids (ids ! k))" if "i \<in> set (ids ! k)" for i
  proof -
    have "- 1 \<le> i" "i \<le> big" using ids k that by (auto simp: ids_ok_def list_all_iff)
    with off spare_expert_small [OF n, of offset ids "ids ! k"] n show ?thesis
      by (auto simp: is_local_owned intro!: wrap32_id) (auto simp: owned_def)
  qed
  moreover have "map2 (\<lambda>l w. if is_local n l then w else 0) ?row (ws ! k) = map2 (\<lambda>i w. if owned offset n i then w else 0) (ids ! k) (ws ! k)"
    by (simp add: map_zip_map is_local_owned case_prod_beta)
  ultimately show ?thesis unfolding row remap_row_def Let_def fill by simp
qed

section \<open>Sums over slots\<close>

text \<open>What one launch computes for a row: the sum over the slots with an id in range.\<close>

definition row_sum :: "int \<Rightarrow> (int \<Rightarrow> 'w \<Rightarrow> 'y::comm_monoid_add) \<Rightarrow> int list \<Rightarrow> 'w list \<Rightarrow> 'y" where
  "row_sum E t ids ws = sum_list (map2 (\<lambda>i w. if 0 \<le> i \<and> i < E then t i w else 0) ids ws)"

definition local_sum :: "int \<Rightarrow> int \<Rightarrow> (int \<Rightarrow> 'w \<Rightarrow> 'y::comm_monoid_add) \<Rightarrow> int list \<Rightarrow> 'w list \<Rightarrow> 'y" where
  "local_sum offset E t ids ws = sum_list (map2 (\<lambda>i w. if owned offset E i then t (i - offset) w else 0) ids ws)"

lemma row_sum_remap:
  assumes t: "\<And>i. t i 0 = 0" and len: "length ids = length ws" and ids: "list_all (\<lambda>i. i \<le> big) ids" and off: "0 \<le> offset"
  shows "row_sum E t (fst (remap_row E fb (map (\<lambda>i. i - offset) ids) ws)) (snd (remap_row E fb (map (\<lambda>i. i - offset) ids) ws)) = local_sum offset E t ids ws"
proof -
  let ?best = "min_or_big (map (masked_id E) (map (\<lambda>i. i - offset) ids))"
  let ?fill = "if ?best < E then ?best else fb"
  have own: "wrap 32 (i - offset) = i - offset" if "owned offset E i" "i \<le> big" for i
    by (rule wrap32_id) (use that off in \<open>auto simp: owned_def big_def\<close>)
  have "map2 (\<lambda>i w. if 0 \<le> i \<and> i < E then t i w else 0)
      (map (\<lambda>l. wrap 32 (if is_local E l then l else f)) (map (\<lambda>i. i - offset) ids)) (map2 (\<lambda>l w. if is_local E l then w else 0) (map (\<lambda>i. i - offset) ids) ws)
    = map2 (\<lambda>i w. if owned offset E i then t (i - offset) w else 0) ids ws" for f
    using len ids by (induction ids ws rule: list_induct2) (auto simp: is_local_owned own t, auto simp: owned_def)
  from this [of ?fill] show ?thesis unfolding row_sum_def local_sum_def remap_row_def Let_def fst_conv snd_conv by simp
qed

lemma local_sum_direct: "local_sum 0 E t ids ws = row_sum E t ids ws"
  unfolding local_sum_def row_sum_def by (intro arg_cong [where f = sum_list] map_cong) (auto simp: owned_def)

section \<open>Capacities\<close>

text \<open>Settings under which there is a plan: batch sizes and block are positive.\<close>

definition cfg_ok :: "moe_cfg \<Rightarrow> bool" where
  "cfg_ok c = (c_graph_bs c \<noteq> [] \<and> list_all (\<lambda>b. 1 \<le> b) (c_graph_bs c) \<and> 1 \<le> c_block c
     \<and> c_exact_max c = max 96 ((c_block c + 1) * Max (set (c_graph_bs c))))"

text \<open>A built geometry: sorted capacities with the chunk as the largest, one prepared plan per capacity that runs it in one
  launch, its scratch views carved from the shared arena, and the table of small row counts.\<close>

definition geom_ok :: "moe_cfg \<Rightarrow> geometry \<Rightarrow> bool" where
  "geom_ok c g =
     (sorted (g_caps g) \<and> distinct (g_caps g) \<and> g_caps g \<noteq> [] \<and> list_all (\<lambda>x. 1 \<le> x) (g_caps g) \<and> g_chunk g = last (g_caps g)
      \<and> g_exact_max g = c_exact_max c \<and> g_table g = None # map (\<lambda>m. Some (lookup_cap (g_caps g) m)) [1..c_exact_max c]
      \<and> distinct (map fst (g_plans g)) \<and> set (map fst (g_plans g)) = set (g_caps g) \<and> 256 \<le> g_arena g
      \<and> list_all (\<lambda>(cap, e). cap \<le> e_limit e \<and> e_views e = carve 0 (e_specs e) \<and> arena_bytes (e_specs e) \<le> g_arena g) (g_plans g)
      \<and> g_ready g)"

lemma capacities_ok:
  assumes "cfg_ok c" and "capacities c = Inr caps"
  shows "sorted caps" and "distinct caps" and "\<forall>x\<in>set caps. 1 \<le> x"
proof -
  let ?rows = "sort (remdups [r * b. r \<leftarrow> [c_block c, c_block c + 1], b \<leftarrow> c_graph_bs c])"
  let ?exact = "filter (\<lambda>m. m \<le> c_exact_max c) ?rows"
  have pos: "\<forall>x\<in>set ?exact. 1 \<le> x"
    using assms(1) by (auto simp: cfg_ok_def list_all_iff) (smt (verit, best) mult_le_cancel_left1 mult_pos_pos)+
  obtain top where top: "max_of ?exact = Inr top"
    and caps: "caps = sort (remdups (?exact @ filter (\<lambda>x. top < x) (c_ladder c)))"
    using assms(2) by (auto simp: capacities_def Let_def bind_res_Inr_iff)
  have ne: "?exact \<noteq> []" and "top = Max (set ?exact)" using top by (auto simp: max_of_def split: if_splits)
  then have "top \<in> set ?exact" by (metis List.finite_set Max_in set_empty)
  then have "1 \<le> top" using pos by blast
  show "sorted caps" unfolding caps by simp
  show "distinct caps" unfolding caps by simp
  show "\<forall>x\<in>set caps. 1 \<le> x" using pos \<open>1 \<le> top\<close> unfolding caps by auto
qed

lemma capacities_total:
  assumes "cfg_ok c"
  shows "\<exists>caps. capacities c = Inr caps"
proof -
  let ?b = "hd (c_graph_bs c)"
  let ?exact = "filter (\<lambda>m. m \<le> c_exact_max c) (sort (remdups [r * b. r \<leftarrow> [c_block c, c_block c + 1], b \<leftarrow> c_graph_bs c]))"
  have b: "?b \<in> set (c_graph_bs c)" "1 \<le> ?b" using assms by (auto simp: cfg_ok_def list_all_iff)
  have "c_block c * ?b \<le> (c_block c + 1) * Max (set (c_graph_bs c))"
    using assms b by (intro mult_mono) (auto simp: cfg_ok_def)
  then have "c_block c * ?b \<in> set ?exact" using assms b by (auto simp: cfg_ok_def)
  then have "?exact \<noteq> []" by (metis empty_iff empty_set)
  then have "max_of ?exact = Inr (Max (set ?exact))" unfolding max_of_def by (simp only: if_False)
  then show ?thesis unfolding capacities_def Let_def by (simp only: bind_res_simps) blast
qed

lemma select_chunk_ok:
  assumes "select_chunk limits = Inr (chunk, caps, dropped)" and "distinct (map fst limits)"
  shows "sorted caps" and "distinct caps" and "caps \<noteq> []" and "chunk = last caps"
    and "set caps = {c. \<exists>l. (c, l) \<in> set limits \<and> c \<le> l}" and "set dropped = fst ` set limits - set caps"
proof -
  let ?kept = "map fst (filter (\<lambda>(c, l). c \<le> l) limits)"
  have caps: "caps = sort ?kept" and ne: "caps \<noteq> []" and ch: "chunk = last caps"
    and dr: "dropped = sort (filter (\<lambda>c. c \<notin> set caps) (map fst limits))"
    using assms(1) by (auto simp: select_chunk_def Let_def split: if_splits)
  show "sorted caps" "caps \<noteq> []" "chunk = last caps" using caps ne ch by auto
  have "distinct ?kept" using assms(2) by (induction limits) auto
  then show "distinct caps" using caps by simp
  show "set caps = {c. \<exists>l. (c, l) \<in> set limits \<and> c \<le> l}" unfolding caps by force
  show "set dropped = fst ` set limits - set caps" unfolding dr by auto
qed

lemma sorted_le_last: "sorted xs \<Longrightarrow> (x::int) \<in> set xs \<Longrightarrow> x \<le> last xs"
  by (induction xs) (auto intro: last_in_set)

lemma lookup_cap_ok:
  assumes "sorted caps" and "caps \<noteq> []" and "m \<le> last caps"
  shows "lookup_cap caps m \<in> set caps" and "m \<le> lookup_cap caps m" and "\<forall>x\<in>set caps. m \<le> x \<longrightarrow> lookup_cap caps m \<le> x"
proof -
  let ?i = "bisect_left caps m"
  have lt: "?i < length caps"
  proof (rule ccontr)
    assume "\<not> ?i < length caps"
    then have "takeWhile (\<lambda>x. x < m) caps = caps"
      unfolding bisect_left_def by (metis length_takeWhile_le order_antisym not_le takeWhile_eq_all_conv
          nth_equalityI takeWhile_nth linorder_not_less)
    then have "last caps < m" using assms(2) by (metis last_in_set takeWhile_eq_all_conv)
    then show False using assms(3) by simp
  qed
  then have l: "lookup_cap caps m = caps ! ?i" by (simp add: lookup_cap_def)
  show "lookup_cap caps m \<in> set caps" using l lt by simp
  show "m \<le> lookup_cap caps m" using nth_length_takeWhile [of "\<lambda>x. x < m" caps] lt unfolding l bisect_left_def by simp
  show "\<forall>x\<in>set caps. m \<le> x \<longrightarrow> lookup_cap caps m \<le> x"
  proof (intro ballI impI)
    fix x
    assume "x \<in> set caps" and mx: "m \<le> x"
    then obtain j where j: "j < length caps" "x = caps ! j" by (auto simp: in_set_conv_nth)
    have "?i \<le> j"
    proof (rule ccontr)
      assume "\<not> ?i \<le> j"
      then have "caps ! j < m" unfolding bisect_left_def by (metis nth_mem set_takeWhileD takeWhile_nth not_le)
      then show False using mx j by simp
    qed
    then show "lookup_cap caps m \<le> x" using assms(1) j unfolding l by (simp add: sorted_nth_mono)
  qed
qed

lemma build_frame:
  assumes "build c m64_ok plan_limit plan_specs g = Inr g'"
  shows "g_E g' = g_E g \<and> g_offset g' = g_offset g \<and> g_direct g' = g_direct g"
  using assms unfolding build_def by (auto simp: bind_res_Inr_iff Let_def)

lemma build_ok:
  assumes "build c m64_ok plan_limit plan_specs g = Inr g'" and c: "cfg_ok c"
  shows "geom_ok c g'"
proof -
  obtain all_caps where all: "capacities c = Inr all_caps" using assms(1) by (auto simp: build_def bind_res_Inr_iff)
  note ac = capacities_ok [OF c all]
  define plans where "plans = map (\<lambda>cap. (cap, prepare_plan c m64_ok plan_limit plan_specs g cap)) all_caps"
  define limits where "limits = map (\<lambda>(cap, e). (cap, e_limit e)) plans"
  obtain chunk caps dropped where sel: "select_chunk limits = Inr (chunk, caps, dropped)"
    using assms(1) all unfolding build_def plans_def limits_def by (auto simp: bind_res_Inr_iff Let_def)
  have fsts: "map fst limits = all_caps" "map fst plans = all_caps" by (simp_all add: limits_def plans_def comp_def case_prod_beta)
  have d: "distinct (map fst limits)" using fsts ac(2) by simp
  note sc = select_chunk_ok [OF sel d]
  define kept where "kept = filter (\<lambda>(cap, e). cap \<notin> set dropped) plans"
  define need where "need = Max (set (map (\<lambda>(cap, e). arena_bytes (e_specs e)) kept))"
  have g': "g' = g\<lparr>g_plans := map (\<lambda>(cap, e). (cap, e\<lparr>e_views := carve 0 (e_specs e)\<rparr>)) kept,
      g_caps := caps, g_chunk := chunk, g_exact_max := c_exact_max c,
      g_table := None # map (\<lambda>m. Some (lookup_cap caps m)) [1..c_exact_max c], g_arena := max need 256, g_ready := True\<rparr>"
    using assms(1) unfolding build_def all bind_res_simps Let_def plans_def [symmetric] limits_def [symmetric] sel prod.case
      kept_def need_def sum.inject by (rule sym)
  have in_kept: "cap \<in> set caps \<and> cap \<le> e_limit e" if "(cap, e) \<in> set kept" for cap e
  proof -
    have "(cap, e) \<in> set plans" "cap \<notin> set dropped" using that by (auto simp: kept_def)
    moreover from this have "(cap, e_limit e) \<in> set limits" by (force simp: limits_def)
    ultimately show ?thesis using sc(5,6) d by (force dest: eq_key_imp_eq_value)
  qed
  have caps_kept: "set (map fst kept) = set caps"
  proof -
    have "cap \<in> fst ` set kept" if "cap \<in> set caps" for cap
      using that sc(5,6) unfolding kept_def limits_def by (force simp: image_iff)
    then show ?thesis using in_kept by force
  qed
  have dk: "distinct (map fst kept)"
    using fsts(2) ac(2) unfolding kept_def by (simp add: distinct_map_filter)
  have "arena_bytes (e_specs e) \<le> need" if "(cap, e) \<in> set kept" for cap e
    unfolding need_def by (rule Max_ge) (use that in force)+
  moreover have "\<forall>x\<in>set caps. 1 \<le> x" using sc(5) ac(3) fsts(1) by force
  ultimately show ?thesis using sc(1-4) caps_kept dk in_kept unfolding geom_ok_def g'
    by (auto simp: list_all_iff comp_def case_prod_beta le_max_iff_disj)
qed

lemma cap_for_ok:
  assumes g: "geom_ok c g" and "1 \<le> m" and "int m \<le> g_chunk g"
  obtains cap where "cap_for g m = Some cap" "int m \<le> cap" "cap \<in> set (g_caps g)" "\<forall>x\<in>set (g_caps g). int m \<le> x \<longrightarrow> cap \<le> x"
proof -
  have l: "lookup_cap (g_caps g) (int m) \<in> set (g_caps g)" "int m \<le> lookup_cap (g_caps g) (int m)"
      "\<forall>x\<in>set (g_caps g). int m \<le> x \<longrightarrow> lookup_cap (g_caps g) (int m) \<le> x"
    using lookup_cap_ok [of "g_caps g" "int m"] assms by (auto simp: geom_ok_def)
  have "cap_for g m = Some (lookup_cap (g_caps g) (int m))"
  proof (cases "int m \<le> g_exact_max g")
    case True
    then have "g_table g ! m = Some (lookup_cap (g_caps g) (int m))"
      using g assms(2) by (cases m) (auto simp: geom_ok_def)
    then show ?thesis using True by (simp add: cap_for_def)
  qed (simp add: cap_for_def)
  then show thesis using l that by blast
qed

section \<open>Reachable states\<close>

fun key_ok :: "gkey \<Rightarrow> geometry \<Rightarrow> bool" where
  "key_ok (E, k, n, topk, ep_rank, ep_size, limit, dev) g =
     (g_E g = E \<and> g_offset g = ep_rank * E \<and> (g_direct g \<longrightarrow> ep_size = 1))"

definition moe_ok :: "moe_cfg \<Rightarrow> moe_state \<Rightarrow> bool" where
  "moe_ok c S \<longleftrightarrow> (\<forall>key g. m_geoms S key = Some g \<longrightarrow> geom_ok c g \<and> key_ok key g)
     \<and> (\<forall>ptr key hidden. m_layers S ptr = Some (key, hidden) \<longrightarrow> m_geoms S key \<noteq> None)"

lemma geom_ok_pq [simp]: "geom_ok c (g\<lparr>g_pq := p\<rparr>) = geom_ok c g"
  by (simp add: geom_ok_def)

lemma key_ok_pq [simp]: "key_ok key (g\<lparr>g_pq := p\<rparr>) = key_ok key g"
  by (cases "(key, g)" rule: key_ok.cases) simp

lemma prequant_views_frame:
  assumes "prequant_views patched bind_views g m = (g', v)"
  shows "geom_ok c g' = geom_ok c g \<and> key_ok key g' = key_ok key g"
  using assms unfolding prequant_views_def by (auto split: if_splits option.splits)

lemma put_views_ok:
  assumes "moe_ok c S" and "m_geoms S key = Some g" and "prequant_views patched bind_views g m = (g', v)"
  shows "moe_ok c (S\<lparr>m_geoms := (m_geoms S)(key \<mapsto> g')\<rparr>)"
  using assms prequant_views_frame [OF assms(3), of c key] unfolding moe_ok_def
  by (auto simp del: split_paired_All split_paired_Ex)

lemma convert_layer_ok:
  assumes conv: "convert_layer c m64_ok plan_limit plan_specs i S = (S', Inr ())" and ok: "moe_ok c S" and c: "cfg_ok c"
  shows "moe_ok c S'"
proof -
  obtain E k n topk ep_rank ep_size limit dev where key: "layer_key i = (E, k, n, topk, ep_rank, ep_size, limit, dev)"
    by (cases "layer_key i") auto
  let ?key = "(E, k, n, topk, ep_rank, ep_size, limit, dev)"
  let ?g = "case m_geoms S ?key of Some g \<Rightarrow> g | None \<Rightarrow> new_geometry c E k n topk ep_rank ep_size"
  obtain g' where g': "(if m_geoms S ?key = None then build c m64_ok plan_limit plan_specs ?g else Inr ?g) = Inr g'"
    and S': "S' = S\<lparr>m_geoms := (m_geoms S)(?key \<mapsto> g'), m_layers := (m_layers S)(i_ptr i \<mapsto> (?key, k))\<rparr>"
    using conv unfolding convert_layer_def key by (auto simp: Let_def split: if_splits sum.splits)
  have "geom_ok c g' \<and> key_ok ?key g'"
  proof (cases "m_geoms S ?key")
    case None
    then have b: "build c m64_ok plan_limit plan_specs (new_geometry c E k n topk ep_rank ep_size) = Inr g'" using g' by simp
    then show ?thesis using build_ok [OF b c] build_frame [OF b] by (simp add: new_geometry_def)
  next
    case (Some g)
    then show ?thesis using g' ok unfolding moe_ok_def by simp
  qed
  then show ?thesis using ok unfolding S' moe_ok_def by auto
qed

lemma prequant_target_ok:
  assumes "prequant_target patched bind_views ptr m S = (S', out)" and "moe_ok c S"
  shows "moe_ok c S'"
  using assms put_views_ok [OF assms(2)] unfolding prequant_target_def
  by (auto simp: Let_def split: option.splits prod.splits)

lemma moe_reach_ok: "moe_reach c S \<Longrightarrow> cfg_ok c \<Longrightarrow> moe_ok c S"
proof (induction rule: moe_reach.induct)
  case mr_init
  then show ?case by (simp add: moe_ok_def moe_init_def)
qed (auto intro: convert_layer_ok prequant_target_ok)

text \<open>A dispatch changes no more than the cache of input views, as \<open>prequant_target\<close> does.\<close>

lemma fused_reach:
  assumes "moe_reach c S" and "fused_b12x_next patched bind_views launch launch_pq d out S = (S', res)"
  shows "moe_reach c S'"
proof -
  have "S' = S \<or> S' = fst (prequant_target patched bind_views (d_ptr d) (length (d_x d)) S)"
    using assms(2) unfolding fused_b12x_next_def prequant_target_def
    by (auto simp: Let_def split: option.splits if_splits prod.splits)
  then show ?thesis using assms(1) mr_target by (metis prod.collapse)
qed

section \<open>The chunked forward\<close>

text \<open>The contract of one launch on a rank with \<open>E\<close> experts: rows within the capacity are computed independently, each the
  sum over its slots, ids out of range being skipped.\<close>

definition computes :: "(int \<Rightarrow> ('x \<times> int list \<times> 'w list) list \<Rightarrow> 'y::comm_monoid_add list) \<Rightarrow> int \<Rightarrow> ('x \<Rightarrow> int \<Rightarrow> 'w \<Rightarrow> 'y) \<Rightarrow> bool" where
  "computes launch E f \<longleftrightarrow>
     (\<forall>cap rows. int (length rows) \<le> cap \<longrightarrow> launch cap rows = map (\<lambda>(x, ids, ws). row_sum E (f x) ids ws) rows)"

definition routing_ok :: "'w routing \<Rightarrow> nat \<Rightarrow> bool" where
  "routing_ok r n = (length (r_ids r) = n \<and> map length (r_w r) = map length (r_ids r) \<and> ids_ok (r_ids r))"

definition moe_row :: "geometry \<Rightarrow> ('x \<Rightarrow> int \<Rightarrow> 'w \<Rightarrow> 'y::comm_monoid_add) \<Rightarrow> 'w routing \<Rightarrow> 'x list \<Rightarrow> nat \<Rightarrow> 'y" where
  "moe_row g f r x i = local_sum (g_offset g) (g_E g) (f (x ! i)) (r_ids r ! i) (r_w r ! i)"

lemma routing_lengths:
  assumes "routing_ok r n"
  shows "length (r_ids r) = n" "length (r_w r) = n" "i < n \<Longrightarrow> length (r_ids r ! i) = length (r_w r ! i)"
    "i < n \<Longrightarrow> list_all (\<lambda>j. j \<le> big) (r_ids r ! i)" "ids_ok (slice s e (r_ids r))"
proof -
  have r: "length (r_ids r) = n" "map length (r_w r) = map length (r_ids r)" "ids_ok (r_ids r)" using assms by (simp_all add: routing_ok_def)
  then show "length (r_ids r) = n" "length (r_w r) = n" "i < n \<Longrightarrow> length (r_ids r ! i) = length (r_w r ! i)"
    by (auto dest: map_eq_imp_length_eq) (metis map_eq_imp_length_eq nth_map)
  show "i < n \<Longrightarrow> list_all (\<lambda>j. j \<le> big) (r_ids r ! i)" using r by (auto simp: ids_ok_def list_all_iff)
  show "ids_ok (slice s e (r_ids r))"
    using r(3) by (auto simp: ids_ok_def list_all_iff slice_def dest: in_set_takeD in_set_dropD)
qed

text \<open>The routes of a piece, up to what a launch makes of them.\<close>

lemma route_piece_rows:
  fixes f :: "'x \<Rightarrow> int \<Rightarrow> 'w::zero \<Rightarrow> 'y::comm_monoid_add"
  assumes r: "routing_ok r n" and z: "\<And>x i. f x i 0 = 0" and se: "s < e" "e \<le> n" "int (e - s) \<le> g_chunk g"
    and d: "g_direct g \<Longrightarrow> g_offset g = 0" and off: "0 \<le> g_offset g"
  shows "\<exists>routes. route_piece g r s e = Inr routes \<and> length routes = e - s \<and> (\<forall>k<e - s. \<forall>x.
    row_sum (g_E g) (f x) (fst (routes ! k)) (snd (routes ! k))
       = local_sum (g_offset g) (g_E g) (f x) (r_ids r ! (s + k)) (r_w r ! (s + k)))"
proof -
  note rl = routing_lengths [OF r]
  let ?ids = "slice s e (r_ids r)" and ?ws = "slice s e (r_w r)"
  have len: "length ?ids = e - s" "length ?ws = e - s" using rl se by simp_all
  have at: "?ids ! k = r_ids r ! (s + k)" "?ws ! k = r_w r ! (s + k)" if "k < e - s" for k
    using that rl se by (simp_all add: nth_slice)
  show ?thesis
  proof (cases "g_direct g \<and> r_plain r")
    case True
    then show ?thesis using len at d
      by (intro exI [of _ "zip ?ids ?ws"]) (simp add: route_piece_def local_sum_direct)
  next
    case False
    have "map length ?ws = map length ?ids" using len at rl se by (intro nth_equalityI) auto
    moreover have "?ids \<noteq> []" using len(1) se(1) by (metis list.size(3) zero_less_diff less_irrefl)
    ultimately have rt: "route_piece g r s e = Inr (remap_rows (g_E g) (map (map (\<lambda>i. i - g_offset g)) ?ids) ?ws)"
      using False len se(3) remap_kernel_exact [of 32 ?ids ?ws, OF _ _ rl(5) off] unfolding route_piece_def ep_remap_def by auto
    show ?thesis
    proof (intro exI conjI allI impI, rule rt)
      let ?routes = "remap_rows (g_E g) (map (map (\<lambda>i. i - g_offset g)) ?ids) ?ws"
      show "length ?routes = e - s" using len by (simp add: remap_rows_def Let_def)
      fix k x
      assume k: "k < e - s"
      then obtain fb where "?routes ! k = remap_row (g_E g) fb (map (\<lambda>i. i - g_offset g) (r_ids r ! (s + k))) (r_w r ! (s + k))"
        using len at by (auto simp: remap_rows_def Let_def)
      then show "row_sum (g_E g) (f x) (fst (?routes ! k)) (snd (?routes ! k))
        = local_sum (g_offset g) (g_E g) (f x) (r_ids r ! (s + k)) (r_w r ! (s + k))"
        using row_sum_remap [of "f x", OF z _ _ off] rl(3,4) [of "s + k"] k se by simp
    qed
  qed
qed

lemma forward_piece_rows:
  fixes f :: "'x \<Rightarrow> int \<Rightarrow> 'w::zero \<Rightarrow> 'y::comm_monoid_add"
  assumes g: "geom_ok c g" and l: "computes launch (g_E g) f" and r: "routing_ok r (length x)" and z: "\<And>x i. f x i 0 = 0"
    and se: "s < e" "e \<le> length x" "int (e - s) \<le> g_chunk g" and d: "g_direct g \<Longrightarrow> g_offset g = 0" and off: "0 \<le> g_offset g"
  shows "forward_piece launch g r x s e = Inr (map (moe_row g f r x) [s..<e])"
proof -
  obtain routes where rt: "route_piece g r s e = Inr routes" "length routes = e - s"
    "\<And>k y. k < e - s \<Longrightarrow> row_sum (g_E g) (f y) (fst (routes ! k)) (snd (routes ! k))
       = local_sum (g_offset g) (g_E g) (f y) (r_ids r ! (s + k)) (r_w r ! (s + k))"
    using route_piece_rows [where f = f, OF r z se d off] by metis
  have "1 \<le> e - s" using se by simp
  from cap_for_ok [OF g this se(3)]
  obtain cap where cap: "cap_for g (e - s) = Some cap" "int (e - s) \<le> cap" "cap \<in> set (g_caps g)" by metis
  obtain p where p: "map_of (g_plans g) cap = Some p"
    using g cap(3) by (metis geom_ok_def map_of_eq_None_iff not_None_eq set_map)
  have "launch cap (zip (slice s e x) routes) = map (moe_row g f r x) [s..<e]"
  proof (rule nth_equalityI)
    have k: "int (length (zip (slice s e x) routes)) \<le> cap" using rt(2) se cap(2) by simp
    then have eq: "launch cap (zip (slice s e x) routes) = map (\<lambda>(x, ids, ws). row_sum (g_E g) (f x) ids ws) (zip (slice s e x) routes)"
      using l unfolding computes_def by blast
    then show "length (launch cap (zip (slice s e x) routes)) = length (map (moe_row g f r x) [s..<e])"
      using rt(2) se by simp
    fix i
    assume "i < length (launch cap (zip (slice s e x) routes))"
    then have i: "i < e - s" using eq rt(2) se by simp
    then show "launch cap (zip (slice s e x) routes) ! i = map (moe_row g f r x) [s..<e] ! i"
      using rt(2) rt(3) [OF i] se unfolding eq by (simp add: nth_slice moe_row_def case_prod_beta)
  qed
  then show ?thesis using rt cap p se by (simp add: forward_piece_def run_plan_def)
qed

lemma forward_loop_rows:
  assumes step: "\<And>s e. s < e \<Longrightarrow> e \<le> length x \<Longrightarrow> int (e - s) \<le> g_chunk g \<Longrightarrow> forward_piece launch g r x s e = Inr (map F [s..<e])"
    and chunk: "1 \<le> g_chunk g" and "length out = length x" and "s \<le> length x"
  shows "forward_loop launch g r x s out = Some (Inr (take s out @ map F [s..<length x]))"
  using assms(3,4)
proof (induction "length x - s" arbitrary: s out rule: less_induct)
  case less
  show ?case
  proof (cases "s < length x")
    case True
    define e where "e = nat (min (int (length x)) (int s + g_chunk g))"
    have e: "s < e" "e \<le> length x" "int (e - s) \<le> g_chunk g" using True chunk unfolding e_def by linarith+
    let ?out = "take s out @ map F [s..<e] @ drop e out"
    have "forward_loop launch g r x s out = forward_loop launch g r x e ?out"
      using True step [OF e] by (subst forward_loop.simps) (simp add: e_def [symmetric] Let_def)
    also have "\<dots> = Some (Inr (take e ?out @ map F [e..<length x]))"
      using e less.prems by (intro less.hyps) auto
    also have "take e ?out = take s out @ map F [s..<e]" using e less.prems by simp
    finally show ?thesis using e upt_add_eq_append [of s e "length x - e"] by simp
  next
    case False
    then show ?thesis using less.prems by (subst forward_loop.simps) simp
  qed
qed

lemma moe_forward_rows:
  fixes f :: "'x \<Rightarrow> int \<Rightarrow> 'w::zero \<Rightarrow> 'y::comm_monoid_add"
  assumes g: "geom_ok c g" and l: "computes launch (g_E g) f" and r: "routing_ok r (length x)" and z: "\<And>x i. f x i 0 = 0"
    and d: "g_direct g \<Longrightarrow> g_offset g = 0" and "length out = length x" and off: "0 \<le> g_offset g"
  shows "moe_forward launch g r x out = Some (Inr (map (moe_row g f r x) [0..<length x]))"
proof -
  have "1 \<le> g_chunk g" using g last_in_set [of "g_caps g"] by (auto simp: geom_ok_def list_all_iff)
  from forward_loop_rows [OF forward_piece_rows [OF g l r z _ _ _ d off] this assms(6), of 0]
  show ?thesis by (simp add: moe_forward_def)
qed

lemma fused_rows:
  fixes f :: "'x \<Rightarrow> int \<Rightarrow> 'w::zero \<Rightarrow> 'y::comm_monoid_add"
  assumes reach: "moe_reach c S" and c: "cfg_ok c" and lay: "m_layers S (d_ptr d) = Some (key, hidden)"
    and key: "key = (E, k, n, topk, ep_rank, ep_size, limit, dev)" and one: "ep_size = 1 \<Longrightarrow> ep_rank = 0"
    and off: "0 \<le> ep_rank * E"
    and l: "computes (launch (d_ptr d)) E f" and z: "\<And>x i. f x i 0 = 0"
    and d: "d_padded d = None \<or> d_padded d = Some hidden" "d_rows d = None" "routing_ok (d_routing d) (length (d_x d))"
    and out: "length out = length (d_x d)"
  shows "fused_b12x_next patched bind_views launch launch_pq d out S
    = (S, Some (Inr (map (\<lambda>i. local_sum (ep_rank * E) E (f (d_x d ! i)) (r_ids (d_routing d) ! i) (r_w (d_routing d) ! i)) [0..<length (d_x d)])))"
proof -
  have ok: "moe_ok c S" using moe_reach_ok [OF reach c] .
  then obtain g where g: "m_geoms S key = Some g" using lay unfolding moe_ok_def by blast
  then have gk: "geom_ok c g" "key_ok key g" using ok unfolding moe_ok_def by blast+
  then have ge: "g_E g = E" "g_offset g = ep_rank * E" "g_direct g \<Longrightarrow> g_offset g = 0" using key one by auto
  have "moe_forward (launch (d_ptr d)) g (d_routing d) (d_x d) out
      = Some (Inr (map (moe_row g f (d_routing d) (d_x d)) [0..<length (d_x d)]))"
    using moe_forward_rows [where f = f and launch = "launch (d_ptr d)", OF gk(1) _ d(3) z _ out] l ge off by simp
  then show ?thesis using lay g d out ge unfolding fused_b12x_next_def
    by (auto simp: moe_row_def)
qed

section \<open>The sum over the expert-parallel ranks\<close>

lemma one_owner_rank:
  fixes T :: "int \<Rightarrow> 'w \<Rightarrow> 'y::comm_monoid_add"
  assumes "0 < E"
  shows "(\<Sum>r<ep. if owned (int r * E) E i then T (int r * E + (i - int r * E)) w else 0)
    = (if 0 \<le> i \<and> i < int ep * E then T i w else 0)"
proof -
  have own: "owned (int r * E) E i \<longleftrightarrow> 0 \<le> i \<and> r = nat (i div E)" for r
  proof
    assume "owned (int r * E) E i"
    then have "int r * E \<le> i" "i < int r * E + E" by (auto simp: owned_def)
    moreover from this have "i div E = int r" by (intro int_div_pos_eq [of i E "int r" "i - int r * E"]) (auto simp: mult.commute)
    ultimately show "0 \<le> i \<and> r = nat (i div E)" using assms by (smt (verit) mult_nonneg_nonneg nat_int of_nat_0_le_iff)
  next
    assume "0 \<le> i \<and> r = nat (i div E)"
    then have "int r = i div E" using assms by (simp add: pos_imp_zdiv_nonneg_iff)
    moreover have "i div E * E \<le> i" "i < i div E * E + E"
      using assms div_mult_mod_eq [of i E] pos_mod_sign [of E i] pos_mod_bound [of E i] by linarith+
    ultimately show "owned (int r * E) E i" by (simp add: owned_def)
  qed
  have lt: "nat (i div E) < ep \<longleftrightarrow> i < int ep * E" if "0 \<le> i"
  proof -
    have q: "i div E * E \<le> i" "i < i div E * E + E"
      using assms div_mult_mod_eq [of i E] pos_mod_sign [of E i] pos_mod_bound [of E i] by linarith+
    have "i < int ep * E" if "i div E < int ep"
      using mult_right_mono [of "i div E + 1" "int ep" E] that assms q by (simp add: distrib_right)
    moreover have "i div E < int ep" if "i < int ep * E"
      using mult_right_mono [of "int ep" "i div E" E] that assms q by linarith
    ultimately have "i div E < int ep \<longleftrightarrow> i < int ep * E" by blast
    then show ?thesis using that assms by (simp add: nat_less_iff pos_imp_zdiv_nonneg_iff)
  qed
  show ?thesis
  proof (cases "0 \<le> i")
    case True
    then have "(\<Sum>r<ep. if owned (int r * E) E i then T (int r * E + (i - int r * E)) w else 0)
      = (\<Sum>r<ep. if r = nat (i div E) then T i w else 0)" by (intro sum.cong) (auto simp: own)
    then show ?thesis using True lt by (simp add: sum.delta')
  qed (simp add: own)
qed

lemma ranks_sum:
  fixes T :: "int \<Rightarrow> 'w \<Rightarrow> 'y::comm_monoid_add"
  assumes "0 < E" and "length ids = length ws"
  shows "(\<Sum>r<ep. local_sum (int r * E) E (\<lambda>i w. T (int r * E + i) w) ids ws) = row_sum (int ep * E) T ids ws"
  using assms(2)
proof (induction ids ws rule: list_induct2)
  case Nil
  then show ?case by (simp add: local_sum_def row_sum_def)
next
  case (Cons i ids w ws)
  have "(\<Sum>r<ep. local_sum (int r * E) E (\<lambda>i w. T (int r * E + i) w) (i # ids) (w # ws))
    = (\<Sum>r<ep. if owned (int r * E) E i then T (int r * E + (i - int r * E)) w else 0)
      + (\<Sum>r<ep. local_sum (int r * E) E (\<lambda>i w. T (int r * E + i) w) ids ws)"
    by (simp add: local_sum_def sum.distrib)
  then show ?case using one_owner_rank [OF assms(1), where ep = ep and i = i and T = T and w = w] Cons.IH by (simp add: row_sum_def)
qed

section \<open>Totality\<close>

text \<open>A plan whose package reports no limit, or one that admits its capacity, is kept; one is enough.\<close>

definition admits :: "(int \<Rightarrow> override option \<Rightarrow> int option) \<Rightarrow> int \<Rightarrow> override option \<Rightarrow> bool" where
  "admits plan_limit cap ov = (case plan_limit cap ov of None \<Rightarrow> True | Some l \<Rightarrow> l = 0 \<or> cap \<le> l)"

lemma sort_Nil_iff: "sort xs = [] \<longleftrightarrow> xs = []"
  by (metis length_0_conv length_sort)

lemma build_total:
  assumes "capacities c = Inr caps" and "cap \<in> set caps" and "\<And>ov. admits plan_limit cap ov"
  shows "\<exists>g'. build c m64_ok plan_limit plan_specs g = Inr g'"
proof -
  let ?limits = "map (\<lambda>(cap, e). (cap, e_limit e)) (map (\<lambda>cap. (cap, prepare_plan c m64_ok plan_limit plan_specs g cap)) caps)"
  let ?l = "e_limit (prepare_plan c m64_ok plan_limit plan_specs g cap)"
  have "cap \<le> ?l" using assms(3) [of "plan_override c m64_ok (g_N g) (g_topk g) cap"]
    by (auto simp: prepare_plan_def admits_def Let_def split: option.splits)
  then have "cap \<in> set (map fst (filter (\<lambda>(c, l). c \<le> l) ?limits))" using assms(2) by force
  then have "map fst (filter (\<lambda>(c, l). c \<le> l) ?limits) \<noteq> []" by (metis empty_iff empty_set)
  then have "sort (map fst (filter (\<lambda>(c, l). c \<le> l) ?limits)) \<noteq> []" by (simp only: sort_Nil_iff not_False_eq_True)
  then have "\<exists>r. select_chunk ?limits = Inr r" unfolding select_chunk_def Let_def by (simp only: if_False) blast
  then show ?thesis unfolding build_def assms(1) Let_def by (auto simp del: map_map)
qed

lemma convert_total:
  assumes c: "cfg_ok c" "capacities c = Inr caps" "cap \<in> set caps" "\<And>ov. admits plan_limit cap ov"
    and i: "i_e8m0 i" "layer_shapes_ok i" "i_shared i = 0" "i_contiguous i" "\<not> i_clamp i" "i_in_place i"
  shows "\<exists>S'. convert_layer c m64_ok plan_limit plan_specs i S = (S', Inr ()) \<and> m_layers S' (i_ptr i) = Some (layer_key i, fst (snd (layer_key i)))"
proof -
  obtain E k n topk ep_rank ep_size limit dev where key: "layer_key i = (E, k, n, topk, ep_rank, ep_size, limit, dev)"
    by (cases "layer_key i") auto
  obtain g' where "build c m64_ok plan_limit plan_specs (new_geometry c E k n topk ep_rank ep_size) = Inr g'"
    using build_total [OF c(2-4)] by blast
  then show ?thesis using i unfolding convert_layer_def key by (auto simp: Let_def split: option.splits)
qed

lemma forward_loop_ends:
  assumes "1 \<le> g_chunk g"
  shows "\<exists>res. forward_loop launch g r x s out = Some res"
proof (induction "length x - s" arbitrary: s out rule: less_induct)
  case less
  let ?e = "nat (min (int (length x)) (int s + g_chunk g))"
  have lt: "length x - ?e < length x - s" if "s < length x" using that assms by linarith
  show ?case
  proof (cases "s < length x")
    case True
    then show ?thesis
      using less.hyps [OF lt] by (subst forward_loop.simps) (auto simp: Let_def split: sum.splits)
  next
    case False
    then show ?thesis by (subst forward_loop.simps) simp
  qed
qed

section \<open>The arena\<close>

lemma align256_ge: "n \<le> align256 n"
  using ceil_to_ge [of 256 n] by (simp add: align256_def ceil_to_def)

lemma align256_dvd: "256 dvd align256 n"
  by (simp add: align256_def)

lemma carve_views:
  assumes "256 dvd off"
  shows "sorted_wrt (\<lambda>(o1, n1) (o2, n2). o1 + n1 \<le> o2) (carve off specs)
    \<and> list_all (\<lambda>(o1, n1). off \<le> o1 \<and> 256 dvd o1 \<and> o1 + n1 \<le> off + arena_bytes specs) (carve off specs)"
  using assms
proof (induction specs arbitrary: off)
  case (Cons nb specs)
  have "256 dvd off + align256 nb" using Cons.prems align256_dvd by simp
  from Cons.IH [OF this] show ?case
    using align256_ge [of nb] Cons.prems by (fastforce simp: list_all_iff arena_bytes_def)
qed simp

section \<open>An example\<close>

text \<open>Two expert-parallel ranks with two experts each; three rows, the last with a padding slot; a launch takes at most two rows.\<close>

definition ex_cfg :: moe_cfg where
  "ex_cfg = \<lparr>c_graph_bs = [1], c_max_bs = 1, c_block = 1, c_ladder = [4], c_exact_max = 96, c_m64_min = 0, c_tune = True, c_det = False,
     c_direct = True, c_tune_rows = Map.empty, c_table = [(1, 8, None, Some (''triton'', Some 48, 16))]\<rparr>"

definition ex_layer :: "nat \<Rightarrow> layer_info" where
  "ex_layer r = \<lparr>i_w13 = (2, 128, 64), i_w2 = (2, 128, 32), i_s13 = (2, 128, 4), i_s2 = (2, 128, 2), i_e8m0 = True, i_shared = 0,
     i_contiguous = True, i_limit = None, i_clamp = False, i_topk = 2, i_ep_rank = int r, i_ep_size = 2, i_dev = 0, i_ptr = 5, i_in_place = True\<rparr>"

definition ex_limit :: "int \<Rightarrow> override option \<Rightarrow> int option" where
  "ex_limit cap ov = (if cap = 4 then Some 3 else None)"

definition ex_state :: "nat \<Rightarrow> moe_state" where
  "ex_state r = fst (convert_layer ex_cfg True ex_limit (\<lambda>_ _. [100, 300]) (ex_layer r) moe_init)"

definition ex_term :: "int \<Rightarrow> int \<Rightarrow> int \<Rightarrow> int" where
  "ex_term x e w = w * (10 * x + e)"

definition ex_launch :: "nat \<Rightarrow> nat \<Rightarrow> int \<Rightarrow> (int \<times> int list \<times> int list) list \<Rightarrow> int list" where
  "ex_launch r ptr cap rows = map (\<lambda>(x, ids, ws). row_sum 2 (\<lambda>i w. ex_term x (int r * 2 + i) w) ids ws) rows"

definition ex_dispatch :: "(int, int) dispatch" where
  "ex_dispatch = \<lparr>d_ptr = 5, d_padded = None, d_x = [1, 2, 3],
     d_routing = \<lparr>r_ids = [[0, 3], [2, 1], [3, -1]], r_w = [[1, 2], [3, 4], [5, 6]], r_plain = True\<rparr>, d_rows = None\<rparr>"

lemma ex_cfg_ok: "cfg_ok ex_cfg"
  by (simp add: cfg_ok_def ex_cfg_def)

lemma ex_caps: "capacities ex_cfg = Inr [1, 2, 4]"
  by (simp add: capacities_def ex_cfg_def max_of_def Let_def)

lemma ex_state_ok: "moe_reach ex_cfg (ex_state r) \<and> m_layers (ex_state r) 5 = Some ((2, 128, 64, 2, int r, 2, None, 0), 128)"
proof -
  have "\<exists>S'. convert_layer ex_cfg True ex_limit (\<lambda>_ _. [100, 300]) (ex_layer r) moe_init = (S', Inr ())
      \<and> m_layers S' (i_ptr (ex_layer r)) = Some (layer_key (ex_layer r), fst (snd (layer_key (ex_layer r))))"
    by (rule convert_total [OF ex_cfg_ok ex_caps, of 1]) (auto simp: admits_def ex_limit_def ex_layer_def layer_shapes_ok_def)
  then obtain S' where c: "convert_layer ex_cfg True ex_limit (\<lambda>_ _. [100, 300]) (ex_layer r) moe_init = (S', Inr ())"
      and l: "m_layers S' (i_ptr (ex_layer r)) = Some (layer_key (ex_layer r), fst (snd (layer_key (ex_layer r))))" by blast
  then show ?thesis using mr_convert [OF mr_init c] by (simp add: ex_state_def ex_layer_def layer_key_def)
qed

section \<open>Properties\<close>

text \<open>C5: The routed experts computed in pieces are the routed experts. On every expert-parallel rank, in any reachable state of
  the module, a dispatch of any number of rows to a converted layer returns one row per hidden row, whatever the capacities,
  chunks and route path; and the all-reduced rows are the sums over all slots of all experts, each slot counted once and a
  padding id not at all. The hypotheses on the package are those of one launch, and the ids are experts or \<open>-1\<close> in 32 bits: the remap
  kernel computes local ids at that width.\<close>

theorem moe_ranks_exact:
  fixes T :: "'x \<Rightarrow> int \<Rightarrow> 'w::zero \<Rightarrow> 'y::comm_monoid_add"
  assumes "cfg_ok c" and "0 < E" and "\<And>x i. T x i 0 = 0"
    and "\<And>r. r < ep \<Longrightarrow> moe_reach c (S r) \<and> m_layers (S r) (d_ptr (d r)) = Some ((E, k, n, topk, int r, int ep, limit, dev r), hidden)"
    and "\<And>r. r < ep \<Longrightarrow> computes (launch r (d_ptr (d r))) E (\<lambda>x i w. T x (int r * E + i) w)"
    and "\<And>r. r < ep \<Longrightarrow> d_padded (d r) = None \<and> d_rows (d r) = None \<and> d_x (d r) = xs \<and> r_ids (d_routing (d r)) = ids \<and> r_w (d_routing (d r)) = ws"
    and "length ids = length xs" and "map length ws = map length ids" and "length out = length xs" and "ids_ok ids"
  shows "\<exists>ys. (\<forall>r<ep. snd (fused_b12x_next patched bind_views (launch r) launch_pq (d r) out (S r)) = Some (Inr (ys r)) \<and> length (ys r) = length xs)
    \<and> (\<forall>i<length xs. (\<Sum>r<ep. ys r ! i) = row_sum (int ep * E) (T (xs ! i)) (ids ! i) (ws ! i))"
proof -
  define ys where "ys r = map (\<lambda>i. local_sum (int r * E) E (\<lambda>j w. T (xs ! i) (int r * E + j) w) (ids ! i) (ws ! i)) [0..<length xs]" for r :: nat
  have "snd (fused_b12x_next patched bind_views (launch r) launch_pq (d r) out (S r)) = Some (Inr (ys r))" if r: "r < ep" for r
  proof -
    have ro: "routing_ok (d_routing (d r)) (length (d_x (d r)))" using assms(6) [OF r] assms(7,8,10) by (simp add: routing_ok_def)
    have "fused_b12x_next patched bind_views (launch r) launch_pq (d r) out (S r) = (S r, Some (Inr (ys r)))"
      using fused_rows [where f = "\<lambda>x i w. T x (int r * E + i) w" and c = c and S = "S r" and d = "d r" and hidden = hidden and E = E
            and k = k and n = n and topk = topk and ep_rank = "int r" and ep_size = "int ep" and limit = limit and dev = "dev r"
            and key = "(E, k, n, topk, int r, int ep, limit, dev r)" and launch = "launch r"]
        assms(1,3) assms(4) [OF r] assms(5) [OF r] assms(6) [OF r] assms(2,9) ro r unfolding ys_def by auto
    then show ?thesis by simp
  qed
  moreover have "length (ys r) = length xs" for r by (simp add: ys_def)
  moreover have "(\<Sum>r<ep. ys r ! i) = row_sum (int ep * E) (T (xs ! i)) (ids ! i) (ws ! i)" if i: "i < length xs" for i
  proof -
    have "length (ids ! i) = length (ws ! i)"
      using assms(7,8) i by (metis map_eq_imp_length_eq nth_map)
    from ranks_sum [OF assms(2) this] show ?thesis using i by (simp add: ys_def)
  qed
  ultimately show ?thesis by blast
qed

theorem moe_ranks_exact_witness:
  "\<exists>ys. snd (fused_b12x_next False (\<lambda>_ _. None) (ex_launch 0) (\<lambda>_ _ _. []) ex_dispatch [0, 0, 0] (ex_state 0)) = Some (Inr (ys 0))
    \<and> snd (fused_b12x_next False (\<lambda>_ _. None) (ex_launch 1) (\<lambda>_ _ _. []) ex_dispatch [0, 0, 0] (ex_state 1)) = Some (Inr (ys (1::nat)))
    \<and> ys 0 ! 2 + ys 1 ! 2 = (165::int)"
proof -
  have "\<exists>ys. (\<forall>r<2. snd (fused_b12x_next False (\<lambda>_ _. None) (ex_launch r) (\<lambda>_ _ _. []) ex_dispatch [0, 0, 0] (ex_state r)) = Some (Inr (ys r)) \<and> length (ys r) = length [1, 2, 3::int])
    \<and> (\<forall>i<length [1, 2, 3::int]. (\<Sum>r<2. ys r ! i) = row_sum (int 2 * 2) (ex_term ([1, 2, 3] ! i)) ([[0, 3], [2, 1], [3, -1]] ! i) ([[1, 2], [3, 4], [5, 6]] ! i))"
    by (rule moe_ranks_exact [where d = "\<lambda>_. ex_dispatch" and k = 128 and n = 64 and topk = 2 and limit = None and dev = "\<lambda>_. 0" and hidden = 128, OF ex_cfg_ok])
      (use ex_state_ok in \<open>auto simp: ex_term_def ex_dispatch_def computes_def ex_launch_def ids_ok_def big_def\<close>)
  then obtain ys where a: "\<forall>r<2. snd (fused_b12x_next False (\<lambda>_ _. None) (ex_launch r) (\<lambda>_ _ _. []) ex_dispatch [0, 0, 0] (ex_state r)) = Some (Inr (ys r)) \<and> length (ys r) = length [1, 2, 3::int]"
    and b: "\<forall>i<length [1, 2, 3::int]. (\<Sum>r<2. ys r ! i) = row_sum (int 2 * 2) (ex_term ([1, 2, 3] ! i)) ([[0, 3], [2, 1], [3, -1]] ! i) ([[1, 2], [3, 4], [5, 6]] ! i)" by blast
  have "(\<Sum>r<2. ys r ! 2) = (165::int)" using b [rule_format, of 2] by (simp add: row_sum_def ex_term_def)
  moreover have "(\<Sum>r<2. ys r ! 2) = ys 0 ! 2 + ys 1 ! 2" by (simp add: lessThan_nat_numeral lessThan_Suc add.commute)
  moreover have "(0::nat) < 2" "(1::nat) < 2" by simp_all
  ultimately show ?thesis using a by metis
qed

text \<open>C36: The remap of the expert ids, computed in 32 bits and in blocks, is the 64-bit reference, and does what it says, on ids and offsets that fit 32 bits: a slot
  of this rank keeps its weight under its local id; every other slot, padding included, gets weight zero and an expert the batch reads already,
  the lowest local one of its row, else the lowest of the batch, else expert 0.\<close>

theorem ep_remap_exact:
  assumes "0 < n" and "n \<le> big" and "length ids = length ws" and "0 < br" and "k < length ids"
    and "ids_ok ids" and "0 \<le> offset" and "offset \<le> big"
  shows "remap_kernel br offset n ids ws = ep_remap_reference offset n ids ws
    \<and> remap_kernel br offset n ids ws ! k =
        (map (\<lambda>i. if owned offset n i then i - offset else spare_expert offset n ids (ids ! k)) (ids ! k),
         map2 (\<lambda>i w. if owned offset n i then w else 0) (ids ! k) (ws ! k))"
proof
  show "remap_kernel br offset n ids ws = ep_remap_reference offset n ids ws"
    by (rule remap_kernel_reference [OF assms(4,3,6-8)])
  have "remap_kernel br offset n ids ws = remap_rows n (map (map (\<lambda>i. i - offset)) ids) ws"
    by (rule remap_kernel_exact [OF assms(4,3,6,7)])
  then show "remap_kernel br offset n ids ws ! k =
        (map (\<lambda>i. if owned offset n i then i - offset else spare_expert offset n ids (ids ! k)) (ids ! k),
         map2 (\<lambda>i w. if owned offset n i then w else 0) (ids ! k) (ws ! k))"
    using remap_rows_nth [OF assms(1-3,5) _ assms(7)] assms(6) by simp
qed

theorem ep_remap_exact_witness:
  "remap_kernel 2 4 4 [[5, 9], [1, 2], [-1, 6]] [[1, 2], [3, 4], [5, 6::int]] ! 1 = ([1, 1], [0, 0])"
  using ep_remap_exact [of 4 "[[5, 9], [1, 2], [-1, 6]]" "[[1, 2], [3, 4], [5, 6::int]]" 2 1 4, THEN conjunct2]
  by (simp add: big_def owned_def ids_ok_def spare_expert_def lowest_local_def)

text \<open>C37: In every reachable state each geometry runs within its plans: the chunk is the largest capacity; a batch of at most that
  many rows runs on the smallest capacity that holds it, whose plan takes it in one launch; and the scratch views of a plan
  are aligned, disjoint and inside the shared arena.\<close>

theorem plans_sound:
  assumes "cfg_ok c" and "moe_reach c S" and "m_geoms S key = Some g" and "1 \<le> m" and "int m \<le> g_chunk g"
  shows "\<exists>cap e. cap_for g m = Some cap \<and> map_of (g_plans g) cap = Some e \<and> int m \<le> cap \<and> cap \<le> e_limit e \<and> cap \<le> g_chunk g
    \<and> (\<forall>x\<in>set (g_caps g). int m \<le> x \<longrightarrow> cap \<le> x)
    \<and> sorted_wrt (\<lambda>(o1, n1) (o2, n2). o1 + n1 \<le> o2) (e_views e)
    \<and> list_all (\<lambda>(o1, n1). 256 dvd o1 \<and> o1 + n1 \<le> g_arena g) (e_views e)"
proof -
  have g: "geom_ok c g" using moe_reach_ok [OF assms(2,1)] assms(3) unfolding moe_ok_def by blast
  from cap_for_ok [OF g assms(4,5)] obtain cap where cap: "cap_for g m = Some cap" "int m \<le> cap" "cap \<in> set (g_caps g)"
    "\<forall>x\<in>set (g_caps g). int m \<le> x \<longrightarrow> cap \<le> x" by metis
  obtain e where e: "map_of (g_plans g) cap = Some e"
    using g cap(3) by (metis geom_ok_def map_of_eq_None_iff not_None_eq set_map)
  then have v: "cap \<le> e_limit e" "e_views e = carve 0 (e_specs e)" "arena_bytes (e_specs e) \<le> g_arena g"
    using g map_of_SomeD [OF e] by (auto simp: geom_ok_def list_all_iff)
  have "cap \<le> g_chunk g" using g cap(3) by (auto simp: geom_ok_def intro: sorted_le_last)
  moreover have "list_all (\<lambda>(o1, n1). 256 dvd o1 \<and> o1 + n1 \<le> g_arena g) (e_views e)"
    using carve_views [of 0 "e_specs e"] v(2,3) by (fastforce simp: list_all_iff)
  moreover have "sorted_wrt (\<lambda>(o1, n1) (o2, n2). o1 + n1 \<le> o2) (e_views e)" using carve_views [of 0 "e_specs e"] v(2) by simp
  ultimately show ?thesis using cap e v(1) by blast
qed

theorem plans_sound_witness:
  "\<exists>g cap e. m_geoms (ex_state 0) (2, 128, 64, 2, 0, 2, None, 0) = Some g \<and> cap_for g 1 = Some cap \<and> map_of (g_plans g) cap = Some e \<and> 1 \<le> e_limit e
    \<and> list_all (\<lambda>(o1, n1). 256 dvd o1 \<and> o1 + n1 \<le> g_arena g) (e_views e)"
proof -
  have ok: "moe_ok ex_cfg (ex_state 0)" using moe_reach_ok [OF _ ex_cfg_ok] ex_state_ok by blast
  then obtain g where g: "m_geoms (ex_state 0) (2, 128, 64, 2, 0, 2, None, 0) = Some g"
    using ex_state_ok [of 0] unfolding moe_ok_def by (metis not_None_eq of_nat_0)
  then have gk: "geom_ok ex_cfg g" using ok unfolding moe_ok_def by blast
  then have "1 \<le> g_chunk g" using last_in_set [of "g_caps g"] by (auto simp: geom_ok_def list_all_iff)
  then have m: "int 1 \<le> g_chunk g" by simp
  from plans_sound [OF ex_cfg_ok _ g _ m] ex_state_ok [of 0]
  obtain cap e where "cap_for g 1 = Some cap" "map_of (g_plans g) cap = Some e" "int 1 \<le> cap" "cap \<le> e_limit e"
    "list_all (\<lambda>(o1, n1). 256 dvd o1 \<and> o1 + n1 \<le> g_arena g) (e_views e)" by blast
  then show ?thesis using g by (intro exI [of _ g] exI [of _ cap] exI [of _ e]) simp
qed

text \<open>C38: A dispatch always comes back: in every reachable state, for any layer, rows, routing and kernels, the loop over chunks ends
  and the call returns rows or raises.\<close>

theorem dispatch_terminates:
  assumes "cfg_ok c" and "moe_reach c S"
  shows "\<exists>res. snd (fused_b12x_next patched bind_views launch launch_pq d out S) = Some res"
proof -
  have "1 \<le> g_chunk g" if "m_geoms S key = Some g" for key g
  proof -
    have "geom_ok c g" using moe_reach_ok [OF assms(2,1)] that unfolding moe_ok_def by blast
    then show ?thesis using last_in_set [of "g_caps g"] by (auto simp: geom_ok_def list_all_iff)
  qed
  then have "\<exists>res. moe_forward (launch (d_ptr d)) g (d_routing d) (d_x d) out = Some res" if "m_geoms S key = Some g" for key g
    using forward_loop_ends that unfolding moe_forward_def by blast
  then show ?thesis unfolding fused_b12x_next_def
    by (simp add: Let_def split: option.splits prod.splits)
qed

theorem dispatch_terminates_witness:
  "\<exists>res. snd (fused_b12x_next False (\<lambda>_ _. None) (ex_launch 0) (\<lambda>_ _ _. []) ex_dispatch [0, 0, 0] (ex_state 0)) = Some res"
  using dispatch_terminates [OF ex_cfg_ok] ex_state_ok by blast

end
