(* ===== verification/Prefill_Split.thy ===== *)
theory Prefill_Split
  imports Py_Float Rank_Split
begin

text \<open>
  The query-row partition of the prefill indexer (\<open>adapter/spark_prefill_dense.py\<close>): each rank scores its rows, selects
  their top keys and, on a candidate source, the ids of the best key blocks; one all-gather of integers puts the rows
  together, and the candidate masks are rebuilt from the block ids.

  The engine's kernels are arguments on batches of rows: \<open>scorer\<close>, \<open>topk\<close>, \<open>mask_topk\<close>, and \<open>torch.topk\<close> on a row of block
  scores (\<open>topb\<close>). The theorems use that the first three act row by row. A row of the query is opaque, with its first key and
  its number of keys. Log lines are left out.
\<close>

section \<open>Partition and block ids\<close>

definition partition_rows :: "int \<Rightarrow> int \<Rightarrow> int \<Rightarrow> int \<Rightarrow> (int \<times> int \<times> int) res" where
  "partition_rows rows world rank tile =
     (if rows < 0 \<or> world < 1 \<or> \<not> (0 \<le> rank \<and> rank < world) \<or> tile < 1 then Inl ValueError
      else let extent = (rows + world * tile - 1) div (world * tile) * tile;
               start = rank * extent
           in Inr (start, min rows (start + extent), extent))"

record indexer =
  x_source :: bool
  x_uses :: bool
  x_topk :: nat
  x_cand_blocks :: nat
  x_block_size :: nat

definition n_blocks :: "nat \<Rightarrow> nat \<Rightarrow> nat" where
  "n_blocks width bs = (width + bs - 1) div bs"

text \<open>The block scores of one row: blocks padded with minus infinity, the block of the row's last key raised to infinity.\<close>

definition block_scores :: "nat \<Rightarrow> fval list \<Rightarrow> int \<Rightarrow> fval list" where
  "block_scores bs logits len =
     (let padded = logits @ replicate (n_blocks (length logits) bs * bs - length logits) NInf
      in map (\<lambda>b. if int b = (len - 1) div int bs then PInf else Max (set (slice (b * bs) (b * bs + bs) padded))) [0..<n_blocks (length logits) bs])"

definition above_ninf :: "fval \<Rightarrow> bool" where
  "above_ninf x = (x \<noteq> NInf \<and> x \<noteq> NaN)"

definition candidate_block_ids :: "(fval list \<Rightarrow> nat \<Rightarrow> nat list) \<Rightarrow> nat \<Rightarrow> nat \<Rightarrow> fval list \<Rightarrow> int \<Rightarrow> int list" where
  "candidate_block_ids topb cand bs logits len =
     (let scores = block_scores bs logits len
      in map (\<lambda>i. if above_ninf (scores ! i) then int i else -1) (topb scores (min cand (length scores))))"

definition candidate_mask :: "int list \<Rightarrow> nat \<Rightarrow> nat \<Rightarrow> bool list" where
  "candidate_mask ids width bs =
     (let blocks = n_blocks width bs;
          cols = map (\<lambda>i. if i < 0 then blocks else nat i) ids;
          keep = fold (\<lambda>c k. k[c := True]) cols (replicate (blocks + 1) False)
      in take width (concat (map (replicate bs) (take blocks keep))))"

section \<open>One rank's selection\<close>

text \<open>A query row: opaque data, its first key and its number of keys.\<close>

type_synonym 'q qrow = "'q \<times> int \<times> int"

record 'q kernels =
  k_scorer :: "'q qrow list \<Rightarrow> nat \<Rightarrow> fval list list"
  k_topk :: "(fval list \<times> int \<times> int) list \<Rightarrow> int list list"
  k_mask_topk :: "(fval list \<times> int list \<times> int) list \<Rightarrow> int list list"
  k_topb :: "fval list \<Rightarrow> nat \<Rightarrow> nat list"
  k_consume :: "nat \<Rightarrow> nat \<Rightarrow> bool list"

definition map_range :: "nat \<Rightarrow> nat \<Rightarrow> (nat \<Rightarrow> 'a \<Rightarrow> 'a) \<Rightarrow> 'a list \<Rightarrow> 'a list" where
  "map_range a b f xs = map (\<lambda>i. if a \<le> i \<and> i < b then f i (xs ! i) else xs ! i) [0..<length xs]"

definition fill_row :: "(nat \<Rightarrow> bool) \<Rightarrow> nat \<Rightarrow> fval list \<Rightarrow> fval list" where
  "fill_row drop_col width row = map_range 0 width (\<lambda>c x. if drop_col c then NInf else x) row"

definition put_ids :: "nat \<Rightarrow> int list \<Rightarrow> int list \<Rightarrow> int list" where
  "put_ids pos ids row = take pos row @ ids @ drop (pos + length ids) row"

definition copy_step :: "nat \<Rightarrow> nat" where
  "copy_step width = max 1 (2 ^ 30 div (width * 4))"

text \<open>The copy loop of a candidate source over the rows \<open>lo\<close> to \<open>hi\<close> of the local part, a bounded number of rows at a time.\<close>

definition source_rows :: "indexer \<Rightarrow> 'q kernels \<Rightarrow> nat \<Rightarrow> int list \<Rightarrow> fval list list \<Rightarrow> nat \<Rightarrow> nat \<Rightarrow> int list list \<Rightarrow> int list list" where
  "source_rows ix K width lens logits a b packed =
     (let step = copy_step width
      in fold (\<lambda>j pk. map_range (a + j * step) (min b (a + j * step + step))
              (\<lambda>k row. put_ids (x_topk ix) (candidate_block_ids (k_topb K) (x_cand_blocks ix) (x_block_size ix) (take width (logits ! k)) (lens ! k)) row) pk)
           [0..<(b - a + step - 1) div step] packed)"

text \<open>The loop over the requests of the chunk: \<open>offset\<close> is the request's first row; its rows that are local are masked in
  place and, on a source, get their block ids.\<close>

definition request_body :: "indexer \<Rightarrow> 'q kernels \<Rightarrow> int list \<Rightarrow> nat \<Rightarrow> nat \<Rightarrow> nat \<Rightarrow> nat \<Rightarrow> nat \<Rightarrow> nat \<Rightarrow> fval list list \<times> int list list \<Rightarrow> fval list list \<times> int list list" where
  "request_body ix K lens start end_row req offset width cnt st =
     (case st of (logits, packed) \<Rightarrow>
        let lo = max start offset; hi = min end_row (offset + cnt)
        in if width = 0 \<or> hi \<le> lo then (logits, packed)
           else if x_source ix then
             (let logits' = map_range (lo - start) (hi - start) (\<lambda>k. fill_row (\<lambda>c. lens ! k \<le> int c) width) logits
              in (logits', source_rows ix K width lens logits' (lo - start) (hi - start) packed))
           else if x_uses ix then
             (map_range (lo - start) (hi - start) (\<lambda>k. fill_row (\<lambda>c. \<not> k_consume K req (start + k - offset) ! c) width) logits, packed)
           else (logits, packed))"

fun request_loop :: "indexer \<Rightarrow> 'q kernels \<Rightarrow> int list \<Rightarrow> nat \<Rightarrow> nat \<Rightarrow> nat \<Rightarrow> nat \<Rightarrow> (nat \<times> nat) list \<Rightarrow> fval list list \<times> int list list \<Rightarrow> nat \<times> fval list list \<times> int list list" where
  "request_loop ix K lens start end_row req offset [] st = (offset, st)"
| "request_loop ix K lens start end_row req offset (r # rest) st =
     request_loop ix K lens start end_row (Suc req) (offset + snd r) rest (request_body ix K lens start end_row req offset (fst r) (snd r) st)"

definition width4 :: "nat list \<Rightarrow> nat" where
  "width4 lengths = (Max (set lengths) + 3) div 4 * 4"

definition mask_blocks :: "indexer \<Rightarrow> nat list \<Rightarrow> nat" where
  "mask_blocks ix lengths = (if x_source ix then min (x_cand_blocks ix) (n_blocks (Max (set lengths)) (x_block_size ix)) else 0)"

definition local_selections ::
  "indexer \<Rightarrow> 'q kernels \<Rightarrow> 'q qrow list \<Rightarrow> nat list \<Rightarrow> nat list \<Rightarrow> nat \<Rightarrow> nat \<Rightarrow> int list list res" where
  "local_selections ix K rows lengths q_lengths world rank =
     bind_res (partition_rows (int (length rows)) (int world) (int rank) 128) (\<lambda>(s, e, ext).
       let start = nat s; end_row = nat e; extent = nat ext in
       if lengths = [] \<and> (x_source ix \<or> start < end_row) then Inl ValueError
       else
         let blocks = mask_blocks ix lengths;
             packed = replicate extent (replicate (x_topk ix + blocks) (-1));
             local = slice start end_row rows;
             lens = map (snd \<circ> snd) local;
             ks = map (fst \<circ> snd) local
         in if end_row \<le> start then Inr packed
            else let logits = k_scorer K local (width4 lengths);
                     (offset, logits', packed') = request_loop ix K lens start end_row 0 0 (zip lengths q_lengths) (logits, packed)
                 in if offset \<noteq> length rows then Inl AssertionError
                    else let selected = k_topk K (zip logits' (zip lens ks));
                             selected' = (if x_uses ix \<and> \<not> x_source ix then k_mask_topk K (zip logits' (zip selected ks)) else selected)
                         in Inr (map_range 0 (end_row - start) (\<lambda>k row. put_ids 0 (selected' ! k) row) packed'))"

section \<open>The gather\<close>

fun masks_loop :: "indexer \<Rightarrow> int list list \<Rightarrow> nat \<Rightarrow> (nat \<times> nat) list \<Rightarrow> bool list list list" where
  "masks_loop ix gathered offset [] = []"
| "masks_loop ix gathered offset ((width, cnt) # rest) =
     (if width = 0 \<or> cnt = 0 then []
      else (let nb = min (x_cand_blocks ix) (n_blocks width (x_block_size ix))
            in map (\<lambda>row. candidate_mask (slice (x_topk ix) (x_topk ix + nb) row) width (x_block_size ix)) (slice offset (offset + cnt) gathered)))
     # masks_loop ix gathered (offset + cnt) rest"

text \<open>\<open>select\<close> on all ranks at once: every rank gathers the same rows.\<close>

definition select_all ::
  "indexer \<Rightarrow> 'q kernels \<Rightarrow> 'q qrow list \<Rightarrow> nat list \<Rightarrow> nat list \<Rightarrow> nat \<Rightarrow> (int list list \<times> bool list list list option) res" where
  "select_all ix K rows lengths q_lengths world =
     bind_res (fold (\<lambda>rank acc. bind_res acc (\<lambda>g. bind_res (local_selections ix K rows lengths q_lengths world rank) (\<lambda>l. Inr (g @ l)))) [0..<world] (Inr []))
       (\<lambda>all_rows.
          let gathered = take (length rows) all_rows
          in Inr (map (take (x_topk ix)) gathered,
                  if x_source ix then Some (masks_loop ix gathered 0 (zip lengths q_lengths)) else None))"

section \<open>Settings\<close>

definition split_settings :: "environ \<Rightarrow> string \<times> string \<times> string" where
  "split_settings env = (env_get env ''SPARK_PREFILL_TP_SPLIT'' ''0'', env_get env ''SPARK_PREFILL_TP_MIN_CONTEXT'' ''32768'',
     env_get env ''SPARK_PREFILL_TP_MIN_ROWS'' ''1024'')"

text \<open>\<open>agreed\<close>: the settings of all ranks; \<open>sizes\<close>: the context-, data- and decode-context-parallel sizes; \<open>hardware\<close>: a CUDA device of capability 12.1.\<close>

definition from_parallel :: "(string \<times> string \<times> string) list \<Rightarrow> string \<times> string \<times> string \<Rightarrow> nat \<Rightarrow> nat \<times> nat \<times> nat \<Rightarrow> bool \<Rightarrow> bool \<Rightarrow> (bool \<times> int \<times> int) res" where
  "from_parallel agreed settings world sizes hardware is_draft =
     (case settings of (on, ctx, rws) \<Rightarrow>
        if \<not> list_all (\<lambda>x. x = settings) agreed then Inl RuntimeError
        else if on \<noteq> ''0'' \<and> on \<noteq> ''1'' then Inl ValueError
        else case (py_int ctx, py_int rws) of
          (Some context, Some rows) \<Rightarrow>
            if context < 32768 \<or> rows < 1024 then Inl ValueError
            else Inr (on = ''1'' \<and> (world = 4 \<or> world = 8) \<and> sizes = (1, 1, 1) \<and> hardware \<and> \<not> is_draft, context, rows)
        | _ \<Rightarrow> Inl ValueError)"

definition eligible :: "bool \<times> int \<times> int \<Rightarrow> int \<Rightarrow> int \<Rightarrow> bool \<Rightarrow> bool \<Rightarrow> bool \<Rightarrow> bool" where
  "eligible cfg rows width prefill cuda capturing =
     (case cfg of (on, context, min_rows) \<Rightarrow> on \<and> prefill \<and> cuda \<and> min_rows \<le> rows \<and> context \<le> width \<and> \<not> capturing)"

section \<open>The partition\<close>

definition extent_of :: "nat \<Rightarrow> nat \<Rightarrow> nat" where
  "extent_of n world = (n + world * 128 - 1) div (world * 128) * 128"

lemma partition_rows_eq:
  assumes "rank < world"
  shows "partition_rows (int n) (int world) (int rank) 128
    = Inr (int (rank * extent_of n world), int (min n (rank * extent_of n world + extent_of n world)), int (extent_of n world))"
proof -
  have w: "1 \<le> world" using assms by simp
  have "int n + int world * 128 - 1 = int (n + world * 128 - 1)" using w by simp
  then have "(int n + int world * 128 - 1) div (int world * 128) * 128 = int (extent_of n world)"
    unfolding extent_of_def by (simp add: zdiv_int del: of_nat_diff)
  then show ?thesis using assms unfolding partition_rows_def Let_def by (simp add: of_nat_min)
qed

lemma extent_covers: "1 \<le> world \<Longrightarrow> n \<le> world * extent_of n world"
  using ceil_to_ge [of "world * 128" n] by (simp add: ceil_to_def extent_of_def mult.assoc mult.left_commute)

lemma extent_pos: "1 \<le> world \<Longrightarrow> 0 < n \<Longrightarrow> 0 < extent_of n world"
  using extent_covers [of world n] by (cases "extent_of n world") auto

interpretation psplit: rank_split "\<lambda>n w. 1 \<le> w" "\<lambda>n w r. min n (r * extent_of n w)"
  using extent_covers by unfold_locales (auto simp: min_def mult.commute)

section \<open>Row by row\<close>

lemma map_range_length [simp]: "length (map_range a b f xs) = length xs"
  by (simp add: map_range_def)

lemma map_range_nth: "i < length xs \<Longrightarrow> map_range a b f xs ! i = (if a \<le> i \<and> i < b then f i (xs ! i) else xs ! i)"
  by (simp add: map_range_def)

lemma map_range_empty [simp]: "b \<le> a \<Longrightarrow> map_range a b f xs = xs"
  by (rule nth_equalityI) (auto simp: map_range_nth)

lemma map_range_join:
  "a \<le> m \<Longrightarrow> m \<le> b \<Longrightarrow> map_range m b f (map_range a m f xs) = map_range a b f xs"
  by (rule nth_equalityI) (auto simp: map_range_nth)

lemma fold_map_range:
  "a \<le> b \<Longrightarrow> fold (\<lambda>j. map_range (a + j * st) (min b (a + j * st + st)) f) [0..<n] xs = map_range a (min b (a + n * st)) f xs"
proof (induction n)
  case (Suc n)
  then have "fold (\<lambda>j. map_range (a + j * st) (min b (a + j * st + st)) f) [0..<Suc n] xs
      = map_range (a + n * st) (min b (a + n * st + st)) f (map_range a (min b (a + n * st)) f xs)" by simp
  also have "\<dots> = map_range a (min b (a + n * st + st)) f xs"
    by (cases "a + n * st \<le> b") (auto simp: min_def map_range_join Suc.prems)
  finally show ?case by (simp add: algebra_simps)
qed simp

lemma source_rows_eq:
  assumes "a \<le> b"
  shows "source_rows ix K width lens logits a b packed
    = map_range a b (\<lambda>k row. put_ids (x_topk ix) (candidate_block_ids (k_topb K) (x_cand_blocks ix) (x_block_size ix) (take width (logits ! k)) (lens ! k)) row) packed"
proof -
  let ?st = "copy_step width"
  have "0 < ?st" by (simp add: copy_step_def)
  then have "b - a \<le> (b - a + ?st - 1) div ?st * ?st" using ceil_to_ge [of ?st "b - a"] by (simp add: ceil_to_def)
  then have "min b (a + (b - a + ?st - 1) div ?st * ?st) = b" using assms by simp
  then show ?thesis unfolding source_rows_def Let_def by (subst fold_map_range [OF assms]) simp
qed

text \<open>The request of a row: its number, its first row and its key width.\<close>

fun locate :: "nat \<Rightarrow> nat \<Rightarrow> (nat \<times> nat) list \<Rightarrow> nat \<Rightarrow> (nat \<times> nat \<times> nat) option" where
  "locate req offset [] i = None"
| "locate req offset ((width, cnt) # rest) i =
     (if offset \<le> i \<and> i < offset + cnt then Some (req, offset, width) else locate (Suc req) (offset + cnt) rest i)"

lemma locate_before: "i < offset \<Longrightarrow> locate req offset reqs i = None"
  by (induction reqs arbitrary: req offset) auto

definition row_logits :: "indexer \<Rightarrow> 'q kernels \<Rightarrow> nat \<times> nat \<times> nat \<Rightarrow> nat \<Rightarrow> int \<Rightarrow> fval list \<Rightarrow> fval list" where
  "row_logits ix K loc i len row =
     (case loc of (req, offset, width) \<Rightarrow>
        if width = 0 then row
        else if x_source ix then fill_row (\<lambda>c. len \<le> int c) width row
        else if x_uses ix then fill_row (\<lambda>c. \<not> k_consume K req (i - offset) ! c) width row
        else row)"

definition row_ids :: "indexer \<Rightarrow> 'q kernels \<Rightarrow> nat \<times> nat \<times> nat \<Rightarrow> int \<Rightarrow> fval list \<Rightarrow> int list \<Rightarrow> int list" where
  "row_ids ix K loc len row packed =
     (case loc of (req, offset, width) \<Rightarrow>
        if width \<noteq> 0 \<and> x_source ix
        then put_ids (x_topk ix) (candidate_block_ids (k_topb K) (x_cand_blocks ix) (x_block_size ix) (take width row) len) packed
        else packed)"

definition row_step :: "indexer \<Rightarrow> 'q kernels \<Rightarrow> (nat \<times> nat \<times> nat) option \<Rightarrow> nat \<Rightarrow> int \<Rightarrow> fval list \<times> int list \<Rightarrow> fval list \<times> int list" where
  "row_step ix K loc i len lp =
     (case loc of None \<Rightarrow> lp | Some l \<Rightarrow> (let row = row_logits ix K l i len (fst lp) in (row, row_ids ix K l len row (snd lp))))"

lemma row_step_None [simp]: "row_step ix K None i len lp = lp"
  by (simp add: row_step_def)

lemma request_body_cases:
  fixes start offset end_row cnt :: nat
  defines "a \<equiv> max start offset - start" and "b \<equiv> min end_row (offset + cnt) - start"
  obtains (same) "request_body ix K lens start end_row req offset width cnt (logits, packed) = (logits, packed)"
    "width = 0 \<or> b \<le> a \<or> \<not> x_source ix \<and> \<not> x_uses ix"
  | (source) "x_source ix" "width \<noteq> 0"
    "request_body ix K lens start end_row req offset width cnt (logits, packed) =
       (let logits' = map_range a b (\<lambda>k. fill_row (\<lambda>c. lens ! k \<le> int c) width) logits
        in (logits', map_range a b (\<lambda>k row. put_ids (x_topk ix) (candidate_block_ids (k_topb K) (x_cand_blocks ix) (x_block_size ix)
              (take width (logits' ! k)) (lens ! k)) row) packed))"
  | (consumer) "\<not> x_source ix" "x_uses ix" "width \<noteq> 0"
    "request_body ix K lens start end_row req offset width cnt (logits, packed) =
       (map_range a b (\<lambda>k. fill_row (\<lambda>c. \<not> k_consume K req (start + k - offset) ! c) width) logits, packed)"
proof (cases "width = 0 \<or> min end_row (offset + cnt) \<le> max start offset \<or> \<not> x_source ix \<and> \<not> x_uses ix")
  case True
  then show thesis by (intro same) (auto simp: request_body_def Let_def a_def b_def)
next
  case False
  then have "a \<le> b" by (auto simp: a_def b_def)
  with False show thesis
    by (cases "x_source ix") (rule source consumer; simp add: request_body_def Let_def a_def b_def source_rows_eq)+
qed

lemma request_body_rows:
  assumes body: "request_body ix K lens start end_row req offset width cnt (logits, packed) = (logits', packed')"
    and len: "length logits = end_row - start" "end_row - start \<le> length packed"
  shows "length logits' = length logits" and "length packed' = length packed"
    and "k < end_row - start \<Longrightarrow> (logits' ! k, packed' ! k)
      = row_step ix K (if offset \<le> start + k \<and> start + k < offset + cnt then Some (req, offset, width) else None) (start + k) (lens ! k) (logits ! k, packed ! k)"
    and "end_row - start \<le> k \<Longrightarrow> k < length packed \<Longrightarrow> packed' ! k = packed ! k"
proof -
  let ?a = "max start offset - start" and ?b = "min end_row (offset + cnt) - start"
  have rng: "offset \<le> start + k \<and> start + k < offset + cnt \<longleftrightarrow> ?a \<le> k \<and> k < ?b" if "k < end_row - start" for k
    using that by auto
  have "length logits' = length logits \<and> length packed' = length packed
    \<and> (\<forall>k<end_row - start. (logits' ! k, packed' ! k)
      = row_step ix K (if ?a \<le> k \<and> k < ?b then Some (req, offset, width) else None) (start + k) (lens ! k) (logits ! k, packed ! k))
    \<and> (\<forall>k. end_row - start \<le> k \<longrightarrow> k < length packed \<longrightarrow> packed' ! k = packed ! k)"
  proof (cases rule: request_body_cases [of ix K lens start end_row req offset width cnt logits packed])
    case same
    then show ?thesis using body by (auto simp: row_step_def row_logits_def row_ids_def)
  next
    case source
    then show ?thesis using body len by (auto simp: map_range_nth row_step_def row_logits_def row_ids_def Let_def)
  next
    case consumer
    then show ?thesis using body len by (auto simp: map_range_nth row_step_def row_logits_def row_ids_def)
  qed
  then show "length logits' = length logits" "length packed' = length packed"
    "end_row - start \<le> k \<Longrightarrow> k < length packed \<Longrightarrow> packed' ! k = packed ! k"
    "k < end_row - start \<Longrightarrow> (logits' ! k, packed' ! k)
      = row_step ix K (if offset \<le> start + k \<and> start + k < offset + cnt then Some (req, offset, width) else None) (start + k) (lens ! k) (logits ! k, packed ! k)"
    using rng by presburger+
qed

lemma request_loop_rows:
  assumes "request_loop ix K lens start end_row req offset reqs (logits, packed) = (offset', logits', packed')"
    and "length logits = end_row - start" and "end_row - start \<le> length packed" and "start \<le> end_row"
  shows "offset' = offset + sum_list (map snd reqs) \<and> length logits' = length logits \<and> length packed' = length packed
    \<and> (\<forall>k<end_row - start. (logits' ! k, packed' ! k) = row_step ix K (locate req offset reqs (start + k)) (start + k) (lens ! k) (logits ! k, packed ! k))
    \<and> (\<forall>k. end_row - start \<le> k \<longrightarrow> k < length packed \<longrightarrow> packed' ! k = packed ! k)"
  using assms
proof (induction reqs arbitrary: req offset logits packed)
  case Nil
  then show ?case by (simp add: row_step_def)
next
  case (Cons r reqs)
  obtain width cnt where r: "r = (width, cnt)" by (cases r)
  obtain lg pk where body: "request_body ix K lens start end_row req offset width cnt (logits, packed) = (lg, pk)"
    by (cases "request_body ix K lens start end_row req offset width cnt (logits, packed)")
  note b = request_body_rows [OF body Cons.prems(2,3)]
  have run: "request_loop ix K lens start end_row (Suc req) (offset + cnt) reqs (lg, pk) = (offset', logits', packed')"
    using Cons.prems(1) by (simp add: r body)
  have len: "length lg = end_row - start" "end_row - start \<le> length pk" using b(1,2) Cons.prems(2,3) by simp_all
  note ih = Cons.IH [OF run len Cons.prems(4)]
  have "(logits' ! k, packed' ! k) = row_step ix K (locate req offset (r # reqs) (start + k)) (start + k) (lens ! k) (logits ! k, packed ! k)"
    if k: "k < end_row - start" for k
  proof -
    have later: "(logits' ! k, packed' ! k) = row_step ix K (locate (Suc req) (offset + cnt) reqs (start + k)) (start + k) (lens ! k) (lg ! k, pk ! k)"
      using ih k by blast
    show ?thesis
    proof (cases "offset \<le> start + k \<and> start + k < offset + cnt")
      case True
      then have "locate (Suc req) (offset + cnt) reqs (start + k) = None" by (intro locate_before) simp
      then show ?thesis using later b(3) [OF k] True by (simp add: r)
    next
      case False
      then have "(lg ! k, pk ! k) = (logits ! k, packed ! k)" using b(3) [OF k] by auto
      moreover have "locate req offset (r # reqs) (start + k) = locate (Suc req) (offset + cnt) reqs (start + k)" using False by (auto simp: r)
      ultimately show ?thesis using later by (simp only:)
    qed
  qed
  moreover have "packed' ! k = packed ! k" if "end_row - start \<le> k" "k < length packed" for k
    using ih b(2) b(4) [OF that] that by auto
  ultimately show ?case using ih b(1,2) by (auto simp: r)
qed

text \<open>The kernels act row by row.\<close>

definition row_kernels :: "'q kernels \<Rightarrow> ('q qrow \<Rightarrow> nat \<Rightarrow> fval list) \<Rightarrow> (fval list \<times> int \<times> int \<Rightarrow> int list) \<Rightarrow> (fval list \<times> int list \<times> int \<Rightarrow> int list) \<Rightarrow> bool" where
  "row_kernels K sc tk mk \<longleftrightarrow>
     (\<forall>rows w. k_scorer K rows w = map (\<lambda>r. sc r w) rows) \<and> (\<forall>rows. k_topk K rows = map tk rows) \<and> (\<forall>rows. k_mask_topk K rows = map mk rows)"

definition pad_row :: "indexer \<Rightarrow> nat list \<Rightarrow> int list" where
  "pad_row ix lengths = replicate (x_topk ix + mask_blocks ix lengths) (-1)"

text \<open>What row \<open>i\<close> of the chunk gathers, whichever rank computes it.\<close>

definition row_selection ::
  "indexer \<Rightarrow> 'q kernels \<Rightarrow> ('q qrow \<Rightarrow> nat \<Rightarrow> fval list) \<Rightarrow> (fval list \<times> int \<times> int \<Rightarrow> int list) \<Rightarrow> (fval list \<times> int list \<times> int \<Rightarrow> int list) \<Rightarrow>
   'q qrow list \<Rightarrow> nat list \<Rightarrow> nat list \<Rightarrow> nat \<Rightarrow> int list" where
  "row_selection ix K sc tk mk rows lengths q_lengths i =
     (let len = snd (snd (rows ! i)); ks = fst (snd (rows ! i));
          (lg, pk) = row_step ix K (locate 0 0 (zip lengths q_lengths) i) i len (sc (rows ! i) (width4 lengths), pad_row ix lengths);
          sel = tk (lg, len, ks)
      in put_ids 0 (if x_uses ix \<and> \<not> x_source ix then mk (lg, sel, ks) else sel) pk)"

lemma local_selections_rows:
  assumes K: "row_kernels K sc tk mk" and r: "rank < world" and ok: "lengths \<noteq> []" "sum_list (map snd (zip lengths q_lengths)) = length rows"
  shows "local_selections ix K rows lengths q_lengths world rank
    = Inr (map (\<lambda>k. let i = rank * extent_of (length rows) world + k
          in if i < length rows then row_selection ix K sc tk mk rows lengths q_lengths i else pad_row ix lengths) [0..<extent_of (length rows) world])"
proof -
  let ?n = "length rows" and ?X = "extent_of (length rows) world"
  let ?s = "rank * ?X"
  let ?e = "min ?n (?s + ?X)"
  let ?pk = "replicate ?X (pad_row ix lengths)"
  show ?thesis
  proof (cases "?e \<le> ?s")
    case True
    then have "\<not> ?s + k < ?n" if "k < ?X" for k using that by (auto simp: min_def split: if_splits)
    then have "map (\<lambda>k. let i = ?s + k in if i < ?n then row_selection ix K sc tk mk rows lengths q_lengths i else pad_row ix lengths) [0..<?X] = ?pk"
      by (intro nth_equalityI) (auto simp: Let_def)
    then show ?thesis using True ok unfolding local_selections_def partition_rows_eq [OF r]
      by (simp add: pad_row_def Let_def del: of_nat_mult)
  next
    case False
    let ?local = "slice ?s ?e rows"
    let ?lens = "map (snd \<circ> snd) ?local" and ?ks = "map (fst \<circ> snd) ?local"
    let ?lg = "map (\<lambda>r. sc r (width4 lengths)) ?local"
    have len: "length ?local = ?e - ?s" by simp
    obtain off lg pk where run: "request_loop ix K ?lens ?s ?e 0 0 (zip lengths q_lengths) (?lg, ?pk) = (off, lg, pk)"
      by (cases "request_loop ix K ?lens ?s ?e 0 0 (zip lengths q_lengths) (?lg, ?pk)") auto
    have "?e - ?s \<le> length ?pk" by simp
    from request_loop_rows [OF run _ this] len False
    have q: "off = ?n" "length lg = ?e - ?s" "length pk = ?X"
      "\<And>k. k < ?e - ?s \<Longrightarrow> (lg ! k, pk ! k) = row_step ix K (locate 0 0 (zip lengths q_lengths) (?s + k)) (?s + k) (?lens ! k) (?lg ! k, ?pk ! k)"
      "\<And>k. ?e - ?s \<le> k \<Longrightarrow> k < ?X \<Longrightarrow> pk ! k = ?pk ! k" using ok(2) by auto
    let ?sel = "map tk (zip lg (zip ?lens ?ks))"
    let ?sel' = "if x_uses ix \<and> \<not> x_source ix then map mk (zip lg (zip ?sel ?ks)) else ?sel"
    have "local_selections ix K rows lengths q_lengths world rank
      = Inr (map_range 0 (?e - ?s) (\<lambda>k row. put_ids 0 (?sel' ! k) row) pk)"
      using K ok False run q(1) unfolding local_selections_def partition_rows_eq [OF r] row_kernels_def pad_row_def
      by (simp add: Let_def del: of_nat_mult of_nat_add)
    moreover have "map_range 0 (?e - ?s) (\<lambda>k row. put_ids 0 (?sel' ! k) row) pk
      = map (\<lambda>k. let i = ?s + k in if i < ?n then row_selection ix K sc tk mk rows lengths q_lengths i else pad_row ix lengths) [0..<?X]"
    proof (rule nth_equalityI)
      fix k
      assume "k < length (map_range 0 (?e - ?s) (\<lambda>k row. put_ids 0 (?sel' ! k) row) pk)"
      then have k: "k < ?X" using q by simp
      show "map_range 0 (?e - ?s) (\<lambda>k row. put_ids 0 (?sel' ! k) row) pk ! k
        = map (\<lambda>k. let i = ?s + k in if i < ?n then row_selection ix K sc tk mk rows lengths q_lengths i else pad_row ix lengths) [0..<?X] ! k"
      proof (cases "k < ?e - ?s")
        case True
        then have "?local ! k = rows ! (?s + k)" "?s + k < ?n" by (auto simp: nth_slice)
        moreover have "?lens ! k = snd (snd (?local ! k))" "?ks ! k = fst (snd (?local ! k))" "?lg ! k = sc (?local ! k) (width4 lengths)"
          using True len by simp_all
        ultimately show ?thesis using True k q(2,3) q(4) [OF True, symmetric] len
          by (simp add: map_range_nth row_selection_def Let_def)
      next
        case False
        then show ?thesis using k q(3,5) by (auto simp: map_range_nth Let_def min_def split: if_splits)
      qed
    qed (simp add: q)
    ultimately show ?thesis by simp
  qed
qed

section \<open>The gather\<close>

lemma concat_even_map:
  "concat (map (\<lambda>r. map (\<lambda>k. f (r * c + k)) [0..<c]) [0..<w]) = map f [0..<w * c]"
proof (induction w)
  case (Suc w)
  have "map f [0..<Suc w * c] = map f [0..<w * c] @ map f [w * c..<w * c + c]"
    using upt_add_eq_append [of 0 "w * c" c] by (simp add: add.commute flip: map_append)
  then show ?case using Suc by (simp add: map_upt_shift)
qed simp

lemma fold_bind_Inr:
  "(\<And>r. r \<in> set rs \<Longrightarrow> f r = Inr (h r)) \<Longrightarrow>
   fold (\<lambda>r acc. bind_res acc (\<lambda>g. bind_res (f r) (\<lambda>l. Inr (g @ l)))) rs (Inr g) = Inr (g @ concat (map h rs))"
  by (induction rs arbitrary: g) auto

lemma fold_bind_Inl: "fold (\<lambda>r acc. bind_res acc (\<lambda>g. bind_res (f r) (\<lambda>l. Inr (g @ l)))) rs (Inl e) = Inl e"
  by (induction rs) auto

lemma fold_bind_first:
  assumes "f 0 = Inl e" and "0 < w"
  shows "fold (\<lambda>r acc. bind_res acc (\<lambda>g. bind_res (f r) (\<lambda>l. Inr (g @ l)))) [0..<w] (Inr g) = Inl e"
  using assms by (simp add: upt_rec fold_bind_Inl)

text \<open>The gathered rows of a chunk, or the exception that rank 0 raises.\<close>

definition gathered_rows ::
  "indexer \<Rightarrow> 'q kernels \<Rightarrow> ('q qrow \<Rightarrow> nat \<Rightarrow> fval list) \<Rightarrow> (fval list \<times> int \<times> int \<Rightarrow> int list) \<Rightarrow> (fval list \<times> int list \<times> int \<Rightarrow> int list) \<Rightarrow>
   'q qrow list \<Rightarrow> nat list \<Rightarrow> nat list \<Rightarrow> int list list res" where
  "gathered_rows ix K sc tk mk rows lengths q_lengths =
     (if lengths = [] \<and> (x_source ix \<or> rows \<noteq> []) then Inl ValueError
      else if rows \<noteq> [] \<and> sum_list (map snd (zip lengths q_lengths)) \<noteq> length rows then Inl AssertionError
      else Inr (map (row_selection ix K sc tk mk rows lengths q_lengths) [0..<length rows]))"

lemma rank0_error:
  assumes "row_kernels K sc tk mk" and "1 \<le> world" and "gathered_rows ix K sc tk mk rows lengths q_lengths = Inl e"
  shows "local_selections ix K rows lengths q_lengths world 0 = Inl e"
proof -
  let ?e = "min (length rows) (extent_of (length rows) world)"
  have part: "partition_rows (int (length rows)) (int world) 0 128 = Inr (0, int ?e, int (extent_of (length rows) world))"
    using partition_rows_eq [of 0 world "length rows"] assms(2) by simp
  show ?thesis
  proof (cases "lengths = [] \<and> (x_source ix \<or> rows \<noteq> [])")
    case True
    then show ?thesis using assms part extent_pos [OF assms(2), of "length rows"]
      by (auto simp: local_selections_def gathered_rows_def split: if_splits)
  next
    case False
    then have r: "rows \<noteq> []" "sum_list (map snd (zip lengths q_lengths)) \<noteq> length rows" "e = AssertionError" "lengths \<noteq> []"
      using assms(3) by (auto simp: gathered_rows_def split: if_splits)
    have pos: "0 < ?e" using r(1) extent_pos [OF assms(2)] by simp
    let ?local = "slice 0 ?e rows"
    let ?st = "(map (\<lambda>r. sc r (width4 lengths)) ?local, replicate (extent_of (length rows) world) (replicate (x_topk ix + mask_blocks ix lengths) (-1)))"
    obtain off lg pk where run: "request_loop ix K (map (snd \<circ> snd) ?local) 0 ?e 0 0 (zip lengths q_lengths) ?st = (off, lg, pk)"
      by (cases "request_loop ix K (map (snd \<circ> snd) ?local) 0 ?e 0 0 (zip lengths q_lengths) ?st") auto
    have "off = sum_list (map snd (zip lengths q_lengths))" using request_loop_rows [OF run] by simp
    then show ?thesis using r run part pos assms(1) unfolding local_selections_def row_kernels_def by (simp add: Let_def)
  qed
qed

lemma gathered_exact:
  assumes K: "row_kernels K sc tk mk" and w: "1 \<le> world"
  shows "bind_res (fold (\<lambda>rank acc. bind_res acc (\<lambda>g. bind_res (local_selections ix K rows lengths q_lengths world rank) (\<lambda>l. Inr (g @ l)))) [0..<world] (Inr []))
      (\<lambda>a. Inr (take (length rows) a)) = gathered_rows ix K sc tk mk rows lengths q_lengths"
proof (cases "gathered_rows ix K sc tk mk rows lengths q_lengths")
  case (Inl e)
  then show ?thesis
    using fold_bind_first [where f = "local_selections ix K rows lengths q_lengths world" and g = "[]", OF rank0_error [OF K w Inl]] w by simp
next
  case (Inr g)
  show ?thesis
  proof (cases "rows = []")
    case True
    then have ext: "extent_of 0 world = 0" using w by (simp add: extent_of_def div_mult_self1 )
    have "local_selections ix K rows lengths q_lengths world r = Inr []" if "r < world" for r
      using partition_rows_eq [OF that, of 0] True ext Inr
      by (auto simp: local_selections_def gathered_rows_def Let_def split: if_splits)
    then show ?thesis using fold_bind_Inr [of "[0..<world]" "local_selections ix K rows lengths q_lengths world" "\<lambda>_. []"] True Inr
      by (simp add: gathered_rows_def split: if_splits)
  next
    case False
    then have ok: "lengths \<noteq> []" "sum_list (map snd (zip lengths q_lengths)) = length rows"
      using Inr by (auto simp: gathered_rows_def split: if_splits)
    let ?X = "extent_of (length rows) world"
    let ?f = "\<lambda>i. if i < length rows then row_selection ix K sc tk mk rows lengths q_lengths i else pad_row ix lengths"
    have "fold (\<lambda>rank acc. bind_res acc (\<lambda>g. bind_res (local_selections ix K rows lengths q_lengths world rank) (\<lambda>l. Inr (g @ l)))) [0..<world] (Inr [])
        = Inr (map ?f [0..<world * ?X])"
      using fold_bind_Inr [of "[0..<world]" "local_selections ix K rows lengths q_lengths world" "\<lambda>r. map (\<lambda>k. ?f (r * ?X + k)) [0..<?X]" "[]"]
        local_selections_rows [OF K _ ok] concat_even_map [of ?f ?X world] by (simp add: Let_def)
    moreover have "take (length rows) (map ?f [0..<world * ?X]) = map (row_selection ix K sc tk mk rows lengths q_lengths) [0..<length rows]"
      using extent_covers [OF w, of "length rows"] by (simp add: take_map min_def)
    ultimately show ?thesis using ok by (simp add: gathered_rows_def)
  qed
qed

section \<open>Masks\<close>

lemma fold_set_True:
  "\<forall>c\<in>set cols. c < length k \<Longrightarrow> b < length k \<Longrightarrow> fold (\<lambda>c k. k[c := True]) cols k ! b = (k ! b \<or> b \<in> set cols)"
  by (induction cols arbitrary: k) (auto simp: nth_list_update)

lemma fold_set_length [simp]: "length (fold (\<lambda>c k. k[c := True]) cols k) = length k"
  by (induction cols arbitrary: k) auto

lemma concat_replicate_nth:
  assumes "0 < bs" and "c < length xs * bs"
  shows "concat (map (replicate bs) xs) ! c = xs ! (c div bs)"
  using assms(2)
proof (induction xs arbitrary: c)
  case (Cons x xs)
  then show ?case
  proof (cases "c < bs")
    case False
    then have "c div bs = Suc ((c - bs) div bs)" using assms(1) by (simp add: le_div_geq)
    moreover have "c - bs < length xs * bs" using Cons.prems False by simp
    ultimately show ?thesis using Cons.IH [of "c - bs"] False by (simp add: nth_append)
  qed (simp add: nth_append)
qed simp

lemma concat_replicate_length: "length (concat (map (replicate bs) xs)) = length xs * bs"
  by (induction xs) auto

lemma n_blocks_covers: "0 < bs \<Longrightarrow> width \<le> n_blocks width bs * bs"
  using ceil_to_ge [of bs width] by (simp add: ceil_to_def n_blocks_def)

lemma block_lt: "0 < bs \<Longrightarrow> c < width \<Longrightarrow> c div bs < n_blocks width bs"
  using n_blocks_covers [of bs width] by (metis less_le_trans less_mult_imp_div_less)

lemma candidate_mask_eq:
  assumes bs: "0 < bs" and ids: "\<forall>i\<in>set ids. i < int (n_blocks width bs)"
  shows "candidate_mask ids width bs = map (\<lambda>c. int (c div bs) \<in> set ids) [0..<width]"
proof -
  let ?n = "n_blocks width bs"
  let ?cols = "map (\<lambda>i. if i < 0 then ?n else nat i) ids"
  let ?keep = "fold (\<lambda>c k. k[c := True]) ?cols (replicate (?n + 1) False)"
  have keep: "take ?n ?keep ! b = (int b \<in> set ids)" if "b < ?n" for b
  proof -
    have "?keep ! b = (replicate (?n + 1) False ! b \<or> b \<in> set ?cols)"
      using ids that by (intro fold_set_True) auto
    also have "replicate (?n + 1) False ! b = False" using that by (intro nth_replicate) simp
    also have "(False \<or> b \<in> set ?cols) = (int b \<in> set ids)"
    proof
      assume "False \<or> b \<in> set ?cols"
      then obtain i where "i \<in> set ids" "b = (if i < 0 then ?n else nat i)" by auto
      then show "int b \<in> set ids" using that by (cases "i < 0") auto
    next
      assume "int b \<in> set ids"
      then have "(if int b < 0 then ?n else nat (int b)) \<in> set ?cols" by force
      then show "False \<or> b \<in> set ?cols" by simp
    qed
    finally show ?thesis using that by simp
  qed
  show ?thesis
  proof (rule nth_equalityI)
    show "length (candidate_mask ids width bs) = length (map (\<lambda>c. int (c div bs) \<in> set ids) [0..<width])"
      using n_blocks_covers [OF bs, of width] by (simp add: candidate_mask_def Let_def concat_replicate_length)
    fix c
    assume "c < length (candidate_mask ids width bs)"
    then have c: "c < width" by (simp add: candidate_mask_def Let_def)
    have "c < length (take ?n ?keep) * bs" using c n_blocks_covers [OF bs, of width] by simp
    then have "concat (map (replicate bs) (take ?n ?keep)) ! c = (int (c div bs) \<in> set ids)"
      by (rule trans [OF concat_replicate_nth [OF bs] keep [OF block_lt [OF bs c]]])
    then show "candidate_mask ids width bs ! c = map (\<lambda>c. int (c div bs) \<in> set ids) [0..<width] ! c"
      using c by (simp add: candidate_mask_def Let_def)
  qed
qed

text \<open>\<open>torch.topk\<close>: \<open>k\<close> positions, and none left out is above one taken.\<close>

definition takes_top :: "(fval list \<Rightarrow> nat \<Rightarrow> nat list) \<Rightarrow> bool" where
  "takes_top topb \<longleftrightarrow> (\<forall>xs k. k \<le> length xs \<longrightarrow> length (topb xs k) = k \<and> set (topb xs k) \<subseteq> {..<length xs}
     \<and> (\<forall>i\<in>set (topb xs k). \<forall>j<length xs. j \<notin> set (topb xs k) \<longrightarrow> xs ! j \<le> xs ! i))"

lemma block_scores_length [simp]: "length (block_scores bs logits len) = n_blocks (length logits) bs"
  by (simp add: block_scores_def Let_def)

lemma other_blocks_below:
  assumes "0 < bs" and "\<forall>x\<in>set logits. x < PInf" and "b < n_blocks (length logits) bs" and "int b \<noteq> (len - 1) div int bs"
  shows "block_scores bs logits len ! b < PInf"
proof -
  let ?n = "n_blocks (length logits) bs"
  let ?padded = "logits @ replicate (?n * bs - length logits) NInf"
  let ?blk = "slice (b * bs) (b * bs + bs) ?padded"
  have "length ?padded = ?n * bs" using n_blocks_covers [OF assms(1), of "length logits"] by simp
  moreover have "b * bs < ?n * bs" using assms(1,3) by simp
  ultimately have "?blk \<noteq> []" using assms(1) by (metis length_slice list.size(3) min_less_iff_conj less_irrefl zero_less_diff add_diff_cancel_left')
  then have "Max (set ?blk) \<in> set ?blk" by (intro Max_in) auto
  then have "Max (set ?blk) \<in> set ?padded" unfolding slice_def by (meson in_set_takeD in_set_dropD)
  then have "Max (set ?blk) < PInf" using assms(2) by (auto simp: less_fval_def)
  then show ?thesis using assms(3,4) by (simp add: block_scores_def Let_def)
qed

text \<open>Sorting the positions by their value and taking the last \<open>k\<close> is such a choice.\<close>

definition sorted_top :: "fval list \<Rightarrow> nat \<Rightarrow> nat list" where
  "sorted_top xs k = take k (rev (sort_key (\<lambda>i. xs ! i) [0..<length xs]))"

lemma sorted_top_takes_top: "takes_top sorted_top"
  unfolding takes_top_def
proof (intro allI impI conjI ballI)
  fix xs :: "fval list" and k
  assume k: "k \<le> length xs"
  let ?s = "rev (sort_key (\<lambda>i. xs ! i) [0..<length xs])"
  have set_s: "set ?s = {..<length xs}" by auto
  show "length (sorted_top xs k) = k" using k by (simp add: sorted_top_def)
  show "set (sorted_top xs k) \<subseteq> {..<length xs}" using set_take_subset [of k ?s] unfolding sorted_top_def set_s .
  fix i j
  assume i: "i \<in> set (sorted_top xs k)" and j: "j < length xs" "j \<notin> set (sorted_top xs k)"
  have "j \<in> set (drop k ?s)" using j set_s unfolding sorted_top_def by (metis Un_iff append_take_drop_id lessThan_iff set_append)
  moreover have "sorted_wrt (\<ge>) (map (\<lambda>i. xs ! i) (take k ?s @ drop k ?s))"
    by (simp add: rev_map [symmetric] sorted_wrt_rev)
  ultimately show "xs ! j \<le> xs ! i" using i unfolding sorted_top_def map_append sorted_wrt_append by auto
qed

section \<open>Properties\<close>

text \<open>C8: Splitting the query rows over the ranks changes nothing: for any group size, any chunk and any mix of requests, the gathered
  selections, the candidate masks and the exceptions are those of a single rank that computes every row. The scorer and the
  two top-k kernels are only assumed to work row by row.\<close>

theorem split_selection_exact:
  assumes "row_kernels K sc tk mk" and "1 \<le> world"
  shows "select_all ix K rows lengths q_lengths world = select_all ix K rows lengths q_lengths 1"
proof -
  have "select_all ix K rows lengths q_lengths w = bind_res (gathered_rows ix K sc tk mk rows lengths q_lengths)
      (\<lambda>g. Inr (map (take (x_topk ix)) g, if x_source ix then Some (masks_loop ix g 0 (zip lengths q_lengths)) else None))" if "1 \<le> w" for w
  proof -
    let ?all = "fold (\<lambda>rank acc. bind_res acc (\<lambda>g. bind_res (local_selections ix K rows lengths q_lengths w rank) (\<lambda>l. Inr (g @ l)))) [0..<w] (Inr [])"
    have e: "gathered_rows ix K sc tk mk rows lengths q_lengths = bind_res ?all (\<lambda>a. Inr (take (length rows) a))"
      by (rule gathered_exact [OF assms(1) that, symmetric])
    show ?thesis unfolding select_all_def Let_def e bind_res_assoc bind_res_simps ..
  qed
  from this [OF assms(2)] this [of 1] show ?thesis by simp
qed

text \<open>C39: The block ids that travel instead of a mask are lossless: the mask rebuilt from them keeps exactly the keys of the chosen
  blocks with a score above minus infinity, and it always keeps the block of the row's last key.\<close>

theorem candidate_mask_lossless:
  assumes "takes_top topb" and "0 < bs" and "1 \<le> cand" and "1 \<le> len" and "len \<le> int (length logits)" and "\<forall>x\<in>set logits. x < PInf"
  shows "candidate_mask (candidate_block_ids topb cand bs logits len) (length logits) bs
      = map (\<lambda>c. c div bs \<in> set (topb (block_scores bs logits len) (min cand (n_blocks (length logits) bs)))
             \<and> above_ninf (block_scores bs logits len ! (c div bs))) [0..<length logits]
    \<and> candidate_mask (candidate_block_ids topb cand bs logits len) (length logits) bs ! nat (len - 1)"
proof -
  let ?sc = "block_scores bs logits len" and ?n = "n_blocks (length logits) bs"
  let ?sel = "topb ?sc (min cand ?n)"
  have sel: "length ?sel = min cand ?n" "set ?sel \<subseteq> {..<?n}"
    "\<And>i j. i \<in> set ?sel \<Longrightarrow> j < ?n \<Longrightarrow> j \<notin> set ?sel \<Longrightarrow> ?sc ! j \<le> ?sc ! i"
    using assms(1) unfolding takes_top_def by (metis block_scores_length min.cobounded2)+
  have ids: "candidate_block_ids topb cand bs logits len = map (\<lambda>i. if above_ninf (?sc ! i) then int i else -1) ?sel"
    by (simp add: candidate_block_ids_def Let_def)
  have mask: "candidate_mask (candidate_block_ids topb cand bs logits len) (length logits) bs
      = map (\<lambda>c. c div bs \<in> set ?sel \<and> above_ninf (?sc ! (c div bs))) [0..<length logits]"
    unfolding ids using sel(2) assms(2)
    by (subst candidate_mask_eq) (auto simp: image_iff split: if_splits)
  define b where "b = nat (len - 1) div bs"
  have c: "nat (len - 1) < length logits" using assms(4,5) by linarith
  have b: "b < ?n" unfolding b_def by (rule block_lt [OF assms(2) c])
  have newest: "int b = (len - 1) div int bs" using assms(4) by (simp add: b_def zdiv_int)
  then have top: "?sc ! b = PInf" using b by (simp add: block_scores_def Let_def)
  have "b \<in> set ?sel"
  proof (rule ccontr)
    assume nb: "b \<notin> set ?sel"
    have "0 < length ?sel" using sel(1) assms(3) b by simp
    then obtain i where i: "i \<in> set ?sel" by (meson nth_mem)
    then have "i < ?n" "i \<noteq> b" using sel(2) nb by auto
    then have "?sc ! i < PInf" using newest by (intro other_blocks_below [OF assms(2,6)]) auto
    then show False using sel(3) [OF i b nb] top by (metis leD)
  qed
  then have "candidate_mask (candidate_block_ids topb cand bs logits len) (length logits) bs ! nat (len - 1)"
    unfolding mask using c top by (simp add: b_def above_ninf_def)
  with mask show ?thesis by simp
qed

theorem split_selection_exact_witness:
  "select_all \<lparr>x_source = True, x_uses = False, x_topk = 1, x_cand_blocks = 1, x_block_size = 2\<rparr>
      \<lparr>k_scorer = \<lambda>rs w. map (\<lambda>r. [Fin (fst r), Fin 1, Fin 2, Fin 0]) rs, k_topk = map (\<lambda>(l, n, k). [k]), k_mask_topk = map (\<lambda>(l, s, k). s),
        k_topb = \<lambda>xs k. [0..<k], k_consume = \<lambda>_ _. []\<rparr> [(3, 0, 2), (1, 4, 1)] [3] [2] 4
    = select_all \<lparr>x_source = True, x_uses = False, x_topk = 1, x_cand_blocks = 1, x_block_size = 2\<rparr>
      \<lparr>k_scorer = \<lambda>rs w. map (\<lambda>r. [Fin (fst r), Fin 1, Fin 2, Fin 0]) rs, k_topk = map (\<lambda>(l, n, k). [k]), k_mask_topk = map (\<lambda>(l, s, k). s),
        k_topb = \<lambda>xs k. [0..<k], k_consume = \<lambda>_ _. []\<rparr> [(3, 0, 2), (1, 4, 1)] [3] [2] 1"
  by (rule split_selection_exact [where sc = "\<lambda>r w. [Fin (fst r), Fin 1, Fin 2, Fin 0]" and tk = "\<lambda>(l, n, k). [k]" and mk = "\<lambda>(l, s, k). s"])
    (simp_all add: row_kernels_def)

theorem candidate_mask_lossless_witness:
  "candidate_mask (candidate_block_ids sorted_top 1 2 [Fin 5, Fin 1, Fin 2, NInf, NInf] 3) (length [Fin 5, Fin 1, Fin 2, NInf, NInf]) 2 ! nat (3 - 1)"
  by (rule candidate_mask_lossless [OF sorted_top_takes_top, THEN conjunct2]) (simp_all add: less_fval_def)

end
