(* ===== verification/Index_Chunked.thy ===== *)
theory Index_Chunked
  imports Prefill_Split
begin

text \<open>
  The dense prefill indexer in bounded row chunks (\<open>adapter/indexer_chunked.py\<close>, \<open>adapter/indexer_chunked_v3.py\<close>): keys and
  rows of a batch, the loop over row chunks of each request, the candidate masks cut to the rows that survive a bounded replay,
  the page and raw indices, the split of the rows over the ranks in the third version, and the choice of a backport for
  the engine's source. The second version is the third without the split.

  The engine's kernels are arguments (\<open>kernels\<close> of \<open>Prefill_Split\<close> for the keys of the batch, the block selection, the
  alignment, and what uninitialised tensors hold). A query row is opaque, with its position. The masks a consumer reads have one
  row per query row of the request. Log lines are left out.
\<close>

section \<open>Settings\<close>

definition idx_enabled :: "environ \<Rightarrow> string \<Rightarrow> bool" where
  "idx_enabled env name = (py_strip (env_get env name ''0'') \<notin> {''0'', ''off'', ''false'', []})"

definition DEFAULT_BUDGET_BYTES :: int where "DEFAULT_BUDGET_BYTES = 2 ^ 31"

definition budget_bytes :: "environ \<Rightarrow> int" where
  "budget_bytes env =
     (let raw = py_strip (env_get env ''DSV41_INDEXER_LOGITS_BUDGET_BYTES'' []) in
      if raw = [] then DEFAULT_BUDGET_BYTES
      else case py_int raw of None \<Rightarrow> DEFAULT_BUDGET_BYTES | Some v \<Rightarrow> if 0 < v then v else DEFAULT_BUDGET_BYTES)"

text \<open>\<open>attrs\<close>: the names of the engine module; \<open>methods\<close>: those of its backend class, when it has one; \<open>src\<close>: the source of the
  stock method. The outcome is the untouched engine, or the budget of the replacement and whether ranks split rows.\<close>

datatype armed = Untouched | Armed int bool

definition NEEDED_V1 :: "string list" where
  "NEEDED_V1 = [''_dense_fp4_mqa_logits'', ''topk_transform_ragged_v2'', ''_mask_topk_scores'', ''select_candidate_blocks'', ''ceil_align'', ''_as_int_list'']"

definition NEEDED_V3 :: "string list" where
  "NEEDED_V3 = [''_dense_fp4_mqa_logits'', ''topk_transform_ragged_v2'', ''mask_topk_scores'', ''select_candidate_blocks'', ''ceil_align'',
     ''_as_int_list'', ''CandidateMasks'', ''published_masks'', ''get_parallel'']"

definition drifted_backend :: "string list \<Rightarrow> string list option \<Rightarrow> string list \<Rightarrow> bool" where
  "drifted_backend attrs methods needed =
     (methods = None \<or> filter (\<lambda>n. n \<notin> set attrs) needed \<noteq> [] \<or> ''_low_ratio_index_topk_dense'' \<notin> set (the methods))"

definition install_v1 :: "environ \<Rightarrow> string list \<Rightarrow> string list option \<Rightarrow> string \<Rightarrow> armed res" where
  "install_v1 env attrs methods src =
     (if \<not> idx_enabled env ''DSV41_INDEXER_CHUNKED'' then Inr Untouched
      else if drifted_backend attrs methods NEEDED_V1 then Inl RuntimeError
      else if \<not> contains_str ''self.candidate_masks'' src \<and> \<not> contains_str ''_publish_or_consume_candidates'' src then Inl RuntimeError
      else Inr (Armed (budget_bytes env) False))"

definition install_v3 :: "environ \<Rightarrow> string list \<Rightarrow> string list option \<Rightarrow> string \<Rightarrow> armed res" where
  "install_v3 env attrs methods src =
     (if \<not> idx_enabled env ''DSV41_INDEXER_CHUNKED'' then Inr Untouched
      else if drifted_backend attrs methods NEEDED_V3 then Inl RuntimeError
      else if \<not> contains_str ''candidate_metadata'' src \<or> contains_str ''self.candidate_masks'' src then Inl RuntimeError
      else if contains_str ''_DENSE_INDEXER_LOGITS_BUDGET_BYTES'' src then Inr Untouched
      else Inr (Armed (budget_bytes env) (idx_enabled env ''SPARK_PREFILL_TP_SPLIT'')))"

text \<open>\<open>indexer_budget\<close>: the engine's own budget, replaced by the configured number of MiB.\<close>

definition install_budget :: "environ \<Rightarrow> int option \<Rightarrow> int option" where
  "install_budget env old =
     (let want = py_strip (env_get env ''DSV41_INDEXER_BUDGET_MIB'' []) in
      if want = [] then old
      else case py_int want of
        None \<Rightarrow> old
      | Some n \<Rightarrow> if old = None \<or> n * 2 ^ 20 \<le> 0 then old else Some (n * 2 ^ 20))"

text \<open>The import hook picks the backport by the stock source, or else the budget adapter.\<close>

definition install_indexer :: "environ \<Rightarrow> string list \<Rightarrow> string list option \<Rightarrow> string \<Rightarrow> int option \<Rightarrow> (armed \<times> int option) res" where
  "install_indexer env attrs methods src old =
     (if idx_enabled env ''DSV41_INDEXER_CHUNKED''
      then bind_res (if contains_str ''self.candidate_masks'' src then install_v1 env attrs methods src else install_v3 env attrs methods src)
             (\<lambda>a. Inr (a, old))
      else Inr (Untouched, install_budget env old))"

section \<open>The batch\<close>

text \<open>What the indexer reads of a forward: sequence lengths, request slots, the token table, query lengths (on the device and on
  the host), and the rows each request keeps in a bounded replay without context parallelism.\<close>

record fwd =
  f_seq_lens :: "nat list option"
  f_pool :: "nat list"
  f_table :: "nat \<Rightarrow> nat \<Rightarrow> int"
  f_q_lens :: "nat list"
  f_q_lens_cpu :: "nat list"
  f_tail :: "nat list option"

record idx_state =
  s_page :: "int list list"
  s_raw :: "int list list option"
  s_masks :: "bool list list list"

record 'q engine =
  e_keys :: "int list \<Rightarrow> 'q kernels"
  e_blocks :: "(fval list \<times> int) list \<Rightarrow> nat \<Rightarrow> nat \<Rightarrow> bool list list"
  e_align :: "nat \<Rightarrow> nat"
  e_empty :: "int list"
  e_empty_mask :: "bool list"

definition request_slots :: "(nat \<Rightarrow> nat \<Rightarrow> int) \<Rightarrow> nat \<Rightarrow> nat \<Rightarrow> nat \<Rightarrow> int list" where
  "request_slots table ratio req lc = map (\<lambda>j. table req (j * ratio) div int ratio) [0..<lc]"

fun key_slots :: "(nat \<Rightarrow> nat \<Rightarrow> int) \<Rightarrow> nat \<Rightarrow> nat list \<Rightarrow> nat list \<Rightarrow> int list res" where
  "key_slots table ratio [] pool = Inr []"
| "key_slots table ratio (lc # lcs) pool =
     (if lc = 0 then key_slots table ratio lcs (tl pool)
      else if pool = [] then Inl IndexError
      else bind_res (key_slots table ratio lcs (tl pool)) (\<lambda>s. Inr (request_slots table ratio (hd pool) lc @ s)))"

fun key_starts :: "nat \<Rightarrow> nat list \<Rightarrow> nat list" where
  "key_starts start [] = []"
| "key_starts start (lc # lcs) = start # key_starts (start + lc) lcs"

text \<open>A query row with the first key of its request and its number of keys.\<close>

definition query_rows :: "nat \<Rightarrow> ('q \<times> int) list \<Rightarrow> nat list \<Rightarrow> 'q qrow list" where
  "query_rows ratio toks ks = map2 (\<lambda>(q, pos) k. (q, int k, (pos + 1) div int ratio)) toks ks"

section \<open>The chunk loop\<close>

definition chunk_rows :: "nat \<Rightarrow> nat \<Rightarrow> nat" where
  "chunk_rows budget w = max 1 (budget div (w * 4))"

definition put_rows :: "nat \<Rightarrow> 'a list \<Rightarrow> 'a list \<Rightarrow> 'a list" where
  "put_rows pos new xs = take pos xs @ new @ drop (pos + length new) xs"

definition row_lens :: "'q qrow list \<Rightarrow> int list" where "row_lens part = map (snd \<circ> snd) part"
definition row_starts :: "'q qrow list \<Rightarrow> int list" where "row_starts part = map (fst \<circ> snd) part"

text \<open>The top keys of scored rows; a consumer drops those whose score was masked out.\<close>

definition select_rows :: "indexer \<Rightarrow> 'q kernels \<Rightarrow> fval list list \<Rightarrow> 'q qrow list \<Rightarrow> int list list" where
  "select_rows ix K logits part =
     (let sel = k_topk K (zip logits (zip (row_lens part) (row_starts part)))
      in if x_uses ix \<and> \<not> x_source ix then k_mask_topk K (zip logits (zip sel (row_starts part))) else sel)"

text \<open>The masked scores of the rows \<open>part\<close> of request \<open>b\<close>, which start at its row \<open>c0\<close>.\<close>

definition score_rows :: "indexer \<Rightarrow> 'q kernels \<Rightarrow> nat \<Rightarrow> nat \<Rightarrow> nat \<Rightarrow> nat \<Rightarrow> 'q qrow list \<Rightarrow> fval list list" where
  "score_rows ix K b lc w c0 part =
     (let logits = k_scorer K part w
      in if x_source ix then map_range 0 (length part) (\<lambda>k. fill_row (\<lambda>c. row_lens part ! k \<le> int c) lc) logits
         else if x_uses ix then map_range 0 (length part) (\<lambda>k. fill_row (\<lambda>c. \<not> k_consume K b (c0 + k) ! c) lc) logits
         else logits)"

definition block_masks :: "indexer \<Rightarrow> 'q engine \<Rightarrow> nat \<Rightarrow> fval list list \<Rightarrow> 'q qrow list \<Rightarrow> bool list list" where
  "block_masks ix E lc logits part = e_blocks E (zip (map (take lc) logits) (row_lens part)) (x_cand_blocks ix) (x_block_size ix)"

definition chunk_body ::
  "indexer \<Rightarrow> 'q engine \<Rightarrow> 'q kernels \<Rightarrow> 'q qrow list \<Rightarrow> nat \<times> nat \<times> nat \<times> nat \<Rightarrow> nat \<Rightarrow> nat \<Rightarrow> nat \<Rightarrow> nat \<Rightarrow> int list list \<times> bool list list \<Rightarrow> int list list \<times> bool list list" where
  "chunk_body ix E K rows request w first_pub step c0 st =
     (case (request, st) of ((b, tok, lc, t_len), selected, mask_b) \<Rightarrow>
        let c1 = min (c0 + step) t_len;
            part = slice (tok + c0) (tok + c1) rows;
            logits = score_rows ix K b lc w c0 part;
            p0 = max c0 first_pub
        in (put_rows (tok + c0) (select_rows ix K logits part) selected,
            if x_source ix \<and> p0 < c1
            then put_rows (p0 - first_pub) (block_masks ix E lc (drop (p0 - c0) logits) (drop (p0 - c0) part)) mask_b
            else mask_b))"

definition chunk_offsets :: "nat \<Rightarrow> nat \<Rightarrow> nat list" where
  "chunk_offsets step t_len = map (\<lambda>j. j * step) [0..<(t_len + step - 1) div step]"

text \<open>The loop over the requests, given as their numbers of keys and of rows; \<open>pubs\<close> are the rows each one publishes.\<close>

definition dense_request ::
  "indexer \<Rightarrow> 'q engine \<Rightarrow> 'q kernels \<Rightarrow> 'q qrow list \<Rightarrow> nat \<Rightarrow> nat list option \<Rightarrow> nat \<Rightarrow> nat \<Rightarrow> nat \<Rightarrow> nat \<Rightarrow> int list list \<times> bool list list list
   \<Rightarrow> (int list list \<times> bool list list list) res" where
  "dense_request ix E K rows budget pubs b tok lc t_len st =
     (case st of (selected, publish) \<Rightarrow>
        if lc = 0 \<or> t_len = 0
        then Inr (map_range tok (tok + t_len) (\<lambda>_ _. replicate (x_topk ix) (-1)) selected, if x_source ix then publish @ [[]] else publish)
        else
          let w = e_align E lc in
          if w = 0 then Inl ZeroDivisionError
          else if pubs \<noteq> None \<and> length (the pubs) \<le> b then Inl IndexError
          else
            let pub_rows = (case pubs of None \<Rightarrow> t_len | Some ps \<Rightarrow> min (ps ! b) t_len);
                step = chunk_rows budget w;
                (selected', mask_b) = fold (chunk_body ix E K rows (b, tok, lc, t_len) w (t_len - pub_rows) step) (chunk_offsets step t_len)
                   (selected, replicate pub_rows (e_empty_mask E))
            in Inr (selected', if x_source ix then publish @ [mask_b] else publish))"

fun dense_loop ::
  "indexer \<Rightarrow> 'q engine \<Rightarrow> 'q kernels \<Rightarrow> 'q qrow list \<Rightarrow> nat \<Rightarrow> nat list option \<Rightarrow> nat \<Rightarrow> nat \<Rightarrow> (nat \<times> nat) list \<Rightarrow> int list list \<times> bool list list list
   \<Rightarrow> (int list list \<times> bool list list list) res" where
  "dense_loop ix E K rows budget pubs b tok [] st = Inr st"
| "dense_loop ix E K rows budget pubs b tok (r # rest) st =
     bind_res (dense_request ix E K rows budget pubs b tok (fst r) (snd r) st)
       (dense_loop ix E K rows budget pubs (Suc b) (tok + snd r) rest)"

section \<open>The rows split over the ranks\<close>

text \<open>The requests that meet the rows \<open>c0\<close> to \<open>c1\<close> of a rank whose first row is \<open>start\<close>.\<close>

definition split_body ::
  "indexer \<Rightarrow> 'q kernels \<Rightarrow> int list \<Rightarrow> nat \<Rightarrow> nat \<Rightarrow> nat \<Rightarrow> nat \<Rightarrow> nat \<Rightarrow> nat \<Rightarrow> nat \<Rightarrow> fval list list \<times> int list list \<Rightarrow> fval list list \<times> int list list" where
  "split_body ix K lens start c0 c1 req lo_r width cnt st =
     (case st of (logits, packed) \<Rightarrow>
        let lo = max c0 lo_r; hi = min c1 (lo_r + cnt) in
        if width = 0 \<or> hi \<le> lo then (logits, packed)
        else if x_source ix then
          (let scores = map_range (lo - c0) (hi - c0) (\<lambda>k. fill_row (\<lambda>c. lens ! k \<le> int c) width) logits
           in (scores, map_range (lo - start) (hi - start)
                (\<lambda>k row. put_ids (x_topk ix)
                  (candidate_block_ids (k_topb K) (x_cand_blocks ix) (x_block_size ix) (take width (scores ! (k + start - c0))) (lens ! (k + start - c0))) row) packed))
        else if x_uses ix then
          (map_range (lo - c0) (hi - c0) (\<lambda>k. fill_row (\<lambda>c. \<not> k_consume K req (c0 + k - lo_r) ! c) width) logits, packed)
        else (logits, packed))"

fun split_requests ::
  "indexer \<Rightarrow> 'q kernels \<Rightarrow> int list \<Rightarrow> nat \<Rightarrow> nat \<Rightarrow> nat \<Rightarrow> nat \<Rightarrow> nat \<Rightarrow> (nat \<times> nat) list \<Rightarrow> fval list list \<times> int list list \<Rightarrow> fval list list \<times> int list list" where
  "split_requests ix K lens start c0 c1 req lo_r [] st = st"
| "split_requests ix K lens start c0 c1 req lo_r (r # rest) st =
     split_requests ix K lens start c0 c1 (Suc req) (lo_r + snd r) rest (split_body ix K lens start c0 c1 req lo_r (fst r) (snd r) st)"

definition split_chunk ::
  "indexer \<Rightarrow> 'q kernels \<Rightarrow> 'q qrow list \<Rightarrow> (nat \<times> nat) list \<Rightarrow> nat \<Rightarrow> nat \<Rightarrow> nat \<Rightarrow> nat \<Rightarrow> nat \<Rightarrow> int list list \<Rightarrow> int list list" where
  "split_chunk ix K rows requests w start end_row step c0 packed =
     (let c1 = min (c0 + step) end_row;
          part = slice c0 c1 rows;
          (logits, packed') = split_requests ix K (row_lens part) start c0 c1 0 0 requests (k_scorer K part w, packed);
          sel = select_rows ix K logits part
      in map_range (c0 - start) (c1 - start) (\<lambda>k row. put_ids 0 (sel ! (k - (c0 - start))) row) packed')"

definition split_local ::
  "indexer \<Rightarrow> 'q engine \<Rightarrow> 'q kernels \<Rightarrow> 'q qrow list \<Rightarrow> nat list \<Rightarrow> nat list \<Rightarrow> nat \<Rightarrow> nat \<Rightarrow> nat \<Rightarrow> int list list res" where
  "split_local ix E K rows lengths q_lengths budget world rank =
     bind_res (partition_rows (int (length rows)) (int world) (int rank) 128) (\<lambda>(s, e, ext).
       let start = nat s; end_row = nat e; extent = nat ext in
       if lengths = [] then Inl ValueError
       else
         let packed = replicate extent (replicate (x_topk ix + mask_blocks ix lengths) (-1));
             w = e_align E (Max (set lengths))
         in if end_row \<le> start then Inr packed
            else if w = 0 then Inl ZeroDivisionError
            else if sum_list (map snd (zip lengths q_lengths)) \<noteq> length rows then Inl AssertionError
            else let step = chunk_rows budget w
                 in Inr (fold (\<lambda>j. split_chunk ix K rows (zip lengths q_lengths) w start end_row step (start + j * step))
                      [0..<(end_row - start + step - 1) div step] packed))"

fun tail_masks :: "indexer \<Rightarrow> int list list \<Rightarrow> nat list option \<Rightarrow> nat \<Rightarrow> nat \<Rightarrow> (nat \<times> nat) list \<Rightarrow> bool list list list res" where
  "tail_masks ix gathered pubs b offset [] = Inr []"
| "tail_masks ix gathered pubs b offset ((width, cnt) # rest) =
     (if width = 0 \<or> cnt = 0 then bind_res (tail_masks ix gathered pubs (Suc b) (offset + cnt) rest) (\<lambda>ms. Inr ([] # ms))
      else if (case pubs of None \<Rightarrow> False | Some ps \<Rightarrow> length ps \<le> b) then Inl IndexError
      else
        let nb = min (x_cand_blocks ix) (n_blocks width (x_block_size ix));
            pub = (case pubs of None \<Rightarrow> cnt | Some ps \<Rightarrow> min (ps ! b) cnt);
            mask = map (\<lambda>row. candidate_mask (slice (x_topk ix) (x_topk ix + nb) row) width (x_block_size ix)) (slice (offset + cnt - pub) (offset + cnt) gathered)
        in bind_res (tail_masks ix gathered pubs (Suc b) (offset + cnt) rest) (\<lambda>ms. Inr (mask # ms)))"

text \<open>All ranks at once: every rank gathers the same rows.\<close>

definition split_select ::
  "indexer \<Rightarrow> 'q engine \<Rightarrow> 'q kernels \<Rightarrow> 'q qrow list \<Rightarrow> nat list \<Rightarrow> nat list \<Rightarrow> nat \<Rightarrow> nat list option \<Rightarrow> nat \<Rightarrow> (int list list \<times> bool list list list) res" where
  "split_select ix E K rows lengths q_lengths budget pubs world =
     bind_res (fold (\<lambda>rank acc. bind_res acc (\<lambda>g. bind_res (split_local ix E K rows lengths q_lengths budget world rank) (\<lambda>l. Inr (g @ l)))) [0..<world] (Inr []))
       (\<lambda>all_rows.
          let gathered = take (length rows) all_rows
          in bind_res (if x_source ix then tail_masks ix gathered pubs 0 0 (zip lengths q_lengths) else Inr [])
               (\<lambda>masks. Inr (map (take (x_topk ix)) gathered, masks)))"

section \<open>The indexer\<close>

definition INT32_MAX :: int where "INT32_MAX = 2 ^ 31 - 1"

text \<open>Ascending positions, padding last.\<close>

definition sorted_row :: "int list \<Rightarrow> int list" where
  "sorted_row row = sort (map (\<lambda>s. if s < 0 then INT32_MAX else s) row)"

definition page_row :: "int list \<Rightarrow> int list \<Rightarrow> int list" where
  "page_row slots row = map (\<lambda>s. if s = INT32_MAX then -1 else slots ! nat (min s (int (length slots) - 1))) row"

definition raw_row :: "int \<Rightarrow> int list \<Rightarrow> int list" where
  "raw_row k row = map (\<lambda>s. if s = INT32_MAX then -1 else s - k) row"

definition blank :: "idx_state \<Rightarrow> idx_state" where
  "blank st = st\<lparr>s_page := map (map (\<lambda>_. -1)) (s_page st), s_raw := map_option (map (map (\<lambda>_. -1))) (s_raw st)\<rparr>"

definition write_indices :: "int list \<Rightarrow> int list \<Rightarrow> int list list \<Rightarrow> idx_state \<Rightarrow> idx_state" where
  "write_indices slots ks selected st =
     (let rows = map sorted_row selected in
      st\<lparr>s_page := map_range 0 (length rows) (\<lambda>i. put_ids 0 (page_row slots (rows ! i))) (s_page st),
         s_raw := map_option (map_range 0 (length rows) (\<lambda>i. put_ids 0 (raw_row (ks ! i) (rows ! i)))) (s_raw st)\<rparr>)"

definition consuming :: "'q kernels \<Rightarrow> bool list list list \<Rightarrow> 'q kernels" where
  "consuming K masks = K\<lparr>k_consume := \<lambda>b c. masks ! b ! c\<rparr>"

text \<open>The method around its selection loop, which gets the kernels, the rows, the requests and the published rows.\<close>

definition index_topk ::
  "('q kernels \<Rightarrow> 'q qrow list \<Rightarrow> nat list \<Rightarrow> nat list option \<Rightarrow> (int list list \<times> bool list list list) res) \<Rightarrow>
   indexer \<Rightarrow> nat \<Rightarrow> 'q engine \<Rightarrow> fwd \<Rightarrow> ('q \<times> int) list \<Rightarrow> idx_state \<Rightarrow> idx_state res" where
  "index_topk select ix ratio E F toks st0 =
     (let st = blank st0 in
      case f_seq_lens F of
        None \<Rightarrow> Inl AssertionError
      | Some seq_lens \<Rightarrow>
          if ratio = 0 \<and> seq_lens \<noteq> [] then Inl ZeroDivisionError
          else
            let lcs = map (\<lambda>s. s div ratio) seq_lens in
            bind_res (key_slots (f_table F) ratio lcs (f_pool F)) (\<lambda>slots.
              if slots = [] \<or> toks = [] then Inr (if x_source ix then st\<lparr>s_masks := map (\<lambda>_. []) lcs\<rparr> else st)
              else
                let starts = key_starts 0 lcs; ks = concat (map2 replicate (f_q_lens F) starts) in
                if length (f_q_lens F) \<noteq> length starts \<or> length ks \<noteq> length toks then Inl RuntimeError
                else
                  let rows = query_rows ratio toks ks in
                  bind_res (select (consuming (e_keys E slots) (s_masks st)) rows lcs (if x_source ix then f_tail F else None)) (\<lambda>(selected, masks).
                    Inr (write_indices slots (row_starts rows) selected (if x_source ix then st\<lparr>s_masks := masks\<rparr> else st)))))"

definition chunked_select ::
  "indexer \<Rightarrow> 'q engine \<Rightarrow> nat \<Rightarrow> nat list \<Rightarrow> 'q kernels \<Rightarrow> 'q qrow list \<Rightarrow> nat list \<Rightarrow> nat list option \<Rightarrow> (int list list \<times> bool list list list) res" where
  "chunked_select ix E budget q_lens_cpu K rows lcs pubs =
     (if pubs \<noteq> None \<and> length (the pubs) \<noteq> length q_lens_cpu then Inl AssertionError
      else dense_loop ix E K rows budget pubs 0 0 (zip lcs q_lens_cpu) (replicate (length rows) (e_empty E), []))"

definition index_topk_v1 :: "indexer \<Rightarrow> nat \<Rightarrow> nat \<Rightarrow> 'q engine \<Rightarrow> fwd \<Rightarrow> ('q \<times> int) list \<Rightarrow> idx_state \<Rightarrow> idx_state res" where
  "index_topk_v1 ix budget ratio E F = index_topk (chunked_select ix E budget (f_q_lens_cpu F)) ix ratio E F"

text \<open>The third version on all ranks: \<open>tp\<close> holds the group size and the settings of the split when it is installed, \<open>now\<close> whether the
  forward is a prefill, on CUDA, and being captured.\<close>

definition index_topk_v3 ::
  "(nat \<times> bool \<times> int \<times> int) option \<Rightarrow> bool \<times> bool \<times> bool \<Rightarrow> indexer \<Rightarrow> nat \<Rightarrow> nat \<Rightarrow> 'q engine \<Rightarrow> fwd \<Rightarrow> ('q \<times> int) list \<Rightarrow> idx_state \<Rightarrow> idx_state res" where
  "index_topk_v3 tp now ix budget ratio E F = index_topk (\<lambda>K rows lcs pubs.
     case (tp, now) of
       (Some (world, cfg), prefill, cuda, capturing) \<Rightarrow>
         if eligible cfg (int (length rows)) (int (Max (set lcs))) prefill cuda capturing
         then split_select ix E K rows lcs (f_q_lens_cpu F) budget pubs world
         else chunked_select ix E budget (f_q_lens_cpu F) K rows lcs pubs
     | _ \<Rightarrow> chunked_select ix E budget (f_q_lens_cpu F) K rows lcs pubs) ix ratio E F"

section \<open>The reference: a request scored at once\<close>

text \<open>One score tensor per request, masks for all its rows, cut to the rows it publishes.\<close>

definition whole_request ::
  "indexer \<Rightarrow> 'q engine \<Rightarrow> 'q kernels \<Rightarrow> 'q qrow list \<Rightarrow> nat list option \<Rightarrow> nat \<Rightarrow> nat \<Rightarrow> nat \<Rightarrow> nat \<Rightarrow> int list list \<times> bool list list list
   \<Rightarrow> (int list list \<times> bool list list list) res" where
  "whole_request ix E K rows pubs b tok lc t_len st =
     (case st of (selected, publish) \<Rightarrow>
        if lc = 0 \<or> t_len = 0
        then Inr (map_range tok (tok + t_len) (\<lambda>_ _. replicate (x_topk ix) (-1)) selected, if x_source ix then publish @ [[]] else publish)
        else if e_align E lc = 0 then Inl ZeroDivisionError
        else if pubs \<noteq> None \<and> length (the pubs) \<le> b then Inl IndexError
        else
          let part = slice tok (tok + t_len) rows;
              logits = score_rows ix K b lc (e_align E lc) 0 part;
              pub_rows = (case pubs of None \<Rightarrow> t_len | Some ps \<Rightarrow> min (ps ! b) t_len)
          in Inr (put_rows tok (select_rows ix K logits part) selected,
                  if x_source ix then publish @ [drop (t_len - pub_rows) (block_masks ix E lc logits part)] else publish))"

fun whole_loop ::
  "indexer \<Rightarrow> 'q engine \<Rightarrow> 'q kernels \<Rightarrow> 'q qrow list \<Rightarrow> nat list option \<Rightarrow> nat \<Rightarrow> nat \<Rightarrow> (nat \<times> nat) list \<Rightarrow> int list list \<times> bool list list list
   \<Rightarrow> (int list list \<times> bool list list list) res" where
  "whole_loop ix E K rows pubs b tok [] st = Inr st"
| "whole_loop ix E K rows pubs b tok (r # rest) st =
     bind_res (whole_request ix E K rows pubs b tok (fst r) (snd r) st) (whole_loop ix E K rows pubs (Suc b) (tok + snd r) rest)"

definition whole_select ::
  "indexer \<Rightarrow> 'q engine \<Rightarrow> nat list \<Rightarrow> 'q kernels \<Rightarrow> 'q qrow list \<Rightarrow> nat list \<Rightarrow> nat list option \<Rightarrow> (int list list \<times> bool list list list) res" where
  "whole_select ix E q_lens_cpu K rows lcs pubs =
     (if pubs \<noteq> None \<and> length (the pubs) \<noteq> length q_lens_cpu then Inl AssertionError
      else whole_loop ix E K rows pubs 0 0 (zip lcs q_lens_cpu) (replicate (length rows) (e_empty E), []))"

section \<open>Row by row\<close>

lemma put_rows_map_range: "a \<le> b \<Longrightarrow> b \<le> length xs \<Longrightarrow> put_rows a (map f [a..<b]) xs = map_range a b (\<lambda>i _. f i) xs"
  by (rule nth_equalityI) (auto simp: put_rows_def map_range_nth nth_append)

lemma map_range_const_all: "map_range 0 (length xs) (\<lambda>i _. f i) xs = map f [0..<length xs]"
  by (rule nth_equalityI) (auto simp: map_range_nth)

lemma map_range_cong: "(\<And>i x. a \<le> i \<Longrightarrow> i < b \<Longrightarrow> f i x = g i x) \<Longrightarrow> map_range a b f xs = map_range a b g xs"
  by (rule nth_equalityI) (auto simp: map_range_nth)

lemma fold_map_range_from:
  fixes step :: nat
  shows "fold (\<lambda>c. map_range (c - fp) (min (c + step) t - fp) f) (map (\<lambda>j. j * step) [0..<n]) xs = map_range 0 (min (n * step) t - fp) f xs"
proof (induction n)
  case (Suc n)
  have "map_range (n * step - fp) (min (n * step + step) t - fp) f (map_range 0 (min (n * step) t - fp) f xs)
      = map_range 0 (min (n * step + step) t - fp) f xs"
  proof (cases "n * step \<le> t")
    case True
    then show ?thesis by (simp add: map_range_join)
  next
    case False
    then show ?thesis by simp
  qed
  then show ?case using Suc by (simp add: add.commute)
qed simp

lemma chunks_cover: "0 < step \<Longrightarrow> t \<le> (t + step - 1) div step * (step :: nat)"
  using ceil_to_ge [of step t] by (simp add: ceil_to_def)

lemma chunk_rows_pos [simp]: "0 < chunk_rows budget w"
  by (simp add: chunk_rows_def)

text \<open>The scores of one row under its mask, its selection and its candidate mask.\<close>

definition masked_row :: "indexer \<Rightarrow> 'q kernels \<Rightarrow> nat \<Rightarrow> nat \<Rightarrow> nat \<Rightarrow> int \<Rightarrow> fval list \<Rightarrow> fval list" where
  "masked_row ix K b lc c len row =
     (if x_source ix then fill_row (\<lambda>j. len \<le> int j) lc row
      else if x_uses ix then fill_row (\<lambda>j. \<not> k_consume K b c ! j) lc row else row)"

definition chosen_row :: "indexer \<Rightarrow> (fval list \<times> int \<times> int \<Rightarrow> int list) \<Rightarrow> (fval list \<times> int list \<times> int \<Rightarrow> int list) \<Rightarrow> fval list \<Rightarrow> int \<Rightarrow> int \<Rightarrow> int list" where
  "chosen_row ix tk mk row k len =
     (let sel = tk (row, len, k) in if x_uses ix \<and> \<not> x_source ix then mk (row, sel, k) else sel)"

lemma score_rows_eq:
  assumes "row_kernels K sc tk mk"
  shows "score_rows ix K b lc w c0 part = map (\<lambda>i. masked_row ix K b lc (c0 + i) (snd (snd (part ! i))) (sc (part ! i) w)) [0..<length part]"
  using assms by (intro nth_equalityI) (auto simp: score_rows_def row_kernels_def masked_row_def map_range_nth row_lens_def Let_def)

lemma select_rows_eq:
  assumes "row_kernels K sc tk mk" and "length logits = length part"
  shows "select_rows ix K logits part = map (\<lambda>i. chosen_row ix tk mk (logits ! i) (fst (snd (part ! i))) (snd (snd (part ! i)))) [0..<length part]"
  using assms by (intro nth_equalityI) (auto simp: select_rows_def row_kernels_def chosen_row_def row_lens_def row_starts_def Let_def)

lemma block_masks_eq:
  assumes "\<And>xs c bs. e_blocks E xs c bs = map (\<lambda>x. bm x c bs) xs" and "length logits = length part"
  shows "block_masks ix E lc logits part = map (\<lambda>i. bm (take lc (logits ! i), snd (snd (part ! i))) (x_cand_blocks ix) (x_block_size ix)) [0..<length part]"
  using assms by (intro nth_equalityI) (auto simp: block_masks_def row_lens_def)

text \<open>What a request gives its row \<open>c\<close>, whatever the chunk that holds the row.\<close>

definition row_scores :: "indexer \<Rightarrow> 'q kernels \<Rightarrow> ('q qrow \<Rightarrow> nat \<Rightarrow> fval list) \<Rightarrow> 'q qrow list \<Rightarrow> nat \<Rightarrow> nat \<Rightarrow> nat \<Rightarrow> nat \<Rightarrow> nat \<Rightarrow> fval list" where
  "row_scores ix K sc rows b tok lc w c = masked_row ix K b lc c (snd (snd (rows ! (tok + c)))) (sc (rows ! (tok + c)) w)"

definition row_choice where
  "row_choice ix K sc tk mk rows b tok lc w c =
     chosen_row ix tk mk (row_scores ix K sc rows b tok lc w c) (fst (snd (rows ! (tok + c)))) (snd (snd (rows ! (tok + c))))"

definition row_mask where
  "row_mask ix K sc bm rows b tok lc w c = bm (take lc (row_scores ix K sc rows b tok lc w c), snd (snd (rows ! (tok + c)))) (x_cand_blocks ix) (x_block_size ix)"

lemma chunk_part_length: "c1 \<le> t \<Longrightarrow> tok + t \<le> length rows \<Longrightarrow> length (slice (tok + a) (tok + c1) rows) = c1 - a"
  by (auto simp: min_def)

lemma part_scores:
  assumes "row_kernels K sc tk mk" and "c1 \<le> t" and "tok + t \<le> length rows"
  shows "score_rows ix K b lc w a (slice (tok + a) (tok + c1) rows) = map (row_scores ix K sc rows b tok lc w) [a..<c1]"
  unfolding score_rows_eq [OF assms(1)] chunk_part_length [OF assms(2,3)] using assms(2,3)
  by (rule_tac nth_equalityI) (simp_all add: nth_slice row_scores_def add.assoc)

lemma part_choice:
  assumes "row_kernels K sc tk mk" and "c1 \<le> t" and "tok + t \<le> length rows"
  shows "select_rows ix K (map (row_scores ix K sc rows b tok lc w) [a..<c1]) (slice (tok + a) (tok + c1) rows)
    = map (row_choice ix K sc tk mk rows b tok lc w) [a..<c1]"
proof -
  note chunk_part_length [OF assms(2,3), of a]
  then show ?thesis using assms(2,3)
    by (subst select_rows_eq [OF assms(1)]) (auto intro!: nth_equalityI simp: nth_slice row_choice_def add.assoc)
qed

lemma part_masks:
  assumes "\<And>xs c bs. e_blocks E xs c bs = map (\<lambda>x. bm x c bs) xs" and "c1 \<le> t" and "tok + t \<le> length rows" and "a \<le> p0"
  shows "block_masks ix E lc (drop (p0 - a) (map (row_scores ix K sc rows b tok lc w) [a..<c1])) (drop (p0 - a) (slice (tok + a) (tok + c1) rows))
    = map (row_mask ix K sc bm rows b tok lc w) [p0..<c1]"
proof -
  note chunk_part_length [OF assms(2,3), of a]
  then show ?thesis using assms(2-4)
    by (subst block_masks_eq [where bm = bm, OF assms(1)]) (auto intro!: nth_equalityI simp: nth_slice row_mask_def add.assoc)
qed

lemma chunk_index_less: "0 < step \<Longrightarrow> j < (t + step - 1) div step \<Longrightarrow> j * step < (t :: nat)"
proof -
  assume step: "0 < step" and "j < (t + step - 1) div step"
  then have "Suc j * step \<le> (t + step - 1) div step * step" by (intro mult_le_mono1) simp
  then have "Suc j * step \<le> t + step - 1" using div_times_less_eq_dividend [of "t + step - 1" step] by (rule order_trans)
  then show "j * step < t" using step by simp
qed

lemma chunk_offset_less: "0 < step \<Longrightarrow> c \<in> set (chunk_offsets step t) \<Longrightarrow> c < t"
  unfolding chunk_offsets_def set_map set_upt by (elim imageE) (simp add: chunk_index_less)

lemma chunk_body_eq:
  assumes K: "row_kernels K sc tk mk" and bm: "\<And>xs c bs. e_blocks E xs c bs = map (\<lambda>x. bm x c bs) xs"
    and t: "tok + t \<le> length rows" and len: "length selected = length rows" "length mask_b = t - fp" and c0: "c0 < t" "0 < step"
  shows "chunk_body ix E K rows (b, tok, lc, t) w fp step c0 (selected, mask_b)
    = (map_range (tok + c0) (tok + min (c0 + step) t) (\<lambda>i _. row_choice ix K sc tk mk rows b tok lc w (i - tok)) selected,
       if x_source ix then map_range (c0 - fp) (min (c0 + step) t - fp) (\<lambda>k _. row_mask ix K sc bm rows b tok lc w (fp + k)) mask_b else mask_b)"
proof -
  let ?c1 = "min (c0 + step) t" and ?p0 = "max c0 fp"
  let ?part = "slice (tok + c0) (tok + ?c1) rows"
  have c1: "?c1 \<le> t" "c0 < ?c1" using c0 by auto
  have shift: "map f [a..<b] = map (\<lambda>i. f (i - tok)) [tok + a..<tok + b]" for f :: "nat \<Rightarrow> 'z" and a b
    by (rule nth_equalityI) auto
  have down: "map f [a..<b] = map (\<lambda>k. f (fp + k)) [a - fp..<b - fp]" if "fp \<le> a" for f :: "nat \<Rightarrow> 'z" and a b
    using that by (intro nth_equalityI) auto
  have 1: "put_rows (tok + c0) (map (row_choice ix K sc tk mk rows b tok lc w) [c0..<?c1]) selected
      = map_range (tok + c0) (tok + ?c1) (\<lambda>i _. row_choice ix K sc tk mk rows b tok lc w (i - tok)) selected"
    unfolding shift [of "row_choice ix K sc tk mk rows b tok lc w"] using c1 t len by (intro put_rows_map_range) auto
  have 2: "(if x_source ix \<and> ?p0 < ?c1 then put_rows (?p0 - fp) (map (row_mask ix K sc bm rows b tok lc w) [?p0..<?c1]) mask_b else mask_b)
      = (if x_source ix then map_range (c0 - fp) (?c1 - fp) (\<lambda>k _. row_mask ix K sc bm rows b tok lc w (fp + k)) mask_b else mask_b)"
  proof (cases "?p0 < ?c1")
    case True
    have "put_rows (?p0 - fp) (map (row_mask ix K sc bm rows b tok lc w) [?p0..<?c1]) mask_b
        = map_range (?p0 - fp) (?c1 - fp) (\<lambda>k _. row_mask ix K sc bm rows b tok lc w (fp + k)) mask_b"
      by (subst down) (use True c1 len in \<open>auto intro!: put_rows_map_range\<close>)
    moreover have "?p0 - fp = c0 - fp" by auto
    ultimately show ?thesis using True by simp
  next
    case False
    then show ?thesis using c1(2) by auto
  qed
  show ?thesis
    unfolding chunk_body_def prod.case Let_def part_scores [OF K c1(1) t] part_choice [OF K c1(1) t]
      part_masks [where E = E and bm = bm, OF bm c1(1) t max.cobounded1] 1 2 ..
qed

lemma chunks_eq:
  assumes K: "row_kernels K sc tk mk" and bm: "\<And>xs c bs. e_blocks E xs c bs = map (\<lambda>x. bm x c bs) xs"
    and t: "tok + t \<le> length rows" and len: "length selected = length rows" "length mask_b = t - fp" and step: "0 < step"
  shows "fold (chunk_body ix E K rows (b, tok, lc, t) w fp step) (chunk_offsets step t) (selected, mask_b)
    = (map_range tok (tok + t) (\<lambda>i _. row_choice ix K sc tk mk rows b tok lc w (i - tok)) selected,
       if x_source ix then map (\<lambda>k. row_mask ix K sc bm rows b tok lc w (fp + k)) [0..<t - fp] else mask_b)"
proof -
  let ?f = "\<lambda>i _. row_choice ix K sc tk mk rows b tok lc w (i - tok)" and ?g = "\<lambda>k _. row_mask ix K sc bm rows b tok lc w (fp + k)"
  have run: "fold (chunk_body ix E K rows (b, tok, lc, t) w fp step) cs (sel, m)
      = (fold (\<lambda>c. map_range (tok + c) (tok + min (c + step) t) ?f) cs sel,
         if x_source ix then fold (\<lambda>c. map_range (c - fp) (min (c + step) t - fp) ?g) cs m else m)"
    if "\<forall>c\<in>set cs. c < t" "length sel = length rows" "length m = t - fp" for cs sel m
    using that
  proof (induction cs arbitrary: sel m)
    case (Cons c cs)
    then show ?case by (simp add: chunk_body_eq [where bm = bm, OF K bm t _ _ _ step])
  qed simp
  let ?n = "(t + step - 1) div step"
  have n: "min (?n * step) t = t" using chunks_cover [OF step, of t] by simp
  have "\<forall>c\<in>set (chunk_offsets step t). c < t" using chunk_offset_less [OF step] by blast
  note run [OF this len]
  moreover have "fold (\<lambda>c. map_range (tok + c) (tok + min (c + step) t) ?f) (chunk_offsets step t) selected = map_range tok (tok + t) ?f selected"
  proof -
    have e: "tok + min (j * step + step) t = min (tok + t) (tok + j * step + step)" for j by (simp add: min_def)
    have "min (tok + t) (tok + ?n * step) = tok + t" using chunks_cover [OF step, of t] by simp
    then show ?thesis using fold_map_range [of tok "tok + t" step ?f ?n selected]
      unfolding chunk_offsets_def fold_map comp_def e by simp
  qed
  moreover have "fold (\<lambda>c. map_range (c - fp) (min (c + step) t - fp) ?g) (chunk_offsets step t) mask_b = map (\<lambda>k. row_mask ix K sc bm rows b tok lc w (fp + k)) [0..<t - fp]"
    using fold_map_range_from [of fp step t ?g ?n mask_b] n map_range_const_all [of mask_b] len(2) unfolding chunk_offsets_def by simp
  ultimately show ?thesis by simp
qed

text \<open>The chunk loop gives every request what the reference gives it.\<close>

lemma dense_request_whole:
  assumes K: "row_kernels K sc tk mk" and bm: "\<And>xs c bs. e_blocks E xs c bs = map (\<lambda>x. bm x c bs) xs"
    and t: "tok + t \<le> length rows" and len: "length (fst st) = length rows"
  shows "dense_request ix E K rows budget pubs b tok lc t st = whole_request ix E K rows pubs b tok lc t st"
proof -
  obtain selected publish where st: "st = (selected, publish)" by (cases st)
  show ?thesis
  proof (cases "lc = 0 \<or> t = 0 \<or> e_align E lc = 0 \<or> pubs \<noteq> None \<and> length (the pubs) \<le> b")
    case True
    then show ?thesis by (auto simp: dense_request_def whole_request_def st Let_def)
  next
    case False
    define pub where "pub = (case pubs of None \<Rightarrow> t | Some ps \<Rightarrow> min (ps ! b) t)"
    have pub: "pub \<le> t" by (simp add: pub_def split: option.splits)
    define w where "w = e_align E lc"
    have wl: "put_rows tok (map (row_choice ix K sc tk mk rows b tok lc w) [0..<t]) selected
        = map_range tok (tok + t) (\<lambda>i _. row_choice ix K sc tk mk rows b tok lc w (i - tok)) selected"
    proof -
      have "map (row_choice ix K sc tk mk rows b tok lc w) [0..<t] = map (\<lambda>i. row_choice ix K sc tk mk rows b tok lc w (i - tok)) [tok..<tok + t]"
        by (rule nth_equalityI) auto
      then show ?thesis using t len by (simp only:) (rule put_rows_map_range, auto simp: st)
    qed
    have "drop (t - pub) (map (row_mask ix K sc bm rows b tok lc w) [0..<t]) = map (\<lambda>k. row_mask ix K sc bm rows b tok lc w (t - pub + k)) [0..<t - (t - pub)]"
      by (rule nth_equalityI) auto
    moreover note chunks_eq [where bm = bm, OF K bm t, where selected = selected and mask_b = "replicate pub (e_empty_mask E)"
        and fp = "t - pub" and step = "chunk_rows budget w" and ix = ix and b = b and lc = lc and w = w]
    moreover note part_scores [OF K order_refl t, where a = 0 and ix = ix and b = b and lc = lc and w = w]
      part_choice [OF K order_refl t, where a = 0 and ix = ix and b = b and lc = lc and w = w]
      part_masks [where E = E and bm = bm, OF bm order_refl t order_refl, where a = 0 and ix = ix and b = b and lc = lc and w = w and K = K and sc = sc]
    ultimately show ?thesis using False len pub
      unfolding dense_request_def whole_request_def st prod.case Let_def w_def [symmetric] pub_def [symmetric]
      by (simp add: wl)
  qed
qed

lemma put_rows_length: "pos + length new \<le> length xs \<Longrightarrow> length (put_rows pos new xs) = length xs"
  by (simp add: put_rows_def)

lemma whole_request_length:
  assumes K: "row_kernels K sc tk mk" and t: "tok + t \<le> length rows"
    and "whole_request ix E K rows pubs b tok lc t st = Inr st'" and "length (fst st) = length rows"
  shows "length (fst st') = length rows"
proof -
  have "length (select_rows ix K (score_rows ix K b lc w 0 (slice tok (tok + t) rows)) (slice tok (tok + t) rows)) = t" for w
    using part_scores [OF K order_refl t, where a = 0 and ix = ix and b = b and lc = lc and w = w]
      part_choice [OF K order_refl t, where a = 0 and ix = ix and b = b and lc = lc and w = w] by simp
  then show ?thesis using assms by (auto simp: whole_request_def Let_def put_rows_length split: if_splits prod.splits)
qed

lemma dense_loop_whole:
  assumes K: "row_kernels K sc tk mk" and bm: "\<And>xs c bs. e_blocks E xs c bs = map (\<lambda>x. bm x c bs) xs"
    and t: "tok + sum_list (map snd reqs) \<le> length rows" and len: "length (fst st) = length rows"
  shows "dense_loop ix E K rows budget pubs b tok reqs st = whole_loop ix E K rows pubs b tok reqs st"
  using t len
proof (induction reqs arbitrary: b tok st)
  case (Cons r reqs)
  have t: "tok + snd r \<le> length rows" using Cons.prems(1) by simp
  show ?case
  proof (cases "whole_request ix E K rows pubs b tok (fst r) (snd r) st")
    case (Inr st')
    have "dense_loop ix E K rows budget pubs (Suc b) (tok + snd r) reqs st' = whole_loop ix E K rows pubs (Suc b) (tok + snd r) reqs st'"
      using Cons.prems by (intro Cons.IH whole_request_length [OF K t Inr]) auto
    then show ?thesis using dense_request_whole [where bm = bm, OF K bm t Cons.prems(2)] Inr by simp
  qed (use dense_request_whole [where bm = bm, OF K bm t Cons.prems(2)] in simp)
qed simp

text \<open>The kernels of an engine act row by row, for any keys.\<close>

definition row_engine ::
  "'q engine \<Rightarrow> (int list \<Rightarrow> 'q qrow \<Rightarrow> nat \<Rightarrow> fval list) \<Rightarrow> (fval list \<times> int \<times> int \<Rightarrow> int list) \<Rightarrow> (fval list \<times> int list \<times> int \<Rightarrow> int list)
   \<Rightarrow> (fval list \<times> int \<Rightarrow> nat \<Rightarrow> nat \<Rightarrow> bool list) \<Rightarrow> bool" where
  "row_engine E sc tk mk bm \<longleftrightarrow>
     (\<forall>slots. row_kernels (e_keys E slots) (sc slots) tk mk) \<and> (\<forall>xs c bs. e_blocks E xs c bs = map (\<lambda>x. bm x c bs) xs)"

lemma consuming_rows: "row_kernels K sc tk mk \<Longrightarrow> row_kernels (consuming K masks) sc tk mk"
  by (simp add: row_kernels_def consuming_def)

lemma key_starts_length [simp]: "length (key_starts s lcs) = length lcs"
  by (induction lcs arbitrary: s) auto

lemma repeat_length: "length qs = length xs \<Longrightarrow> length (concat (map2 replicate qs xs)) = sum_list qs"
  by (induction qs xs rule: list_induct2) auto

lemma query_rows_length [simp]: "length (query_rows ratio toks ks) = min (length toks) (length ks)"
  by (simp add: query_rows_def)

lemma index_topk_cong:
  assumes "\<And>seq slots ks. f_seq_lens F = Some seq \<Longrightarrow> ks = concat (map2 replicate (f_q_lens F) (key_starts 0 (map (\<lambda>s. s div ratio) seq))) \<Longrightarrow>
      length (f_q_lens F) = length seq \<Longrightarrow> length ks = length toks \<Longrightarrow> slots \<noteq> [] \<Longrightarrow>
      key_slots (f_table F) ratio (map (\<lambda>s. s div ratio) seq) (f_pool F) = Inr slots \<Longrightarrow> ratio = 0 \<longrightarrow> seq = [] \<Longrightarrow>
      select (consuming (e_keys E slots) (s_masks st)) (query_rows ratio toks ks) (map (\<lambda>s. s div ratio) seq) (if x_source ix then f_tail F else None)
      = select' (consuming (e_keys E slots) (s_masks st)) (query_rows ratio toks ks) (map (\<lambda>s. s div ratio) seq) (if x_source ix then f_tail F else None)"
  shows "index_topk select ix ratio E F toks st = index_topk select' ix ratio E F toks st"
proof (cases "f_seq_lens F")
  case (Some seq)
  show ?thesis
  proof (cases "key_slots (f_table F) ratio (map (\<lambda>s. s div ratio) seq) (f_pool F)")
    case (Inr slots)
    then show ?thesis using assms [OF Some refl _ _ _ Inr] Some
      by (auto simp: index_topk_def Let_def blank_def)
  next
    case (Inl e)
    then show ?thesis using Some by (cases "ratio = 0 \<and> seq \<noteq> []") (auto simp: index_topk_def Let_def)
  qed
qed (simp add: index_topk_def Let_def)

section \<open>The split in chunks\<close>

lemma map_range_drop:
  assumes "d \<le> length xs"
  shows "map_range (a + d) (b + d) f xs = take d xs @ map_range a b (\<lambda>k. f (k + d)) (drop d xs)"
  using assms by (intro nth_equalityI) (auto simp: map_range_nth nth_append)

lemma split_body_eq:
  assumes "start \<le> c0" and "c0 - start \<le> length packed"
  shows "split_body ix K lens start c0 c1 req off width cnt (logits, packed)
    = (case request_body ix K lens c0 c1 req off width cnt (logits, drop (c0 - start) packed) of (lg, pk) \<Rightarrow> (lg, take (c0 - start) packed @ pk))"
proof -
  let ?d = "c0 - start" and ?a = "max c0 off - c0" and ?b = "min c1 (off + cnt) - c0"
  show ?thesis
  proof (cases "width = 0 \<or> min c1 (off + cnt) \<le> max c0 off")
    case True
    then show ?thesis by (simp add: split_body_def request_body_def)
  next
    case False
    then have 1: "max c0 off - start = ?a + ?d" "min c1 (off + cnt) - start = ?b + ?d" using assms(1) by auto
    have 2: "k + ?d + start - c0 = k" for k using assms(1) by simp
    have 3: "?a \<le> ?b" using False by auto
    show ?thesis unfolding split_body_def request_body_def Let_def prod.case 1 map_range_drop [OF assms(2)] 2 source_rows_eq [OF 3]
      using False by (simp only: if_False simp_thms split: if_split) simp
  qed
qed

lemma split_requests_eq:
  assumes "start \<le> c0" and "c0 - start \<le> length packed"
  shows "split_requests ix K lens start c0 c1 req off reqs (logits, packed)
    = (case request_loop ix K lens c0 c1 req off reqs (logits, drop (c0 - start) packed) of (_, lg, pk) \<Rightarrow> (lg, take (c0 - start) packed @ pk))"
  using assms(2)
proof (induction reqs arbitrary: req off logits packed)
  case (Cons r reqs)
  obtain lg pk where b: "request_body ix K lens c0 c1 req off (fst r) (snd r) (logits, drop (c0 - start) packed) = (lg, pk)" by fastforce
  have "length (take (c0 - start) packed) = c0 - start" using Cons.prems by simp
  then show ?case using Cons.IH [of "take (c0 - start) packed @ pk" "Suc req" "off + snd r" lg] Cons.prems
    by (simp add: split_body_eq [OF assms(1) Cons.prems] b)
qed simp

text \<open>What row \<open>i\<close> adds to its line of the gathered table.\<close>

definition split_row where
  "split_row ix K sc tk mk rows reqs w i line =
     (let len = snd (snd (rows ! i)); ks = fst (snd (rows ! i));
          (lg, pk) = row_step ix K (locate 0 0 reqs i) i len (sc (rows ! i) w, line)
      in put_ids 0 (chosen_row ix tk mk lg ks len) pk)"

lemma split_chunk_eq:
  assumes K: "row_kernels K sc tk mk" and c: "start \<le> c0" "c0 < end_row" "0 < step" and len: "end_row - start \<le> length packed" "end_row \<le> length rows"
  shows "split_chunk ix K rows reqs w start end_row step c0 packed
    = map_range (c0 - start) (min (c0 + step) end_row - start) (\<lambda>k. split_row ix K sc tk mk rows reqs w (start + k)) packed"
proof -
  define e where "e = min (c0 + step) end_row"
  let ?d = "c0 - start"
  let ?part = "slice c0 e rows"
  have c1: "c0 < e" "e \<le> end_row" using c by (auto simp: e_def)
  have part: "length ?part = e - c0" "\<And>k. k < e - c0 \<Longrightarrow> ?part ! k = rows ! (c0 + k)"
    using c1 len(2) by (auto simp: nth_slice min_def)
  have sc: "k_scorer K ?part w = map (\<lambda>r. sc r w) ?part" using K by (simp add: row_kernels_def)
  obtain off lg pk where run: "request_loop ix K (row_lens ?part) c0 e 0 0 reqs (map (\<lambda>r. sc r w) ?part, drop ?d packed) = (off, lg, pk)"
    by (rule prod_cases3)
  have rows: "length lg = e - c0" "length pk = length packed - ?d"
    "\<And>k. k < e - c0 \<Longrightarrow> (lg ! k, pk ! k) = row_step ix K (locate 0 0 reqs (c0 + k)) (c0 + k) (row_lens ?part ! k) (map (\<lambda>r. sc r w) ?part ! k, drop ?d packed ! k)"
    "\<And>k. e - c0 \<le> k \<Longrightarrow> k < length packed - ?d \<Longrightarrow> pk ! k = drop ?d packed ! k"
    using request_loop_rows [OF run] part(1) c1 c len(1) by auto
  have body: "split_requests ix K (row_lens ?part) start c0 e 0 0 reqs (map (\<lambda>r. sc r w) ?part, packed) = (lg, take ?d packed @ pk)"
    using split_requests_eq [OF c(1), of packed ix K "row_lens ?part" e 0 0 reqs] c c1 len(1) run by simp
  have sel_eq: "select_rows ix K lg ?part = map (\<lambda>k. chosen_row ix tk mk (lg ! k) (fst (snd (rows ! (c0 + k)))) (snd (snd (rows ! (c0 + k))))) [0..<e - c0]"
    using part rows(1) by (subst select_rows_eq [OF K]) (auto simp: part(1))
  have take_d: "length (take ?d packed) = ?d" using c c1 len(1) by simp
  define sel where "sel = map (\<lambda>k. chosen_row ix tk mk (lg ! k) (fst (snd (rows ! (c0 + k)))) (snd (snd (rows ! (c0 + k))))) [0..<e - c0]"
  have chunk: "split_chunk ix K rows reqs w start end_row step c0 packed = map_range ?d (e - start) (\<lambda>k row. put_ids 0 (sel ! (k - ?d)) row) (take ?d packed @ pk)"
    unfolding split_chunk_def Let_def e_def [symmetric] sc body prod.case sel_eq sel_def ..
  have table: "(take ?d packed @ pk) ! k = (if k < ?d then packed ! k else pk ! (k - ?d))" "length (take ?d packed @ pk) = length packed" if "k < length packed" for k
    using take_d rows(2) that by (simp_all add: nth_append)
  have keep: "(take ?d packed @ pk) ! k = packed ! k" if "k < length packed" "\<not> (?d \<le> k \<and> k < e - start)" for k
  proof (cases "k < ?d")
    case False
    then have "e - c0 \<le> k - ?d" "k - ?d < length packed - ?d" using that c(1) c1 by auto
    from rows(4) [OF this] show ?thesis using False that(1) table by simp
  qed (use that table in simp)
  have new: "put_ids 0 (sel ! (k - ?d)) ((take ?d packed @ pk) ! k) = split_row ix K sc tk mk rows reqs w (start + k) (packed ! k)"
    if "k < length packed" "?d \<le> k" "k < e - start" for k
  proof -
    define j where "j = k - ?d"
    have j: "k = ?d + j" "j < e - c0" "start + k = c0 + j" using that c(1) by (auto simp: j_def)
    have "row_lens ?part ! j = snd (snd (rows ! (c0 + j)))" using part j(2) by (simp add: row_lens_def)
    then have "(lg ! j, pk ! j) = row_step ix K (locate 0 0 reqs (c0 + j)) (c0 + j) (snd (snd (rows ! (c0 + j)))) (sc (rows ! (c0 + j)) w, packed ! k)"
      using rows(3) [OF j(2)] part j that(1) by simp
    then have "split_row ix K sc tk mk rows reqs w (c0 + j) (packed ! k)
        = put_ids 0 (chosen_row ix tk mk (lg ! j) (fst (snd (rows ! (c0 + j)))) (snd (snd (rows ! (c0 + j))))) (pk ! j)"
      unfolding split_row_def Let_def by (metis (no_types, lifting) prod.case)
    moreover have "(take ?d packed @ pk) ! k = pk ! j" using table(1) [OF that(1)] that(2) by (simp add: j_def)
    moreover have "sel ! (k - ?d) = chosen_row ix tk mk (lg ! j) (fst (snd (rows ! (c0 + j)))) (snd (snd (rows ! (c0 + j))))"
      using j(2) by (simp add: sel_def j_def)
    ultimately show ?thesis unfolding j(3) by (simp only:)
  qed
  show ?thesis unfolding chunk e_def [symmetric]
  proof (rule nth_equalityI)
    show "length (map_range ?d (e - start) (\<lambda>k row. put_ids 0 (sel ! (k - ?d)) row) (take ?d packed @ pk))
        = length (map_range ?d (e - start) (\<lambda>k. split_row ix K sc tk mk rows reqs w (start + k)) packed)"
      using take_d rows(2) by simp
    fix k
    assume "k < length (map_range ?d (e - start) (\<lambda>k row. put_ids 0 (sel ! (k - ?d)) row) (take ?d packed @ pk))"
    then have k: "k < length packed" "k < length (take ?d packed @ pk)" using take_d rows(2) by simp_all
    show "map_range ?d (e - start) (\<lambda>k row. put_ids 0 (sel ! (k - ?d)) row) (take ?d packed @ pk) ! k
        = map_range ?d (e - start) (\<lambda>k. split_row ix K sc tk mk rows reqs w (start + k)) packed ! k"
      unfolding map_range_nth [OF k(1)] map_range_nth [OF k(2)] using new [OF k(1)] keep [OF k(1)] by (cases "?d \<le> k \<and> k < e - start") (simp_all only: if_True if_False simp_thms)
  qed
qed

lemma split_chunks_eq:
  assumes K: "row_kernels K sc tk mk" and step: "0 < step" and len: "end_row - start \<le> length packed" "end_row \<le> length rows" "start < end_row"
  shows "fold (\<lambda>j. split_chunk ix K rows reqs w start end_row step (start + j * step)) [0..<(end_row - start + step - 1) div step] packed
    = map_range 0 (end_row - start) (\<lambda>k. split_row ix K sc tk mk rows reqs w (start + k)) packed"
proof -
  let ?n = "end_row - start" and ?f = "\<lambda>k. split_row ix K sc tk mk rows reqs w (start + k)"
  have "fold (\<lambda>j. split_chunk ix K rows reqs w start end_row step (start + j * step)) js p = fold (\<lambda>j. map_range (0 + j * step) (min ?n (0 + j * step + step)) ?f) js p"
    if "\<forall>j\<in>set js. j * step < ?n" "?n \<le> length p" for js p
    using that
  proof (induction js arbitrary: p)
    case (Cons j js)
    have "start + j * step - start = j * step" "min (start + j * step + step) end_row - start = min ?n (j * step + step)" by auto
    then have "split_chunk ix K rows reqs w start end_row step (start + j * step) p = map_range (j * step) (min ?n (j * step + step)) ?f p"
      using Cons.prems len step by (subst split_chunk_eq [OF K]) auto
    then show ?case using Cons by simp
  qed simp
  moreover have "\<forall>j\<in>set [0..<(?n + step - 1) div step]. j * step < ?n" using chunk_index_less [OF step] by simp
  moreover have "min ?n (0 + (?n + step - 1) div step * step) = ?n" using chunks_cover [OF step, of ?n] by simp
  ultimately show ?thesis using fold_map_range [of 0 ?n step ?f "(?n + step - 1) div step" packed] len(1) by simp
qed

lemma split_local_rows:
  assumes K: "row_kernels K sc tk mk" and r: "rank < world" and ok: "lengths \<noteq> []" "sum_list (map snd (zip lengths q_lengths)) = length rows"
    and w: "e_align E (Max (set lengths)) \<noteq> 0"
  shows "split_local ix E K rows lengths q_lengths budget world rank
    = Inr (map (\<lambda>k. let i = rank * extent_of (length rows) world + k
          in if i < length rows then split_row ix K sc tk mk rows (zip lengths q_lengths) (e_align E (Max (set lengths))) i (pad_row ix lengths)
             else pad_row ix lengths) [0..<extent_of (length rows) world])"
proof -
  let ?n = "length rows" and ?X = "extent_of (length rows) world"
  define s e where "s = rank * ?X" and "e = min ?n (rank * ?X + ?X)"
  let ?pk = "replicate ?X (pad_row ix lengths)" and ?W = "e_align E (Max (set lengths))"
  let ?f = "\<lambda>k. split_row ix K sc tk mk rows (zip lengths q_lengths) ?W (s + k)"
  have "split_local ix E K rows lengths q_lengths budget world rank = Inr (map_range 0 (e - s) ?f ?pk)"
  proof (cases "e \<le> s")
    case True
    then show ?thesis using ok w unfolding split_local_def partition_rows_eq [OF r] s_def e_def
      by (simp add: pad_row_def Let_def del: of_nat_mult)
  next
    case False
    then have "e - s \<le> length ?pk" "e \<le> ?n" "s < e" by (auto simp: s_def e_def)
    from split_chunks_eq [OF K chunk_rows_pos [of budget ?W] this, of ix "zip lengths q_lengths" ?W] False
    show ?thesis using ok w unfolding split_local_def partition_rows_eq [OF r] s_def e_def
      by (simp add: pad_row_def Let_def del: of_nat_mult of_nat_add)
  qed
  moreover have "map_range 0 (e - s) ?f ?pk = map (\<lambda>k. let i = s + k in if i < ?n then ?f k (pad_row ix lengths) else pad_row ix lengths) [0..<?X]"
    by (rule nth_equalityI) (auto simp: map_range_nth Let_def s_def e_def)
  ultimately show ?thesis by (simp add: s_def)
qed

lemma split_gather:
  assumes K: "row_kernels K sc tk mk" and w: "1 \<le> world" and ok: "lengths \<noteq> []" "sum_list (map snd (zip lengths q_lengths)) = length rows"
    and W: "e_align E (Max (set lengths)) \<noteq> 0"
  shows "bind_res (fold (\<lambda>rank acc. bind_res acc (\<lambda>g. bind_res (split_local ix E K rows lengths q_lengths budget world rank) (\<lambda>l. Inr (g @ l)))) [0..<world] (Inr []))
      (\<lambda>a. Inr (take (length rows) a))
    = Inr (map (\<lambda>i. split_row ix K sc tk mk rows (zip lengths q_lengths) (e_align E (Max (set lengths))) i (pad_row ix lengths)) [0..<length rows])"
proof -
  let ?X = "extent_of (length rows) world"
  let ?f = "\<lambda>i. if i < length rows then split_row ix K sc tk mk rows (zip lengths q_lengths) (e_align E (Max (set lengths))) i (pad_row ix lengths) else pad_row ix lengths"
  have "fold (\<lambda>rank acc. bind_res acc (\<lambda>g. bind_res (split_local ix E K rows lengths q_lengths budget world rank) (\<lambda>l. Inr (g @ l)))) [0..<world] (Inr [])
      = Inr (map ?f [0..<world * ?X])"
    using fold_bind_Inr [of "[0..<world]" "split_local ix E K rows lengths q_lengths budget world" "\<lambda>r. map (\<lambda>k. ?f (r * ?X + k)) [0..<?X]" "[]"]
      split_local_rows [OF K _ ok W] concat_even_map [of ?f ?X world] by (simp add: Let_def)
  moreover have "take (length rows) (map ?f [0..<world * ?X]) = map ?f [0..<length rows]"
    using extent_covers [OF w, of "length rows"] by (simp add: take_map min_def)
  ultimately show ?thesis by simp
qed

section \<open>The result row by row\<close>

text \<open>The selection of row \<open>i\<close> and the masks of a batch, from the place of a row in its request.\<close>

definition batch_row where
  "batch_row ix E K sc tk mk rows b tok reqs i =
     (case locate b tok reqs i of None \<Rightarrow> e_empty E
      | Some (b', tok', lc) \<Rightarrow> if lc = 0 then replicate (x_topk ix) (-1) else row_choice ix K sc tk mk rows b' tok' lc (e_align E lc) (i - tok'))"

fun batch_masks where
  "batch_masks ix E K sc bm rows pubs b tok [] = []"
| "batch_masks ix E K sc bm rows pubs b tok (r # rest) =
     (if fst r = 0 \<or> snd r = 0 then []
      else map (row_mask ix K sc bm rows b tok (fst r) (e_align E (fst r))) [snd r - (case pubs of None \<Rightarrow> snd r | Some ps \<Rightarrow> min (ps ! b) (snd r))..<snd r])
     # batch_masks ix E K sc bm rows pubs (Suc b) (tok + snd r) rest"

lemma whole_request_rows:
  assumes K: "row_kernels K sc tk mk" and bm: "\<And>xs c bs. e_blocks E xs c bs = map (\<lambda>x. bm x c bs) xs"
    and t: "tok + t \<le> length rows" and len: "length selected = length rows" and al: "lc \<noteq> 0 \<Longrightarrow> e_align E lc \<noteq> 0"
    and pubs: "\<And>ps. pubs = Some ps \<Longrightarrow> b < length ps"
  shows "whole_request ix E K rows pubs b tok lc t (selected, publish)
    = Inr (map_range tok (tok + t) (\<lambda>i _. batch_row ix E K sc tk mk rows b tok [(lc, t)] i) selected,
        publish @ (if x_source ix then batch_masks ix E K sc bm rows pubs b tok [(lc, t)] else []))"
proof (cases "lc = 0 \<or> t = 0")
  case True
  have "map_range tok (tok + t) (\<lambda>_ _. replicate (x_topk ix) (-1)) selected = map_range tok (tok + t) (\<lambda>i _. batch_row ix E K sc tk mk rows b tok [(lc, t)] i) selected"
    using True by (intro map_range_cong) (auto simp: batch_row_def)
  then show ?thesis using True by (auto simp: whole_request_def)
next
  case False
  define w where "w = e_align E lc"
  let ?f = "row_choice ix K sc tk mk rows b tok lc w"
  have no: "\<not> (pubs \<noteq> None \<and> length (the pubs) \<le> b)" using pubs by auto
  have "map ?f [0..<t] = map (\<lambda>i. ?f (i - tok)) [tok..<tok + t]" by (rule nth_equalityI) auto
  then have "put_rows tok (map ?f [0..<t]) selected = map_range tok (tok + t) (\<lambda>i _. ?f (i - tok)) selected"
    using t len by (simp only:) (rule put_rows_map_range, auto)
  also have "\<dots> = map_range tok (tok + t) (\<lambda>i _. batch_row ix E K sc tk mk rows b tok [(lc, t)] i) selected"
    using False by (intro map_range_cong) (auto simp: batch_row_def w_def)
  finally have 1: "put_rows tok (map ?f [0..<t]) selected = map_range tok (tok + t) (\<lambda>i _. batch_row ix E K sc tk mk rows b tok [(lc, t)] i) selected" .
  have 2: "drop (t - p) (map (row_mask ix K sc bm rows b tok lc w) [0..<t]) = map (row_mask ix K sc bm rows b tok lc w) [t - p..<t]" for p
    by (simp add: drop_map)
  have 3: "score_rows ix K b lc w 0 (slice tok (tok + t) rows) = map (row_scores ix K sc rows b tok lc w) [0..<t]"
    "select_rows ix K (map (row_scores ix K sc rows b tok lc w) [0..<t]) (slice tok (tok + t) rows) = map ?f [0..<t]"
    "block_masks ix E lc (map (row_scores ix K sc rows b tok lc w) [0..<t]) (slice tok (tok + t) rows) = map (row_mask ix K sc bm rows b tok lc w) [0..<t]"
    using part_scores [OF K order_refl t, where a = 0 and ix = ix and b = b and lc = lc and w = w]
      part_choice [OF K order_refl t, where a = 0 and ix = ix and b = b and lc = lc and w = w]
      part_masks [where E = E and bm = bm, OF bm order_refl t order_refl, where a = 0 and ix = ix and b = b and lc = lc and w = w and K = K and sc = sc] by simp_all
  show ?thesis using False al no
    unfolding whole_request_def prod.case Let_def w_def [symmetric] 3 1 2 by (simp add: w_def cong: option.case_cong)
qed

lemma locate_from: "locate b tok reqs i = Some (b', tok', lc) \<Longrightarrow> tok \<le> i \<and> tok' \<le> i \<and> i < tok + sum_list (map snd reqs)"
proof (induction reqs arbitrary: b tok)
  case (Cons r reqs)
  show ?case
  proof (cases "tok \<le> i \<and> i < tok + snd r")
    case False
    then show ?thesis using Cons.prems Cons.IH [of "Suc b" "tok + snd r"] by (cases r) auto
  qed (use Cons.prems in \<open>cases r; auto\<close>)
qed simp

lemma whole_loop_rows:
  assumes K: "row_kernels K sc tk mk" and bm: "\<And>xs c bs. e_blocks E xs c bs = map (\<lambda>x. bm x c bs) xs"
    and al: "\<And>lc. lc \<noteq> 0 \<Longrightarrow> e_align E lc \<noteq> 0" and t: "tok + sum_list (map snd reqs) \<le> length rows"
    and len: "length selected = length rows" and pubs: "\<And>ps. pubs = Some ps \<Longrightarrow> b + length reqs \<le> length ps"
  shows "whole_loop ix E K rows pubs b tok reqs (selected, publish)
    = Inr (map_range tok (tok + sum_list (map snd reqs)) (\<lambda>i _. batch_row ix E K sc tk mk rows b tok reqs i) selected,
        publish @ (if x_source ix then batch_masks ix E K sc bm rows pubs b tok reqs else []))"
  using t len pubs
proof (induction reqs arbitrary: b tok selected publish)
  case (Cons r reqs)
  obtain lc t where r: "r = (lc, t)" by (cases r)
  let ?sel = "map_range tok (tok + t) (\<lambda>i _. batch_row ix E K sc tk mk rows b tok [(lc, t)] i) selected"
  let ?N = "tok + t + sum_list (map snd reqs)"
  have "whole_request ix E K rows pubs b tok lc t (selected, publish)
    = Inr (?sel, publish @ (if x_source ix then batch_masks ix E K sc bm rows pubs b tok [(lc, t)] else []))"
    using Cons.prems r by (intro whole_request_rows [where bm = bm, OF K bm] al) auto
  moreover have "whole_loop ix E K rows pubs (Suc b) (tok + t) reqs (?sel, publish @ (if x_source ix then batch_masks ix E K sc bm rows pubs b tok [(lc, t)] else []))
    = Inr (map_range (tok + t) ?N (\<lambda>i _. batch_row ix E K sc tk mk rows (Suc b) (tok + t) reqs i) ?sel,
        (publish @ (if x_source ix then batch_masks ix E K sc bm rows pubs b tok [(lc, t)] else [])) @ (if x_source ix then batch_masks ix E K sc bm rows pubs (Suc b) (tok + t) reqs else []))"
    using Cons.prems r by (intro Cons.IH) (auto simp: add.assoc)
  moreover have "map_range (tok + t) ?N (\<lambda>i _. batch_row ix E K sc tk mk rows (Suc b) (tok + t) reqs i) ?sel
      = map_range (tok + t) ?N (\<lambda>i _. batch_row ix E K sc tk mk rows b tok (r # reqs) i) (map_range tok (tok + t) (\<lambda>i _. batch_row ix E K sc tk mk rows b tok (r # reqs) i) selected)"
    by (intro arg_cong2 [where f = "map_range _ _"] arg_cong2 [where f = "\<lambda>g. map_range _ _ g"] map_range_cong trans [OF map_range_cong arg_cong [where f = "map_range _ _ _"]])
      (auto simp: batch_row_def r)
  moreover have "\<dots> = map_range tok ?N (\<lambda>i _. batch_row ix E K sc tk mk rows b tok (r # reqs) i) selected"
    by (rule map_range_join) simp_all
  ultimately show ?case by (simp add: r add.assoc)
qed simp

section \<open>The split and the chunks agree\<close>

text \<open>Scoring a wider window adds columns; the top-k kernel and its mask read the keys of the row, and without keys give padding.\<close>

definition local_kernels ::
  "nat \<Rightarrow> ('q qrow \<Rightarrow> nat \<Rightarrow> fval list) \<Rightarrow> (fval list \<times> int \<times> int \<Rightarrow> int list) \<Rightarrow> (fval list \<times> int list \<times> int \<Rightarrow> int list) \<Rightarrow> bool" where
  "local_kernels n sc tk mk \<longleftrightarrow>
     (\<forall>r w. length (sc r w) = w) \<and> (\<forall>r w w'. w \<le> w' \<longrightarrow> take w (sc r w') = sc r w)
     \<and> (\<forall>row row' len k. nat len \<le> length row \<longrightarrow> nat len \<le> length row' \<longrightarrow> take (nat len) row = take (nat len) row' \<longrightarrow>
          tk (row, len, k) = tk (row', len, k) \<and> mk (row, tk (row, len, k), k) = mk (row', tk (row', len, k), k))
     \<and> (\<forall>row len k. len \<le> 0 \<longrightarrow> tk (row, len, k) = replicate n (-1) \<and> mk (row, replicate n (-1), k) = replicate n (-1))
     \<and> (\<forall>x. length (tk x) = n) \<and> (\<forall>row sel k. length (mk (row, sel, k)) = length sel)"

definition ids_mask :: "(fval list \<Rightarrow> nat \<Rightarrow> nat list) \<Rightarrow> fval list \<times> int \<Rightarrow> nat \<Rightarrow> nat \<Rightarrow> bool list" where
  "ids_mask topb x c bs = candidate_mask (candidate_block_ids topb c bs (fst x) (snd x)) (length (fst x)) bs"

text \<open>The engine's block selection is the mask of the block ids; the alignment rounds up.\<close>

definition split_engine ::
  "nat \<Rightarrow> 'q engine \<Rightarrow> (int list \<Rightarrow> 'q qrow \<Rightarrow> nat \<Rightarrow> fval list) \<Rightarrow> (fval list \<times> int \<times> int \<Rightarrow> int list) \<Rightarrow> (fval list \<times> int list \<times> int \<Rightarrow> int list)
   \<Rightarrow> (fval list \<Rightarrow> nat \<Rightarrow> nat list) \<Rightarrow> bool" where
  "split_engine n E sc tk mk topb \<longleftrightarrow>
     row_engine E sc tk mk (ids_mask topb) \<and> (\<forall>slots. k_topb (e_keys E slots) = topb \<and> local_kernels n (sc slots) tk mk)
     \<and> (\<forall>xs k. k \<le> length xs \<longrightarrow> length (topb xs k) = k) \<and> (\<forall>m. m \<le> e_align E m)"

lemma take_map_range: "take n (map_range a b f xs) = map_range a b f (take n xs)"
  by (rule nth_equalityI) (auto simp: map_range_nth)

lemma masked_row_length [simp]: "length (masked_row ix K b lc c len row) = length row"
  by (simp add: masked_row_def fill_row_def)

lemma masked_row_take: "take lc row = take lc row' \<Longrightarrow> take lc (masked_row ix K b lc c len row) = take lc (masked_row ix K b lc c len row')"
  by (simp add: masked_row_def fill_row_def take_map_range)

lemma take_less: "take m xs = take m ys \<Longrightarrow> n \<le> m \<Longrightarrow> take n xs = take n ys"
  by (metis min.absorb1 take_take)

lemma local_kernelsD:
  assumes "local_kernels n sc tk mk"
  shows "length (sc r w) = w" and "w \<le> w' \<Longrightarrow> take w (sc r w') = sc r w"
    and "nat len \<le> length row \<Longrightarrow> nat len \<le> length row' \<Longrightarrow> take (nat len) row = take (nat len) row' \<Longrightarrow> tk (row, len, k) = tk (row', len, k)"
    and "nat len \<le> length row \<Longrightarrow> nat len \<le> length row' \<Longrightarrow> take (nat len) row = take (nat len) row' \<Longrightarrow>
      mk (row, tk (row, len, k), k) = mk (row', tk (row', len, k), k)"
    and "len \<le> 0 \<Longrightarrow> tk (row, len, k) = replicate n (-1)" and "mk (row, replicate n (-1), k) = replicate n (-1)"
    and "length (tk x) = n" and "length (mk (row, sel, k)) = length sel"
  using assms unfolding local_kernels_def by blast+

lemma chosen_row_length: "local_kernels (x_topk ix) sc tk mk \<Longrightarrow> length (chosen_row ix tk mk row k len) = x_topk ix"
  by (simp add: local_kernelsD(7,8) chosen_row_def Let_def)

lemma chosen_row_padding: "local_kernels (x_topk ix) sc tk mk \<Longrightarrow> len \<le> 0 \<Longrightarrow> chosen_row ix tk mk row k len = replicate (x_topk ix) (-1)"
  by (simp add: local_kernelsD(5,6) chosen_row_def Let_def)

lemma chosen_row_local:
  assumes "local_kernels n sc tk mk" and "take (nat len) row = take (nat len) row'" and "nat len \<le> length row" and "nat len \<le> length row'"
  shows "chosen_row ix tk mk row k len = chosen_row ix tk mk row' k len"
  unfolding chosen_row_def Let_def local_kernelsD(3) [OF assms(1,3,4,2)] local_kernelsD(4) [OF assms(1,3,4,2), unfolded local_kernelsD(3) [OF assms(1,3,4,2)]] ..

lemma take_put_ids: "length sel = n \<Longrightarrow> take n (put_ids 0 sel line) = sel"
  by (simp add: put_ids_def)

lemma slice_put_ids:
  assumes "length sel = n" and "length ids = m" and "n + m \<le> length line"
  shows "slice n (n + m) (put_ids 0 sel (put_ids n ids line)) = ids"
  using assms by (simp add: put_ids_def slice_def)

lemma candidate_ids_length:
  assumes "\<And>xs k. k \<le> length xs \<Longrightarrow> length (topb xs k) = k"
  shows "length (candidate_block_ids topb c bs logits len) = min c (n_blocks (length logits) bs)"
  using assms by (simp add: candidate_block_ids_def Let_def)

text \<open>A row of the gathered table holds the row's selection and, on a source, its block ids.\<close>

lemma split_row_parts:
  assumes loc: "local_kernels (x_topk ix) sc tk mk" and topb: "k_topb K = topb" "\<And>xs k. k \<le> length xs \<Longrightarrow> length (topb xs k) = k"
    and al: "lc \<le> e_align E lc" "lc \<le> w" and at: "locate 0 0 reqs i = Some (b, tok, lc)" "snd (snd (rows ! i)) \<le> int lc"
    and line: "x_topk ix + (if x_source ix then min (x_cand_blocks ix) (n_blocks lc (x_block_size ix)) else 0) \<le> length line"
  defines "row \<equiv> split_row ix K sc tk mk rows reqs w i line"
  shows "take (x_topk ix) row = batch_row ix E K sc tk mk rows 0 0 reqs i"
    and "lc \<noteq> 0 \<Longrightarrow> x_source ix \<Longrightarrow>
      candidate_mask (slice (x_topk ix) (x_topk ix + min (x_cand_blocks ix) (n_blocks lc (x_block_size ix))) row) lc (x_block_size ix)
      = row_mask ix K sc (ids_mask topb) rows b tok lc (e_align E lc) (i - tok)"
proof -
  define len ks where lk: "len = snd (snd (rows ! i))" "ks = fst (snd (rows ! i))"
  define n where "n = x_topk ix"
  have tok: "tok \<le> i" "tok + (i - tok) = i" using locate_from [OF at(1)] by auto
  define lg where "lg = (if lc = 0 then sc (rows ! i) w else masked_row ix K b lc (i - tok) len (sc (rows ! i) w))"
  define own where "own = row_scores ix K sc rows b tok lc (e_align E lc) (i - tok)"
  have own_eq: "own = masked_row ix K b lc (i - tok) len (sc (rows ! i) (e_align E lc))" by (simp add: own_def row_scores_def tok lk)
  have lg_eq: "row_logits ix K (b, tok, lc) i len (sc (rows ! i) w) = lg" by (simp add: lg_def row_logits_def masked_row_def)
  have same: "take lc lg = take lc own" if "lc \<noteq> 0" using that al unfolding lg_def own_eq
    by (simp only: if_False) (rule masked_row_take, simp add: local_kernelsD(2) [OF loc])
  have len: "lc \<le> length lg" "lc \<le> length own" using al local_kernelsD(1) [OF loc] by (auto simp: lg_def own_eq)
  define sel where "sel = chosen_row ix tk mk lg ks len"
  define ids where "ids = candidate_block_ids topb (x_cand_blocks ix) (x_block_size ix) (take lc lg) len"
  have sl: "length sel = n" by (simp add: sel_def n_def chosen_row_length [OF loc])
  have il: "length ids = min (x_cand_blocks ix) (n_blocks lc (x_block_size ix))"
    using candidate_ids_length [OF topb(2)] len(1) by (simp add: ids_def min_def)
  have row: "row = put_ids 0 sel (if lc \<noteq> 0 \<and> x_source ix then put_ids n ids line else line)"
    unfolding row_def split_row_def Let_def at(1) row_step_def option.case lk [symmetric] fst_conv snd_conv lg_eq
    by (simp add: row_ids_def sel_def ids_def n_def topb(1))
  have "take n row = sel" unfolding row by (rule take_put_ids [OF sl])
  moreover have "sel = batch_row ix E K sc tk mk rows 0 0 reqs i"
  proof (cases "lc = 0")
    case True
    then show ?thesis using at(2) by (simp add: sel_def batch_row_def at(1) chosen_row_padding [OF loc] lk)
  next
    case False
    have "nat len \<le> lc" using at(2) by (simp add: lk)
    then have "chosen_row ix tk mk lg ks len = chosen_row ix tk mk own ks len"
      using take_less [OF same [OF False]] len by (intro chosen_row_local [OF loc]) auto
    then show ?thesis using False by (simp add: sel_def batch_row_def at(1) row_choice_def own_def tok lk)
  qed
  ultimately show "take (x_topk ix) row = batch_row ix E K sc tk mk rows 0 0 reqs i" by (simp add: n_def)
  assume lc: "lc \<noteq> 0" "x_source ix"
  have s: "slice n (n + min (x_cand_blocks ix) (n_blocks lc (x_block_size ix))) row = ids"
    unfolding row using slice_put_ids [OF sl il, of line] line lc by (simp add: n_def)
  have "row_mask ix K sc (ids_mask topb) rows b tok lc (e_align E lc) (i - tok) = ids_mask topb (take lc own, len) (x_cand_blocks ix) (x_block_size ix)"
    by (simp only: row_mask_def own_def tok(2) lk)
  also have "\<dots> = candidate_mask ids lc (x_block_size ix)"
    unfolding ids_mask_def ids_def fst_conv snd_conv same [OF lc(1)] using len(2) by (simp add: min_def)
  finally show "candidate_mask (slice (x_topk ix) (x_topk ix + min (x_cand_blocks ix) (n_blocks lc (x_block_size ix))) row) lc (x_block_size ix)
      = row_mask ix K sc (ids_mask topb) rows b tok lc (e_align E lc) (i - tok)" using s by (simp only: n_def)
qed

lemma tail_masks_eq:
  assumes "\<And>i b' tok' lc. locate b off reqs i = Some (b', tok', lc) \<Longrightarrow> lc \<noteq> 0 \<Longrightarrow>
      candidate_mask (slice (x_topk ix) (x_topk ix + min (x_cand_blocks ix) (n_blocks lc (x_block_size ix))) (gathered ! i)) lc (x_block_size ix)
      = row_mask ix K sc bm rows b' tok' lc (e_align E lc) (i - tok')"
    and "off + sum_list (map snd reqs) \<le> length gathered" and "\<And>ps. pubs = Some ps \<Longrightarrow> b + length reqs \<le> length ps"
  shows "tail_masks ix gathered pubs b off reqs = Inr (batch_masks ix E K sc bm rows pubs b off reqs)"
  using assms
proof (induction reqs arbitrary: b off)
  case (Cons r reqs)
  obtain lc t where r: "r = (lc, t)" by (cases r)
  have rest: "tail_masks ix gathered pubs (Suc b) (off + t) reqs = Inr (batch_masks ix E K sc bm rows pubs (Suc b) (off + t) reqs)"
  proof (rule Cons.IH)
    fix i b' tok' lc'
    assume l: "locate (Suc b) (off + t) reqs i = Some (b', tok', lc')" "lc' \<noteq> 0"
    then have "locate b off (r # reqs) i = Some (b', tok', lc')" using locate_from [OF l(1)] by (simp add: r)
    from Cons.prems(1) [OF this l(2)] show "candidate_mask (slice (x_topk ix) (x_topk ix + min (x_cand_blocks ix) (n_blocks lc' (x_block_size ix))) (gathered ! i)) lc' (x_block_size ix)
      = row_mask ix K sc bm rows b' tok' lc' (e_align E lc') (i - tok')" .
  qed (use Cons.prems in \<open>auto simp: r\<close>)
  show ?case
  proof (cases "lc = 0 \<or> t = 0")
    case True
    then show ?thesis using rest by (simp add: r)
  next
    case False
    define pub where "pub = (case pubs of None \<Rightarrow> t | Some ps \<Rightarrow> min (ps ! b) t)"
    have "pub \<le> t" by (simp add: pub_def split: option.splits)
    have here: "candidate_mask (slice (x_topk ix) (x_topk ix + min (x_cand_blocks ix) (n_blocks lc (x_block_size ix))) (gathered ! (off + c))) lc (x_block_size ix)
        = row_mask ix K sc bm rows b off lc (e_align E lc) c" if "c < t" for c
      using Cons.prems(1) [of "off + c" b off lc] that False by (simp add: r)
    have "map (\<lambda>row. candidate_mask (slice (x_topk ix) (x_topk ix + min (x_cand_blocks ix) (n_blocks lc (x_block_size ix))) row) lc (x_block_size ix)) (slice (off + t - pub) (off + t) gathered)
        = map (row_mask ix K sc bm rows b off lc (e_align E lc)) [t - pub..<t]" (is "?l = ?r")
    proof (rule nth_equalityI)
      have len: "length (slice (off + t - pub) (off + t) gathered) = pub" using Cons.prems(2) \<open>pub \<le> t\<close> by (simp add: r min_def)
      then show "length ?l = length ?r" using \<open>pub \<le> t\<close> by simp
      fix k
      assume "k < length ?l"
      then have k: "k < pub" using len by simp
      then have c: "off + t - pub + k = off + (t - pub + k)" "t - pub + k < t" using \<open>pub \<le> t\<close> by auto
      have "?r ! k = row_mask ix K sc bm rows b off lc (e_align E lc) (t - pub + k)" using k \<open>pub \<le> t\<close> by simp
      moreover have "slice (off + t - pub) (off + t) gathered ! k = gathered ! (off + (t - pub + k))"
        using k len Cons.prems(2) c(1) by (subst nth_slice) (auto simp: r)
      ultimately show "?l ! k = ?r ! k" using here [OF c(2)] k len by (simp only: nth_map)
    qed
    moreover have "\<not> (case pubs of None \<Rightarrow> False | Some ps \<Rightarrow> length ps \<le> b)" using Cons.prems(3) by (auto split: option.splits)
    ultimately show ?thesis using rest False by (simp add: r pub_def [symmetric] Let_def cong: option.case_cong)
  qed
qed simp

text \<open>Every row's keys lie in the keys of its request.\<close>

definition positions_fit :: "fwd \<Rightarrow> ('q \<times> int) list \<Rightarrow> bool" where
  "positions_fit F toks =
     (case f_seq_lens F of None \<Rightarrow> True | Some seq \<Rightarrow> list_all2 (\<lambda>t s. snd t < int s) toks (concat (map2 replicate (f_q_lens F) seq)))"

lemma locate_repeat:
  assumes "length qs = length xs" and "locate b off (zip (map f xs) qs) i = Some (b', tok', lc)"
  shows "lc = f (concat (map2 replicate qs xs) ! (i - off))"
  using assms
proof (induction qs xs arbitrary: b off rule: list_induct2)
  case (Cons q qs x xs)
  show ?case
  proof (cases "off \<le> i \<and> i < off + q")
    case True
    then show ?thesis using Cons.prems by (auto simp: nth_append)
  next
    case False
    then have l: "locate (Suc b) (off + q) (zip (map f xs) qs) i = Some (b', tok', lc)" using Cons.prems by (auto split: if_splits)
    then have "off + q \<le> i" using locate_from [OF l] by simp
    then have "\<not> i - off < q" "i - off - q = i - (off + q)" by auto
    then show ?thesis using Cons.IH [OF l] by (simp add: nth_append)
  qed
qed simp

lemma locate_width: "locate b off reqs i = Some (b', tok', lc) \<Longrightarrow> lc \<in> set (map fst reqs)"
proof (induction reqs arbitrary: b off)
  case (Cons r reqs)
  then show ?case using Cons.IH [of "Suc b" "off + snd r"] by (cases r) (auto split: if_splits)
qed simp

lemma locate_some: "off \<le> i \<Longrightarrow> i < off + sum_list (map snd reqs) \<Longrightarrow> \<exists>b' tok' lc. locate b off reqs i = Some (b', tok', lc)"
proof (induction reqs arbitrary: b off)
  case (Cons r reqs)
  then show ?case using Cons.IH [of "off + snd r" "Suc b"] by (cases r) auto
qed simp

lemma key_slots_some: "key_slots table ratio lcs pool = Inr slots \<Longrightarrow> slots \<noteq> [] \<Longrightarrow> \<exists>lc\<in>set lcs. lc \<noteq> 0"
  by (induction lcs arbitrary: pool slots) (auto split: if_splits simp: res_simps)

lemma split_select_chunked:
  assumes K: "row_kernels K sc tk mk" and bm: "\<And>xs c bs. e_blocks E xs c bs = map (\<lambda>x. ids_mask topb x c bs) xs"
    and loc: "local_kernels (x_topk ix) sc tk mk" and topb: "k_topb K = topb" "\<And>xs k. k \<le> length xs \<Longrightarrow> length (topb xs k) = k"
    and al: "\<And>m. m \<le> e_align E m" and w: "1 \<le> world"
    and ok: "length lcs = length qs" "sum_list qs = length rows" "\<exists>lc\<in>set lcs. lc \<noteq> 0"
    and len: "\<And>i b tok lc. locate 0 0 (zip lcs qs) i = Some (b, tok, lc) \<Longrightarrow> snd (snd (rows ! i)) \<le> int lc"
    and pubs: "\<And>ps. pubs = Some ps \<Longrightarrow> length ps = length qs"
  shows "split_select ix E K rows lcs qs budget pubs world = chunked_select ix E budget' qs K rows lcs pubs"
proof -
  let ?reqs = "zip lcs qs" and ?W = "e_align E (Max (set lcs))" and ?n = "length rows"
  let ?row = "\<lambda>i. split_row ix K sc tk mk rows ?reqs ?W i (pad_row ix lcs)"
  have sum: "sum_list (map snd ?reqs) = ?n" using ok by simp
  obtain lc0 where lc0: "lc0 \<in> set lcs" "lc0 \<noteq> 0" using ok(3) by blast
  then have "lc0 \<le> Max (set lcs)" by simp
  then have W: "?W \<noteq> 0" using al [of "Max (set lcs)"] lc0(2) by linarith
  have below: "lc \<le> ?W" "n_blocks lc (x_block_size ix) \<le> n_blocks (Max (set lcs)) (x_block_size ix)"
    if "locate 0 0 ?reqs i = Some (b, tok, lc)" for i b tok lc
  proof -
    have "lc \<in> set lcs" using locate_width [OF that] ok(1) by simp
    then have "lc \<le> Max (set lcs)" by simp
    then show "lc \<le> ?W" "n_blocks lc (x_block_size ix) \<le> n_blocks (Max (set lcs)) (x_block_size ix)"
      using al [of "Max (set lcs)"] by (auto simp: n_blocks_def div_le_mono)
  qed
  have parts: "take (x_topk ix) (?row i) = batch_row ix E K sc tk mk rows 0 0 ?reqs i"
    "lc \<noteq> 0 \<Longrightarrow> x_source ix \<Longrightarrow>
      candidate_mask (slice (x_topk ix) (x_topk ix + min (x_cand_blocks ix) (n_blocks lc (x_block_size ix))) (?row i)) lc (x_block_size ix)
      = row_mask ix K sc (ids_mask topb) rows b tok lc (e_align E lc) (i - tok)"
    if l: "locate 0 0 ?reqs i = Some (b, tok, lc)" for i b tok lc
  proof -
    have "x_topk ix + (if x_source ix then min (x_cand_blocks ix) (n_blocks lc (x_block_size ix)) else 0) \<le> length (pad_row ix lcs)"
      using below [OF l] by (auto simp: pad_row_def mask_blocks_def)
    note p = split_row_parts [OF loc topb al below(1) [OF l] l len [OF l] this]
    show "take (x_topk ix) (?row i) = batch_row ix E K sc tk mk rows 0 0 ?reqs i" by (rule p(1))
    show "lc \<noteq> 0 \<Longrightarrow> x_source ix \<Longrightarrow>
      candidate_mask (slice (x_topk ix) (x_topk ix + min (x_cand_blocks ix) (n_blocks lc (x_block_size ix))) (?row i)) lc (x_block_size ix)
      = row_mask ix K sc (ids_mask topb) rows b tok lc (e_align E lc) (i - tok)" by (rule p(2))
  qed
  let ?g = "map ?row [0..<?n]"
  have "split_select ix E K rows lcs qs budget pubs world
      = bind_res (if x_source ix then tail_masks ix ?g pubs 0 0 ?reqs else Inr []) (\<lambda>masks. Inr (map (take (x_topk ix)) ?g, masks))"
  proof -
    have "lcs \<noteq> []" using lc0 by auto
    from split_gather [OF K w this sum W, of ix budget, symmetric] show ?thesis
      unfolding split_select_def Let_def by (cases "fold (\<lambda>rank acc. bind_res acc (\<lambda>g. bind_res (split_local ix E K rows lcs qs budget world rank) (\<lambda>l. Inr (g @ l)))) [0..<world] (Inr [])") auto
  qed
  moreover have "map (take (x_topk ix)) ?g = map (batch_row ix E K sc tk mk rows 0 0 ?reqs) [0..<?n]"
  proof -
    have "take (x_topk ix) (?row i) = batch_row ix E K sc tk mk rows 0 0 ?reqs i" if i: "i < ?n" for i
    proof -
      obtain b tok lc where "locate 0 0 ?reqs i = Some (b, tok, lc)" using locate_some [where off = 0 and reqs = ?reqs and b = 0 and i = i] sum i by auto
      then show ?thesis by (rule parts(1))
    qed
    then show ?thesis by simp
  qed
  moreover have "tail_masks ix ?g pubs 0 0 ?reqs = Inr (batch_masks ix E K sc (ids_mask topb) rows pubs 0 0 ?reqs)" if "x_source ix"
  proof (rule tail_masks_eq)
    fix i b' tok' lc
    assume l: "locate 0 0 ?reqs i = Some (b', tok', lc)" "lc \<noteq> 0"
    have "i < ?n" using locate_from [OF l(1)] sum by simp
    then show "candidate_mask (slice (x_topk ix) (x_topk ix + min (x_cand_blocks ix) (n_blocks lc (x_block_size ix))) (?g ! i)) lc (x_block_size ix)
      = row_mask ix K sc (ids_mask topb) rows b' tok' lc (e_align E lc) (i - tok')" using parts(2) [OF l that] by simp
  qed (use sum pubs ok(1) in auto)
  moreover have "chunked_select ix E budget' qs K rows lcs pubs
      = Inr (map (batch_row ix E K sc tk mk rows 0 0 ?reqs) [0..<?n], if x_source ix then batch_masks ix E K sc (ids_mask topb) rows pubs 0 0 ?reqs else [])"
  proof -
    have "e_align E lc \<noteq> 0" if "lc \<noteq> 0" for lc using al [of lc] that by simp
    then have "whole_loop ix E K rows pubs 0 0 ?reqs (replicate ?n (e_empty E), [])
        = Inr (map_range 0 ?n (\<lambda>i _. batch_row ix E K sc tk mk rows 0 0 ?reqs i) (replicate ?n (e_empty E)),
            if x_source ix then batch_masks ix E K sc (ids_mask topb) rows pubs 0 0 ?reqs else [])"
      using whole_loop_rows [where bm = "ids_mask topb", OF K bm, where reqs = ?reqs and tok = 0 and selected = "replicate ?n (e_empty E)" and pubs = pubs and b = 0 and ix = ix and publish = "[]"]
        sum pubs ok(1) by auto
    moreover have "map_range 0 ?n f (replicate ?n (e_empty E)) = map (\<lambda>i. f i (e_empty E)) [0..<?n]" for f
      by (rule nth_equalityI) (simp_all add: map_range_nth)
    moreover have "\<not> (pubs \<noteq> None \<and> length (the pubs) \<noteq> length qs)" using pubs by (cases pubs) auto
    moreover have "dense_loop ix E K rows budget' pubs 0 0 ?reqs (replicate ?n (e_empty E), []) = whole_loop ix E K rows pubs 0 0 ?reqs (replicate ?n (e_empty E), [])"
      using sum by (intro dense_loop_whole [where bm = "ids_mask topb", OF K bm]) simp_all
    ultimately show ?thesis by (simp add: chunked_select_def)
  qed
  ultimately show ?thesis by simp
qed

text \<open>A small batch: two requests, one without keys yet.\<close>

definition ex_ix :: "bool \<Rightarrow> indexer" where
  "ex_ix source = \<lparr>x_source = source, x_uses = \<not> source, x_topk = 2, x_cand_blocks = 1, x_block_size = 2\<rparr>"

definition ex_score :: "int list \<Rightarrow> int \<times> int \<times> int \<Rightarrow> nat \<Rightarrow> fval list" where
  "ex_score slots r w = map (\<lambda>c. Fin (of_int ((fst r * int c) mod 7))) [0..<w]"

definition ex_top :: "fval list \<times> int \<times> int \<Rightarrow> int list" where
  "ex_top x = (case x of (row, len, k) \<Rightarrow> take 2 (map (\<lambda>i. k + int i) (sorted_top (take (nat len) row) (nat len)) @ [-1, -1]))"

definition ex_drop :: "fval list \<times> int list \<times> int \<Rightarrow> int list" where
  "ex_drop x = (case x of (row, sel, k) \<Rightarrow> map (\<lambda>s. if s < 0 \<or> row ! nat (s - k) = NInf then -1 else s) sel)"

definition ex_blocks :: "fval list \<times> int \<Rightarrow> nat \<Rightarrow> nat \<Rightarrow> bool list" where
  "ex_blocks x c bs = candidate_mask (candidate_block_ids sorted_top c bs (fst x) (snd x)) (length (fst x)) bs"

definition ex_engine :: "int engine" where
  "ex_engine = \<lparr>e_keys = \<lambda>slots. \<lparr>k_scorer = \<lambda>rows w. map (\<lambda>r. ex_score slots r w) rows, k_topk = map ex_top, k_mask_topk = map ex_drop, k_topb = sorted_top,
       k_consume = \<lambda>_ _. []\<rparr>,
     e_blocks = \<lambda>xs c bs. map (\<lambda>x. ex_blocks x c bs) xs, e_align = \<lambda>n. ceil_to n 4, e_empty = [0, 0], e_empty_mask = [True]\<rparr>"

definition ex_fwd :: fwd where
  "ex_fwd = \<lparr>f_seq_lens = Some [6, 1], f_pool = [0, 1], f_table = \<lambda>r j. int (100 * r + j), f_q_lens = [3, 1], f_q_lens_cpu = [3, 1], f_tail = Some [2, 1]\<rparr>"

lemma ex_rows: "row_engine ex_engine ex_score ex_top ex_drop ex_blocks"
  by (simp add: row_engine_def row_kernels_def ex_engine_def)

lemma sorted_top_index: "i \<in> set (sorted_top xs k) \<Longrightarrow> i < length xs"
  unfolding sorted_top_def by (drule in_set_takeD) simp

lemma ex_local: "local_kernels 2 (ex_score slots) ex_top ex_drop"
proof -
  have top: "ex_top (row, len, k) = ex_top (row', len, k)" if "take (nat len) row = take (nat len) row'" for row row' len k
    using that by (simp add: ex_top_def)
  have drop0: "ex_drop (row, ex_top (row, len, k), k) = ex_drop (row', ex_top (row, len, k), k)"
    if a: "nat len \<le> length row" "nat len \<le> length row'" "take (nat len) row = take (nat len) row'" for row row' len k
  proof -
    have "row ! nat (s - k) = row' ! nat (s - k)" if s: "s \<in> set (ex_top (row, len, k))" "\<not> s < 0" for s
    proof -
      obtain i where "s = k + int i" "i \<in> set (sorted_top (take (nat len) row) (nat len))"
        using s by (auto simp: ex_top_def dest!: in_set_takeD)
      then have "nat (s - k) < nat len" using sorted_top_index a(1) by fastforce
      then show ?thesis using a(3) by (metis nth_take)
    qed
    note same = this
    show ?thesis unfolding ex_drop_def prod.case
    proof (intro map_cong refl)
      fix s
      assume "s \<in> set (ex_top (row, len, k))"
      then show "(if s < 0 \<or> row ! nat (s - k) = NInf then -1 else s) = (if s < 0 \<or> row' ! nat (s - k) = NInf then -1 else s)"
        using same [of s] by (cases "s < 0") simp_all
    qed
  qed
  have drop: "ex_drop (row, ex_top (row, len, k), k) = ex_drop (row', ex_top (row', len, k), k)"
    if "nat len \<le> length row" "nat len \<le> length row'" "take (nat len) row = take (nat len) row'" for row row' len k
    using drop0 [OF that] top [OF that(3)] by simp
  have pad: "ex_top (row, len, k) = replicate 2 (-1)" if "len \<le> 0" for row len k
    using that by (simp add: ex_top_def sorted_top_def numeral_2_eq_2)
  have len: "length (ex_score slots r w) = w" "length (ex_top x) = 2" "length (ex_drop (row, sel, k)) = length sel" for r w x row sel k
    by (auto simp: ex_score_def ex_top_def ex_drop_def split: prod.splits)
  have "take w (ex_score slots r w') = ex_score slots r w" if "w \<le> w'" for r w w'
    using that by (simp add: ex_score_def take_map)
  moreover have "ex_drop (row, replicate 2 (-1), k) = replicate 2 (-1)" for row k by (simp add: ex_drop_def numeral_2_eq_2)
  ultimately show ?thesis unfolding local_kernels_def by (intro conjI allI impI len top drop pad)
qed

lemma ex_split: "split_engine 2 ex_engine ex_score ex_top ex_drop sorted_top"
proof -
  have "ids_mask sorted_top = ex_blocks" by (intro ext) (simp add: ids_mask_def ex_blocks_def)
  moreover have "length (sorted_top xs k) = k" if "k \<le> length xs" for xs k using that by (simp add: sorted_top_def)
  moreover have "m \<le> e_align ex_engine m" for m using ceil_to_ge [of 4 m] by (simp add: ex_engine_def)
  moreover have "k_topb (e_keys ex_engine slots) = sorted_top" for slots by (simp add: ex_engine_def)
  ultimately show ?thesis using ex_rows ex_local by (simp add: split_engine_def)
qed

section \<open>Properties\<close>

text \<open>C9: Scoring in bounded chunks changes nothing. For any budget, the page and raw indices, the published masks and the
  exceptions of the indexer are those of scoring each request in one tensor, building the masks of all its rows and cutting
  them to the rows that survive the replay; nothing of the uninitialised tensors remains. The kernels are only
  assumed to work row by row.\<close>

theorem chunked_indexer_exact:
  assumes "row_engine E sc tk mk bm" and "f_q_lens_cpu F = f_q_lens F"
  shows "index_topk_v1 ix budget ratio E F toks st = index_topk (whole_select ix E (f_q_lens_cpu F)) ix ratio E F toks st"
  unfolding index_topk_v1_def
proof (rule index_topk_cong)
  fix seq slots ks
  assume a: "ks = concat (map2 replicate (f_q_lens F) (key_starts 0 (map (\<lambda>s. s div ratio) seq)))" "length (f_q_lens F) = length seq" "length ks = length toks"
  let ?lcs = "map (\<lambda>s. s div ratio) seq"
  have "sum_list (map snd (zip ?lcs (f_q_lens F))) = length (query_rows ratio toks ks)"
    using a repeat_length [of "f_q_lens F" "key_starts 0 ?lcs"] by simp
  then show "chunked_select ix E budget (f_q_lens_cpu F) (consuming (e_keys E slots) (s_masks st)) (query_rows ratio toks ks) ?lcs (if x_source ix then f_tail F else None)
      = whole_select ix E (f_q_lens_cpu F) (consuming (e_keys E slots) (s_masks st)) (query_rows ratio toks ks) ?lcs (if x_source ix then f_tail F else None)"
    using assms unfolding chunked_select_def whole_select_def row_engine_def
    by (auto intro!: dense_loop_whole [where bm = bm] consuming_rows)
qed

text \<open>C10: Splitting the query rows of a prefill over the ranks changes nothing either. On an eligible chunk every rank scores its
  slice of the rows in its own bounded chunks, over the widest window of the batch; the integers they gather give the
  page and raw indices and the tail masks of the unsplit chunk loop, for any group size and any two budgets. The engine's kernels work row
  by row on the keys of a row, its block selection is the mask of the block ids, and every position lies inside its sequence.\<close>

theorem split_indexer_exact:
  assumes "split_engine (x_topk ix) E sc tk mk topb" and "f_q_lens_cpu F = f_q_lens F" and "positions_fit F toks"
    and "\<And>ps. f_tail F = Some ps \<Longrightarrow> length ps = length (f_q_lens F)" and "1 \<le> world"
  shows "index_topk_v3 (Some (world, cfg)) now ix budget ratio E F toks st = index_topk_v1 ix budget' ratio E F toks st"
  unfolding index_topk_v3_def index_topk_v1_def
proof (rule index_topk_cong)
  fix seq slots ks
  assume a: "f_seq_lens F = Some seq" "ks = concat (map2 replicate (f_q_lens F) (key_starts 0 (map (\<lambda>s. s div ratio) seq)))"
    "length (f_q_lens F) = length seq" "length ks = length toks" "slots \<noteq> []" "key_slots (f_table F) ratio (map (\<lambda>s. s div ratio) seq) (f_pool F) = Inr slots"
    "ratio = 0 \<longrightarrow> seq = []"
  let ?lcs = "map (\<lambda>s. s div ratio) seq" and ?K = "consuming (e_keys E slots) (s_masks st)" and ?rows = "query_rows ratio toks ks"
  let ?pubs = "if x_source ix then f_tail F else None"
  have eng1: "row_kernels ?K (sc slots) tk mk" using assms(1) by (intro consuming_rows) (simp add: split_engine_def row_engine_def)
  have eng: "\<And>xs c bs. e_blocks E xs c bs = map (\<lambda>x. ids_mask topb x c bs) xs" "local_kernels (x_topk ix) (sc slots) tk mk"
    "k_topb ?K = topb" "\<And>xs k. k \<le> length xs \<Longrightarrow> length (topb xs k) = k" "\<And>m. m \<le> e_align E m"
    using assms(1) by (auto simp: split_engine_def row_engine_def consuming_def)
  have rows: "sum_list (f_q_lens F) = length ?rows" using a repeat_length [of "f_q_lens F" "key_starts 0 ?lcs"] by simp
  have len: "snd (snd (?rows ! i)) \<le> int lc" if l: "locate 0 0 (zip ?lcs (f_q_lens F)) i = Some (b, tok, lc)" for i b tok lc
  proof -
    let ?s = "concat (map2 replicate (f_q_lens F) seq) ! i"
    have i: "i < length ?rows" using locate_from [OF l] a(3) rows by simp
    then have "snd (toks ! i) < int ?s" using assms(3) a(1,4) by (simp add: positions_fit_def list_all2_conv_all_nth)
    then have "(snd (toks ! i) + 1) div int ratio \<le> int ?s div int ratio" by (intro zdiv_mono1) (use a(1,7) i a(3,4) rows in \<open>auto intro: gr0I\<close>)
    moreover have "lc = ?s div ratio" using locate_repeat [OF a(3) l] by simp
    ultimately show ?thesis using i by (cases "toks ! i") (simp add: query_rows_def zdiv_int)
  qed
  have "split_select ix E ?K ?rows ?lcs (f_q_lens F) budget ?pubs world = chunked_select ix E budget' (f_q_lens F) ?K ?rows ?lcs ?pubs"
    using a(3) rows len assms(4) key_slots_some [OF a(6,5)]
    by (intro split_select_chunked [where topb = topb and sc = "sc slots" and tk = tk and mk = mk, OF eng1 eng assms(5)]) (auto split: if_splits)
  moreover have "chunked_select ix E budget (f_q_lens F) ?K ?rows ?lcs ?pubs = chunked_select ix E budget' (f_q_lens F) ?K ?rows ?lcs ?pubs"
    using a(3) rows by (simp add: chunked_select_def dense_loop_whole [where bm = "ids_mask topb", OF eng1 eng(1)])
  ultimately show "(case (Some (world, cfg), now) of
       (Some (world, cfg), prefill, cuda, capturing) \<Rightarrow>
         if eligible cfg (int (length ?rows)) (int (Max (set ?lcs))) prefill cuda capturing
         then split_select ix E ?K ?rows ?lcs (f_q_lens_cpu F) budget ?pubs world
         else chunked_select ix E budget (f_q_lens_cpu F) ?K ?rows ?lcs ?pubs
     | _ \<Rightarrow> chunked_select ix E budget (f_q_lens_cpu F) ?K ?rows ?lcs ?pubs)
     = chunked_select ix E budget' (f_q_lens_cpu F) ?K ?rows ?lcs ?pubs"
    using assms(2) by (auto split: prod.splits)
qed

theorem chunked_indexer_exact_witness:
  "index_topk_v1 (ex_ix True) 16 2 ex_engine ex_fwd [(3, 3), (5, 4), (2, 5), (4, 0)] \<lparr>s_page = replicate 4 [7, 7], s_raw = None, s_masks = []\<rparr>
     = index_topk (whole_select (ex_ix True) ex_engine [3, 1]) (ex_ix True) 2 ex_engine ex_fwd [(3, 3), (5, 4), (2, 5), (4, 0)]
         \<lparr>s_page = replicate 4 [7, 7], s_raw = None, s_masks = []\<rparr>
   \<and> chunk_offsets (chunk_rows 16 (ceil_to 3 4)) 3 = [0, 1, 2]"
  using chunked_indexer_exact [OF ex_rows, where F = ex_fwd and ix = "ex_ix True" and budget = 16 and ratio = 2]
  by (simp add: ex_fwd_def chunk_offsets_def chunk_rows_def ceil_to_def upt_rec)


theorem split_indexer_exact_witness:
  "index_topk_v3 (Some (4, True, 1, 1)) (True, True, False) (ex_ix True) 64 2 ex_engine ex_fwd [(3, 3), (5, 4), (2, 5), (4, 0)] \<lparr>s_page = replicate 4 [7, 7], s_raw = None, s_masks = []\<rparr>
     = index_topk_v1 (ex_ix True) 16 2 ex_engine ex_fwd [(3, 3), (5, 4), (2, 5), (4, 0)] \<lparr>s_page = replicate 4 [7, 7], s_raw = None, s_masks = []\<rparr>
   \<and> eligible (True, 1, 1) 4 3 True True False"
proof -
  have "positions_fit ex_fwd [(3, 3), (5, 4), (2, 5), (4, 0 :: int)]" by (simp add: positions_fit_def ex_fwd_def numeral_3_eq_3)
  then show ?thesis
    by (intro conjI split_indexer_exact [where sc = ex_score and tk = ex_top and mk = ex_drop and topb = sorted_top])
      (use ex_split in \<open>auto simp: ex_fwd_def ex_ix_def eligible_def\<close>)
qed

text \<open>The score tensor is bounded. The chunks of a request tile its rows in order, and every chunk that is scored either holds a single row
  or takes at most the budget of bytes in 32-bit floats; the budget of the settings is positive.\<close>

theorem chunks_within_budget:
  "concat (map (\<lambda>c. [c..<min (c + chunk_rows budget w) t]) (chunk_offsets (chunk_rows budget w) t)) = [0..<t]
   \<and> list_all (\<lambda>c. c < t \<and> (min (c + chunk_rows budget w) t - c = 1 \<or> (min (c + chunk_rows budget w) t - c) * (w * 4) \<le> budget))
       (chunk_offsets (chunk_rows budget w) t)
   \<and> 0 < budget_bytes env"
proof (intro conjI)
  define s where "s = chunk_rows budget w"
  have s: "0 < s" by (simp add: s_def)
  let ?n = "(t + s - 1) div s"
  have "concat (map (\<lambda>j. [j * s..<min (j * s + s) t]) [0..<n]) = [0..<min (n * s) t]" for n
  proof (induction n)
    case (Suc n)
    have "[0..<min (n * s) t] @ [n * s..<min (n * s + s) t] = [0..<min (n * s + s) t]"
    proof (cases "n * s \<le> t")
      case True
      then have "[0..<n * s] @ [n * s..<min (n * s + s) t] = [0..<min (n * s + s) t]"
        using upt_add_eq_append [of 0 "n * s" "min (n * s + s) t - n * s"] by simp
      then show ?thesis using True by simp
    qed simp
    then show ?case using Suc by (simp add: add.commute)
  qed simp
  then show "concat (map (\<lambda>c. [c..<min (c + chunk_rows budget w) t]) (chunk_offsets (chunk_rows budget w) t)) = [0..<t]"
    using chunks_cover [OF s, of t] by (simp add: chunk_offsets_def comp_def s_def [symmetric])
  have "c < t \<and> (min (c + s) t - c = 1 \<or> (min (c + s) t - c) * (w * 4) \<le> budget)" if c: "c \<in> set (chunk_offsets s t)" for c
  proof
    show t: "c < t" by (rule chunk_offset_less [OF s c])
    show "min (c + s) t - c = 1 \<or> (min (c + s) t - c) * (w * 4) \<le> budget"
    proof (cases "budget div (w * 4) \<le> 1")
      case True
      then have "s = 1" by (simp add: s_def chunk_rows_def)
      then show ?thesis using t by simp
    next
      case False
      then have "min (c + s) t - c \<le> budget div (w * 4)" by (simp add: s_def chunk_rows_def)
      then have "(min (c + s) t - c) * (w * 4) \<le> budget div (w * 4) * (w * 4)" by (rule mult_le_mono1)
      also have "\<dots> \<le> budget" by (rule div_times_less_eq_dividend)
      finally show ?thesis ..
    qed
  qed
  then show "list_all (\<lambda>c. c < t \<and> (min (c + chunk_rows budget w) t - c = 1 \<or> (min (c + chunk_rows budget w) t - c) * (w * 4) \<le> budget))
      (chunk_offsets (chunk_rows budget w) t)"
    by (simp add: list_all_iff s_def)
  show "0 < budget_bytes env" by (simp add: budget_bytes_def DEFAULT_BUDGET_BYTES_def Let_def split: option.splits)
qed

text \<open>A backport is armed only on the source it was written for, with a positive budget and every engine symbol it needs.\<close>

lemma indexer_armed:
  assumes "install_indexer env attrs methods src old = Inr (Armed b split, old')"
  shows "0 < b" and "old' = old" and "idx_enabled env ''DSV41_INDEXER_CHUNKED''"
    and "set (if contains_str ''self.candidate_masks'' src then NEEDED_V1 else NEEDED_V3) \<subseteq> set attrs"
    and "\<not> contains_str ''self.candidate_masks'' src \<Longrightarrow> contains_str ''candidate_metadata'' src"
    and "split \<Longrightarrow> \<not> contains_str ''self.candidate_masks'' src"
proof -
  have "0 < budget_bytes env" by (simp add: budget_bytes_def DEFAULT_BUDGET_BYTES_def Let_def split: option.splits)
  then show "0 < b" "old' = old" "idx_enabled env ''DSV41_INDEXER_CHUNKED''"
    "set (if contains_str ''self.candidate_masks'' src then NEEDED_V1 else NEEDED_V3) \<subseteq> set attrs"
    "\<not> contains_str ''self.candidate_masks'' src \<Longrightarrow> contains_str ''candidate_metadata'' src"
    "split \<Longrightarrow> \<not> contains_str ''self.candidate_masks'' src"
    using assms by (auto simp: install_indexer_def install_v1_def install_v3_def drifted_backend_def filter_empty_conv split: if_splits)
qed

end
