(* ===== verification/Ab_Variant.thy ===== *)
theory Ab_Variant
  imports Py_Prelude "HOL-Library.Sublist"
begin

text \<open>
  In-boot variants of adapter flags (\<open>adapter/ab_variant.py\<close>): the specs and their configuration, the values a flag has for the variant that is
  captured or replayed, the graph sets of a backend, the polled flag file, and the switch that rides on the request
  broadcast.

  Parsing of floats, JSON and the configuration hash are arguments; the graphs a capture records are values of the shape
  and the variant current during the capture; numbers of two variants are compared as values. The graph dumps and their two settings, source hashes, replay counts, the acknowledgement file,
  import hooks and log lines are left out.
\<close>

section \<open>Flags and specs\<close>

definition UNION_BOOL :: "string list" where
  "UNION_BOOL = [''DSV41_L2_PREFETCH'', ''DSV41_L2_PREFETCH_WOA'', ''DSV41_L2_PREFETCH_DRAFT'', ''DSV41_L2_PREFETCH_ENGRAM'',
     ''DSV41_L2_PREFETCH_LMHEAD'', ''DSV41_CERT_HEAD'']"

definition UNION_PARTS :: "(string \<times> string list) list" where
  "UNION_PARTS = [(''DSV41_FUSE_QUANT'', [''qnorm'', ''wo_a'', ''hcpad'']), (''DSV41_SPEC_SYNC_FREE'', [''draft'', ''accept'', ''vcap'', ''merge'']),
     (''DSV41_EAGER_GLUE'', [''fence'', ''stage'', ''vcap'', ''vcapk'', ''tvglue'', ''dglue''])]"

definition RUNTIME :: "string list" where
  "RUNTIME = [''DSV41_L2_PREFETCH_AHEAD'', ''DSV41_L2_PREFETCH_MB'', ''DSV41_L2_PREFETCH_WOA_MB'', ''DSV41_L2_PREFETCH_ENGRAM_MB'',
     ''DSV41_L2_PREFETCH_AG'', ''DSV41_L2_PREFETCH_SKIP_N'', ''DSV41_L2_PREFETCH_WOB_MB'', ''DSV41_L2_PREFETCH_MOE'', ''DSV41_L2_PREFETCH_MOE_MB'']"

definition KNOWN :: "string list" where
  "KNOWN = UNION_BOOL @ map fst UNION_PARTS @ RUNTIME"

definition MB_KEYS :: "string list" where
  "MB_KEYS = [''DSV41_L2_PREFETCH_MB'', ''DSV41_L2_PREFETCH_WOA_MB'', ''DSV41_L2_PREFETCH_ENGRAM_MB'', ''DSV41_L2_PREFETCH_SKIP_N'',
     ''DSV41_L2_PREFETCH_WOB_MB'', ''DSV41_L2_PREFETCH_MOE_MB'']"

definition OFF :: "string list" where
  "OFF = [[], ''0'', ''off'', ''false'', ''no'']"

definition truthy :: "string option \<Rightarrow> bool" where
  "truthy v = (case v of None \<Rightarrow> False | Some s \<Rightarrow> py_lower (py_strip s) \<notin> set OFF)"

text \<open>The items of a spec: runs of characters other than a semicolon and white space.\<close>

fun spec_items :: "string \<Rightarrow> string list" where
  "spec_items [] = [[]]"
| "spec_items (c # s) =
     (if c = CHR '';'' \<or> py_isspace c then [] # spec_items s
      else (case spec_items s of [] \<Rightarrow> [[c]] | w # ws \<Rightarrow> (c # w) # ws))"

definition parse_item :: "string \<Rightarrow> (string \<rightharpoonup> string) \<Rightarrow> (string \<rightharpoonup> string) res" where
  "parse_item item out =
     (case split_once ''='' item of
        None \<Rightarrow> Inl RuntimeError
      | Some (key, v) \<Rightarrow> if py_strip key \<notin> set KNOWN then Inl RuntimeError else Inr (out(py_strip key \<mapsto> py_strip v)))"

definition parse_spec :: "string \<Rightarrow> (string \<rightharpoonup> string) res" where
  "parse_spec txt = fold (\<lambda>item acc. bind_res acc (parse_item item)) (filter (\<lambda>w. w \<noteq> []) (spec_items (py_strip txt))) (Inr Map.empty)"

definition parse_parts :: "string option \<Rightarrow> string list \<Rightarrow> string list res" where
  "parse_parts v all_parts =
     (let raw = py_lower (py_strip (case v of None \<Rightarrow> ''0'' | Some s \<Rightarrow> if s = [] then ''0'' else s)) in
      if raw \<in> set OFF then Inr []
      else if raw \<in> {''1'', ''on'', ''true'', ''all''} then Inr all_parts
      else
        let ps = filter (\<lambda>p. p \<noteq> []) (map py_strip (split_char (CHR '','') raw)) in
        if list_ex (\<lambda>p. p \<notin> set all_parts) ps then Inl RuntimeError else Inr (filter (\<lambda>p. p \<in> set ps) all_parts))"

text \<open>The effective behaviour of a variant; knobs of the L2 prefetch are moot while its gate is off.\<close>

datatype 'f eff = Moot | Parts "string list" | Number 'f | Flag bool | Head string

definition norm_key :: "(string \<Rightarrow> 'f option) \<Rightarrow> (string \<Rightarrow> 'f) \<Rightarrow> (string \<rightharpoonup> string) \<Rightarrow> string \<Rightarrow> 'f eff res" where
  "norm_key flt dflt cfg key =
     (let v = cfg key in
      if startswith key ''DSV41_L2_PREFETCH_'' \<and> \<not> truthy (cfg ''DSV41_L2_PREFETCH'') then Inr Moot
      else case map_of UNION_PARTS key of
        Some all_parts \<Rightarrow> bind_res (parse_parts v all_parts) (\<lambda>ps. Inr (Parts ps))
      | None \<Rightarrow>
          if key \<in> set MB_KEYS then
            (case v of None \<Rightarrow> Inr (Number (dflt key))
             | Some s \<Rightarrow> if s = [] then Inr (Number (dflt key)) else (case flt s of None \<Rightarrow> Inl ValueError | Some x \<Rightarrow> Inr (Number x)))
          else if key = ''DSV41_L2_PREFETCH_AG'' then Inr (Flag (case v of None \<Rightarrow> True | Some s \<Rightarrow> py_strip s \<noteq> ''0''))
          else if key = ''DSV41_CERT_HEAD'' then
            (let s = py_lower (py_strip (case v of None \<Rightarrow> ''0'' | Some s \<Rightarrow> if s = [] then ''0'' else s))
             in Inr (Head (if s \<in> set OFF then ''0'' else if s = ''check'' then ''check'' else ''1'')))
          else Inr (Flag (truthy v)))"

fun map_res :: "('a \<Rightarrow> 'b res) \<Rightarrow> 'a list \<Rightarrow> 'b list res" where
  "map_res f [] = Inr []"
| "map_res f (x # xs) = bind_res (f x) (\<lambda>y. bind_res (map_res f xs) (\<lambda>ys. Inr (y # ys)))"

definition norm :: "(string \<Rightarrow> 'f option) \<Rightarrow> (string \<Rightarrow> 'f) \<Rightarrow> (string \<rightharpoonup> string) \<Rightarrow> 'f eff list res" where
  "norm flt dflt cfg = map_res (norm_key flt dflt cfg) KNOWN"

section \<open>Configuration\<close>

record ab_config =
  c_n :: nat
  c_specs :: "(string \<rightharpoonup> string) list"
  c_base :: "string \<rightharpoonup> string"
  c_max_bs :: "int option"
  c_hash :: string
  c_file :: string
  c_reverse :: bool

definition variant_name :: "nat \<Rightarrow> string" where
  "variant_name i = ''DSV41_AB_V'' @ show_nat i"

text \<open>A variable \<open>DSV41_AB_V<i>\<close> with \<open>i\<close> at least \<open>n\<close>.\<close>

definition extra_name :: "nat \<Rightarrow> string \<Rightarrow> bool" where
  "extra_name n k =
     (let rest = drop 10 k in
      startswith k ''DSV41_AB_V'' \<and> rest \<noteq> [] \<and> list_all (\<lambda>c. digit_of c \<noteq> None) rest
      \<and> (case py_int rest of None \<Rightarrow> False | Some i \<Rightarrow> int n \<le> i))"

definition spec_value :: "(string \<rightharpoonup> string) \<Rightarrow> (string \<rightharpoonup> string) \<Rightarrow> string \<Rightarrow> string option" where
  "spec_value spec base k = (case spec k of Some v \<Rightarrow> Some v | None \<Rightarrow> base k)"

fun repeated :: "'a list \<Rightarrow> bool" where
  "repeated [] = False"
| "repeated (x # xs) = (x \<in> set xs \<or> repeated xs)"

fun join_comma :: "string list \<Rightarrow> string" where
  "join_comma [] = []"
| "join_comma [s] = s"
| "join_comma (s # t # ss) = s @ '','' @ join_comma (t # ss)"

text \<open>The gates that are read once, switched on when a variant enables them.\<close>

definition union_bools :: "(string \<rightharpoonup> string) list \<Rightarrow> (string \<rightharpoonup> string) \<Rightarrow> environ \<Rightarrow> environ" where
  "union_bools specs base env =
     fold (\<lambda>k e. if list_ex (\<lambda>s. truthy (spec_value s base k)) specs then e(k \<mapsto> ''1'') else e) UNION_BOOL env"

text \<open>The value a comma-list gate is set to: the union of the variants' parts, or none when no variant has any.\<close>

definition part_gate :: "(string \<rightharpoonup> string) list \<Rightarrow> (string \<rightharpoonup> string) \<Rightarrow> string \<times> string list \<Rightarrow> string option res" where
  "part_gate specs base ka =
     (case ka of (k, all_parts) \<Rightarrow>
        bind_res (map_res (\<lambda>s. parse_parts (spec_value s base k) all_parts) specs) (\<lambda>pss.
          let union = filter (\<lambda>p. p \<in> set (concat pss)) all_parts
          in Inr (if union = [] then None else Some (if union = all_parts then ''1'' else join_comma union))))"

definition union_part :: "(string \<rightharpoonup> string) list \<Rightarrow> (string \<rightharpoonup> string) \<Rightarrow> string \<times> string list \<Rightarrow> environ \<Rightarrow> environ res" where
  "union_part specs base ka env =
     bind_res (part_gate specs base ka) (\<lambda>g. Inr (case g of None \<Rightarrow> env | Some v \<Rightarrow> env(fst ka \<mapsto> v)))"

fun union_parts :: "(string \<rightharpoonup> string) list \<Rightarrow> (string \<rightharpoonup> string) \<Rightarrow> (string \<times> string list) list \<Rightarrow> environ \<Rightarrow> environ res" where
  "union_parts specs base [] env = Inr env"
| "union_parts specs base (ka # kas) env = bind_res (union_part specs base ka env) (union_parts specs base kas)"

definition or_int :: "string \<Rightarrow> int option res" where
  "or_int s = (if s = [] then Inr None else case py_int s of None \<Rightarrow> Inl ValueError | Some v \<Rightarrow> Inr (Some v))"

definition base_values :: "environ \<Rightarrow> string \<rightharpoonup> string" where
  "base_values env k = (if k \<in> set KNOWN then env k else None)"

text \<open>\<open>names\<close>: the variables that are set. The result is \<open>None\<close> when the harness is off.\<close>

definition read_specs :: "(string \<Rightarrow> (string \<rightharpoonup> string) res) \<Rightarrow> nat \<Rightarrow> environ \<Rightarrow> ((string \<rightharpoonup> string) list \<times> (string \<rightharpoonup> string)) res" where
  "read_specs loads n env =
     bind_res (map_res (\<lambda>i. parse_spec (env_get env (variant_name i) [])) [0..<n]) (\<lambda>specs.
     bind_res (case env ''DSV41_AB_BASE'' of Some j \<Rightarrow> loads j | None \<Rightarrow> Inr (base_values env)) (\<lambda>base. Inr (specs, base)))"

definition read_options ::
  "(string \<Rightarrow> 'f option) \<Rightarrow> (nat \<Rightarrow> (string \<rightharpoonup> string) list \<Rightarrow> (string \<rightharpoonup> string) \<Rightarrow> int option \<Rightarrow> bool \<Rightarrow> string) \<Rightarrow> nat \<Rightarrow>
   (string \<rightharpoonup> string) list \<Rightarrow> (string \<rightharpoonup> string) \<Rightarrow> environ \<Rightarrow> ab_config res" where
  "read_options flt hash n specs base env =
     bind_res (or_int (py_strip (env_get env ''DSV41_AB_MAX_BS'' []))) (\<lambda>max_bs.
       if flt (env_get env ''DSV41_AB_POLL_S'' ''0.5'') = None then Inl ValueError
       else
         let flag = py_strip (env_get env ''DSV41_AB_FILE'' []);
             reverse = (py_lower (py_strip (env_get env ''DSV41_AB_CAPTURE_ORDER'' [])) = ''reverse'')
         in Inr \<lparr>c_n = n, c_specs = specs, c_base = base, c_max_bs = max_bs, c_hash = hash n specs base max_bs reverse,
                  c_file = if flag = [] then ''/state/ab_variant'' else flag, c_reverse = reverse\<rparr>)"

text \<open>Two variants of the same effect are an A/A run, refused unless it is asked for.\<close>

definition read_variants ::
  "(string \<Rightarrow> 'f option) \<Rightarrow> (string \<Rightarrow> 'f) \<Rightarrow> (string \<Rightarrow> (string \<rightharpoonup> string) res) \<Rightarrow>
   (nat \<Rightarrow> (string \<rightharpoonup> string) list \<Rightarrow> (string \<rightharpoonup> string) \<Rightarrow> int option \<Rightarrow> bool \<Rightarrow> string) \<Rightarrow> nat \<Rightarrow> environ \<Rightarrow> ab_config res" where
  "read_variants flt dflt loads hash n env =
     bind_res (read_specs loads n env) (\<lambda>(specs, base).
     bind_res (map_res (\<lambda>s. norm flt dflt (spec_value s base)) specs) (\<lambda>eff.
       if repeated eff \<and> \<not> truthy (env ''DSV41_AB_ALLOW_AA'') then Inl RuntimeError
       else read_options flt hash n specs base env))"

definition read_config ::
  "(string \<Rightarrow> 'f option) \<Rightarrow> (string \<Rightarrow> 'f) \<Rightarrow> (string \<Rightarrow> (string \<rightharpoonup> string) res) \<Rightarrow>
   (nat \<Rightarrow> (string \<rightharpoonup> string) list \<Rightarrow> (string \<rightharpoonup> string) \<Rightarrow> int option \<Rightarrow> bool \<Rightarrow> string) \<Rightarrow> string list \<Rightarrow> environ \<Rightarrow> ab_config option res" where
  "read_config flt dflt loads hash names env =
     bind_res (or_int (py_strip (env_get env ''DSV41_AB_VARIANTS'' []))) (\<lambda>raw_n.
       let n = (case raw_n of None \<Rightarrow> 1 | Some v \<Rightarrow> v) in
       if n < 2 then Inr None
       else if 8 < n then Inl RuntimeError
       else if list_ex (extra_name (nat n)) names then Inl RuntimeError
       else bind_res (read_variants flt dflt loads hash (nat n) env) (\<lambda>c. Inr (Some c)))"

definition arm :: "((string \<rightharpoonup> string) \<Rightarrow> string) \<Rightarrow> ab_config \<Rightarrow> environ \<Rightarrow> environ res" where
  "arm dumps c env =
     (let env' = (if env ''DSV41_AB_BASE'' = None then env(''DSV41_AB_BASE'' \<mapsto> dumps (c_base c)) else env)
      in union_parts (c_specs c) (c_base c) UNION_PARTS (union_bools (c_specs c) (c_base c) env'))"

definition configure ::
  "(string \<Rightarrow> 'f option) \<Rightarrow> (string \<Rightarrow> 'f) \<Rightarrow> (string \<Rightarrow> (string \<rightharpoonup> string) res) \<Rightarrow> ((string \<rightharpoonup> string) \<Rightarrow> string) \<Rightarrow>
   (nat \<Rightarrow> (string \<rightharpoonup> string) list \<Rightarrow> (string \<rightharpoonup> string) \<Rightarrow> int option \<Rightarrow> bool \<Rightarrow> string) \<Rightarrow> string list \<Rightarrow> environ \<Rightarrow> (ab_config option \<times> environ) res" where
  "configure flt dflt loads dumps hash names env =
     bind_res (read_config flt dflt loads hash names env) (\<lambda>r. case r of
        None \<Rightarrow> Inr (None, env)
      | Some c \<Rightarrow> bind_res (arm dumps c env) (\<lambda>env'. Inr (Some c, env')))"

section \<open>Reading a flag\<close>

text \<open>The module state: the configuration when armed, the variant being captured, the one being replayed, the switches so far with
  their last token, and whether this rank reads the flag file.\<close>

record ab_state =
  a_config :: "ab_config option"
  a_capture :: "nat option"
  a_runtime :: nat
  a_seq :: nat
  a_token :: "string option"
  a_leader :: bool

definition current :: "ab_state \<Rightarrow> nat" where
  "current a = (case a_capture a of Some v \<Rightarrow> v | None \<Rightarrow> a_runtime a)"

definition env_for :: "ab_config \<Rightarrow> nat \<Rightarrow> string \<Rightarrow> string option \<Rightarrow> string option" where
  "env_for c variant name dflt =
     (case (c_specs c ! variant) name of Some v \<Rightarrow> Some v | None \<Rightarrow> (case c_base c name of None \<Rightarrow> dflt | Some v \<Rightarrow> Some v))"

definition ab_env :: "ab_state \<Rightarrow> environ \<Rightarrow> string \<Rightarrow> string option \<Rightarrow> string option" where
  "ab_env a env name dflt =
     (case a_config a of
        Some c \<Rightarrow> if name \<in> set KNOWN then env_for c (current a) name dflt else (case env name of None \<Rightarrow> dflt | Some v \<Rightarrow> Some v)
      | None \<Rightarrow> (case env name of None \<Rightarrow> dflt | Some v \<Rightarrow> Some v))"

definition sig_tag :: "ab_state \<Rightarrow> nat list" where
  "sig_tag a = (if a_config a = None then [] else [current a])"

section \<open>Graph sets\<close>

text \<open>A backend: its graph maps, the one in use, whether the harness holds one per variant, the shapes it captured once, and a trace of
  warm-up resets and captures (shape, variant current, map in use).\<close>

datatype 'k event = Warm | Captured 'k nat nat

record ('k, 'g) backend =
  g_sets :: "('k \<rightharpoonup> 'g) list"
  g_cur :: nat
  g_own :: bool
  g_shared :: "'k list"
  g_trace :: "'k event list"

definition new_backend :: "('k, 'g) backend" where
  "new_backend = \<lparr>g_sets = [Map.empty], g_cur = 0, g_own = False, g_shared = [], g_trace = []\<rparr>"

text \<open>The engine's capture of a shape records the graph \<open>cap\<close> gives for the shape and the current variant.\<close>

definition orig_capture :: "('k \<Rightarrow> nat \<Rightarrow> 'g res) \<Rightarrow> ab_state \<Rightarrow> 'k \<Rightarrow> ('k, 'g) backend \<Rightarrow> ('k, 'g) backend \<times> unit res" where
  "orig_capture cap a k b =
     (case cap k (current a) of
        Inl e \<Rightarrow> (b, Inl e)
      | Inr g \<Rightarrow> (b\<lparr>g_sets := (g_sets b)[g_cur b := (g_sets b ! g_cur b)(k \<mapsto> g)], g_trace := g_trace b @ [Captured k (current a) (g_cur b)]\<rparr>, Inr ()))"

definition capturing :: "nat \<Rightarrow> ab_state \<Rightarrow> ab_state" where
  "capturing v a = a\<lparr>a_capture := Some v\<rparr>"

definition variants_for :: "ab_config \<Rightarrow> int option \<Rightarrow> nat" where
  "variants_for c size_opt = (case (c_max_bs c, size_opt) of (Some limit, Some sz) \<Rightarrow> if sz \<le> limit then c_n c else 1 | _ \<Rightarrow> c_n c)"

text \<open>\<open>_check_ranks\<close>: \<open>hashes\<close> are those of the group, 62 bits of each; one rank has nothing to compare.\<close>

definition check_ranks :: "int list \<Rightarrow> int \<Rightarrow> bool" where
  "check_ranks hashes own = (length hashes \<le> 1 \<or> Max (set hashes) = own \<and> - Max (set (map uminus hashes)) = own)"

definition take_sets :: "int list \<Rightarrow> int \<Rightarrow> ab_config \<Rightarrow> ('k, 'g) backend \<Rightarrow> ('k, 'g) backend res" where
  "take_sets hashes own c b =
     (if g_own b then Inr b
      else if \<not> check_ranks hashes own then Inl RuntimeError
      else Inr (b\<lparr>g_sets := g_sets b @ replicate (c_n c - 1) Map.empty, g_own := True, g_shared := []\<rparr>))"

text \<open>One variant of a shape: the warm-up hook runs before every capture but the first.\<close>

definition capture_set :: "('k \<Rightarrow> nat \<Rightarrow> 'g res) \<Rightarrow> bool \<Rightarrow> ab_state \<Rightarrow> 'k \<Rightarrow> bool \<Rightarrow> nat \<Rightarrow> ('k, 'g) backend \<Rightarrow> ('k, 'g) backend \<times> unit res" where
  "capture_set cap hook a k first v b =
     (let b1 = (if \<not> first \<and> hook then b\<lparr>g_trace := g_trace b @ [Warm]\<rparr> else b)
      in orig_capture cap (capturing v a) k (b1\<lparr>g_cur := v\<rparr>))"

fun capture_loop :: "('k \<Rightarrow> nat \<Rightarrow> 'g res) \<Rightarrow> bool \<Rightarrow> ab_state \<Rightarrow> 'k \<Rightarrow> bool \<Rightarrow> nat list \<Rightarrow> ('k, 'g) backend \<Rightarrow> ('k, 'g) backend \<times> unit res" where
  "capture_loop cap hook a k first [] b = (b, Inr ())"
| "capture_loop cap hook a k first (v # vs) b =
     (case capture_set cap hook a k first v b of
        (b1, Inl e) \<Rightarrow> (b1, Inl e)
      | (b1, Inr _) \<Rightarrow> capture_loop cap hook a k False vs b1)"

definition capture_order :: "ab_config \<Rightarrow> nat \<Rightarrow> nat list" where
  "capture_order c n = (if c_reverse c \<and> n = c_n c then rev [0..<n] else [0..<n])"

definition capture_one ::
  "('k \<Rightarrow> nat \<Rightarrow> 'g res) \<Rightarrow> int list \<Rightarrow> int \<Rightarrow> bool \<Rightarrow> ('k \<Rightarrow> int option) \<Rightarrow> ab_state \<Rightarrow> 'k \<Rightarrow> ('k, 'g) backend \<Rightarrow> ('k, 'g) backend \<times> unit res" where
  "capture_one cap hashes own hook sz a k b =
     (case a_config a of
        None \<Rightarrow> orig_capture cap a k b
      | Some c \<Rightarrow>
          (case take_sets hashes own c b of
             Inl e \<Rightarrow> (b, Inl e)
           | Inr b0 \<Rightarrow>
               let n = variants_for c (sz k);
                   (b1, r) = capture_loop cap hook a k True (capture_order c n) b0;
                   b2 = b1\<lparr>g_cur := 0\<rparr>
               in (if r = Inr () \<and> n < c_n c then b2\<lparr>g_shared := k # g_shared b2\<rparr> else b2, r)))"

text \<open>A replay runs the graph of the map in use.\<close>

definition orig_replay :: "'k \<Rightarrow> ('k, 'g) backend \<Rightarrow> 'g res" where
  "orig_replay k b = (case (g_sets b ! g_cur b) k of None \<Rightarrow> Inl KeyError | Some g \<Rightarrow> Inr g)"

definition replay :: "ab_state \<Rightarrow> 'k \<Rightarrow> ('k, 'g) backend \<Rightarrow> ('k, 'g) backend \<times> 'g res" where
  "replay a k b =
     (if \<not> g_own b then (b, orig_replay k b)
      else if length (g_sets b) \<le> a_runtime a then (b, Inl IndexError)
      else
        let v = (if k \<in> dom (g_sets b ! a_runtime a) then a_runtime a else 0) in
        if v = 0 then (b, orig_replay k b) else (b\<lparr>g_cur := 0\<rparr>, orig_replay k (b\<lparr>g_cur := v\<rparr>)))"

definition cleanup :: "('k, 'g) backend \<Rightarrow> ('k, 'g) backend" where
  "cleanup b = b\<lparr>g_sets := [Map.empty], g_own := False\<rparr>"

section \<open>The switch\<close>

text \<open>The poll of rank 0: time of the last look, the file's identity (modification time, size, inode), the last good contents, what was
  announced, and the identity last complained about.\<close>

record poll =
  p_checked :: int
  p_key :: "(int \<times> int \<times> int) option"
  p_file :: "(int \<times> string option) option"
  p_announced :: "(int \<times> string option) option"
  p_bad :: "(int \<times> int \<times> int) option"

text \<open>\<open>status\<close> is the file's identity when it exists, \<open>ws\<close> its words when it can be read.\<close>

definition read_file :: "ab_config \<Rightarrow> int \<Rightarrow> int \<Rightarrow> int \<Rightarrow> (int \<times> int \<times> int) option \<Rightarrow> string list option \<Rightarrow> poll \<Rightarrow> poll" where
  "read_file c poll_ns start_ns now status ws p =
     (if now - p_checked p < poll_ns then p
      else
        let p1 = p\<lparr>p_checked := now\<rparr> in
        case status of
          None \<Rightarrow> p1
        | Some key \<Rightarrow>
            if p_key p = Some key then p1
            else
              let p2 = p1\<lparr>p_key := Some key\<rparr>; bad = p2\<lparr>p_bad := Some key\<rparr> in
              if fst key < start_ns then bad
              else case ws of
                None \<Rightarrow> bad
              | Some [] \<Rightarrow> bad
              | Some (f # fs) \<Rightarrow>
                  (case py_int f of
                     None \<Rightarrow> bad
                   | Some v \<Rightarrow> if 0 \<le> v \<and> v < int (c_n c) then p2\<lparr>p_file := Some (v, case fs of [] \<Rightarrow> None | t # _ \<Rightarrow> Some t)\<rparr> else bad))"

datatype 'r item = Req 'r | Marker int "string option" string

text \<open>\<open>_pull_raw_reqs\<close> on the rank that reads the tokenizer; \<open>unsupported\<close>: data-parallel attention or pipeline stages.\<close>

definition pull_reqs :: "(poll \<Rightarrow> poll) \<Rightarrow> bool \<Rightarrow> ab_state \<Rightarrow> poll \<Rightarrow> 'r item list \<Rightarrow> ab_state \<times> poll \<times> 'r item list" where
  "pull_reqs look unsupported a p reqs =
     (case a_config a of
        None \<Rightarrow> (a, p, reqs)
      | Some c \<Rightarrow>
          let a' = a\<lparr>a_leader := True\<rparr> in
          if unsupported then (a', p, reqs)
          else
            let p1 = look p in
            case p_file p1 of
              Some (v, token) \<Rightarrow>
                if p_file p1 \<noteq> p_announced p1 then (a', p1\<lparr>p_announced := p_file p1\<rparr>, reqs @ [Marker v token (c_hash c)]) else (a', p1, reqs)
            | None \<Rightarrow> (a', p1, reqs))"

definition apply_marker :: "ab_config \<Rightarrow> 'r item \<Rightarrow> ab_state \<Rightarrow> ab_state res" where
  "apply_marker c m a =
     (case m of
        Req _ \<Rightarrow> Inr a
      | Marker v token config \<Rightarrow>
          if config \<noteq> c_hash c then Inl RuntimeError
          else Inr (a\<lparr>a_runtime := nat v, a_seq := a_seq a + 1, a_token := token\<rparr>))"

definition markers :: "'r item list \<Rightarrow> 'r item list" where
  "markers reqs = filter (\<lambda>i. case i of Req _ \<Rightarrow> False | Marker _ _ _ \<Rightarrow> True) reqs"

definition plain :: "'r item list \<Rightarrow> 'r item list" where
  "plain reqs = filter (\<lambda>i. case i of Req _ \<Rightarrow> True | Marker _ _ _ \<Rightarrow> False) reqs"

text \<open>What one rank does before the ranks compare.\<close>

definition apply_markers :: "'r item list \<Rightarrow> ab_state \<Rightarrow> ab_state res" where
  "apply_markers reqs a =
     (case a_config a of
        None \<Rightarrow> Inr a
      | Some c \<Rightarrow> fold (\<lambda>m acc. bind_res acc (apply_marker c m)) (markers reqs) (Inr a))"

text \<open>\<open>_check_ranks_agree\<close>: the group's maxima of the variant, the count and their negatives, compared with the rank's own.\<close>

definition ranks_agree :: "ab_state list \<Rightarrow> ab_state \<Rightarrow> bool" where
  "ranks_agree group_states a =
     (length group_states \<le> 1
      \<or> (let v_max = Max (set (map (int \<circ> a_runtime) group_states)); v_min = - Max (set (map (\<lambda>x. - int (a_runtime x)) group_states));
             s_max = Max (set (map (int \<circ> a_seq) group_states)); s_min = - Max (set (map (\<lambda>x. - int (a_seq x)) group_states))
         in v_min = v_max \<and> v_max = int (a_runtime a) \<and> s_min = s_max \<and> s_max = int (a_seq a)))"

text \<open>\<open>recv_requests\<close> on all ranks at once: every rank receives the same items; the result is the ranks' states and
  the requests each hands to its scheduler.\<close>

definition recv_all :: "ab_state list \<Rightarrow> 'r item list \<Rightarrow> (ab_state list \<times> 'r item list list) res" where
  "recv_all states reqs =
     bind_res (map_res (apply_markers reqs) states) (\<lambda>states'.
       let armed = filter (\<lambda>a. a_config a \<noteq> None) states' in
       if markers reqs \<noteq> [] \<and> \<not> list_all (ranks_agree armed) armed then Inl RuntimeError
       else Inr (states', map (\<lambda>a. if a_config a = None then reqs else plain reqs) states'))"

section \<open>Replays run the graph of their variant\<close>

text \<open>Runs of one armed rank: captures, which may fail, replays, switches between the configured variants, and clean-ups. The list
  holds the shapes whose capture returned since the last clean-up.\<close>

inductive ab_reach ::
  "('k \<Rightarrow> nat \<Rightarrow> 'g res) \<Rightarrow> int list \<Rightarrow> int \<Rightarrow> bool \<Rightarrow> ('k \<Rightarrow> int option) \<Rightarrow> ab_config \<Rightarrow> ab_state \<Rightarrow> ('k, 'g) backend \<Rightarrow> 'k list \<Rightarrow> bool"
  for cap hashes own hook sz c where
  start: "a_config a = Some c \<Longrightarrow> a_capture a = None \<Longrightarrow> a_runtime a = 0 \<Longrightarrow> ab_reach cap hashes own hook sz c a new_backend []"
| captured: "ab_reach cap hashes own hook sz c a b ks \<Longrightarrow> capture_one cap hashes own hook sz a k b = (b', r) \<Longrightarrow>
    ab_reach cap hashes own hook sz c a b' (if r = Inr () then k # ks else ks)"
| replayed: "ab_reach cap hashes own hook sz c a b ks \<Longrightarrow> ab_reach cap hashes own hook sz c a (fst (replay a k b)) ks"
| switched: "ab_reach cap hashes own hook sz c a b ks \<Longrightarrow> v < c_n c \<Longrightarrow> ab_reach cap hashes own hook sz c (a\<lparr>a_runtime := v\<rparr>) b ks"
| cleaned: "ab_reach cap hashes own hook sz c a b ks \<Longrightarrow> ab_reach cap hashes own hook sz c a (cleanup b) []"

text \<open>The variant a shape runs under: shapes above the bound have one graph.\<close>

definition graph_variant :: "ab_config \<Rightarrow> int option \<Rightarrow> nat \<Rightarrow> nat" where
  "graph_variant c size_opt v = (if v < variants_for c size_opt then v else 0)"

text \<open>What the maps hold: only graphs of their own variant, none for a variant the shape is not captured under.\<close>

definition sets_ok :: "('k \<Rightarrow> nat \<Rightarrow> 'g res) \<Rightarrow> ('k \<Rightarrow> int option) \<Rightarrow> ab_config \<Rightarrow> ('k, 'g) backend \<Rightarrow> bool" where
  "sets_ok cap sz c b \<longleftrightarrow>
     (\<forall>v k g. v < length (g_sets b) \<and> (g_sets b ! v) k = Some g \<longrightarrow> cap k v = Inr g \<and> v < variants_for c (sz k))"

definition set_count :: "ab_config \<Rightarrow> ('k, 'g) backend \<Rightarrow> nat" where
  "set_count c b = (if g_own b then c_n c else 1)"

definition backend_ok :: "('k \<Rightarrow> nat \<Rightarrow> 'g res) \<Rightarrow> ('k \<Rightarrow> int option) \<Rightarrow> ab_config \<Rightarrow> ('k, 'g) backend \<Rightarrow> 'k list \<Rightarrow> bool" where
  "backend_ok cap sz c b ks \<longleftrightarrow> sets_ok cap sz c b \<and> length (g_sets b) = set_count c b \<and> (g_own b \<or> ks = [] \<and> g_sets b = [Map.empty])
     \<and> (\<forall>k\<in>set ks. \<forall>v<variants_for c (sz k). k \<in> dom (g_sets b ! v))"

lemma sets_okD:
  "sets_ok cap sz c b \<Longrightarrow> v < length (g_sets b) \<Longrightarrow> (g_sets b ! v) k = Some g \<Longrightarrow> cap k v = Inr g \<and> v < variants_for c (sz k)"
  by (auto simp: sets_ok_def)

lemma variants_for_bounds: "1 \<le> c_n c \<Longrightarrow> 1 \<le> variants_for c z \<and> variants_for c z \<le> c_n c"
  by (auto simp: variants_for_def split: option.splits)

lemma capture_order_set: "set (capture_order c n) = {0..<n}"
  by (auto simp: capture_order_def)

lemma current_capturing: "current (capturing v a) = v"
  by (simp add: current_def capturing_def)

text \<open>A backend that has only gained shapes.\<close>

definition gained :: "('k, 'g) backend \<Rightarrow> ('k, 'g) backend \<Rightarrow> bool" where
  "gained b b' \<longleftrightarrow> length (g_sets b') = length (g_sets b) \<and> g_own b' = g_own b \<and> (\<forall>w<length (g_sets b). dom (g_sets b ! w) \<subseteq> dom (g_sets b' ! w))"

lemma gained_trans: "gained b b1 \<Longrightarrow> gained b1 b2 \<Longrightarrow> gained b b2"
  by (fastforce simp: gained_def)

lemma gained_dom: "gained b b' \<Longrightarrow> w < length (g_sets b) \<Longrightarrow> k \<in> dom (g_sets b ! w) \<Longrightarrow> k \<in> dom (g_sets b' ! w)"
  by (auto simp: gained_def)

lemma capture_set_cases:
  assumes "capture_set cap hook a k first v b = (b', r)"
  shows "(\<exists>g. cap k v = Inr g \<and> g_sets b' = (g_sets b)[v := (g_sets b ! v)(k \<mapsto> g)] \<and> r = Inr () \<or> g_sets b' = g_sets b \<and> r \<noteq> Inr ())"
    and "g_own b' = g_own b"
  using assms by (auto simp: capture_set_def orig_capture_def current_capturing Let_def split: sum.splits if_splits)

lemma sets_ok_update:
  assumes ok: "sets_ok cap sz c b" and g: "cap k v = Inr g" and v: "v < variants_for c (sz k)"
    and b': "g_sets b' = (g_sets b)[v := (g_sets b ! v)(k \<mapsto> g)]"
  shows "sets_ok cap sz c b'"
proof (unfold sets_ok_def, intro allI impI, elim conjE)
  fix w l h
  assume w: "w < length (g_sets b')" and h: "(g_sets b' ! w) l = Some h"
  show "cap l w = Inr h \<and> w < variants_for c (sz l)"
  proof (cases "w = v \<and> l = k")
    case True
    with w h g v show ?thesis by (simp add: b')
  next
    case False
    with w h have "(g_sets b ! w) l = Some h" by (cases "w = v") (auto simp: b')
    with sets_okD [OF ok] w show ?thesis by (simp add: b')
  qed
qed

lemma capture_set_ok:
  assumes run: "capture_set cap hook a k first v b = (b', r)"
    and ok: "sets_ok cap sz c b" and v: "v < variants_for c (sz k)" and len: "v < length (g_sets b)"
  shows "sets_ok cap sz c b' \<and> gained b b' \<and> (r = Inr () \<longrightarrow> k \<in> dom (g_sets b' ! v))"
  using capture_set_cases(1) [OF run]
proof (elim disjE exE conjE)
  fix g
  assume g: "cap k v = Inr g" and b': "g_sets b' = (g_sets b)[v := (g_sets b ! v)(k \<mapsto> g)]"
  have "dom (g_sets b ! w) \<subseteq> dom (g_sets b' ! w)" if "w < length (g_sets b)" for w
    using that by (cases "w = v") (auto simp: b')
  then show ?thesis
    using sets_ok_update [OF ok g v b'] capture_set_cases(2) [OF run] len by (simp add: gained_def b')
next
  assume "g_sets b' = g_sets b" and "r \<noteq> Inr ()"
  then show ?thesis using ok capture_set_cases(2) [OF run] by (simp add: gained_def sets_ok_def)
qed

lemma capture_loop_ok:
  assumes "capture_loop cap hook a k first vs b = (b', r)" and "sets_ok cap sz c b"
    and "\<forall>v\<in>set vs. v < variants_for c (sz k) \<and> v < length (g_sets b)"
  shows "sets_ok cap sz c b' \<and> gained b b' \<and> (r = Inr () \<longrightarrow> (\<forall>v\<in>set vs. k \<in> dom (g_sets b' ! v)))"
  using assms
proof (induction vs arbitrary: first b)
  case Nil
  then show ?case by (simp add: gained_def)
next
  case (Cons v vs)
  obtain b1 r1 where one: "capture_set cap hook a k first v b = (b1, r1)" by force
  from capture_set_ok [OF one Cons.prems(2)] Cons.prems(3)
  have ok1: "sets_ok cap sz c b1" and g1: "gained b b1" and d1: "r1 = Inr () \<longrightarrow> k \<in> dom (g_sets b1 ! v)" by auto
  have len1: "length (g_sets b1) = length (g_sets b)" using g1 by (simp add: gained_def)
  show ?case
  proof (cases r1)
    case (Inl e)
    with Cons.prems(1) one have "b' = b1" "r = Inl e" by auto
    with ok1 g1 show ?thesis by simp
  next
    case (Inr u)
    with Cons.prems(1) one have rest: "capture_loop cap hook a k False vs b1 = (b', r)" by simp
    have "sets_ok cap sz c b' \<and> gained b1 b' \<and> (r = Inr () \<longrightarrow> (\<forall>v\<in>set vs. k \<in> dom (g_sets b' ! v)))"
      using Cons.IH [OF rest ok1] Cons.prems(3) len1 by simp
    with g1 d1 Inr gained_trans [OF g1] gained_dom [of b1 b' v k] len1 Cons.prems(3) show ?thesis by auto
  qed
qed

lemma take_sets_ok:
  assumes "take_sets hashes own c b = Inr b'" and "backend_ok cap sz c b ks" and "1 \<le> c_n c"
  shows "backend_ok cap sz c b' ks \<and> g_own b' \<and> length (g_sets b') = c_n c"
proof (cases "g_own b")
  case True
  with assms show ?thesis by (simp add: take_sets_def backend_ok_def set_count_def)
next
  case False
  with assms have b': "g_sets b' = replicate (c_n c) Map.empty" "g_own b'" "ks = []"
    by (auto simp: take_sets_def backend_ok_def split: if_splits simp flip: replicate_Suc)
  then show ?thesis by (auto simp: backend_ok_def sets_ok_def set_count_def)
qed

lemma capture_one_ok:
  assumes run: "capture_one cap hashes own hook sz a k b = (b', r)" and ok: "backend_ok cap sz c b ks"
    and a: "a_config a = Some c" and n: "1 \<le> c_n c" and cur: "g_cur b = 0"
  shows "backend_ok cap sz c b' (if r = Inr () then k # ks else ks) \<and> g_cur b' = 0"
proof (cases "take_sets hashes own c b")
  case (Inl e)
  with run a ok cur show ?thesis by (auto simp: capture_one_def)
next
  case (Inr b0)
  from take_sets_ok [OF Inr ok n] have ok0: "backend_ok cap sz c b0 ks" "g_own b0" "length (g_sets b0) = c_n c" by simp_all
  obtain b1 r1 where loop: "capture_loop cap hook a k True (capture_order c (variants_for c (sz k))) b0 = (b1, r1)" by force
  have "sets_ok cap sz c b1 \<and> gained b0 b1 \<and> (r1 = Inr () \<longrightarrow> (\<forall>v\<in>set (capture_order c (variants_for c (sz k))). k \<in> dom (g_sets b1 ! v)))"
    using capture_loop_ok [OF loop, of sz c] ok0 variants_for_bounds [OF n, of "sz k"]
    by (auto simp: capture_order_set backend_ok_def)
  moreover have "g_sets b' = g_sets b1" "g_own b' = g_own b1" "g_cur b' = 0" "r = r1"
    using run a Inr loop by (auto simp: capture_one_def Let_def split: if_splits)
  moreover have "l \<in> set ks \<Longrightarrow> v < variants_for c (sz l) \<Longrightarrow> gained b0 b1 \<Longrightarrow> l \<in> dom (g_sets b1 ! v)" for l v
    using gained_dom [of b0 b1 v l] ok0 variants_for_bounds [OF n, of "sz l"] by (auto simp: backend_ok_def)
  ultimately show ?thesis
    using ok0 by (auto simp: backend_ok_def sets_ok_def set_count_def gained_def capture_order_set)
qed

lemma replay_frame: "g_cur b = 0 \<Longrightarrow> fst (replay a k b) = b"
  by (simp add: replay_def Let_def)

lemma ab_reach_ok:
  assumes "ab_reach cap hashes own hook sz c a b ks" and n: "1 \<le> c_n c"
  shows "backend_ok cap sz c b ks \<and> g_cur b = 0 \<and> a_config a = Some c \<and> a_capture a = None \<and> a_runtime a < c_n c"
  using assms(1)
proof (induction rule: ab_reach.induct)
  case (start a)
  with n show ?case by (auto simp: new_backend_def backend_ok_def sets_ok_def set_count_def)
next
  case (captured a b ks k b' r)
  with capture_one_ok [OF captured.hyps(2) _ _ n] show ?case by blast
next
  case (replayed a b ks k)
  then show ?case by (simp add: replay_frame)
next
  case (cleaned a b ks)
  then show ?case by (auto simp: cleanup_def backend_ok_def sets_ok_def set_count_def)
qed simp_all

lemma replay_lookup:
  assumes ok: "backend_ok cap sz c b ks" and cur: "g_cur b = 0" and v: "a_runtime a < c_n c"
  shows "snd (replay a k b) =
    (case (if g_own b then (g_sets b ! a_runtime a) k else None) of Some g \<Rightarrow> Inr g
     | None \<Rightarrow> (case (g_sets b ! 0) k of Some g \<Rightarrow> Inr g | None \<Rightarrow> Inl KeyError))"
proof -
  have "g_own b \<Longrightarrow> length (g_sets b) = c_n c" using ok by (simp add: backend_ok_def set_count_def)
  with v cur show ?thesis
    by (cases "g_own b"; cases "a_runtime a = 0") (auto simp: replay_def orig_replay_def Let_def split: option.splits)
qed

lemma backend_graph:
  assumes "backend_ok cap sz c b ks" and "w < set_count c b" and "(g_sets b ! w) k = Some g"
  shows "cap k w = Inr g \<and> w < variants_for c (sz k)"
  using assms sets_okD [of cap sz c b w k g] by (simp add: backend_ok_def)

lemma replay_own_graph:
  assumes ok: "backend_ok cap sz c b ks" and cur: "g_cur b = 0" and v: "a_runtime a < c_n c"
    and run: "snd (replay a k b) = Inr g"
  shows "cap k (a_runtime a) = Inr g \<or> cap k 0 = Inr g"
proof -
  have "0 < set_count c b" using v by (simp add: set_count_def)
  moreover have "a_runtime a < set_count c b" if "g_own b" using v that by (simp add: set_count_def)
  ultimately show ?thesis
    using run backend_graph [OF ok] unfolding replay_lookup [OF ok cur v]
    by (auto split: option.splits if_splits)
qed

lemma replay_captured:
  assumes ok: "backend_ok cap sz c b ks" and cur: "g_cur b = 0" and v: "a_runtime a < c_n c" and k: "k \<in> set ks"
  shows "snd (replay a k b) = cap k (graph_variant c (sz k) (a_runtime a))"
proof -
  let ?w = "graph_variant c (sz k) (a_runtime a)"
  have n: "1 \<le> c_n c" using v by simp
  have own: "g_own b" and dom: "\<And>u. u < variants_for c (sz k) \<Longrightarrow> k \<in> dom (g_sets b ! u)"
    using ok k by (auto simp: backend_ok_def)
  have len: "a_runtime a < set_count c b" using own v by (simp add: set_count_def)
  have w: "?w < variants_for c (sz k)" using variants_for_bounds [OF n, of "sz k"] by (simp add: graph_variant_def)
  with dom obtain g where g: "(g_sets b ! ?w) k = Some g" by blast
  have "?w < set_count c b" using len by (simp add: graph_variant_def)
  then have cap: "cap k ?w = Inr g" using backend_graph [OF ok _ g] by simp
  have "(g_sets b ! a_runtime a) k = None" if "\<not> a_runtime a < variants_for c (sz k)"
    using that backend_graph [OF ok len] by (cases "(g_sets b ! a_runtime a) k") auto
  then show ?thesis
    using own g cap unfolding replay_lookup [OF ok cur v] by (auto simp: graph_variant_def split: if_splits)
qed

section \<open>The switch reaches every rank\<close>

lemma map_res_all: "\<forall>x\<in>set xs. f x = Inr (h x) \<Longrightarrow> map_res f xs = Inr (map h xs)"
  by (induction xs) simp_all

lemma map_res_error:
  "\<forall>x\<in>set xs. f x = Inl e \<or> (\<exists>y. f x = Inr y) \<Longrightarrow> x \<in> set xs \<Longrightarrow> f x = Inl e \<Longrightarrow> map_res f xs = Inl e"
proof (induction xs)
  case (Cons z xs)
  then show ?case by (cases "f z = Inl e") auto
qed simp

text \<open>The variant, the token and the hash a marker carries.\<close>

fun marker_parts :: "'r item \<Rightarrow> int \<times> string option \<times> string" where
  "marker_parts (Marker v token config) = (v, token, config)"
| "marker_parts (Req r) = (0, None, [])"

definition switched_to :: "'r item list \<Rightarrow> ab_state \<Rightarrow> ab_state" where
  "switched_to ms a =
     (case marker_parts (last ms) of (v, token, _) \<Rightarrow> a\<lparr>a_runtime := nat v, a_seq := a_seq a + length ms, a_token := token\<rparr>)"

definition hash_known :: "'r item list \<Rightarrow> ab_state \<Rightarrow> bool" where
  "hash_known ms a \<longleftrightarrow> list_all (\<lambda>m. map_option c_hash (a_config a) = Some (snd (snd (marker_parts m)))) ms"

lemma markers_are: "m \<in> set (markers reqs) \<Longrightarrow> \<exists>v token config. m = Marker v token config"
  by (auto simp: markers_def split: item.splits)

lemma fold_error: "fold (\<lambda>m acc. bind_res acc (f m)) ms (Inl e) = Inl e"
  by (induction ms) simp_all

lemma apply_markers_fold:
  assumes "\<forall>m\<in>set ms. \<exists>v token config. m = Marker v token config" and "a_config a = Some c" and "ms \<noteq> []"
  shows "fold (\<lambda>m acc. bind_res acc (apply_marker c m)) ms (Inr a) = (if hash_known ms a then Inr (switched_to ms a) else Inl RuntimeError)"
  using assms
proof (induction ms arbitrary: a)
  case (Cons m ms)
  then obtain v token config where m: "m = Marker v token config" by auto
  show ?case
  proof (cases "config = c_hash c \<and> ms \<noteq> []")
    case True
    let ?a = "a\<lparr>a_runtime := nat v, a_seq := a_seq a + 1, a_token := token\<rparr>"
    have "hash_known ms ?a = hash_known ms a" by (simp add: hash_known_def)
    moreover have "switched_to ms ?a = switched_to (m # ms) a"
      using True by (auto simp: switched_to_def split: prod.splits)
    ultimately show ?thesis
      using Cons.IH [of ?a] Cons.prems True by (simp add: m apply_marker_def hash_known_def)
  next
    case False
    then consider "config \<noteq> c_hash c" | "config = c_hash c" "ms = []" by blast
    then show ?thesis
    proof cases
      case 1
      with Cons.prems(2) show ?thesis by (simp add: m apply_marker_def hash_known_def fold_error)
    next
      case 2
      with Cons.prems(2) show ?thesis by (simp add: m apply_marker_def hash_known_def switched_to_def)
    qed
  qed
qed simp

lemma apply_markers_eq:
  assumes "a_config a \<noteq> None" and "markers reqs \<noteq> []"
  shows "apply_markers reqs a = (if hash_known (markers reqs) a then Inr (switched_to (markers reqs) a) else Inl RuntimeError)"
  using assms apply_markers_fold [of "markers reqs" a] markers_are by (fastforce simp: apply_markers_def)

lemma max_min_own:
  fixes m :: int
  assumes "finite S" and "m \<in> S"
  shows "- Max (uminus ` S) = Max S \<and> Max S = m \<longleftrightarrow> (\<forall>x\<in>S. x = m)"
proof
  assume eq: "- Max (uminus ` S) = Max S \<and> Max S = m"
  show "\<forall>x\<in>S. x = m"
  proof
    fix x
    assume x: "x \<in> S"
    have "x \<le> Max S" and "- x \<le> Max (uminus ` S)" using x assms(1) by auto
    with eq show "x = m" by linarith
  qed
next
  assume "\<forall>x\<in>S. x = m"
  with assms(2) have "S = {m}" by blast
  then show "- Max (uminus ` S) = Max S \<and> Max S = m" by simp
qed

lemma all_same_length: "length xs \<le> 1 \<Longrightarrow> x \<in> set xs \<Longrightarrow> y \<in> set xs \<Longrightarrow> x = y"
  by (cases xs) auto

lemma ranks_agree_iff:
  assumes "a \<in> set as"
  shows "ranks_agree as a \<longleftrightarrow> (\<forall>x\<in>set as. a_runtime x = a_runtime a \<and> a_seq x = a_seq a)"
proof (cases "length as \<le> 1")
  case True
  with assms all_same_length [OF True] show ?thesis by (auto simp: ranks_agree_def)
next
  case False
  have "(\<lambda>x. - int (f x)) ` set as = uminus ` ((int \<circ> f) ` set as)" for f :: "ab_state \<Rightarrow> nat"
    by (simp add: image_image)
  then have "- Max (set (map (\<lambda>x. - int (f x)) as)) = Max (set (map (int \<circ> f) as)) \<and> Max (set (map (int \<circ> f) as)) = int (f a)
      \<longleftrightarrow> (\<forall>x\<in>set as. f x = f a)" for f :: "ab_state \<Rightarrow> nat"
    using max_min_own [of "(int \<circ> f) ` set as" "int (f a)"] assms by simp
  from this [of a_runtime] this [of a_seq] False show ?thesis
    unfolding ranks_agree_def Let_def by blast
qed

lemma switched_to_simps:
  "a_config (switched_to ms a) = a_config a"
  "a_seq (switched_to ms a) = a_seq a + length ms"
  "a_runtime (switched_to ms a) = nat (fst (marker_parts (last ms)))"
  "a_capture (switched_to ms a) = a_capture a"
  by (simp_all add: switched_to_def split: prod.splits)

text \<open>Ranks that have switched equally often.\<close>

definition same_count :: "ab_state list \<Rightarrow> bool" where
  "same_count as \<longleftrightarrow> (\<forall>x\<in>set as. \<forall>y\<in>set as. a_seq x = a_seq y)"

lemma same_count_Cons: "same_count (x # xs) \<longleftrightarrow> (\<forall>y\<in>set xs. a_seq y = a_seq x)"
  unfolding same_count_def list.set by (metis insert_iff)

lemma ranks_agree_switched:
  "list_all (ranks_agree (map (switched_to ms) as)) (map (switched_to ms) as) \<longleftrightarrow> same_count as"
proof -
  have "ranks_agree (map (switched_to ms) as) (switched_to ms a) \<longleftrightarrow> (\<forall>x\<in>set as. a_seq x = a_seq a)" if "a \<in> set as" for a
    using ranks_agree_iff [of "switched_to ms a" "map (switched_to ms) as"] that by (simp add: switched_to_simps)
  then show ?thesis by (auto simp: list_all_iff same_count_def)
qed

lemma recv_all_eq:
  assumes armed: "list_all (\<lambda>a. a_config a \<noteq> None) as" and ms: "markers reqs \<noteq> []"
  shows "recv_all as reqs =
    (if list_all (hash_known (markers reqs)) as \<and> same_count as
     then Inr (map (switched_to (markers reqs)) as, map (\<lambda>_. plain reqs) as) else Inl RuntimeError)"
proof (cases "list_all (hash_known (markers reqs)) as")
  case True
  have e1: "map_res (apply_markers reqs) as = Inr (map (switched_to (markers reqs)) as)"
    by (rule map_res_all) (use True armed apply_markers_eq [OF _ ms] in \<open>auto simp: list_all_iff\<close>)
  have e2: "filter (\<lambda>a. a_config a \<noteq> None) (map (switched_to (markers reqs)) as) = map (switched_to (markers reqs)) as"
    using armed by (auto simp: list_all_iff switched_to_simps filter_id_conv)
  have e3: "map (\<lambda>a. if a_config a = None then reqs else plain reqs) (map (switched_to (markers reqs)) as) = map (\<lambda>_. plain reqs) as"
    unfolding map_map map_eq_conv o_def switched_to_simps using armed unfolding list_all_iff by fastforce
  show ?thesis
    unfolding recv_all_def e1 bind_res_simps Let_def e2 e3 ranks_agree_switched using ms True by simp
next
  case False
  then obtain a where a: "a \<in> set as" "\<not> hash_known (markers reqs) a" by (auto simp: list_all_iff)
  have "map_res (apply_markers reqs) as = Inl RuntimeError"
    by (rule map_res_error [of _ _ _ a]) (use a armed apply_markers_eq [OF _ ms] in \<open>auto simp: list_all_iff\<close>)
  with False show ?thesis by (simp add: recv_all_def)
qed

lemma recv_all_plain:
  assumes "markers reqs = []"
  shows "recv_all as reqs = Inr (as, map (\<lambda>_. reqs) as)"
proof -
  have "apply_markers reqs a = Inr a" for a using assms by (simp add: apply_markers_def split: option.splits)
  then have "map_res (apply_markers reqs) as = Inr as" using map_res_all [of as "apply_markers reqs" id] by simp
  moreover have "plain reqs = reqs"
    using assms by (induction reqs) (auto simp: plain_def markers_def split: item.splits)
  ultimately show ?thesis using assms by (simp add: recv_all_def)
qed

section \<open>Rounds of the switch\<close>

text \<open>One scheduler iteration of all ranks: the first rank polls and appends its marker, and every rank receives the same items.\<close>

definition switch_round ::
  "(poll \<Rightarrow> poll) \<Rightarrow> bool \<Rightarrow> ab_state list \<Rightarrow> poll \<Rightarrow> 'r list \<Rightarrow> (ab_state list \<times> poll \<times> 'r item list list) res" where
  "switch_round look unsupported states p reqs =
     (let (a, p', items) = pull_reqs look unsupported (hd states) p (map Req reqs)
      in bind_res (recv_all (a # tl states) items) (\<lambda>(states', outs). Inr (states', p', outs)))"

inductive round_reach :: "ab_config \<Rightarrow> int \<Rightarrow> int \<Rightarrow> ab_state list \<Rightarrow> poll \<Rightarrow> bool" for c poll_ns start_ns where
  booted: "states \<noteq> [] \<Longrightarrow> \<forall>a\<in>set states. a_config a = Some c \<and> a_runtime a = 0 \<and> a_seq a = 0 \<and> a_token a = None \<Longrightarrow>
    p_file p = None \<Longrightarrow> p_announced p = None \<Longrightarrow> round_reach c poll_ns start_ns states p"
| round: "round_reach c poll_ns start_ns states p \<Longrightarrow>
    switch_round (read_file c poll_ns start_ns now status ws) unsupported states p (reqs :: nat list) = Inr (states', p', outs) \<Longrightarrow>
    round_reach c poll_ns start_ns states' p'"

text \<open>The state all ranks share: what the first rank announced last.\<close>

definition shows_announced :: "ab_config \<Rightarrow> poll \<Rightarrow> ab_state \<Rightarrow> bool" where
  "shows_announced c p a \<longleftrightarrow> a_config a = Some c \<and>
     (case p_announced p of None \<Rightarrow> a_runtime a = 0 \<and> a_token a = None
      | Some (v, token) \<Rightarrow> a_runtime a = nat v \<and> a_token a = token)"

definition in_range :: "ab_config \<Rightarrow> (int \<times> string option) option \<Rightarrow> bool" where
  "in_range c f = (case f of None \<Rightarrow> True | Some (v, _) \<Rightarrow> 0 \<le> v \<and> v < int (c_n c))"

definition ranks_together :: "ab_config \<Rightarrow> ab_state list \<Rightarrow> poll \<Rightarrow> bool" where
  "ranks_together c states p \<longleftrightarrow> states \<noteq> [] \<and> list_all (shows_announced c p) states \<and> same_count states
     \<and> in_range c (p_file p) \<and> in_range c (p_announced p)"

lemma read_file_range: "in_range c (p_file p) \<Longrightarrow> in_range c (p_file (read_file c poll_ns start_ns now status ws p))"
  by (auto simp: read_file_def in_range_def Let_def split: option.splits list.splits)

lemma read_file_announced: "p_announced (read_file c poll_ns start_ns now status ws p) = p_announced p"
  by (simp add: read_file_def Let_def split: option.splits list.splits)

lemma markers_plain: "markers (map Req reqs) = []" "plain (map Req reqs) = map Req reqs"
  by (simp_all add: markers_def plain_def filter_empty_conv filter_id_conv)

text \<open>A round keeps the ranks together and hands every rank the requests that were pulled.\<close>

lemma switch_round_together:
  assumes t: "ranks_together c states p"
    and look: "\<And>p. in_range c (p_file p) \<Longrightarrow> in_range c (p_file (look p))" "\<And>p. p_announced (look p) = p_announced p"
  shows "\<exists>states' p'. switch_round look unsupported states p reqs = Inr (states', p', map (\<lambda>_. map Req reqs) states)
    \<and> ranks_together c states' p' \<and> length states' = length states
    \<and> (unsupported \<or> p_file p' = None \<or> p_announced p' = p_file p')"
proof -
  obtain a as where st: "states = a # as" using t by (cases states) (auto simp: ranks_together_def)
  let ?a = "a\<lparr>a_leader := True\<rparr>"
  have config: "a_config a = Some c" "\<forall>x\<in>set as. a_config x = Some c"
    using t by (auto simp: ranks_together_def st shows_announced_def list_all_iff)
  have lead: "shows_announced c q ?a = shows_announced c q a" for q by (simp add: shows_announced_def split: option.splits prod.splits)
  have cnt: "same_count (?a # as)" using t by (simp add: ranks_together_def st same_count_Cons)
  show ?thesis
  proof (cases "\<not> unsupported \<and> p_file (look p) \<noteq> None \<and> p_file (look p) \<noteq> p_announced p")
    case True
    then obtain v token where f: "p_file (look p) = Some (v, token)" by auto
    let ?ms = "[Marker v token (c_hash c)] :: 'a item list"
    let ?items = "map Req reqs @ ?ms"
    let ?p = "(look p)\<lparr>p_announced := Some (v, token)\<rparr>"
    have ms: "markers ?items = ?ms" "plain ?items = map Req reqs"
      using markers_plain [of reqs] by (simp_all add: markers_def plain_def)
    have pull: "pull_reqs look unsupported a p (map Req reqs) = (?a, ?p, ?items)"
      using True f config(1) look(2) by (simp add: pull_reqs_def)
    have known: "list_all (hash_known ?ms) (?a # as)"
      using config by (simp add: hash_known_def list_all_iff)
    have armed: "list_all (\<lambda>a. a_config a \<noteq> None) (?a # as)" using config by (simp add: list_all_iff)
    have recv: "recv_all (?a # as) ?items = Inr (map (switched_to ?ms) (?a # as), map (\<lambda>_. map Req reqs) (?a # as))"
      using recv_all_eq [OF armed, of ?items] known cnt unfolding ms by simp
    have "list_all (shows_announced c ?p) (map (switched_to ?ms) (?a # as))"
      using config by (simp add: list_all_iff shows_announced_def switched_to_def)
    moreover have "same_count (map (switched_to ?ms) (?a # as))"
      using cnt by (simp add: same_count_Cons switched_to_simps)
    moreover have "in_range c (p_file ?p)" "in_range c (p_announced ?p)"
      using look(1) [of p] t f by (simp_all add: ranks_together_def in_range_def)
    ultimately have "ranks_together c (map (switched_to ?ms) (?a # as)) ?p"
      by (simp add: ranks_together_def)
    moreover have "p_announced ?p = p_file ?p" using f by simp
    ultimately show ?thesis unfolding switch_round_def st list.sel pull recv Let_def prod.case bind_res_simps by force
  next
    case False
    define q where "q = (if unsupported then p else look p)"
    have pull: "pull_reqs look unsupported a p (map Req reqs) = (?a, q, map Req reqs)"
      using False config(1) look(2) by (auto simp: pull_reqs_def Let_def q_def split: option.splits)
    have same: "shows_announced c q = shows_announced c p"
      using look(2) [of p] by (intro ext) (simp add: q_def shows_announced_def)
    have "in_range c (p_file q)" "in_range c (p_announced q)"
      using t look by (auto simp: ranks_together_def q_def)
    then have "ranks_together c (?a # as) q"
      using t cnt lead unfolding ranks_together_def st same by simp
    moreover have "unsupported \<or> p_file q = None \<or> p_announced q = p_file q"
      using False look(2) [of p] by (cases "p_file (look p)") (auto simp: q_def)
    ultimately show ?thesis
      unfolding switch_round_def st list.sel pull Let_def prod.case recv_all_plain [OF markers_plain(1)] bind_res_simps by force
  qed
qed

lemma ranks_together_same:
  assumes t: "ranks_together c states p" and n: "1 \<le> c_n c"
  shows "\<exists>v token s. v < c_n c \<and> (\<forall>a\<in>set states. a_runtime a = v \<and> a_token a = token \<and> a_seq a = s)"
proof -
  obtain a as where st: "states = a # as" using t by (cases states) (auto simp: ranks_together_def)
  have cnt: "\<forall>x\<in>set states. a_seq x = a_seq a" using t by (simp add: ranks_together_def st same_count_Cons)
  show ?thesis
  proof (cases "p_announced p")
    case None
    with t have "\<forall>x\<in>set states. a_runtime x = 0 \<and> a_token x = None" by (simp add: ranks_together_def list_all_iff shows_announced_def)
    with cnt n show ?thesis by (metis less_eq_Suc_le One_nat_def)
  next
    case (Some f)
    obtain w token where f: "f = (w, token)" by force
    with t Some have "\<forall>x\<in>set states. a_runtime x = nat w \<and> a_token x = token" "nat w < c_n c"
      by (auto simp: ranks_together_def list_all_iff shows_announced_def in_range_def)
    with cnt show ?thesis by metis
  qed
qed

lemma ranks_together_announced:
  assumes "ranks_together c states p" and "p_announced p = Some (w, token)" and "a \<in> set states"
  shows "int (a_runtime a) = w \<and> a_token a = token"
  using assms by (auto simp: ranks_together_def list_all_iff shows_announced_def in_range_def)

lemma round_reach_together:
  assumes "round_reach c poll_ns start_ns states p"
  shows "ranks_together c states p"
  using assms
proof induction
  case (booted states p)
  then show ?case by (auto simp: ranks_together_def list_all_iff shows_announced_def same_count_def in_range_def)
next
  case (round states p now status ws unsupported reqs states' p' outs)
  let ?look = "read_file c poll_ns start_ns now status ws"
  from switch_round_together [OF round.IH, of ?look unsupported reqs] read_file_range read_file_announced round.hyps(2)
  show ?case by auto
qed

section \<open>A child process inherits the configuration\<close>

lemma gate_names:
  "k \<in> set UNION_BOOL \<or> k \<in> fst ` set UNION_PARTS \<Longrightarrow> take 8 k \<noteq> ''DSV41_AB''"
  by (auto simp: UNION_BOOL_def UNION_PARTS_def)

lemma union_bools_fold:
  "fold (\<lambda>k e. if P k then e(k \<mapsto> v) else e) ks env k = (if k \<in> set ks \<and> P k then Some v else env k)"
  by (induction ks arbitrary: env) auto

lemma union_bools_at:
  "union_bools specs base env k =
    (if k \<in> set UNION_BOOL \<and> (\<exists>s\<in>set specs. truthy (spec_value s base k)) then Some ''1'' else env k)"
  by (simp add: union_bools_def union_bools_fold list_ex_iff)

definition gate_at :: "(string \<rightharpoonup> string) list \<Rightarrow> (string \<rightharpoonup> string) \<Rightarrow> (string \<times> string list) list \<Rightarrow> environ \<Rightarrow> environ" where
  "gate_at specs base kas env k =
     (case map_of kas k of
        None \<Rightarrow> env k
      | Some ap \<Rightarrow> (case part_gate specs base (k, ap) of Inr (Some v) \<Rightarrow> Some v | _ \<Rightarrow> env k))"

lemma union_parts_at:
  "distinct (map fst kas) \<Longrightarrow>
    union_parts specs base kas env = Inr e \<longleftrightarrow> (\<forall>ka\<in>set kas. \<exists>g. part_gate specs base ka = Inr g) \<and> e = gate_at specs base kas env"
proof (induction kas arbitrary: env)
  case Nil
  then show ?case by (auto simp: gate_at_def fun_eq_iff)
next
  case (Cons ka kas)
  obtain k ap where ka: "ka = (k, ap)" by force
  show ?case
  proof (cases "part_gate specs base ka")
    case (Inl x)
    then show ?thesis by (simp add: union_part_def)
  next
    case (Inr g)
    let ?env = "case g of None \<Rightarrow> env | Some v \<Rightarrow> env(k \<mapsto> v)"
    have "map_of kas k = None" using Cons.prems by (simp add: ka map_of_eq_None_iff)
    then have "gate_at specs base kas ?env = gate_at specs base (ka # kas) env"
      using Inr by (auto simp: gate_at_def fun_eq_iff ka split: option.splits sum.splits)
    with Inr Cons show ?thesis by (cases g) (simp_all add: union_part_def ka)
  qed
qed

lemma union_parts_distinct: "distinct (map fst UNION_PARTS)"
  by (simp add: UNION_PARTS_def)

text \<open>Arming again changes nothing.\<close>

lemma arm_values:
  assumes "arm dumps c env = Inr env'"
  shows "take 8 k = ''DSV41_AB'' \<Longrightarrow> env' k = (if k = ''DSV41_AB_BASE'' \<and> env k = None then Some (dumps (c_base c)) else env k)"
    and "arm dumps c env' = Inr env'"
proof -
  define b where "b = (if env ''DSV41_AB_BASE'' = None then env(''DSV41_AB_BASE'' \<mapsto> dumps (c_base c)) else env)"
  have gates: "\<forall>ka\<in>set UNION_PARTS. \<exists>g. part_gate (c_specs c) (c_base c) ka = Inr g"
    and env': "env' = gate_at (c_specs c) (c_base c) UNION_PARTS (union_bools (c_specs c) (c_base c) b)"
    using assms union_parts_at [OF union_parts_distinct] by (simp_all add: arm_def Let_def b_def)
  have frame: "env' k = b k" if "take 8 k = ''DSV41_AB''" for k
  proof -
    have "k \<notin> set UNION_BOOL" "map_of UNION_PARTS k = None"
      using gate_names [of k] that by (auto simp: map_of_eq_None_iff)
    then show ?thesis by (simp add: env' gate_at_def union_bools_at)
  qed
  then show "take 8 k = ''DSV41_AB'' \<Longrightarrow> env' k = (if k = ''DSV41_AB_BASE'' \<and> env k = None then Some (dumps (c_base c)) else env k)"
    using frame [of k] by (auto simp: b_def)
  have "env' ''DSV41_AB_BASE'' \<noteq> None" using frame [of "''DSV41_AB_BASE''"] by (simp add: b_def)
  moreover have "gate_at (c_specs c) (c_base c) UNION_PARTS (union_bools (c_specs c) (c_base c) env') = env'"
  proof
    fix k
    have "union_bools (c_specs c) (c_base c) env' k = env' k" if "map_of UNION_PARTS k = None"
      using that by (auto simp: env' gate_at_def union_bools_at)
    moreover have "union_bools (c_specs c) (c_base c) env' k = env' k" if "map_of UNION_PARTS k \<noteq> None"
    proof -
      have "k \<notin> set UNION_BOOL" using that by (auto simp: UNION_BOOL_def UNION_PARTS_def)
      then show ?thesis by (simp add: union_bools_at)
    qed
    ultimately show "gate_at (c_specs c) (c_base c) UNION_PARTS (union_bools (c_specs c) (c_base c) env') k = env' k"
      by (cases "map_of UNION_PARTS k") (auto simp: gate_at_def env' split: sum.splits option.splits)
  qed
  ultimately show "arm dumps c env' = Inr env'"
    using gates union_parts_at [OF union_parts_distinct] by (auto simp: arm_def Let_def)
qed

lemma known_not_extra: "k \<in> set KNOWN \<or> k = ''DSV41_AB_BASE'' \<Longrightarrow> \<not> extra_name n k"
  by (auto simp: KNOWN_def UNION_BOOL_def UNION_PARTS_def RUNTIME_def extra_name_def startswith_def)

lemma variant_name_AB: "take 8 (variant_name i) = ''DSV41_AB''" "variant_name i \<noteq> ''DSV41_AB_BASE''"
  by (simp_all add: variant_name_def)

lemma map_res_cong: "(\<And>x. x \<in> set xs \<Longrightarrow> f x = g x) \<Longrightarrow> map_res f xs = map_res g xs"
  by (induction xs) simp_all

lemma read_options_fields:
  "read_options flt hash n specs base env = Inr c \<Longrightarrow> c_n c = n \<and> c_specs c = specs \<and> c_base c = base"
  by (auto simp: read_options_def bind_res_Inr_iff Let_def split: if_splits)

lemma read_variants_parts:
  assumes "read_variants flt dflt loads hash n env = Inr c"
  shows "read_specs loads n env = Inr (c_specs c, c_base c)"
    and "read_options flt hash n (c_specs c) (c_base c) env = Inr c"
    and "\<exists>eff. map_res (\<lambda>s. norm flt dflt (spec_value s (c_base c))) (c_specs c) = Inr eff
      \<and> \<not> (repeated eff \<and> \<not> truthy (env ''DSV41_AB_ALLOW_AA''))"
    and "c_n c = n"
proof -
  obtain specs base eff where r: "read_specs loads n env = Inr (specs, base)"
    "map_res (\<lambda>s. norm flt dflt (spec_value s base)) specs = Inr eff" "\<not> (repeated eff \<and> \<not> truthy (env ''DSV41_AB_ALLOW_AA''))"
    "read_options flt hash n specs base env = Inr c"
    using assms by (auto simp: read_variants_def bind_res_Inr_iff split: if_splits)
  from read_options_fields [OF r(4)] r show "read_specs loads n env = Inr (c_specs c, c_base c)"
    "read_options flt hash n (c_specs c) (c_base c) env = Inr c" "c_n c = n"
    "\<exists>eff. map_res (\<lambda>s. norm flt dflt (spec_value s (c_base c))) (c_specs c) = Inr eff
      \<and> \<not> (repeated eff \<and> \<not> truthy (env ''DSV41_AB_ALLOW_AA''))" by auto
qed

lemma read_config_parts:
  assumes "read_config flt dflt loads hash names env = Inr (Some c)"
  obtains n where "or_int (py_strip (env_get env ''DSV41_AB_VARIANTS'' [])) = Inr (Some n)" and "2 \<le> n" and "n \<le> 8"
    and "\<not> list_ex (extra_name (nat n)) names" and "read_variants flt dflt loads hash (nat n) env = Inr c"
proof -
  obtain raw_n where raw: "or_int (py_strip (env_get env ''DSV41_AB_VARIANTS'' [])) = Inr raw_n"
    using assms by (auto simp: read_config_def bind_res_Inr_iff)
  with assms that show ?thesis
    by (cases raw_n) (auto simp: read_config_def Let_def bind_res_Inr_iff not_less split: if_splits)
qed

text \<open>A process whose variables agree reads the same configuration.\<close>

lemma read_variants_child:
  assumes run: "read_variants flt dflt loads hash n env = Inr c"
    and same: "\<And>k. take 8 k = ''DSV41_AB'' \<Longrightarrow> k \<noteq> ''DSV41_AB_BASE'' \<Longrightarrow> env' k = env k"
    and base: "env' ''DSV41_AB_BASE'' = Some j" "loads j = Inr (c_base c)"
  shows "read_variants flt dflt loads hash n env' = Inr c"
proof -
  note parts = read_variants_parts [OF run]
  have get: "env_get env' k d = env_get env k d" if "take 8 k = ''DSV41_AB''" "k \<noteq> ''DSV41_AB_BASE''" for k d
    using same [OF that] by (simp add: env_get_def)
  have "map_res (\<lambda>i. parse_spec (env_get env' (variant_name i) [])) [0..<n] =
      map_res (\<lambda>i. parse_spec (env_get env (variant_name i) [])) [0..<n]"
    by (rule map_res_cong) (simp only: get [OF variant_name_AB])
  then have "read_specs loads n env' = Inr (c_specs c, c_base c)"
    using parts(1) base by (auto simp: read_specs_def bind_res_Inr_iff)
  moreover have "read_options flt hash n (c_specs c) (c_base c) env' = Inr c"
    using parts(2) by (simp add: read_options_def get cong: if_cong)
  moreover have "env' ''DSV41_AB_ALLOW_AA'' = env ''DSV41_AB_ALLOW_AA''" by (rule same) simp_all
  ultimately show ?thesis using parts(3) by (auto simp: read_variants_def)
qed

lemma read_config_child:
  assumes run: "read_config flt dflt loads hash names env = Inr (Some c)"
    and same: "\<And>k. take 8 k = ''DSV41_AB'' \<Longrightarrow> k \<noteq> ''DSV41_AB_BASE'' \<Longrightarrow> env' k = env k"
    and base: "env' ''DSV41_AB_BASE'' = Some j" "loads j = Inr (c_base c)"
    and names: "set names' \<subseteq> set names \<union> set KNOWN \<union> {''DSV41_AB_BASE''}"
  shows "read_config flt dflt loads hash names' env' = Inr (Some c)"
proof -
  obtain n where n: "or_int (py_strip (env_get env ''DSV41_AB_VARIANTS'' [])) = Inr (Some n)" "2 \<le> n" "n \<le> 8"
    and extra: "\<not> list_ex (extra_name (nat n)) names" and vs: "read_variants flt dflt loads hash (nat n) env = Inr c"
    by (rule read_config_parts [OF run])
  have "\<not> extra_name (nat n) k" if "k \<in> set names'" for k
  proof -
    from that names consider "k \<in> set names" | "k \<in> set KNOWN \<or> k = ''DSV41_AB_BASE''" by blast
    then show ?thesis
    proof cases
      case 1
      with extra show ?thesis by (simp add: list_ex_iff)
    qed (rule known_not_extra)
  qed
  then have "\<not> list_ex (extra_name (nat n)) names'" by (simp add: list_ex_iff)
  moreover have "env' ''DSV41_AB_VARIANTS'' = env ''DSV41_AB_VARIANTS''" by (rule same) simp_all
  then have "env_get env' ''DSV41_AB_VARIANTS'' [] = env_get env ''DSV41_AB_VARIANTS'' []" by (simp add: env_get_def)
  ultimately show ?thesis
    using n read_variants_child [OF vs same base] by (simp add: read_config_def)
qed

lemma configured:
  assumes "configure flt dflt loads dumps hash names env = Inr (Some c, env')"
  shows "read_config flt dflt loads hash names env = Inr (Some c) \<and> arm dumps c env = Inr env'"
  using assms by (auto simp: configure_def bind_res_Inr_iff split: option.splits)

lemma base_read:
  assumes "read_config flt dflt loads hash names env = Inr (Some c)" and "env ''DSV41_AB_BASE'' = Some j"
  shows "loads j = Inr (c_base c)"
proof -
  obtain n where "read_variants flt dflt loads hash n env = Inr c" by (rule read_config_parts [OF assms(1)])
  from read_variants_parts(1) [OF this] assms(2) show ?thesis by (auto simp: read_specs_def bind_res_Inr_iff)
qed

lemma parts_round_trip:
  "list_all (\<lambda>ka. list_all (\<lambda>ps. ps = [] \<or> parse_parts (Some (if ps = snd ka then ''1'' else join_comma ps)) (snd ka) = Inr ps) (subseqs (snd ka))) UNION_PARTS"
  by code_simp

lemma configured_child:
  assumes run: "configure flt dflt loads dumps hash names env = Inr (Some c, env')"
    and json: "loads (dumps (c_base c)) = Inr (c_base c)" and names: "set names' \<subseteq> set names \<union> set KNOWN \<union> {''DSV41_AB_BASE''}"
  shows "configure flt dflt loads dumps hash names' env' = Inr (Some c, env')"
proof -
  from configured [OF run] have cfg: "read_config flt dflt loads hash names env = Inr (Some c)" and armed: "arm dumps c env = Inr env'"
    by simp_all
  obtain j where j: "env' ''DSV41_AB_BASE'' = Some j" "loads j = Inr (c_base c)"
    using arm_values(1) [OF armed, of "''DSV41_AB_BASE''"] base_read [OF cfg] json
    by (cases "env ''DSV41_AB_BASE''") auto
  have "read_config flt dflt loads hash names' env' = Inr (Some c)"
    by (rule read_config_child [OF cfg]) (use arm_values(1) [OF armed] j names in simp_all)
  then show ?thesis using arm_values(2) [OF armed] by (simp add: configure_def)
qed

lemma parse_parts_subset: "parse_parts v ap = Inr ps \<Longrightarrow> set ps \<subseteq> set ap"
  by (auto simp: parse_parts_def Let_def split: if_splits)

lemma map_res_Inr: "map_res f xs = Inr ys \<Longrightarrow> x \<in> set xs \<Longrightarrow> \<exists>y\<in>set ys. f x = Inr y"
  by (induction xs arbitrary: ys) (auto simp: bind_res_Inr_iff)

lemma armed_switches:
  assumes armed: "arm dumps c env = Inr env'" and s: "s \<in> set (c_specs c)" and k: "k \<in> set UNION_BOOL"
    and on: "truthy (spec_value s (c_base c) k)"
  shows "env' k = Some ''1''"
proof -
  have "map_of UNION_PARTS k = None" using k by (auto simp: UNION_BOOL_def UNION_PARTS_def)
  moreover have "env' = gate_at (c_specs c) (c_base c) UNION_PARTS (union_bools (c_specs c) (c_base c)
      (if env ''DSV41_AB_BASE'' = None then env(''DSV41_AB_BASE'' \<mapsto> dumps (c_base c)) else env))"
    using armed union_parts_at [OF union_parts_distinct] by (simp add: arm_def Let_def)
  ultimately show ?thesis using s k on by (auto simp: gate_at_def union_bools_at)
qed

lemma armed_parts:
  assumes armed: "arm dumps c env = Inr env'" and s: "s \<in> set (c_specs c)" and ka: "(k, ap) \<in> set UNION_PARTS"
    and on: "parse_parts (spec_value s (c_base c) k) ap = Inr ps" "ps \<noteq> []"
  shows "\<exists>U. parse_parts (env' k) ap = Inr U \<and> set ps \<subseteq> set U"
proof -
  have at: "map_of UNION_PARTS k = Some ap" using ka union_parts_distinct by simp
  define e where "e = union_bools (c_specs c) (c_base c)
      (if env ''DSV41_AB_BASE'' = None then env(''DSV41_AB_BASE'' \<mapsto> dumps (c_base c)) else env)"
  have gates: "\<forall>ka\<in>set UNION_PARTS. \<exists>g. part_gate (c_specs c) (c_base c) ka = Inr g"
    and env'': "env' = gate_at (c_specs c) (c_base c) UNION_PARTS e"
    using armed union_parts_at [OF union_parts_distinct] by (simp_all add: arm_def Let_def e_def)
  from gates ka obtain g where g: "part_gate (c_specs c) (c_base c) (k, ap) = Inr g" by blast
  then have env': "\<And>v. g = Some v \<Longrightarrow> env' k = Some v" by (simp add: env'' gate_at_def at)
  from g obtain pss where pss: "map_res (\<lambda>s. parse_parts (spec_value s (c_base c) k) ap) (c_specs c) = Inr pss"
    and gv: "g = (let U = filter (\<lambda>p. p \<in> set (concat pss)) ap in if U = [] then None else Some (if U = ap then ''1'' else join_comma U))"
    by (auto simp: part_gate_def bind_res_Inr_iff Let_def)
  let ?U = "filter (\<lambda>p. p \<in> set (concat pss)) ap"
  have sub: "set ps \<subseteq> set ?U"
    using map_res_Inr [OF pss s] on(1) parse_parts_subset [OF on(1)] by auto
  then have ne: "?U \<noteq> []" using on(2) by (metis list.set(1) set_empty subset_empty)
  have "?U \<in> set (subseqs ap)" by (simp add: in_set_subseqs)
  then have "parse_parts (Some (if ?U = ap then ''1'' else join_comma ?U)) ap = Inr ?U"
    using parts_round_trip ka ne by (fastforce simp: list_all_iff)
  moreover have "env' k = Some (if ?U = ap then ''1'' else join_comma ?U)" using env' gv ne by (simp add: Let_def)
  ultimately show ?thesis using sub by auto
qed

section \<open>Results\<close>

text \<open>The concrete run of the witnesses: two variants of one switch, a bound of 4 on the shapes, two ranks.\<close>

definition ab_num :: "string \<Rightarrow> int option" where
  "ab_num s = (if s = ''0.5'' then Some 1 else py_int s)"

definition ab_dumps :: "(string \<rightharpoonup> string) \<Rightarrow> string" where
  "ab_dumps base = concat (map (\<lambda>k. case base k of None \<Rightarrow> [] | Some v \<Rightarrow> k @ ''='' @ v @ '';'') KNOWN)"

definition ab_hash :: "nat \<Rightarrow> (string \<rightharpoonup> string) list \<Rightarrow> (string \<rightharpoonup> string) \<Rightarrow> int option \<Rightarrow> bool \<Rightarrow> string" where
  "ab_hash n specs base max_bs reverse = show_nat n"

definition ab_vars :: "(string \<times> string) list" where
  "ab_vars = [(''DSV41_AB_VARIANTS'', '' 2''), (''DSV41_AB_MAX_BS'', ''4''), (''DSV41_L2_PREFETCH_MB'', ''8''),
     (''DSV41_AB_V0'', ''DSV41_L2_PREFETCH=1 DSV41_FUSE_QUANT=qnorm''), (''DSV41_AB_V1'', ''DSV41_FUSE_QUANT=hcpad;DSV41_L2_PREFETCH=off'')]"

text \<open>What the first process arms with, and the variables its children see.\<close>

definition ab_first :: "(ab_config option \<times> environ) res" where
  "ab_first = configure ab_num (\<lambda>_. 6) parse_spec ab_dumps ab_hash (map fst ab_vars) (map_of ab_vars)"

definition ab_names :: "string list" where
  "ab_names = map fst ab_vars @ [''DSV41_AB_BASE'', ''DSV41_L2_PREFETCH'', ''DSV41_FUSE_QUANT'']"

lemma ab_first_armed:
  "case ab_first of Inr (Some c, env') \<Rightarrow> c_n c = 2 \<and> env' ''DSV41_FUSE_QUANT'' = Some ''qnorm,hcpad'' \<and> env' ''DSV41_L2_PREFETCH'' = Some ''1''
     \<and> ab_dumps (c_base c) = ''DSV41_L2_PREFETCH_MB=8;'' | _ \<Rightarrow> False"
  by code_simp

lemma ab_base_text: "parse_spec ''DSV41_L2_PREFETCH_MB=8;'' = Inr (Map.empty(''DSV41_L2_PREFETCH_MB'' \<mapsto> ''8''))"
  by (simp add: parse_spec_def py_strip_def py_isspace_def parse_item_def startswith_def KNOWN_def RUNTIME_def UNION_BOOL_def UNION_PARTS_def)

lemma fresh_base:
  assumes "read_config flt dflt loads hash names env = Inr (Some c)" and "env ''DSV41_AB_BASE'' = None"
  shows "c_base c = base_values env"
proof -
  obtain n where "read_variants flt dflt loads hash n env = Inr c" by (rule read_config_parts [OF assms(1)])
  from read_variants_parts(1) [OF this] assms(2) show ?thesis by (auto simp: read_specs_def bind_res_Inr_iff)
qed

lemma ab_base_values: "base_values (map_of ab_vars) = Map.empty(''DSV41_L2_PREFETCH_MB'' \<mapsto> ''8'')"
  by (auto simp: base_values_def fun_eq_iff ab_vars_def KNOWN_def RUNTIME_def UNION_BOOL_def UNION_PARTS_def)

lemma ab_first_round_trip:
  assumes "ab_first = Inr (Some c, env')"
  shows "parse_spec (ab_dumps (c_base c)) = Inr (c_base c)"
proof -
  have "map_of ab_vars ''DSV41_AB_BASE'' = None" by (simp add: ab_vars_def)
  with configured assms have "c_base c = base_values (map_of ab_vars)"
    unfolding ab_first_def by (blast intro: fresh_base)
  moreover have "ab_dumps (c_base c) = ''DSV41_L2_PREFETCH_MB=8;''" using ab_first_armed unfolding assms sum.case option.case prod.case by blast
  ultimately show ?thesis by (simp only: ab_base_values ab_base_text)
qed

text \<open>A rank that captured a shape below the bound and one above it, and then switched.\<close>

definition ab_cap :: "int \<Rightarrow> nat \<Rightarrow> int res" where
  "ab_cap k v = Inr (10 * k + int v)"

definition ab_two :: ab_config where
  "ab_two = \<lparr>c_n = 2, c_specs = [Map.empty, Map.empty(''DSV41_CERT_HEAD'' \<mapsto> ''1'')], c_base = Map.empty, c_max_bs = Some 4, c_hash = ''2'',
     c_file = ''/state/ab_variant'', c_reverse = True\<rparr>"

definition ab_boot :: ab_state where
  "ab_boot = \<lparr>a_config = Some ab_two, a_capture = None, a_runtime = 0, a_seq = 0, a_token = None, a_leader = False\<rparr>"

definition ab_captured :: "(int, int) backend" where
  "ab_captured = fst (capture_one ab_cap [7, 7] 7 True Some ab_boot 8 (fst (capture_one ab_cap [7, 7] 7 True Some ab_boot 2 new_backend)))"

lemma ab_captured_reach:
  "ab_reach ab_cap [7, 7] 7 True Some ab_two (ab_boot\<lparr>a_runtime := 1\<rparr>) ab_captured [8, 2]"
proof -
  have boot: "ab_reach ab_cap [7, 7] 7 True Some ab_two ab_boot new_backend []"
    by (rule ab_reach.start) (simp_all add: ab_boot_def)
  let ?one = "capture_one ab_cap [7, 7] 7 True Some ab_boot 2 new_backend"
  let ?two = "capture_one ab_cap [7, 7] 7 True Some ab_boot 8 (fst ?one)"
  have ok: "snd ?one = Inr ()" "snd ?two = Inr ()" by code_simp+
  have one: "ab_reach ab_cap [7, 7] 7 True Some ab_two ab_boot (fst ?one) (if snd ?one = Inr () then [2] else [])"
    by (rule ab_reach.captured [OF boot]) simp
  have "ab_reach ab_cap [7, 7] 7 True Some ab_two ab_boot (fst ?two) (if snd ?two = Inr () then [8, 2] else [2])"
    by (rule ab_reach.captured [OF one [unfolded ok(1) simp_thms if_True]]) simp
  then have "ab_reach ab_cap [7, 7] 7 True Some ab_two ab_boot ab_captured [8, 2]"
    unfolding ok(2) simp_thms if_True ab_captured_def .
  then show ?thesis by (rule ab_reach.switched) (simp add: ab_two_def)
qed

text \<open>Two ranks that have just booted, and a flag file written after that.\<close>

definition ab_poll :: poll where
  "ab_poll = \<lparr>p_checked = - 1, p_key = None, p_file = None, p_announced = None, p_bad = None\<rparr>"

lemma ab_booted: "round_reach ab_two 5 100 [ab_boot, ab_boot] ab_poll"
  by (rule round_reach.booted) (simp_all add: ab_boot_def ab_poll_def)

text \<open>C21: In any run of captures, replays, switches and clean-ups, a replay leaves the backend on the first graph map, also when it
  raises, and runs a graph that was captured under the variant in force, or under the first variant when the shape has a single graph: a shape whose capture
  returned runs exactly the graph recorded for its variant.\<close>

theorem replay_runs_own_variant:
  assumes "ab_reach cap hashes own hook sz c a b ks" and "1 \<le> c_n c"
  shows "fst (replay a k b) = b \<and> g_cur b = 0 \<and> a_capture a = None
    \<and> (k \<in> set ks \<longrightarrow> snd (replay a k b) = cap k (graph_variant c (sz k) (a_runtime a)))
    \<and> (\<forall>g. snd (replay a k b) = Inr g \<longrightarrow> cap k (a_runtime a) = Inr g \<or> cap k 0 = Inr g)"
proof -
  from ab_reach_ok [OF assms] have ok: "backend_ok cap sz c b ks" "g_cur b = 0" "a_runtime a < c_n c" "a_capture a = None" by simp_all
  show ?thesis
    by (intro conjI impI allI replay_frame replay_captured [OF ok(1-3)] replay_own_graph [OF ok(1-3)] ok)
qed

theorem replay_runs_own_variant_witness:
  "replay (ab_boot\<lparr>a_runtime := 1\<rparr>) 2 ab_captured = (ab_captured, Inr 21) \<and> replay (ab_boot\<lparr>a_runtime := 1\<rparr>) 8 ab_captured = (ab_captured, Inr 80)"
  using replay_runs_own_variant [OF ab_captured_reach, of 2] replay_runs_own_variant [OF ab_captured_reach, of 8]
  by (simp add: prod_eq_iff ab_two_def graph_variant_def variants_for_def ab_boot_def ab_cap_def)

text \<open>C22: The ranks switch in step. However often and whenever the flag file changes, after any rounds all ranks run the same variant, one of those
  configured and the one announced last, with the same token and count of switches. A further round never fails, hands every rank exactly the requests that were
  pulled, and leaves every rank on the variant of the file's last good contents.\<close>

theorem rounds_keep_ranks_together:
  assumes "round_reach c poll_ns start_ns states p" and "1 \<le> c_n c"
  shows "\<exists>v token s states' p'. v < c_n c \<and> (\<forall>a\<in>set states. a_runtime a = v \<and> a_token a = token \<and> a_seq a = s)
    \<and> switch_round (read_file c poll_ns start_ns now status ws) unsupported states p reqs = Inr (states', p', map (\<lambda>_. map Req reqs) states)
    \<and> length states' = length states
    \<and> (\<forall>w t. p_file p' = Some (w, t) \<and> \<not> unsupported \<longrightarrow> (\<forall>a\<in>set states'. int (a_runtime a) = w \<and> a_token a = t))"
proof -
  have t: "ranks_together c states p" by (rule round_reach_together [OF assms(1)])
  then obtain v token s where same: "v < c_n c" "\<forall>a\<in>set states. a_runtime a = v \<and> a_token a = token \<and> a_seq a = s"
    using ranks_together_same [OF t assms(2)] by blast
  let ?look = "read_file c poll_ns start_ns now status ws"
  obtain states' p' where "switch_round ?look unsupported states p reqs = Inr (states', p', map (\<lambda>_. map Req reqs) states)"
    "ranks_together c states' p'" "length states' = length states" "unsupported \<or> p_file p' = None \<or> p_announced p' = p_file p'"
    using switch_round_together [OF t, of ?look unsupported reqs] read_file_range read_file_announced by blast
  with same ranks_together_announced [of c states' p'] show ?thesis by fastforce
qed

theorem rounds_keep_ranks_together_witness:
  "\<exists>states' p'. switch_round (read_file ab_two 5 100 9 (Some (200, 3, 4)) (Some [''1'', ''go''])) False [ab_boot, ab_boot] ab_poll [3 :: nat] =
      Inr (states', p', [[Req 3], [Req 3]]) \<and> map a_runtime states' = [1, 1]"
proof -
  have "\<exists>states' p'. switch_round (read_file ab_two 5 100 9 (Some (200, 3, 4)) (Some [''1'', ''go''])) False [ab_boot, ab_boot] ab_poll [3 :: nat] =
      Inr (states', p', [[Req 3], [Req 3]])"
    using rounds_keep_ranks_together [OF ab_booted, of 9 "Some (200, 3, 4)" "Some [''1'', ''go'']" False "[3 :: nat]"]
    by (auto simp: ab_two_def)
  moreover have "case switch_round (read_file ab_two 5 100 9 (Some (200, 3, 4)) (Some [''1'', ''go''])) False [ab_boot, ab_boot] ab_poll [3 :: nat] of
      Inr (states', _) \<Rightarrow> map a_runtime states' = [1, 1] | _ \<Rightarrow> False" by code_simp
  ultimately show ?thesis by force
qed

text \<open>C23: A process that inherits the variables of an armed one arms with the same configuration and changes nothing, so the values from before the gates were
  switched on survive any depth of children. Every gate that is read once is on when some variant enables it, and a comma list holds every part some variant has.\<close>

theorem configured_child_agrees:
  assumes "configure flt dflt loads dumps hash names env = Inr (Some c, env')"
    and "loads (dumps (c_base c)) = Inr (c_base c)" and "set names' \<subseteq> set names \<union> set KNOWN \<union> {''DSV41_AB_BASE''}"
  shows "configure flt dflt loads dumps hash names' env' = Inr (Some c, env')
    \<and> (\<forall>s\<in>set (c_specs c). \<forall>k\<in>set UNION_BOOL. truthy (spec_value s (c_base c) k) \<longrightarrow> env' k = Some ''1'')
    \<and> (\<forall>s\<in>set (c_specs c). \<forall>(k, ap)\<in>set UNION_PARTS. \<forall>ps. parse_parts (spec_value s (c_base c) k) ap = Inr ps \<and> ps \<noteq> []
        \<longrightarrow> (\<exists>U. parse_parts (env' k) ap = Inr U \<and> set ps \<subseteq> set U))"
proof -
  from configured [OF assms(1)] have armed: "arm dumps c env = Inr env'" by simp
  show ?thesis
    using configured_child [OF assms] armed_switches [OF armed] armed_parts [OF armed] by blast
qed

theorem configured_child_agrees_witness:
  "\<exists>c env'. ab_first = Inr (Some c, env') \<and> configure ab_num (\<lambda>_. 6) parse_spec ab_dumps ab_hash ab_names env' = Inr (Some c, env')
    \<and> env' ''DSV41_FUSE_QUANT'' = Some ''qnorm,hcpad''"
proof -
  obtain c env' where first: "ab_first = Inr (Some c, env')" and parts: "env' ''DSV41_FUSE_QUANT'' = Some ''qnorm,hcpad''"
    using ab_first_armed by (auto split: sum.splits option.splits)
  have "set ab_names \<subseteq> set (map fst ab_vars) \<union> set KNOWN \<union> {''DSV41_AB_BASE''}"
    by (auto simp: ab_names_def KNOWN_def UNION_BOOL_def UNION_PARTS_def)
  with configured_child_agrees [OF first [unfolded ab_first_def] ab_first_round_trip [OF first]] first parts show ?thesis by blast
qed

end
