(* ===== verification/Boot.thy ===== *)
theory Boot
  imports Py_Prelude
begin

text \<open>
  The entry point of a node (\<open>boot.py\<close>, with \<open>adapter/mxfp8_mode.py\<close>): settings, the checkpoint's integrity check with its
  receipt, the argument list of the engine, and the API key.

  The file system is an argument: \<open>stat\<close> gives a file's size, modification time and inode before and after the read,
  \<open>read\<close> its bytes, \<open>inside\<close> whether its resolved path lies under the model directory. The two digests are functions from bytes to
  hexadecimal text; feeding a file in blocks is feeding it whole. Downloads, HTTP probes, the smoke and warm-up requests
  and the process management are left out.
\<close>

section \<open>Settings\<close>

definition show_int :: "int \<Rightarrow> string" where
  "show_int i = (if i < 0 then CHR ''-'' # show_nat (nat (- i)) else show_nat (nat i))"

definition int_of :: "string \<Rightarrow> int res" where
  "int_of s = (case py_int s of Some i \<Rightarrow> Inr i | None \<Rightarrow> Inl ValueError)"

definition primary_model_name :: "string \<Rightarrow> string" where
  "primary_model_name served =
     (case filter (\<lambda>n. n \<noteq> []) (map py_strip (split_char (CHR '','') served)) of n # _ \<Rightarrow> n | [] \<Rightarrow> ''deepseek-v4.1-flash'')"

record boot_cfg =
  b_model :: string
  b_state :: string
  b_port :: int
  b_nnodes :: int
  b_node_rank :: int
  b_tp :: int
  b_ep :: int
  b_dist :: string
  b_served :: string

definition load_boot :: "environ \<Rightarrow> boot_cfg res" where
  "load_boot env =
     bind_res (int_of (env_get env ''SERVER_PORT'' ''8888'')) (\<lambda>port.
     bind_res (int_of (env_get env ''NNODES'' ''1'')) (\<lambda>nnodes.
     bind_res (int_of (env_get env ''NODE_RANK'' ''0'')) (\<lambda>rank.
     bind_res (int_of (env_get env ''TP_SIZE'' (env_get env ''TP'' ''3''))) (\<lambda>tp.
     bind_res (int_of (env_get env ''EP_SIZE'' (show_int tp))) (\<lambda>ep.
     Inr \<lparr>b_model = env_get env ''MODEL_PATH'' ''/models/DeepSeek-V4.1-Flash'', b_state = env_get env ''STATE_PATH'' ''/state'',
          b_port = port, b_nnodes = nnodes, b_node_rank = rank, b_tp = tp, b_ep = ep,
          b_dist = env_get env ''DIST_INIT_ADDR'' [], b_served = env_get env ''SERVED_MODEL_NAME'' ''deepseek-v4.1-flash''\<rparr>)))))"

definition api_key :: "environ \<Rightarrow> string" where
  "api_key env =
     (let v = py_strip (env_get env ''API_KEY'' [])
      in if py_lower v \<in> {[], ''none'', ''off'', ''dummy'', ''0''} then [] else v)"

section \<open>Integrity of the checkpoint\<close>

text \<open>Size, modification time, inode.\<close>

type_synonym identity = "nat \<times> nat \<times> nat"

text \<open>A file of the repository's metadata; a large file has a SHA-256, every file a git blob id.\<close>

record sibling =
  f_name :: string
  f_size :: nat
  f_lfs :: "string option"
  f_blob :: string

record receipt_file =
  r_name :: string
  r_digest :: string
  r_identity :: identity

record receipt =
  r_revision :: string
  r_files :: "receipt_file list"

definition expected_digest :: "sibling \<Rightarrow> string" where
  "expected_digest e = (case f_lfs e of Some h \<Rightarrow> h | None \<Rightarrow> f_blob e)"

definition blob_header :: "nat \<Rightarrow> string" where
  "blob_header n = ''blob '' @ show_nat n @ [CHR 0x00]"

definition file_digest :: "(string \<Rightarrow> string) \<Rightarrow> (string \<Rightarrow> string) \<Rightarrow> sibling \<Rightarrow> nat \<Rightarrow> string \<Rightarrow> string" where
  "file_digest sha256 sha1 e n content = (case f_lfs e of Some _ \<Rightarrow> sha256 content | None \<Rightarrow> sha1 (blob_header n @ content))"

record files =
  s_inside :: "string \<Rightarrow> bool"
  s_before :: "string \<rightharpoonup> identity"
  s_read :: "string \<rightharpoonup> string"
  s_after :: "string \<rightharpoonup> identity"

definition cached_files :: "string \<Rightarrow> receipt option \<Rightarrow> string \<rightharpoonup> receipt_file" where
  "cached_files revision old =
     (case old of
        Some r \<Rightarrow> if r_revision r = revision then map_of (rev (map (\<lambda>f. (r_name f, f)) (r_files r))) else Map.empty
      | None \<Rightarrow> Map.empty)"

definition verify_file :: "(string \<Rightarrow> string) \<Rightarrow> (string \<Rightarrow> string) \<Rightarrow> files \<Rightarrow> (string \<rightharpoonup> receipt_file) \<Rightarrow> sibling \<Rightarrow> receipt_file res" where
  "verify_file sha256 sha1 fs cached e =
     (let name = f_name e in
      if \<not> s_inside fs name then Inl AssertionError
      else case s_before fs name of
        None \<Rightarrow> Inl IOError
      | Some before \<Rightarrow>
          if fst before \<noteq> f_size e then Inl AssertionError
          else let hit = (case cached name of
                   Some p \<Rightarrow> if r_digest p = expected_digest e \<and> r_identity p = before then Some p else None
                 | None \<Rightarrow> None)
               in case hit of
                    Some p \<Rightarrow> Inr p
                  | None \<Rightarrow>
                      (case s_read fs name of
                         None \<Rightarrow> Inl IOError
                       | Some content \<Rightarrow>
                           if file_digest sha256 sha1 e (fst before) content \<noteq> expected_digest e then Inl AssertionError
                           else (case s_after fs name of
                                   None \<Rightarrow> Inl IOError
                                 | Some after \<Rightarrow>
                                     if before \<noteq> after then Inl AssertionError
                                     else Inr \<lparr>r_name = name, r_digest = expected_digest e, r_identity = before\<rparr>)))"

fun verify_all :: "(sibling \<Rightarrow> receipt_file res) \<Rightarrow> sibling list \<Rightarrow> receipt_file list res" where
  "verify_all v [] = Inr []"
| "verify_all v (e # es) = bind_res (v e) (\<lambda>f. bind_res (verify_all v es) (\<lambda>fs. Inr (f # fs)))"

text \<open>\<open>meta\<close>: revision and siblings the hub reports; \<open>shards\<close>: the files the weight map names (\<open>None\<close>: unreadable). The download
  itself is not modelled; \<open>visible\<close> says whether the configuration file appears in time on the other nodes. The result is the new receipt if one is saved.\<close>

definition prepare ::
  "environ \<Rightarrow> string \<Rightarrow> int \<Rightarrow> bool \<Rightarrow> string \<times> sibling list \<Rightarrow> (string \<Rightarrow> string) \<Rightarrow> (string \<Rightarrow> string) \<Rightarrow> files \<Rightarrow> string list option \<Rightarrow> receipt option \<Rightarrow> receipt option res" where
  "prepare env revision node_rank visible meta sha256 sha1 fs shards old =
     (if env_get env ''SKIP_PREPARE'' ''0'' = ''1'' then (if visible then Inr old else Inl AssertionError)
      else if node_rank \<noteq> 0 then (if visible then Inr old else Inl RuntimeError)
      else if fst meta \<noteq> revision then Inl AssertionError
      else if env_get env ''SKIP_VERIFY'' ''0'' = ''1'' then Inr old
      else bind_res (verify_all (verify_file sha256 sha1 fs (cached_files revision old)) (snd meta)) (\<lambda>files.
        case shards of
          None \<Rightarrow> Inl IOError
        | Some names \<Rightarrow>
            if set names \<subseteq> set (map r_name files) then Inr (Some \<lparr>r_revision = revision, r_files = files\<rparr>) else Inl AssertionError))"

section \<open>The engine's arguments\<close>

definition mxfp8_backend_disabled :: "string \<Rightarrow> bool" where
  "mxfp8_backend_disabled v = (py_lower (py_strip v) \<in> {[], ''cutlass'', ''off'', ''0''})"

definition gemm_flag :: string where "gemm_flag = ''--fp8-gemm-backend''"

text \<open>The loop of \<open>required_sglang_args\<close> over the position \<open>i\<close>: the arguments kept and the values found.\<close>

function strip_flag :: "string list \<Rightarrow> nat \<Rightarrow> string list \<Rightarrow> string list \<Rightarrow> string list \<times> string list" where
  "strip_flag args i result vals =
     (if i < length args then
        (let arg = args ! i in
         if arg = gemm_flag then
           (let val = (if i + 1 < length args \<and> \<not> startswith (args ! (i + 1)) ''--'' then args ! (i + 1) else [])
            in strip_flag args (i + (if val \<noteq> [] then 2 else 1)) result (vals @ [val]))
         else if startswith arg (gemm_flag @ ''='') then
           strip_flag args (i + 1) result (vals @ [drop (length gemm_flag + 1) arg])
         else strip_flag args (i + 1) (result @ [arg]) vals)
      else (result, vals))"
  by pat_completeness auto
termination
  by (relation "measure (\<lambda>(args, i, result, vals). length args - i)") auto

declare strip_flag.simps [simp del]

definition required_sglang_args :: "string list \<Rightarrow> string \<Rightarrow> string list" where
  "required_sglang_args args backend =
     (if mxfp8_backend_disabled backend then args
      else fst (strip_flag args 0 [] []) @ [gemm_flag, ''flashinfer_cutlass''])"

definition sps_table_args :: "environ \<Rightarrow> bool \<Rightarrow> string \<Rightarrow> string list" where
  "sps_table_args env is_file table =
     (if table = [] \<or> \<not> is_file \<or> env_get env ''DSPARK_SPS_ALLOW_ENGRAM'' ''0'' \<noteq> ''1'' then []
      else [''--speculative-dspark-sps-table-path'', table]
        @ (if env_get env ''DSV41_ALIGN_VERIFY'' ''0'' = ''1'' then [''--speculative-dspark-align-verify-tokens-to-graph-tier''] else []))"

text \<open>\<open>s.split()\<close>: maximal runs of characters that are not white space.\<close>

fun split_ws :: "string \<Rightarrow> string list" where
  "split_ws [] = []"
| "split_ws (c # s) =
     (if py_isspace c then split_ws s
      else case s of
        [] \<Rightarrow> [[c]]
      | d # _ \<Rightarrow> if py_isspace d then [c] # split_ws s else (case split_ws s of w # ws \<Rightarrow> (c # w) # ws | [] \<Rightarrow> [[c]]))"

text \<open>What \<open>serve\<close> reads of the machine: GPUs, and for RAM offload the sizes of the table shards and the memory available.\<close>

record machine =
  m_gpus :: "string list"
  m_shard_sizes :: "nat list"
  m_available :: nat
  m_is_file :: "string \<Rightarrow> bool"

definition check_offload :: "environ \<Rightarrow> machine \<Rightarrow> int res" where
  "check_offload env m =
     (let mode = env_get env ''OFFLOAD_MODE'' ''nvme'' in
      if mode \<noteq> ''nvme'' \<and> mode \<noteq> ''ram'' then Inl AssertionError
      else bind_res (int_of (env_get env ''CONTEXT_LENGTH'' ''409600'')) (\<lambda>context.
        if \<not> (4096 \<le> context \<and> context \<le> 1048576) \<or> m_gpus m = [] then Inl AssertionError
        else if mode = ''ram'' \<and> env_get env ''ALLOW_RAM_OFFLOAD'' ''0'' \<noteq> ''1'' then Inl RuntimeError
        else if mode = ''ram'' \<and> m_available m < sum_list (m_shard_sizes m) + 24 * 2 ^ 30 then Inl AssertionError
        else Inr context))"

definition base_args :: "environ \<Rightarrow> boot_cfg \<Rightarrow> int \<Rightarrow> string list" where
  "base_args env b context =
     (let max_req = env_get env ''MAX_RUNNING_REQUESTS'' ''4'' in
      [''--model-path'', b_model b, ''--served-model-name'', b_served b, ''--trust-remote-code'', ''--load-format'', ''safetensors'',
       ''--tp'', show_int (b_tp b), ''--ep-size'', show_int (b_ep b),
       ''--attention-backend'', env_get env ''ATTENTION_BACKEND'' ''dsv4'',
       ''--moe-runner-backend'', env_get env ''MOE_RUNNER_BACKEND'' ''flashinfer_mxfp4'',
       ''--mem-fraction-static'', env_get env ''MEM_FRACTION_STATIC'' ''0.95'',
       ''--chunked-prefill-size'', env_get env ''CHUNKED_PREFILL_SIZE'' ''2048'',
       ''--context-length'', show_int context, ''--max-running-requests'', max_req,
       ''--cuda-graph-max-bs-decode'', env_get env ''CUDA_GRAPH_MAX_BS_DECODE'' max_req,
       ''--random-seed'', ''0'', ''--enable-decoder-swa-bounded-replay'', ''--enable-cache-report'',
       ''--tool-call-parser'', env_get env ''TOOL_CALL_PARSER'' ''deepseekv41'',
       ''--reasoning-parser'', env_get env ''REASONING_PARSER'' ''deepseek-v41'',
       ''--host'', env_get env ''HOST'' ''0.0.0.0'', ''--port'', show_int (b_port b)])"

definition spec_args :: "environ \<Rightarrow> machine \<Rightarrow> string list" where
  "spec_args env m =
     (let spec = env_get env ''SPEC_ALGO'' ''DSPARK'';
          sps = py_strip (env_get env ''DSPARK_SPS_TABLE'' []);
          sts = py_strip (env_get env ''DSPARK_STS_TABLE'' [])
      in if spec = [] \<or> py_lower spec \<in> {''off'', ''none'', ''0''} then []
         else [''--speculative-algorithm'', spec, ''--speculative-dspark-block-size'', env_get env ''DSPARK_BLOCK_SIZE'' ''5'']
           @ sps_table_args env (m_is_file m sps) sps
           @ (if sts \<noteq> [] \<and> m_is_file m sts then [''--speculative-dspark-confidence-sts-path'', sts] else []))"

text \<open>The arguments, the command with the key, and the value \<open>serve\<close> sets for the ragged-verify mode, if it sets one.\<close>

definition serve_args :: "environ \<Rightarrow> boot_cfg \<Rightarrow> machine \<Rightarrow> string list res" where
  "serve_args env b m =
     bind_res (check_offload env m) (\<lambda>context.
       let args = base_args env b context @ spec_args env m in
       if 1 < b_nnodes b \<and> b_dist b = [] then Inl AssertionError
       else let nodes = (if 1 < b_nnodes b then [''--nnodes'', show_int (b_nnodes b), ''--node-rank'', show_int (b_node_rank b), ''--dist-init-addr'', b_dist b] else []);
                total = py_strip (env_get env ''MAX_TOTAL_TOKENS'' []);
                tokens = (if total \<noteq> [] \<and> total \<noteq> ''0'' then [''--max-total-tokens'', total] else []);
                extra = split_ws (py_strip (env_get env ''EXTRA_SGLANG_ARGS'' []))
            in Inr (required_sglang_args (args @ nodes @ tokens @ extra) (env_get env ''DSV41_MXFP8_BACKEND'' ''b12x'')))"

definition serve_command :: "environ \<Rightarrow> string list \<Rightarrow> string list" where
  "serve_command env args = args @ (if api_key env \<noteq> [] then [''--api-key'', api_key env] else [])"

definition serve_env :: "environ \<Rightarrow> boot_cfg \<Rightarrow> string list \<Rightarrow> environ" where
  "serve_env env b args =
     (let env' = env(''DSV41_SOURCE'' \<mapsto> b_model b)
      in if ''--speculative-dspark-sps-table-path'' \<in> set args \<and> env' ''SGLANG_RAGGED_VERIFY_MODE'' = None
         then env'(''SGLANG_RAGGED_VERIFY_MODE'' \<mapsto> ''compact'') else env')"

section \<open>The flag loop\<close>

definition is_flag :: "string \<Rightarrow> bool" where
  "is_flag a = (a = gemm_flag \<or> startswith a (gemm_flag @ ''=''))"

text \<open>The arguments without the flag and its values, by recursion on the list.\<close>

fun drop_flag :: "string list \<Rightarrow> string list" where
  "drop_flag [] = []"
| "drop_flag (a # as) =
     (if a = gemm_flag then
        (case as of v # vs \<Rightarrow> if startswith v ''--'' \<or> v = [] then drop_flag as else drop_flag vs | [] \<Rightarrow> [])
      else if is_flag a then drop_flag as
      else a # drop_flag as)"

lemma strip_flag_eq: "fst (strip_flag args i result vals) = result @ drop_flag (drop i args)"
proof (induction args i result vals rule: strip_flag.induct)
  case (1 args i result vals)
  show ?case
  proof (cases "i < length args")
    case True
    then have d: "drop i args = args ! i # drop (Suc i) args" by (simp add: Cons_nth_drop_Suc)
    show ?thesis
    proof (cases "args ! i = gemm_flag")
      case flag: True
      define val where "val = (if i + 1 < length args \<and> \<not> startswith (args ! (i + 1)) ''--'' then args ! (i + 1) else [])"
      have "drop_flag (drop i args) = drop_flag (drop (i + (if val \<noteq> [] then 2 else 1)) args)"
      proof (cases "i + 1 < length args")
        case True
        then have "drop (Suc i) args = args ! (i + 1) # drop (i + 2) args" by (simp add: Cons_nth_drop_Suc)
        then show ?thesis using d flag True by (auto simp: val_def)
      qed (use d flag in \<open>auto simp: val_def\<close>)
      moreover have "fst (strip_flag args i result vals) = fst (strip_flag args (i + (if val \<noteq> [] then 2 else 1)) result (vals @ [val]))"
        using True flag by (subst strip_flag.simps) (simp add: val_def Let_def)
      ultimately show ?thesis using "1.IH"(1) [OF True refl flag refl] by (simp add: val_def)
    next
      case nf: False
      then show ?thesis using True d "1.IH"(2,3) [OF True refl nf]
        by (subst strip_flag.simps) (auto simp: is_flag_def Let_def)
    qed
  next
    case False
    then show ?thesis by (subst strip_flag.simps) simp
  qed
qed

lemma drop_flag_clean: "list_all (\<lambda>a. \<not> is_flag a) (drop_flag args)"
  by (induction args rule: drop_flag.induct) (auto simp: is_flag_def split: list.splits)

lemma drop_flag_id: "list_all (\<lambda>a. \<not> is_flag a) args \<Longrightarrow> drop_flag (args @ [gemm_flag, ''flashinfer_cutlass'']) = args"
  by (induction args) (auto simp: is_flag_def startswith_def)

section \<open>Receipts over boots\<close>

text \<open>The bytes of a file are a function of its identity: whenever the identity is the same before and after a read, the read
  returned the bytes of that identity.\<close>

definition stable :: "(string \<Rightarrow> identity \<Rightarrow> string) \<Rightarrow> files \<Rightarrow> bool" where
  "stable C fs \<longleftrightarrow> (\<forall>name i c. s_before fs name = Some i \<longrightarrow> s_after fs name = Some i \<longrightarrow> s_read fs name = Some c \<longrightarrow> c = C name i)"

inductive boots :: "string \<Rightarrow> sibling list \<Rightarrow> (string \<Rightarrow> string) \<Rightarrow> (string \<Rightarrow> string) \<Rightarrow> (string \<Rightarrow> identity \<Rightarrow> string) \<Rightarrow> receipt option \<Rightarrow> bool"
  for revision siblings sha256 sha1 C where
  boots_first: "boots revision siblings sha256 sha1 C None"
| boots_next: "boots revision siblings sha256 sha1 C old \<Longrightarrow> stable C fs \<Longrightarrow>
    prepare env revision node_rank visible (revision, siblings) sha256 sha1 fs shards old = Inr new \<Longrightarrow> boots revision siblings sha256 sha1 C new"

text \<open>An entry that was checked: its file had the listed size, and the bytes of that identity have the listed digest.\<close>

definition entry_ok :: "(string \<Rightarrow> string) \<Rightarrow> (string \<Rightarrow> string) \<Rightarrow> (string \<Rightarrow> identity \<Rightarrow> string) \<Rightarrow> sibling \<Rightarrow> receipt_file \<Rightarrow> bool" where
  "entry_ok sha256 sha1 C e f =
     (r_name f = f_name e \<and> r_digest f = expected_digest e \<and> fst (r_identity f) = f_size e
      \<and> file_digest sha256 sha1 e (f_size e) (C (f_name e) (r_identity f)) = expected_digest e)"

definition honest :: "sibling list \<Rightarrow> (string \<Rightarrow> string) \<Rightarrow> (string \<Rightarrow> string) \<Rightarrow> (string \<Rightarrow> identity \<Rightarrow> string) \<Rightarrow> receipt option \<Rightarrow> bool" where
  "honest siblings sha256 sha1 C old = (case old of None \<Rightarrow> True | Some r \<Rightarrow> list_all (\<lambda>f. \<exists>e\<in>set siblings. entry_ok sha256 sha1 C e f) (r_files r))"

lemma cached_honest:
  assumes "honest siblings sha256 sha1 C old" and "cached_files revision old name = Some p"
  shows "r_name p = name \<and> (\<exists>e\<in>set siblings. entry_ok sha256 sha1 C e p)"
proof -
  obtain r where r: "old = Some r" "map_of (rev (map (\<lambda>f. (r_name f, f)) (r_files r))) name = Some p"
    using assms(2) by (auto simp: cached_files_def split: option.splits if_splits)
  then have "(name, p) \<in> set (map (\<lambda>f. (r_name f, f)) (r_files r))" by (metis map_of_SomeD set_rev)
  then show ?thesis using assms(1) r(1) by (auto simp: honest_def list_all_iff)
qed

lemma verify_file_ok:
  assumes v: "verify_file sha256 sha1 fs (cached_files revision old) e = Inr f" and h: "honest siblings sha256 sha1 C old"
    and s: "stable C fs" and d: "distinct (map f_name siblings)" and e: "e \<in> set siblings"
  shows "entry_ok sha256 sha1 C e f \<and> s_before fs (f_name e) = Some (r_identity f) \<and> s_inside fs (f_name e)"
proof -
  obtain before where b: "s_before fs (f_name e) = Some before" "fst before = f_size e" "s_inside fs (f_name e)"
    using v by (auto simp: verify_file_def Let_def split: if_splits option.splits)
  show ?thesis
  proof (cases "\<exists>p. cached_files revision old (f_name e) = Some p \<and> r_digest p = expected_digest e \<and> r_identity p = before")
    case True
    then obtain p where p: "cached_files revision old (f_name e) = Some p" "r_digest p = expected_digest e" "r_identity p = before" by blast
    then have "f = p" using v b by (simp add: verify_file_def)
    moreover obtain e' where e': "e' \<in> set siblings" "entry_ok sha256 sha1 C e' p" "r_name p = f_name e"
      using cached_honest [OF h p(1)] by blast
    then have "e' = e" using d e by (auto simp: entry_ok_def distinct_map inj_on_def)
    ultimately show ?thesis using e' b p by simp
  next
    case False
    then have "(case cached_files revision old (f_name e) of Some p \<Rightarrow> if r_digest p = expected_digest e \<and> r_identity p = before then Some p else None | None \<Rightarrow> None) = None"
      by (auto split: option.splits)
    then obtain c where "s_read fs (f_name e) = Some c" "s_after fs (f_name e) = Some before"
      "file_digest sha256 sha1 e (f_size e) c = expected_digest e" "f = \<lparr>r_name = f_name e, r_digest = expected_digest e, r_identity = before\<rparr>"
      using v b unfolding verify_file_def Let_def by (auto split: if_splits option.splits)
    moreover from this have "c = C (f_name e) before" using b(1) s unfolding stable_def by blast
    ultimately show ?thesis using b by (simp add: entry_ok_def)
  qed
qed

lemma verify_all_ok: "verify_all v es = Inr files \<Longrightarrow> list_all2 (\<lambda>e f. v e = Inr f) es files"
  by (induction es arbitrary: files) (auto simp: bind_res_Inr_iff)

lemma verified_entries:
  assumes v: "verify_all (verify_file sha256 sha1 fs (cached_files revision old)) siblings = Inr files"
    and h: "honest siblings sha256 sha1 C old" and s: "stable C fs" and d: "distinct (map f_name siblings)"
  shows "list_all2 (\<lambda>e f. entry_ok sha256 sha1 C e f \<and> s_before fs (f_name e) = Some (r_identity f) \<and> s_inside fs (f_name e)) siblings files"
  using verify_all_ok [OF v] verify_file_ok [OF _ h s d] by (auto simp: list_all2_conv_all_nth)

lemma list_all2_dom: "list_all2 P xs ys \<Longrightarrow> x \<in> set xs \<Longrightarrow> \<exists>y\<in>set ys. P x y"
  by (induction rule: list_all2_induct) auto

lemma prepare_cases:
  assumes "prepare env revision node_rank visible (revision, siblings) sha256 sha1 fs shards old = Inr new"
  obtains (kept) "new = old"
  | (verified) files names where "verify_all (verify_file sha256 sha1 fs (cached_files revision old)) siblings = Inr files"
      "shards = Some names" "set names \<subseteq> set (map r_name files)" "new = Some \<lparr>r_revision = revision, r_files = files\<rparr>"
  using assms unfolding prepare_def by (auto simp: bind_res_Inr_iff split: if_splits option.splits)

lemma boots_honest:
  assumes "boots revision siblings sha256 sha1 C old" and d: "distinct (map f_name siblings)"
  shows "honest siblings sha256 sha1 C old"
  using assms(1)
proof induction
  case boots_first
  then show ?case by (simp add: honest_def)
next
  case (boots_next old fs env node_rank visible shards new)
  from boots_next(3) show ?case
  proof (cases rule: prepare_cases)
    case kept
    then show ?thesis using boots_next by simp
  next
    case (verified files names)
    then show ?thesis using verified_entries [OF verified(1) boots_next(4,2) d]
      by (force simp: honest_def list_all_iff list_all2_conv_all_nth in_set_conv_nth)
  qed
qed

section \<open>Properties\<close>

text \<open>C11: A checkpoint that \<open>prepare\<close> accepts is the published one. Whatever earlier boots did, when the node that verifies returns
  with a receipt for the revision, every file of the revision lies under the model directory, has its listed size, and the
  bytes of its current identity have the listed digest, hashed now or on an earlier boot; the receipt lists exactly these
  files, and every shard of the weight map is one of them.\<close>

theorem checkpoint_verified:
  assumes "boots revision siblings sha256 sha1 C old" and "distinct (map f_name siblings)" and "stable C fs"
    and "env_get env ''SKIP_PREPARE'' ''0'' \<noteq> ''1''" and "env_get env ''SKIP_VERIFY'' ''0'' \<noteq> ''1''"
    and "prepare env revision 0 visible (revision, siblings) sha256 sha1 fs shards old = Inr new"
  shows "(\<forall>e\<in>set siblings. s_inside fs (f_name e) \<and> (\<exists>i. s_before fs (f_name e) = Some i \<and> fst i = f_size e
        \<and> file_digest sha256 sha1 e (f_size e) (C (f_name e) i) = expected_digest e))
    \<and> (\<exists>r names. new = Some r \<and> map r_name (r_files r) = map f_name siblings \<and> shards = Some names \<and> set names \<subseteq> f_name ` set siblings)"
proof -
  obtain files names where v: "verify_all (verify_file sha256 sha1 fs (cached_files revision old)) siblings = Inr files"
      "shards = Some names" "set names \<subseteq> set (map r_name files)" "new = Some \<lparr>r_revision = revision, r_files = files\<rparr>"
    using assms(4-6) unfolding prepare_def by (auto simp: bind_res_Inr_iff split: if_splits option.splits)
  note ok = verified_entries [OF v(1) boots_honest [OF assms(1,2)] assms(3,2)]
  have "map r_name files = map f_name siblings"
    using ok by (intro nth_equalityI) (auto simp: list_all2_conv_all_nth entry_ok_def)
  moreover have "s_inside fs (f_name e) \<and> (\<exists>i. s_before fs (f_name e) = Some i \<and> fst i = f_size e
        \<and> file_digest sha256 sha1 e (f_size e) (C (f_name e) i) = expected_digest e)" if e: "e \<in> set siblings" for e
  proof -
    obtain f where "entry_ok sha256 sha1 C e f" "s_before fs (f_name e) = Some (r_identity f)" "s_inside fs (f_name e)"
      using list_all2_dom [OF ok e] by blast
    then show ?thesis by (simp add: entry_ok_def)
  qed
  ultimately show ?thesis using v by (metis receipt.select_convs(2) set_map)
qed

text \<open>A repository of one large and one small file; the first boot hashes both, the second finds them in the receipt and reads nothing.\<close>

definition ex_siblings :: "sibling list" where
  "ex_siblings = [\<lparr>f_name = ''w'', f_size = 2, f_lfs = Some ''ba'', f_blob = ''x''\<rparr>, \<lparr>f_name = ''c'', f_size = 1, f_lfs = None, f_blob = ''c''\<rparr>]"

definition ex_files :: "bool \<Rightarrow> files" where
  "ex_files readable = \<lparr>s_inside = \<lambda>_. True, s_before = [''w'' \<mapsto> (2, 7, 1), ''c'' \<mapsto> (1, 7, 2)],
     s_read = (if readable then [''w'' \<mapsto> ''ab'', ''c'' \<mapsto> ''c''] else Map.empty), s_after = [''w'' \<mapsto> (2, 7, 1), ''c'' \<mapsto> (1, 7, 2)]\<rparr>"

definition ex_receipt :: receipt where
  "ex_receipt = \<lparr>r_revision = ''rev'', r_files = [\<lparr>r_name = ''w'', r_digest = ''ba'', r_identity = (2, 7, 1)\<rparr>, \<lparr>r_name = ''c'', r_digest = ''c'', r_identity = (1, 7, 2)\<rparr>]\<rparr>"

definition ex_content :: "string \<Rightarrow> identity \<Rightarrow> string" where
  "ex_content name i = (if name = ''w'' then ''ab'' else name)"

lemma ex_boot:
  "prepare Map.empty ''rev'' 0 True (''rev'', ex_siblings) rev (\<lambda>s. [last s]) (ex_files True) (Some [''w'']) None = Inr (Some ex_receipt)"
  "prepare Map.empty ''rev'' 0 True (''rev'', ex_siblings) rev (\<lambda>s. [last s]) (ex_files False) (Some [''w'']) (Some ex_receipt) = Inr (Some ex_receipt)"
  by (simp_all add: prepare_def ex_siblings_def ex_files_def ex_receipt_def env_get_def verify_file_def cached_files_def expected_digest_def file_digest_def Let_def)

lemma ex_stable: "stable ex_content (ex_files readable)"
  by (simp add: stable_def ex_files_def ex_content_def)

theorem checkpoint_verified_witness:
  "file_digest rev (\<lambda>s. [last s]) (hd ex_siblings) 2 (ex_content ''w'' (2, 7, 1)) = ''ba''"
proof -
  have "boots ''rev'' ex_siblings rev (\<lambda>s. [last s]) ex_content (Some ex_receipt)"
    by (rule boots_next [OF boots_first ex_stable ex_boot(1)])
  from checkpoint_verified [OF this _ ex_stable _ _ ex_boot(2)] show ?thesis
    by (simp add: ex_siblings_def ex_files_def env_get_def expected_digest_def)
qed

lemma required_args_pinned:
  "\<not> mxfp8_backend_disabled backend \<Longrightarrow> required_sglang_args args backend = drop_flag args @ [gemm_flag, ''flashinfer_cutlass'']"
  using strip_flag_eq [of args 0 "[]" "[]"] by (simp add: required_sglang_args_def)

lemma serve_args_pinned:
  assumes "serve_args env b m = Inr args" and "\<not> mxfp8_backend_disabled (env_get env ''DSV41_MXFP8_BACKEND'' ''b12x'')"
  shows "\<exists>kept. args = kept @ [gemm_flag, ''flashinfer_cutlass''] \<and> list_all (\<lambda>a. \<not> is_flag a) kept"
  using assms drop_flag_clean by (auto simp: serve_args_def bind_res_Inr_iff required_args_pinned Let_def split: if_splits)

text \<open>\<open>required_sglang_args\<close> pins the backend and touches nothing else: with the overlay on, the result is the given arguments
  without any form of the flag and without its values, followed by the flag with \<open>flashinfer_cutlass\<close>; no other occurrence is
  left, and applying it again changes nothing.\<close>

theorem required_args_exact:
  "required_sglang_args args backend =
      (if mxfp8_backend_disabled backend then args else drop_flag args @ [gemm_flag, ''flashinfer_cutlass''])
    \<and> list_all (\<lambda>a. \<not> is_flag a) (drop_flag args)
    \<and> required_sglang_args (required_sglang_args args backend) backend = required_sglang_args args backend"
  using strip_flag_eq [of args 0 "[]" "[]"] strip_flag_eq [of "drop_flag args @ [gemm_flag, ''flashinfer_cutlass'']" 0 "[]" "[]"]
    drop_flag_clean [of args] drop_flag_id [OF drop_flag_clean [of args]]
  by (simp add: required_sglang_args_def)

text \<open>C40: \<open>serve\<close> starts the engine exactly on settings it can serve: a known offload mode, an integer context length within the
  model's range, a GPU, for RAM offload the operator's consent and the memory for both tables, and an address when there
  are several nodes; every other setting raises. The arguments it then passes pin the backend unless the overlay is off.\<close>

theorem serve_starts_iff:
  "((\<exists>args. serve_args env b m = Inr args) \<longleftrightarrow>
     (let mode = env_get env ''OFFLOAD_MODE'' ''nvme'' in
      (mode = ''nvme'' \<or> mode = ''ram'')
      \<and> (\<exists>context. py_int (env_get env ''CONTEXT_LENGTH'' ''409600'') = Some context \<and> 4096 \<le> context \<and> context \<le> 1048576)
      \<and> m_gpus m \<noteq> []
      \<and> (mode = ''nvme'' \<or> env_get env ''ALLOW_RAM_OFFLOAD'' ''0'' = ''1'' \<and> sum_list (m_shard_sizes m) + 24 * 2 ^ 30 \<le> m_available m)
      \<and> (1 < b_nnodes b \<longrightarrow> b_dist b \<noteq> [])))
   \<and> (\<forall>args. serve_args env b m = Inr args \<longrightarrow> \<not> mxfp8_backend_disabled (env_get env ''DSV41_MXFP8_BACKEND'' ''b12x'') \<longrightarrow>
       (\<exists>kept. args = kept @ [gemm_flag, ''flashinfer_cutlass''] \<and> list_all (\<lambda>a. \<not> is_flag a) kept))"
proof (intro conjI allI impI)
  show "(\<exists>args. serve_args env b m = Inr args) \<longleftrightarrow>
     (let mode = env_get env ''OFFLOAD_MODE'' ''nvme'' in
      (mode = ''nvme'' \<or> mode = ''ram'')
      \<and> (\<exists>context. py_int (env_get env ''CONTEXT_LENGTH'' ''409600'') = Some context \<and> 4096 \<le> context \<and> context \<le> 1048576)
      \<and> m_gpus m \<noteq> []
      \<and> (mode = ''nvme'' \<or> env_get env ''ALLOW_RAM_OFFLOAD'' ''0'' = ''1'' \<and> sum_list (m_shard_sizes m) + 24 * 2 ^ 30 \<le> m_available m)
      \<and> (1 < b_nnodes b \<longrightarrow> b_dist b \<noteq> []))"
    unfolding serve_args_def check_offload_def int_of_def Let_def
    by (cases "py_int (env_get env ''CONTEXT_LENGTH'' ''409600'')") (auto simp: not_less)
qed (rule serve_args_pinned)

text \<open>Two nodes on the default settings: the engine starts with an address, and raises without one.\<close>

definition ex_nodes :: "string \<Rightarrow> boot_cfg" where
  "ex_nodes addr = \<lparr>b_model = ''/m'', b_state = ''/s'', b_port = 8888, b_nnodes = 2, b_node_rank = 0, b_tp = 2, b_ep = 2, b_dist = addr, b_served = ''x''\<rparr>"

definition ex_machine :: machine where
  "ex_machine = \<lparr>m_gpus = [''GB10''], m_shard_sizes = [], m_available = 0, m_is_file = \<lambda>_. False\<rparr>"

theorem serve_starts_iff_witness:
  "(\<exists>kept. serve_args Map.empty (ex_nodes ''a:1'') ex_machine = Inr (kept @ [gemm_flag, ''flashinfer_cutlass'']) \<and> list_all (\<lambda>a. \<not> is_flag a) kept)
    \<and> (\<nexists>args. serve_args Map.empty (ex_nodes []) ex_machine = Inr args)"
proof -
  have c: "py_int ''409600'' = Some 409600" by code_simp
  have m: "\<not> mxfp8_backend_disabled ''b12x''" by code_simp
  have "\<exists>args. serve_args Map.empty (ex_nodes ''a:1'') ex_machine = Inr args"
    using serve_starts_iff [of Map.empty "ex_nodes ''a:1''" ex_machine] c by (simp add: env_get_def ex_nodes_def ex_machine_def)
  then obtain args where a: "serve_args Map.empty (ex_nodes ''a:1'') ex_machine = Inr args" by blast
  then have "\<exists>kept. args = kept @ [gemm_flag, ''flashinfer_cutlass''] \<and> list_all (\<lambda>a. \<not> is_flag a) kept"
    using serve_starts_iff [of Map.empty "ex_nodes ''a:1''" ex_machine] m by (simp add: env_get_def)
  moreover have "\<nexists>args. serve_args Map.empty (ex_nodes []) ex_machine = Inr args"
    using serve_starts_iff [of Map.empty "ex_nodes []" ex_machine] by (simp add: env_get_def ex_nodes_def ex_machine_def)
  ultimately show ?thesis using a by auto
qed

end
