(* ===== verification/Sched_Guard.thy ===== *)
theory Sched_Guard
  imports Complex_Main Py_Prelude
begin

text \<open>
  Two guards of the scheduler: the request check of the bounded replay (\<open>adapter/replay_guard.py\<close>) and the chunk size chosen
  from the prefix length (\<open>adapter/adaptive_chunk.py\<close>). The engine's validator is an argument. Python floats are
  rational numbers rounded by \<open>rnd\<close> after each operation; the theorems use that rounding is monotone and exact on
  the integers in question.
\<close>

section \<open>Requests under bounded replay\<close>

definition guard_enabled :: "environ \<Rightarrow> bool" where
  "guard_enabled env = (py_lower (py_strip (env_get env ''DSV41_REPLAY_GUARD'' ''1'')) \<notin> {''0'', ''off'', ''false'', ''no'', []})"

datatype hidden_states = NoHidden | LastHidden | AllHidden

text \<open>A generate request: \<open>logprob_start_len\<close> may be absent or not an integer.\<close>

record gen_request =
  q_kind :: string
  q_logprob :: bool
  q_start :: "int option"
  q_hidden :: hidden_states

definition check_request :: "gen_request \<Rightarrow> 'tok list option \<Rightarrow> bool \<Rightarrow> unit res" where
  "check_request obj input_ids bounded =
     (case input_ids of
        None \<Rightarrow> Inr ()
      | Some ids \<Rightarrow>
          if \<not> bounded then Inr ()
          else if q_logprob obj \<and> (case q_start obj of Some s \<Rightarrow> 0 \<le> s \<and> s < int (length ids) | None \<Rightarrow> False) then Inl ValueError
          else if q_hidden obj = AllHidden then Inl ValueError
          else Inr ())"

text \<open>\<open>feature\<close>: the engine's setting, \<open>None\<close> when reading it raises.\<close>

definition validate_one_request :: "environ \<Rightarrow> bool option \<Rightarrow> (gen_request \<Rightarrow> 'tok list option \<Rightarrow> 'r res) \<Rightarrow> gen_request \<Rightarrow> 'tok list option \<Rightarrow> 'r res" where
  "validate_one_request env feature original obj input_ids =
     (if \<not> guard_enabled env then original obj input_ids
      else let bounded = (case feature of Some b \<Rightarrow> b | None \<Rightarrow> True)
           in if q_kind obj = ''GenerateReqInput''
              then bind_res (check_request obj input_ids bounded) (\<lambda>_. original obj input_ids)
              else original obj input_ids)"

text \<open>A request that reads prompt rows the bounded replay does not run.\<close>

definition reads_prompt_tail :: "gen_request \<Rightarrow> nat \<Rightarrow> bool" where
  "reads_prompt_tail obj n =
     (q_logprob obj \<and> (\<exists>s. q_start obj = Some s \<and> 0 \<le> s \<and> s < int n) \<or> q_hidden obj = AllHidden)"

section \<open>Chunk size from the prefix length\<close>

record sizer =
  z_base :: int
  z_low :: int
  z_high :: int
  z_floor :: int
  z_grid :: int

definition predict :: "(rat \<Rightarrow> rat) \<Rightarrow> sizer \<Rightarrow> int \<Rightarrow> int option res" where
  "predict rnd z history_len =
     (if history_len \<le> z_low z then Inr None
      else if z_high z \<le> history_len then Inr (Some (z_floor z))
      else if z_grid z = 0 then Inl ZeroDivisionError
      else let span = z_high z - z_low z;
               frac = rnd (of_int (history_len - z_low z) / of_int span);
               size = rnd (of_int (z_base z) - rnd (frac * of_int (z_base z - z_floor z)));
               size' = \<lfloor>size / of_int (z_grid z)\<rfloor> * z_grid z
           in Inr (Some (max size' (z_floor z))))"

definition init_sizer :: "environ \<Rightarrow> int option \<Rightarrow> sizer option \<Rightarrow> sizer option" where
  "init_sizer env base old =
     (if env_get env ''DSV41_ADAPTIVE_CHUNK'' ''0'' \<noteq> ''1'' then old
      else case base of
        None \<Rightarrow> old
      | Some b \<Rightarrow>
          if b \<le> 0 then old
          else (case (py_int (env_get env ''DSV41_ADAPTIVE_LOW'' ''98304''), py_int (env_get env ''DSV41_ADAPTIVE_HIGH'' ''199680''),
                      py_int (env_get env ''DSV41_ADAPTIVE_FLOOR'' ''512''), py_int (env_get env ''DSV41_ADAPTIVE_GRID'' ''128'')) of
                  (Some low, Some high, Some fl, Some grid) \<Rightarrow> Some \<lparr>z_base = b, z_low = low, z_high = high, z_floor = fl, z_grid = grid\<rparr>
                | _ \<Rightarrow> old))"

text \<open>The chunk the scheduler uses: the static one unless the sizer gives another.\<close>

definition chunk_of :: "(rat \<Rightarrow> rat) \<Rightarrow> sizer \<Rightarrow> int \<Rightarrow> int" where
  "chunk_of rnd z h = (case predict rnd z h of Inr (Some c) \<Rightarrow> c | _ \<Rightarrow> z_base z)"

text \<open>Rounding of floats on the range of chunk sizes.\<close>

definition rounds :: "(rat \<Rightarrow> rat) \<Rightarrow> bool" where
  "rounds rnd \<longleftrightarrow> mono rnd \<and> (\<forall>i::int. \<bar>i\<bar> \<le> 2 ^ 53 \<longrightarrow> rnd (of_int i) = of_int i)"

definition sizer_ok :: "sizer \<Rightarrow> bool" where
  "sizer_ok z = (0 < z_floor z \<and> z_floor z \<le> z_base z \<and> z_base z \<le> 2 ^ 53 \<and> 0 < z_grid z)"

definition raw_size :: "(rat \<Rightarrow> rat) \<Rightarrow> sizer \<Rightarrow> int \<Rightarrow> rat" where
  "raw_size rnd z h = rnd (of_int (z_base z) - rnd (rnd (of_int (h - z_low z) / of_int (z_high z - z_low z)) * of_int (z_base z - z_floor z)))"

lemma chunk_of_between:
  "z_low z < h \<Longrightarrow> h < z_high z \<Longrightarrow> z_grid z \<noteq> 0 \<Longrightarrow>
   chunk_of rnd z h = max (\<lfloor>raw_size rnd z h / of_int (z_grid z)\<rfloor> * z_grid z) (z_floor z)"
  by (simp add: chunk_of_def predict_def raw_size_def Let_def)

lemma rounds_zero: "rounds rnd \<Longrightarrow> rnd 0 = 0"
  unfolding rounds_def by (metis abs_zero of_int_0 zero_le_numeral zero_le_power)

lemma raw_size_antimono:
  assumes r: "rounds rnd" and z: "sizer_ok z" and "z_low z < z_high z" and "h \<le> h'"
  shows "raw_size rnd z h' \<le> raw_size rnd z h"
proof -
  have m: "x \<le> y \<Longrightarrow> rnd x \<le> rnd y" for x y using r by (auto simp: rounds_def mono_def)
  have "(of_int (h - z_low z) :: rat) / of_int (z_high z - z_low z) \<le> of_int (h' - z_low z) / of_int (z_high z - z_low z)"
    using assms(3,4) by (intro divide_right_mono) simp_all
  then have "rnd (of_int (h - z_low z) / of_int (z_high z - z_low z)) * of_int (z_base z - z_floor z)
      \<le> rnd (of_int (h' - z_low z) / of_int (z_high z - z_low z)) * of_int (z_base z - z_floor z)"
    using z by (intro mult_right_mono m) (simp_all add: sizer_ok_def)
  from m [OF this] show ?thesis unfolding raw_size_def by (intro m) simp
qed

lemma raw_size_le_base:
  assumes r: "rounds rnd" and z: "sizer_ok z" and "z_low z < z_high z" and "z_low z \<le> h"
  shows "raw_size rnd z h \<le> of_int (z_base z)"
proof -
  have "raw_size rnd z h \<le> raw_size rnd z (z_low z)" by (rule raw_size_antimono [OF r z assms(3,4)])
  also have "raw_size rnd z (z_low z) = rnd (of_int (z_base z))" by (simp add: raw_size_def rounds_zero [OF r])
  also have "\<dots> = of_int (z_base z)" using r z by (simp add: rounds_def sizer_ok_def)
  finally show ?thesis .
qed

section \<open>Properties\<close>

text \<open>With the guard on, a generate request that reads prompt rows the bounded replay does not run gets a \<open>ValueError\<close> before
  it reaches the engine, and every other request reaches the engine's validator unchanged; an unreadable setting counts as
  bounded.\<close>

theorem replay_guard_exact:
  assumes "guard_enabled env" and "q_kind obj = ''GenerateReqInput''"
  shows "validate_one_request env feature original obj (Some ids) =
    (if feature \<noteq> Some False \<and> reads_prompt_tail obj (length ids) then Inl ValueError else original obj (Some ids))"
  using assms by (auto simp: validate_one_request_def check_request_def reads_prompt_tail_def Let_def split: option.splits bool.splits)

theorem replay_guard_exact_witness:
  "validate_one_request Map.empty None (\<lambda>obj ids. Inr ()) \<lparr>q_kind = ''GenerateReqInput'', q_logprob = True, q_start = Some 0, q_hidden = NoHidden\<rparr> (Some [1, 2::nat]) = Inl ValueError
   \<and> validate_one_request Map.empty None (\<lambda>obj ids. Inr ()) \<lparr>q_kind = ''GenerateReqInput'', q_logprob = True, q_start = Some 2, q_hidden = NoHidden\<rparr> (Some [1, 2::nat]) = Inr ()"
proof -
  have g: "guard_enabled Map.empty"
    by (simp add: guard_enabled_def env_get_def py_lower_def py_strip_def py_isspace_def lower_char_def Let_def)
  show ?thesis
    using replay_guard_exact [OF g, of "\<lparr>q_kind = ''GenerateReqInput'', q_logprob = True, q_start = Some 0, q_hidden = NoHidden\<rparr>" None "\<lambda>obj ids. Inr ()" "[1, 2::nat]"]
      replay_guard_exact [OF g, of "\<lparr>q_kind = ''GenerateReqInput'', q_logprob = True, q_start = Some 2, q_hidden = NoHidden\<rparr>" None "\<lambda>obj ids. Inr ()" "[1, 2::nat]"]
    by (simp add: reads_prompt_tail_def)
qed

text \<open>The chunk size stays between the floor and the static chunk, is a multiple of the grid or the floor, and never grows
  with the prefix, whatever the rounding of the floats.\<close>

theorem adaptive_chunk_bounded:
  assumes "rounds rnd" and "sizer_ok z" and "z_low z < z_high z" and "h \<le> h'"
  shows "z_floor z \<le> chunk_of rnd z h \<and> chunk_of rnd z h \<le> z_base z \<and> chunk_of rnd z h' \<le> chunk_of rnd z h
    \<and> (z_low z < h \<and> chunk_of rnd z h \<noteq> z_floor z \<longrightarrow> z_grid z dvd chunk_of rnd z h)"
proof -
  have g: "0 < z_grid z" "z_floor z \<le> z_base z" using assms(2) by (simp_all add: sizer_ok_def)
  have grid_le: "\<lfloor>x / of_int (z_grid z)\<rfloor> * z_grid z \<le> y" if "x \<le> of_int y" for x :: rat and y
  proof -
    have "of_int (\<lfloor>x / of_int (z_grid z)\<rfloor> * z_grid z) \<le> (x / of_int (z_grid z)) * of_int (z_grid z)"
      using g(1) by (simp only: of_int_mult) (intro mult_right_mono, simp_all)
    also have "\<dots> = x" using g(1) by simp
    finally show ?thesis using that by (metis of_int_le_iff order_trans)
  qed
  have bounds: "z_floor z \<le> chunk_of rnd z k \<and> chunk_of rnd z k \<le> z_base z" for k
  proof (cases "z_low z < k \<and> k < z_high z")
    case True
    then show ?thesis using chunk_of_between [of z k rnd] g grid_le [OF raw_size_le_base [OF assms(1,2,3)], of k] by auto
  next
    case False
    then show ?thesis using g by (auto simp: chunk_of_def predict_def)
  qed
  have mono: "chunk_of rnd z h' \<le> chunk_of rnd z h"
  proof (cases "z_low z < h \<and> h' < z_high z")
    case True
    have "\<lfloor>raw_size rnd z h' / of_int (z_grid z)\<rfloor> \<le> \<lfloor>raw_size rnd z h / of_int (z_grid z)\<rfloor>"
      using raw_size_antimono [OF assms] g by (intro floor_mono divide_right_mono) simp_all
    then have "\<lfloor>raw_size rnd z h' / of_int (z_grid z)\<rfloor> * z_grid z \<le> \<lfloor>raw_size rnd z h / of_int (z_grid z)\<rfloor> * z_grid z"
      using g by (intro mult_right_mono) simp_all
    moreover have "chunk_of rnd z k = max (\<lfloor>raw_size rnd z k / of_int (z_grid z)\<rfloor> * z_grid z) (z_floor z)" if "k = h \<or> k = h'" for k
      using that True assms(4) g by (intro chunk_of_between) auto
    ultimately show ?thesis by (metis max.mono order_refl)
  next
    case False
    then consider "h \<le> z_low z" | "z_high z \<le> h'" by linarith
    then show ?thesis
    proof cases
      case 1
      then have "chunk_of rnd z h = z_base z" by (simp add: chunk_of_def predict_def)
      then show ?thesis using bounds [of h'] by simp
    next
      case 2
      then have "chunk_of rnd z h' = z_floor z" using assms(3) by (simp add: chunk_of_def predict_def)
      then show ?thesis using bounds [of h] by simp
    qed
  qed
  have "z_grid z dvd chunk_of rnd z h" if "z_low z < h" "chunk_of rnd z h \<noteq> z_floor z"
  proof (cases "h < z_high z")
    case True
    then show ?thesis using that chunk_of_between [of z h rnd] g by (auto simp: max_def split: if_splits)
  next
    case False
    then show ?thesis using that by (simp add: chunk_of_def predict_def)
  qed
  then show ?thesis using bounds mono by blast
qed

theorem adaptive_chunk_bounded_witness:
  "512 \<le> chunk_of id \<lparr>z_base = 2048, z_low = 98304, z_high = 199680, z_floor = 512, z_grid = 128\<rparr> 150000
   \<and> chunk_of id \<lparr>z_base = 2048, z_low = 98304, z_high = 199680, z_floor = 512, z_grid = 128\<rparr> 150000 \<le> 2048
   \<and> chunk_of id \<lparr>z_base = 2048, z_low = 98304, z_high = 199680, z_floor = 512, z_grid = 128\<rparr> 160000
       \<le> chunk_of id \<lparr>z_base = 2048, z_low = 98304, z_high = 199680, z_floor = 512, z_grid = 128\<rparr> 150000"
  using adaptive_chunk_bounded [of id "\<lparr>z_base = 2048, z_low = 98304, z_high = 199680, z_floor = 512, z_grid = 128\<rparr>" 150000 160000]
  by (simp add: rounds_def sizer_ok_def mono_def)

end
