(* ===== verification/Tp_Pad.thy ===== *)
theory Tp_Pad
  imports Rank_Split
begin

text \<open>
  Padding of a checkpoint whose dimensions the tensor-parallel size does not divide (\<open>adapter/tp3_pad.py\<close>): the padded
  head, group, expert and vocabulary counts, the patched model configuration, and the weight loaders that copy the
  stored rows of a shard and pad the rest. A configuration object is a record whose fields are \<open>None\<close> when the
  attribute is missing; the text configuration is held once, so the second pass of \<open>ModelConfig\<close> sees the first. A
  weight is the list of its rows along the output dimension. \<open>pad_or_narrow\<close>, \<open>orig\<close> and \<open>orig_lin\<close> are SGLang's functions.
\<close>

section \<open>Sizes\<close>

definition env_tp :: "environ \<Rightarrow> int res" where
  "env_tp env =
     (case py_int (env_get env ''TP_SIZE'' (env_get env ''TP'' ''3'')) of None \<Rightarrow> Inl ValueError | Some n \<Rightarrow> Inr n)"

definition tp_pad_enabled :: "environ \<Rightarrow> bool res" where
  "tp_pad_enabled env =
     (if env_get env ''DSV41_TP_PAD'' ''1'' \<in> {''0'', ''false'', ''off''} then Inr False
      else bind_res (env_tp env) (\<lambda>tp. Inr (1 < tp)))"

definition legal_local :: "nat list" where
  "legal_local = [8, 16, 32, 64, 128]"

definition next_legal :: "nat \<Rightarrow> nat" where
  "next_legal local = (case find (\<lambda>h. local \<le> h) legal_local of Some h \<Rightarrow> h | None \<Rightarrow> last legal_local)"

text \<open>The padded \<open>(heads, groups)\<close>.\<close>

definition pad_heads :: "nat \<Rightarrow> nat \<Rightarrow> nat \<Rightarrow> nat \<times> nat" where
  "pad_heads tp heads groups =
     (let per = max (heads div groups) 1;
          (new_heads, new_groups) =
            (if heads mod tp \<noteq> 0 then (ceil_to groups tp * per, ceil_to groups tp) else (heads, groups))
      in if new_heads div tp \<notin> set legal_local then
           let new_heads = next_legal (new_heads div tp) * tp; new_groups = new_heads div per
           in if new_groups * per \<noteq> new_heads then (ceil_to new_groups tp * per, ceil_to new_groups tp)
              else (new_heads, new_groups)
         else (new_heads, new_groups))"

record text_cfg =
  num_attention_heads :: "nat option"
  o_groups :: "nat option"
  dspark_n_routed_experts :: "nat option"

record vision_cfg =
  vis_attention_heads :: "nat option"
  vis_heads :: "nat option"

record hf_cfg =
  hf_own :: text_cfg
  hf_text :: "text_cfg option"
  hf_vision :: "vision_cfg option"

definition or0 :: "nat option \<Rightarrow> nat" where
  "or0 x = (case x of None \<Rightarrow> 0 | Some n \<Rightarrow> n)"

text \<open>The head and group counts of the text configuration, with the head count to copy to \<open>hf\<close> when they changed.\<close>

definition pad_text_heads :: "nat \<Rightarrow> text_cfg \<Rightarrow> text_cfg \<times> nat option" where
  "pad_text_heads tp c =
     (let heads = or0 (num_attention_heads c); groups = or0 (o_groups c) in
      if heads \<noteq> 0 \<and> groups \<noteq> 0 then
        let (new_heads, new_groups) = pad_heads tp heads groups in
        if new_heads \<noteq> heads \<or> new_groups \<noteq> groups
        then (c\<lparr>o_groups := Some new_groups, num_attention_heads := Some new_heads\<rparr>, Some new_heads)
        else (c, None)
      else (c, None))"

definition pad_draft :: "nat \<Rightarrow> text_cfg \<Rightarrow> text_cfg" where
  "pad_draft tp c =
     (let draft = or0 (dspark_n_routed_experts c) in
      if draft \<noteq> 0 \<and> draft mod tp \<noteq> 0 then c\<lparr>dspark_n_routed_experts := Some (ceil_to draft tp)\<rparr> else c)"

definition pad_vision :: "nat \<Rightarrow> vision_cfg \<Rightarrow> vision_cfg" where
  "pad_vision tp v =
     (let vh = (if or0 (vis_attention_heads v) \<noteq> 0 then or0 (vis_attention_heads v) else or0 (vis_heads v)) in
      if vh \<noteq> 0 \<and> vh mod tp \<noteq> 0
      then \<lparr>vis_attention_heads = map_option (\<lambda>_. ceil_to vh tp) (vis_attention_heads v),
            vis_heads = map_option (\<lambda>_. ceil_to vh tp) (vis_heads v)\<rparr>
      else v)"

definition pad_dsv41_hf_config :: "nat \<Rightarrow> hf_cfg \<Rightarrow> hf_cfg" where
  "pad_dsv41_hf_config tp hf =
     (let (c, changed) = pad_text_heads tp (case hf_text hf of Some t \<Rightarrow> t | None \<Rightarrow> hf_own hf);
          c = pad_draft tp c;
          hf = (case hf_text hf of
                  Some _ \<Rightarrow>
                    hf\<lparr>hf_text := Some c,
                       hf_own := (case (changed, num_attention_heads (hf_own hf)) of
                                    (Some n, Some _) \<Rightarrow> (hf_own hf)\<lparr>num_attention_heads := Some n\<rparr>
                                  | _ \<Rightarrow> hf_own hf)\<rparr>
                | None \<Rightarrow> hf\<lparr>hf_own := c\<rparr>)
      in hf\<lparr>hf_vision := map_option (pad_vision tp) (hf_vision hf)\<rparr>)"

definition pad_vocab_size :: "(nat \<Rightarrow> nat \<Rightarrow> nat) \<Rightarrow> nat \<Rightarrow> nat \<Rightarrow> nat \<Rightarrow> nat" where
  "pad_vocab_size orig tp vocab_size pad_to = orig vocab_size (if 1 < tp then lcm pad_to tp else pad_to)"

text \<open>\<open>ModelConfig.__init__\<close> after the engine's own: \<open>hf_config\<close>, \<open>hf_text_config\<close> and \<open>num_attention_heads\<close>. An
  exception on the way is logged, and what was set before it stays.\<close>

record model_cfg =
  m_hf :: "hf_cfg option"
  m_text :: "text_cfg option"
  m_heads :: "nat option"

definition model_config_init :: "nat \<Rightarrow> model_cfg \<Rightarrow> model_cfg" where
  "model_config_init tp m =
     (case m_hf m of
        None \<Rightarrow> m
      | Some hf \<Rightarrow>
          let hf = pad_dsv41_hf_config tp hf; m = m\<lparr>m_hf := Some hf\<rparr> in
          case hf_text hf of
            None \<Rightarrow> m
          | Some t \<Rightarrow>
              let t = hf_own (pad_dsv41_hf_config tp \<lparr>hf_own = t, hf_text = None, hf_vision = None\<rparr>);
                  m = m\<lparr>m_hf := Some (hf\<lparr>hf_text := Some t\<rparr>)\<rparr>
              in case num_attention_heads t of
                   None \<Rightarrow> m
                 | Some n \<Rightarrow>
                     let m = m\<lparr>m_text := map_option (\<lambda>c. c\<lparr>num_attention_heads := Some n\<rparr>) (m_text m)\<rparr> in
                     case m_text m of
                       Some c \<Rightarrow>
                         if o_groups c \<noteq> None \<and> o_groups t = None then m
                         else m\<lparr>m_text := Some (if o_groups c \<noteq> None then c\<lparr>o_groups := o_groups t\<rparr> else c),
                                m_heads := map_option (\<lambda>_. n) (m_heads m)\<rparr>
                     | None \<Rightarrow> m\<lparr>m_heads := map_option (\<lambda>_. n) (m_heads m)\<rparr>)"

section \<open>Weight loaders\<close>

type_synonym 'a rows = "'a list list"

definition pad_fill :: "bool \<Rightarrow> 'a :: {zero, one}" where
  "pad_fill fp32 = (if fp32 then 1 else 0)"

text \<open>\<open>t.narrow(0, lo, hi - lo).fill_(v)\<close>.\<close>

definition fill_rows :: "nat \<Rightarrow> nat \<Rightarrow> 'a \<Rightarrow> 'a rows \<Rightarrow> 'a rows" where
  "fill_rows lo hi v t = map (\<lambda>i. if lo \<le> i \<and> i < hi then map (\<lambda>_. v) (t ! i) else t ! i) [0..<length t]"

text \<open>\<open>data[slices].copy_(w[slices])\<close> on the overlap of the two shapes.\<close>

definition copy_overlap :: "'a rows \<Rightarrow> 'a rows \<Rightarrow> 'a rows" where
  "copy_overlap data w =
     map (\<lambda>i. if i < length w then let m = min (length (data ! i)) (length (w ! i)) in take m (w ! i) @ drop m (data ! i) else data ! i)
       [0..<length data]"

definition load_column_parallel_weight ::
    "('a rows \<Rightarrow> nat \<Rightarrow> nat \<Rightarrow> 'a rows) \<Rightarrow> ('a rows \<Rightarrow> nat \<Rightarrow> 'a rows res) \<Rightarrow> bool \<Rightarrow> bool \<Rightarrow> bool \<Rightarrow> nat \<Rightarrow> 'a rows \<Rightarrow> 'a rows
     \<Rightarrow> 'a :: {zero, one} rows res" where
  "load_column_parallel_weight pad_or_narrow orig_col presharded fp32 param_fp32 tp_rank data loaded =
     (if presharded then orig_col loaded tp_rank
      else
        let shard_size = length data; start = tp_rank * shard_size; stop = start + shard_size;
            loaded =
              (if length loaded < stop \<or> length loaded \<le> start then
                 let real = length loaded - start; w = pad_or_narrow loaded start shard_size
                 in if fp32 \<and> real < length w then fill_rows real (length w) 1 w else w
               else slice start stop loaded)
        in if map length data \<noteq> map length loaded
           then Inr (copy_overlap (map (map (\<lambda>_. pad_fill param_fp32)) data) loaded)
           else Inr loaded)"

text \<open>\<open>output_dim\<close>: the parameter has one; \<open>orig_lin\<close> is the stock loader, given the weight as it then is.\<close>

definition column_weight_loader ::
    "('a rows \<Rightarrow> nat \<Rightarrow> nat \<Rightarrow> 'a rows) \<Rightarrow> ('a rows \<Rightarrow> 'a rows res) \<Rightarrow> bool \<Rightarrow> bool \<Rightarrow> bool \<Rightarrow> bool \<Rightarrow> nat \<Rightarrow> 'a rows \<Rightarrow> 'a rows
     \<Rightarrow> 'a :: {zero, one} rows res" where
  "column_weight_loader pad_or_narrow orig_lin output_dim bnb presharded fp32 tp_rank data loaded =
     (let shard_size = length data; start = tp_rank * shard_size in
      if output_dim \<and> \<not> bnb \<and> \<not> presharded \<and> length loaded < start + shard_size then
        let real = int (length loaded) - int start;
            w = pad_or_narrow loaded start shard_size;
            w = (if fp32 \<and> 0 \<le> real \<and> real < int shard_size then fill_rows (nat real) shard_size 1 w else w)
        in if map length data = map length w then Inr w else orig_lin w
      else orig_lin loaded)"

definition default_weight_loader ::
    "('a rows \<Rightarrow> 'a rows \<Rightarrow> 'a rows res) \<Rightarrow> 'a rows \<Rightarrow> 'a :: {zero, one} rows \<Rightarrow> 'a rows res" where
  "default_weight_loader orig data loaded =
     (case orig data loaded of
        Inl AssertionError \<Rightarrow>
          (let zeros = map (map (\<lambda>_. 0)) data in
           if concat loaded = [] then Inr zeros else Inr (copy_overlap zeros loaded))
      | r \<Rightarrow> r)"

section \<open>Lemmas on the sizes\<close>

lemma next_legal_spec:
  assumes "n \<le> 128"
  shows "next_legal n \<in> set legal_local" and "n \<le> next_legal n"
  using assms by (auto simp: next_legal_def legal_local_def)

lemma legal_dvd: "h \<in> set legal_local \<Longrightarrow> 8 dvd h \<and> h \<le> 128"
  by (auto simp: legal_local_def)

text \<open>Padded counts the kernels accept: whole heads and groups per rank, a local head count with a kernel.\<close>

definition shardable :: "nat \<Rightarrow> nat \<Rightarrow> nat \<times> nat \<Rightarrow> bool" where
  "shardable tp per p = (tp dvd fst p \<and> tp dvd snd p \<and> fst p = snd p * per \<and> fst p div tp \<in> set legal_local)"

lemma shardable_target:
  assumes "0 < tp" and "per dvd 8" and "h \<in> set legal_local"
  shows "shardable tp per (h * tp, h * tp div per)" and "h * tp div per * per = h * tp"
proof -
  have "per dvd h" using legal_dvd [OF assms(3)] assms(2) by (meson dvd_trans)
  then obtain k where k: "h = per * k" by (auto elim: dvdE)
  have "0 < per" using assms(2) by (auto intro: Nat.gr0I)
  then have "h * tp div per = k * tp" using k by simp
  then show "shardable tp per (h * tp, h * tp div per)" and "h * tp div per * per = h * tp"
    using assms(1,3) k by (simp_all add: shardable_def)
qed

lemma pad_heads_spec:
  assumes "0 < tp" and "0 < groups" and "heads = groups * per" and "per dvd 8" and "ceil_to groups tp * per \<le> 128 * tp"
  shows "shardable tp per (pad_heads tp heads groups)" and "heads \<le> fst (pad_heads tp heads groups)"
    and "groups \<le> snd (pad_heads tp heads groups)"
proof -
  have per: "0 < per" using assms(4) by (auto intro: Nat.gr0I)
  then have p: "max (heads div groups) 1 = per" using assms(2,3) by simp
  define hg where "hg = (if heads mod tp \<noteq> 0 then (ceil_to groups tp * per, ceil_to groups tp) else (heads, groups))"
  have ge: "groups \<le> ceil_to groups tp" by (rule ceil_to_ge [OF assms(1)])
  have hg: "tp dvd fst hg" "fst hg = snd hg * per" "groups \<le> snd hg" "fst hg \<le> 128 * tp"
  proof -
    show "tp dvd fst hg" by (auto simp: hg_def mod_eq_0_iff_dvd)
    show "fst hg = snd hg * per" "groups \<le> snd hg" using assms(3) ge by (auto simp: hg_def)
    have "groups * per \<le> 128 * tp" using mult_le_mono1 [OF ge] assms(5) by (rule le_trans)
    then show "fst hg \<le> 128 * tp" using assms(3,5) by (auto simp: hg_def)
  qed
  let ?l = "fst hg div tp"
  have l: "?l * tp = fst hg" using hg(1) by simp
  have "?l \<le> 128" using hg(4) assms(1) l by (metis mult_le_cancel2 not_gr_zero)
  note nl = next_legal_spec [OF this]
  have heads: "heads \<le> fst hg" using hg(2,3) assms(3) by simp
  have "pad_heads tp heads groups = (case hg of (new_heads, new_groups) \<Rightarrow>
      if new_heads div tp \<notin> set legal_local then
        if next_legal (new_heads div tp) * tp div per * per \<noteq> next_legal (new_heads div tp) * tp
        then (ceil_to (next_legal (new_heads div tp) * tp div per) tp * per, ceil_to (next_legal (new_heads div tp) * tp div per) tp)
        else (next_legal (new_heads div tp) * tp, next_legal (new_heads div tp) * tp div per)
      else (new_heads, new_groups))"
    by (simp only: pad_heads_def p Let_def hg_def)
  then have unfold: "pad_heads tp heads groups =
      (if ?l \<notin> set legal_local then (next_legal ?l * tp, next_legal ?l * tp div per) else hg)"
    using shardable_target(2) [OF assms(1,4) nl(1)] by (cases hg) simp
  have big: "fst hg \<le> next_legal ?l * tp" using nl(2) l by (metis mult_le_mono1)
  have "snd hg \<le> next_legal ?l * tp div per" using big hg(2) per by (metis div_le_mono nonzero_mult_div_cancel_right not_gr_zero)
  moreover have "shardable tp per hg" if "?l \<in> set legal_local"
    using shardable_target [OF assms(1,4) that] l hg(2) per by (metis nonzero_mult_div_cancel_right not_gr_zero prod.collapse)
  ultimately show "shardable tp per (pad_heads tp heads groups)" and "heads \<le> fst (pad_heads tp heads groups)"
    and "groups \<le> snd (pad_heads tp heads groups)"
    using shardable_target(1) [OF assms(1,4) nl(1)] heads big hg(3) unfolding unfold by auto
qed

text \<open>A second pass changes nothing.\<close>

lemma pad_heads_idem:
  assumes "0 < tp" and "0 < per" and "shardable tp per (heads, groups)" and "0 < groups"
  shows "pad_heads tp heads groups = (heads, groups)"
  using assms by (auto simp: pad_heads_def shardable_def Let_def)

lemma pad_text_heads_spec:
  assumes "0 < tp" and "0 < groups" and "per dvd 8" and "ceil_to groups tp * per \<le> 128 * tp"
    and "num_attention_heads c = Some (groups * per)" and "o_groups c = Some groups"
  obtains h g where "pad_text_heads tp c
      = (c\<lparr>o_groups := Some g, num_attention_heads := Some h\<rparr>, if h = groups * per \<and> g = groups then None else Some h)"
    and "shardable tp per (h, g)" and "groups * per \<le> h" and "groups \<le> g"
proof -
  have per: "0 < per" using assms(3) by (auto intro: Nat.gr0I)
  obtain h g where hg: "pad_heads tp (groups * per) groups = (h, g)" by (cases "pad_heads tp (groups * per) groups")
  have same: "c\<lparr>o_groups := Some groups, num_attention_heads := Some (groups * per)\<rparr> = c" using assms(5,6) by (cases c) simp
  show ?thesis
  proof (rule that)
    show "pad_text_heads tp c
      = (c\<lparr>o_groups := Some g, num_attention_heads := Some h\<rparr>, if h = groups * per \<and> g = groups then None else Some h)"
      using assms(2,5,6) per same hg by (auto simp: pad_text_heads_def or0_def)
  qed (use pad_heads_spec [OF assms(1,2) refl assms(3,4)] hg in simp_all)
qed

lemma pad_text_heads_again:
  assumes "0 < tp" and "0 < per" and "0 < g" and "shardable tp per (h, g)"
    and "num_attention_heads c = Some h" and "o_groups c = Some g"
  shows "pad_text_heads tp c = (c, None)"
  using assms pad_heads_idem [OF assms(1,2,4,3)] by (simp add: pad_text_heads_def or0_def)

lemma pad_draft_simps [simp]:
  "num_attention_heads (pad_draft tp c) = num_attention_heads c"
  "o_groups (pad_draft tp c) = o_groups c"
  by (simp_all add: pad_draft_def Let_def)

lemma pad_draft_shards:
  assumes "0 < tp"
  shows "tp dvd or0 (dspark_n_routed_experts (pad_draft tp c))"
    and "or0 (dspark_n_routed_experts c) \<le> or0 (dspark_n_routed_experts (pad_draft tp c))"
    and "pad_draft tp (pad_draft tp c) = pad_draft tp c"
  using ceil_to_ge [OF assms]
  by (auto simp: pad_draft_def or0_def Let_def mod_eq_0_iff_dvd mod_greater_zero_iff_not_dvd)

lemma vocab_shards:
  assumes "\<And>v p. 0 < p \<Longrightarrow> orig v p = ceil_to v p" and "0 < pad_to" and "1 < tp"
  shows "tp dvd pad_vocab_size orig tp v pad_to" and "pad_to dvd pad_vocab_size orig tp v pad_to"
    and "v \<le> pad_vocab_size orig tp v pad_to"
proof -
  have "0 < lcm pad_to tp" using assms(2,3) by (simp add: lcm_pos_nat)
  moreover from this have "pad_vocab_size orig tp v pad_to = ceil_to v (lcm pad_to tp)" using assms(1,3) by (simp add: pad_vocab_size_def)
  ultimately show "tp dvd pad_vocab_size orig tp v pad_to" and "pad_to dvd pad_vocab_size orig tp v pad_to"
    and "v \<le> pad_vocab_size orig tp v pad_to"
    by (simp_all add: ceil_to_ge) (meson ceil_to_dvd dvd_lcm1 dvd_lcm2 dvd_trans)+
qed

section \<open>Lemmas on the loaders\<close>

text \<open>What the engine's \<open>pad_or_narrow_weight\<close> documents: the stored rows of the shard, then zero rows.\<close>

definition pads_rows :: "nat \<Rightarrow> ('a :: zero rows \<Rightarrow> nat \<Rightarrow> nat \<Rightarrow> 'a rows) \<Rightarrow> bool" where
  "pads_rows width pad_or_narrow =
     (\<forall>w start n. length w < start + n \<longrightarrow>
        pad_or_narrow w start n = drop start w @ replicate (n - (length w - start)) (replicate width 0))"

definition rect :: "nat \<Rightarrow> 'a rows \<Rightarrow> bool" where
  "rect width t = list_all (\<lambda>row. length row = width) t"

text \<open>Row \<open>i\<close> of the padded weight.\<close>

definition padded_rows :: "nat \<Rightarrow> 'a \<Rightarrow> 'a rows \<Rightarrow> nat \<Rightarrow> 'a rows" where
  "padded_rows width v loaded n = map (\<lambda>i. if i < length loaded then loaded ! i else replicate width v) [0..<n]"

lemma rect_shape: "rect width t \<Longrightarrow> map length t = replicate (length t) width"
  by (auto simp: rect_def list_all_length intro: nth_equalityI)

lemma shard_of_padded:
  assumes "pads_rows width pad_or_narrow" and "rect width loaded" and "length loaded < start + n"
  shows "(let w = pad_or_narrow loaded start n in if fp32 then fill_rows (length loaded - start) n 1 w else w)
    = map (\<lambda>k. if start + k < length loaded then loaded ! (start + k) else replicate width (pad_fill fp32 :: 'a :: {zero, one})) [0..<n]"
    (is "?l = ?r")
proof -
  let ?w = "drop start loaded @ replicate (n - (length loaded - start)) (replicate width (0 :: 'a))"
  have w: "pad_or_narrow loaded start n = ?w" using assms(1,3) by (simp add: pads_rows_def)
  have len: "length ?w = n" using assms(3) by simp
  have nth: "?w ! k = (if start + k < length loaded then loaded ! (start + k) else replicate width 0)" if "k < n" for k
    using that by (auto simp: nth_append)
  have row: "length (loaded ! j) = width" if "j < length loaded" for j using assms(2) that by (simp add: rect_def list_all_length)
  show ?thesis
  proof (cases fp32)
    case True
    then have "?l = fill_rows (length loaded - start) n 1 ?w" by (simp add: w)
    also have "\<dots> = ?r"
    proof (rule nth_equalityI)
      fix k
      assume "k < length (fill_rows (length loaded - start) n 1 ?w)"
      then have k: "k < n" using len by (simp add: fill_rows_def)
      then show "fill_rows (length loaded - start) n 1 ?w ! k = ?r ! k"
        using nth [OF k] True len by (auto simp: fill_rows_def pad_fill_def map_replicate_const simp del: length_append)
    qed (use len in \<open>simp add: fill_rows_def\<close>)
    finally show ?thesis .
  next
    case False
    then have "?l = ?w" by (simp add: w)
    also have "\<dots> = ?r" using nth False len by (intro nth_equalityI) (auto simp: pad_fill_def simp del: length_append)
    finally show ?thesis .
  qed
qed

text \<open>The rows of rank \<open>r\<close> of the padded weight.\<close>

definition padded_part :: "nat \<Rightarrow> 'a \<Rightarrow> 'a rows \<Rightarrow> nat \<Rightarrow> nat \<Rightarrow> nat \<Rightarrow> 'a rows" where
  "padded_part width v loaded tp n r = slice (r * n) (Suc r * n) (padded_rows width v loaded (tp * n))"

lemma padded_part_rows:
  assumes "r < tp"
  shows "padded_part width v loaded tp n r
    = map (\<lambda>k. if r * n + k < length loaded then loaded ! (r * n + k) else replicate width v) [0..<n]"
proof -
  have b: "r * n + n \<le> tp * n" using mult_le_mono1 [of "Suc r" tp n] assms by (simp add: add.commute)
  show ?thesis
  proof (rule nth_equalityI)
    show len: "length (padded_part width v loaded tp n r)
        = length (map (\<lambda>k. if r * n + k < length loaded then loaded ! (r * n + k) else replicate width v) [0..<n])"
      using b by (simp add: padded_part_def padded_rows_def min_def)
    fix k
    assume "k < length (padded_part width v loaded tp n r)"
    then have "k < n" using len by simp
    then show "padded_part width v loaded tp n r ! k
        = map (\<lambda>k. if r * n + k < length loaded then loaded ! (r * n + k) else replicate width v) [0..<n] ! k"
      using b by (simp add: padded_part_def padded_rows_def nth_slice)
  qed
qed

lemma padded_part_rect: "r < tp \<Longrightarrow> rect width loaded \<Longrightarrow> map length (padded_part width v loaded tp n r) = replicate n width"
  by (intro nth_equalityI) (auto simp: padded_part_rows rect_def list_all_length)

lemma stored_part:
  assumes "r < tp" and "Suc r * n \<le> length loaded"
  shows "slice (r * n) (Suc r * n) loaded = padded_part width v loaded tp n r"
proof (rule nth_equalityI)
  show len: "length (slice (r * n) (Suc r * n) loaded) = length (padded_part width v loaded tp n r)"
    using assms by (simp add: padded_part_rows min_def)
  fix k
  assume "k < length (slice (r * n) (Suc r * n) loaded)"
  then have "k < n" using len assms(1) by (simp add: padded_part_rows)
  then show "slice (r * n) (Suc r * n) loaded ! k = padded_part width v loaded tp n r ! k"
    using assms by (simp add: padded_part_rows nth_slice)
qed

lemma load_column_part:
  assumes "pads_rows width pad_or_narrow" and "rect width loaded" and "rect width data" and "0 < length data" and "r < tp"
  shows "load_column_parallel_weight pad_or_narrow orig_col False fp32 param_fp32 r data loaded
    = Inr (padded_part width (pad_fill fp32) loaded tp (length data) r)"
proof -
  let ?n = "length data" and ?p = "padded_part width (pad_fill fp32) loaded tp (length data) r"
  have shape: "map length data = map length ?p" using assms by (simp add: rect_shape padded_part_rect)
  show ?thesis
  proof (cases "length loaded < r * ?n + ?n")
    case True
    have len: "length (pad_or_narrow loaded (r * ?n) ?n) = ?n"
      using assms(1) True by (simp add: pads_rows_def)
    have "length loaded - r * ?n < ?n" using True assms(4) by linarith
    moreover have "(let w = pad_or_narrow loaded (r * ?n) ?n in if fp32 then fill_rows (length loaded - r * ?n) ?n 1 w else w) = ?p"
      using shard_of_padded [OF assms(1,2) True, of fp32] padded_part_rows [OF assms(5), of width _ loaded ?n] by simp
    ultimately show ?thesis
      using True len shape by (cases fp32) (simp_all add: load_column_parallel_weight_def Let_def)
  next
    case False
    then have "slice (r * ?n) (r * ?n + ?n) loaded = ?p" using stored_part [OF assms(5), of ?n loaded] by (simp add: add.commute)
    moreover have "\<not> length loaded \<le> r * ?n" using False assms(4) by linarith
    ultimately show ?thesis using False shape by (simp add: load_column_parallel_weight_def Let_def)
  qed
qed

lemma column_loader_part:
  assumes "pads_rows width pad_or_narrow" and "rect width loaded" and "rect width data" and "0 < length data" and "r < tp"
    and "\<not> fp32 \<or> r * length data \<le> length loaded"
    and "Suc r * length data \<le> length loaded \<Longrightarrow> orig_lin loaded = Inr (slice (r * length data) (Suc r * length data) loaded)"
  shows "column_weight_loader pad_or_narrow orig_lin True False False fp32 r data loaded
    = Inr (padded_part width (pad_fill fp32) loaded tp (length data) r)"
proof -
  let ?n = "length data" and ?p = "padded_part width (pad_fill fp32) loaded tp (length data) r"
  have shape: "map length data = map length ?p" using assms by (simp add: rect_shape padded_part_rect)
  show ?thesis
  proof (cases "length loaded < r * ?n + ?n")
    case True
    have real: "0 \<le> int (length loaded) - int (r * ?n)" "int (length loaded) - int (r * ?n) < int ?n"
      "nat (int (length loaded) - int (r * ?n)) = length loaded - r * ?n" if fp32
      using assms(6) that True by linarith+
    have "length loaded - r * ?n < ?n" using True assms(4) by linarith
    moreover have "(let w = pad_or_narrow loaded (r * ?n) ?n in if fp32 then fill_rows (length loaded - r * ?n) ?n 1 w else w) = ?p"
      using shard_of_padded [OF assms(1,2) True, of fp32] padded_part_rows [OF assms(5), of width _ loaded ?n] by simp
    ultimately show ?thesis
      unfolding column_weight_loader_def Let_def using True shape
      by (cases fp32) (simp_all only: real if_True if_False simp_thms)
  next
    case False
    then have "Suc r * ?n \<le> length loaded" by simp
    then show ?thesis using False assms(7) stored_part [OF assms(5), of ?n loaded width "pad_fill fp32"]
      by (simp add: column_weight_loader_def Let_def)
  qed
qed

text \<open>A rank wholly past the stored rows keeps zero block scales in \<open>ColumnParallelLinear\<close>, where the
  comment asks for a positive power of two.\<close>

lemma column_scales_past_the_end:
  assumes "pads_rows width pad_or_narrow" and "length loaded < r * length data" and "rect width data"
  shows "column_weight_loader pad_or_narrow orig_lin True False False True r data loaded
    = Inr (replicate (length data) (replicate width 0))"
proof -
  have "map length data = replicate (length data) width" by (rule rect_shape [OF assms(3)])
  moreover have "\<not> 0 \<le> int (length loaded) - int (r * length data)" using assms(2) by linarith
  ultimately show ?thesis using assms(1,2) by (simp add: column_weight_loader_def Let_def pads_rows_def del: of_nat_mult)
qed

section \<open>Properties\<close>

text \<open>C32: the padded configuration shards. For a text configuration of whole groups of 1, 2, 4 or 8 heads and any tensor-parallel
  size at which 128 heads per rank are enough, the patched \<open>ModelConfig\<close> has head and group counts the ranks
  divide, a local head count that has a kernel, at least the stored heads and groups with the same heads per
  group, and draft experts the ranks divide; the copies of the counts agree, although the text is padded twice.\<close>

theorem padded_config_shards:
  assumes "0 < tp" and "0 < groups" and "per dvd 8" and "ceil_to groups tp * per \<le> 128 * tp"
    and "m_hf m = Some hf" and "hf_text hf = Some t"
    and "num_attention_heads t = Some (groups * per)" and "o_groups t = Some groups"
  shows "\<exists>hf' t' h g. m_hf (model_config_init tp m) = Some hf' \<and> hf_text hf' = Some t'
    \<and> num_attention_heads t' = Some h \<and> o_groups t' = Some g \<and> shardable tp per (h, g) \<and> groups * per \<le> h \<and> groups \<le> g
    \<and> tp dvd or0 (dspark_n_routed_experts t') \<and> or0 (dspark_n_routed_experts t) \<le> or0 (dspark_n_routed_experts t')
    \<and> m_heads (model_config_init tp m) = map_option (\<lambda>_. h) (m_heads m)
    \<and> m_text (model_config_init tp m)
      = map_option (\<lambda>c. c\<lparr>num_attention_heads := Some h, o_groups := map_option (\<lambda>_. g) (o_groups c)\<rparr>) (m_text m)"
proof -
  obtain h g where p: "pad_text_heads tp t
      = (t\<lparr>o_groups := Some g, num_attention_heads := Some h\<rparr>, if h = groups * per \<and> g = groups then None else Some h)"
    and s: "shardable tp per (h, g)" "groups * per \<le> h" "groups \<le> g"
    using pad_text_heads_spec [OF assms(1-4,7,8)] by blast
  let ?t = "pad_draft tp (t\<lparr>o_groups := Some g, num_attention_heads := Some h\<rparr>)"
  have per: "0 < per" using assms(3) by (auto intro: Nat.gr0I)
  have "pad_text_heads tp ?t = (?t, None)" using s assms(1,2) per by (intro pad_text_heads_again [of tp per g h]) simp_all
  then have t: "hf_own (pad_dsv41_hf_config tp \<lparr>hf_own = ?t, hf_text = None, hf_vision = None\<rparr>) = ?t"
    using pad_draft_shards(3) [OF assms(1)] by (simp add: pad_dsv41_hf_config_def)
  have d: "tp dvd or0 (dspark_n_routed_experts ?t)" "or0 (dspark_n_routed_experts t) \<le> or0 (dspark_n_routed_experts ?t)"
    using pad_draft_shards(1,2) [OF assms(1), of "t\<lparr>o_groups := Some g, num_attention_heads := Some h\<rparr>"] by simp_all
  have hf: "hf_text (pad_dsv41_hf_config tp hf) = Some ?t" using p assms(6) by (simp add: pad_dsv41_hf_config_def Let_def)
  show ?thesis
  proof (intro exI conjI)
    show "m_hf (model_config_init tp m) = Some ((pad_dsv41_hf_config tp hf)\<lparr>hf_text := Some ?t\<rparr>)"
      using assms(5) hf t by (auto simp: model_config_init_def Let_def split: option.splits)
    show "m_heads (model_config_init tp m) = map_option (\<lambda>_. h) (m_heads m)"
      using assms(5) hf t by (auto simp: model_config_init_def Let_def split: option.splits)
    show "m_text (model_config_init tp m)
      = map_option (\<lambda>c. c\<lparr>num_attention_heads := Some h, o_groups := map_option (\<lambda>_. g) (o_groups c)\<rparr>) (m_text m)"
      using assms(5) hf t by (cases "m_text m") (auto simp: model_config_init_def Let_def split: option.splits)
  qed (use s d in simp_all)
qed

text \<open>The published checkpoint on three ranks.\<close>

definition wit_model :: model_cfg where
  "wit_model = (let t = \<lparr>num_attention_heads = Some 64, o_groups = Some 8, dspark_n_routed_experts = Some 128\<rparr> in
     \<lparr>m_hf = Some \<lparr>hf_own = t, hf_text = Some t, hf_vision = None\<rparr>, m_text = Some t, m_heads = Some 64\<rparr>)"

theorem padded_config_shards_witness:
  "\<exists>hf' t'. m_hf (model_config_init 3 wit_model) = Some hf' \<and> hf_text hf' = Some t' \<and> shardable 3 8 (96, 12)
    \<and> num_attention_heads t' = Some 96 \<and> o_groups t' = Some 12 \<and> m_heads (model_config_init 3 wit_model) = Some 96"
proof -
  let ?t = "\<lparr>num_attention_heads = Some 64, o_groups = Some 8, dspark_n_routed_experts = Some 128\<rparr>"
  have hf: "m_hf wit_model = Some \<lparr>hf_own = ?t, hf_text = Some ?t, hf_vision = None\<rparr>" by (simp add: wit_model_def Let_def)
  obtain hf' t' h g where *: "m_hf (model_config_init 3 wit_model) = Some hf'" "hf_text hf' = Some t'"
    "num_attention_heads t' = Some h" "o_groups t' = Some g" "shardable 3 8 (h, g)"
    "m_heads (model_config_init 3 wit_model) = map_option (\<lambda>_. h) (m_heads wit_model)"
    using padded_config_shards [OF _ _ _ _ hf, of 3 8 8 ?t] by (auto simp: ceil_to_def)
  have "m_heads (model_config_init 3 wit_model) = Some 96" by code_simp
  then have "h = 96" using *(6) by (simp add: wit_model_def Let_def)
  moreover from this *(5) have "g = 12" by (simp add: shardable_def)
  ultimately show ?thesis using * \<open>m_heads (model_config_init 3 wit_model) = Some 96\<close> by auto
qed

text \<open>C33: the padded shards reassemble. The rows the ranks load of a stored weight, one shard after the other, are the stored rows
  followed by padding rows only (zeros for a weight, ones for a 32-bit block scale), in the parameter's loader for
  every rank and in the linear layer's loader for every rank that starts inside the stored rows or loads a weight.\<close>

theorem column_shards_reassemble:
  assumes "pads_rows width pad_or_narrow" and "rect width loaded" and "rect width data" and "0 < length data"
    and "length loaded \<le> tp * length data"
    and "\<And>r. r < tp \<Longrightarrow> Suc r * length data \<le> length loaded
      \<Longrightarrow> orig_lin r loaded = Inr (slice (r * length data) (Suc r * length data) loaded)"
  shows "\<exists>parts. length parts = tp
    \<and> (\<forall>r < tp. load_column_parallel_weight pad_or_narrow orig_col False fp32 param_fp32 r data loaded = Inr (parts ! r)
        \<and> (\<not> fp32 \<or> r * length data \<le> length loaded \<longrightarrow>
             column_weight_loader pad_or_narrow (orig_lin r) True False False fp32 r data loaded = Inr (parts ! r)))
    \<and> concat parts = loaded @ replicate (tp * length data - length loaded) (replicate width (pad_fill fp32))"
proof (intro exI conjI)
  let ?parts = "map (padded_part width (pad_fill fp32) loaded tp (length data)) [0..<tp]"
  show "length ?parts = tp" by simp
  show "\<forall>r < tp. load_column_parallel_weight pad_or_narrow orig_col False fp32 param_fp32 r data loaded = Inr (?parts ! r)
      \<and> (\<not> fp32 \<or> r * length data \<le> length loaded \<longrightarrow>
           column_weight_loader pad_or_narrow (orig_lin r) True False False fp32 r data loaded = Inr (?parts ! r))"
  proof (intro allI impI conjI)
    fix r
    assume r: "r < tp"
    show "load_column_parallel_weight pad_or_narrow orig_col False fp32 param_fp32 r data loaded = Inr (?parts ! r)"
      using load_column_part [OF assms(1-4) r, of orig_col fp32 param_fp32] r by simp
    assume c: "\<not> fp32 \<or> r * length data \<le> length loaded"
    have "column_weight_loader pad_or_narrow (orig_lin r) True False False fp32 r data loaded
        = Inr (padded_part width (pad_fill fp32) loaded tp (length data) r)"
      by (rule column_loader_part [OF assms(1-4) r c]) (rule assms(6) [OF r])
    then show "column_weight_loader pad_or_narrow (orig_lin r) True False False fp32 r data loaded = Inr (?parts ! r)"
      using r by simp
  qed
  let ?all = "padded_rows width (pad_fill fp32) loaded (tp * length data)"
  have "concat ?parts = slice 0 (tp * length data) ?all"
    using concat_even_slices [of 0 "length data" ?all tp] by (simp add: padded_part_def [abs_def])
  also have "\<dots> = ?all" by (rule slice_all) (simp add: padded_rows_def)
  also have "\<dots> = loaded @ replicate (tp * length data - length loaded) (replicate width (pad_fill fp32))"
    using assms(5) by (intro nth_equalityI) (auto simp: padded_rows_def nth_append)
  finally show "concat ?parts = loaded @ replicate (tp * length data - length loaded) (replicate width (pad_fill fp32))" .
qed

definition wit_pad :: "int rows \<Rightarrow> nat \<Rightarrow> nat \<Rightarrow> int rows" where
  "wit_pad w start n = take n (drop start w) @ replicate (n - (length w - start)) [0]"

theorem column_shards_reassemble_witness:
  "\<exists>parts. length parts = 3 \<and> concat parts = [[5], [6], [7], [1], [1], [1 :: int]]
    \<and> load_column_parallel_weight wit_pad (\<lambda>w r. Inr w) False True True 1 [[0], [0]] [[5], [6], [7]] = Inr (parts ! 1)"
proof -
  have "pads_rows 1 wit_pad" by (auto simp: pads_rows_def wit_pad_def)
  then obtain parts where "length parts = 3"
    "\<forall>r < 3. load_column_parallel_weight wit_pad (\<lambda>w r. Inr w) False True True r [[0], [0]] [[5], [6], [7]] = Inr (parts ! r)"
    "concat parts = [[5], [6], [7]] @ replicate 3 (replicate 1 (pad_fill True :: int))"
    using column_shards_reassemble [of 1 wit_pad "[[5], [6], [7]]" "[[0], [0]]" 3 "\<lambda>r w. Inr (slice (r * 2) (Suc r * 2) w)"
        "\<lambda>w r. Inr w" True True] by (auto simp: rect_def numeral_2_eq_2)
  then show ?thesis by (intro exI [of _ parts]) (simp add: pad_fill_def numeral_3_eq_3)
qed

end
