(* ===== verification/Chat_Request.thy ===== *)
theory Chat_Request
  imports Py_Prelude
begin

text \<open>
  Request normalisation (\<open>adapter/encoding_compat.py\<close>): the thinking switches of the chat template, the
  completion-token cap, the reasoning-effort table and the optional budget of Anthropic's thinking parameter. A dictionary
  is the list of its items in insertion order with distinct keys; template values are JSON values. The engine's methods
  and validator are arguments.
\<close>

section \<open>Dictionaries\<close>

type_synonym kwargs = "(string \<times> json) list"

text \<open>\<open>d[k] = v\<close>.\<close>

fun dict_set :: "string \<Rightarrow> 'v \<Rightarrow> (string \<times> 'v) list \<Rightarrow> (string \<times> 'v) list" where
  "dict_set k v [] = [(k, v)]"
| "dict_set k v ((k', v') # d) = (if k' = k then (k, v) # d else (k', v') # dict_set k v d)"

text \<open>\<open>bool(v)\<close>.\<close>

fun py_truth :: "json \<Rightarrow> bool" where
  "py_truth JNull = False"
| "py_truth (JBool b) = b"
| "py_truth (JInt n) = (n \<noteq> 0)"
| "py_truth (JStr s) = (s \<noteq> [])"
| "py_truth (JList xs) = (xs \<noteq> [])"
| "py_truth (JDict d) = (d \<noteq> [])"

section \<open>Thinking switches\<close>

definition normalize_chat_template_kwargs :: "kwargs option \<Rightarrow> kwargs option" where
  "normalize_chat_template_kwargs kw =
     (case kw of
        None \<Rightarrow> None
      | Some [] \<Rightarrow> Some []
      | Some out \<Rightarrow>
          (case (map_of out ''thinking'', map_of out ''enable_thinking'') of
             (Some t, Some _) \<Rightarrow>
               Some (dict_set ''enable_thinking'' (JBool (py_truth t)) (dict_set ''thinking'' (JBool (py_truth t)) out))
           | (None, Some e) \<Rightarrow>
               Some (dict_set ''enable_thinking'' (JBool (py_truth e)) (dict_set ''thinking'' (JBool (py_truth e)) out))
           | (Some t, None) \<Rightarrow>
               Some (dict_set ''enable_thinking'' (JBool (py_truth t)) (dict_set ''thinking'' (JBool (py_truth t)) out))
           | (None, None) \<Rightarrow> Some out))"

section \<open>Completion cap\<close>

definition DEFAULT_MAX_NEW_TOKENS :: int where "DEFAULT_MAX_NEW_TOKENS = 32768"

definition configured_max_new_tokens :: "environ \<Rightarrow> int" where
  "configured_max_new_tokens env =
     (case py_int (py_strip (env_get env ''DSV41_MAX_NEW_TOKENS'' ''32768'')) of
        Some n \<Rightarrow> n
      | None \<Rightarrow> DEFAULT_MAX_NEW_TOKENS)"

record chat_request =
  chat_template_kwargs :: "kwargs option"
  max_completion_tokens :: "int option"
  max_tokens :: "int option"

definition apply_request_max_tokens :: "environ \<Rightarrow> chat_request option \<Rightarrow> chat_request option" where
  "apply_request_max_tokens env request =
     (let limit = configured_max_new_tokens env in
      case request of
        None \<Rightarrow> None
      | Some q \<Rightarrow>
          if limit \<le> 0 then Some q
          else
            (case (case max_completion_tokens q of Some c \<Rightarrow> Some c | None \<Rightarrow> max_tokens q) of
               None \<Rightarrow> Some (q\<lparr>max_tokens := Some limit\<rparr>)
             | Some current \<Rightarrow>
                 if limit < current then
                   (if max_completion_tokens q \<noteq> None then Some (q\<lparr>max_completion_tokens := Some limit\<rparr>)
                    else Some (q\<lparr>max_tokens := Some limit\<rparr>))
                 else Some q))"

text \<open>The patched methods of the chat handler; \<open>original\<close> and \<open>original_convert\<close> are the engine's.\<close>

definition process_messages :: "(chat_request \<Rightarrow> 'r) \<Rightarrow> chat_request \<Rightarrow> 'r" where
  "process_messages original q =
     original (q\<lparr>chat_template_kwargs := normalize_chat_template_kwargs (chat_template_kwargs q)\<rparr>)"

definition convert_to_internal :: "environ \<Rightarrow> (chat_request option \<Rightarrow> 'r) \<Rightarrow> chat_request option \<Rightarrow> 'r" where
  "convert_to_internal env original_convert q = original_convert (apply_request_max_tokens env q)"

section \<open>Effort table and Anthropic thinking\<close>

definition PUBLISHER_REASONING_EFFORT :: "(string \<times> int) list" where
  "PUBLISHER_REASONING_EFFORT = [(''low'', 50), (''high'', 75), (''xhigh'', 75), (''max'', 100)]"

definition install_encoder :: "(string \<times> int) list \<Rightarrow> (string \<times> int) list" where
  "install_encoder mappings = fold (\<lambda>(k, v). dict_set k v) PUBLISHER_REASONING_EFFORT []"

record thinking_param =
  think_type :: string
  think_budget :: "int option"

definition validate_thinking_shape :: "(thinking_param \<Rightarrow> thinking_param res) \<Rightarrow> thinking_param \<Rightarrow> thinking_param res" where
  "validate_thinking_shape original p =
     (if think_type p = ''enabled'' \<and> think_budget p = None then Inr p else original p)"

text \<open>The protocol module: its shape validator, if there, whether it was patched, and its source text when it can be read.\<close>

record shape_entry =
  e_func :: "thinking_param \<Rightarrow> thinking_param res"
  e_patched :: bool
  e_source :: "string option"

definition ANTHROPIC_THINKING_SHAPE_SHA256 :: string where
  "ANTHROPIC_THINKING_SHAPE_SHA256 = ''a94a9e59de88daa15d7ff86ea1b3c616d3b1b550ca90a5203c21b0aed363740e''"

definition install_anthropic_protocol :: "(string \<Rightarrow> string) \<Rightarrow> shape_entry option \<Rightarrow> shape_entry option \<times> bool" where
  "install_anthropic_protocol sha256 entry =
     (case entry of
        None \<Rightarrow> (None, False)
      | Some e \<Rightarrow>
          if e_patched e then (Some e, False)
          else (case e_source e of
                  None \<Rightarrow> (Some e, False)
                | Some src \<Rightarrow>
                    if sha256 src \<noteq> ANTHROPIC_THINKING_SHAPE_SHA256 then (Some e, False)
                    else (Some (e\<lparr>e_func := validate_thinking_shape (e_func e), e_patched := True\<rparr>), True)))"

section \<open>Lemmas\<close>

lemma map_of_dict_set [simp]: "map_of (dict_set k v d) = (map_of d)(k \<mapsto> v)"
  by (induction k v d rule: dict_set.induct) auto

lemma dict_set_same: "map_of d k = Some v \<Longrightarrow> dict_set k v d = d"
  by (induction k v d rule: dict_set.induct) (auto split: if_splits)

lemma dict_set_keys: "map fst (dict_set k v d) = (if k \<in> fst ` set d then map fst d else map fst d @ [k])"
  by (induction k v d rule: dict_set.induct) auto

text \<open>The tokens the engine takes: \<open>max_completion_tokens\<close> before \<open>max_tokens\<close>.\<close>

definition effective_max :: "chat_request \<Rightarrow> int option" where
  "effective_max q = (case max_completion_tokens q of Some c \<Rightarrow> Some c | None \<Rightarrow> max_tokens q)"

text \<open>The switch a client asked for: \<open>thinking\<close> before \<open>enable_thinking\<close>.\<close>

definition asked_thinking :: "kwargs \<Rightarrow> bool option" where
  "asked_thinking d = (case map_of d ''thinking'' of Some t \<Rightarrow> Some (py_truth t) | None \<Rightarrow> map_option py_truth (map_of d ''enable_thinking''))"

lemma normalize_unfold:
  "normalize_chat_template_kwargs (Some d)
    = Some (case asked_thinking d of
              None \<Rightarrow> d
            | Some b \<Rightarrow> dict_set ''enable_thinking'' (JBool b) (dict_set ''thinking'' (JBool b) d))"
  by (cases d) (auto simp: normalize_chat_template_kwargs_def asked_thinking_def split: option.splits)

lemma normalize_idem: "normalize_chat_template_kwargs (normalize_chat_template_kwargs (Some d)) = normalize_chat_template_kwargs (Some d)"
proof (cases "asked_thinking d")
  case (Some b)
  let ?n = "dict_set ''enable_thinking'' (JBool b) (dict_set ''thinking'' (JBool b) d)"
  have "asked_thinking ?n = Some b" by (simp add: asked_thinking_def)
  moreover have "dict_set ''thinking'' (JBool b) ?n = ?n" "dict_set ''enable_thinking'' (JBool b) ?n = ?n"
    by (rule dict_set_same, simp)+
  ultimately show ?thesis using Some by (simp add: normalize_unfold)
qed (simp add: normalize_unfold)

lemma cap_unfold:
  assumes "0 < configured_max_new_tokens env"
  shows "apply_request_max_tokens env (Some q)
    = Some (case max_completion_tokens q of
              Some c \<Rightarrow> q\<lparr>max_completion_tokens := Some (min c (configured_max_new_tokens env))\<rparr>
            | None \<Rightarrow> q\<lparr>max_tokens := Some (case max_tokens q of None \<Rightarrow> configured_max_new_tokens env
                                         | Some n \<Rightarrow> min n (configured_max_new_tokens env))\<rparr>)"
proof -
  have same: "q\<lparr>max_completion_tokens := Some c\<rparr> = q" if "max_completion_tokens q = Some c" for c using that by (cases q) simp
  have same': "q\<lparr>max_tokens := Some n\<rparr> = q" if "max_tokens q = Some n" for n using that by (cases q) simp
  show ?thesis using assms same same' by (auto simp: apply_request_max_tokens_def Let_def min_def split: option.splits)
qed

section \<open>Properties\<close>

text \<open>C34: what the engine sees of a chat request. The template switches agree and carry what the client asked for
  (\<open>thinking\<close> before \<open>enable_thinking\<close>), every other template argument is kept, and a client that asked for neither
  keeps the engine's default; with a positive limit the completion length is the client's, cut at the limit, or
  the limit itself when there was none, and the template arguments are kept. Doing either twice is doing it once.\<close>

theorem chat_request_normalised:
  assumes "chat_template_kwargs q = Some d" and "0 < configured_max_new_tokens env"
  shows "(\<exists>d'. process_messages id q = q\<lparr>chat_template_kwargs := Some d'\<rparr>
      \<and> map_of d' = (case asked_thinking d of
                       None \<Rightarrow> map_of d
                     | Some b \<Rightarrow> (map_of d)(''thinking'' \<mapsto> JBool b, ''enable_thinking'' \<mapsto> JBool b)))
    \<and> process_messages id (process_messages id q) = process_messages id q
    \<and> (\<exists>q'. convert_to_internal env id (Some q) = Some q'
      \<and> effective_max q' = Some (case effective_max q of None \<Rightarrow> configured_max_new_tokens env | Some n \<Rightarrow> min n (configured_max_new_tokens env))
      \<and> chat_template_kwargs q' = chat_template_kwargs q
      \<and> convert_to_internal env id (Some q') = Some q')" (is "?A \<and> ?B \<and> (\<exists>q'. ?C q')")
proof (intro conjI)
  show ?A using assms(1) by (auto simp: process_messages_def normalize_unfold split: option.splits)
  show ?B using normalize_idem [of d] assms(1) by (simp add: process_messages_def)
  show "\<exists>q'. ?C q'"
  proof (cases "max_completion_tokens q")
    case None
    then show ?thesis using assms(2)
      by (intro exI [of _ "q\<lparr>max_tokens := Some (case max_tokens q of None \<Rightarrow> configured_max_new_tokens env
          | Some n \<Rightarrow> min n (configured_max_new_tokens env))\<rparr>"])
        (auto simp: convert_to_internal_def cap_unfold effective_max_def split: option.splits)
  next
    case (Some c)
    then show ?thesis using assms(2)
      by (intro exI [of _ "q\<lparr>max_completion_tokens := Some (min c (configured_max_new_tokens env))\<rparr>"])
        (simp add: convert_to_internal_def cap_unfold effective_max_def)
  qed
qed

theorem chat_request_normalised_witness:
  "process_messages id \<lparr>chat_template_kwargs = Some [(''enable_thinking'', JInt 1)], max_completion_tokens = None, max_tokens = Some 99\<rparr>
     = \<lparr>chat_template_kwargs = Some [(''enable_thinking'', JBool True), (''thinking'', JBool True)], max_completion_tokens = None,
        max_tokens = Some 99\<rparr>
   \<and> (\<exists>q'. convert_to_internal [''DSV41_MAX_NEW_TOKENS'' \<mapsto> ''50''] id
        (Some \<lparr>chat_template_kwargs = Some [(''enable_thinking'', JInt 1)], max_completion_tokens = None, max_tokens = Some 99\<rparr>) = Some q'
      \<and> effective_max q' = Some 50)"
proof -
  let ?q = "\<lparr>chat_template_kwargs = Some [(''enable_thinking'', JInt 1)], max_completion_tokens = None, max_tokens = Some 99\<rparr>"
  let ?env = "[''DSV41_MAX_NEW_TOKENS'' \<mapsto> ''50'']"
  have limit: "configured_max_new_tokens ?env = 50" by code_simp
  have "\<exists>q'. convert_to_internal ?env id (Some ?q) = Some q'
      \<and> effective_max q' = Some (case effective_max ?q of None \<Rightarrow> configured_max_new_tokens ?env
          | Some n \<Rightarrow> min n (configured_max_new_tokens ?env))"
    using chat_request_normalised [of ?q "[(''enable_thinking'', JInt 1)]" ?env] limit by auto
  moreover have "effective_max ?q = Some 99" by (simp add: effective_max_def)
  moreover have "process_messages id ?q
      = \<lparr>chat_template_kwargs = Some [(''enable_thinking'', JBool True), (''thinking'', JBool True)], max_completion_tokens = None,
         max_tokens = Some 99\<rparr>"
    by (simp add: process_messages_def normalize_chat_template_kwargs_def)
  ultimately show ?thesis using limit by simp
qed

end
