(* ===== verification/Spec2Isabelle.thy ===== *)
theory Spec2Isabelle
  imports Fast_Pace Row_Store Loop_Abort Prefill_Bypass Replicated_Split Sp_Layers Block_Law Spec_Sync Cert_Bound Moe_Next Index_Chunked Ab_Variant Boot Sched_Guard Tp_Pad Chat_Request
begin

text \<open>
  A verification development for the DeepSeek-V4.1 serving stack on DGX Spark clusters.

  \<^bold>\<open>The program.\<close> The repository serves one model with SGLang over a small group of tensor-parallel ranks. Its own logic is the
  adapter directory: Python modules that \<open>adapter/sitecustomize.py\<close> installs into every worker and that replace or
  wrap functions of the engine; \<open>boot.py\<close> starts a node. Some load and store data (the checkpoint loader, the Engram
  table and its row store, the padding of shards), some change how a prefill runs (sequence parallelism, column-split
  layers, the row split of the indexer, the prefill bypass, the chunk size), some how a decode step runs (block
  verification of drafts, the verify length, the certified head, the rank-0 broadcasts, the loop stop), one runs
  the routed experts, and two check or rewrite requests. The GPU kernels are the vendored packages under \<open>runtime/\<close>.

  \<^bold>\<open>How it is modelled.\<close> Exceptions are the error side of a sum type (\<open>py_error\<close>), module state is a record passed
  along, environment variables are a map. A collective acts on all ranks at once: a function that calls one takes
  the list of the ranks' tensors. Code outside the repository (engine methods, GPU kernels, the collectives, the
  kernel's \<open>pread\<close>) is an argument of the definitions that call it; what the theorems need of it is a named hypothesis
  that states its documented behaviour, and every witness instantiates it. Kernel results are opaque values, so the
  equality theorems hold for any rounding; where the code compares floats (the thresholds of the certified head, the block
  scores of the indexer) they are real numbers with the infinities and NaN, and the bounds of the certified head are
  computed in the IEEE formats of the code; the acceptance rule and the confidences
  use rational numbers in place of 32-bit floats, with the \<open>1e-30\<close> floors kept. Device counters and seeds of the
  draft noise are 64-bit words, the expert ids of the remap kernel wrap at 32 bits.

  \<^bold>\<open>Theories, sources and results.\<close>
  \<^item> \<open>Py_Prelude\<close>, \<open>Py_Float\<close>, \<open>Rank_Split\<close>: Python values and strings; slices and alignment; the order of float values; the
    locale of a contiguous partition of rows over ranks, interpreted by the Engram ownership, the column split, the row
    shards and the indexer's partition.
  \<^item> \<open>Boot\<close> (\<open>boot.py\<close>, \<open>adapter/mxfp8_mode.py\<close>): settings, the integrity check of the checkpoint with its receipt, the
    engine's arguments. Over any sequence of boots an accepted checkpoint has the published digests; the pinned flag
    replaces every other form; the engine starts exactly on the settings it can serve.
  \<^item> \<open>Fast_Plan\<close>, \<open>Fast_Read\<close>, \<open>Fast_Shard\<close>, \<open>Fast_Pace\<close> (\<open>adapter/fast_load.py\<close>): which tensors and byte ranges a
    rank reads, the slab layout, the \<open>preadv\<close> loops, the eager shard handles with their stand-ins, the load
    phases, the pacing of weight copies. The bytes handed to the model are the stored ones, the rank slices
    reassemble, slabs never overlap, a failed read falls back, the pacing keeps its budget and cannot deadlock.
  \<^item> \<open>Engram_Pack\<close> (\<open>scripts/pack_engram.py\<close>), \<open>Row_Store\<close> (\<open>adapter/row_store.cpp\<close>, \<open>adapter/engram_backend.py\<close>):
    packed row files and the cached row lookups. Every interleaving of lookups returns the checkpoint's bytes;
    reads and writes of the packer may be short (the write count is ignored by the code): a packed file is complete and
    accepted by the store of its rank, or short and refused; each row has one serving rank.
  \<^item> \<open>Replicated_Split\<close> (\<open>adapter/replicated_split.py\<close>): the column split equals the stock layer, with the plain and
    the compact gathers and their checks; on the call that decides whatever the kernels compute, up to the values \<open>torch.equal\<close>
    does not tell apart. The RoCE column gather is an argument, trusted only after its check.
  \<^item> \<open>Prefill_Sp\<close>, \<open>Sp_Mxfp8\<close>, \<open>Sp_Layers\<close> (\<open>adapter/prefill_sp.py\<close>): the plan and its checks, the tail rows, the
    quantized gathers with their scale layout, the layer loop. The loop on row shards is the loop on all rows, with the
    MXFP8 attention input on or off; the self-checks of the code (the \<open>wkv\<close> projection, the MXFP8 input) are part of the
    model, and exactness is assumed only where their verdict is ON (\<open>wkv_ready\<close>, \<open>fp8_net_ok\<close>, \<open>fp8_state_ok\<close>). Decoder
    layers are assumed row-local but for attention and MoE, and the loop theorem keeps the MXFP8 MoE input off: its deciding
    chunk has a theorem of its own. The deciding chunks return the stock results; ranks agree.
  \<^item> \<open>Prefill_Split\<close> (\<open>adapter/spark_prefill_dense.py\<close>): the query rows of the prefill indexer split over the ranks give the
    selections and masks of one rank; the block ids that are gathered in place of a mask are lossless.
  \<^item> \<open>Index_Chunked\<close> (\<open>adapter/indexer_chunked.py\<close>, \<open>adapter/indexer_chunked_v3.py\<close>, \<open>adapter/indexer_budget.py\<close>): the dense prefill indexer
    from the keys of a batch to its page and raw indices, in bounded row chunks, and the choice of the backport. Chunks, tail masks and
    the split of the rows over the ranks change no index and no mask, and no chunk exceeds the budget.
  \<^item> \<open>Moe_Next\<close> (\<open>adapter/moe_b12x_next.py\<close>): the plan table, the remap of expert ids, capacities, plans and arena, the
    chunked forward and the dispatch. The ranks' rows add up to the sum over all experts, the remap kernel with its 32-bit
    ids is the 64-bit reference, a batch runs within its plan and the plan within the arena, and every dispatch ends.
  \<^item> \<open>Block_Verify\<close>, \<open>Block_Law\<close> (\<open>adapter/block_verify.py\<close>), \<open>Verify_Cap\<close> (\<open>adapter/verify_cap.py\<close>), \<open>Spec_Sync\<close>
    (\<open>adapter/spec_sync_free.py\<close>): the acceptance rule is lossless in exact arithmetic where the draft probabilities, weights and surpluses
    of the block are zero or at least the \<open>1e-30\<close> clamps (below them the law is another one, \<open>clamps_change_law\<close>), also when the number of drafts
    verified is chosen from the drafts and their confidences; a live length is a shorter block, stays inside the
    block in every reachable state and is a stopping rule; dead rows route like their anchor; merged and audited broadcasts give rank 0's values, a skipped one leaves each rank's own, which
    is the same exactly when an audit counts no mismatch; the draft noise is the same on every
    rank and no key repeats.
  \<^item> \<open>Cert_Head\<close> (\<open>adapter/cert_head.py\<close>): the thresholds and tiles of the certified head, its dispatch, the agreement of the
    ranks at load, the arming of a step, the check counters. Given sound bounds, a certified step has the stock maxima on
    every rank after the gather and any stop mask; it runs only when every reader is a greedy argmax.
  \<^item> \<open>Float_Round\<close>, \<open>Cert_Bound\<close> (\<open>adapter/cert_head.py\<close>): binary formats with rounding to nearest even, underflow and
    overflow, and a locale of what an error analysis uses of a rounding, interpreted by fp64, fp32, bf16 and fp16; the int8
    tables, the norms and the bounds of the screen in these formats. The bounds are sound: they enclose the stock
    logits in any order of the sums and with any contraction, on groups and rows of the sizes in use (\<open>G + NG \<le> 300\<close>, at most
    8000 columns; the server runs 128, 40 and 5120), if the tensor cores accumulate within the documented \<open>c_acc\<close>.
  \<^item> \<open>Sched_Guard\<close> (\<open>adapter/replay_guard.py\<close>, \<open>adapter/adaptive_chunk.py\<close>): requests the bounded replay cannot serve are
    rejected and no others; the chunk size is bounded and never grows with the prefix.
  \<^item> \<open>Ab_Variant\<close> (\<open>adapter/ab_variant.py\<close>): the in-boot variants of adapter flags: specs, configuration and the gates it switches on, flag
    reads, one graph map per variant, the polled flag file and the switch. A replay runs the graph of the variant in force and the ranks switch in
    step for any history of the file; child processes arm with the same configuration.
  \<^item> \<open>Loop_Abort\<close> (\<open>adapter/loop_abort.py\<close>), \<open>Prefill_Bypass\<close> (\<open>adapter/prefill_bypass.py\<close>): the loop stop fires exactly
    on the configured repetition; a bypass pass is bounded and charges what the engine charged.
  \<^item> \<open>Tp_Pad\<close> (\<open>adapter/tp3_pad.py\<close>): padded counts shard and have a kernel; padded shards reassemble. A rank that starts
    past the stored rows keeps zero block scales in one of the two loaders (\<open>column_scales_past_the_end\<close>).
  \<^item> \<open>Chat_Request\<close> (\<open>adapter/encoding_compat.py\<close>): thinking switches and the completion cap.

  \<^bold>\<open>Termination and fuel.\<close> The loops that are not structural have measures (bytes left to read, rows left, text left). The
  chunk loop of the routed experts would not end on a chunk of zero rows; it is a partial function, and that every
  dispatch of a reachable state ends is a theorem. No fuel is used. Liveness of the pacing is a theorem about its step
  relation.

  \<^bold>\<open>Composition.\<close> The read plan feeds the reads, the reads the shard handles; the packer's files the row store; the
  plan of a prefill chunk its gathers and its layer loop; the row partition its indexer; the live lengths of the verify cap the acceptance rule;
  the sync sites carry its broadcasts; the bounds of the tables are the soundness the certified head relies on.

  \<^bold>\<open>Not modelled.\<close> GPU and Triton kernels (\<open>runtime/b12x\<close>, \<open>runtime/b12x_next\<close>, the kernels inside adapters) except the
  remap and noise kernels and those of the certified head, because their meaning is floating-point
  arithmetic on a device; patches of engine files that are not in the tree; shell launchers, HTTP clients, benches and
  tests; logging and debug tracing. The live-row router (\<open>adapter/router_live.py\<close>) edits the text of an engine module that is not
  in the tree; the L2 prefetch, the eager glue and the quantized projections are kernels or their
  launch code with no result of their own; the KV metrics read engine objects by attribute.
\<close>

end
